(* ===== verification/Prelude.thy ===== *)
theory Prelude
  imports Main "HOL-Library.Word" "HOL-Library.Monad_Syntax"
begin

unbundle bit_operations_syntax

text \<open>
  Shared vocabulary of the development: bytes and byte vectors, the outcome of a C++ function
  that returns \<open>bool\<close> with out-parameters, bounds-checked vector access, unsigned subtraction
  of \<open>std::size_t\<close>, and the lemma collections the component theories use.

  \<^item> \<open>std::vector<unsigned char>\<close> and byte pointers are \<open>byte list\<close>; \<open>std::string\<close> is a
    \<open>char list\<close> whose characters are single bytes.
  \<^item> A function that returns \<open>true\<close> with its outputs, or \<open>false\<close>, is modelled by
    \<open>'a cpp = 'a option option\<close>: \<open>yes v\<close> is \<open>true\<close> with outputs \<open>v\<close>, \<open>no\<close> is \<open>false\<close>,
    and \<open>None\<close> is undefined behaviour (an index or iterator outside the vector). That
    \<open>None\<close> never happens is therefore a theorem, not a convention.
  \<^item> \<open>std::size_t\<close> is a \<open>nat\<close> below \<open>2 ^ 64\<close>. Vectors are far shorter than \<open>2 ^ 63\<close> and the
    lengths read from a packet are below \<open>2 ^ 32\<close>, so the sums in the code do not wrap; a
    difference can, and is written \<open>size_sub\<close>.
\<close>

section \<open>Types and outcomes\<close>

type_synonym byte = "8 word"
type_synonym bytes = "byte list"
type_synonym 'a cpp = "'a option option"

abbreviation yes :: "'a \<Rightarrow> 'a cpp" where
  "yes v \<equiv> Some (Some v)"

abbreviation no :: "'a cpp" where
  "no \<equiv> Some None"

text \<open>Continue with the outputs of a call that returned true; return false otherwise.\<close>

definition on_true :: "'a cpp \<Rightarrow> ('a \<Rightarrow> 'b cpp) \<Rightarrow> 'b cpp" where
  "on_true r f = (case r of None \<Rightarrow> None | Some None \<Rightarrow> no | Some (Some v) \<Rightarrow> f v)"

lemma on_true_simps [simp]:
  "on_true None f = None"
  "on_true no f = no"
  "on_true (yes v) f = f v"
  by (simp_all add: on_true_def)

lemma on_true_cong [fundef_cong]:
  "r = s \<Longrightarrow> (\<And>v. s = yes v \<Longrightarrow> f v = g v) \<Longrightarrow> on_true r f = on_true s g"
  by (cases s) (auto simp: on_true_def split: option.splits)

lemma on_true_eq_yes: "on_true r f = yes w \<longleftrightarrow> (\<exists>v. r = yes v \<and> f v = yes w)"
  by (auto simp: on_true_def split: option.splits)

lemma on_true_split:
  "P (on_true r f) \<longleftrightarrow>
     (r = None \<longrightarrow> P None) \<and> (r = no \<longrightarrow> P no) \<and> (\<forall>v. r = yes v \<longrightarrow> P (f v))"
  by (auto simp: on_true_def split: option.splits)

declare Option.bind_cong [fundef_cong]

text \<open>No undefined behaviour.\<close>

definition safe :: "'a option \<Rightarrow> bool" where
  "safe r \<longleftrightarrow> r \<noteq> None"

lemma safe_Some [simp]: "safe (Some v)"
  by (simp add: safe_def)

lemma not_safe_None [simp]: "\<not> safe None"
  by (simp add: safe_def)

lemma safe_on_true: "safe r \<Longrightarrow> (\<And>v. r = yes v \<Longrightarrow> safe (f v)) \<Longrightarrow> safe (on_true r f)"
  by (auto simp: safe_def on_true_def split: option.splits)

lemma safe_bind: "safe r \<Longrightarrow> (\<And>v. r = Some v \<Longrightarrow> safe (f v)) \<Longrightarrow> safe (Option.bind r f)"
  by (cases r) simp_all

lemma safe_if: "(b \<Longrightarrow> safe x) \<Longrightarrow> (\<not> b \<Longrightarrow> safe y) \<Longrightarrow> safe (if b then x else y)"
  by simp

lemma safe_cases [case_names no yes]:
  assumes "safe (r :: 'a cpp)" obtains "r = no" | v where "r = yes v"
proof (cases r)
  case (Some x)
  then show ?thesis using that by (cases x) simp_all
qed (use assms in simp)

section \<open>Vector access\<close>

definition byte_at :: "'a list \<Rightarrow> nat \<Rightarrow> 'a option" where
  "byte_at xs i = (if i < length xs then Some (xs ! i) else None)"

text \<open>The elements of the iterator range \<open>[begin + a, begin + b)\<close>.\<close>

definition slice :: "'a list \<Rightarrow> nat \<Rightarrow> nat \<Rightarrow> 'a list option" where
  "slice xs a b = (if a \<le> b \<and> b \<le> length xs then Some (take (b - a) (drop a xs)) else None)"

definition size_sub :: "nat \<Rightarrow> nat \<Rightarrow> nat" where
  "size_sub a b = (if b \<le> a then a - b else 2 ^ 64 + a - b)"

lemma byte_at_in [simp]: "i < length xs \<Longrightarrow> byte_at xs i = Some (xs ! i)"
  by (simp add: byte_at_def)

lemma byte_at_out [simp]: "length xs \<le> i \<Longrightarrow> byte_at xs i = None"
  by (simp add: byte_at_def)

lemma byte_at_Some: "byte_at xs i = Some b \<longleftrightarrow> i < length xs \<and> b = xs ! i"
  by (auto simp: byte_at_def)

lemma byte_at_Cons_0 [simp]: "byte_at (x # xs) 0 = Some x"
  by simp

lemma byte_at_Cons_Suc [simp]: "byte_at (x # xs) (Suc i) = byte_at xs i"
  by (simp add: byte_at_def)

lemma byte_at_append [simp]: "byte_at (pre @ xs) (length pre + i) = byte_at xs i"
  by (simp add: byte_at_def)

lemma byte_at_append_start [simp]: "byte_at (pre @ x # xs) (length pre) = Some x"
  by (simp add: byte_at_def)

lemma slice_in [simp]:
  "a \<le> b \<Longrightarrow> b \<le> length xs \<Longrightarrow> slice xs a b = Some (take (b - a) (drop a xs))"
  by (simp add: slice_def)

lemma slice_Some:
  "slice xs a b = Some ys \<longleftrightarrow> a \<le> b \<and> b \<le> length xs \<and> ys = take (b - a) (drop a xs)"
  by (auto simp: slice_def)

lemma slice_append [simp]:
  "slice (pre @ xs @ post) (length pre) (length pre + length xs) = Some xs"
  by simp

lemma size_sub_le [simp]: "b \<le> a \<Longrightarrow> size_sub a b = a - b"
  by (simp add: size_sub_def)

lemma safe_byte_at [simp]: "safe (byte_at xs i) \<longleftrightarrow> i < length xs"
  by (simp add: byte_at_def)

lemma safe_slice [simp]: "safe (slice xs a b) \<longleftrightarrow> a \<le> b \<and> b \<le> length xs"
  by (simp add: slice_def)

text \<open>
  Arrays that are written in place: an assignment to an element, an increment of one, and a loop
  over a list of indices or values whose body may leave an array.
\<close>

definition put_at :: "'a list \<Rightarrow> nat \<Rightarrow> 'a \<Rightarrow> 'a list option" where
  "put_at xs i v = (if i < length xs then Some (xs[i := v]) else None)"

definition add_at :: "'a list \<Rightarrow> nat \<Rightarrow> 'a::plus \<Rightarrow> 'a list option" where
  "add_at xs i v = do { x \<leftarrow> byte_at xs i; put_at xs i (x + v) }"

fun for_each :: "('x \<Rightarrow> 's \<Rightarrow> 's option) \<Rightarrow> 'x list \<Rightarrow> 's \<Rightarrow> 's option" where
  "for_each f [] s = Some s"
| "for_each f (x # xs) s = do { s \<leftarrow> f x s; for_each f xs s }"

lemma put_at_in [simp]: "i < length xs \<Longrightarrow> put_at xs i v = Some (xs[i := v])"
  by (simp add: put_at_def)

lemma put_at_out [simp]: "length xs \<le> i \<Longrightarrow> put_at xs i v = None"
  by (simp add: put_at_def)

lemma add_at_in [simp]: "i < length xs \<Longrightarrow> add_at xs i v = Some (xs[i := xs ! i + v])"
  by (simp add: add_at_def)

text \<open>A loop that stays inside its arrays is the fold of its body.\<close>

lemma for_each_fold:
  assumes "P s" "\<And>x s. x \<in> set xs \<Longrightarrow> P s \<Longrightarrow> f x s = Some (g x s) \<and> P (g x s)"
  shows "for_each f xs s = Some (fold g xs s)"
  using assms by (induction xs arbitrary: s) simp_all

section \<open>Lemma collections\<close>

named_theorems ub_free \<open>facts stating that an operation never has undefined behaviour\<close>
named_theorems advances \<open>facts stating that a reader moves its position forward\<close>

section \<open>Generic lemmas on bytes, numbers and lists\<close>

lemma unat_byte_lt [simp]: "unat (b :: byte) < 256"
  by (rule order_less_le_trans [OF unsigned_less]) simp

lemma unat_byte_le [simp]: "unat (b :: byte) \<le> 255"
  using unat_byte_lt [of b] by linarith

lemma nat_and_255: "(n :: nat) AND 255 = n mod 256"
proof -
  have "n AND mask 8 = n mod 2 ^ 8"
    by (simp flip: take_bit_eq_mask add: take_bit_eq_mod)
  then show ?thesis by (simp add: mask_eq_exp_minus_1)
qed

lemma unat_of_nat_byte [simp]: "unat (word_of_nat n :: byte) = n mod 256"
  by (simp add: unat_of_nat)

lemma take_drop_append_exact [simp]: "take (length xs) (drop (length pre) (pre @ xs @ post)) = xs"
  by simp

lemma nat_or_add:
  "(a :: nat) AND b = 0 \<Longrightarrow> a OR b = a + b"
  by (simp add: disjunctive_add_eq_or)

lemma push_bit_or_lt:
  assumes "(b :: nat) < 2 ^ k"
  shows "push_bit k a OR b = a * 2 ^ k + b"
proof -
  have "push_bit k a AND b = 0"
  proof (rule bit_eqI)
    fix n
    have "\<not> bit b n" if "k \<le> n"
      using assms that by (metis bit_take_bit_iff linorder_not_less take_bit_nat_eq_self)
    then show "bit (push_bit k a AND b) n \<longleftrightarrow> bit (0 :: nat) n"
      by (auto simp: bit_simps)
  qed
  then show ?thesis
    by (simp add: nat_or_add push_bit_eq_mult)
qed

end
