(* ===== verification/Codec.thy ===== *)
theory Codec
  imports Prelude
begin

unbundle bit_operations_syntax

text \<open>
  The byte and integer plumbing of src/src/Pgp/PgpEngine.cpp: big-endian fields, packet and
  subpacket lengths, packet headers in old and new format, and multiprecision integers. Each
  operation is the code's, with every vector access checked; the lemmas show that no access
  leaves the buffer, that readers move forward, and that every reader inverts its writer.
\<close>

section \<open>Packet tags\<close>

definition PGP_TAG_PKESK :: byte where [simp]: "PGP_TAG_PKESK = 1"
definition PGP_TAG_SIGNATURE :: byte where [simp]: "PGP_TAG_SIGNATURE = 2"
definition PGP_TAG_SKESK :: byte where [simp]: "PGP_TAG_SKESK = 3"
definition PGP_TAG_ONE_PASS_SIG :: byte where [simp]: "PGP_TAG_ONE_PASS_SIG = 4"
definition PGP_TAG_SECRET_KEY :: byte where [simp]: "PGP_TAG_SECRET_KEY = 5"
definition PGP_TAG_PUBLIC_KEY :: byte where [simp]: "PGP_TAG_PUBLIC_KEY = 6"
definition PGP_TAG_SECRET_SUBKEY :: byte where [simp]: "PGP_TAG_SECRET_SUBKEY = 7"
definition PGP_TAG_COMPRESSED_DATA :: byte where [simp]: "PGP_TAG_COMPRESSED_DATA = 8"
definition PGP_TAG_SED :: byte where [simp]: "PGP_TAG_SED = 9"
definition PGP_TAG_USER_ID :: byte where [simp]: "PGP_TAG_USER_ID = 13"
definition PGP_TAG_LITERAL_DATA :: byte where [simp]: "PGP_TAG_LITERAL_DATA = 11"
definition PGP_TAG_PUBLIC_SUBKEY :: byte where [simp]: "PGP_TAG_PUBLIC_SUBKEY = 14"
definition PGP_TAG_SEIP :: byte where [simp]: "PGP_TAG_SEIP = 18"
definition PGP_TAG_AEAD :: byte where [simp]: "PGP_TAG_AEAD = 20"

section \<open>Writers\<close>

definition appendAll :: "bytes \<Rightarrow> bytes \<Rightarrow> bytes" where
  "appendAll out ins = out @ ins"

definition appendBigEndian16 :: "bytes \<Rightarrow> 16 word \<Rightarrow> bytes" where
  "appendBigEndian16 out v = out @ [ucast (drop_bit 8 v AND 0xFF), ucast (v AND 0xFF)]"

definition appendBigEndian32 :: "bytes \<Rightarrow> 32 word \<Rightarrow> bytes" where
  "appendBigEndian32 out v =
     out @ [ucast (drop_bit 24 v AND 0xFF), ucast (drop_bit 16 v AND 0xFF),
            ucast (drop_bit 8 v AND 0xFF), ucast (v AND 0xFF)]"

definition readBigEndian16 :: "bytes \<Rightarrow> nat \<Rightarrow> nat option" where
  "readBigEndian16 data pos = do {
     a \<leftarrow> byte_at data pos;
     b \<leftarrow> byte_at data (pos + 1);
     Some (push_bit 8 (unat a) OR unat b) }"

definition appendNewFormatLength :: "bytes \<Rightarrow> nat \<Rightarrow> bytes" where
  "appendNewFormatLength out len =
     (if len < 192 then out @ [word_of_nat len]
      else if len < 8384 then
        let adjusted = len - 192
        in out @ [word_of_nat (drop_bit 8 adjusted + 192), word_of_nat (adjusted AND 0xFF)]
      else appendBigEndian32 (out @ [0xFF]) (word_of_nat len))"

definition writePacket :: "byte \<Rightarrow> bytes \<Rightarrow> bytes" where
  "writePacket tag body = appendAll (appendNewFormatLength [0xC0 OR tag] (length body)) body"

definition appendSubpacket :: "bytes \<Rightarrow> byte \<Rightarrow> bytes \<Rightarrow> bytes" where
  "appendSubpacket out type body = appendAll (appendNewFormatLength out (length body + 1) @ [type]) body"

section \<open>Packet headers\<close>

text \<open>The four length octets of the five-octet form, most significant first.\<close>

definition be32 :: "byte \<Rightarrow> byte \<Rightarrow> byte \<Rightarrow> byte \<Rightarrow> nat" where
  "be32 a b c d =
     push_bit 24 (unat a) OR push_bit 16 (unat b) OR push_bit 8 (unat c) OR unat d"

text \<open>
  \<open>readPacketHeader\<close> after the first octet, new format: the tag, the body length (the first
  chunk of a partial body, when the caller accepts one), the position after the header and
  whether the length is partial.
\<close>

definition readNewFormatHeader :: "bytes \<Rightarrow> nat \<Rightarrow> byte \<Rightarrow> bool \<Rightarrow> (byte \<times> nat \<times> nat \<times> bool) cpp" where
  "readNewFormatHeader data pos first wantPartial =
     (let tag = first AND 0x3F in
      if pos \<ge> length data then no
      else do {
        lenFirst \<leftarrow> byte_at data pos;
        if lenFirst < 192 then yes (tag, unat lenFirst, pos + 1, False)
        else if lenFirst < 224 then
          if pos + 1 \<ge> length data then no
          else do {
            second \<leftarrow> byte_at data (pos + 1);
            yes (tag, push_bit 8 (unat lenFirst - 192) + unat second + 192, pos + 2, False) }
        else if lenFirst < 255 then
          if \<not> wantPartial then no
          else yes (tag, push_bit (unat (lenFirst AND 0x1F)) 1, pos + 1, True)
        else
          if pos + 4 \<ge> length data then no
          else do {
            a \<leftarrow> byte_at data (pos + 1); b \<leftarrow> byte_at data (pos + 2);
            c \<leftarrow> byte_at data (pos + 3); d \<leftarrow> byte_at data (pos + 4);
            yes (tag, be32 a b c d, pos + 5, False) } })"

text \<open>\<open>readPacketHeader\<close> after the first octet, old format.\<close>

definition readOldFormatHeader :: "bytes \<Rightarrow> nat \<Rightarrow> byte \<Rightarrow> nat \<Rightarrow> (byte \<times> nat \<times> nat \<times> bool) cpp" where
  "readOldFormatHeader data pos first effectiveEnd =
     (let tag = drop_bit 2 first AND 0x0F; lengthType = first AND 0x03 in
      if lengthType = 0 then
        if pos \<ge> length data then no
        else do { a \<leftarrow> byte_at data pos; yes (tag, unat a, pos + 1, False) }
      else if lengthType = 1 then
        if pos + 1 \<ge> length data then no
        else do {
          a \<leftarrow> byte_at data pos; b \<leftarrow> byte_at data (pos + 1);
          yes (tag, push_bit 8 (unat a) OR unat b, pos + 2, False) }
      else if lengthType = 2 then
        if pos + 3 \<ge> length data then no
        else do {
          a \<leftarrow> byte_at data pos; b \<leftarrow> byte_at data (pos + 1);
          c \<leftarrow> byte_at data (pos + 2); d \<leftarrow> byte_at data (pos + 3);
          yes (tag, be32 a b c d, pos + 4, False) }
      else
        if pos > effectiveEnd then no
        else yes (tag, effectiveEnd - pos, pos, False))"

text \<open>\<open>dataEnd = None\<close> is the default argument, the end of the buffer.\<close>

definition readPacketHeader ::
  "bytes \<Rightarrow> nat \<Rightarrow> nat option \<Rightarrow> bool \<Rightarrow> (byte \<times> nat \<times> nat \<times> bool) cpp" where
  "readPacketHeader data pos dataEnd wantPartial =
     (let effectiveEnd = (case dataEnd of None \<Rightarrow> length data | Some e \<Rightarrow> e) in
      if pos \<ge> length data then no
      else do {
        first \<leftarrow> byte_at data pos;
        if first AND 0x80 = 0 then no
        else if first AND 0x40 \<noteq> 0
        then readNewFormatHeader data (pos + 1) first wantPartial
        else readOldFormatHeader data (pos + 1) first effectiveEnd })"

section \<open>Body lengths without a tag\<close>

definition newFormatBodyLengthHeaderSize :: "byte \<Rightarrow> nat" where
  "newFormatBodyLengthHeaderSize first =
     (if first < 192 then 1 else if first < 224 then 2 else if first < 255 then 1 else 5)"

text \<open>The header pointer is the list of octets it points at; \<open>None\<close> is the null pointer.\<close>

definition decodeNewFormatBodyLength :: "bytes option \<Rightarrow> nat \<Rightarrow> (nat \<times> nat \<times> bool) cpp" where
  "decodeNewFormatBodyLength header availableSize =
     (case header of None \<Rightarrow> no | Some h \<Rightarrow>
      if availableSize = 0 then no
      else do {
        first \<leftarrow> byte_at h 0;
        if first < 192 then yes (1, unat first, False)
        else if first < 224 then
          if availableSize < 2 then no
          else do {
            second \<leftarrow> byte_at h 1;
            yes (2, push_bit 8 (unat first - 192) + unat second + 192, False) }
        else if first < 255 then yes (1, push_bit (unat (first AND 0x1F)) 1, True)
        else if availableSize < 5 then no
        else do {
          a \<leftarrow> byte_at h 1; b \<leftarrow> byte_at h 2; c \<leftarrow> byte_at h 3; d \<leftarrow> byte_at h 4;
          yes (5, be32 a b c d, False) } })"

section \<open>Lengths and packets: the reader inverts the writer\<close>

lemma unat_low_byte16: "unat (ucast (w AND 0xFF :: 16 word) :: byte) = unat w mod 256"
  by (simp add: unsigned_ucast_eq unsigned_and_eq nat_and_255 take_bit_eq_mod)

lemma unat_low_byte32: "unat (ucast (w AND 0xFF :: 32 word) :: byte) = unat w mod 256"
  by (simp add: unsigned_ucast_eq unsigned_and_eq nat_and_255 take_bit_eq_mod)

lemma unat_drop_bit_word: "unat (drop_bit k w) = unat w div 2 ^ k" for w :: "'a::len word"
proof -
  have "take_bit LENGTH('a) (unat w) = unat w"
    by (rule take_bit_nat_eq_self) (rule unsigned_less)
  then show ?thesis
    by (simp only: unsigned_drop_bit_eq) (simp only: drop_bit_eq_div)
qed

lemma be16_eq: "push_bit 8 (unat (a :: byte)) OR unat (b :: byte) = unat a * 256 + unat b"
  by (simp add: push_bit_or_lt)

lemma be32_eq: "be32 a b c d = unat a * 16777216 + (unat b * 65536 + (unat c * 256 + unat d))"
proof -
  have cd: "unat c * 256 + unat d < 65536"
    using unat_byte_lt [of c] unat_byte_lt [of d] by linarith
  then have bcd: "unat b * 65536 + (unat c * 256 + unat d) < 16777216"
    using unat_byte_lt [of b] by linarith
  show ?thesis
    using push_bit_or_lt [of "unat d" 8 "unat c"]
      push_bit_or_lt [of "unat c * 256 + unat d" 16 "unat b"] cd
      push_bit_or_lt [of "unat b * 65536 + (unat c * 256 + unat d)" 24 "unat a"] bcd
    by (simp add: be32_def)
qed

lemma be32_lt: "be32 a b c d < 4294967296"
  using unat_byte_lt [of a] unat_byte_lt [of b] unat_byte_lt [of c] unat_byte_lt [of d]
  unfolding be32_eq by linarith

lemma base256_digits:
  "n = 256 * q1 + r0 \<Longrightarrow> q1 = 256 * q2 + r1 \<Longrightarrow> q2 = 256 * q3 + r2 \<Longrightarrow>
     q3 * 16777216 + (r2 * 65536 + (r1 * 256 + r0)) = (n :: nat)"
  by simp

lemma be32_digits:
  assumes "n < 4294967296"
  shows "n div 16777216 * 16777216 + (n div 65536 mod 256 * 65536 +
     (n div 256 mod 256 * 256 + n mod 256)) = (n :: nat)"
proof (rule base256_digits [where ?q1.0 = "n div 256" and ?q2.0 = "n div 65536"])
  show "n = 256 * (n div 256) + n mod 256" by simp
  show "n div 256 = 256 * (n div 65536) + n div 256 mod 256"
    using div_mult2_eq [of n 256 256] mult_div_mod_eq [of 256 "n div 256"] by simp
  show "n div 65536 = 256 * (n div 16777216) + n div 65536 mod 256"
    using div_mult2_eq [of n 65536 256] mult_div_mod_eq [of 256 "n div 65536"] by simp
qed

lemma unat_word32_of_nat [simp]: "n < 4294967296 \<Longrightarrow> unat (word_of_nat n :: 32 word) = n"
  by (simp add: unat_of_nat)

lemma newFormatLength_append: "appendNewFormatLength out n = out @ appendNewFormatLength [] n"
  by (simp add: appendNewFormatLength_def appendBigEndian32_def Let_def)

text \<open>The number of octets the writer spends on a length.\<close>

definition newFormatLengthOctets :: "nat \<Rightarrow> nat" where
  "newFormatLengthOctets n = (if n < 192 then 1 else if n < 8384 then 2 else 5)"

lemma length_newFormatLength: "length (appendNewFormatLength [] n) = newFormatLengthOctets n"
  by (simp add: appendNewFormatLength_def newFormatLengthOctets_def appendBigEndian32_def Let_def)

lemma two_octet_first:
  assumes "192 \<le> n" "n < 8384"
  shows "unat (word_of_nat (drop_bit 8 (n - 192) + 192) :: byte) = (n - 192) div 256 + 192"
    and "(n - 192) div 256 + 192 < 224"
proof -
  show "(n - 192) div 256 + 192 < 224"
    using assms by (simp add: div_less_iff_less_mult)
  then show "unat (word_of_nat (drop_bit 8 (n - 192) + 192) :: byte) = (n - 192) div 256 + 192"
    by (subst unat_of_nat_byte) (simp add: drop_bit_eq_div)
qed

lemma decode_newFormatLength:
  assumes "n < 4294967296"
  shows "decodeNewFormatBodyLength (Some (appendNewFormatLength [] n @ post)) (newFormatLengthOctets n + k)
    = yes (newFormatLengthOctets n, n, False)"
proof -
  consider "n < 192" | "192 \<le> n" "n < 8384" | "8384 \<le> n" by linarith
  then show ?thesis
  proof cases
    case 1
    then show ?thesis
      by (simp add: appendNewFormatLength_def newFormatLengthOctets_def decodeNewFormatBodyLength_def
        word_less_nat_alt)
  next
    case 2
    from two_octet_first [OF 2] 2 show ?thesis
      by (simp add: appendNewFormatLength_def newFormatLengthOctets_def decodeNewFormatBodyLength_def
        word_less_nat_alt Let_def nat_and_255 push_bit_eq_mult)
  next
    case 3
    with assms show ?thesis
      by (simp add: appendNewFormatLength_def newFormatLengthOctets_def decodeNewFormatBodyLength_def
        word_less_nat_alt appendBigEndian32_def be32_eq unat_low_byte32 unat_drop_bit_word be32_digits)
  qed
qed


lemma packet_octet_bits:
  assumes "unat tag < 64"
  shows "(0xC0 OR tag) AND 0x80 \<noteq> (0 :: byte)" "(0xC0 OR tag) AND 0x40 \<noteq> (0 :: byte)"
    "(0xC0 OR tag) AND 0x3F = tag"
proof -
  have "(0xC0 OR tag) AND 0x80 = 0x80" "(0xC0 OR tag) AND 0x40 = 0x40"
    by (simp_all add: word_ao_dist)
  then show "(0xC0 OR tag) AND 0x80 \<noteq> (0 :: byte)" "(0xC0 OR tag) AND 0x40 \<noteq> (0 :: byte)"
    by simp_all
  have "tag AND 0x3F = take_bit 6 tag"
    by (simp add: take_bit_eq_mask mask_eq_exp_minus_1)
  also have "\<dots> = tag"
    using assms by (simp only: word_unat_eq_iff unsigned_take_bit_eq) (simp add: take_bit_nat_eq_self)
  finally show "(0xC0 OR tag) AND 0x3F = tag"
    by (simp add: bit.conj_disj_distrib2)
qed

text \<open>A header read at position \<open>length pre\<close> depends on the octets from there on only.\<close>

lemma readPacketHeader_head:
  assumes "unat tag < 64" "n < 4294967296"
  shows "readPacketHeader (pre @ (0xC0 OR tag) # appendNewFormatLength [] n @ post) (length pre) e w
     = yes (tag, n, length pre + 1 + newFormatLengthOctets n, False)"
proof -
  let ?first = "0xC0 OR tag"
  have bits: "?first AND 0x80 \<noteq> 0" "?first AND 0x40 \<noteq> 0" "?first AND 0x3F = tag"
    using packet_octet_bits [OF assms(1)] by simp_all
  note defs = readPacketHeader_def readNewFormatHeader_def appendNewFormatLength_def newFormatLengthOctets_def
    word_less_nat_alt nth_append
  consider "n < 192" | "192 \<le> n" "n < 8384" | "8384 \<le> n" by linarith
  then show ?thesis
  proof cases
    case 1
    then show ?thesis using bits by (simp add: defs)
  next
    case 2
    from two_octet_first [OF 2] 2 bits show ?thesis
      by (simp add: defs Let_def nat_and_255 push_bit_eq_mult)
  next
    case 3
    with assms bits show ?thesis
      by (simp add: defs appendBigEndian32_def be32_eq unat_low_byte32 unat_drop_bit_word be32_digits)
  qed
qed

lemma writePacket_eq: "writePacket tag body = (0xC0 OR tag) # appendNewFormatLength [] (length body) @ body"
  by (simp add: writePacket_def appendAll_def newFormatLength_append [of "[_]"])

lemma readPacketHeader_writePacket:
  assumes "unat tag < 64" "length body < 4294967296"
  shows "readPacketHeader (pre @ writePacket tag body @ post) (length pre) e w
     = yes (tag, length body, length pre + 1 + newFormatLengthOctets (length body), False)"
  using readPacketHeader_head [OF assms, of pre "body @ post"] by (simp add: writePacket_eq)

lemma length_writePacket: "length (writePacket tag body) = 1 + newFormatLengthOctets (length body) + length body"
  by (simp add: writePacket_def appendAll_def newFormatLength_append [of "[_]"] length_newFormatLength)

lemma readPacketHeader_at:
  assumes "unat tag < 64" "length body < 4294967296" "data = pre @ writePacket tag body @ post" "pos = length pre"
  shows "readPacketHeader data pos e w
      = yes (tag, length body, pos + 1 + newFormatLengthOctets (length body), False)"
    and "slice data (pos + 1 + newFormatLengthOctets (length body))
        (pos + 1 + newFormatLengthOctets (length body) + length body) = Some body"
  using readPacketHeader_writePacket [OF assms(1,2), of pre post e w] assms(3,4)
  by (simp_all add: writePacket_eq length_newFormatLength)

section \<open>Every header read stays inside the buffer and moves forward\<close>

lemmas header_defs = readPacketHeader_def readNewFormatHeader_def readOldFormatHeader_def Let_def

lemma partial_chunk_lt: "push_bit (unat (b AND 0x1F :: byte)) 1 < (4294967296 :: nat)"
proof -
  have "unat (b AND 0x1F) \<le> 31"
    using word_and_le1 [of b "0x1F"] by (simp add: word_le_nat_alt word_bw_comms)
  then have "(2 :: nat) ^ unat (b AND 0x1F) \<le> 2 ^ 31"
    by (rule power_increasing) simp
  then show ?thesis by (simp add: push_bit_eq_mult)
qed

lemma two_octet_length_lt:
  "push_bit 8 (unat (a :: byte) - 192) + unat (b :: byte) + 192 < 4294967296"
proof -
  have "unat a - 192 < 256" using unat_byte_lt [of a] by linarith
  then have "(unat a - 192) * 256 + unat b + 192 < 4294967296"
    using unat_byte_lt [of b] by linarith
  then show ?thesis by (simp only: push_bit_eq_mult) simp
qed

lemma readPacketHeader_safe [ub_free]: "safe (readPacketHeader data pos e w)"
  by (simp add: header_defs)

lemma readPacketHeader_pos [advances]:
  "readPacketHeader data pos e w = yes (tag, n, p, part) \<Longrightarrow> pos < p \<and> p \<le> length data"
  by (auto simp: header_defs split: if_splits)

lemma be16_lt: "push_bit 8 (unat (a :: byte)) OR unat (b :: byte) < 65536"
  using unat_byte_lt [of a] unat_byte_lt [of b] by (simp only: be16_eq)

lemma readPacketHeader_length:
  assumes "readPacketHeader data pos e w = yes (tag, n, p, part)"
  shows "n < 4294967296 \<or> (\<not> part \<and> n = (case e of None \<Rightarrow> length data | Some d \<Rightarrow> d) - p)"
  using assms be32_lt be16_lt partial_chunk_lt two_octet_length_lt
  by (auto simp: header_defs intro: order_less_trans [OF unat_byte_lt] order_less_trans [OF be16_lt]
      split: if_splits)

lemma readPacketHeader_partial:
  "readPacketHeader data pos e w = yes (tag, n, p, True) \<Longrightarrow> w \<and> 0 < n \<and> n < 4294967296"
  using partial_chunk_lt by (auto simp: header_defs push_bit_eq_mult split: if_splits)

lemma readPacketHeader_not_partial:
  "readPacketHeader data pos e False = yes (tag, n, p, part) \<Longrightarrow> \<not> part"
  by (auto simp: header_defs split: if_splits)

lemma decodeNewFormatBodyLength_safe [ub_free]:
  "k \<le> length h \<Longrightarrow> safe (decodeNewFormatBodyLength (Some h) k)"
  by (auto simp: decodeNewFormatBodyLength_def byte_at_def)

lemma decodeNewFormatBodyLength_size [advances]:
  "decodeNewFormatBodyLength (Some h) k = yes (s, n, part) \<Longrightarrow>
     0 < s \<and> s \<le> k \<and> s = newFormatBodyLengthHeaderSize (h ! 0) \<and> n < 4294967296 \<and> (part \<longrightarrow> 0 < n)"
  using partial_chunk_lt be32_lt two_octet_length_lt
  by (auto simp: decodeNewFormatBodyLength_def newFormatBodyLengthHeaderSize_def byte_at_Some
      push_bit_eq_mult intro: order_less_trans [OF unat_byte_lt] split: if_splits bind_splits)

lemma decodeNewFormatBodyLength_None [simp]: "decodeNewFormatBodyLength None k = no"
  by (simp add: decodeNewFormatBodyLength_def)


section \<open>Properties\<close>

text \<open>A packet written by \<open>writePacket\<close>, wherever it stands in a buffer, is read back by
  \<open>readPacketHeader\<close> with its tag and its body length, whatever end of data and partial-length
  flag the caller passes; the body is the slice that follows the header. This covers the one-,
  two- and five-octet length forms.\<close>

theorem packet_header_round_trip:
  assumes "unat tag < 64" "length body < 4294967296"
  shows "readPacketHeader (pre @ writePacket tag body @ post) (length pre) dataEnd wantPartial
      = yes (tag, length body, length pre + 1 + newFormatLengthOctets (length body), False)
    \<and> slice (pre @ writePacket tag body @ post) (length pre + 1 + newFormatLengthOctets (length body))
        (length pre + 1 + newFormatLengthOctets (length body) + length body) = Some body"
  using readPacketHeader_at [OF assms refl refl] by blast

lemma packet_header_round_trip_witness:
  "\<exists>p. readPacketHeader ([9, 9] @ writePacket 11 [1, 2, 3] @ [7]) 2 (Some 5) True = yes (11, 3, p, False)"
  using packet_header_round_trip [of 11 "[1, 2, 3]" "[9, 9]" "[7]" "Some 5" True]
  by (simp flip: numeral_2_eq_2)

text \<open>Reading a packet header never touches an octet outside the buffer, for any
  buffer, position, end of data and flag. A header that is accepted moves the position forward and
  not past the buffer, its length is a 32-bit value unless it is the indeterminate rest of the
  data, and a partial length is reported only to a caller that asked for it and is never empty.\<close>

theorem packet_header_in_bounds:
  "case readPacketHeader data pos dataEnd wantPartial of
     None \<Rightarrow> False
   | Some None \<Rightarrow> True
   | Some (Some (tag, n, p, part)) \<Rightarrow> pos < p \<and> p \<le> length data
       \<and> (n < 4294967296 \<or> (\<not> part \<and> n = (case dataEnd of None \<Rightarrow> length data | Some e \<Rightarrow> e) - p))
       \<and> (if part then wantPartial \<and> 0 < n else True)"
  using readPacketHeader_safe [of data pos dataEnd wantPartial]
  by (cases rule: safe_cases)
    (auto split: option.splits dest: readPacketHeader_pos readPacketHeader_length readPacketHeader_partial)

text \<open>The stand-alone length decoder of the streaming paths accepts exactly what the
  length writer emits, reports how many octets the length took, and reads inside the octets
  it was given.\<close>

theorem length_decoder_agrees:
  assumes "n < 4294967296"
  shows "decodeNewFormatBodyLength (Some (appendNewFormatLength [] n @ post)) (newFormatLengthOctets n + length post)
      = yes (length (appendNewFormatLength [] n), n, False)
    \<and> newFormatBodyLengthHeaderSize (appendNewFormatLength [] n ! 0) = length (appendNewFormatLength [] n)"
proof -
  have "newFormatBodyLengthHeaderSize ((appendNewFormatLength [] n @ post) ! 0) = newFormatLengthOctets n"
    using decodeNewFormatBodyLength_size [OF decode_newFormatLength [OF assms]] by metis
  moreover have "0 < length (appendNewFormatLength [] n)"
    by (simp add: length_newFormatLength newFormatLengthOctets_def)
  ultimately show ?thesis
    using decode_newFormatLength [OF assms] by (simp add: length_newFormatLength nth_append)
qed

lemma length_decoder_agrees_witness:
  "decodeNewFormatBodyLength (Some (appendNewFormatLength [] 1000 @ [5])) 3 = yes (2, 1000, False)"
  using length_decoder_agrees [of 1000 "[5]"]
  by (simp add: newFormatLengthOctets_def length_newFormatLength)

end
