(* ===== verification/Mpi.thy ===== *)
theory Mpi
  imports Codec
begin

unbundle bit_operations_syntax

text \<open>
  Multiprecision integers (RFC 4880 section 3.2): the unsigned part of the vendored
  \<open>CryptoPP::Integer\<close> that PgpEngine.cpp uses, \<open>encodeMpi\<close> and \<open>readMpi\<close>, and the interface of
  a self-delimiting field (\<open>wire_field\<close>) that every length-prefixed encoding of the engine
  implements. Integers are natural numbers: the engine never builds a negative one.
\<close>

section \<open>Unsigned integers\<close>

fun bitCount :: "nat \<Rightarrow> nat" where
  "bitCount n = (if n = 0 then 0 else Suc (bitCount (n div 2)))"

declare bitCount.simps [simp del]

definition integerGetByte :: "nat \<Rightarrow> nat \<Rightarrow> byte" where
  "integerGetByte n i = word_of_nat (drop_bit (8 * i) n)"

definition integerEncode :: "nat \<Rightarrow> nat \<Rightarrow> bytes" where
  "integerEncode len n = map (integerGetByte n) (rev [0..<len])"

definition integerDecode :: "bytes \<Rightarrow> nat" where
  "integerDecode bs = foldl (\<lambda>n b. n * 256 + unat b) 0 bs"

definition minEncodedSize :: "nat \<Rightarrow> nat" where
  "minEncodedSize n = max 1 ((bitCount n + 7) div 8)"

section \<open>MPIs\<close>

definition encodeMpi :: "nat \<Rightarrow> bytes" where
  "encodeMpi v =
     (let bits = bitCount v; byteCount = (bits + 7) div 8;
          out = appendBigEndian16 [] (word_of_nat bits)
      in if byteCount > 0 then appendAll out (integerEncode byteCount v) else out)"

definition readMpi :: "bytes \<Rightarrow> nat \<Rightarrow> (nat \<times> nat) cpp" where
  "readMpi data pos =
     (if pos + 2 > length data then no
      else do {
        bitLength \<leftarrow> readBigEndian16 data pos;
        let byteLength = (bitLength + 7) div 8;
        if pos + 2 + byteLength > length data then no
        else do {
          bs \<leftarrow> slice data (pos + 2) (pos + 2 + byteLength);
          yes (integerDecode bs, pos + 2 + byteLength) } })"

definition rsaModulusByteLength :: "nat \<Rightarrow> nat" where
  "rsaModulusByteLength modulus = minEncodedSize modulus"

section \<open>Integers and octets\<close>

lemma bitCount_0 [simp]: "bitCount 0 = 0"
  by (simp add: bitCount.simps)

lemma bitCount_pos: "0 < n \<Longrightarrow> bitCount n = Suc (bitCount (n div 2))"
  by (simp add: bitCount.simps)

lemma bitCount_bound: "n < 2 ^ bitCount n"
proof (induction n rule: bitCount.induct)
  case (1 n)
  show ?case
  proof (cases "n = 0")
    case False
    with 1 have "n div 2 < 2 ^ bitCount (n div 2)" by simp
    then show ?thesis using False by (simp add: bitCount_pos)
  qed simp
qed

lemma bitCount_le: "n < 2 ^ k \<Longrightarrow> bitCount n \<le> k"
proof (induction n arbitrary: k rule: bitCount.induct)
  case (1 n)
  show ?case
  proof (cases "n = 0")
    case False
    then obtain j where k: "k = Suc j" using "1.prems" by (cases k) auto
    with "1.prems" have "n div 2 < 2 ^ j" by auto
    then show ?thesis using "1.IH" [of j] False by (simp add: bitCount_pos k)
  qed simp
qed

lemma bitCount_ge: "0 < n \<Longrightarrow> 2 ^ (bitCount n - 1) \<le> n"
proof (induction n rule: bitCount.induct)
  case (1 n)
  show ?case
  proof (cases "n div 2 = 0")
    case True
    with "1.prems" have "n = 1" by linarith
    then show ?thesis by (simp add: bitCount.simps)
  next
    case False
    then have "2 ^ (bitCount (n div 2) - 1) \<le> n div 2" using "1.IH" "1.prems" by simp
    moreover have "0 < bitCount (n div 2)" using False by (simp add: bitCount_pos)
    ultimately show ?thesis using "1.prems"
      by (simp add: bitCount_pos) (metis Suc_pred mult_2_right div_times_less_eq_dividend le_trans
          mult_le_mono1 power_Suc2 numeral_2_eq_2)
  qed
qed

lemma integerDecode_Nil [simp]: "integerDecode [] = 0"
  by (simp add: integerDecode_def)

lemma integerDecode_snoc [simp]: "integerDecode (bs @ [b]) = integerDecode bs * 256 + unat b"
  by (simp add: integerDecode_def)

lemma integerEncode_0 [simp]: "integerEncode 0 n = []"
  by (simp add: integerEncode_def)

lemma integerEncode_Suc: "integerEncode (Suc k) n = integerEncode k (n div 256) @ [word_of_nat n]"
proof -
  have "map (integerGetByte n) (rev [0..<Suc k]) = map (integerGetByte n) (rev (map Suc [0..<k])) @ [integerGetByte n 0]"
    by (simp add: upt_conv_Cons map_Suc_upt del: upt_Suc)
  moreover have "integerGetByte n (Suc i) = integerGetByte (n div 256) i" for i
    by (simp add: integerGetByte_def drop_bit_eq_div power_add div_mult2_eq mult.commute)
  ultimately show ?thesis
    by (simp add: integerEncode_def rev_map integerGetByte_def)
qed

lemma length_integerEncode [simp]: "length (integerEncode k n) = k"
  by (simp add: integerEncode_def)

lemma integerDecode_integerEncode [simp]: "integerDecode (integerEncode k n) = n mod 256 ^ k"
proof (induction k arbitrary: n)
  case (Suc k)
  have "n div 256 mod 256 ^ k * 256 + n mod 256 = n mod (256 * 256 ^ k)"
    by (simp add: mod_mult2_eq)
  with Suc show ?case by (simp add: integerEncode_Suc)
qed simp

lemma integerDecode_lt: "integerDecode bs < 256 ^ length bs"
proof (induction bs rule: rev_induct)
  case (snoc b bs)
  have "integerDecode bs * 256 + unat b < (integerDecode bs + 1) * 256"
    using unat_byte_lt [of b] by (simp add: algebra_simps)
  also have "\<dots> \<le> 256 ^ length bs * 256" using snoc by (intro mult_le_mono1) simp
  finally show ?case by simp
qed simp

lemma integerEncode_integerDecode: "integerEncode (length bs) (integerDecode bs) = bs"
proof (induction bs rule: rev_induct)
  case (snoc b bs)
  have "(integerDecode bs * 256 + unat b) div 256 = integerDecode bs" by simp
  moreover have "(word_of_nat (integerDecode bs * 256 + unat b) :: byte) = b"
    by (simp only: word_unat_eq_iff unat_of_nat_byte) simp
  ultimately show ?case using snoc by (simp add: integerEncode_Suc del: of_nat_add)
qed simp

lemma integerDecode_append:
  "integerDecode (xs @ ys) = integerDecode xs * 256 ^ length ys + integerDecode ys"
  by (induction ys rule: rev_induct) (simp_all flip: append_assoc add: algebra_simps)

lemma integerDecode_Cons: "integerDecode (b # bs) = unat b * 256 ^ length bs + integerDecode bs"
  using integerDecode_append [of "[b]" bs] by (simp add: integerDecode_def)

text \<open>Leading zero octets do not change the value.\<close>

lemma integerDecode_zeros: "integerDecode (replicate k 0 @ bs) = integerDecode bs"
  by (induction k) (simp_all add: integerDecode_Cons)


section \<open>The interface of a self-delimiting field\<close>

text \<open>
  A field is written by \<open>put\<close> and read back by \<open>get\<close> at a position; \<open>fits\<close> holds of the values
  whose length the encoding can express. The client lemmas follow from three laws only.
\<close>

locale wire_field =
  fixes put :: "'a \<Rightarrow> bytes" and get :: "bytes \<Rightarrow> nat \<Rightarrow> ('a \<times> nat) cpp" and fits :: "'a \<Rightarrow> bool"
  assumes get_put: "fits v \<Longrightarrow> get (pre @ put v @ post) (length pre) = yes (v, length pre + length (put v))"
    and get_safe: "safe (get data pos)"
    and get_pos: "get data pos = yes (v, p) \<Longrightarrow> pos < p \<and> p \<le> length data"
begin

lemma prefix_free:
  assumes "fits v" "fits w" "put v @ r = put w @ s"
  shows "v = w \<and> r = s"
  using get_put [OF assms(1), of "[]" r] get_put [OF assms(2), of "[]" s] assms(3) by auto

lemma put_inj: "fits v \<Longrightarrow> fits w \<Longrightarrow> put v = put w \<Longrightarrow> v = w"
  using prefix_free [of v w "[]" "[]"] by simp

lemma put_nonempty: "fits v \<Longrightarrow> put v \<noteq> []"
  using get_put [of v "[]" "[]"] get_pos [of "put v" 0 v "length (put v)"] by auto

lemma get_at:
  "fits v \<Longrightarrow> data = pre @ put v @ post \<Longrightarrow> pos = length pre \<Longrightarrow> get data pos = yes (v, pos + length (put v))"
  using get_put by simp

lemma get_start: "fits v \<Longrightarrow> get (put v @ post) 0 = yes (v, length (put v))"
  using get_put [of v "[]" post] by simp

lemma get_two:
  assumes "fits v" "fits w"
  shows "on_true (get (pre @ put v @ put w @ post) (length pre)) (\<lambda>(a, p).
      on_true (get (pre @ put v @ put w @ post) p) (\<lambda>(b, q). yes (a, b, q)))
    = yes (v, w, length pre + length (put v) + length (put w))"
  using get_put [OF assms(1), of pre "put w @ post"] get_put [OF assms(2), of "pre @ put v" post]
  by simp

lemma concat_inj:
  "\<forall>v \<in> set vs. fits v \<Longrightarrow> \<forall>w \<in> set ws. fits w \<Longrightarrow>
     concat (map put vs) = concat (map put ws) \<Longrightarrow> vs = ws"
proof (induction vs arbitrary: ws)
  case Nil
  then show ?case by (cases ws) (auto dest: put_nonempty)
next
  case (Cons v vs)
  then obtain w ws' where ws: "ws = w # ws'" by (cases ws) (auto dest: put_nonempty)
  have "v = w \<and> concat (map put vs) = concat (map put ws')"
    by (rule prefix_free) (use Cons.prems ws in auto)
  with Cons.prems Cons.IH [of ws'] ws show ?case by simp
qed

end

section \<open>MPIs are a field\<close>

lemma readBigEndian16_appendBigEndian16:
  "readBigEndian16 (pre @ appendBigEndian16 [] w @ post) (length pre) = Some (unat w)"
proof -
  have "unat w < 65536" using unsigned_less [of w] by simp
  then show ?thesis
    by (simp add: readBigEndian16_def appendBigEndian16_def nth_append be16_eq unat_low_byte16
        unat_drop_bit_word)
qed

lemma readMpi_encodeMpi:
  assumes "bitCount v < 65536"
  shows "readMpi (pre @ encodeMpi v @ post) (length pre) = yes (v, length pre + length (encodeMpi v))"
proof -
  let ?n = "(bitCount v + 7) div 8"
  have enc: "encodeMpi v = appendBigEndian16 [] (word_of_nat (bitCount v)) @ integerEncode ?n v"
    by (simp add: encodeMpi_def Let_def appendAll_def)
  have len: "length (appendBigEndian16 [] w) = 2" for w by (simp add: appendBigEndian16_def)
  have bits: "unat (word_of_nat (bitCount v) :: 16 word) = bitCount v"
    using assms by (simp add: unat_of_nat)
  have read: "readBigEndian16 (pre @ encodeMpi v @ post) (length pre) = Some (bitCount v)"
    using readBigEndian16_appendBigEndian16 [of pre "word_of_nat (bitCount v)" "integerEncode ?n v @ post"]
    by (simp add: enc bits)
  have "bitCount v \<le> 8 * ?n" by linarith
  then have "v < 2 ^ (8 * ?n)"
    by (intro order_less_le_trans [OF bitCount_bound power_increasing]) simp_all
  then have "v mod 256 ^ ?n = v" by (simp add: power_mult)
  then show ?thesis
    by (simp add: readMpi_def read Let_def) (simp add: enc len)
qed

lemma readMpi_safe [ub_free]: "safe (readMpi data pos)"
  by (auto simp: readMpi_def readBigEndian16_def Let_def byte_at_def slice_def)

lemma readMpi_pos [advances]: "readMpi data pos = yes (v, p) \<Longrightarrow> pos < p \<and> p \<le> length data"
  by (auto simp: readMpi_def Let_def split: if_splits bind_splits)

lemma readMpi_bound: "readMpi data pos = yes (v, p) \<Longrightarrow> v < 256 ^ (p - pos - 2)"
  by (auto simp: readMpi_def Let_def slice_Some split: if_splits bind_splits
      intro!: order_less_le_trans [OF integerDecode_lt])

interpretation mpi: wire_field encodeMpi readMpi "\<lambda>v. bitCount v < 65536"
  by unfold_locales (auto simp: readMpi_encodeMpi readMpi_safe dest: readMpi_pos)


section \<open>Properties\<close>

text \<open>A multiprecision integer of fewer than 65536 bits is read back from any place in a buffer,
  and the position after it is where its encoding ends.\<close>

theorem mpi_round_trip:
  assumes "bitCount v < 65536" "data = pre @ encodeMpi v @ post" "pos = length pre"
  shows "readMpi data pos = yes (v, pos + length (encodeMpi v))"
  using mpi.get_at [OF assms] .

lemma mpi_round_trip_witness: "readMpi ([1] @ encodeMpi 511 @ [2, 3]) 1 = yes (511, 1 + length (encodeMpi 511))"
  using mpi_round_trip [of 511 _ "[1]" "[2, 3]" 1] bitCount_le [of 511 9] by simp

text \<open>A sequence of MPIs has one reading: two lists of integers whose encodings
  concatenate to the same octets are equal. Key material and signature values are such sequences.\<close>

theorem mpi_sequence_unambiguous:
  assumes "\<forall>v \<in> set vs. bitCount v < 65536" "\<forall>w \<in> set ws. bitCount w < 65536"
    and "concat (map encodeMpi vs) = concat (map encodeMpi ws)"
  shows "vs = ws"
  using mpi.concat_inj [OF assms] .

lemma mpi_sequence_unambiguous_witness: "concat (map encodeMpi [1, 2]) \<noteq> concat (map encodeMpi [1, 3])"
  using mpi_sequence_unambiguous [of "[1, 2]" "[1, 3]"] bitCount_le [of 1 1] bitCount_le [of 2 2] bitCount_le [of 3 2] by auto

end
