(* ===== verification/Crypto.thy ===== *)
theory Crypto
  imports Mpi
begin

unbundle bit_operations_syntax

text \<open>
  The cryptographic library the engine calls, as a record of functions that every definition
  which calls it takes as its first argument: nothing about them is built into the model. What
  the engine relies on is stated as predicates (\<open>digests_ok\<close>, \<open>aes_ok\<close>, ...) that the theorems
  name as hypotheses, and \<open>sample_lib\<close> is a concrete library that satisfies all of them, used to
  show that the hypotheses can hold. Random octets and the time are arguments of the
  operations that draw them.
\<close>

record rsa_key =
  rsaModulus :: nat
  rsaPublicExponent :: nat
  rsaPrivateExponent :: nat
  rsaPrime1 :: nat
  rsaPrime2 :: nat

type_synonym rsa_public = "nat \<times> nat"

definition rsaPublicOf :: "rsa_key \<Rightarrow> rsa_public" where
  "rsaPublicOf k = (rsaModulus k, rsaPublicExponent k)"

record crypto =
  sha1 :: "bytes \<Rightarrow> bytes"
  sha256 :: "bytes \<Rightarrow> bytes"
  sha512 :: "bytes \<Rightarrow> bytes"
  aesEncrypt :: "bytes \<Rightarrow> bytes \<Rightarrow> bytes"
  aesDecrypt :: "bytes \<Rightarrow> bytes \<Rightarrow> bytes"
  cfbEncrypt :: "bytes \<Rightarrow> bytes \<Rightarrow> bytes \<Rightarrow> bytes"
  cfbDecrypt :: "bytes \<Rightarrow> bytes \<Rightarrow> bytes \<Rightarrow> bytes"
  inverseMod :: "nat \<Rightarrow> nat \<Rightarrow> nat"
  rsaSign :: "rsa_key \<Rightarrow> bytes \<Rightarrow> bytes"
  rsaVerify :: "rsa_public \<Rightarrow> bytes \<Rightarrow> bytes \<Rightarrow> bool"
  rsaEncrypt :: "rsa_public \<Rightarrow> bytes \<Rightarrow> bytes \<Rightarrow> bytes option"
  rsaDecrypt :: "rsa_key \<Rightarrow> bytes \<Rightarrow> bytes option option"
  edPublic :: "bytes \<Rightarrow> bytes"
  edSign :: "bytes \<Rightarrow> bytes \<Rightarrow> bytes"
  edVerify :: "bytes \<Rightarrow> bytes \<Rightarrow> bytes \<Rightarrow> bool"
  xPublic :: "bytes \<Rightarrow> bytes"
  xAgree :: "bytes \<Rightarrow> bytes \<Rightarrow> bytes option"
  deflate :: "bytes \<Rightarrow> bytes"
  inflateRaw :: "bytes \<Rightarrow> bytes option"
  inflateZlib :: "bytes \<Rightarrow> bytes option"

definition digests_ok :: "crypto \<Rightarrow> bool" where
  "digests_ok L \<longleftrightarrow> (\<forall>d. length (sha1 L d) = 20 \<and> length (sha256 L d) = 32 \<and> length (sha512 L d) = 64)"

definition aes_ok :: "crypto \<Rightarrow> bool" where
  "aes_ok L \<longleftrightarrow> (\<forall>k b. length b = 16 \<longrightarrow>
     length (aesEncrypt L k b) = 16 \<and> aesDecrypt L k (aesEncrypt L k b) = b)"

definition cfb_ok :: "crypto \<Rightarrow> bool" where
  "cfb_ok L \<longleftrightarrow> (\<forall>k iv d. length (cfbEncrypt L k iv d) = length d \<and> cfbDecrypt L k iv (cfbEncrypt L k iv d) = d)"

text \<open>Processing data piece by piece: the octets of a piece do not depend on what comes later.\<close>

definition cfb_stream_ok :: "crypto \<Rightarrow> bool" where
  "cfb_stream_ok L \<longleftrightarrow> (\<forall>k iv p d. take (length p) (cfbEncrypt L k iv (p @ d)) = cfbEncrypt L k iv p
     \<and> length (cfbEncrypt L k iv p) = length p)"

text \<open>RSA signatures are as long as the modulus, and a signature verifies under its own key.\<close>

definition rsa_sign_ok :: "crypto \<Rightarrow> rsa_key \<Rightarrow> bool" where
  "rsa_sign_ok L k \<longleftrightarrow> (\<forall>m. length (rsaSign L k m) = minEncodedSize (rsaModulus k)
     \<and> rsaVerify L (rsaPublicOf k) m (rsaSign L k m))"

definition ed_sign_ok :: "crypto \<Rightarrow> bytes \<Rightarrow> bool" where
  "ed_sign_ok L k \<longleftrightarrow> (\<forall>m. length (edSign L k m) = 64 \<and> edVerify L (edPublic L k) m (edSign L k m))"

text \<open>
  PKCS #1 v1.5 encryption: \<open>rsaEncrypt\<close> is \<open>None\<close> when the library throws (the message does not fit),
  \<open>rsaDecrypt\<close> is \<open>None\<close> when it throws and \<open>Some None\<close> when the coding is not valid. A message that leaves
  room for the padding is encrypted to as many octets as the modulus has, and comes back.
\<close>

definition rsa_crypt_ok :: "crypto \<Rightarrow> rsa_key \<Rightarrow> bool" where
  "rsa_crypt_ok L k \<longleftrightarrow> (\<forall>r m. length m + 11 \<le> minEncodedSize (rsaModulus k) \<longrightarrow>
     (\<exists>c. rsaEncrypt L (rsaPublicOf k) r m = Some c \<and> length c = minEncodedSize (rsaModulus k)
        \<and> rsaDecrypt L k c = Some (Some m)))"

text \<open>Inflating what was deflated.\<close>

definition deflate_ok :: "crypto \<Rightarrow> bool" where
  "deflate_ok L \<longleftrightarrow> (\<forall>d. inflateRaw L (deflate L d) = Some d)"

definition x_agree_ok :: "crypto \<Rightarrow> bytes \<Rightarrow> bytes \<Rightarrow> bool" where
  "x_agree_ok L a b \<longleftrightarrow> (\<exists>s. length s = 32 \<and> xAgree L a (xPublic L b) = Some s \<and> xAgree L b (xPublic L a) = Some s)"

section \<open>A library that satisfies the assumptions\<close>

definition pad_to :: "nat \<Rightarrow> bytes \<Rightarrow> bytes" where
  "pad_to n bs = take n bs @ replicate (n - length bs) 0"

lemma length_pad_to [simp]: "length (pad_to n bs) = n"
  by (simp add: pad_to_def)

definition sample_lib :: crypto where
  "sample_lib = \<lparr> sha1 = pad_to 20, sha256 = pad_to 32, sha512 = pad_to 64,
     aesEncrypt = (\<lambda>k b. rev b), aesDecrypt = (\<lambda>k b. rev b),
     cfbEncrypt = (\<lambda>k iv d. map (\<lambda>b. b XOR 0xA5) d), cfbDecrypt = (\<lambda>k iv d. map (\<lambda>b. b XOR 0xA5) d),
     inverseMod = (\<lambda>p q. 1),
     rsaSign = (\<lambda>k m. pad_to (minEncodedSize (rsaModulus k)) m),
     rsaVerify = (\<lambda>(n, e) m s. s = pad_to (minEncodedSize n) m),
     rsaEncrypt = (\<lambda>(n, e) r m. if length m < minEncodedSize n
        then Some (replicate (minEncodedSize n - 1 - length m) 0 @ 1 # m) else None),
     rsaDecrypt = (\<lambda>k c. Some (case dropWhile (\<lambda>b. b = 0) c of [] \<Rightarrow> None | x # m \<Rightarrow> Some m)),
     edPublic = id, edSign = (\<lambda>k m. pad_to 64 m), edVerify = (\<lambda>k m s. s = pad_to 64 m),
     xPublic = id, xAgree = (\<lambda>a b. Some (map2 (XOR) (pad_to 32 a) (pad_to 32 b))),
     deflate = id, inflateRaw = Some, inflateZlib = Some \<rparr>"

lemma sample_mask: "(b XOR 0xA5) XOR 0xA5 = b" for b :: byte
  by (simp only: xor.assoc xor_self_eq xor.right_neutral)

lemma sample_cfb: "cfb_ok sample_lib"
  by (simp add: cfb_ok_def sample_lib_def sample_mask comp_def)

lemma sample_lib_ok: "digests_ok sample_lib" "aes_ok sample_lib" "cfb_ok sample_lib"
  "rsa_sign_ok sample_lib k" "ed_sign_ok sample_lib s" "x_agree_ok sample_lib a b"
proof -
  show "cfb_ok sample_lib" by (rule sample_cfb)
qed (auto simp: sample_lib_def digests_ok_def aes_ok_def rsa_sign_ok_def
      ed_sign_ok_def rsaPublicOf_def x_agree_ok_def zip_commute [of "pad_to 32 a"] xor.commute
      case_prod_unfold)

lemma sample_lib_stream: "cfb_stream_ok sample_lib"
  by (simp add: cfb_stream_ok_def sample_lib_def)

lemma dropWhile_replicate: "dropWhile (\<lambda>b. b = x) (replicate n x @ ys) = dropWhile (\<lambda>b. b = x) ys"
  by (induction n) simp_all

lemma sample_lib_crypt_ok: "rsa_crypt_ok sample_lib k" "deflate_ok sample_lib"
  by (auto simp: sample_lib_def rsa_crypt_ok_def deflate_ok_def rsaPublicOf_def dropWhile_replicate)

end
