(* ===== verification/Keys.thy ===== *)
theory Keys
  imports Crypto
begin

unbundle bit_operations_syntax

text \<open>
  Key packets of src/src/Pgp/PgpEngine.cpp (RFC 4880 section 5.5): fingerprints, public-key
  bodies of the three algorithms, AES key wrap (RFC 3394), the ECDH key derivation, the
  Iterated+Salted String-to-Key function and the secret-key envelope.
\<close>

section \<open>Fingerprints\<close>

definition buildKeyHashPrefix :: "bytes \<Rightarrow> bytes" where
  "buildKeyHashPrefix publicKeyPacketBody =
     appendAll (appendBigEndian16 [0x99] (word_of_nat (length publicKeyPacketBody))) publicKeyPacketBody"

definition computeFingerprintAndKeyId :: "crypto \<Rightarrow> bytes \<Rightarrow> bytes \<times> bytes" where
  "computeFingerprintAndKeyId L publicKeyPacketBody =
     (let data = appendAll (appendBigEndian16 [0x99] (word_of_nat (length publicKeyPacketBody))) publicKeyPacketBody;
          fingerprint = sha1 L data
      in (fingerprint, take 8 (drop 12 fingerprint)))"

section \<open>Public-key packet bodies\<close>

definition PGP_ED25519_OID :: bytes where
  "PGP_ED25519_OID = [0x2B, 0x06, 0x01, 0x04, 0x01, 0xDA, 0x47, 0x0F, 0x01]"
definition PGP_X25519_OID :: bytes where
  "PGP_X25519_OID = [0x2B, 0x06, 0x01, 0x04, 0x01, 0x97, 0x55, 0x01, 0x05, 0x01]"
definition PGP_ALGO_RSA :: byte where [simp]: "PGP_ALGO_RSA = 1"
definition PGP_ALGO_EDDSA :: byte where [simp]: "PGP_ALGO_EDDSA = 22"
definition PGP_ALGO_ECDH :: byte where [simp]: "PGP_ALGO_ECDH = 18"

definition buildRsaPublicKeyPacketBody :: "32 word \<Rightarrow> nat \<Rightarrow> nat \<Rightarrow> bytes" where
  "buildRsaPublicKeyPacketBody creationTime n e =
     (let body = appendBigEndian32 [4] creationTime @ [1]
      in appendAll (appendAll body (encodeMpi n)) (encodeMpi e))"

definition parseRsaPublicKeyPacketBody :: "crypto \<Rightarrow> bytes \<Rightarrow> (nat \<times> nat \<times> bytes) cpp" where
  "parseRsaPublicKeyPacketBody L body =
     (if length body < 6 \<or> body ! 0 \<noteq> 4 \<or> body ! 5 \<noteq> 1 then no
      else on_true (readMpi body 6) (\<lambda>(n, pos).
        on_true (readMpi body pos) (\<lambda>(e, pos).
          yes (n, e, snd (computeFingerprintAndKeyId L body)))))"

definition encodeNativePointMpi :: "bytes \<Rightarrow> bytes" where
  "encodeNativePointMpi point = encodeMpi (integerDecode (0x40 # point))"

definition readNativePointMpi :: "bytes \<Rightarrow> nat \<Rightarrow> (bytes \<times> nat) cpp" where
  "readNativePointMpi body pos =
     (if pos + 2 > length body then no
      else do {
        bitLength \<leftarrow> readBigEndian16 body pos;
        let byteLength = (bitLength + 7) div 8;
        if byteLength \<noteq> 33 \<or> pos + 2 + byteLength > length body then no
        else do {
          marker \<leftarrow> byte_at body (pos + 2);
          if marker \<noteq> 0x40 then no
          else do {
            point \<leftarrow> slice body (pos + 3) (pos + 3 + 32);
            yes (point, pos + 2 + byteLength) } } })"

definition buildEd25519PublicKeyPacketBody :: "32 word \<Rightarrow> bytes \<Rightarrow> bytes" where
  "buildEd25519PublicKeyPacketBody creationTime publicKey =
     (let body = appendBigEndian32 [4] creationTime @ [PGP_ALGO_EDDSA] @ [word_of_nat (length PGP_ED25519_OID)]
      in appendAll (appendAll body PGP_ED25519_OID) (encodeNativePointMpi publicKey))"

definition buildX25519PublicKeyPacketBody :: "32 word \<Rightarrow> bytes \<Rightarrow> bytes" where
  "buildX25519PublicKeyPacketBody creationTime publicKey =
     (let body = appendBigEndian32 [4] creationTime @ [PGP_ALGO_ECDH] @ [word_of_nat (length PGP_X25519_OID)]
      in appendAll (appendAll body PGP_X25519_OID) (encodeNativePointMpi publicKey) @ [3, 1, 8, 7])"

definition parseEd25519PublicKeyPacketBody :: "crypto \<Rightarrow> bytes \<Rightarrow> (bytes \<times> bytes) cpp" where
  "parseEd25519PublicKeyPacketBody L body =
     (if length body < 7 \<or> body ! 0 \<noteq> 4 \<or> body ! 5 \<noteq> PGP_ALGO_EDDSA then no
      else if unat (body ! 6) \<noteq> length PGP_ED25519_OID \<or> length body < 7 + length PGP_ED25519_OID
        \<or> take (length PGP_ED25519_OID) (drop 7 body) \<noteq> PGP_ED25519_OID then no
      else on_true (readNativePointMpi body (7 + length PGP_ED25519_OID)) (\<lambda>(publicKey, pos).
        yes (publicKey, snd (computeFingerprintAndKeyId L body))))"

definition parseX25519PublicKeyPacketBody :: "crypto \<Rightarrow> bytes \<Rightarrow> (bytes \<times> bytes \<times> bytes) cpp" where
  "parseX25519PublicKeyPacketBody L body =
     (if length body < 7 \<or> body ! 0 \<noteq> 4 \<or> body ! 5 \<noteq> PGP_ALGO_ECDH then no
      else if unat (body ! 6) \<noteq> length PGP_X25519_OID \<or> length body < 7 + length PGP_X25519_OID
        \<or> take (length PGP_X25519_OID) (drop 7 body) \<noteq> PGP_X25519_OID then no
      else on_true (readNativePointMpi body (7 + length PGP_X25519_OID)) (\<lambda>(publicKey, pos).
        let (fingerprint, keyId) = computeFingerprintAndKeyId L body in yes (publicKey, keyId, fingerprint)))"

section \<open>Secret-key cleartexts\<close>

definition buildEd25519SecretKeyCleartext :: "bytes \<Rightarrow> bytes" where
  "buildEd25519SecretKeyCleartext privateKey = encodeMpi (integerDecode privateKey)"

definition buildX25519SecretKeyCleartext :: "bytes \<Rightarrow> bytes" where
  "buildX25519SecretKeyCleartext privateKey = encodeMpi (integerDecode privateKey)"

definition buildRsaSecretKeyCleartext :: "crypto \<Rightarrow> rsa_key \<Rightarrow> bytes" where
  "buildRsaSecretKeyCleartext L k =
     (let prime1 = rsaPrime1 k; prime2 = rsaPrime2 k;
          p = (if prime1 < prime2 then prime1 else prime2);
          q = (if prime1 < prime2 then prime2 else prime1);
          u = inverseMod L p q
      in appendAll (appendAll (appendAll (encodeMpi (rsaPrivateExponent k)) (encodeMpi p)) (encodeMpi q)) (encodeMpi u))"

section \<open>AES key wrap\<close>

definition xorCounter :: "bytes \<Rightarrow> nat \<Rightarrow> bytes" where
  "xorCounter a t = map (\<lambda>k. a ! k XOR word_of_nat (drop_bit (8 * (7 - k)) t AND 0xFF)) [0..<8]"

definition putBlock8 :: "bytes \<Rightarrow> nat \<Rightarrow> bytes \<Rightarrow> bytes" where
  "putBlock8 r i b = take ((i - 1) * 8) r @ b @ drop (i * 8) r"

definition getBlock8 :: "bytes \<Rightarrow> nat \<Rightarrow> bytes" where
  "getBlock8 r i = take 8 (drop ((i - 1) * 8) r)"

fun wrapStep :: "crypto \<Rightarrow> bytes \<Rightarrow> nat \<Rightarrow> nat \<times> nat \<Rightarrow> bytes \<times> bytes \<Rightarrow> bytes \<times> bytes" where
  "wrapStep L kek n (j, i) (a, r) =
     (let encrypted = aesEncrypt L kek (a @ getBlock8 r i); t = n * j + i
      in (xorCounter (take 8 encrypted) t, putBlock8 r i (drop 8 encrypted)))"

fun unwrapStep :: "crypto \<Rightarrow> bytes \<Rightarrow> nat \<Rightarrow> nat \<times> nat \<Rightarrow> bytes \<times> bytes \<Rightarrow> bytes \<times> bytes" where
  "unwrapStep L kek n (j, i) (a, r) =
     (let t = n * j + i; decrypted = aesDecrypt L kek (xorCounter a t @ getBlock8 r i)
      in (take 8 decrypted, putBlock8 r i (drop 8 decrypted)))"

text \<open>The iterations of the two nested loops in execution order.\<close>

definition wrapSchedule :: "nat \<Rightarrow> (nat \<times> nat) list" where
  "wrapSchedule n = List.product [0..<6] [1..<n + 1]"

definition unwrapSchedule :: "nat \<Rightarrow> (nat \<times> nat) list" where
  "unwrapSchedule n = List.product (rev [0..<6]) (rev [1..<n + 1])"

definition wrapIv :: bytes where "wrapIv = replicate 8 0xA6"

text \<open>The cipher refuses a key that is not 16, 24 or 32 octets long; both functions catch that.\<close>

definition aesKeyWrap :: "crypto \<Rightarrow> bytes \<Rightarrow> bytes \<Rightarrow> bytes" where
  "aesKeyWrap L kek plaintext =
     (if plaintext = [] \<or> length plaintext mod 8 \<noteq> 0 then []
      else if length kek \<notin> {16, 24, 32} then []
      else let n = length plaintext div 8;
               (a, r) = fold (wrapStep L kek n) (wrapSchedule n) (wrapIv, plaintext)
           in a @ r)"

definition aesKeyUnwrap :: "crypto \<Rightarrow> bytes \<Rightarrow> bytes \<Rightarrow> bytes cpp" where
  "aesKeyUnwrap L kek ciphertext =
     (if length ciphertext < 16 \<or> length ciphertext mod 8 \<noteq> 0 then no
      else if length kek \<notin> {16, 24, 32} then no
      else let n = length ciphertext div 8 - 1;
               (a, r) = fold (unwrapStep L kek n) (unwrapSchedule n) (take 8 ciphertext, drop 8 ciphertext)
           in if a \<noteq> wrapIv then no else yes r)"

section \<open>ECDH key derivation\<close>

definition anonymousSender :: bytes where
  "anonymousSender = map of_char ''Anonymous Sender    ''"

definition computeEcdhKek :: "crypto \<Rightarrow> bytes \<Rightarrow> bytes \<Rightarrow> nat \<Rightarrow> bytes" where
  "computeEcdhKek L sharedSecret param kekLength =
     (let hashInput = appendAll (appendBigEndian32 [] 1 @ sharedSecret) param
      in take kekLength (sha256 L hashInput))"

definition buildEcdhKdfParam :: "bytes \<Rightarrow> bytes" where
  "buildEcdhKdfParam recipientSubkeyFingerprint =
     appendAll [word_of_nat (length PGP_X25519_OID)] PGP_X25519_OID @ [PGP_ALGO_ECDH, 3, 1, 8, 7]
       @ anonymousSender @ take 20 recipientSubkeyFingerprint"

section \<open>Subpackets\<close>

definition buildKeyFlagsSubpacket :: "byte \<Rightarrow> bytes" where
  "buildKeyFlagsSubpacket flags = appendSubpacket [] 27 [flags]"

definition buildKeyExpirationSubpacket :: "32 word \<Rightarrow> bytes" where
  "buildKeyExpirationSubpacket expirationSeconds = appendSubpacket [] 9 (appendBigEndian32 [] expirationSeconds)"

definition buildRevocationReasonSubpacket :: "byte \<Rightarrow> bytes option \<Rightarrow> bytes" where
  "buildRevocationReasonSubpacket reasonCode reasonText =
     appendSubpacket [] 29 ([reasonCode] @ (case reasonText of None \<Rightarrow> [] | Some t \<Rightarrow> t))"

definition buildPrimaryUserIdSubpacket :: "bool \<Rightarrow> bytes" where
  "buildPrimaryUserIdSubpacket isPrimary = appendSubpacket [] 25 [if isPrimary then 1 else 0]"

section \<open>String-to-Key and the secret-key envelope\<close>

text \<open>The octets fed to the hash. The salt makes \<open>saltedPassword\<close> nonempty, so the loop ends.\<close>

function s2kInput :: "bytes \<Rightarrow> nat \<Rightarrow> bytes" where
  "s2kInput saltedPassword remaining =
     (if remaining = 0 \<or> saltedPassword = [] then []
      else let chunk = min remaining (length saltedPassword)
           in take chunk saltedPassword @ s2kInput saltedPassword (remaining - chunk))"
  by pat_completeness auto

termination
  by (relation "measure snd") auto

declare s2kInput.simps [simp del]

definition s2kCount :: "byte \<Rightarrow> nat" where
  "s2kCount countCoded = push_bit (unat (drop_bit 4 countCoded) + 6) (16 + unat (countCoded AND 15))"

definition deriveS2kKey :: "crypto \<Rightarrow> bytes \<Rightarrow> bytes \<Rightarrow> byte \<Rightarrow> nat \<Rightarrow> bytes" where
  "deriveS2kKey L password salt countCoded keySize =
     (let codedCount = s2kCount countCoded;
          saltedPassword = appendAll [] salt @ password;
          remaining = (if codedCount < length saltedPassword then length saltedPassword else codedCount)
      in pad_to keySize (sha256 L (s2kInput saltedPassword remaining)))"

definition encryptSecretKeyMaterial :: "crypto \<Rightarrow> bytes \<Rightarrow> bytes \<Rightarrow> bytes \<Rightarrow> bytes \<Rightarrow> bytes \<Rightarrow> bytes" where
  "encryptSecretKeyMaterial L salt iv publicKeyPacketBody cleartext password =
     (let plainWithCheck = appendAll cleartext (sha1 L cleartext);
          countCoded = 0x60;
          s2kKey = deriveS2kKey L password salt countCoded 32
      in if length s2kKey \<noteq> 32 then []
         else publicKeyPacketBody @ [254, 9, 3, 8] @ salt @ [countCoded] @ iv
              @ cfbEncrypt L s2kKey iv plainWithCheck)"

definition checkPasswordHash :: "crypto \<Rightarrow> bytes \<Rightarrow> bytes \<Rightarrow> bool" where
  "checkPasswordHash L storedHash password = (sha256 L password = storedHash)"


section \<open>Native points are a field\<close>

lemma bitCount_eq: "2 ^ k \<le> n \<Longrightarrow> n < 2 ^ Suc k \<Longrightarrow> bitCount n = Suc k"
  using bitCount_le [of n "Suc k"] bitCount_bound [of n]
  by (metis le_antisym not_less_eq_eq order_le_less_trans power_increasing_iff one_less_numeral_iff
      semiring_norm(76) order_less_irrefl not_less)

lemma encodeNativePointMpi_eq:
  assumes "length p = 32"
  shows "encodeNativePointMpi p = [1, 7, 0x40] @ p"
proof -
  let ?n = "integerDecode (0x40 # p)"
  have n: "?n = 64 * 256 ^ 32 + integerDecode p" using assms by (simp add: integerDecode_Cons)
  have "integerDecode p < 256 ^ 32" using integerDecode_lt [of p] assms by simp
  then have "bitCount ?n = Suc 262" unfolding n by (intro bitCount_eq) simp_all
  moreover have "integerEncode 33 ?n = 0x40 # p"
    using integerEncode_integerDecode [of "0x40 # p"] assms by simp
  ultimately show ?thesis
    by (simp add: encodeNativePointMpi_def encodeMpi_def appendBigEndian16_def appendAll_def Let_def)
qed

lemma length_encodeNativePointMpi: "length p = 32 \<Longrightarrow> length (encodeNativePointMpi p) = 35"
  by (simp add: encodeNativePointMpi_eq)

lemma readNativePointMpi_encode:
  assumes "length p = 32"
  shows "readNativePointMpi (pre @ encodeNativePointMpi p @ post) (length pre) = yes (p, length pre + 35)"
  using assms by (simp add: encodeNativePointMpi_eq readNativePointMpi_def readBigEndian16_def
      nth_append be16_eq)

lemma readNativePointMpi_safe [ub_free]: "safe (readNativePointMpi data pos)"
  by (auto simp: readNativePointMpi_def readBigEndian16_def Let_def byte_at_def slice_def)

lemma readNativePointMpi_pos [advances]:
  "readNativePointMpi data pos = yes (v, p) \<Longrightarrow> pos < p \<and> p \<le> length data \<and> length v = 32"
  by (auto simp: readNativePointMpi_def Let_def slice_Some split: if_splits bind_splits)

interpretation nativePoint: wire_field encodeNativePointMpi readNativePointMpi "\<lambda>p. length p = 32"
  by unfold_locales
    (auto simp: readNativePointMpi_encode length_encodeNativePointMpi readNativePointMpi_safe
      dest: readNativePointMpi_pos)

section \<open>Public-key bodies\<close>

lemma length_appendBigEndian32 [simp]: "length (appendBigEndian32 out w) = length out + 4"
  by (simp add: appendBigEndian32_def)

lemma appendBigEndian32_append: "appendBigEndian32 out w = out @ appendBigEndian32 [] w"
  by (simp add: appendBigEndian32_def)

lemma parseRsa_build:
  assumes "bitCount n < 65536" "bitCount e < 65536"
  shows "parseRsaPublicKeyPacketBody L (buildRsaPublicKeyPacketBody t n e) =
    yes (n, e, snd (computeFingerprintAndKeyId L (buildRsaPublicKeyPacketBody t n e)))"
proof -
  let ?h = "appendBigEndian32 [4] t @ [1]"
  have body: "buildRsaPublicKeyPacketBody t n e = ?h @ encodeMpi n @ encodeMpi e"
    by (simp add: buildRsaPublicKeyPacketBody_def appendAll_def)
  have "readMpi (?h @ encodeMpi n @ encodeMpi e) 6 = yes (n, 6 + length (encodeMpi n))"
    using mpi.get_put [OF assms(1), of ?h "encodeMpi e"] by simp
  moreover have "readMpi (?h @ encodeMpi n @ encodeMpi e) (6 + length (encodeMpi n))
      = yes (e, 6 + length (encodeMpi n) + length (encodeMpi e))"
    using mpi.get_put [OF assms(2), of "?h @ encodeMpi n" "[]"] by (simp add: add.assoc)
  moreover have "(?h @ r) ! 0 = 4" "(?h @ r) ! 5 = 1" for r
    by (simp_all add: appendBigEndian32_def nth_append)
  ultimately show ?thesis
    unfolding body parseRsaPublicKeyPacketBody_def by simp
qed

lemma curve_body_shape:
  assumes "length oid < 100" "length p = 32"
    and "body = appendBigEndian32 [4] t @ [algo] @ [word_of_nat (length oid)] @ oid @ encodeNativePointMpi p @ tail"
  shows "7 + length oid \<le> length body" "body ! 0 = 4" "body ! 5 = algo" "unat (body ! 6) = length oid"
    "take (length oid) (drop 7 body) = oid"
    "readNativePointMpi body (7 + length oid) = yes (p, 7 + length oid + 35)"
proof -
  let ?h = "appendBigEndian32 [4] t @ [algo] @ [word_of_nat (length oid)] @ oid"
  have "length ?h = 7 + length oid" by simp
  then show "readNativePointMpi body (7 + length oid) = yes (p, 7 + length oid + 35)"
    using readNativePointMpi_encode [OF assms(2), of ?h tail] assms(3) by (simp only: append_assoc)
qed (use assms in \<open>simp_all add: appendBigEndian32_def\<close>)

lemma parseEd25519_build:
  assumes "length p = 32"
  shows "parseEd25519PublicKeyPacketBody L (buildEd25519PublicKeyPacketBody t p) =
    yes (p, snd (computeFingerprintAndKeyId L (buildEd25519PublicKeyPacketBody t p)))"
  using curve_body_shape [of PGP_ED25519_OID p _ t PGP_ALGO_EDDSA "[]", OF _ assms refl]
  by (simp add: parseEd25519PublicKeyPacketBody_def buildEd25519PublicKeyPacketBody_def Let_def
      appendAll_def PGP_ED25519_OID_def)

lemma parseX25519_build:
  assumes "length p = 32"
  shows "parseX25519PublicKeyPacketBody L (buildX25519PublicKeyPacketBody t p) =
    yes (p, snd (computeFingerprintAndKeyId L (buildX25519PublicKeyPacketBody t p)),
      fst (computeFingerprintAndKeyId L (buildX25519PublicKeyPacketBody t p)))"
  using curve_body_shape [of PGP_X25519_OID p _ t PGP_ALGO_ECDH "[3, 1, 8, 7]", OF _ assms refl]
  by (simp add: parseX25519PublicKeyPacketBody_def buildX25519PublicKeyPacketBody_def Let_def
      appendAll_def PGP_X25519_OID_def case_prod_unfold)

lemma parse_bodies_safe [ub_free]:
  "safe (parseRsaPublicKeyPacketBody L body)" "safe (parseEd25519PublicKeyPacketBody L body)"
  "safe (parseX25519PublicKeyPacketBody L body)"
  by (auto simp: parseRsaPublicKeyPacketBody_def parseEd25519PublicKeyPacketBody_def
      parseX25519PublicKeyPacketBody_def Let_def case_prod_unfold
      intro!: safe_on_true readMpi_safe readNativePointMpi_safe)

text \<open>No body is accepted by the parsers of two algorithms.\<close>

lemma parse_bodies_exclusive:
  "parseRsaPublicKeyPacketBody L body = yes r \<Longrightarrow> body ! 5 = PGP_ALGO_RSA"
  "parseEd25519PublicKeyPacketBody L body = yes s \<Longrightarrow> body ! 5 = PGP_ALGO_EDDSA"
  "parseX25519PublicKeyPacketBody L body = yes u \<Longrightarrow> body ! 5 = PGP_ALGO_ECDH"
  by (auto simp: parseRsaPublicKeyPacketBody_def parseEd25519PublicKeyPacketBody_def
      parseX25519PublicKeyPacketBody_def split: if_splits)

section \<open>Key-hash prefixes delimit themselves\<close>

lemma keyHashPrefix_eq: "buildKeyHashPrefix b = 0x99 # appendBigEndian16 [] (word_of_nat (length b)) @ b"
  by (simp add: buildKeyHashPrefix_def appendAll_def appendBigEndian16_def)

lemma appendBigEndian16_inj:
  assumes "appendBigEndian16 [] v @ r = appendBigEndian16 [] w @ s"
  shows "v = w \<and> r = s"
proof -
  have "unat v = unat w"
    using readBigEndian16_appendBigEndian16 [of "[]" v r] readBigEndian16_appendBigEndian16 [of "[]" w s] assms
    by simp
  then have "v = w" by (simp add: word_unat_eq_iff)
  with assms show ?thesis by simp
qed

lemma keyHashPrefix_prefix_free:
  assumes "length a < 65536" "length b < 65536" "buildKeyHashPrefix a @ r = buildKeyHashPrefix b @ s"
  shows "a = b \<and> r = s"
proof -
  have "(word_of_nat (length a) :: 16 word) = word_of_nat (length b)" "a @ r = b @ s"
    using assms(3) appendBigEndian16_inj [of _ "a @ r" _ "b @ s"] by (auto simp: keyHashPrefix_eq)
  moreover have "unat (word_of_nat (length c) :: 16 word) = length c" if "length c < 65536" for c
    using that by (simp add: unat_of_nat)
  ultimately have "length a = length b" using assms(1,2) by metis
  with \<open>a @ r = b @ s\<close> show ?thesis by simp
qed

section \<open>AES key wrap: unwrapping inverts wrapping\<close>

lemma fold_inverse:
  assumes "\<And>x s. x \<in> set xs \<Longrightarrow> I s \<Longrightarrow> I (f x s) \<and> g x (f x s) = s" "I s"
  shows "I (fold f xs s) \<and> fold g (rev xs) (fold f xs s) = s"
  using assms
proof (induction xs arbitrary: s)
  case (Cons x xs)
  have "I (f x s)" "g x (f x s) = s" using Cons.prems by auto
  with Cons.IH [of "f x s"] Cons.prems show ?case by simp
qed simp

lemma xorCounter_involutive: "length a = 8 \<Longrightarrow> xorCounter (xorCounter a t) t = a"
  by (rule nth_equalityI) (simp_all add: xorCounter_def xor.assoc)

lemma length_xorCounter [simp]: "length (xorCounter a t) = 8"
  by (simp add: xorCounter_def)

definition wrap_inv :: "nat \<Rightarrow> bytes \<times> bytes \<Rightarrow> bool" where
  "wrap_inv n s \<longleftrightarrow> length (fst s) = 8 \<and> length (snd s) = 8 * n"

lemma block8:
  assumes "1 \<le> i" "i \<le> n" "length r = 8 * n" "length b = 8"
  shows "length (getBlock8 r i) = 8" "length (putBlock8 r i b) = 8 * n"
    "getBlock8 (putBlock8 r i b) i = b" "putBlock8 (putBlock8 r i b) i (getBlock8 r i) = r"
proof -
  obtain k where i: "i = Suc k" using assms(1) by (cases i) auto
  define x y z where "x = take (k * 8) r" and "y = take 8 (drop (k * 8) r)" and "z = drop (k * 8 + 8) r"
  have r: "r = x @ y @ z" and len: "length x = k * 8" "length y = 8"
    using assms i by (auto simp: x_def y_def z_def add.commute simp flip: drop_drop)
  show "length (getBlock8 r i) = 8" "getBlock8 (putBlock8 r i b) i = b"
    "putBlock8 (putBlock8 r i b) i (getBlock8 r i) = r"
    using len assms(4) by (simp_all add: r i getBlock8_def putBlock8_def)
  show "length (putBlock8 r i b) = 8 * n"
    using len assms(3,4) by (simp add: r i putBlock8_def)
qed

lemma unwrapStep_wrapStep:
  assumes "aes_ok L" "1 \<le> i" "i \<le> n" "wrap_inv n s"
  shows "wrap_inv n (wrapStep L kek n (j, i) s) \<and> unwrapStep L kek n (j, i) (wrapStep L kek n (j, i) s) = s"
proof -
  obtain a r where s: "s = (a, r)" by (cases s)
  have len: "length a = 8" "length r = 8 * n" using assms(4) by (auto simp: wrap_inv_def s)
  let ?e = "aesEncrypt L kek (a @ getBlock8 r i)"
  note get = block8(1) [OF assms(2,3) len(2), of a, OF len(1)]
  have e: "length ?e = 16" "aesDecrypt L kek ?e = a @ getBlock8 r i"
    using assms(1) len get by (simp_all add: aes_ok_def)
  note put = block8 [OF assms(2,3) len(2), of "drop 8 ?e"]
  show ?thesis
    using e put len get by (simp add: s wrap_inv_def Let_def xorCounter_involutive)
qed

lemma unwrapSchedule_rev: "unwrapSchedule n = rev (wrapSchedule n)"
  by (simp add: unwrapSchedule_def wrapSchedule_def product_concat_map rev_concat rev_map comp_def del: upt_Suc)

lemma aesKeyUnwrap_aesKeyWrap:
  assumes "aes_ok L" "length kek \<in> {16, 24, 32}" "m \<noteq> []" "length m mod 8 = 0"
  shows "aesKeyUnwrap L kek (aesKeyWrap L kek m) = yes m \<and> length (aesKeyWrap L kek m) = length m + 8"
proof -
  define n where "n = length m div 8"
  have len: "length m = 8 * n" using assms(4) unfolding n_def by auto
  with assms(3) have n: "1 \<le> n" by (cases n) auto
  obtain a r where ar: "fold (wrapStep L kek n) (wrapSchedule n) (wrapIv, m) = (a, r)" by force
  have step: "wrap_inv n (wrapStep L kek n x s) \<and> unwrapStep L kek n x (wrapStep L kek n x s) = s"
    if "x \<in> set (wrapSchedule n)" "wrap_inv n s" for x s
    using unwrapStep_wrapStep [OF assms(1), of "snd x" n s kek "fst x"] that
    by (auto simp: wrapSchedule_def simp del: wrapStep.simps unwrapStep.simps)
  have "wrap_inv n (fold (wrapStep L kek n) (wrapSchedule n) (wrapIv, m)) \<and>
    fold (unwrapStep L kek n) (rev (wrapSchedule n)) (fold (wrapStep L kek n) (wrapSchedule n) (wrapIv, m)) = (wrapIv, m)"
    by (rule fold_inverse [where I = "wrap_inv n"]) (use step in \<open>simp_all add: wrap_inv_def wrapIv_def len\<close>)
  then have inv: "length a = 8" "length r = 8 * n"
    and undone: "fold (unwrapStep L kek n) (unwrapSchedule n) (a, r) = (wrapIv, m)"
    by (auto simp: ar wrap_inv_def unwrapSchedule_rev)
  have wrap: "aesKeyWrap L kek m = a @ r"
    using assms ar by (simp add: aesKeyWrap_def n_def [symmetric])
  have "(length a + length r) div 8 - 1 = n" using inv by simp
  then show ?thesis
    using inv n assms(2) undone len unfolding wrap by (simp add: aesKeyUnwrap_def Let_def)
qed

section \<open>String-to-Key\<close>

lemma s2kInput_nth:
  "sp \<noteq> [] \<Longrightarrow> length (s2kInput sp n) = n \<and> (\<forall>i < n. s2kInput sp n ! i = sp ! (i mod length sp))"
proof (induction sp n rule: s2kInput.induct)
  case (1 sp n)
  show ?case
  proof (cases "n = 0")
    case False
    let ?c = "min n (length sp)"
    have IH: "length (s2kInput sp (n - ?c)) = n - ?c"
      "\<And>i. i < n - ?c \<Longrightarrow> s2kInput sp (n - ?c) ! i = sp ! (i mod length sp)"
      using "1.IH" [OF _ refl] False "1.prems" by auto
    have eq: "s2kInput sp n = take ?c sp @ s2kInput sp (n - ?c)"
      using False "1.prems" by (subst s2kInput.simps) (simp add: Let_def)
    show ?thesis
    proof (intro conjI allI impI)
      show "length (s2kInput sp n) = n" unfolding eq using IH by simp
      fix i assume "i < n"
      show "s2kInput sp n ! i = sp ! (i mod length sp)"
      proof (cases "i < length sp")
        case True
        with \<open>i < n\<close> show ?thesis unfolding eq by (simp add: nth_append)
      next
        case False
        with \<open>i < n\<close> IH(2) [of "i - length sp"] show ?thesis unfolding eq
          by (simp add: nth_append le_mod_geq min_absorb2)
      qed
    qed
  qed (simp add: s2kInput.simps)
qed


section \<open>The secret-key envelope opens with its password\<close>

text \<open>
  What a reader of RFC 4880 section 5.5.3 does with a secret-key body whose public part is known:
  usage octet 254, AES-256, Iterated+Salted S2K with SHA-256, then the SHA-1 check.
\<close>

definition openSecretKeyMaterial :: "crypto \<Rightarrow> bytes \<Rightarrow> bytes \<Rightarrow> bytes \<Rightarrow> bytes option" where
  "openSecretKeyMaterial L password publicKeyPacketBody body =
     (let rest = drop (length publicKeyPacketBody) body;
          salt = take 8 (drop 4 rest); countCoded = rest ! 12; iv = take 16 (drop 13 rest);
          plain = cfbDecrypt L (deriveS2kKey L password salt countCoded 32) iv (drop 29 rest);
          n = length plain - 20
      in if take (length publicKeyPacketBody) body = publicKeyPacketBody \<and> length rest \<ge> 29
            \<and> take 4 rest = [254, 9, 3, 8] \<and> length plain \<ge> 20 \<and> drop n plain = sha1 L (take n plain)
         then Some (take n plain) else None)"

lemma openSecretKeyMaterial_encrypt:
  assumes "digests_ok L" "cfb_ok L" "length salt = 8" "length iv = 16"
  shows "openSecretKeyMaterial L pw pub (encryptSecretKeyMaterial L salt iv pub clear pw) = Some clear"
    and "encryptSecretKeyMaterial L salt iv pub clear pw \<noteq> []"
proof -
  have key: "length (deriveS2kKey L pw salt 0x60 32) = 32" by (simp add: deriveS2kKey_def Let_def)
  have len: "length (sha1 L clear) = 20" using assms(1) by (simp add: digests_ok_def)
  let ?e = "cfbEncrypt L (deriveS2kKey L pw salt 0x60 32) iv (clear @ sha1 L clear)"
  have e: "length ?e = length clear + 20"
    "cfbDecrypt L (deriveS2kKey L pw salt 0x60 32) iv ?e = clear @ sha1 L clear"
    using assms(2) len by (simp_all add: cfb_ok_def)
  have eq: "encryptSecretKeyMaterial L salt iv pub clear pw = pub @ [254, 9, 3, 8] @ salt @ [0x60] @ iv @ ?e"
    by (simp add: encryptSecretKeyMaterial_def Let_def key appendAll_def)
  then show "encryptSecretKeyMaterial L salt iv pub clear pw \<noteq> []" by simp
  have "([254, 9, 3, 8] @ salt @ [0x60] @ iv @ ?e) ! 12 = 0x60"
    using assms(3) by (simp add: nth_append)
  then show "openSecretKeyMaterial L pw pub (encryptSecretKeyMaterial L salt iv pub clear pw) = Some clear"
    unfolding eq openSecretKeyMaterial_def Let_def using assms(3,4) e len by simp
qed


section \<open>Properties\<close>

text \<open>The public-key bodies of the three algorithms are read back by their parsers with
  the key and the key ID that the fingerprint of the same octets gives, and no parser accepts the
  body of another algorithm.\<close>

theorem public_key_bodies_round_trip:
  assumes "bitCount n < 65536" "bitCount e < 65536" "length p = 32"
  shows "parseRsaPublicKeyPacketBody L (buildRsaPublicKeyPacketBody t n e)
      = yes (n, e, snd (computeFingerprintAndKeyId L (buildRsaPublicKeyPacketBody t n e)))
    \<and> parseEd25519PublicKeyPacketBody L (buildEd25519PublicKeyPacketBody t p)
      = yes (p, snd (computeFingerprintAndKeyId L (buildEd25519PublicKeyPacketBody t p)))
    \<and> parseX25519PublicKeyPacketBody L (buildX25519PublicKeyPacketBody t p)
      = yes (p, prod.swap (computeFingerprintAndKeyId L (buildX25519PublicKeyPacketBody t p)))
    \<and> parseRsaPublicKeyPacketBody L (buildEd25519PublicKeyPacketBody t p) = no
    \<and> parseEd25519PublicKeyPacketBody L (buildX25519PublicKeyPacketBody t p) = no
    \<and> parseX25519PublicKeyPacketBody L (buildRsaPublicKeyPacketBody t n e) = no"
proof -
  have fifth: "buildRsaPublicKeyPacketBody t n e ! 5 = 1" "buildEd25519PublicKeyPacketBody t p ! 5 = 22"
    "buildX25519PublicKeyPacketBody t p ! 5 = 18"
    by (simp_all add: buildRsaPublicKeyPacketBody_def buildEd25519PublicKeyPacketBody_def
        buildX25519PublicKeyPacketBody_def Let_def appendAll_def appendBigEndian32_def)
  have "parseRsaPublicKeyPacketBody L (buildEd25519PublicKeyPacketBody t p) = no"
    "parseEd25519PublicKeyPacketBody L (buildX25519PublicKeyPacketBody t p) = no"
    "parseX25519PublicKeyPacketBody L (buildRsaPublicKeyPacketBody t n e) = no"
    by (simp_all add: parseRsaPublicKeyPacketBody_def parseEd25519PublicKeyPacketBody_def
        parseX25519PublicKeyPacketBody_def fifth)
  then show ?thesis
    using parseRsa_build [OF assms(1,2)] parseEd25519_build [OF assms(3)] parseX25519_build [OF assms(3)]
    by (simp add: prod.swap_def)
qed

lemma public_key_bodies_round_trip_witness:
  "parseRsaPublicKeyPacketBody sample_lib (buildRsaPublicKeyPacketBody 7 3233 17)
      = yes (3233, 17, snd (computeFingerprintAndKeyId sample_lib (buildRsaPublicKeyPacketBody 7 3233 17)))"
  using public_key_bodies_round_trip [of 3233 17 "replicate 32 0" sample_lib 7]
    bitCount_le [of 3233 12] bitCount_le [of 17 5] by simp

text \<open>C36: Unwrapping with the same key-encryption key returns the wrapped key, for every key
  that the wrap accepts, and wrapping adds one block; this rests only on the block cipher's decryption
  inverting its encryption.\<close>

theorem aes_key_wrap_round_trip:
  assumes "aes_ok L" "length kek \<in> {16, 24, 32}" "m \<noteq> []" "length m mod 8 = 0"
  shows "aesKeyUnwrap L kek (aesKeyWrap L kek m) = yes m \<and> length (aesKeyWrap L kek m) = length m + 8"
  by (rule aesKeyUnwrap_aesKeyWrap [OF assms])

lemma aes_key_wrap_round_trip_witness:
  "aesKeyUnwrap sample_lib (replicate 16 5) (aesKeyWrap sample_lib (replicate 16 5) (replicate 40 9)) = yes (replicate 40 9)"
  using aes_key_wrap_round_trip [of sample_lib "replicate 16 5" "replicate 40 9"] sample_lib_ok(2) by simp

text \<open>The String-to-Key function hashes the salted password repeated to the coded count of
  octets, and never less than one whole copy of it: the chunked loop of the code feeds exactly that stream,
  octet by octet, and the key it derives has the size that was asked for.\<close>

theorem s2k_hashes_coded_count:
  assumes "length salt = 8"
  shows "\<exists>stream. deriveS2kKey L password salt countCoded keySize = pad_to keySize (sha256 L stream)
    \<and> length stream = max (s2kCount countCoded) (8 + length password)
    \<and> (\<forall>i < length stream. stream ! i = (salt @ password) ! (i mod (8 + length password)))"
proof -
  let ?sp = "salt @ password" and ?n = "max (s2kCount countCoded) (8 + length password)"
  have "?sp \<noteq> []" using assms by auto
  from s2kInput_nth [OF this, of ?n] assms show ?thesis
    by (intro exI [of _ "s2kInput ?sp ?n"]) (auto simp: deriveS2kKey_def appendAll_def Let_def max_def)
qed

lemma s2k_hashes_coded_count_witness:
  "\<exists>stream. deriveS2kKey sample_lib [104, 105] (replicate 8 1) 0x60 32 = pad_to 32 (sha256 sample_lib stream)
    \<and> length stream = 65536"
  using s2k_hashes_coded_count [of "replicate 8 1" sample_lib "[104, 105]" "0x60" 32]
  by (auto simp: s2kCount_def drop_bit_eq_div push_bit_eq_mult)

text \<open>A secret-key body that the engine encrypts is opened by a reader of RFC 4880
  section 5.5.3 with the same password, public part included, and yields the cleartext key
  material; the body is never the empty vector that signals failure.\<close>

theorem secret_envelope_opens:
  assumes "digests_ok L" "cfb_ok L" "length salt = 8" "length iv = 16"
  shows "openSecretKeyMaterial L pw pub (encryptSecretKeyMaterial L salt iv pub clear pw) = Some clear
    \<and> encryptSecretKeyMaterial L salt iv pub clear pw \<noteq> []"
  using openSecretKeyMaterial_encrypt [OF assms] by blast

lemma secret_envelope_opens_witness:
  "openSecretKeyMaterial sample_lib [112] [4, 5]
     (encryptSecretKeyMaterial sample_lib (replicate 8 1) (replicate 16 2) [4, 5] [6, 7] [112]) = Some [6, 7]"
  using secret_envelope_opens [of sample_lib "replicate 8 1" "replicate 16 2" "[112]" "[4, 5]" "[6, 7]"]
    sample_lib_ok by simp

end
