(* ===== verification/Signatures.thy ===== *)
theory Signatures
  imports Keys
begin

unbundle bit_operations_syntax

text \<open>
  Version 4 signature packets of src/src/Pgp/PgpEngine.cpp (RFC 4880 section 5.2): what is
  hashed, how the packet is built for RSA and Ed25519, how a body is parsed and verified, and
  the documents that certifications and subkey bindings sign. \<open>now\<close> is the value of
  \<open>std::time\<close> truncated to 32 bits.
\<close>

section \<open>The octets a signature covers\<close>

definition signatureHashInput :: "bytes \<Rightarrow> byte \<Rightarrow> byte \<Rightarrow> byte \<Rightarrow> bytes \<Rightarrow> bytes" where
  "signatureHashInput documentData signatureType pkAlgorithm hashAlgorithm hashedSubpackets =
     (let toBeHashed = appendAll [] documentData @ [4, signatureType, pkAlgorithm, hashAlgorithm];
          toBeHashed = appendBigEndian16 toBeHashed (word_of_nat (length hashedSubpackets));
          toBeHashed = appendAll toBeHashed hashedSubpackets;
          hashedPortionLength = 6 + length hashedSubpackets
      in appendBigEndian32 (toBeHashed @ [4, 0xFF]) (word_of_nat hashedPortionLength))"

definition signatureHashedSubpackets :: "32 word \<Rightarrow> bytes \<Rightarrow> bytes" where
  "signatureHashedSubpackets now extraHashedSubpacket =
     appendAll (appendSubpacket [] 2 (appendBigEndian32 [] now)) extraHashedSubpacket"

definition signatureBody ::
  "byte \<Rightarrow> byte \<Rightarrow> byte \<Rightarrow> bytes \<Rightarrow> bytes \<Rightarrow> bytes \<Rightarrow> bytes \<Rightarrow> bytes" where
  "signatureBody signatureType pkAlgorithm hashAlgorithm hashedSubpackets unhashedSubpackets leftHash mpis =
     (let body = [4, signatureType, pkAlgorithm, hashAlgorithm];
          body = appendAll (appendBigEndian16 body (word_of_nat (length hashedSubpackets))) hashedSubpackets;
          body = appendAll (appendBigEndian16 body (word_of_nat (length unhashedSubpackets))) unhashedSubpackets
      in body @ [leftHash ! 0, leftHash ! 1] @ mpis)"

section \<open>Building signature packets\<close>

definition buildSignaturePacket :: "crypto \<Rightarrow> 32 word \<Rightarrow> rsa_key \<Rightarrow> byte \<Rightarrow> bytes \<Rightarrow> bytes \<Rightarrow> bytes \<Rightarrow> bytes" where
  "buildSignaturePacket L now signingKey signatureType documentData extraHashedSubpacket issuerKeyId =
     (let hashedSubpackets = signatureHashedSubpackets now extraHashedSubpacket;
          unhashedSubpackets = appendSubpacket [] 16 issuerKeyId;
          toBeHashed = signatureHashInput documentData signatureType 1 8 hashedSubpackets;
          leftHash = sha256 L toBeHashed;
          rawSignature = rsaSign L signingKey toBeHashed;
          sigMpi = encodeMpi (integerDecode rawSignature)
      in writePacket PGP_TAG_SIGNATURE
           (signatureBody signatureType 1 8 hashedSubpackets unhashedSubpackets leftHash sigMpi))"

definition buildEd25519SignaturePacket :: "crypto \<Rightarrow> 32 word \<Rightarrow> bytes \<Rightarrow> byte \<Rightarrow> bytes \<Rightarrow> bytes \<Rightarrow> bytes \<Rightarrow> bytes" where
  "buildEd25519SignaturePacket L now privateKey signatureType documentData extraHashedSubpacket issuerKeyId =
     (let hashedSubpackets = signatureHashedSubpackets now extraHashedSubpacket;
          unhashedSubpackets = appendSubpacket [] 16 issuerKeyId;
          toBeHashed = signatureHashInput documentData signatureType PGP_ALGO_EDDSA 10 hashedSubpackets;
          leftHash = sha512 L toBeHashed;
          rawSignature = edSign L privateKey leftHash;
          rInt = integerDecode (take 32 rawSignature); sInt = integerDecode (take 32 (drop 32 rawSignature))
      in writePacket PGP_TAG_SIGNATURE
           (signatureBody signatureType PGP_ALGO_EDDSA 10 hashedSubpackets unhashedSubpackets leftHash
             (appendAll (encodeMpi rInt) (encodeMpi sInt))))"

section \<open>Parsing signature bodies\<close>

record parsed_signature =
  psValid :: bool
  psPkAlgorithm :: byte
  psSignatureType :: byte
  psHashAlgorithm :: byte
  psHashedSubpackets :: bytes
  psMpi :: bytes
  psMpi2 :: bytes

definition emptyParsedSignature :: parsed_signature where
  "emptyParsedSignature = \<lparr> psValid = False, psPkAlgorithm = 0, psSignatureType = 0, psHashAlgorithm = 0,
     psHashedSubpackets = [], psMpi = [], psMpi2 = [] \<rparr>"

text \<open>A two-octet length and that many octets; false when they do not fit.\<close>

definition readCounted16 :: "bytes \<Rightarrow> nat \<Rightarrow> (bytes \<times> nat) cpp" where
  "readCounted16 body pos =
     (if pos + 2 > length body then no
      else do {
        n \<leftarrow> readBigEndian16 body pos;
        if pos + 2 + n > length body then no
        else do { field \<leftarrow> slice body (pos + 2) (pos + 2 + n); yes (field, pos + 2 + n) } })"

text \<open>The octets of an MPI, its bit count dropped.\<close>

definition readMpiOctets :: "bytes \<Rightarrow> nat \<Rightarrow> (bytes \<times> nat) cpp" where
  "readMpiOctets body pos =
     (if pos + 2 > length body then no
      else do {
        bitLength \<leftarrow> readBigEndian16 body pos;
        let byteLength = (bitLength + 7) div 8;
        if pos + 2 + byteLength > length body then no
        else do { field \<leftarrow> slice body (pos + 2) (pos + 2 + byteLength); yes (field, pos + 2 + byteLength) } })"

text \<open>\<open>None\<close> is undefined behaviour; a failed parse is a record that is not valid.\<close>

definition on_read :: "'a cpp \<Rightarrow> 'r \<Rightarrow> ('a \<Rightarrow> 'r option) \<Rightarrow> 'r option" where
  "on_read r failed f = (case r of None \<Rightarrow> None | Some None \<Rightarrow> Some failed | Some (Some v) \<Rightarrow> f v)"

lemma on_read_simps [simp]:
  "on_read None failed f = None" "on_read no failed f = Some failed" "on_read (yes v) failed f = f v"
  by (simp_all add: on_read_def)

definition parseSignatureTail :: "bytes \<Rightarrow> nat \<Rightarrow> parsed_signature \<Rightarrow> parsed_signature option" where
  "parseSignatureTail body pos result =
     on_read (readCounted16 body pos) result (\<lambda>(hashed, pos).
     let result = result\<lparr>psHashedSubpackets := hashed\<rparr> in
     on_read (readCounted16 body pos) result (\<lambda>(_, pos).
     if pos + 2 > length body then Some result
     else
     on_read (readMpiOctets body (pos + 2)) result (\<lambda>(mpi, pos).
     let result = result\<lparr>psMpi := mpi\<rparr> in
     if psPkAlgorithm result = PGP_ALGO_EDDSA then
       on_read (readMpiOctets body pos) result (\<lambda>(mpi2, _).
         Some (result\<lparr>psMpi2 := mpi2, psValid := True\<rparr>))
     else Some (result\<lparr>psValid := True\<rparr>))))"

definition parseSignaturePacketBody :: "bytes \<Rightarrow> parsed_signature option" where
  "parseSignaturePacketBody body =
     (let result = emptyParsedSignature in
      if length body < 6 \<or> body ! 0 \<noteq> 4 then Some result
      else
        let result = result\<lparr>psSignatureType := body ! 1, psPkAlgorithm := body ! 2\<rparr> in
        if psPkAlgorithm result \<noteq> PGP_ALGO_RSA \<and> psPkAlgorithm result \<noteq> PGP_ALGO_EDDSA then Some result
        else
          let result = result\<lparr>psHashAlgorithm := body ! 3\<rparr> in
          if psHashAlgorithm result \<noteq> 8 \<and> psHashAlgorithm result \<noteq> 10 then Some result
          else parseSignatureTail body 4 result)"

section \<open>Verifying signature packets\<close>

text \<open>The body of the signature packet that the octets start with.\<close>

definition signaturePacketBodyOf :: "bytes \<Rightarrow> bytes cpp" where
  "signaturePacketBodyOf signaturePacketBytes =
     on_true (readPacketHeader signaturePacketBytes 0 None False) (\<lambda>(tag, bodyLength, pos, _).
       if tag \<noteq> PGP_TAG_SIGNATURE then no
       else if pos + bodyLength > length signaturePacketBytes then no
       else do { body \<leftarrow> slice signaturePacketBytes pos (pos + bodyLength); yes body })"

definition verifySignaturePacket :: "crypto \<Rightarrow> rsa_public \<Rightarrow> bytes \<Rightarrow> bytes \<Rightarrow> bool cpp" where
  "verifySignaturePacket L verifyingKey documentData signaturePacketBytes =
     on_true (signaturePacketBodyOf signaturePacketBytes) (\<lambda>body. do {
       parsed \<leftarrow> parseSignaturePacketBody body;
       if \<not> psValid parsed \<or> psPkAlgorithm parsed \<noteq> PGP_ALGO_RSA \<or> psHashAlgorithm parsed \<noteq> 8 then no
       else
         let toBeHashed = signatureHashInput documentData (psSignatureType parsed) 1 8 (psHashedSubpackets parsed);
             fixedLength = rsaModulusByteLength (fst verifyingKey);
             fixedSignature = integerEncode fixedLength (integerDecode (psMpi parsed))
         in yes (rsaVerify L verifyingKey toBeHashed fixedSignature) })"

definition verifyEd25519SignaturePacket :: "crypto \<Rightarrow> bytes \<Rightarrow> bytes \<Rightarrow> bytes \<Rightarrow> bool cpp" where
  "verifyEd25519SignaturePacket L publicKey documentData signaturePacketBytes =
     on_true (signaturePacketBodyOf signaturePacketBytes) (\<lambda>body. do {
       parsed \<leftarrow> parseSignaturePacketBody body;
       if \<not> psValid parsed \<or> psPkAlgorithm parsed \<noteq> PGP_ALGO_EDDSA \<or> psHashAlgorithm parsed \<noteq> 10 then no
       else
         let toBeHashed = signatureHashInput documentData (psSignatureType parsed) PGP_ALGO_EDDSA 10 (psHashedSubpackets parsed);
             rawSignature = integerEncode 32 (integerDecode (psMpi parsed)) @ integerEncode 32 (integerDecode (psMpi2 parsed));
             digest = sha512 L toBeHashed
         in yes (edVerify L publicKey digest rawSignature) })"

section \<open>Signed documents and one-pass signatures\<close>

definition buildUserIdCertificationDocument :: "bytes \<Rightarrow> bytes \<Rightarrow> bytes" where
  "buildUserIdCertificationDocument masterPubBody uidBody =
     appendAll (appendBigEndian32 (buildKeyHashPrefix masterPubBody @ [0xB4]) (word_of_nat (length uidBody))) uidBody"

definition buildSubkeyBindingDocument :: "bytes \<Rightarrow> bytes \<Rightarrow> bytes" where
  "buildSubkeyBindingDocument masterPubBody subkeyPubBody =
     appendAll (buildKeyHashPrefix masterPubBody) (buildKeyHashPrefix subkeyPubBody)"

definition buildOnePassSignaturePacket :: "byte \<Rightarrow> byte \<Rightarrow> byte \<Rightarrow> bytes \<Rightarrow> bool \<Rightarrow> bytes" where
  "buildOnePassSignaturePacket signatureType hashAlgorithm publicKeyAlgorithm keyId isLast =
     writePacket PGP_TAG_ONE_PASS_SIG
       ([3, signatureType, hashAlgorithm, publicKeyAlgorithm] @ keyId @ [if isLast then 1 else 0])"

section \<open>The hash input determines what was signed\<close>

lemma appendBigEndian32_inj: "appendBigEndian32 [] v = appendBigEndian32 [] w \<Longrightarrow> v = w"
proof -
  assume eq: "appendBigEndian32 [] v = appendBigEndian32 [] w"
  have u: "integerDecode (appendBigEndian32 [] x) = unat x" for x
  proof -
    have lt: "unat x < 4294967296" using unsigned_less [of x] by simp
    then have "unat x div 16777216 mod 256 = unat x div 16777216" by simp
    then show ?thesis
      using be32_digits [OF lt]
      by (simp add: integerDecode_def appendBigEndian32_def unat_low_byte32 unat_drop_bit_word)
  qed
  show "v = w" using arg_cong [OF eq, of integerDecode] by (simp only: u word_unat_eq_iff)
qed

lemma signatureHashInput_eq:
  "signatureHashInput d t p h s =
     d @ [4, t, p, h] @ appendBigEndian16 [] (word_of_nat (length s)) @ s @ [4, 0xFF]
       @ appendBigEndian32 [] (word_of_nat (6 + length s))"
  by (simp add: signatureHashInput_def Let_def appendAll_def appendBigEndian16_def appendBigEndian32_def)

lemma signatureHashInput_inj:
  assumes "length s < 65536" "length s' < 65536"
    and "signatureHashInput d t p h s = signatureHashInput d' t' p' h' s'"
  shows "d = d' \<and> t = t' \<and> p = p' \<and> h = h' \<and> s = s'"
proof -
  let ?e = "\<lambda>x :: bytes. appendBigEndian32 [] (word_of_nat (6 + length x))"
  let ?m = "\<lambda>t p h x. [4, t, p, h] @ appendBigEndian16 [] (word_of_nat (length x)) @ x @ [4, 0xFF :: byte]"
  have eq: "(d @ ?m t p h s) @ ?e s = (d' @ ?m t' p' h' s') @ ?e s'"
    using assms(3) by (simp add: signatureHashInput_eq)
  have "d @ ?m t p h s = d' @ ?m t' p' h' s' \<and> ?e s = ?e s'"
    using eq by (subst (asm) append_eq_append_conv) (simp_all only: length_appendBigEndian32 simp_thms)
  then have "?e s = ?e s'" and front: "d @ ?m t p h s = d' @ ?m t' p' h' s'" by auto
  then have "(word_of_nat (6 + length s) :: 32 word) = word_of_nat (6 + length s')"
    by (blast dest: appendBigEndian32_inj)
  then have "unat (word_of_nat (6 + length s) :: 32 word) = unat (word_of_nat (6 + length s') :: 32 word)"
    by (rule arg_cong)
  then have len: "length s = length s'" using assms(1,2) by (simp del: of_nat_add)
  have "d = d' \<and> ?m t p h s = ?m t' p' h' s'"
    using front by (subst (asm) append_eq_append_conv) (simp_all add: appendBigEndian16_def len)
  with len show ?thesis by simp
qed


section \<open>A parsed body is what was built\<close>

lemma length_appendBigEndian16 [simp]: "length (appendBigEndian16 out w) = length out + 2"
  by (simp add: appendBigEndian16_def)

definition putCounted16 :: "bytes \<Rightarrow> bytes" where
  "putCounted16 s = appendBigEndian16 [] (word_of_nat (length s)) @ s"

lemma readCounted16_put:
  assumes "length s < 65536"
  shows "readCounted16 (pre @ putCounted16 s @ post) (length pre) = yes (s, length pre + length (putCounted16 s))"
proof -
  have "unat (word_of_nat (length s) :: 16 word) = length s" using assms by (simp add: unat_of_nat)
  then show ?thesis
    using readBigEndian16_appendBigEndian16 [of pre "word_of_nat (length s)" "s @ post"]
    by (simp add: readCounted16_def putCounted16_def)
qed

lemma readCounted16_safe [ub_free]: "safe (readCounted16 data pos)"
  by (simp add: readCounted16_def readBigEndian16_def)

lemma readCounted16_pos [advances]:
  "readCounted16 data pos = yes (v, p) \<Longrightarrow> pos < p \<and> p \<le> length data \<and> length v < 65536"
  using be16_lt by (auto simp: readCounted16_def readBigEndian16_def slice_Some split: if_splits bind_splits)

interpretation counted16: wire_field putCounted16 readCounted16 "\<lambda>s. length s < 65536"
  by unfold_locales (auto simp: readCounted16_put readCounted16_safe dest: readCounted16_pos)

lemma readMpiOctets_safe [ub_free]: "safe (readMpiOctets data pos)"
  by (simp add: readMpiOctets_def readBigEndian16_def Let_def)

lemma readMpiOctets_encodeMpi:
  assumes "bitCount n < 65536"
  shows "readMpiOctets (pre @ encodeMpi n @ post) (length pre)
    = yes (integerEncode ((bitCount n + 7) div 8) n, length pre + length (encodeMpi n))"
proof -
  let ?k = "(bitCount n + 7) div 8"
  have enc: "encodeMpi n = appendBigEndian16 [] (word_of_nat (bitCount n)) @ integerEncode ?k n"
    by (simp add: encodeMpi_def Let_def appendAll_def)
  have "unat (word_of_nat (bitCount n) :: 16 word) = bitCount n" using assms by (simp add: unat_of_nat)
  then show ?thesis
    using readBigEndian16_appendBigEndian16 [of pre "word_of_nat (bitCount n)" "integerEncode ?k n @ post"]
    by (simp add: readMpiOctets_def enc Let_def)
qed

lemma integerDecode_mpiOctets: "integerDecode (integerEncode ((bitCount n + 7) div 8) n) = n"
proof -
  have "n < 2 ^ (8 * ((bitCount n + 7) div 8))"
    by (intro order_less_le_trans [OF bitCount_bound power_increasing]) simp_all
  then show ?thesis by (simp add: power_mult)
qed

lemma signatureBody_eq:
  "signatureBody t p h s u l m = [4, t, p, h] @ putCounted16 s @ putCounted16 u @ [l ! 0, l ! 1] @ m"
  by (simp add: signatureBody_def Let_def appendAll_def putCounted16_def appendBigEndian16_def)

definition own_signature :: "byte \<Rightarrow> byte \<Rightarrow> byte \<Rightarrow> bytes \<Rightarrow> nat \<Rightarrow> bytes \<Rightarrow> parsed_signature" where
  "own_signature t p h s m m2 = \<lparr> psValid = True, psPkAlgorithm = p, psSignatureType = t, psHashAlgorithm = h,
     psHashedSubpackets = s, psMpi = integerEncode ((bitCount m + 7) div 8) m, psMpi2 = m2 \<rparr>"

lemma parse_signatureBody:
  assumes "length s < 65536" "length u < 65536" "bitCount m < 65536" "h = 8 \<or> h = 10"
  shows "p = PGP_ALGO_RSA \<Longrightarrow> parseSignaturePacketBody (signatureBody t p h s u l (encodeMpi m))
      = Some (own_signature t p h s m [])"
    and "p = PGP_ALGO_EDDSA \<Longrightarrow> bitCount m2 < 65536 \<Longrightarrow>
      parseSignaturePacketBody (signatureBody t p h s u l (appendAll (encodeMpi m) (encodeMpi m2)))
      = Some (own_signature t p h s m (integerEncode ((bitCount m2 + 7) div 8) m2))"
proof -
  define H where "H = [4, t, p, h]"
  define D where "D = [l ! 0, l ! 1]"
  have H: "length H = 4" "length D = 2" "(H @ r) ! 0 = 4" "(H @ r) ! 1 = t" "(H @ r) ! 2 = p" "(H @ r) ! 3 = h" for r
    by (simp_all add: H_def D_def)
  have body: "signatureBody t p h s u l ms = H @ putCounted16 s @ putCounted16 u @ D @ ms" for ms
    by (simp only: signatureBody_eq H_def D_def)
  let ?p1 = "4 + length (putCounted16 s)"
  let ?p2 = "?p1 + length (putCounted16 u)"
  have hashed: "readCounted16 (H @ putCounted16 s @ r) 4 = yes (s, ?p1)" for r
    by (rule counted16.get_at [OF assms(1)]) (use H in simp_all)
  have unhashed: "readCounted16 (H @ putCounted16 s @ putCounted16 u @ r) ?p1 = yes (u, ?p2)" for r
    by (rule counted16.get_at [OF assms(2), where pre = "H @ putCounted16 s"]) (use H in simp_all)
  have mpi: "readMpiOctets (H @ putCounted16 s @ putCounted16 u @ D @ encodeMpi m @ r) (?p2 + 2)
      = yes (integerEncode ((bitCount m + 7) div 8) m, ?p2 + 2 + length (encodeMpi m))" for r
    using readMpiOctets_encodeMpi [OF assms(3), of "H @ putCounted16 s @ putCounted16 u @ D" r] H
    by (simp add: add.assoc)
  have long: "\<not> length (H @ putCounted16 s @ r) < 6" "2 \<le> length (putCounted16 s)" for r
    by (simp_all add: putCounted16_def H)
  note facts = H hashed unhashed mpi emptyParsedSignature_def own_signature_def Let_def
  show "parseSignaturePacketBody (signatureBody t p h s u l (encodeMpi m)) = Some (own_signature t p h s m [])"
    if "p = PGP_ALGO_RSA"
    using assms(4) that mpi [of "[]"] long
    unfolding body parseSignaturePacketBody_def parseSignatureTail_def
    by (auto simp: facts simp del: One_nat_def)
  show "parseSignaturePacketBody (signatureBody t p h s u l (appendAll (encodeMpi m) (encodeMpi m2)))
      = Some (own_signature t p h s m (integerEncode ((bitCount m2 + 7) div 8) m2))"
    if "p = PGP_ALGO_EDDSA" "bitCount m2 < 65536"
  proof -
    have "readMpiOctets (H @ putCounted16 s @ putCounted16 u @ D @ encodeMpi m @ encodeMpi m2)
        (?p2 + 2 + length (encodeMpi m))
      = yes (integerEncode ((bitCount m2 + 7) div 8) m2, ?p2 + 2 + length (encodeMpi m) + length (encodeMpi m2))"
      using readMpiOctets_encodeMpi [OF that(2), of "H @ putCounted16 s @ putCounted16 u @ D @ encodeMpi m" "[]"] H
      by (simp add: add.assoc)
    then show ?thesis
      using assms(4) that(1) long mpi [of "encodeMpi m2"]
      unfolding body parseSignaturePacketBody_def parseSignatureTail_def appendAll_def
      by (auto simp: facts simp del: One_nat_def)
  qed
qed


section \<open>Own signatures verify\<close>

lemma signaturePacketBodyOf_writePacket:
  "length body < 4294967296 \<Longrightarrow> signaturePacketBodyOf (writePacket PGP_TAG_SIGNATURE body) = yes body"
  using readPacketHeader_at [of 2 body "writePacket 2 body" "[]" "[]" 0]
  by (simp add: signaturePacketBodyOf_def length_writePacket)

lemma signaturePacketBodyOf_safe [ub_free]: "safe (signaturePacketBodyOf bs)"
  by (auto simp: signaturePacketBodyOf_def intro!: safe_on_true readPacketHeader_safe)

lemma length_encodeMpi: "length (encodeMpi n) = 2 + (bitCount n + 7) div 8"
  by (simp add: encodeMpi_def Let_def appendAll_def)

lemma length_appendSubpacket:
  "length (appendSubpacket out t b) = length out + newFormatLengthOctets (length b + 1) + 1 + length b"
  by (simp add: appendSubpacket_def appendAll_def newFormatLength_append [of out] length_newFormatLength)

lemma length_signatureHashedSubpackets: "length (signatureHashedSubpackets now extra) = 6 + length extra"
  by (simp add: signatureHashedSubpackets_def appendAll_def length_appendSubpacket newFormatLengthOctets_def)

lemma length_issuerSubpacket: "length i = 8 \<Longrightarrow> length (appendSubpacket [] 16 i) = 10"
  by (simp add: length_appendSubpacket newFormatLengthOctets_def)

lemma length_signatureBody: "length (signatureBody t p h s u l m) = 10 + length s + length u + length m"
  by (simp add: signatureBody_eq putCounted16_def)

lemma bitCount_integerDecode: "bitCount (integerDecode bs) \<le> 8 * length bs"
  using integerDecode_lt [of bs] by (intro bitCount_le) (simp add: power_mult)

text \<open>What the verifier computes for a packet built over any document.\<close>

lemma verify_built_rsa:
  assumes "rsa_sign_ok L k" "length extra < 65530" "length issuer = 8" "minEncodedSize (rsaModulus k) \<le> 8191"
  shows "verifySignaturePacket L (rsaPublicOf k) doc' (buildSignaturePacket L now k t doc extra issuer) =
    yes (rsaVerify L (rsaPublicOf k) (signatureHashInput doc' t 1 8 (signatureHashedSubpackets now extra))
      (rsaSign L k (signatureHashInput doc t 1 8 (signatureHashedSubpackets now extra))))"
proof -
  let ?hs = "signatureHashedSubpackets now extra" and ?us = "appendSubpacket [] 16 issuer"
  let ?raw = "rsaSign L k (signatureHashInput doc t 1 8 ?hs)"
  let ?l = "sha256 L (signatureHashInput doc t 1 8 ?hs)"
  let ?m = "integerDecode ?raw"
  have raw: "length ?raw = minEncodedSize (rsaModulus k)" using assms(1) by (simp add: rsa_sign_ok_def)
  then have bits: "bitCount ?m < 65536" using bitCount_integerDecode [of ?raw] assms(4) by linarith
  have hs: "length ?hs < 65536" and us: "length ?us = 10"
    using assms by (simp_all add: length_signatureHashedSubpackets length_issuerSubpacket)
  have parse: "parseSignaturePacketBody (signatureBody t 1 8 ?hs ?us ?l (encodeMpi ?m)) = Some (own_signature t 1 8 ?hs ?m [])"
    by (rule parse_signatureBody(1)) (use hs us bits in simp_all)
  have "length (signatureBody t 1 8 ?hs ?us ?l (encodeMpi ?m)) < 4294967296"
    unfolding length_signatureBody length_encodeMpi us using hs bits by linarith
  from signaturePacketBodyOf_writePacket [OF this]
  have "signaturePacketBodyOf (buildSignaturePacket L now k t doc extra issuer)
      = yes (signatureBody t 1 8 ?hs ?us ?l (encodeMpi ?m))"
    by (simp add: buildSignaturePacket_def Let_def)
  then show ?thesis
    using parse integerEncode_integerDecode [of ?raw]
    by (simp add: verifySignaturePacket_def own_signature_def Let_def integerDecode_mpiOctets raw
        rsaPublicOf_def rsaModulusByteLength_def del: integerDecode_integerEncode)
qed

lemma built_ed25519:
  assumes "ed_sign_ok L k" "length extra < 65530" "length issuer = 8"
    and raw: "raw = edSign L k (sha512 L (signatureHashInput doc t PGP_ALGO_EDDSA 10 (signatureHashedSubpackets now extra)))"
    and halves: "r = integerDecode (take 32 raw)" "q = integerDecode (take 32 (drop 32 raw))"
  shows "\<exists>body. buildEd25519SignaturePacket L now k t doc extra issuer = writePacket PGP_TAG_SIGNATURE body
      \<and> length body < 4294967296
      \<and> parseSignaturePacketBody body = Some (own_signature t PGP_ALGO_EDDSA 10 (signatureHashedSubpackets now extra) r
          (integerEncode ((bitCount q + 7) div 8) q))"
    and "integerEncode 32 r @ integerEncode 32 q = raw"
proof -
  let ?hs = "signatureHashedSubpackets now extra" and ?us = "appendSubpacket [] 16 issuer"
  let ?l = "sha512 L (signatureHashInput doc t PGP_ALGO_EDDSA 10 ?hs)"
  let ?body = "signatureBody t PGP_ALGO_EDDSA 10 ?hs ?us ?l (appendAll (encodeMpi r) (encodeMpi q))"
  have len: "length raw = 64" using assms(1) by (simp add: raw ed_sign_ok_def)
  then have bits: "bitCount r \<le> 256" "bitCount q \<le> 256"
    using bitCount_integerDecode [of "take 32 raw"] bitCount_integerDecode [of "take 32 (drop 32 raw)"] by (simp_all add: halves)
  have hs: "length ?hs < 65536" and us: "length ?us = 10"
    using assms by (simp_all add: length_signatureHashedSubpackets length_issuerSubpacket)
  have parse: "parseSignaturePacketBody ?body
      = Some (own_signature t PGP_ALGO_EDDSA 10 ?hs r (integerEncode ((bitCount q + 7) div 8) q))"
    by (rule parse_signatureBody(2)) (use hs us bits in simp_all)
  have "length ?body < 4294967296"
    unfolding length_signatureBody appendAll_def length_append length_encodeMpi us using hs bits by linarith
  with parse show "\<exists>body. buildEd25519SignaturePacket L now k t doc extra issuer = writePacket PGP_TAG_SIGNATURE body
      \<and> length body < 4294967296
      \<and> parseSignaturePacketBody body = Some (own_signature t PGP_ALGO_EDDSA 10 (signatureHashedSubpackets now extra) r
          (integerEncode ((bitCount q + 7) div 8) q))"
    by (intro exI [of _ ?body]) (simp add: buildEd25519SignaturePacket_def Let_def halves raw)
  have "integerEncode 32 r = take 32 raw" "integerEncode 32 q = drop 32 raw"
    using integerEncode_integerDecode [of "take 32 raw"] integerEncode_integerDecode [of "take 32 (drop 32 raw)"] len
    by (simp_all add: halves)
  then show "integerEncode 32 r @ integerEncode 32 q = raw" by simp
qed

lemma verify_built_ed25519:
  assumes "ed_sign_ok L k" "length extra < 65530" "length issuer = 8"
  shows "verifyEd25519SignaturePacket L pub doc' (buildEd25519SignaturePacket L now k t doc extra issuer) =
    yes (edVerify L pub (sha512 L (signatureHashInput doc' t PGP_ALGO_EDDSA 10 (signatureHashedSubpackets now extra)))
      (edSign L k (sha512 L (signatureHashInput doc t PGP_ALGO_EDDSA 10 (signatureHashedSubpackets now extra)))))"
proof -
  note built = built_ed25519 [where doc = doc and t = t and now = now, OF assms refl refl refl]
  obtain body where "buildEd25519SignaturePacket L now k t doc extra issuer = writePacket PGP_TAG_SIGNATURE body"
    "length body < 4294967296"
    "parseSignaturePacketBody body = Some (own_signature t PGP_ALGO_EDDSA 10 (signatureHashedSubpackets now extra)
       (integerDecode (take 32 (edSign L k (sha512 L (signatureHashInput doc t PGP_ALGO_EDDSA 10 (signatureHashedSubpackets now extra))))))
       (let q = integerDecode (take 32 (drop 32 (edSign L k (sha512 L (signatureHashInput doc t PGP_ALGO_EDDSA 10 (signatureHashedSubpackets now extra))))))
        in integerEncode ((bitCount q + 7) div 8) q))"
    using built(1) unfolding Let_def by blast
  with signaturePacketBodyOf_writePacket [of body] built(2) show ?thesis
    by (simp add: verifyEd25519SignaturePacket_def own_signature_def Let_def integerDecode_mpiOctets
        del: integerDecode_integerEncode)
qed

lemma safe_on_read: "safe r \<Longrightarrow> (\<And>v. r = yes v \<Longrightarrow> safe (f v)) \<Longrightarrow> safe (on_read r b f)"
  by (cases r rule: safe_cases) simp_all

lemma parseSignatureTail_safe [ub_free]: "safe (parseSignatureTail body pos result)"
  unfolding parseSignatureTail_def Let_def case_prod_unfold
  by (intro safe_on_read safe_if readCounted16_safe readMpiOctets_safe safe_Some)

lemma parseSignaturePacketBody_safe [ub_free]: "safe (parseSignaturePacketBody body)"
  unfolding parseSignaturePacketBody_def Let_def
  by (intro safe_if parseSignatureTail_safe safe_Some)

lemma verify_safe [ub_free]:
  "safe (verifySignaturePacket L pub doc bs)" "safe (verifyEd25519SignaturePacket L key doc bs)"
  by (auto simp: verifySignaturePacket_def verifyEd25519SignaturePacket_def Let_def
      intro!: safe_on_true safe_bind signaturePacketBodyOf_safe parseSignaturePacketBody_safe)

section \<open>Documents\<close>

lemma buildUserIdCertificationDocument_inj:
  assumes "length m < 65536" "length m' < 65536" "length u < 4294967296" "length u' < 4294967296"
    and "buildUserIdCertificationDocument m u = buildUserIdCertificationDocument m' u'"
  shows "m = m' \<and> u = u'"
proof -
  have eq: "buildUserIdCertificationDocument m u = buildKeyHashPrefix m @ [0xB4] @ appendBigEndian32 [] (word_of_nat (length u)) @ u" for m u
    by (simp add: buildUserIdCertificationDocument_def appendAll_def appendBigEndian32_def)
  have "m = m' \<and> [0xB4] @ appendBigEndian32 [] (word_of_nat (length u)) @ u
      = [0xB4] @ appendBigEndian32 [] (word_of_nat (length u')) @ u'"
    by (rule keyHashPrefix_prefix_free [OF assms(1,2)]) (use assms(5) in \<open>simp only: eq\<close>)
  then have "m = m'" "appendBigEndian32 [] (word_of_nat (length u)) @ u = appendBigEndian32 [] (word_of_nat (length u')) @ u'"
    by simp_all
  then show ?thesis by (subst (asm) append_eq_append_conv) simp_all
qed

lemma buildSubkeyBindingDocument_inj:
  assumes "length m < 65536" "length m' < 65536" "length s < 65536" "length s' < 65536"
    and "buildSubkeyBindingDocument m s = buildSubkeyBindingDocument m' s'"
  shows "m = m' \<and> s = s'"
proof -
  have "m = m' \<and> buildKeyHashPrefix s = buildKeyHashPrefix s'"
    by (rule keyHashPrefix_prefix_free [OF assms(1,2)])
      (use assms(5) in \<open>simp only: buildSubkeyBindingDocument_def appendAll_def\<close>)
  then show ?thesis using keyHashPrefix_prefix_free [OF assms(3,4), of "[]" "[]"] by simp
qed


section \<open>Properties\<close>

text \<open>C23: The octets that a signature covers determine the document, the signature type, both
  algorithms and the hashed subpackets: no other combination gives the same hash input.\<close>

theorem signed_octets_determine_everything:
  assumes "length s < 65536" "length s' < 65536"
    and "signatureHashInput d t p h s = signatureHashInput d' t' p' h' s'"
  shows "d = d' \<and> t = t' \<and> p = p' \<and> h = h' \<and> s = s'"
  by (rule signatureHashInput_inj [OF assms])

lemma signed_octets_determine_everything_witness:
  "signatureHashInput [1, 2] 0 1 8 [] \<noteq> signatureHashInput [1] 0 1 8 [2]"
  using signed_octets_determine_everything [of "[]" "[2]" "[1, 2]" 0 1 8 "[1]" 0 1 8] by auto

text \<open>The verifier, given the packet that \<open>buildSignaturePacket\<close> produces and any document,
  asks the RSA verification about exactly the octets the signer signed when the documents are
  equal, and answers yes; the signature value survives the loss of leading zero octets in its MPI.\<close>

theorem own_rsa_signature_verifies:
  assumes "rsa_sign_ok L k" "length extra < 65530" "length issuer = 8" "minEncodedSize (rsaModulus k) \<le> 8191"
  shows "verifySignaturePacket L (rsaPublicOf k) doc' (buildSignaturePacket L now k t doc extra issuer)
      = yes (rsaVerify L (rsaPublicOf k) (signatureHashInput doc' t 1 8 (signatureHashedSubpackets now extra))
          (rsaSign L k (signatureHashInput doc t 1 8 (signatureHashedSubpackets now extra))))
    \<and> verifySignaturePacket L (rsaPublicOf k) doc (buildSignaturePacket L now k t doc extra issuer) = yes True"
  using verify_built_rsa [OF assms, of _ now t doc] assms(1) by (simp add: rsa_sign_ok_def)

lemma own_rsa_signature_verifies_witness:
  "verifySignaturePacket sample_lib (rsaPublicOf \<lparr> rsaModulus = 3233, rsaPublicExponent = 17, rsaPrivateExponent = 413,
      rsaPrime1 = 61, rsaPrime2 = 53 \<rparr>) [1, 2]
    (buildSignaturePacket sample_lib 5 \<lparr> rsaModulus = 3233, rsaPublicExponent = 17, rsaPrivateExponent = 413,
      rsaPrime1 = 61, rsaPrime2 = 53 \<rparr> 0 [1, 2] [] (replicate 8 3)) = yes True"
proof -
  have "minEncodedSize 3233 \<le> 8191" using bitCount_le [of 3233 12] by (simp add: minEncodedSize_def)
  then show ?thesis using sample_lib_ok(4)
    by (intro conjunct2 [OF own_rsa_signature_verifies]) simp_all
qed

text \<open>The same for Ed25519: the two 32-octet halves of the signature are restored to
  their width, and the signature verifies under the public key of the signer.\<close>

theorem own_ed25519_signature_verifies:
  assumes "ed_sign_ok L k" "length extra < 65530" "length issuer = 8"
  shows "verifyEd25519SignaturePacket L pub doc' (buildEd25519SignaturePacket L now k t doc extra issuer)
      = yes (edVerify L pub (sha512 L (signatureHashInput doc' t PGP_ALGO_EDDSA 10 (signatureHashedSubpackets now extra)))
          (edSign L k (sha512 L (signatureHashInput doc t PGP_ALGO_EDDSA 10 (signatureHashedSubpackets now extra)))))
    \<and> verifyEd25519SignaturePacket L (edPublic L k) doc (buildEd25519SignaturePacket L now k t doc extra issuer) = yes True"
  using verify_built_ed25519 [OF assms, of _ _ now t doc] assms(1) by (simp add: ed_sign_ok_def)

lemma own_ed25519_signature_verifies_witness:
  "verifyEd25519SignaturePacket sample_lib (edPublic sample_lib (replicate 32 7)) [1]
     (buildEd25519SignaturePacket sample_lib 5 (replicate 32 7) 0 [1] [] (replicate 8 3)) = yes True"
  by (intro conjunct2 [OF own_ed25519_signature_verifies]) (simp_all add: sample_lib_ok)

text \<open>Parsing and verifying a signature packet never reads outside the octets it was given,
  whatever they are, and a verifier never reports a valid signature for a packet whose body is not a version 4
  signature of its own algorithm.\<close>

theorem signature_readers_in_bounds:
  "safe (parseSignaturePacketBody body) \<and> safe (verifySignaturePacket L pub doc bs)
    \<and> safe (verifyEd25519SignaturePacket L key doc bs)
    \<and> (case parseSignaturePacketBody body of None \<Rightarrow> False
       | Some s \<Rightarrow> if psValid s then body ! 0 = 4 \<and> psPkAlgorithm s \<in> {PGP_ALGO_RSA, PGP_ALGO_EDDSA}
           \<and> psHashAlgorithm s \<in> {8, 10} else True)"
proof -
  have tail: "psPkAlgorithm s = psPkAlgorithm r \<and> psHashAlgorithm s = psHashAlgorithm r"
    if "parseSignatureTail body pos r = Some s" for pos r s
    using that by (auto simp: parseSignatureTail_def on_read_def Let_def split: option.splits if_splits)
  have "psValid s \<longrightarrow> body ! 0 = 4 \<and> psPkAlgorithm s \<in> {PGP_ALGO_RSA, PGP_ALGO_EDDSA} \<and> psHashAlgorithm s \<in> {8, 10}"
    if "parseSignaturePacketBody body = Some s" for s
    using that by (auto simp: parseSignaturePacketBody_def emptyParsedSignature_def Let_def split: if_splits dest!: tail)
  then show ?thesis
    using parseSignaturePacketBody_safe [of body] verify_safe by (auto simp: safe_def split: option.splits)
qed

end
