(* ===== verification/EngineState.thy ===== *)
theory EngineState
  imports Signatures
begin

unbundle bit_operations_syntax

text \<open>
  The state of one \<open>CPgpEngine\<close> (the private \<open>Impl\<close> of src/src/Pgp/PgpEngine.cpp): its own
  identity, the imported peer and the additional recipients. What an operation draws from the
  outside (the time, random octets, fresh RSA keys) is the record \<open>draws\<close>, indexed by the order
  of the calls. A pointer argument with its size is a \<open>bytes option\<close>, \<open>None\<close> for the null
  pointer; a non-positive size is the empty list.
\<close>

datatype key_algorithm = PGP_KEY_ALGORITHM_RSA | PGP_KEY_ALGORITHM_ED25519_X25519

datatype status = NO_ERROR | NOT_IMPLEMENTED | UNEXPECTED_ERROR | BUFFER_TOO_SMALL | INVALID_ARGUMENT
  | FILE_IO_ERROR | INVALID_DATA | OPERATION_CANCELLED

datatype symmetric_algorithm = PGP_SYMMETRIC_AES128 | PGP_SYMMETRIC_AES192 | PGP_SYMMETRIC_AES256

record recipient =
  rcAlgorithm :: key_algorithm
  rcRsaPublicKey :: rsa_public
  rcRsaKeyId :: bytes
  rcX25519PublicKey :: bytes
  rcX25519KeyId :: bytes
  rcX25519Fingerprint :: bytes

record own_user_id =
  uidText :: bytes
  uidCertCreationTime :: "32 word"
  uidCertSigPacket :: bytes
  uidIsPrimary :: bool
  uidIsRevoked :: bool
  uidRevocationSigPacket :: bytes

record own_subkey =
  skRsaPrivateKey :: rsa_key
  skRsaPublicKey :: rsa_public
  skX25519PrivateKey :: bytes
  skX25519PublicKey :: bytes
  skEd25519PrivateKey :: bytes
  skEd25519PublicKey :: bytes
  skIsEd25519Sign :: bool
  skKeyId :: bytes
  skFingerprint :: bytes
  skCreationTime :: "32 word"
  skExpirationSeconds :: "32 word"
  skKeyFlags :: byte
  skBindingSigPacket :: bytes
  skIsRevoked :: bool
  skRevocationSigPacket :: bytes
  skSecretPacketBody :: bytes

record peer_user_id =
  puText :: bytes
  puIsRevoked :: bool

record peer_subkey =
  pskAlgorithm :: key_algorithm
  pskRsaKey :: rsa_public
  pskX25519Key :: bytes
  pskEd25519Key :: bytes
  pskIsEd25519 :: bool
  pskKeyId :: bytes
  pskFingerprint :: bytes
  pskCreationTime :: "32 word"
  pskHaveKeyFlags :: bool
  pskKeyFlags :: byte
  pskHaveExpiration :: bool
  pskExpirationSeconds :: "32 word"
  pskIsRevoked :: bool

record engine =
  keyAlgorithm :: key_algorithm
  rsaKeyBits :: int
  ownKeyGenerated :: bool
  ownMasterPrivateKey :: rsa_key
  ownMasterPublicKey :: rsa_public
  ownSubkeyPrivateKey :: rsa_key
  ownSubkeyPublicKey :: rsa_public
  ownEd25519PrivateKey :: bytes
  ownEd25519PublicKey :: bytes
  ownX25519PrivateKey :: bytes
  ownX25519PublicKey :: bytes
  ownMasterKeyId :: bytes
  ownSubkeyKeyId :: bytes
  ownMasterFingerprint :: bytes
  ownSubkeyFingerprint :: bytes
  passwordCheckHash :: bytes
  keyCreationTime :: "32 word"
  keyExpirationSeconds :: "32 word"
  symmetricCipherPreference :: symmetric_algorithm
  peerKeyImported :: bool
  peerMasterAlgorithm :: key_algorithm
  peerSubkeyAlgorithm :: key_algorithm
  peerMasterPublicKey :: rsa_public
  peerSubkeyPublicKey :: rsa_public
  peerEd25519PublicKey :: bytes
  peerX25519PublicKey :: bytes
  peerMasterKeyId :: bytes
  peerSubkeyKeyId :: bytes
  peerSubkeyFingerprint :: bytes
  peerUserIds :: "peer_user_id list"
  peerSubkeys :: "peer_subkey list"
  additionalRecipients :: "recipient list"
  ownUserIds :: "own_user_id list"
  ownSubkeys :: "own_subkey list"
  ownMasterSecretPacketBody :: bytes

text \<open>An RSA key object that was never assigned.\<close>

definition blankRsaKey :: rsa_key where
  "blankRsaKey = \<lparr> rsaModulus = 0, rsaPublicExponent = 0, rsaPrivateExponent = 0, rsaPrime1 = 0, rsaPrime2 = 0 \<rparr>"

definition blankRsaPublic :: rsa_public where
  "blankRsaPublic = (0, 0)"

definition zeros :: "nat \<Rightarrow> bytes" where
  "zeros n = replicate n 0"

definition newOwnUserId :: own_user_id where
  "newOwnUserId = \<lparr> uidText = [], uidCertCreationTime = 0, uidCertSigPacket = [], uidIsPrimary = False,
     uidIsRevoked = False, uidRevocationSigPacket = [] \<rparr>"

definition newOwnSubkey :: own_subkey where
  "newOwnSubkey = \<lparr> skRsaPrivateKey = blankRsaKey, skRsaPublicKey = blankRsaPublic,
     skX25519PrivateKey = zeros 32, skX25519PublicKey = zeros 32, skEd25519PrivateKey = zeros 32,
     skEd25519PublicKey = zeros 32, skIsEd25519Sign = False, skKeyId = zeros 8, skFingerprint = zeros 20,
     skCreationTime = 0, skExpirationSeconds = 0, skKeyFlags = 0, skBindingSigPacket = [],
     skIsRevoked = False, skRevocationSigPacket = [], skSecretPacketBody = [] \<rparr>"

definition newPeerSubkey :: peer_subkey where
  "newPeerSubkey = \<lparr> pskAlgorithm = PGP_KEY_ALGORITHM_RSA, pskRsaKey = blankRsaPublic,
     pskX25519Key = zeros 32, pskEd25519Key = zeros 32, pskIsEd25519 = False, pskKeyId = zeros 8,
     pskFingerprint = zeros 20, pskCreationTime = 0, pskHaveKeyFlags = False, pskKeyFlags = 0,
     pskHaveExpiration = False, pskExpirationSeconds = 0, pskIsRevoked = False \<rparr>"

definition newEngine :: engine where
  "newEngine = \<lparr> keyAlgorithm = PGP_KEY_ALGORITHM_RSA, rsaKeyBits = 2048, ownKeyGenerated = False,
     ownMasterPrivateKey = blankRsaKey, ownMasterPublicKey = blankRsaPublic,
     ownSubkeyPrivateKey = blankRsaKey, ownSubkeyPublicKey = blankRsaPublic,
     ownEd25519PrivateKey = zeros 32, ownEd25519PublicKey = zeros 32,
     ownX25519PrivateKey = zeros 32, ownX25519PublicKey = zeros 32,
     ownMasterKeyId = zeros 8, ownSubkeyKeyId = zeros 8, ownMasterFingerprint = zeros 20,
     ownSubkeyFingerprint = zeros 20, passwordCheckHash = zeros 32, keyCreationTime = 0,
     keyExpirationSeconds = 0, symmetricCipherPreference = PGP_SYMMETRIC_AES256,
     peerKeyImported = False, peerMasterAlgorithm = PGP_KEY_ALGORITHM_RSA,
     peerSubkeyAlgorithm = PGP_KEY_ALGORITHM_RSA, peerMasterPublicKey = blankRsaPublic,
     peerSubkeyPublicKey = blankRsaPublic, peerEd25519PublicKey = zeros 32, peerX25519PublicKey = zeros 32,
     peerMasterKeyId = zeros 8, peerSubkeyKeyId = zeros 8, peerSubkeyFingerprint = zeros 20,
     peerUserIds = [], peerSubkeys = [], additionalRecipients = [], ownUserIds = [], ownSubkeys = [],
     ownMasterSecretPacketBody = [] \<rparr>"

text \<open>The two constructors with an argument.\<close>

definition newRsaEngine :: "int \<Rightarrow> engine" where
  "newRsaEngine bits = newEngine\<lparr>rsaKeyBits := bits\<rparr>"

definition newEngineFor :: "key_algorithm \<Rightarrow> engine" where
  "newEngineFor algorithm = newEngine\<lparr>keyAlgorithm := algorithm\<rparr>"

section \<open>What an operation draws\<close>

text \<open>The clock readings, random octets and fresh keys of one call, in the order it asks for
  them, and which of its signatures are made: \<open>drawSigns R i\<close> is false when making the \<open>i\<close>-th
  one throws, which the code catches.\<close>

record draws =
  drawTime :: "nat \<Rightarrow> 32 word"
  drawSalt :: "nat \<Rightarrow> bytes"
  drawIv :: "nat \<Rightarrow> bytes"
  drawSeed :: "nat \<Rightarrow> bytes"
  drawRsaKey :: "nat \<Rightarrow> rsa_key"
  drawSigns :: "nat \<Rightarrow> bool"

text \<open>Draws have the length that was asked for, and a generated key signs.\<close>

definition draws_ok :: "crypto \<Rightarrow> draws \<Rightarrow> bool" where
  "draws_ok L R \<longleftrightarrow> (\<forall>i. length (drawSalt R i) = 8 \<and> length (drawIv R i) = 16 \<and> length (drawSeed R i) = 32
     \<and> rsa_sign_ok L (drawRsaKey R i) \<and> minEncodedSize (rsaModulus (drawRsaKey R i)) \<le> 8191
     \<and> bitCount (rsaPublicExponent (drawRsaKey R i)) < 65536
     \<and> ed_sign_ok L (drawSeed R i) \<and> length (edPublic L (drawSeed R i)) = 32
     \<and> length (xPublic L (drawSeed R i)) = 32)"

definition sample_rsa_key :: rsa_key where
  "sample_rsa_key = \<lparr> rsaModulus = 3233, rsaPublicExponent = 17, rsaPrivateExponent = 413, rsaPrime1 = 61, rsaPrime2 = 53 \<rparr>"

definition sample_draws :: draws where
  "sample_draws = \<lparr> drawTime = (\<lambda>i. word_of_nat i), drawSalt = (\<lambda>i. replicate 8 (word_of_nat i)),
     drawIv = (\<lambda>i. replicate 16 (word_of_nat i)), drawSeed = (\<lambda>i. replicate 32 (word_of_nat i)),
     drawRsaKey = (\<lambda>i. sample_rsa_key), drawSigns = (\<lambda>i. True) \<rparr>"

lemma minEncodedSize_le: "n < 2 ^ k \<Longrightarrow> minEncodedSize n \<le> max 1 ((k + 7) div 8)"
  using bitCount_le [of n k] by (auto simp: minEncodedSize_def max_def intro: div_le_mono)

lemma sample_draws_ok: "draws_ok sample_lib sample_draws"
proof -
  have "minEncodedSize 3233 \<le> 8191" using minEncodedSize_le [of 3233 12] by simp
  moreover have "bitCount 17 < 65536" using bitCount_le [of 17 5] by simp
  ultimately show ?thesis
    using sample_lib_ok by (simp add: draws_ok_def sample_draws_def sample_rsa_key_def) (simp add: sample_lib_def)
qed

end
