(* ===== verification/Identity.thy ===== *)
theory Identity
  imports EngineState
begin

unbundle bit_operations_syntax

text \<open>
  The engine's own identity (the \<open>CPgpEngine\<close> methods of src/src/Pgp/PgpEngine.cpp that generate,
  certify, extend, revoke and re-protect it). Each operation is a function of the state that
  returns its status and the new state. The record \<open>draws\<close> says which of its signatures can be made.
\<close>

section \<open>Shared pieces\<close>

definition has_text :: "bytes option \<Rightarrow> bool" where
  "has_text p = (case p of None \<Rightarrow> False | Some t \<Rightarrow> t \<noteq> [])"

text \<open>The signature that the master key makes when nothing throws.\<close>

definition ownSignature :: "crypto \<Rightarrow> engine \<Rightarrow> 32 word \<Rightarrow> byte \<Rightarrow> bytes \<Rightarrow> bytes \<Rightarrow> bytes" where
  "ownSignature L S now signatureType documentData extra =
     (if keyAlgorithm S = PGP_KEY_ALGORITHM_RSA
      then buildSignaturePacket L now (ownMasterPrivateKey S) signatureType documentData extra (ownMasterKeyId S)
      else buildEd25519SignaturePacket L now (ownEd25519PrivateKey S) signatureType documentData extra (ownMasterKeyId S))"

text \<open>\<open>buildSignaturePacket\<close> and \<open>buildEd25519SignaturePacket\<close> catch every exception of the
  library and then return an empty packet.\<close>

definition caught :: "bool \<Rightarrow> bytes \<Rightarrow> bytes" where
  "caught signs packet = (if signs then packet else [])"

definition signWithOwnMasterKey ::
  "bool \<Rightarrow> crypto \<Rightarrow> engine \<Rightarrow> 32 word \<Rightarrow> byte \<Rightarrow> bytes \<Rightarrow> bytes \<Rightarrow> bytes" where
  "signWithOwnMasterKey signs L S now signatureType documentData extra =
     (if keyAlgorithm S = PGP_KEY_ALGORITHM_RSA
      then caught signs (buildSignaturePacket L now (ownMasterPrivateKey S) signatureType documentData extra (ownMasterKeyId S))
      else caught signs (buildEd25519SignaturePacket L now (ownEd25519PrivateKey S) signatureType documentData extra (ownMasterKeyId S)))"

lemma signWithOwnMasterKey_eq [simp]:
  "signWithOwnMasterKey signs L S now t doc extra = (if signs then ownSignature L S now t doc extra else [])"
  by (simp add: signWithOwnMasterKey_def ownSignature_def caught_def)

definition buildOwnMasterPubBody :: "engine \<Rightarrow> bytes" where
  "buildOwnMasterPubBody S =
     (if keyAlgorithm S = PGP_KEY_ALGORITHM_RSA
      then buildRsaPublicKeyPacketBody (keyCreationTime S) (fst (ownMasterPublicKey S)) (snd (ownMasterPublicKey S))
      else buildEd25519PublicKeyPacketBody (keyCreationTime S) (ownEd25519PublicKey S))"

definition subkeyPubBody :: "engine \<Rightarrow> own_subkey \<Rightarrow> bytes" where
  "subkeyPubBody S k =
     (if keyAlgorithm S = PGP_KEY_ALGORITHM_RSA
      then buildRsaPublicKeyPacketBody (skCreationTime k) (fst (skRsaPublicKey k)) (snd (skRsaPublicKey k))
      else if skIsEd25519Sign k then buildEd25519PublicKeyPacketBody (skCreationTime k) (skEd25519PublicKey k)
      else buildX25519PublicKeyPacketBody (skCreationTime k) (skX25519PublicKey k))"

text \<open>The caller has checked the index.\<close>

definition buildOwnSubkeyPubBody :: "engine \<Rightarrow> nat \<Rightarrow> bytes" where
  "buildOwnSubkeyPubBody S i = subkeyPubBody S (ownSubkeys S ! i)"

definition masterCleartext :: "crypto \<Rightarrow> engine \<Rightarrow> bytes" where
  "masterCleartext L S =
     (if keyAlgorithm S = PGP_KEY_ALGORITHM_RSA then buildRsaSecretKeyCleartext L (ownMasterPrivateKey S)
      else buildEd25519SecretKeyCleartext (ownEd25519PrivateKey S))"

definition subkeyCleartext :: "crypto \<Rightarrow> engine \<Rightarrow> own_subkey \<Rightarrow> bytes" where
  "subkeyCleartext L S k =
     (if keyAlgorithm S = PGP_KEY_ALGORITHM_RSA then buildRsaSecretKeyCleartext L (skRsaPrivateKey k)
      else if skIsEd25519Sign k then buildEd25519SecretKeyCleartext (skEd25519PrivateKey k)
      else buildX25519SecretKeyCleartext (skX25519PrivateKey k))"

text \<open>Key flags, followed by the expiration when there is one.\<close>

definition flagsAndExpiration :: "byte \<Rightarrow> 32 word \<Rightarrow> bytes" where
  "flagsAndExpiration flags expirationSeconds =
     (let extra = buildKeyFlagsSubpacket flags
      in if expirationSeconds > 0 then appendAll extra (buildKeyExpirationSubpacket expirationSeconds) else extra)"

text \<open>The guards every operation on the identity starts with.\<close>

definition mayUseIdentity :: "engine \<Rightarrow> bytes option \<Rightarrow> bool" where
  "mayUseIdentity S password = (ownKeyGenerated S \<and> has_text password)"

definition passwordMatches :: "crypto \<Rightarrow> engine \<Rightarrow> bytes option \<Rightarrow> bool" where
  "passwordMatches L S password = checkPasswordHash L (passwordCheckHash S) (the password)"

definition indexOk :: "int \<Rightarrow> 'a list \<Rightarrow> bool" where
  "indexOk i xs = (0 \<le> i \<and> i < int (length xs))"

section \<open>Generation\<close>

definition rsaBitsOk :: "int \<Rightarrow> bool" where
  "rsaBitsOk bits = (bits = 1024 \<or> bits = 2048 \<or> bits = 3072 \<or> bits = 4096)"

text \<open>The keys and packets that \<open>GenerateKeyPair\<close> computes before it touches the state.\<close>

record generated =
  gMasterPubBody :: bytes
  gSubkeyPubBody :: bytes
  gCertSig :: bytes
  gBindSig :: bytes
  gMasterSecret :: bytes
  gSubkeySecret :: bytes

definition generateRsa ::
  "crypto \<Rightarrow> draws \<Rightarrow> bytes \<Rightarrow> bytes \<Rightarrow> bytes \<Rightarrow> bytes \<Rightarrow> generated" where
  "generateRsa L R userId password certExtra bindExtra =
     (let m = drawRsaKey R 0; s = drawRsaKey R 1; t = drawTime R 0;
          masterPub = buildRsaPublicKeyPacketBody t (rsaModulus m) (rsaPublicExponent m);
          subkeyPub = buildRsaPublicKeyPacketBody t (rsaModulus s) (rsaPublicExponent s);
          masterKeyId = snd (computeFingerprintAndKeyId L masterPub)
      in \<lparr> gMasterPubBody = masterPub, gSubkeyPubBody = subkeyPub,
           gCertSig = caught (drawSigns R 0) (buildSignaturePacket L (drawTime R 1) m 0x13
             (buildUserIdCertificationDocument masterPub userId) certExtra masterKeyId),
           gBindSig = caught (drawSigns R 1) (buildSignaturePacket L (drawTime R 2) m 0x18
             (buildSubkeyBindingDocument masterPub subkeyPub) bindExtra masterKeyId),
           gMasterSecret = encryptSecretKeyMaterial L (drawSalt R 0) (drawIv R 0) masterPub
             (buildRsaSecretKeyCleartext L m) password,
           gSubkeySecret = encryptSecretKeyMaterial L (drawSalt R 1) (drawIv R 1) subkeyPub
             (buildRsaSecretKeyCleartext L s) password \<rparr>)"

definition generateEd25519 ::
  "crypto \<Rightarrow> draws \<Rightarrow> bytes \<Rightarrow> bytes \<Rightarrow> bytes \<Rightarrow> bytes \<Rightarrow> generated" where
  "generateEd25519 L R userId password certExtra bindExtra =
     (let m = drawSeed R 0; s = drawSeed R 1; t = drawTime R 0;
          masterPub = buildEd25519PublicKeyPacketBody t (edPublic L m);
          subkeyPub = buildX25519PublicKeyPacketBody t (xPublic L s);
          masterKeyId = snd (computeFingerprintAndKeyId L masterPub)
      in \<lparr> gMasterPubBody = masterPub, gSubkeyPubBody = subkeyPub,
           gCertSig = caught (drawSigns R 0) (buildEd25519SignaturePacket L (drawTime R 1) m 0x13
             (buildUserIdCertificationDocument masterPub userId) certExtra masterKeyId),
           gBindSig = caught (drawSigns R 1) (buildEd25519SignaturePacket L (drawTime R 2) m 0x18
             (buildSubkeyBindingDocument masterPub subkeyPub) bindExtra masterKeyId),
           gMasterSecret = encryptSecretKeyMaterial L (drawSalt R 0) (drawIv R 0) masterPub
             (buildEd25519SecretKeyCleartext m) password,
           gSubkeySecret = encryptSecretKeyMaterial L (drawSalt R 1) (drawIv R 1) subkeyPub
             (buildX25519SecretKeyCleartext s) password \<rparr>)"

text \<open>The state after a successful generation.\<close>

definition installIdentity ::
  "crypto \<Rightarrow> draws \<Rightarrow> engine \<Rightarrow> bytes \<Rightarrow> bytes \<Rightarrow> 32 word \<Rightarrow> generated \<Rightarrow> engine" where
  "installIdentity L R S userId password expirationSeconds g =
     (let rsa = (keyAlgorithm S = PGP_KEY_ALGORITHM_RSA);
          creationTime = drawTime R 0;
          master = computeFingerprintAndKeyId L (gMasterPubBody g);
          sub = computeFingerprintAndKeyId L (gSubkeyPubBody g);
          S = (if rsa
               then S\<lparr>ownMasterPrivateKey := drawRsaKey R 0, ownMasterPublicKey := rsaPublicOf (drawRsaKey R 0),
                      ownSubkeyPrivateKey := drawRsaKey R 1, ownSubkeyPublicKey := rsaPublicOf (drawRsaKey R 1)\<rparr>
               else S\<lparr>ownEd25519PrivateKey := drawSeed R 0, ownEd25519PublicKey := edPublic L (drawSeed R 0),
                      ownX25519PrivateKey := drawSeed R 1, ownX25519PublicKey := xPublic L (drawSeed R 1)\<rparr>);
          uid = newOwnUserId\<lparr>uidText := userId, uidCertCreationTime := creationTime,
                  uidCertSigPacket := gCertSig g, uidIsPrimary := True, uidIsRevoked := False\<rparr>;
          k = (if rsa
               then newOwnSubkey\<lparr>skRsaPrivateKey := drawRsaKey R 1, skRsaPublicKey := rsaPublicOf (drawRsaKey R 1)\<rparr>
               else newOwnSubkey\<lparr>skX25519PrivateKey := drawSeed R 1, skX25519PublicKey := xPublic L (drawSeed R 1)\<rparr>);
          k = k\<lparr>skKeyId := snd sub, skFingerprint := fst sub, skCreationTime := creationTime,
                skExpirationSeconds := expirationSeconds, skKeyFlags := 0x0C, skBindingSigPacket := gBindSig g,
                skIsRevoked := False, skSecretPacketBody := gSubkeySecret g\<rparr>
      in S\<lparr>ownMasterKeyId := snd master, ownSubkeyKeyId := snd sub,
           ownMasterFingerprint := fst master, ownSubkeyFingerprint := fst sub,
           ownUserIds := [uid], ownSubkeys := [k], ownMasterSecretPacketBody := gMasterSecret g,
           keyCreationTime := creationTime, keyExpirationSeconds := expirationSeconds,
           passwordCheckHash := sha256 L password, ownKeyGenerated := True\<rparr>)"

definition GenerateKeyPair ::
  "crypto \<Rightarrow> draws \<Rightarrow> engine \<Rightarrow> bytes option \<Rightarrow> bytes option \<Rightarrow> 32 word \<Rightarrow> status \<times> engine" where
  "GenerateKeyPair L R S userId password expirationSeconds =
     (if \<not> has_text userId \<or> \<not> has_text password then (INVALID_ARGUMENT, S)
      else
        let certExtra = flagsAndExpiration 0x03 expirationSeconds;
            bindExtra = flagsAndExpiration 0x0C expirationSeconds
        in if keyAlgorithm S = PGP_KEY_ALGORITHM_RSA \<and> \<not> rsaBitsOk (rsaKeyBits S) then (INVALID_ARGUMENT, S)
           else
             let g = (if keyAlgorithm S = PGP_KEY_ALGORITHM_RSA
                      then generateRsa L R (the userId) (the password) certExtra bindExtra
                      else generateEd25519 L R (the userId) (the password) certExtra bindExtra)
             in if gCertSig g = [] \<or> gBindSig g = [] \<or> gMasterSecret g = [] \<or> gSubkeySecret g = []
                then (UNEXPECTED_ERROR, S)
                else (NO_ERROR, installIdentity L R S (the userId) (the password) expirationSeconds g))"

section \<open>User IDs\<close>

definition SetPrimaryUserId ::
  "crypto \<Rightarrow> draws \<Rightarrow> engine \<Rightarrow> bytes option \<Rightarrow> int \<Rightarrow> status \<times> engine" where
  "SetPrimaryUserId L R S password userIdIndex =
     (if \<not> mayUseIdentity S password then (INVALID_ARGUMENT, S)
      else if \<not> indexOk userIdIndex (ownUserIds S) then (INVALID_ARGUMENT, S)
      else if \<not> passwordMatches L S password then (INVALID_ARGUMENT, S)
      else
        let i = nat userIdIndex; target = ownUserIds S ! i;
            extra = appendAll (flagsAndExpiration 0x03 (keyExpirationSeconds S)) (buildPrimaryUserIdSubpacket True);
            newCert = signWithOwnMasterKey (drawSigns R 0) L S (drawTime R 0) 0x13
              (buildUserIdCertificationDocument (buildOwnMasterPubBody S) (uidText target)) extra
        in if newCert = [] then (UNEXPECTED_ERROR, S)
           else
             let uids = (ownUserIds S)[i := target\<lparr>uidCertSigPacket := newCert\<rparr>];
                 uids = map2 (\<lambda>j uid. uid\<lparr>uidIsPrimary := (j = i)\<rparr>) [0..<length uids] uids
             in (NO_ERROR, S\<lparr>ownUserIds := uids\<rparr>))"

text \<open>What is left for \<open>SetPrimaryUserId\<close> when \<open>AddUserId\<close> calls it.\<close>

definition laterDraws :: "draws \<Rightarrow> draws" where
  "laterDraws R = R\<lparr>drawTime := \<lambda>i. drawTime R (i + 2), drawSigns := \<lambda>i. drawSigns R (i + 1)\<rparr>"

definition AddUserId ::
  "crypto \<Rightarrow> draws \<Rightarrow> engine \<Rightarrow> bytes option \<Rightarrow> bytes option \<Rightarrow> bool \<Rightarrow> status \<times> engine" where
  "AddUserId L R S password userId makePrimary =
     (if \<not> mayUseIdentity S password \<or> \<not> has_text userId then (INVALID_ARGUMENT, S)
      else if \<not> passwordMatches L S password then (INVALID_ARGUMENT, S)
      else
        let uidBody = the userId;
            extra = flagsAndExpiration 0x03 (keyExpirationSeconds S);
            newUid = newOwnUserId\<lparr>uidText := uidBody, uidCertCreationTime := drawTime R 0,
              uidCertSigPacket := signWithOwnMasterKey (drawSigns R 0) L S (drawTime R 1) 0x13
                (buildUserIdCertificationDocument (buildOwnMasterPubBody S) uidBody) extra,
              uidIsPrimary := False, uidIsRevoked := False\<rparr>
        in if uidCertSigPacket newUid = [] then (UNEXPECTED_ERROR, S)
           else
             let S' = S\<lparr>ownUserIds := ownUserIds S @ [newUid]\<rparr>
             in if makePrimary
                then SetPrimaryUserId L (laterDraws R) S' password (int (length (ownUserIds S')) - 1)
                else (NO_ERROR, S'))"

definition RevokeUserId ::
  "crypto \<Rightarrow> draws \<Rightarrow> engine \<Rightarrow> bytes option \<Rightarrow> int \<Rightarrow> byte \<Rightarrow> bytes option \<Rightarrow> status \<times> engine" where
  "RevokeUserId L R S password userIdIndex reasonCode reasonText =
     (if \<not> mayUseIdentity S password then (INVALID_ARGUMENT, S)
      else if \<not> indexOk userIdIndex (ownUserIds S) then (INVALID_ARGUMENT, S)
      else if \<not> passwordMatches L S password then (INVALID_ARGUMENT, S)
      else
        let i = nat userIdIndex; uid = ownUserIds S ! i;
            revocationSig = signWithOwnMasterKey (drawSigns R 0) L S (drawTime R 0) 0x30
              (buildUserIdCertificationDocument (buildOwnMasterPubBody S) (uidText uid))
              (buildRevocationReasonSubpacket reasonCode reasonText)
        in if revocationSig = [] then (UNEXPECTED_ERROR, S)
           else (NO_ERROR, S\<lparr>ownUserIds :=
                  (ownUserIds S)[i := uid\<lparr>uidRevocationSigPacket := revocationSig, uidIsRevoked := True\<rparr>]\<rparr>))"

section \<open>Subkeys\<close>

text \<open>The new subkey before its fingerprint and its binding signature are filled in.\<close>

definition freshSubkey :: "crypto \<Rightarrow> draws \<Rightarrow> engine \<Rightarrow> byte \<Rightarrow> own_subkey" where
  "freshSubkey L R S keyFlags =
     (if keyAlgorithm S = PGP_KEY_ALGORITHM_RSA
      then newOwnSubkey\<lparr>skRsaPrivateKey := drawRsaKey R 0, skRsaPublicKey := rsaPublicOf (drawRsaKey R 0)\<rparr>
      else if keyFlags = 0x02
      then newOwnSubkey\<lparr>skEd25519PrivateKey := drawSeed R 0, skEd25519PublicKey := edPublic L (drawSeed R 0),
             skIsEd25519Sign := True\<rparr>
      else newOwnSubkey\<lparr>skX25519PrivateKey := drawSeed R 0, skX25519PublicKey := xPublic L (drawSeed R 0)\<rparr>)
     \<lparr>skCreationTime := drawTime R 0\<rparr>"

definition AddSubkey ::
  "crypto \<Rightarrow> draws \<Rightarrow> engine \<Rightarrow> bytes option \<Rightarrow> byte \<Rightarrow> 32 word \<Rightarrow> status \<times> engine" where
  "AddSubkey L R S password keyFlags expirationSeconds =
     (if \<not> mayUseIdentity S password then (INVALID_ARGUMENT, S)
      else if \<not> passwordMatches L S password then (INVALID_ARGUMENT, S)
      else if keyAlgorithm S = PGP_KEY_ALGORITHM_ED25519_X25519 \<and> keyFlags \<noteq> 0x0C \<and> keyFlags \<noteq> 0x02
      then (NOT_IMPLEMENTED, S)
      else if keyAlgorithm S = PGP_KEY_ALGORITHM_RSA \<and> \<not> rsaBitsOk (rsaKeyBits S) then (INVALID_ARGUMENT, S)
      else
        let k = freshSubkey L R S keyFlags; pubBody = subkeyPubBody S k;
            secretBody = encryptSecretKeyMaterial L (drawSalt R 0) (drawIv R 0) pubBody (subkeyCleartext L S k) (the password);
            (fingerprint, keyId) = computeFingerprintAndKeyId L pubBody;
            bindingSig = signWithOwnMasterKey (drawSigns R 0) L S (drawTime R 1) 0x18
              (buildSubkeyBindingDocument (buildOwnMasterPubBody S) pubBody) (flagsAndExpiration keyFlags expirationSeconds)
        in if bindingSig = [] \<or> secretBody = [] then (UNEXPECTED_ERROR, S)
           else (NO_ERROR, S\<lparr>ownSubkeys := ownSubkeys S @
                  [k\<lparr>skBindingSigPacket := bindingSig, skSecretPacketBody := secretBody, skKeyId := keyId,
                     skFingerprint := fingerprint, skExpirationSeconds := expirationSeconds,
                     skKeyFlags := keyFlags, skIsRevoked := False\<rparr>]\<rparr>))"

definition RevokeSubkey ::
  "crypto \<Rightarrow> draws \<Rightarrow> engine \<Rightarrow> bytes option \<Rightarrow> int \<Rightarrow> byte \<Rightarrow> bytes option \<Rightarrow> status \<times> engine" where
  "RevokeSubkey L R S password subkeyIndex reasonCode reasonText =
     (if \<not> mayUseIdentity S password then (INVALID_ARGUMENT, S)
      else if \<not> indexOk subkeyIndex (ownSubkeys S) then (INVALID_ARGUMENT, S)
      else if \<not> passwordMatches L S password then (INVALID_ARGUMENT, S)
      else
        let i = nat subkeyIndex; k = ownSubkeys S ! i;
            revocationSig = signWithOwnMasterKey (drawSigns R 0) L S (drawTime R 0) 0x28
              (buildSubkeyBindingDocument (buildOwnMasterPubBody S) (buildOwnSubkeyPubBody S i))
              (buildRevocationReasonSubpacket reasonCode reasonText)
        in if revocationSig = [] then (UNEXPECTED_ERROR, S)
           else (NO_ERROR, S\<lparr>ownSubkeys :=
                  (ownSubkeys S)[i := k\<lparr>skRevocationSigPacket := revocationSig, skIsRevoked := True\<rparr>]\<rparr>))"

section \<open>Expiration and password\<close>

text \<open>The index of the first primary user ID, or 0 when none is marked.\<close>

fun firstPrimary :: "nat \<Rightarrow> own_user_id list \<Rightarrow> nat option" where
  "firstPrimary i [] = None"
| "firstPrimary i (uid # uids) = (if uidIsPrimary uid then Some i else firstPrimary (i + 1) uids)"

definition SetMasterExpiration :: "crypto \<Rightarrow> draws \<Rightarrow> engine \<Rightarrow> 32 word \<Rightarrow> status \<times> engine" where
  "SetMasterExpiration L R S expirationSeconds =
     (let primaryIndex = (case firstPrimary 0 (ownUserIds S) of Some i \<Rightarrow> Some i
                          | None \<Rightarrow> if ownUserIds S \<noteq> [] then Some 0 else None)
      in case primaryIndex of None \<Rightarrow> (UNEXPECTED_ERROR, S) | Some i \<Rightarrow>
        let primaryUid = ownUserIds S ! i;
            extra = flagsAndExpiration 0x03 expirationSeconds;
            extra = (if uidIsPrimary primaryUid then appendAll extra (buildPrimaryUserIdSubpacket True) else extra);
            newCert = signWithOwnMasterKey (drawSigns R 0) L S (drawTime R 0) 0x13
              (buildUserIdCertificationDocument (buildOwnMasterPubBody S) (uidText primaryUid)) extra
        in if newCert = [] then (UNEXPECTED_ERROR, S)
           else (NO_ERROR, S\<lparr>ownUserIds := (ownUserIds S)[i := primaryUid\<lparr>uidCertSigPacket := newCert\<rparr>],
                             keyExpirationSeconds := expirationSeconds\<rparr>))"

definition SetKeyExpiration ::
  "crypto \<Rightarrow> draws \<Rightarrow> engine \<Rightarrow> bytes option \<Rightarrow> int \<Rightarrow> 32 word \<Rightarrow> status \<times> engine" where
  "SetKeyExpiration L R S password subkeyIndex expirationSeconds =
     (if \<not> mayUseIdentity S password then (INVALID_ARGUMENT, S)
      else if \<not> passwordMatches L S password then (INVALID_ARGUMENT, S)
      else if subkeyIndex = -1 then SetMasterExpiration L R S expirationSeconds
      else if \<not> indexOk subkeyIndex (ownSubkeys S) then (INVALID_ARGUMENT, S)
      else
        let i = nat subkeyIndex; k = ownSubkeys S ! i;
            newBinding = signWithOwnMasterKey (drawSigns R 0) L S (drawTime R 0) 0x18
              (buildSubkeyBindingDocument (buildOwnMasterPubBody S) (buildOwnSubkeyPubBody S i))
              (flagsAndExpiration (skKeyFlags k) expirationSeconds)
        in if newBinding = [] then (UNEXPECTED_ERROR, S)
           else (NO_ERROR, S\<lparr>ownSubkeys := (ownSubkeys S)[i :=
                  k\<lparr>skBindingSigPacket := newBinding, skExpirationSeconds := expirationSeconds\<rparr>]\<rparr>))"

definition reencryptSubkey :: "crypto \<Rightarrow> draws \<Rightarrow> engine \<Rightarrow> bytes \<Rightarrow> nat \<Rightarrow> bytes" where
  "reencryptSubkey L R S newPassword i =
     encryptSecretKeyMaterial L (drawSalt R (i + 1)) (drawIv R (i + 1)) (buildOwnSubkeyPubBody S i)
       (subkeyCleartext L S (ownSubkeys S ! i)) newPassword"

definition ChangePassword ::
  "crypto \<Rightarrow> draws \<Rightarrow> engine \<Rightarrow> bytes option \<Rightarrow> bytes option \<Rightarrow> status \<times> engine" where
  "ChangePassword L R S oldPassword newPassword =
     (if \<not> ownKeyGenerated S then (INVALID_ARGUMENT, S)
      else if \<not> has_text oldPassword \<or> \<not> has_text newPassword then (INVALID_ARGUMENT, S)
      else if \<not> passwordMatches L S oldPassword then (INVALID_ARGUMENT, S)
      else
        let newMasterSecretBody = encryptSecretKeyMaterial L (drawSalt R 0) (drawIv R 0) (buildOwnMasterPubBody S)
              (masterCleartext L S) (the newPassword);
            newSubkeySecretBodies = map (reencryptSubkey L R S (the newPassword)) [0..<length (ownSubkeys S)]
        in if newMasterSecretBody = [] then (UNEXPECTED_ERROR, S)
           else if [] \<in> set newSubkeySecretBodies then (UNEXPECTED_ERROR, S)
           else (NO_ERROR, S\<lparr>ownMasterSecretPacketBody := newMasterSecretBody,
                  ownSubkeys := map2 (\<lambda>k body. k\<lparr>skSecretPacketBody := body\<rparr>) (ownSubkeys S) newSubkeySecretBodies,
                  passwordCheckHash := sha256 L (the newPassword)\<rparr>))"

section \<open>Export\<close>

definition renderOwnKeyBlocks :: "engine \<Rightarrow> bytes \<times> bytes" where
  "renderOwnKeyBlocks S =
     (if \<not> ownKeyGenerated S then ([], [])
      else
        let uidPart = (\<lambda>uid. appendAll (appendAll (writePacket PGP_TAG_USER_ID (uidText uid)) (uidCertSigPacket uid))
              (if uidIsRevoked uid then uidRevocationSigPacket uid else []));
            sigPart = (\<lambda>k. appendAll (skBindingSigPacket k) (if skIsRevoked k then skRevocationSigPacket k else []));
            uids = concat (map uidPart (ownUserIds S))
        in (writePacket PGP_TAG_PUBLIC_KEY (buildOwnMasterPubBody S) @ uids
              @ concat (map (\<lambda>k. appendAll (writePacket PGP_TAG_PUBLIC_SUBKEY (subkeyPubBody S k)) (sigPart k)) (ownSubkeys S)),
            writePacket PGP_TAG_SECRET_KEY (ownMasterSecretPacketBody S) @ uids
              @ concat (map (\<lambda>k. appendAll (writePacket PGP_TAG_SECRET_SUBKEY (skSecretPacketBody k)) (sigPart k)) (ownSubkeys S))))"

end
