(* ===== verification/IdentityInv.thy ===== *)
theory IdentityInv
  imports Identity
begin

unbundle bit_operations_syntax

text \<open>
  What the engine's identity promises, and that every operation keeps it: signatures cached in
  the state verify under the own master key, exactly one user ID is primary, the flat subkey
  fields mirror the first subkey, secret bodies open with the current password. The operations
  share one interface, \<open>identity_operation\<close>: a password gate, atomic failure and preservation.
\<close>

section \<open>The invariant\<close>

definition verifyOwn :: "crypto \<Rightarrow> engine \<Rightarrow> bytes \<Rightarrow> bytes \<Rightarrow> bool cpp" where
  "verifyOwn L S doc sig =
     (if keyAlgorithm S = PGP_KEY_ALGORITHM_RSA then verifySignaturePacket L (ownMasterPublicKey S) doc sig
      else verifyEd25519SignaturePacket L (ownEd25519PublicKey S) doc sig)"

definition master_ok :: "crypto \<Rightarrow> engine \<Rightarrow> bool" where
  "master_ok L S \<longleftrightarrow>
     (keyAlgorithm S = PGP_KEY_ALGORITHM_RSA \<longrightarrow>
        ownMasterPublicKey S = rsaPublicOf (ownMasterPrivateKey S) \<and> rsa_sign_ok L (ownMasterPrivateKey S)
        \<and> minEncodedSize (rsaModulus (ownMasterPrivateKey S)) \<le> 8191
        \<and> bitCount (rsaPublicExponent (ownMasterPrivateKey S)) < 65536)
     \<and> (keyAlgorithm S \<noteq> PGP_KEY_ALGORITHM_RSA \<longrightarrow>
        ownEd25519PublicKey S = edPublic L (ownEd25519PrivateKey S) \<and> ed_sign_ok L (ownEd25519PrivateKey S)
        \<and> length (ownEd25519PublicKey S) = 32)
     \<and> (ownMasterFingerprint S, ownMasterKeyId S) = computeFingerprintAndKeyId L (buildOwnMasterPubBody S)"

definition secret_ok :: "crypto \<Rightarrow> engine \<Rightarrow> bytes \<Rightarrow> bytes \<Rightarrow> bytes \<Rightarrow> bool" where
  "secret_ok L S pubBody cleartext body \<longleftrightarrow>
     (\<exists>pw. sha256 L pw = passwordCheckHash S \<and> openSecretKeyMaterial L pw pubBody body = Some cleartext)"

text \<open>Cached signature packets are signatures of the own master key over the right document.\<close>

definition issued :: "crypto \<Rightarrow> engine \<Rightarrow> byte \<Rightarrow> bytes \<Rightarrow> bytes \<Rightarrow> bool" where
  "issued L S signatureType doc sig \<longleftrightarrow>
     (\<exists>t extra. length extra < 65530 \<and> sig = ownSignature L S t signatureType doc extra)"

definition uid_ok :: "crypto \<Rightarrow> engine \<Rightarrow> own_user_id \<Rightarrow> bool" where
  "uid_ok L S uid \<longleftrightarrow>
     (let doc = buildUserIdCertificationDocument (buildOwnMasterPubBody S) (uidText uid) in
      issued L S 0x13 doc (uidCertSigPacket uid)
      \<and> (if uidIsRevoked uid then issued L S 0x30 doc (uidRevocationSigPacket uid)
         else uidRevocationSigPacket uid = []))"

definition subkey_wf :: "engine \<Rightarrow> own_subkey \<Rightarrow> bool" where
  "subkey_wf S k \<longleftrightarrow>
     (if keyAlgorithm S = PGP_KEY_ALGORITHM_RSA
      then bitCount (fst (skRsaPublicKey k)) < 65536 \<and> bitCount (snd (skRsaPublicKey k)) < 65536
      else length (if skIsEd25519Sign k then skEd25519PublicKey k else skX25519PublicKey k) = 32)"

definition subkey_ok :: "crypto \<Rightarrow> engine \<Rightarrow> own_subkey \<Rightarrow> bool" where
  "subkey_ok L S k \<longleftrightarrow>
     (let doc = buildSubkeyBindingDocument (buildOwnMasterPubBody S) (subkeyPubBody S k) in
      subkey_wf S k
      \<and> (skFingerprint k, skKeyId k) = computeFingerprintAndKeyId L (subkeyPubBody S k)
      \<and> (\<exists>t. skBindingSigPacket k =
           ownSignature L S t 0x18 doc (flagsAndExpiration (skKeyFlags k) (skExpirationSeconds k)))
      \<and> (if skIsRevoked k then issued L S 0x28 doc (skRevocationSigPacket k)
         else skRevocationSigPacket k = [])
      \<and> secret_ok L S (subkeyPubBody S k) (subkeyCleartext L S k) (skSecretPacketBody k))"

text \<open>The fields that existing callers read still describe the first subkey.\<close>

definition mirrors :: "engine \<Rightarrow> own_subkey \<Rightarrow> bool" where
  "mirrors S k \<longleftrightarrow> skKeyId k = ownSubkeyKeyId S \<and> skFingerprint k = ownSubkeyFingerprint S
     \<and> (if keyAlgorithm S = PGP_KEY_ALGORITHM_RSA
        then skRsaPrivateKey k = ownSubkeyPrivateKey S \<and> skRsaPublicKey k = ownSubkeyPublicKey S
        else \<not> skIsEd25519Sign k \<and> skX25519PrivateKey k = ownX25519PrivateKey S
          \<and> skX25519PublicKey k = ownX25519PublicKey S)"

definition one_primary :: "own_user_id list \<Rightarrow> bool" where
  "one_primary uids \<longleftrightarrow> (\<exists>!i. i < length uids \<and> uidIsPrimary (uids ! i))"

definition identity_inv :: "crypto \<Rightarrow> engine \<Rightarrow> bool" where
  "identity_inv L S \<longleftrightarrow> (ownKeyGenerated S \<longrightarrow>
     master_ok L S
     \<and> secret_ok L S (buildOwnMasterPubBody S) (masterCleartext L S) (ownMasterSecretPacketBody S)
     \<and> one_primary (ownUserIds S) \<and> (\<forall>uid \<in> set (ownUserIds S). uid_ok L S uid)
     \<and> ownSubkeys S \<noteq> [] \<and> mirrors S (ownSubkeys S ! 0) \<and> (\<forall>k \<in> set (ownSubkeys S). subkey_ok L S k))"

definition lib_ok :: "crypto \<Rightarrow> bool" where
  "lib_ok L \<longleftrightarrow> digests_ok L \<and> cfb_ok L"

lemma identity_inv_unborn [simp]: "\<not> ownKeyGenerated S \<Longrightarrow> identity_inv L S"
  by (simp add: identity_inv_def)

section \<open>Signing with the own master key\<close>

lemma writePacket_not_Nil [simp]: "writePacket t b \<noteq> []"
  by (simp add: writePacket_eq)

lemma sign_not_Nil [simp]: "ownSignature L S now t doc extra \<noteq> []"
  by (simp add: ownSignature_def buildSignaturePacket_def buildEd25519SignaturePacket_def Let_def)

lemma length_keyId: "digests_ok L \<Longrightarrow> length (snd (computeFingerprintAndKeyId L b)) = 8"
  by (simp add: computeFingerprintAndKeyId_def Let_def digests_ok_def)

lemma verifyOwn_sign:
  assumes "master_ok L S" "digests_ok L" "length extra < 65530"
  shows "verifyOwn L S doc (ownSignature L S now t doc extra) = yes True"
proof -
  have id: "length (ownMasterKeyId S) = 8"
    using assms(1) length_keyId [OF assms(2), of "buildOwnMasterPubBody S"]
    by (metis master_ok_def snd_conv)
  show ?thesis
  proof (cases "keyAlgorithm S = PGP_KEY_ALGORITHM_RSA")
    case True
    with assms(1) have "rsa_sign_ok L (ownMasterPrivateKey S)" "minEncodedSize (rsaModulus (ownMasterPrivateKey S)) \<le> 8191"
      "ownMasterPublicKey S = rsaPublicOf (ownMasterPrivateKey S)" by (simp_all add: master_ok_def)
    with True id assms(3) show ?thesis
      by (simp add: verifyOwn_def ownSignature_def verify_built_rsa rsa_sign_ok_def)
  next
    case False
    with assms(1) have "ed_sign_ok L (ownEd25519PrivateKey S)"
      "ownEd25519PublicKey S = edPublic L (ownEd25519PrivateKey S)" by (simp_all add: master_ok_def)
    with False id assms(3) show ?thesis
      by (simp add: verifyOwn_def ownSignature_def verify_built_ed25519 ed_sign_ok_def)
  qed
qed

lemma length_flagsAndExpiration: "length (flagsAndExpiration f e) \<le> 9"
  by (simp add: flagsAndExpiration_def buildKeyFlagsSubpacket_def buildKeyExpirationSubpacket_def Let_def
      appendAll_def length_appendSubpacket newFormatLengthOctets_def)

lemma length_primarySubpacket: "length (buildPrimaryUserIdSubpacket b) = 3"
  by (simp add: buildPrimaryUserIdSubpacket_def length_appendSubpacket newFormatLengthOctets_def)

lemma issued_verifies:
  "master_ok L S \<Longrightarrow> digests_ok L \<Longrightarrow> issued L S t doc sig \<Longrightarrow> verifyOwn L S doc sig = yes True"
  by (auto simp: issued_def verifyOwn_sign)

lemma issued_sign: "length extra < 65530 \<Longrightarrow> issued L S t doc (ownSignature L S now t doc extra)"
  by (auto simp: issued_def)

text \<open>The reason text fits the two-octet length of the hashed area.\<close>

definition reason_fits :: "bytes option \<Rightarrow> bool" where
  "reason_fits reasonText \<longleftrightarrow> (case reasonText of None \<Rightarrow> True | Some t \<Rightarrow> length t < 65520)"

lemma length_reasonSubpacket: "reason_fits t \<Longrightarrow> length (buildRevocationReasonSubpacket c t) < 65530"
  by (auto simp: reason_fits_def buildRevocationReasonSubpacket_def length_appendSubpacket
      newFormatLengthOctets_def split: option.splits)

lemmas short_extras = length_flagsAndExpiration length_primarySubpacket length_reasonSubpacket

lemma cert_extra_short: "length (flagsAndExpiration f e) < 65530"
  "length (appendAll (flagsAndExpiration f e) (buildPrimaryUserIdSubpacket b)) < 65530"
  using length_flagsAndExpiration [of f e] by (simp_all add: appendAll_def length_primarySubpacket)

section \<open>What depends on which part of the state\<close>

lemma ok_frame [simp]:
  "buildOwnMasterPubBody (S\<lparr>ownUserIds := u\<rparr>) = buildOwnMasterPubBody S"
  "buildOwnMasterPubBody (S\<lparr>ownSubkeys := ks\<rparr>) = buildOwnMasterPubBody S"
  "buildOwnMasterPubBody (S\<lparr>keyExpirationSeconds := e\<rparr>) = buildOwnMasterPubBody S"
  "buildOwnMasterPubBody (S\<lparr>ownMasterSecretPacketBody := b\<rparr>) = buildOwnMasterPubBody S"
  "buildOwnMasterPubBody (S\<lparr>passwordCheckHash := h\<rparr>) = buildOwnMasterPubBody S"
  "subkeyPubBody (S\<lparr>ownUserIds := u\<rparr>) k = subkeyPubBody S k"
  "subkeyPubBody (S\<lparr>ownSubkeys := ks\<rparr>) k = subkeyPubBody S k"
  "subkeyPubBody (S\<lparr>keyExpirationSeconds := e\<rparr>) k = subkeyPubBody S k"
  "subkeyPubBody (S\<lparr>ownMasterSecretPacketBody := b\<rparr>) k = subkeyPubBody S k"
  "subkeyPubBody (S\<lparr>passwordCheckHash := h\<rparr>) k = subkeyPubBody S k"
  "subkeyCleartext L (S\<lparr>ownUserIds := u\<rparr>) k = subkeyCleartext L S k"
  "subkeyCleartext L (S\<lparr>ownSubkeys := ks\<rparr>) k = subkeyCleartext L S k"
  "subkeyCleartext L (S\<lparr>keyExpirationSeconds := e\<rparr>) k = subkeyCleartext L S k"
  "subkeyCleartext L (S\<lparr>ownMasterSecretPacketBody := b\<rparr>) k = subkeyCleartext L S k"
  "subkeyCleartext L (S\<lparr>passwordCheckHash := h\<rparr>) k = subkeyCleartext L S k"
  "masterCleartext L (S\<lparr>ownUserIds := u\<rparr>) = masterCleartext L S"
  "masterCleartext L (S\<lparr>ownSubkeys := ks\<rparr>) = masterCleartext L S"
  "masterCleartext L (S\<lparr>keyExpirationSeconds := e\<rparr>) = masterCleartext L S"
  "masterCleartext L (S\<lparr>ownMasterSecretPacketBody := b\<rparr>) = masterCleartext L S"
  "masterCleartext L (S\<lparr>passwordCheckHash := h\<rparr>) = masterCleartext L S"
  by (simp_all add: buildOwnMasterPubBody_def subkeyPubBody_def subkeyCleartext_def masterCleartext_def)

lemma sign_frame [simp]:
  "ownSignature L (S\<lparr>ownUserIds := u\<rparr>) = ownSignature L S"
  "ownSignature L (S\<lparr>ownSubkeys := ks\<rparr>) = ownSignature L S"
  "ownSignature L (S\<lparr>keyExpirationSeconds := e\<rparr>) = ownSignature L S"
  "ownSignature L (S\<lparr>ownMasterSecretPacketBody := b\<rparr>) = ownSignature L S"
  "ownSignature L (S\<lparr>passwordCheckHash := h\<rparr>) = ownSignature L S"
  by (simp_all add: ownSignature_def fun_eq_iff)

lemma issued_frame [simp]:
  "issued L (S\<lparr>ownUserIds := u\<rparr>) = issued L S" "issued L (S\<lparr>ownSubkeys := ks\<rparr>) = issued L S"
  "issued L (S\<lparr>keyExpirationSeconds := e\<rparr>) = issued L S"
  "issued L (S\<lparr>ownMasterSecretPacketBody := b\<rparr>) = issued L S"
  "issued L (S\<lparr>passwordCheckHash := h\<rparr>) = issued L S"
  by (simp_all add: issued_def fun_eq_iff)

lemma subkey_wf_frame [simp]:
  "subkey_wf (S\<lparr>ownUserIds := u\<rparr>) = subkey_wf S" "subkey_wf (S\<lparr>ownSubkeys := ks\<rparr>) = subkey_wf S"
  "subkey_wf (S\<lparr>keyExpirationSeconds := e\<rparr>) = subkey_wf S"
  "subkey_wf (S\<lparr>ownMasterSecretPacketBody := b\<rparr>) = subkey_wf S"
  "subkey_wf (S\<lparr>passwordCheckHash := h\<rparr>) = subkey_wf S"
  by (simp_all add: subkey_wf_def fun_eq_iff)

lemma inv_frame [simp]:
  "uid_ok L (S\<lparr>ownUserIds := u\<rparr>) = uid_ok L S" "uid_ok L (S\<lparr>ownSubkeys := ks\<rparr>) = uid_ok L S"
  "uid_ok L (S\<lparr>keyExpirationSeconds := e\<rparr>) = uid_ok L S"
  "uid_ok L (S\<lparr>ownMasterSecretPacketBody := b\<rparr>) = uid_ok L S"
  "uid_ok L (S\<lparr>passwordCheckHash := h\<rparr>) = uid_ok L S"
  "secret_ok L (S\<lparr>ownUserIds := u\<rparr>) = secret_ok L S" "secret_ok L (S\<lparr>ownSubkeys := ks\<rparr>) = secret_ok L S"
  "secret_ok L (S\<lparr>keyExpirationSeconds := e\<rparr>) = secret_ok L S"
  "secret_ok L (S\<lparr>ownMasterSecretPacketBody := b\<rparr>) = secret_ok L S"
  "master_ok L (S\<lparr>ownUserIds := u\<rparr>) = master_ok L S" "master_ok L (S\<lparr>ownSubkeys := ks\<rparr>) = master_ok L S"
  "master_ok L (S\<lparr>keyExpirationSeconds := e\<rparr>) = master_ok L S"
  "master_ok L (S\<lparr>ownMasterSecretPacketBody := b\<rparr>) = master_ok L S"
  "master_ok L (S\<lparr>passwordCheckHash := h\<rparr>) = master_ok L S"
  "mirrors (S\<lparr>ownUserIds := u\<rparr>) = mirrors S" "mirrors (S\<lparr>ownSubkeys := ks\<rparr>) = mirrors S"
  "mirrors (S\<lparr>keyExpirationSeconds := e\<rparr>) = mirrors S"
  "mirrors (S\<lparr>ownMasterSecretPacketBody := b\<rparr>) = mirrors S"
  "mirrors (S\<lparr>passwordCheckHash := h\<rparr>) = mirrors S"
  by (simp_all add: fun_eq_iff uid_ok_def secret_ok_def master_ok_def mirrors_def Let_def)

lemma subkey_ok_frame [simp]:
  "subkey_ok L (S\<lparr>ownUserIds := u\<rparr>) = subkey_ok L S" "subkey_ok L (S\<lparr>ownSubkeys := ks\<rparr>) = subkey_ok L S"
  "subkey_ok L (S\<lparr>keyExpirationSeconds := e\<rparr>) = subkey_ok L S"
  "subkey_ok L (S\<lparr>ownMasterSecretPacketBody := b\<rparr>) = subkey_ok L S"
  by (simp_all add: fun_eq_iff subkey_ok_def Let_def)

end
