(* ===== verification/IdentityOps.thy ===== *)
theory IdentityOps
  imports IdentityInv
begin

unbundle bit_operations_syntax

text \<open>
  Every operation on the identity implements \<open>identity_operation\<close>, and all but \<open>AddUserId\<close> also
  \<open>atomic_operation\<close>: each keeps the invariant of the identity, also when a signature cannot be made.
\<close>

section \<open>The interface\<close>

definition authorised :: "crypto \<Rightarrow> engine \<Rightarrow> bytes option \<Rightarrow> bool" where
  "authorised L S password \<longleftrightarrow> mayUseIdentity S password \<and> passwordMatches L S password"

text \<open>What identifies the key to the outside.\<close>

definition masterView :: "engine \<Rightarrow> key_algorithm \<times> bool \<times> bytes \<times> bytes \<times> bytes" where
  "masterView S = (keyAlgorithm S, ownKeyGenerated S, ownMasterKeyId S, ownMasterFingerprint S, buildOwnMasterPubBody S)"

locale identity_operation =
  fixes op :: "crypto \<Rightarrow> draws \<Rightarrow> engine \<Rightarrow> bytes option \<Rightarrow> 'a \<Rightarrow> status \<times> engine"
    and fits :: "'a \<Rightarrow> bool"
  assumes gate: "\<not> authorised L S pw \<Longrightarrow> op L R S pw x = (INVALID_ARGUMENT, S)"
    and same_master: "masterView (snd (op L R S pw x)) = masterView S"
    and keeps: "lib_ok L \<Longrightarrow> draws_ok L R \<Longrightarrow> fits x \<Longrightarrow> identity_inv L S \<Longrightarrow> identity_inv L (snd (op L R S pw x))"
begin

lemma change_needs_password: "snd (op L R S pw x) \<noteq> S \<Longrightarrow> authorised L S pw"
  using gate by fastforce

text \<open>A sequence of calls, each with its own draws and password.\<close>

definition run :: "crypto \<Rightarrow> (draws \<times> bytes option \<times> 'a) list \<Rightarrow> engine \<Rightarrow> engine" where
  "run L calls S = fold (\<lambda>(R, pw, x) S. snd (op L R S pw x)) calls S"

lemma run_keeps:
  "lib_ok L \<Longrightarrow> \<forall>(R, pw, x) \<in> set calls. draws_ok L R \<and> fits x \<Longrightarrow> identity_inv L S \<Longrightarrow> identity_inv L (run L calls S)"
  by (induction calls arbitrary: S) (auto simp: run_def keeps)

lemma run_same_master: "masterView (run L calls S) = masterView S"
  by (induction calls arbitrary: S) (auto simp: run_def same_master)

lemma run_unauthorised:
  "\<forall>(R, pw, x) \<in> set calls. \<not> authorised L S pw \<Longrightarrow> run L calls S = S"
  by (induction calls arbitrary: S) (auto simp: run_def gate)

end

text \<open>All of them but \<open>AddUserId\<close> also leave the object as it was when they do not succeed.\<close>

locale atomic_operation = identity_operation +
  assumes atomic: "fst (op L R S pw x) \<noteq> NO_ERROR \<Longrightarrow> snd (op L R S pw x) = S"
begin

lemma change_is_success: "snd (op L R S pw x) \<noteq> S \<Longrightarrow> authorised L S pw \<and> fst (op L R S pw x) = NO_ERROR"
  using change_needs_password atomic by fastforce

lemma result_cases:
  assumes "op L R S pw x = (st, S')" "st \<noteq> NO_ERROR"
  shows "S' = S"
  using atomic [of L R S pw x] assms by simp

end

section \<open>User-ID operations\<close>

lemma masterView_frame [simp]:
  "masterView (S\<lparr>ownUserIds := u\<rparr>) = masterView S" "masterView (S\<lparr>ownSubkeys := ks\<rparr>) = masterView S"
  "masterView (S\<lparr>keyExpirationSeconds := e\<rparr>) = masterView S"
  "masterView (S\<lparr>ownMasterSecretPacketBody := b\<rparr>) = masterView S"
  "masterView (S\<lparr>passwordCheckHash := h\<rparr>) = masterView S"
  by (simp_all add: masterView_def)

text \<open>Replacing one user ID by a good one with the same primary flag.\<close>

lemma inv_update_uid:
  assumes "identity_inv L S" "ownKeyGenerated S" "i < length (ownUserIds S)"
    and "uid_ok L S uid" "uidIsPrimary uid = uidIsPrimary (ownUserIds S ! i)"
  shows "identity_inv L (S\<lparr>ownUserIds := (ownUserIds S)[i := uid]\<rparr>)"
proof -
  have "one_primary ((ownUserIds S)[i := uid]) = one_primary (ownUserIds S)"
  proof -
    have "uidIsPrimary ((ownUserIds S)[i := uid] ! j) = uidIsPrimary (ownUserIds S ! j)" for j
      using assms(3,5) by (cases "j = i") simp_all
    then show ?thesis by (simp add: one_primary_def)
  qed
  moreover have "\<forall>u \<in> set ((ownUserIds S)[i := uid]). uid_ok L S u"
    using assms(1,2,4) set_update_subset_insert [of "ownUserIds S" i uid] unfolding identity_inv_def by blast
  ultimately show ?thesis
    using assms(1,2) by (simp add: identity_inv_def)
qed

lemma uid_ok_cert:
  assumes "uid_ok L S uid \<or> \<not> uidIsRevoked uid \<and> uidRevocationSigPacket uid = []"
    and "length extra < 65530" "cert = ownSignature L S t 0x13
      (buildUserIdCertificationDocument (buildOwnMasterPubBody S) (uidText uid)) extra"
  shows "uid_ok L S (uid\<lparr>uidCertSigPacket := cert\<rparr>)"
  using assms issued_sign by (auto simp: uid_ok_def Let_def)

lemma inv_uid_nth: "identity_inv L S \<Longrightarrow> ownKeyGenerated S \<Longrightarrow> i < length (ownUserIds S) \<Longrightarrow> uid_ok L S (ownUserIds S ! i)"
  by (auto simp: identity_inv_def)

lemma uid_ok_primary [simp]: "uid_ok L S (u\<lparr>uidIsPrimary := b\<rparr>) = uid_ok L S u"
  by (simp add: uid_ok_def)

lemma one_primary_mark:
  "i < length uids \<Longrightarrow> one_primary (map2 (\<lambda>j uid. uid\<lparr>uidIsPrimary := (j = i)\<rparr>) [0..<length uids] uids)"
  by (auto simp: one_primary_def)

lemmas guard_defs = mayUseIdentity_def indexOk_def authorised_def

lemma SetPrimaryUserId_keeps:
  assumes "lib_ok L" "identity_inv L S"
  shows "identity_inv L (snd (SetPrimaryUserId L R S pw i))"
proof (cases "mayUseIdentity S pw \<and> indexOk i (ownUserIds S) \<and> passwordMatches L S pw \<and> drawSigns R 0")
  case True
  let ?n = "nat i"
  have n: "?n < length (ownUserIds S)" and gen: "ownKeyGenerated S" using True by (auto simp: guard_defs)
  define target where "target = ownUserIds S ! ?n"
  define extra where "extra = appendAll (flagsAndExpiration 0x03 (keyExpirationSeconds S)) (buildPrimaryUserIdSubpacket True)"
  define cert where "cert = ownSignature L S (drawTime R 0) 0x13
    (buildUserIdCertificationDocument (buildOwnMasterPubBody S) (uidText target)) extra"
  define uids where "uids = (ownUserIds S)[?n := target\<lparr>uidCertSigPacket := cert\<rparr>]"
  have ok: "uid_ok L S (target\<lparr>uidCertSigPacket := cert\<rparr>)"
    by (rule uid_ok_cert [OF _ _ cert_def])
      (use inv_uid_nth [OF assms(2) gen n] cert_extra_short in \<open>auto simp: target_def extra_def\<close>)
  have all: "\<forall>u \<in> set uids. uid_ok L S u"
    using ok assms(2) gen set_update_subset_insert [of "ownUserIds S" ?n "target\<lparr>uidCertSigPacket := cert\<rparr>"]
    unfolding uids_def identity_inv_def by blast
  let ?marked = "map2 (\<lambda>j uid. uid\<lparr>uidIsPrimary := (j = ?n)\<rparr>) [0..<length uids] uids"
  have "\<forall>u \<in> set ?marked. uid_ok L S u" using all by (auto dest: set_zip_rightD)
  moreover have "one_primary ?marked" using n by (intro one_primary_mark) (simp add: uids_def)
  moreover have "snd (SetPrimaryUserId L R S pw i) = S\<lparr>ownUserIds := ?marked\<rparr>"
    using True by (simp add: SetPrimaryUserId_def Let_def uids_def cert_def extra_def target_def)
  ultimately show ?thesis
    using assms(2) gen by (simp add: identity_inv_def)
qed (use assms in \<open>auto simp: SetPrimaryUserId_def Let_def\<close>)

lemma one_primary_append: "one_primary uids \<Longrightarrow> \<not> uidIsPrimary uid \<Longrightarrow> one_primary (uids @ [uid])"
proof -
  assume one: "one_primary uids" and not: "\<not> uidIsPrimary uid"
  have "i < length (uids @ [uid]) \<and> uidIsPrimary ((uids @ [uid]) ! i) \<longleftrightarrow> i < length uids \<and> uidIsPrimary (uids ! i)" for i
    using not by (auto simp: nth_append less_Suc_eq)
  then show ?thesis using one unfolding one_primary_def by simp
qed

lemma inv_add_uid:
  assumes "identity_inv L S" "ownKeyGenerated S" "uid_ok L S uid" "\<not> uidIsPrimary uid"
  shows "identity_inv L (S\<lparr>ownUserIds := ownUserIds S @ [uid]\<rparr>)"
  using assms by (auto simp: identity_inv_def one_primary_append)

text \<open>The user ID that \<open>AddUserId\<close> appends.\<close>

definition addedUserId :: "crypto \<Rightarrow> draws \<Rightarrow> engine \<Rightarrow> bytes \<Rightarrow> own_user_id" where
  "addedUserId L R S uidBody = newOwnUserId\<lparr>uidText := uidBody, uidCertCreationTime := drawTime R 0,
     uidCertSigPacket := ownSignature L S (drawTime R 1) 0x13
       (buildUserIdCertificationDocument (buildOwnMasterPubBody S) uidBody) (flagsAndExpiration 0x03 (keyExpirationSeconds S)),
     uidIsPrimary := False, uidIsRevoked := False\<rparr>"

definition withUserId :: "crypto \<Rightarrow> draws \<Rightarrow> engine \<Rightarrow> bytes \<Rightarrow> engine" where
  "withUserId L R S uidBody = S\<lparr>ownUserIds := ownUserIds S @ [addedUserId L R S uidBody]\<rparr>"

lemma addedUserId_ok: "uid_ok L S (addedUserId L R S t)" "\<not> uidIsPrimary (addedUserId L R S t)"
  "\<not> uidIsRevoked (addedUserId L R S t)" "uidText (addedUserId L R S t) = t"
  using issued_sign [OF cert_extra_short(1)]
  by (auto simp: addedUserId_def uid_ok_def Let_def newOwnUserId_def)

lemma AddUserId_eq:
  "AddUserId L R S pw userId makePrimary =
     (if \<not> authorised L S pw \<or> \<not> has_text userId then (INVALID_ARGUMENT, S)
      else if \<not> drawSigns R 0 then (UNEXPECTED_ERROR, S)
      else if makePrimary then SetPrimaryUserId L (laterDraws R) (withUserId L R S (the userId)) pw (int (length (ownUserIds S)))
      else (NO_ERROR, withUserId L R S (the userId)))"
  by (auto simp: AddUserId_def Let_def addedUserId_def withUserId_def authorised_def)

lemma AddUserId_keeps:
  assumes "lib_ok L" "identity_inv L S"
  shows "identity_inv L (snd (AddUserId L R S pw userId makePrimary))"
proof (cases "authorised L S pw")
  case True
  then have "identity_inv L (withUserId L R S (the userId))"
    using assms(2) addedUserId_ok by (auto simp: withUserId_def guard_defs intro: inv_add_uid)
  then show ?thesis using assms(2) SetPrimaryUserId_keeps [OF assms(1)] by (simp add: AddUserId_eq)
qed (use assms in \<open>simp add: AddUserId_eq\<close>)

lemma RevokeUserId_keeps:
  assumes "lib_ok L" "identity_inv L S" "reason_fits text"
  shows "identity_inv L (snd (RevokeUserId L R S pw i code text))"
proof (cases "mayUseIdentity S pw \<and> indexOk i (ownUserIds S) \<and> passwordMatches L S pw")
  case True
  let ?n = "nat i"
  have n: "?n < length (ownUserIds S)" and gen: "ownKeyGenerated S" using True by (auto simp: guard_defs)
  let ?uid = "ownUserIds S ! ?n"
  let ?sig = "ownSignature L S (drawTime R 0) 0x30
    (buildUserIdCertificationDocument (buildOwnMasterPubBody S) (uidText ?uid)) (buildRevocationReasonSubpacket code text)"
  have "uid_ok L S (?uid\<lparr>uidRevocationSigPacket := ?sig, uidIsRevoked := True\<rparr>)"
    using inv_uid_nth [OF assms(2) gen n] issued_sign [OF length_reasonSubpacket [OF assms(3)]]
    by (auto simp: uid_ok_def Let_def)
  then have "identity_inv L (S\<lparr>ownUserIds := (ownUserIds S)[?n := ?uid\<lparr>uidRevocationSigPacket := ?sig, uidIsRevoked := True\<rparr>]\<rparr>)"
    by (intro inv_update_uid [OF assms(2) gen n]) simp_all
  then show ?thesis using True assms(2) by (cases "drawSigns R 0") (simp_all add: RevokeUserId_def Let_def)
qed (use assms in \<open>auto simp: RevokeUserId_def\<close>)

lemma SetPrimaryUserId_laws:
  "\<not> authorised L S pw \<Longrightarrow> SetPrimaryUserId L R S pw i = (INVALID_ARGUMENT, S)"
  "fst (SetPrimaryUserId L R S pw i) \<noteq> NO_ERROR \<Longrightarrow> snd (SetPrimaryUserId L R S pw i) = S"
  "masterView (snd (SetPrimaryUserId L R S pw i)) = masterView S"
  by (auto simp: SetPrimaryUserId_def authorised_def Let_def simp del: signWithOwnMasterKey_eq)

interpretation setPrimary: atomic_operation SetPrimaryUserId "\<lambda>i. True"
  by unfold_locales (simp_all add: SetPrimaryUserId_laws SetPrimaryUserId_keeps)

text \<open>Once the gate is passed, the index is in range and the certificate is made, marking the
  primary user ID cannot fail.\<close>

lemma SetPrimaryUserId_status:
  "authorised L S pw \<Longrightarrow> indexOk i (ownUserIds S) \<Longrightarrow>
    fst (SetPrimaryUserId L R S pw i) = (if drawSigns R 0 then NO_ERROR else UNEXPECTED_ERROR)"
  by (simp add: SetPrimaryUserId_def authorised_def Let_def)

lemma withUserId_parts:
  "authorised L (withUserId L R S t) pw = authorised L S pw"
  "indexOk (int (length (ownUserIds S))) (ownUserIds (withUserId L R S t))"
  "masterView (withUserId L R S t) = masterView S"
  by (simp_all add: withUserId_def authorised_def mayUseIdentity_def passwordMatches_def indexOk_def)

lemma AddUserId_laws:
  "\<not> authorised L S pw \<Longrightarrow> AddUserId L R S pw userId p = (INVALID_ARGUMENT, S)"
  "masterView (snd (AddUserId L R S pw userId p)) = masterView S"
  by (simp_all add: AddUserId_eq SetPrimaryUserId_laws(3) withUserId_parts)

text \<open>The one operation that may leave something behind: the new user ID stays when it cannot be
  made primary.\<close>

lemma AddUserId_failure:
  assumes "AddUserId L R S pw userId p = (st, S')" "st \<noteq> NO_ERROR"
  shows "S' = S \<or> p \<and> authorised L S pw \<and> has_text userId \<and> st = UNEXPECTED_ERROR \<and> S' = withUserId L R S (the userId)"
proof (cases "authorised L S pw \<and> has_text userId \<and> drawSigns R 0 \<and> p")
  case True
  let ?later = "SetPrimaryUserId L (laterDraws R) (withUserId L R S (the userId)) pw (int (length (ownUserIds S)))"
  have eq: "?later = (st, S')" using assms(1) True by (simp add: AddUserId_eq)
  have "st = UNEXPECTED_ERROR"
    using SetPrimaryUserId_status [of L "withUserId L R S (the userId)" pw "int (length (ownUserIds S))" "laterDraws R"]
      True withUserId_parts(1) [of L R S "the userId" pw] withUserId_parts(2) [of S L R "the userId"] eq assms(2) by (auto split: if_splits)
  moreover have "S' = withUserId L R S (the userId)" using setPrimary.result_cases [OF eq assms(2)] .
  ultimately show ?thesis using True by simp
next
  case False
  with assms show ?thesis by (auto simp: AddUserId_eq split: if_splits)
qed

interpretation addUserId: identity_operation
  "\<lambda>L R S pw (userId, makePrimary). AddUserId L R S pw userId makePrimary" "\<lambda>x. True"
  by unfold_locales (simp_all add: AddUserId_laws AddUserId_keeps case_prod_unfold)

lemma RevokeUserId_laws:
  "\<not> authorised L S pw \<Longrightarrow> RevokeUserId L R S pw i code text = (INVALID_ARGUMENT, S)"
  "fst (RevokeUserId L R S pw i code text) \<noteq> NO_ERROR \<Longrightarrow> snd (RevokeUserId L R S pw i code text) = S"
  "masterView (snd (RevokeUserId L R S pw i code text)) = masterView S"
  by (auto simp: RevokeUserId_def authorised_def Let_def simp del: signWithOwnMasterKey_eq)

interpretation revokeUserId: atomic_operation
  "\<lambda>L R S pw (i, code, text). RevokeUserId L R S pw i code text" "\<lambda>(i, code, text). reason_fits text"
  by unfold_locales (simp_all add: RevokeUserId_laws RevokeUserId_keeps case_prod_unfold)

section \<open>Subkey operations\<close>

lemma draws_okD:
  assumes "draws_ok L R"
  shows "length (drawSalt R i) = 8" "length (drawIv R i) = 16"
    "rsa_sign_ok L (drawRsaKey R i)" "minEncodedSize (rsaModulus (drawRsaKey R i)) \<le> 8191"
    "ed_sign_ok L (drawSeed R i)"
  using assms by (simp_all add: draws_ok_def)

lemma minEncodedSize_bits: "minEncodedSize n \<le> 8191 \<Longrightarrow> bitCount n < 65536"
  by (simp add: minEncodedSize_def)

lemma freshSubkey_wf: "draws_ok L R \<Longrightarrow> subkey_wf S (freshSubkey L R S flags)"
  using minEncodedSize_bits by (auto simp: subkey_wf_def freshSubkey_def draws_ok_def rsaPublicOf_def newOwnSubkey_def)

lemma inv_update_subkey:
  assumes "identity_inv L S" "ownKeyGenerated S" "i < length (ownSubkeys S)" "subkey_ok L S k"
    and "mirrors S (ownSubkeys S ! i) \<Longrightarrow> mirrors S k"
  shows "identity_inv L (S\<lparr>ownSubkeys := (ownSubkeys S)[i := k]\<rparr>)"
proof -
  have "\<forall>x \<in> set ((ownSubkeys S)[i := k]). subkey_ok L S x"
    using assms(1,2,4) set_update_subset_insert [of "ownSubkeys S" i k] unfolding identity_inv_def by blast
  moreover have "mirrors S ((ownSubkeys S)[i := k] ! 0)"
    using assms by (cases i) (auto simp: identity_inv_def)
  ultimately show ?thesis using assms(1,2) by (simp add: identity_inv_def)
qed

lemma inv_subkey_nth: "identity_inv L S \<Longrightarrow> ownKeyGenerated S \<Longrightarrow> i < length (ownSubkeys S) \<Longrightarrow> subkey_ok L S (ownSubkeys S ! i)"
  by (auto simp: identity_inv_def)

lemma subkeyPubBody_frame [simp]:
  "subkeyPubBody S (k\<lparr>skBindingSigPacket := b\<rparr>) = subkeyPubBody S k"
  "subkeyPubBody S (k\<lparr>skExpirationSeconds := e\<rparr>) = subkeyPubBody S k"
  "subkeyPubBody S (k\<lparr>skRevocationSigPacket := b\<rparr>) = subkeyPubBody S k"
  "subkeyPubBody S (k\<lparr>skIsRevoked := r\<rparr>) = subkeyPubBody S k"
  "subkeyPubBody S (k\<lparr>skSecretPacketBody := b\<rparr>) = subkeyPubBody S k"
  "subkeyPubBody S (k\<lparr>skKeyId := b\<rparr>) = subkeyPubBody S k"
  "subkeyPubBody S (k\<lparr>skFingerprint := b\<rparr>) = subkeyPubBody S k"
  "subkeyPubBody S (k\<lparr>skKeyFlags := f\<rparr>) = subkeyPubBody S k"
  "subkey_wf S (k\<lparr>skBindingSigPacket := b\<rparr>) = subkey_wf S k"
  "subkey_wf S (k\<lparr>skExpirationSeconds := e\<rparr>) = subkey_wf S k"
  "subkey_wf S (k\<lparr>skRevocationSigPacket := b\<rparr>) = subkey_wf S k"
  "subkey_wf S (k\<lparr>skIsRevoked := r\<rparr>) = subkey_wf S k"
  "subkey_wf S (k\<lparr>skSecretPacketBody := b\<rparr>) = subkey_wf S k"
  "subkey_wf S (k\<lparr>skKeyId := b\<rparr>) = subkey_wf S k"
  "subkey_wf S (k\<lparr>skFingerprint := b\<rparr>) = subkey_wf S k"
  "subkey_wf S (k\<lparr>skKeyFlags := f\<rparr>) = subkey_wf S k"
  "subkeyCleartext L S (k\<lparr>skBindingSigPacket := b\<rparr>) = subkeyCleartext L S k"
  "subkeyCleartext L S (k\<lparr>skExpirationSeconds := e\<rparr>) = subkeyCleartext L S k"
  "subkeyCleartext L S (k\<lparr>skRevocationSigPacket := b\<rparr>) = subkeyCleartext L S k"
  "subkeyCleartext L S (k\<lparr>skIsRevoked := r\<rparr>) = subkeyCleartext L S k"
  "subkeyCleartext L S (k\<lparr>skSecretPacketBody := b\<rparr>) = subkeyCleartext L S k"
  "subkeyCleartext L S (k\<lparr>skKeyId := b\<rparr>) = subkeyCleartext L S k"
  "subkeyCleartext L S (k\<lparr>skFingerprint := b\<rparr>) = subkeyCleartext L S k"
  "subkeyCleartext L S (k\<lparr>skKeyFlags := f\<rparr>) = subkeyCleartext L S k"
  by (simp_all add: subkeyPubBody_def subkeyCleartext_def subkey_wf_def)

lemma mirrors_frame [simp]:
  "mirrors S (k\<lparr>skBindingSigPacket := b\<rparr>) = mirrors S k" "mirrors S (k\<lparr>skExpirationSeconds := e\<rparr>) = mirrors S k"
  "mirrors S (k\<lparr>skRevocationSigPacket := b\<rparr>) = mirrors S k" "mirrors S (k\<lparr>skIsRevoked := r\<rparr>) = mirrors S k"
  "mirrors S (k\<lparr>skSecretPacketBody := b\<rparr>) = mirrors S k"
  by (simp_all add: mirrors_def)

lemma RevokeSubkey_keeps:
  assumes "lib_ok L" "identity_inv L S" "reason_fits text"
  shows "identity_inv L (snd (RevokeSubkey L R S pw i code text))"
proof (cases "mayUseIdentity S pw \<and> indexOk i (ownSubkeys S) \<and> passwordMatches L S pw")
  case True
  let ?n = "nat i"
  have n: "?n < length (ownSubkeys S)" and gen: "ownKeyGenerated S" using True by (auto simp: guard_defs)
  let ?k = "ownSubkeys S ! ?n"
  let ?sig = "ownSignature L S (drawTime R 0) 0x28
    (buildSubkeyBindingDocument (buildOwnMasterPubBody S) (subkeyPubBody S ?k)) (buildRevocationReasonSubpacket code text)"
  have "subkey_ok L S (?k\<lparr>skRevocationSigPacket := ?sig, skIsRevoked := True\<rparr>)"
    using inv_subkey_nth [OF assms(2) gen n] issued_sign [OF length_reasonSubpacket [OF assms(3)]]
    by (auto simp: subkey_ok_def Let_def)
  then have "identity_inv L (S\<lparr>ownSubkeys := (ownSubkeys S)[?n := ?k\<lparr>skRevocationSigPacket := ?sig, skIsRevoked := True\<rparr>]\<rparr>)"
    by (intro inv_update_subkey [OF assms(2) gen n]) simp_all
  then show ?thesis using True assms(2)
    by (cases "drawSigns R 0") (simp_all add: RevokeSubkey_def Let_def buildOwnSubkeyPubBody_def)
qed (use assms in \<open>auto simp: RevokeSubkey_def\<close>)

lemma secret_ok_encrypt:
  assumes "lib_ok L" "draws_ok L R" "sha256 L pw = passwordCheckHash S"
  shows "secret_ok L S pub clear (encryptSecretKeyMaterial L (drawSalt R i) (drawIv R i) pub clear pw)"
    and "encryptSecretKeyMaterial L (drawSalt R i) (drawIv R i) pub clear pw \<noteq> []"
  using openSecretKeyMaterial_encrypt(1) [of L "drawSalt R i" "drawIv R i" pw pub clear]
    openSecretKeyMaterial_encrypt(2) [of L "drawSalt R i" "drawIv R i" pub clear pw] assms(1,3)
    draws_okD(1,2) [OF assms(2), of i]
  by (auto simp: secret_ok_def lib_ok_def)

text \<open>The subkey that a successful \<open>AddSubkey\<close> appends.\<close>

definition addedSubkey :: "crypto \<Rightarrow> draws \<Rightarrow> engine \<Rightarrow> bytes \<Rightarrow> byte \<Rightarrow> 32 word \<Rightarrow> own_subkey" where
  "addedSubkey L R S pw flags e =
     (let k = freshSubkey L R S flags; pub = subkeyPubBody S k; fp = computeFingerprintAndKeyId L pub
      in k\<lparr>skBindingSigPacket := ownSignature L S (drawTime R 1) 0x18
             (buildSubkeyBindingDocument (buildOwnMasterPubBody S) pub) (flagsAndExpiration flags e),
           skSecretPacketBody := encryptSecretKeyMaterial L (drawSalt R 0) (drawIv R 0) pub (subkeyCleartext L S k) pw,
           skKeyId := snd fp, skFingerprint := fst fp, skExpirationSeconds := e, skKeyFlags := flags, skIsRevoked := False\<rparr>)"

lemma AddSubkey_cases:
  obtains "snd (AddSubkey L R S pw flags e) = S" "fst (AddSubkey L R S pw flags e) \<noteq> NO_ERROR"
  | "authorised L S pw" "fst (AddSubkey L R S pw flags e) = NO_ERROR"
    "snd (AddSubkey L R S pw flags e) = S\<lparr>ownSubkeys := ownSubkeys S @ [addedSubkey L R S (the pw) flags e]\<rparr>"
proof (cases "authorised L S pw
    \<and> \<not> (keyAlgorithm S = PGP_KEY_ALGORITHM_ED25519_X25519 \<and> flags \<noteq> 0x0C \<and> flags \<noteq> 0x02)
    \<and> \<not> (keyAlgorithm S = PGP_KEY_ALGORITHM_RSA \<and> \<not> rsaBitsOk (rsaKeyBits S))
    \<and> encryptSecretKeyMaterial L (drawSalt R 0) (drawIv R 0) (subkeyPubBody S (freshSubkey L R S flags))
        (subkeyCleartext L S (freshSubkey L R S flags)) (the pw) \<noteq> [] \<and> drawSigns R 0")
  case True
  then have "AddSubkey L R S pw flags e = (NO_ERROR, S\<lparr>ownSubkeys := ownSubkeys S @ [addedSubkey L R S (the pw) flags e]\<rparr>)"
    by (simp add: AddSubkey_def authorised_def Let_def addedSubkey_def case_prod_unfold)
  with True that(2) show ?thesis by simp
next
  case False
  then have "fst (AddSubkey L R S pw flags e) \<noteq> NO_ERROR \<and> snd (AddSubkey L R S pw flags e) = S"
    by (auto simp: AddSubkey_def authorised_def Let_def case_prod_unfold)
  with that(1) show ?thesis by blast
qed

lemma authorisedD: "authorised L S pw \<Longrightarrow> ownKeyGenerated S \<and> sha256 L (the pw) = passwordCheckHash S"
  by (auto simp: authorised_def mayUseIdentity_def passwordMatches_def checkPasswordHash_def)

lemma addedSubkey_ok:
  assumes "lib_ok L" "draws_ok L R" "identity_inv L S" "ownKeyGenerated S" "sha256 L pw = passwordCheckHash S"
  shows "subkey_ok L S (addedSubkey L R S pw flags e)"
proof -
  have "skRevocationSigPacket (freshSubkey L R S flags) = []" by (simp add: freshSubkey_def newOwnSubkey_def)
  then show ?thesis
    using secret_ok_encrypt(1) [OF assms(1,2,5)] freshSubkey_wf [OF assms(2)]
    by (auto simp: subkey_ok_def Let_def addedSubkey_def)
qed

lemma AddSubkey_keeps:
  assumes "lib_ok L" "draws_ok L R" "identity_inv L S"
  shows "identity_inv L (snd (AddSubkey L R S pw flags e))"
proof (cases rule: AddSubkey_cases [of L R S pw flags e])
  case 2
  then have gen: "ownKeyGenerated S" and pw: "sha256 L (the pw) = passwordCheckHash S"
    using authorisedD by blast+
  show ?thesis unfolding 2(3)
    using addedSubkey_ok [OF assms gen pw, of flags e] assms(3) gen by (auto simp: identity_inv_def nth_append)
qed (use assms(3) in simp)

lemma AddSubkey_laws:
  "\<not> authorised L S pw \<Longrightarrow> AddSubkey L R S pw flags e = (INVALID_ARGUMENT, S)"
  "fst (AddSubkey L R S pw flags e) \<noteq> NO_ERROR \<Longrightarrow> snd (AddSubkey L R S pw flags e) = S"
  "masterView (snd (AddSubkey L R S pw flags e)) = masterView S"
proof -
  show "\<not> authorised L S pw \<Longrightarrow> AddSubkey L R S pw flags e = (INVALID_ARGUMENT, S)"
    by (auto simp: AddSubkey_def authorised_def)
  show "fst (AddSubkey L R S pw flags e) \<noteq> NO_ERROR \<Longrightarrow> snd (AddSubkey L R S pw flags e) = S"
    by (cases rule: AddSubkey_cases [of L R S pw flags e]) auto
  show "masterView (snd (AddSubkey L R S pw flags e)) = masterView S"
    by (cases rule: AddSubkey_cases [of L R S pw flags e]) auto
qed

interpretation addSubkey: atomic_operation "\<lambda>L R S pw (flags, e). AddSubkey L R S pw flags e" "\<lambda>x. True"
  by unfold_locales (simp_all add: AddSubkey_laws AddSubkey_keeps case_prod_unfold)

lemma RevokeSubkey_laws:
  "\<not> authorised L S pw \<Longrightarrow> RevokeSubkey L R S pw i code text = (INVALID_ARGUMENT, S)"
  "fst (RevokeSubkey L R S pw i code text) \<noteq> NO_ERROR \<Longrightarrow> snd (RevokeSubkey L R S pw i code text) = S"
  "masterView (snd (RevokeSubkey L R S pw i code text)) = masterView S"
  by (auto simp: RevokeSubkey_def authorised_def Let_def simp del: signWithOwnMasterKey_eq)

interpretation revokeSubkey: atomic_operation
  "\<lambda>L R S pw (i, code, text). RevokeSubkey L R S pw i code text" "\<lambda>(i, code, text). reason_fits text"
  by unfold_locales (simp_all add: RevokeSubkey_laws RevokeSubkey_keeps case_prod_unfold)

section \<open>Expiration\<close>

lemma firstPrimary_Some: "firstPrimary k uids = Some i \<Longrightarrow> k \<le> i \<and> i - k < length uids \<and> uidIsPrimary (uids ! (i - k))"
proof (induction k uids rule: firstPrimary.induct)
  case (2 k uid uids)
  show ?case
  proof (cases "uidIsPrimary uid")
    case False
    with 2 have "k + 1 \<le> i \<and> i - (k + 1) < length uids \<and> uidIsPrimary (uids ! (i - (k + 1)))" by simp
    moreover then obtain j where "i = k + 1 + j" using le_iff_add by blast
    ultimately show ?thesis by simp
  qed (use 2 in simp)
qed simp

lemma firstPrimary_None: "firstPrimary k uids = None \<longleftrightarrow> (\<forall>u \<in> set uids. \<not> uidIsPrimary u)"
  by (induction k uids rule: firstPrimary.induct) auto

text \<open>Under the invariant the primary user ID is found, and it is the marked one.\<close>

lemma inv_firstPrimary:
  assumes "identity_inv L S" "ownKeyGenerated S"
  obtains i where "firstPrimary 0 (ownUserIds S) = Some i" "i < length (ownUserIds S)" "uidIsPrimary (ownUserIds S ! i)"
proof (cases "firstPrimary 0 (ownUserIds S)")
  case None
  then show ?thesis using assms by (auto simp: firstPrimary_None identity_inv_def one_primary_def)
next
  case (Some i)
  then show ?thesis using that firstPrimary_Some [OF Some] by simp
qed

lemma SetMasterExpiration_laws:
  "fst (SetMasterExpiration L R S e) \<noteq> NO_ERROR \<Longrightarrow> snd (SetMasterExpiration L R S e) = S"
  "masterView (snd (SetMasterExpiration L R S e)) = masterView S"
  by (auto simp: SetMasterExpiration_def Let_def split: option.split simp del: signWithOwnMasterKey_eq)

lemma SetMasterExpiration_keeps:
  assumes "lib_ok L" "identity_inv L S" "ownKeyGenerated S"
  shows "identity_inv L (snd (SetMasterExpiration L R S e))
    \<and> (drawSigns R 0 \<longrightarrow> fst (SetMasterExpiration L R S e) = NO_ERROR
        \<and> keyExpirationSeconds (snd (SetMasterExpiration L R S e)) = e)"
proof -
  obtain i where i: "firstPrimary 0 (ownUserIds S) = Some i" "i < length (ownUserIds S)" "uidIsPrimary (ownUserIds S ! i)"
    using inv_firstPrimary [OF assms(2,3)] .
  define cert where "cert = ownSignature L S (drawTime R 0) 0x13
    (buildUserIdCertificationDocument (buildOwnMasterPubBody S) (uidText (ownUserIds S ! i)))
    (appendAll (flagsAndExpiration 0x03 e) (buildPrimaryUserIdSubpacket True))"
  let ?S = "S\<lparr>ownUserIds := (ownUserIds S)[i := (ownUserIds S ! i)\<lparr>uidCertSigPacket := cert\<rparr>]\<rparr>"
  have "uid_ok L S ((ownUserIds S ! i)\<lparr>uidCertSigPacket := cert\<rparr>)"
    by (rule uid_ok_cert [OF _ _ cert_def]) (use inv_uid_nth [OF assms(2,3) i(2)] cert_extra_short in auto)
  then have "identity_inv L ?S" by (intro inv_update_uid [OF assms(2,3) i(2)]) simp_all
  then have "identity_inv L (?S\<lparr>keyExpirationSeconds := e\<rparr>)" using assms(3) by (simp add: identity_inv_def)
  then show ?thesis using i assms(2)
    by (cases "drawSigns R 0") (simp_all add: SetMasterExpiration_def Let_def cert_def)
qed

lemma SetKeyExpiration_laws:
  "\<not> authorised L S pw \<Longrightarrow> SetKeyExpiration L R S pw i e = (INVALID_ARGUMENT, S)"
  "fst (SetKeyExpiration L R S pw i e) \<noteq> NO_ERROR \<Longrightarrow> snd (SetKeyExpiration L R S pw i e) = S"
  "masterView (snd (SetKeyExpiration L R S pw i e)) = masterView S"
  by (auto simp: SetKeyExpiration_def authorised_def Let_def SetMasterExpiration_laws simp del: signWithOwnMasterKey_eq)

lemma SetKeyExpiration_keeps:
  assumes "lib_ok L" "identity_inv L S"
  shows "identity_inv L (snd (SetKeyExpiration L R S pw i e))"
proof (cases "authorised L S pw \<and> i \<noteq> -1 \<and> indexOk i (ownSubkeys S)")
  case True
  let ?n = "nat i"
  have n: "?n < length (ownSubkeys S)" and gen: "ownKeyGenerated S" using True by (auto simp: guard_defs)
  let ?k = "ownSubkeys S ! ?n"
  let ?sig = "ownSignature L S (drawTime R 0) 0x18
    (buildSubkeyBindingDocument (buildOwnMasterPubBody S) (subkeyPubBody S ?k)) (flagsAndExpiration (skKeyFlags ?k) e)"
  have "subkey_ok L S (?k\<lparr>skBindingSigPacket := ?sig, skExpirationSeconds := e\<rparr>)"
    using inv_subkey_nth [OF assms(2) gen n] by (auto simp: subkey_ok_def Let_def)
  then have "identity_inv L (S\<lparr>ownSubkeys := (ownSubkeys S)[?n := ?k\<lparr>skBindingSigPacket := ?sig, skExpirationSeconds := e\<rparr>]\<rparr>)"
    by (intro inv_update_subkey [OF assms(2) gen n]) simp_all
  then show ?thesis using True assms(2)
    by (cases "drawSigns R 0") (simp_all add: SetKeyExpiration_def authorised_def Let_def buildOwnSubkeyPubBody_def)
next
  case False
  show ?thesis
  proof (cases "authorised L S pw \<and> i = -1")
    case True
    then show ?thesis
      using SetMasterExpiration_keeps [OF assms] authorisedD [of L S pw] by (simp add: SetKeyExpiration_def authorised_def)
  next
    case not_master: False
    with False assms(2) show ?thesis by (auto simp: SetKeyExpiration_def authorised_def)
  qed
qed

interpretation setExpiration: atomic_operation "\<lambda>L R S pw (i, e). SetKeyExpiration L R S pw i e" "\<lambda>x. True"
  by unfold_locales (simp_all add: SetKeyExpiration_laws SetKeyExpiration_keeps case_prod_unfold)

section \<open>Password change\<close>

text \<open>The state after a successful change.\<close>

definition reprotected :: "crypto \<Rightarrow> draws \<Rightarrow> engine \<Rightarrow> bytes \<Rightarrow> engine" where
  "reprotected L R S new = S\<lparr>ownMasterSecretPacketBody := encryptSecretKeyMaterial L (drawSalt R 0) (drawIv R 0)
       (buildOwnMasterPubBody S) (masterCleartext L S) new,
     ownSubkeys := map2 (\<lambda>k body. k\<lparr>skSecretPacketBody := body\<rparr>) (ownSubkeys S)
       (map (reencryptSubkey L R S new) [0..<length (ownSubkeys S)]),
     passwordCheckHash := sha256 L new\<rparr>"

lemma ChangePassword_success:
  assumes "lib_ok L" "draws_ok L R" "authorised L S pw" "has_text new"
  shows "ChangePassword L R S pw new = (NO_ERROR, reprotected L R S (the new))"
proof -
  have enc: "encryptSecretKeyMaterial L (drawSalt R i) (drawIv R i) pub clear p \<noteq> []" for i pub clear p
    using openSecretKeyMaterial_encrypt(2) draws_okD(1,2) [OF assms(2)] assms(1) by (simp add: lib_ok_def)
  then have "[] \<notin> reencryptSubkey L R S (the new) ` I" for I
    by (auto simp: reencryptSubkey_def) metis
  then show ?thesis
    using assms(3,4) enc
    by (simp add: ChangePassword_def authorised_def mayUseIdentity_def Let_def reprotected_def)
qed

lemma ChangePassword_laws:
  "\<not> authorised L S pw \<Longrightarrow> ChangePassword L R S pw new = (INVALID_ARGUMENT, S)"
  "fst (ChangePassword L R S pw new) \<noteq> NO_ERROR \<Longrightarrow> snd (ChangePassword L R S pw new) = S"
  "masterView (snd (ChangePassword L R S pw new)) = masterView S"
  by (auto simp: ChangePassword_def authorised_def mayUseIdentity_def Let_def)

lemma reprotected_inv:
  assumes "lib_ok L" "draws_ok L R" "identity_inv L S" "ownKeyGenerated S"
  shows "identity_inv L (reprotected L R S new)"
proof -
  let ?S = "reprotected L R S new"
  have hash: "sha256 L new = passwordCheckHash ?S" by (simp add: reprotected_def)
  have same: "buildOwnMasterPubBody ?S = buildOwnMasterPubBody S" "masterCleartext L ?S = masterCleartext L S"
    "subkeyPubBody ?S = subkeyPubBody S" "subkeyCleartext L ?S = subkeyCleartext L S"
    "ownSignature L ?S = ownSignature L S" "issued L ?S = issued L S" "subkey_wf ?S = subkey_wf S" "master_ok L ?S = master_ok L S" "mirrors ?S = mirrors S"
    "uid_ok L ?S = uid_ok L S" "ownUserIds ?S = ownUserIds S" "ownKeyGenerated ?S = ownKeyGenerated S"
    by (simp_all add: reprotected_def fun_eq_iff)
  have subkeys: "length (ownSubkeys ?S) = length (ownSubkeys S)"
    "\<And>i. i < length (ownSubkeys S) \<Longrightarrow> ownSubkeys ?S ! i = (ownSubkeys S ! i)\<lparr>skSecretPacketBody := reencryptSubkey L R S new i\<rparr>"
    by (simp_all add: reprotected_def)
  have "subkey_ok L ?S (ownSubkeys ?S ! i)" if i: "i < length (ownSubkeys S)" for i
    using inv_subkey_nth [OF assms(3,4) i] secret_ok_encrypt(1) [OF assms(1,2) hash]
    by (auto simp: subkeys(2) [OF i] subkey_ok_def same Let_def reencryptSubkey_def buildOwnSubkeyPubBody_def)
  then have "\<forall>k \<in> set (ownSubkeys ?S). subkey_ok L ?S k"
    using subkeys(1) by (auto simp: in_set_conv_nth)
  moreover have "secret_ok L ?S (buildOwnMasterPubBody S) (masterCleartext L S) (ownMasterSecretPacketBody ?S)"
    using secret_ok_encrypt(1) [OF assms(1,2) hash] by (simp add: reprotected_def)
  moreover have "ownSubkeys S \<noteq> []" "mirrors S (ownSubkeys ?S ! 0)"
    using assms(3,4) subkeys(2) [of 0] by (auto simp: identity_inv_def)
  ultimately show ?thesis
    using assms(3,4) subkeys(1) by (auto simp: identity_inv_def same)
qed

lemma ChangePassword_keeps:
  assumes "lib_ok L" "draws_ok L R" "identity_inv L S"
  shows "identity_inv L (snd (ChangePassword L R S pw new))"
proof (cases "authorised L S pw \<and> has_text new")
  case True
  then show ?thesis
    using ChangePassword_success [OF assms(1,2)] reprotected_inv [OF assms] authorisedD by fastforce
next
  case False
  then have "snd (ChangePassword L R S pw new) = S"
    by (auto simp: ChangePassword_def authorised_def mayUseIdentity_def)
  with assms(3) show ?thesis by simp
qed

interpretation changePassword: atomic_operation ChangePassword "\<lambda>x. True"
  by unfold_locales (simp_all add: ChangePassword_laws ChangePassword_keeps)


section \<open>Generation\<close>

definition generatedBy :: "crypto \<Rightarrow> draws \<Rightarrow> engine \<Rightarrow> bytes \<Rightarrow> bytes \<Rightarrow> 32 word \<Rightarrow> generated" where
  "generatedBy L R S uid pw e =
     (if keyAlgorithm S = PGP_KEY_ALGORITHM_RSA
      then generateRsa L R uid pw (flagsAndExpiration 0x03 e) (flagsAndExpiration 0x0C e)
      else generateEd25519 L R uid pw (flagsAndExpiration 0x03 e) (flagsAndExpiration 0x0C e))"

definition newborn :: "crypto \<Rightarrow> draws \<Rightarrow> engine \<Rightarrow> bytes \<Rightarrow> bytes \<Rightarrow> 32 word \<Rightarrow> engine" where
  "newborn L R S uid pw e = installIdentity L R S uid pw e (generatedBy L R S uid pw e)"

text \<open>Both signatures of the new identity are made.\<close>

definition bothSigned :: "draws \<Rightarrow> bool" where
  "bothSigned R \<longleftrightarrow> drawSigns R 0 \<and> drawSigns R 1"

lemma GenerateKeyPair_cases:
  assumes "lib_ok L" "draws_ok L R"
  shows "GenerateKeyPair L R S uid pw e =
    (if \<not> (has_text uid \<and> has_text pw \<and> (keyAlgorithm S = PGP_KEY_ALGORITHM_RSA \<longrightarrow> rsaBitsOk (rsaKeyBits S)))
     then (INVALID_ARGUMENT, S)
     else if bothSigned R then (NO_ERROR, newborn L R S (the uid) (the pw) e)
     else (UNEXPECTED_ERROR, S))"
proof -
  have "encryptSecretKeyMaterial L (drawSalt R i) (drawIv R i) pub clear p \<noteq> []" for i pub clear p
    using openSecretKeyMaterial_encrypt(2) draws_okD(1,2) [OF assms(2)] assms(1) by (simp add: lib_ok_def)
  then show ?thesis
    by (auto simp: GenerateKeyPair_def newborn_def generatedBy_def generateRsa_def generateEd25519_def Let_def
        buildSignaturePacket_def buildEd25519SignaturePacket_def caught_def bothSigned_def)
qed

lemmas install_defs = newborn_def installIdentity_def Let_def

lemma newborn_shape:
  shows "buildOwnMasterPubBody (newborn L R S uid pw e) = gMasterPubBody (generatedBy L R S uid pw e)"
    and "ownSubkeys (newborn L R S uid pw e) = [k] \<Longrightarrow>
      subkeyPubBody (newborn L R S uid pw e) k = gSubkeyPubBody (generatedBy L R S uid pw e)"
  by (auto simp: install_defs buildOwnMasterPubBody_def subkeyPubBody_def generatedBy_def generateRsa_def
      generateEd25519_def rsaPublicOf_def newOwnSubkey_def)

lemma newborn_master_ok: "draws_ok L R \<Longrightarrow> master_ok L (newborn L R S uid pw e)"
  by (simp add: master_ok_def newborn_shape(1)) (simp add: install_defs draws_ok_def)

lemma newborn_signatures:
  assumes "bothSigned R"
  shows "gCertSig (generatedBy L R S uid pw e) = ownSignature L (newborn L R S uid pw e) (drawTime R 1) 0x13
      (buildUserIdCertificationDocument (gMasterPubBody (generatedBy L R S uid pw e)) uid) (flagsAndExpiration 0x03 e)"
  "gBindSig (generatedBy L R S uid pw e) = ownSignature L (newborn L R S uid pw e) (drawTime R 2) 0x18
      (buildSubkeyBindingDocument (gMasterPubBody (generatedBy L R S uid pw e)) (gSubkeyPubBody (generatedBy L R S uid pw e)))
      (flagsAndExpiration 0x0C e)"
  using assms
  by (simp add: ownSignature_def generatedBy_def generateRsa_def generateEd25519_def Let_def caught_def bothSigned_def,
      simp add: install_defs generatedBy_def generateRsa_def generateEd25519_def)+

lemma newborn_secrets:
  "ownMasterSecretPacketBody (newborn L R S uid pw e) = encryptSecretKeyMaterial L (drawSalt R 0) (drawIv R 0)
     (gMasterPubBody (generatedBy L R S uid pw e)) (masterCleartext L (newborn L R S uid pw e)) pw"
  "ownSubkeys (newborn L R S uid pw e) = [k] \<Longrightarrow> skSecretPacketBody k = encryptSecretKeyMaterial L (drawSalt R 1) (drawIv R 1)
     (gSubkeyPubBody (generatedBy L R S uid pw e)) (subkeyCleartext L (newborn L R S uid pw e) k) pw"
  by (auto simp: install_defs masterCleartext_def subkeyCleartext_def generatedBy_def generateRsa_def
      generateEd25519_def newOwnSubkey_def)

lemma newborn_inv:
  assumes "lib_ok L" "draws_ok L R" "bothSigned R"
  shows "identity_inv L (newborn L R S uid pw e)" and "ownKeyGenerated (newborn L R S uid pw e)"
proof -
  let ?S = "newborn L R S uid pw e" and ?g = "generatedBy L R S uid pw e"
  have hash: "sha256 L pw = passwordCheckHash ?S" by (simp add: install_defs)
  note master = newborn_master_ok [OF assms(2), of S uid pw e]
  obtain u where u: "ownUserIds ?S = [u]" "uidText u = uid" "uidCertSigPacket u = gCertSig ?g" "uidIsPrimary u"
    "\<not> uidIsRevoked u" "uidRevocationSigPacket u = []"
    by (simp add: install_defs newOwnUserId_def)
  have "uid_ok L ?S u"
    using u issued_sign [OF cert_extra_short(1)]
    by (simp add: uid_ok_def Let_def newborn_shape(1) newborn_signatures(1) [OF assms(3)])
  obtain k where k: "ownSubkeys ?S = [k]" "skBindingSigPacket k = gBindSig ?g" "\<not> skIsRevoked k" "skRevocationSigPacket k = []"
    "(skFingerprint k, skKeyId k) = computeFingerprintAndKeyId L (gSubkeyPubBody ?g)" "mirrors ?S k"
    "skKeyFlags k = 0x0C" "skExpirationSeconds k = e" "subkey_wf ?S k"
    using minEncodedSize_bits assms(2)
    by (simp add: install_defs newOwnSubkey_def mirrors_def subkey_wf_def draws_ok_def rsaPublicOf_def)
  have "subkey_ok L ?S k"
    using k secret_ok_encrypt(1) [OF assms(1,2) hash]
    by (auto simp: subkey_ok_def Let_def newborn_shape newborn_signatures(2) [OF assms(3)] newborn_secrets(2))
  moreover have "one_primary [u]" using u(4) by (auto simp: one_primary_def)
  ultimately show "identity_inv L ?S"
    using \<open>uid_ok L ?S u\<close> u(1) k(1,6) master secret_ok_encrypt(1) [OF assms(1,2) hash]
    by (simp add: identity_inv_def newborn_shape(1) newborn_secrets(1))
  show "ownKeyGenerated ?S" by (simp add: install_defs)
qed

lemma GenerateKeyPair_keeps:
  "lib_ok L \<Longrightarrow> draws_ok L R \<Longrightarrow> identity_inv L S \<Longrightarrow> identity_inv L (snd (GenerateKeyPair L R S uid pw e))"
  by (simp add: GenerateKeyPair_cases newborn_inv)

end
