(* ===== verification/Armor.thy ===== *)
theory Armor
  imports Codec
begin

unbundle bit_operations_syntax

text \<open>
  ASCII armor of src/src/Pgp/PgpEngine.cpp (RFC 4880 section 6): the CRC-24 checksum, Radix-64
  and the armored block. Text is a list of single-byte characters; \<open>std::string::npos\<close> is
  \<open>None\<close>. The lemmas lead to the two statements that matter: decoding inverts encoding, and a
  payload that does not match its checksum line is refused.
\<close>

section \<open>CRC-24\<close>

definition crc24Bit :: "32 word \<Rightarrow> 32 word" where
  "crc24Bit crc = (let crc = push_bit 1 crc in if crc AND 0x1000000 \<noteq> 0 then crc XOR 0x1864CFB else crc)"

definition crc24Byte :: "32 word \<Rightarrow> byte \<Rightarrow> 32 word" where
  "crc24Byte crc b = (crc24Bit ^^ 8) (crc XOR push_bit 16 (ucast b))"

definition crc24 :: "bytes \<Rightarrow> 32 word" where
  "crc24 data = foldl crc24Byte 0xB704CE data AND 0xFFFFFF"

section \<open>Radix-64\<close>

definition alphabet :: string where
  "alphabet = ''ABCDEFGHIJKLMNOPQRSTUVWXYZabcdefghijklmnopqrstuvwxyz0123456789+/''"

fun base64Encode :: "bytes \<Rightarrow> string" where
  "base64Encode (a # b # c # rest) =
     (let n = push_bit 16 (unat a) OR push_bit 8 (unat b) OR unat c
      in [alphabet ! (drop_bit 18 n AND 0x3F), alphabet ! (drop_bit 12 n AND 0x3F),
          alphabet ! (drop_bit 6 n AND 0x3F), alphabet ! (n AND 0x3F)] @ base64Encode rest)"
| "base64Encode [a, b] =
     (let n = push_bit 16 (unat a) OR push_bit 8 (unat b)
      in [alphabet ! (drop_bit 18 n AND 0x3F), alphabet ! (drop_bit 12 n AND 0x3F),
          alphabet ! (drop_bit 6 n AND 0x3F), CHR ''='' ])"
| "base64Encode [a] =
     (let n = push_bit 16 (unat a)
      in [alphabet ! (drop_bit 18 n AND 0x3F), alphabet ! (drop_bit 12 n AND 0x3F), CHR ''='', CHR ''='' ])"
| "base64Encode [] = []"

text \<open>The digits of a text: stop at the first \<open>=\<close>, skip what is not in the alphabet.\<close>

fun base64Digits :: "string \<Rightarrow> nat list" where
  "base64Digits [] = []"
| "base64Digits (c # cs) =
     (if c = CHR ''='' then []
      else case map_of (zip alphabet [0..<64]) c of None \<Rightarrow> base64Digits cs | Some v \<Rightarrow> v # base64Digits cs)"

fun base64Bytes :: "nat list \<Rightarrow> bytes" where
  "base64Bytes (d0 # d1 # d2 # d3 # rest) =
     (let n = push_bit 18 d0 OR push_bit 12 d1 OR push_bit 6 d2 OR d3
      in [word_of_nat (drop_bit 16 n AND 0xFF), word_of_nat (drop_bit 8 n AND 0xFF), word_of_nat (n AND 0xFF)]
         @ base64Bytes rest)"
| "base64Bytes [d0, d1, d2] =
     (let n = push_bit 18 d0 OR push_bit 12 d1 OR push_bit 6 d2
      in [word_of_nat (drop_bit 16 n AND 0xFF), word_of_nat (drop_bit 8 n AND 0xFF)])"
| "base64Bytes [d0, d1] =
     (let n = push_bit 18 d0 OR push_bit 12 d1 in [word_of_nat (drop_bit 16 n AND 0xFF)])"
| "base64Bytes _ = []"

definition base64Decode :: "string \<Rightarrow> bytes cpp" where
  "base64Decode text = yes (base64Bytes (base64Digits text))"

section \<open>Searching and splitting text\<close>

abbreviation CR :: char where "CR \<equiv> CHR 0x0D"
abbreviation LF :: char where "LF \<equiv> CHR 0x0A"

fun find_at :: "string \<Rightarrow> nat \<Rightarrow> string \<Rightarrow> nat option" where
  "find_at pat i [] = None"
| "find_at pat i (c # cs) = (if take (length pat) (c # cs) = pat then Some i else find_at pat (i + 1) cs)"

definition text_find :: "string \<Rightarrow> string \<Rightarrow> nat \<Rightarrow> nat option" where
  "text_find text pat from = find_at pat from (drop from text)"

fun armorLines :: "string \<Rightarrow> string \<Rightarrow> string list" where
  "armorLines current [] = (if current = [] then [] else [current])"
| "armorLines current (c # cs) =
     (if c = LF then current # armorLines [] cs
      else if c = CR then armorLines current cs
      else armorLines (current @ [c]) cs)"

fun armorFields :: "string list \<Rightarrow> string \<Rightarrow> string \<Rightarrow> string \<times> string" where
  "armorFields [] dataB64 crcB64 = (dataB64, crcB64)"
| "armorFields (l # ls) dataB64 crcB64 =
     (if l = [] then armorFields ls dataB64 crcB64
      else if hd l = CHR ''='' \<and> crcB64 = [] then armorFields ls dataB64 (tl l)
      else armorFields ls (dataB64 @ l) crcB64)"

section \<open>Armored blocks\<close>

function armorBody :: "string \<Rightarrow> string" where
  "armorBody b64 = (if b64 = [] then [] else take 64 b64 @ [CR, LF] @ armorBody (drop 64 b64))"
  by pat_completeness auto

termination
  by (relation "measure length") auto

declare armorBody.simps [simp del]

definition crcBytes :: "32 word \<Rightarrow> bytes" where
  "crcBytes crc = [ucast (drop_bit 16 crc AND 0xFF), ucast (drop_bit 8 crc AND 0xFF), ucast (crc AND 0xFF)]"

definition dashes :: string where "dashes = ''-----''"
definition beginMark :: string where "beginMark = ''-----BEGIN ''"
definition endMark :: "string \<Rightarrow> string" where "endMark label = ''-----END '' @ label @ dashes"

definition armorEncode :: "string \<Rightarrow> bytes \<Rightarrow> string" where
  "armorEncode label data =
     beginMark @ label @ dashes @ [CR, LF] @
     ''Version: HashCryptoLib CPgpEngine'' @ [CR, LF, CR, LF] @
     armorBody (base64Encode data) @
     ''='' @ base64Encode (crcBytes (crc24 data)) @ [CR, LF] @
     endMark label @ [CR, LF]"

text \<open>Where the payload starts: after the first blank line, CRLF or bare LF.\<close>

definition armorDataStart :: "string \<Rightarrow> nat \<Rightarrow> nat option" where
  "armorDataStart text headerAreaStart =
     (case (text_find text [CR, LF, CR, LF] headerAreaStart, text_find text [LF, LF] headerAreaStart) of
        (Some crlf, None) \<Rightarrow> Some (crlf + 4)
      | (Some crlf, Some lf) \<Rightarrow> Some (if crlf \<le> lf then crlf + 4 else lf + 2)
      | (None, Some lf) \<Rightarrow> Some (lf + 2)
      | (None, None) \<Rightarrow> None)"

definition armorChecksumOk :: "string \<Rightarrow> bytes \<Rightarrow> bool cpp" where
  "armorChecksumOk crcB64 data =
     (if crcB64 = [] then yes True
      else on_true (base64Decode crcB64) (\<lambda>bs.
        if length bs = 3 then
          let storedCrc = push_bit 16 (ucast (bs ! 0)) OR push_bit 8 (ucast (bs ! 1)) OR ucast (bs ! 2)
          in yes (crc24 data = storedCrc)
        else yes True))"

definition armorDecode :: "string \<Rightarrow> (string \<times> bytes) cpp" where
  "armorDecode text =
     (case text_find text beginMark 0 of None \<Rightarrow> no | Some beginPos \<Rightarrow>
      let labelStart = beginPos + 11 in
      case text_find text dashes labelStart of None \<Rightarrow> no | Some labelEnd \<Rightarrow>
      let blockType = take (labelEnd - labelStart) (drop labelStart text) in
      case armorDataStart text (labelEnd + 5) of None \<Rightarrow> no | Some dataStart \<Rightarrow>
      case text_find text (endMark blockType) dataStart of None \<Rightarrow> no | Some endPos \<Rightarrow>
      let (dataB64, crcB64) = armorFields (armorLines [] (take (endPos - dataStart) (drop dataStart text))) [] []
      in on_true (base64Decode dataB64) (\<lambda>data.
         on_true (armorChecksumOk crcB64 data) (\<lambda>ok. if ok then yes (blockType, data) else no)))"

section \<open>The checksum separates payloads\<close>

text \<open>The register holds 24 bits between steps, and each step can be undone.\<close>

definition is24 :: "32 word \<Rightarrow> bool" where
  "is24 c = (\<forall>i. 24 \<le> i \<longrightarrow> \<not> bit c i)"

lemma bit_poly: "bit (0x1864CFB :: 32 word) 0" "bit (0x1864CFB :: 32 word) 24"
  "25 \<le> i \<Longrightarrow> \<not> bit (0x1864CFB :: 32 word) i"
proof -
  have "(0x1864CFB :: 32 word) = take_bit 25 0x1864CFB" by simp
  then show "25 \<le> i \<Longrightarrow> \<not> bit (0x1864CFB :: 32 word) i"
    by (metis bit_take_bit_iff not_le)
qed simp_all

lemma and_bit24: "c AND 0x1000000 \<noteq> 0 \<longleftrightarrow> bit c 24" for c :: "32 word"
proof -
  have "(0x1000000 :: 32 word) = push_bit 24 1" by simp
  then show ?thesis
    by (simp add: bit_iff_and_push_bit_not_eq_0)
qed

lemma bit_crc24Bit:
  "i < 32 \<Longrightarrow> bit (crc24Bit c) i \<longleftrightarrow> ((0 < i \<and> bit c (i - 1)) \<noteq> (bit c 23 \<and> bit (0x1864CFB :: 32 word) i))"
proof -
  assume i: "i < 32"
  define x where "x = push_bit 1 c"
  have bit_x: "bit x j \<longleftrightarrow> 0 < j \<and> bit c (j - 1)" if "j < 32" for j
    using that unfolding x_def by (subst bit_push_bit_iff) auto
  have "crc24Bit c = (if bit x 24 then x XOR 0x1864CFB else x)"
    unfolding crc24Bit_def Let_def and_bit24 x_def ..
  then show ?thesis
    using i by (auto simp: bit_x bit_xor_iff)
qed

lemma crc24Bit_is24: "is24 c \<Longrightarrow> is24 (crc24Bit c)"
  unfolding is24_def
proof (intro allI impI)
  fix i :: nat assume c: "\<forall>i\<ge>24. \<not> bit c i" and i: "24 \<le> i"
  show "\<not> bit (crc24Bit c) i"
  proof (cases "i < 32")
    case True
    have "i = 24 \<or> 25 \<le> i" using i by linarith
    with True c bit_poly show ?thesis by (auto simp: bit_crc24Bit)
  qed (auto dest: bit_imp_le_length)
qed

lemma crc24Bit_inj:
  assumes "is24 c" "is24 d" "crc24Bit c = crc24Bit d"
  shows "c = d"
proof (rule bit_word_eqI)
  fix n assume n: "n < LENGTH(32)"
  have top: "bit c 23 = bit d 23"
    using arg_cong [OF assms(3), of "\<lambda>w. bit w 0"] bit_poly(1) by (simp add: bit_crc24Bit)
  show "bit c n = bit d n"
  proof (cases "n < 24")
    case True
    with top arg_cong [OF assms(3), of "\<lambda>w. bit w (Suc n)"] show ?thesis
      by (auto simp: bit_crc24Bit)
  qed (use assms in \<open>auto simp: is24_def\<close>)
qed

lemma crc24Bits_is24: "is24 c \<Longrightarrow> is24 ((crc24Bit ^^ k) c)"
  by (induction k) (auto intro: crc24Bit_is24)

lemma crc24Bits_inj: "is24 c \<Longrightarrow> is24 d \<Longrightarrow> (crc24Bit ^^ k) c = (crc24Bit ^^ k) d \<Longrightarrow> c = d"
  by (induction k) (auto dest: crc24Bit_inj [OF crc24Bits_is24 crc24Bits_is24])

lemma is24_xor_byte: "is24 c \<Longrightarrow> is24 (c XOR push_bit 16 (ucast (b :: byte)))"
  by (auto simp: is24_def bit_simps dest: bit_imp_le_length)

lemma crc24Byte_is24: "is24 c \<Longrightarrow> is24 (crc24Byte c b)"
  by (simp add: crc24Byte_def crc24Bits_is24 is24_xor_byte)

lemma crc24Byte_inj:
  assumes "is24 c" "is24 d" "crc24Byte c a = crc24Byte d b"
  shows "c XOR push_bit 16 (ucast a) = d XOR push_bit 16 (ucast b)"
  by (rule crc24Bits_inj [OF is24_xor_byte is24_xor_byte]) (use assms in \<open>auto simp: crc24Byte_def\<close>)

lemma xor_cancel: "x XOR z = y XOR z \<longleftrightarrow> x = y" for x y z :: "'a::len word"
  by (metis xor.assoc xor_self_eq xor.right_neutral)

lemma crc24Byte_inj_state: "is24 c \<Longrightarrow> is24 d \<Longrightarrow> crc24Byte c b = crc24Byte d b \<Longrightarrow> c = d"
  using crc24Byte_inj [of c d b b] by (simp add: xor_cancel)

lemma crc24Byte_inj_byte:
  assumes "is24 c" "crc24Byte c a = crc24Byte c b"
  shows "a = b"
proof -
  have eq: "push_bit 16 (ucast a :: 32 word) = push_bit 16 (ucast b)"
    using crc24Byte_inj [OF assms(1,1,2)] by (simp only: xor.commute [of c] xor_cancel)
  show ?thesis
  proof (rule bit_word_eqI)
    fix n assume "n < LENGTH(8)"
    with arg_cong [OF eq, of "\<lambda>w. bit w (n + 16)"] show "bit a n = bit b n"
      by (simp add: bit_simps)
  qed
qed

lemma crc24_state_is24: "is24 c \<Longrightarrow> is24 (foldl crc24Byte c data)"
  by (induction data arbitrary: c) (auto intro: crc24Byte_is24)

lemma crc24_state_inj:
  "is24 c \<Longrightarrow> is24 d \<Longrightarrow> foldl crc24Byte c data = foldl crc24Byte d data \<Longrightarrow> c = d"
  by (induction data arbitrary: c d) (auto dest: crc24Byte_inj_state intro: crc24Byte_is24)

lemma is24_init: "is24 0xB704CE"
proof -
  have "(0xB704CE :: 32 word) = take_bit 24 0xB704CE" by simp
  then show ?thesis by (metis is24_def bit_take_bit_iff not_le)
qed

lemma is24_mask: "is24 c \<Longrightarrow> c AND 0xFFFFFF = c"
proof -
  assume c: "is24 c"
  have "c AND 0xFFFFFF = take_bit 24 c"
    by (simp add: take_bit_eq_mask mask_eq_exp_minus_1)
  also have "\<dots> = c"
    by (rule bit_word_eqI) (use c in \<open>simp add: bit_take_bit_iff is24_def, meson not_less\<close>)
  finally show ?thesis .
qed

lemma crc24_eq_state: "crc24 data = foldl crc24Byte 0xB704CE data"
  by (simp add: crc24_def is24_mask crc24_state_is24 is24_init)

lemma crc24_is24: "is24 (crc24 data)"
  by (simp add: crc24_eq_state crc24_state_is24 is24_init)

lemma crc24_one_byte:
  assumes "x \<noteq> y"
  shows "crc24 (pre @ x # post) \<noteq> crc24 (pre @ y # post)"
proof
  assume eq: "crc24 (pre @ x # post) = crc24 (pre @ y # post)"
  let ?c = "foldl crc24Byte 0xB704CE pre"
  have c: "is24 ?c" by (simp add: crc24_state_is24 is24_init)
  have "crc24Byte ?c x = crc24Byte ?c y"
    by (rule crc24_state_inj [of _ _ post]) (use eq c in \<open>auto simp: crc24_eq_state crc24Byte_is24\<close>)
  then show False using crc24Byte_inj_byte [OF c] assms by blast
qed


section \<open>Radix-64: decoding inverts encoding\<close>

lemma nat_and_63: "(n :: nat) AND 63 = n mod 64"
  using take_bit_eq_mask [of 6 n] by (simp add: mask_eq_exp_minus_1 take_bit_eq_mod)

lemma alphabet_facts: "length alphabet = 64" "distinct alphabet"
  "CHR ''='' \<notin> set alphabet" "CHR ''-'' \<notin> set alphabet" "CR \<notin> set alphabet" "LF \<notin> set alphabet"
  by (simp_all add: alphabet_def)

lemma digit_lookup [simp]: "v < 64 \<Longrightarrow> map_of (zip alphabet [0..<64]) (alphabet ! v) = Some v"
  by (subst map_of_zip_nth) (simp_all add: alphabet_facts)

lemma digit_in: "alphabet ! (n mod 64) \<in> set alphabet"
  by (simp add: alphabet_facts)

lemma digit_not [simp]: "alphabet ! (n mod 64) \<noteq> CHR ''=''" "alphabet ! (n mod 64) \<noteq> CHR ''-''"
  "alphabet ! (n mod 64) \<noteq> CR" "alphabet ! (n mod 64) \<noteq> LF"
  using digit_in [of n] alphabet_facts by metis+

lemma base64Digits_digit [simp]:
  "base64Digits (alphabet ! (n mod 64) # cs) = n mod 64 # base64Digits cs"
  by simp

lemma base64_recombine:
  fixes n :: nat
  assumes "n < 16777216"
  shows "push_bit 18 (drop_bit 18 n mod 64) OR push_bit 12 (drop_bit 12 n mod 64)
    OR push_bit 6 (drop_bit 6 n mod 64) OR n mod 64 = n"
proof -
  have drops: "drop_bit 18 n = n div 262144" "drop_bit 12 n = n div 4096" "drop_bit 6 n = n div 64"
    by (simp_all add: drop_bit_eq_div)
  have top: "n div 262144 mod 64 = n div 262144" using assms by simp
  have low: "push_bit 6 (n div 64 mod 64) OR n mod 64 = n mod 4096"
    using push_bit_or_lt [of "n mod 64" 6 "n div 64 mod 64"] mod_mult2_eq [of n 64 64] by simp
  have mid: "push_bit 12 (n div 4096 mod 64) OR n mod 4096 = n mod 262144"
    using push_bit_or_lt [of "n mod 4096" 12 "n div 4096 mod 64"] mod_mult2_eq [of n 4096 64] by simp
  have "push_bit 18 (n div 262144) OR n mod 262144 = n"
    using push_bit_or_lt [of "n mod 262144" 18 "n div 262144"] by simp
  then show ?thesis unfolding drops top low mid .
qed

lemma three_bytes:
  assumes "(a :: nat) < 256" "b < 256" "c < 256" "n = push_bit 16 a OR push_bit 8 b OR c"
  shows "n < 16777216" "drop_bit 16 n AND 0xFF = a" "drop_bit 8 n AND 0xFF = b" "n AND 0xFF = c"
    "n = a * 65536 + (b * 256 + c)"
proof -
  have "b * 256 + c < 65536" using assms by linarith
  then show n: "n = a * 65536 + (b * 256 + c)"
    using assms push_bit_or_lt [of c 8 b] push_bit_or_lt [of "b * 256 + c" 16 a] by simp
  then show "n < 16777216" using assms by linarith
  have "n = c + (a * 256 + b) * 256" using n by simp
  then show "n AND 0xFF = c" using assms(3) by (simp only: nat_and_255 mod_mult_self1) simp
  have "n = 65536 * a + (b * 256 + c)" "n = 256 * (a * 256 + b) + c" using n by simp_all
  then have "n div 65536 = a" "n div 256 = a * 256 + b" using assms \<open>b * 256 + c < 65536\<close> by simp_all
  then show "drop_bit 16 n AND 0xFF = a" "drop_bit 8 n AND 0xFF = b"
    using assms by (simp_all add: nat_and_255 drop_bit_eq_div)
qed

text \<open>One group of four digits, decoded on its own.\<close>

lemma base64Bytes_group:
  assumes "n < 16777216"
  shows "base64Bytes ((drop_bit 18 n mod 64) # (drop_bit 12 n mod 64) # (drop_bit 6 n mod 64) # (n mod 64) # ds)
    = [word_of_nat (drop_bit 16 n AND 0xFF), word_of_nat (drop_bit 8 n AND 0xFF), word_of_nat (n AND 0xFF)]
      @ base64Bytes ds"
    and "n mod 64 = 0 \<Longrightarrow> base64Bytes [drop_bit 18 n mod 64, drop_bit 12 n mod 64, drop_bit 6 n mod 64]
    = [word_of_nat (drop_bit 16 n AND 0xFF), word_of_nat (drop_bit 8 n AND 0xFF)]"
    and "n mod 4096 = 0 \<Longrightarrow> base64Bytes [drop_bit 18 n mod 64, drop_bit 12 n mod 64]
    = [word_of_nat (drop_bit 16 n AND 0xFF)]"
proof -
  note r = base64_recombine [OF assms]
  show "base64Bytes ((drop_bit 18 n mod 64) # (drop_bit 12 n mod 64) # (drop_bit 6 n mod 64) # (n mod 64) # ds)
    = [word_of_nat (drop_bit 16 n AND 0xFF), word_of_nat (drop_bit 8 n AND 0xFF), word_of_nat (n AND 0xFF)]
      @ base64Bytes ds"
    by (simp only: base64Bytes.simps Let_def r)
  show "base64Bytes [drop_bit 18 n mod 64, drop_bit 12 n mod 64, drop_bit 6 n mod 64]
    = [word_of_nat (drop_bit 16 n AND 0xFF), word_of_nat (drop_bit 8 n AND 0xFF)]" if "n mod 64 = 0"
    using r that by (simp only: base64Bytes.simps Let_def or.right_neutral)
  show "base64Bytes [drop_bit 18 n mod 64, drop_bit 12 n mod 64] = [word_of_nat (drop_bit 16 n AND 0xFF)]"
    if "n mod 4096 = 0"
  proof -
    have z: "n mod 64 = 0" "drop_bit 6 n mod 64 = 0"
      using that mod_mult2_eq [of n 64 64] by (simp_all add: drop_bit_eq_div)
    show ?thesis using r by (simp only: base64Bytes.simps Let_def z or.right_neutral push_bit_of_0)
  qed
qed

lemma base64Digits_group:
  "base64Digits (alphabet ! (n AND 0x3F) # cs) = (n mod 64) # base64Digits cs"
  by (simp only: nat_and_63 base64Digits_digit)

lemma base64Digits_pad [simp]: "base64Digits (CHR ''='' # cs) = []"
  by simp

lemma base64_round_trip: "base64Bytes (base64Digits (base64Encode bs)) = bs"
proof (induction bs rule: base64Encode.induct)
  case (1 a b c rest)
  define n where "n = push_bit 16 (unat a) OR push_bit 8 (unat b) OR unat c"
  note n = three_bytes [OF unat_byte_lt unat_byte_lt unat_byte_lt n_def]
  have "base64Bytes (base64Digits (base64Encode (a # b # c # rest)))
    = [word_of_nat (unat a), word_of_nat (unat b), word_of_nat (unat c)] @ base64Bytes (base64Digits (base64Encode rest))"
    unfolding base64Encode.simps Let_def append.simps n_def [symmetric] base64Digits_group
      base64Bytes_group(1) [OF n(1)] n(2-4) ..
  then show ?case using 1 by simp
next
  case (2 a b)
  define n where "n = push_bit 16 (unat a) OR push_bit 8 (unat b)"
  have "n = push_bit 16 (unat a) OR push_bit 8 (unat b) OR 0" by (simp add: n_def)
  note n = three_bytes [OF unat_byte_lt unat_byte_lt _ this, simplified]
  have "n = 64 * (unat a * 1024 + unat b * 4)" using n(5) by simp
  then have "n mod 64 = 0" by (simp only: mod_mult_self1_is_0)
  then have "base64Bytes (base64Digits (base64Encode [a, b])) = [word_of_nat (unat a), word_of_nat (unat b)]"
    unfolding base64Encode.simps Let_def n_def [symmetric] base64Digits_group base64Digits_pad
    by (subst base64Bytes_group(2)) (use n in \<open>simp_all\<close>)
  then show ?case by simp
next
  case (3 a)
  define n where "n = (push_bit 16 (unat a) :: nat)"
  have "n = push_bit 16 (unat a) OR push_bit 8 0 OR 0" by (simp add: n_def)
  note n = three_bytes [OF unat_byte_lt _ _ this, simplified]
  have "n = 4096 * (unat a * 16)" using n(5) by simp
  then have "n mod 4096 = 0" by (simp only: mod_mult_self1_is_0)
  then have "base64Bytes (base64Digits (base64Encode [a])) = [word_of_nat (unat a)]"
    unfolding base64Encode.simps Let_def n_def [symmetric] base64Digits_group base64Digits_pad
    by (subst base64Bytes_group(3)) (use n in \<open>simp_all\<close>)
  then show ?case by simp
qed simp

lemma base64Decode_base64Encode [simp]: "base64Decode (base64Encode bs) = yes bs"
  by (simp add: base64Decode_def base64_round_trip)

text \<open>Only alphabet characters and padding occur in the encoding, and padding only in the last group.\<close>

lemma base64Encode_chars: "c \<in> set (base64Encode bs) \<Longrightarrow> c \<in> set alphabet \<or> c = CHR ''=''"
  by (induction bs rule: base64Encode.induct) (auto simp: Let_def nat_and_63 digit_in)

lemma base64Encode_no_marks:
  "CHR ''-'' \<notin> set (base64Encode bs)" "CR \<notin> set (base64Encode bs)" "LF \<notin> set (base64Encode bs)"
  using base64Encode_chars alphabet_facts by force+

lemma base64Encode_group:
  "4 * k < length (base64Encode bs) \<Longrightarrow> base64Encode bs ! (4 * k) \<noteq> CHR ''=''"
proof (induction bs arbitrary: k rule: base64Encode.induct)
  case (1 a b c rest)
  then show ?case by (cases k) (simp_all add: Let_def nat_and_63)
next
  case (2 a b)
  then show ?case by (cases k) (simp_all add: Let_def nat_and_63)
next
  case (3 a)
  then show ?case by (cases k) (simp_all add: Let_def nat_and_63)
qed simp

lemma base64Encode_Nil_iff [simp]: "base64Encode bs = [] \<longleftrightarrow> bs = []"
  by (cases bs rule: base64Encode.cases) (auto simp: Let_def)


section \<open>Armored blocks: decoding inverts encoding\<close>

lemma bit_crc_octet:
  "bit (ucast (ucast (drop_bit k crc AND 0xFF :: 32 word) :: byte) :: 32 word) i \<longleftrightarrow> i < 8 \<and> bit crc (k + i)"
proof -
  have "drop_bit k crc AND 0xFF = take_bit 8 (drop_bit k crc)"
    by (simp add: take_bit_eq_mask mask_eq_exp_minus_1)
  then show ?thesis by (auto simp: bit_simps dest: bit_imp_le_length)
qed

lemma crcBytes_round_trip:
  assumes "is24 crc"
  shows "push_bit 16 (ucast (crcBytes crc ! 0)) OR push_bit 8 (ucast (crcBytes crc ! 1))
     OR ucast (crcBytes crc ! 2) = crc"
proof -
  obtain x y z :: "32 word" where xyz: "ucast (crcBytes crc ! 0) = x" "ucast (crcBytes crc ! 1) = y" "ucast (crcBytes crc ! 2) = z"
    and bits: "\<And>i. bit x i \<longleftrightarrow> i < 8 \<and> bit crc (16 + i)" "\<And>i. bit y i \<longleftrightarrow> i < 8 \<and> bit crc (8 + i)"
      "\<And>i. bit z i \<longleftrightarrow> i < 8 \<and> bit crc i"
    using bit_crc_octet [of 16 crc] bit_crc_octet [of 8 crc] bit_crc_octet [of 0 crc]
    unfolding crcBytes_def by force
  show ?thesis unfolding xyz
  proof (rule bit_word_eqI)
    fix n assume n: "n < LENGTH(32)"
    have "bit (push_bit 16 x OR push_bit 8 y OR z) n \<longleftrightarrow>
      16 \<le> n \<and> n - 16 < 8 \<and> bit crc (16 + (n - 16)) \<or> 8 \<le> n \<and> n - 8 < 8 \<and> bit crc (8 + (n - 8)) \<or> n < 8 \<and> bit crc n"
      using n by (simp only: bit_or_iff bit_push_bit_iff bits) simp
    also have "\<dots> \<longleftrightarrow> n < 24 \<and> bit crc n" by (cases "16 \<le> n"; cases "8 \<le> n"; auto)
    also have "\<dots> \<longleftrightarrow> bit crc n" using assms unfolding is24_def by (meson not_less)
    finally show "bit (push_bit 16 x OR push_bit 8 y OR z) n = bit crc n" .
  qed
qed

lemma find_at_here [simp]: "pat \<noteq> [] \<Longrightarrow> find_at pat i (pat @ ys) = Some i"
  by (cases pat) simp_all

lemma find_at_skip:
  assumes "pat \<noteq> []" "hd pat \<notin> set xs"
  shows "find_at pat i (xs @ ys) = find_at pat (i + length xs) ys"
  using assms by (induction xs arbitrary: i) (auto simp: neq_Nil_conv)

lemma mark_facts: "length dashes = 5" "length beginMark = 11" "hd dashes = CHR ''-''"
  "hd (endMark label) = CHR ''-''" "dashes \<noteq> []" "beginMark \<noteq> []" "endMark label \<noteq> []"
  by (simp_all add: dashes_def beginMark_def endMark_def)

lemma find_at_ge: "find_at pat i xs = Some k \<Longrightarrow> i \<le> k"
  by (induction pat i xs rule: find_at.induct) (auto split: if_splits)

lemma text_find_at: "text_find (pre @ xs) pat (length pre) = find_at pat (length pre) xs"
  by (simp add: text_find_def)

text \<open>The version header, and where the reader finds the payload after it.\<close>

definition armorVersion :: string where
  "armorVersion = [CR, LF] @ ''Version: HashCryptoLib CPgpEngine'' @ [CR, LF, CR, LF]"

lemma find_blank_line:
  "find_at [CR, LF, CR, LF] i (armorVersion @ body) = Some (i + 35)"
  "find_at [LF, LF] i (armorVersion @ body) = Some k \<Longrightarrow> i + 35 \<le> k"
  by (auto simp: armorVersion_def dest!: find_at_ge split: if_splits)

lemma armorDataStart_version:
  assumes "text = pre @ armorVersion @ body"
  shows "armorDataStart text (length pre) = Some (length pre + length armorVersion)"
  unfolding assms armorDataStart_def text_find_at find_blank_line(1)
  using find_blank_line(2) [of "length pre" body]
  by (auto simp: armorVersion_def split: option.split)

lemma armorLines_line:
  "CR \<notin> set xs \<Longrightarrow> LF \<notin> set xs \<Longrightarrow>
     armorLines current (xs @ CR # LF # ys) = (current @ xs) # armorLines [] ys"
  by (induction xs arbitrary: current) auto

lemma armorFields_armorBody:
  "CR \<notin> set b64 \<Longrightarrow> LF \<notin> set b64 \<Longrightarrow> (\<And>k. 64 * k < length b64 \<Longrightarrow> b64 ! (64 * k) \<noteq> CHR ''='') \<Longrightarrow>
     armorFields (armorLines [] (armorBody b64 @ rest)) d [] = armorFields (armorLines [] rest) (d @ b64) []"
proof (induction b64 arbitrary: d rule: armorBody.induct)
  case (1 b64)
  show ?case
  proof (cases "b64 = []")
    case False
    let ?l = "take 64 b64"
    have marks: "CR \<notin> set ?l" "LF \<notin> set ?l" using "1.prems" by (auto dest: in_set_takeD)
    have hd: "?l \<noteq> []" "hd ?l \<noteq> CHR ''=''"
      using False "1.prems"(3) [of 0] by (auto simp: hd_conv_nth)
    have "armorFields (armorLines [] (armorBody (drop 64 b64) @ rest)) (d @ ?l) []
      = armorFields (armorLines [] rest) ((d @ ?l) @ drop 64 b64) []"
    proof (rule "1.IH" [OF False])
      fix k assume "64 * k < length (drop 64 b64)"
      then show "drop 64 b64 ! (64 * k) \<noteq> CHR ''=''" using "1.prems"(3) [of "Suc k"] by simp
    qed (use "1.prems" in \<open>auto dest: in_set_dropD\<close>)
    then show ?thesis
      using hd by (subst armorBody.simps) (simp add: False armorLines_line [OF marks])
  qed (simp add: armorBody.simps)
qed

lemma armorBody_chars: "c \<in> set (armorBody b64) \<Longrightarrow> c \<in> set b64 \<or> c = CR \<or> c = LF"
  by (induction b64 rule: armorBody.induct)
    (subst (asm) (2) armorBody.simps, auto split: if_splits dest: in_set_takeD in_set_dropD)

lemma armorEncode_shape:
  "armorEncode label data = beginMark @ label @ dashes @ armorVersion @
     (armorBody (base64Encode data) @ ''='' @ base64Encode (crcBytes (crc24 data)) @ [CR, LF]) @
     endMark label @ [CR, LF]"
  by (simp add: armorEncode_def armorVersion_def)

lemma armorDecode_block:
  assumes label: "CHR ''-'' \<notin> set label" and sec: "CHR ''-'' \<notin> set section"
    and fields: "armorFields (armorLines [] section) [] [] = (dataB64, crcB64)"
  shows "armorDecode (beginMark @ label @ dashes @ armorVersion @ section @
      endMark label @ post)
    = on_true (base64Decode dataB64) (\<lambda>data.
       on_true (armorChecksumOk crcB64 data) (\<lambda>ok. if ok then yes (label, data) else no))"
    (is "armorDecode ?text = ?result")
proof -
  let ?rest = "section @ endMark label @ post"
  note [simp] = mark_facts
  have beginPos: "text_find ?text beginMark 0 = Some 0"
    by (simp add: text_find_def)
  have "text_find ?text dashes (length beginMark)
      = find_at dashes (length beginMark) (label @ dashes @ armorVersion @ ?rest)"
    by (rule text_find_at)
  also have "\<dots> = Some (length beginMark + length label)"
    by (subst find_at_skip) (simp_all add: label)
  finally have labelEnd: "text_find ?text dashes (length beginMark) = Some (length beginMark + length label)" .
  let ?pre = "beginMark @ label @ dashes"
  have dataStart: "armorDataStart ?text (length ?pre) = Some (length ?pre + length armorVersion)"
    by (rule armorDataStart_version [of _ ?pre ?rest]) simp
  have "text_find ?text (endMark label) (length (?pre @ armorVersion))
      = find_at (endMark label) (length (?pre @ armorVersion)) ?rest"
    using text_find_at [of "?pre @ armorVersion" ?rest "endMark label"] by simp
  also have "\<dots> = Some (length (?pre @ armorVersion) + length section)"
    by (subst find_at_skip) (simp_all add: sec)
  finally have endPos: "text_find ?text (endMark label) (length (?pre @ armorVersion))
      = Some (length (?pre @ armorVersion) + length section)" .
  show ?thesis
    using beginPos labelEnd dataStart endPos fields
    by (simp add: armorDecode_def Let_def add.assoc)
qed

lemma armorChecksumOk_own: "armorChecksumOk (base64Encode (crcBytes (crc24 d))) data = yes (crc24 data = crc24 d)"
proof -
  have len: "length (crcBytes (crc24 d)) = 3" by (simp add: crcBytes_def)
  then have "base64Encode (crcBytes (crc24 d)) \<noteq> []" by auto
  then show ?thesis
    unfolding armorChecksumOk_def base64Decode_base64Encode
    using crcBytes_round_trip [OF crc24_is24] len by (simp add: Let_def)
qed

text \<open>The block that carries \<open>data\<close> and some checksum text; with the checksum of \<open>d\<close>.\<close>

definition armorBlock :: "string \<Rightarrow> bytes \<Rightarrow> string \<Rightarrow> string" where
  "armorBlock label data crc = beginMark @ label @ dashes @ armorVersion @
     (armorBody (base64Encode data) @ ''='' @ crc @ [CR, LF]) @ endMark label @ [CR, LF]"

definition armorWithChecksum :: "string \<Rightarrow> bytes \<Rightarrow> bytes \<Rightarrow> string" where
  "armorWithChecksum label data d = armorBlock label data (base64Encode (crcBytes (crc24 d)))"

lemma armorDecode_armorBlock:
  assumes "CHR ''-'' \<notin> set label" "CHR ''-'' \<notin> set crc" "CR \<notin> set crc" "LF \<notin> set crc"
  shows "armorDecode (armorBlock label data crc)
    = on_true (armorChecksumOk crc data) (\<lambda>ok. if ok then yes (label, data) else no)"
proof -
  let ?section = "armorBody (base64Encode data) @ ''='' @ crc @ [CR, LF]"
  have "CHR ''-'' \<notin> set ?section"
    using assms(2) base64Encode_no_marks armorBody_chars [of "CHR ''-''" "base64Encode data"] by auto
  moreover have "armorFields (armorLines [] ?section) [] [] = (base64Encode data, crc)"
  proof -
    have "armorFields (armorLines [] ?section) [] [] = armorFields (armorLines [] (''='' @ crc @ [CR, LF])) (base64Encode data) []"
      using armorFields_armorBody [of "base64Encode data" "''='' @ crc @ [CR, LF]" "[]"]
        base64Encode_no_marks base64Encode_group [of "16 * _" data] by (simp add: mult.assoc [symmetric])
    also have "armorLines [] (''='' @ crc @ [CR, LF]) = [''='' @ crc]"
      using armorLines_line [of "''='' @ crc" "[]" "[]"] assms(3,4) by simp
    finally show ?thesis by simp
  qed
  ultimately have "armorDecode (armorBlock label data crc) = on_true (base64Decode (base64Encode data)) (\<lambda>data.
       on_true (armorChecksumOk crc data) (\<lambda>ok. if ok then yes (label, data) else no))"
    unfolding armorBlock_def by (rule armorDecode_block [OF assms(1)])
  then show ?thesis by simp
qed

lemma armorDecode_armorWithChecksum:
  assumes "CHR ''-'' \<notin> set label"
  shows "armorDecode (armorWithChecksum label data d) = (if crc24 data = crc24 d then yes (label, data) else no)"
  using armorDecode_armorBlock [OF assms base64Encode_no_marks, of data "crcBytes (crc24 d)"]
  by (simp add: armorChecksumOk_own armorWithChecksum_def)

lemma armorEncode_armorWithChecksum: "armorEncode label data = armorWithChecksum label data data"
  by (simp add: armorEncode_shape armorWithChecksum_def armorBlock_def)

text \<open>Searching and splitting are total, so decoding is.\<close>

lemma armorDecode_safe [ub_free]: "safe (armorDecode text)"
  by (auto simp: armorDecode_def armorChecksumOk_def base64Decode_def Let_def split: option.splits prod.splits)


section \<open>Properties\<close>

text \<open>C35: An armored block is decoded to its label and its payload, for every payload and every label
  without a dash.\<close>

theorem armor_round_trip:
  assumes "CHR ''-'' \<notin> set label"
  shows "armorDecode (armorEncode label data) = yes (label, data)"
  using armorDecode_armorWithChecksum [OF assms, of data data] by (simp add: armorEncode_armorWithChecksum)

lemma armor_round_trip_witness: "armorDecode (armorEncode ''PGP MESSAGE'' [1, 2, 255]) = yes (''PGP MESSAGE'', [1, 2, 255])"
  by (rule armor_round_trip) simp

text \<open>A block whose payload differs in one octet from the payload its checksum line was
  computed for is refused: CRC-24 separates any two payloads that differ in one octet.\<close>

theorem armor_rejects_damage:
  assumes "CHR ''-'' \<notin> set label" "x \<noteq> y"
  shows "armorDecode (armorWithChecksum label (pre @ x # post) (pre @ y # post)) = no
    \<and> armorEncode label (pre @ y # post) = armorWithChecksum label (pre @ y # post) (pre @ y # post)"
  using armorDecode_armorWithChecksum [OF assms(1)] crc24_one_byte [OF assms(2)]
  by (simp add: armorEncode_armorWithChecksum)

lemma armor_rejects_damage_witness:
  "armorDecode (armorWithChecksum ''PGP MESSAGE'' [1, 2, 3] [1, 7, 3]) = no"
  using armor_rejects_damage [of "''PGP MESSAGE''" 2 7 "[1]" "[3]"] by simp

text \<open>A checksum line that does not decode to three octets is not checked at all,
  contrary to the comment on the function: a block with such a line is accepted whatever its
  payload is.\<close>

theorem armor_ignores_short_checksum:
  assumes "CHR ''-'' \<notin> set label" "CHR ''-'' \<notin> set crc" "CR \<notin> set crc" "LF \<notin> set crc"
    and "length (base64Bytes (base64Digits crc)) \<noteq> 3"
  shows "armorDecode (armorBlock label data crc) = yes (label, data)"
  using armorDecode_armorBlock [OF assms(1-4), of data] assms(5)
  by (simp add: armorChecksumOk_def base64Decode_def)

lemma armor_ignores_short_checksum_witness:
  "armorDecode (armorBlock ''PGP MESSAGE'' [1, 2, 3] ''='') = yes (''PGP MESSAGE'', [1, 2, 3])"
  by (rule armor_ignores_short_checksum) simp_all

end
