(* ===== verification/PeerKeys.thy ===== *)
theory PeerKeys
  imports IdentityOps Armor
begin

unbundle bit_operations_syntax

text \<open>
  Reading somebody else's key block (src/src/Pgp/PgpEngine.cpp): the scan of a signature's hashed
  subpackets, the walk over the packets of the block, the choice of the encryption subkey, and
  the two import operations. \<open>now\<close> is the time at which the block is read.
\<close>

section \<open>Scanning hashed subpackets\<close>

text \<open>One subpacket length; false is the \<open>break\<close> of the loop.\<close>

definition scanSubpacketLength :: "bytes \<Rightarrow> nat \<Rightarrow> nat \<Rightarrow> (nat \<times> nat) cpp" where
  "scanSubpacketLength body pos stop = do {
     first \<leftarrow> byte_at body pos;
     if first < 192 then yes (unat first, pos + 1)
     else if first < 255 then
       if pos + 1 \<ge> stop then no
       else do { second \<leftarrow> byte_at body (pos + 1); yes (push_bit 8 (unat first - 192) + unat second + 192, pos + 2) }
     else
       if pos + 4 \<ge> stop then no
       else do {
         a \<leftarrow> byte_at body (pos + 1); b \<leftarrow> byte_at body (pos + 2);
         c \<leftarrow> byte_at body (pos + 3); d \<leftarrow> byte_at body (pos + 4);
         yes (be32 a b c d, pos + 5) } }"

text \<open>Key flags and expiration found so far; \<open>None\<close> when there was no such subpacket.\<close>

type_synonym scanned = "byte option \<times> 32 word option"

definition scanSubpacket :: "bytes \<Rightarrow> nat \<Rightarrow> nat \<Rightarrow> scanned \<Rightarrow> scanned option" where
  "scanSubpacket body pos subpacketLength acc = do {
     typeOctet \<leftarrow> byte_at body pos;
     let subpacketType = typeOctet AND 0x7F;
     let subBodyBegin = pos + 1;
     let subBodyLength = subpacketLength - 1;
     if subpacketType = 27 \<and> subBodyLength \<ge> 1 then do {
       flags \<leftarrow> byte_at body subBodyBegin;
       Some (Some flags, snd acc) }
     else if subpacketType = 9 \<and> subBodyLength \<ge> 4 then do {
       a \<leftarrow> byte_at body subBodyBegin; b \<leftarrow> byte_at body (subBodyBegin + 1);
       c \<leftarrow> byte_at body (subBodyBegin + 2); d \<leftarrow> byte_at body (subBodyBegin + 3);
       Some (fst acc, Some (word_of_nat (be32 a b c d))) }
     else Some acc }"

lemma scanSubpacketLength_pos [advances]:
  "scanSubpacketLength body pos stop = yes (n, p) \<Longrightarrow> pos < p"
  by (auto simp: scanSubpacketLength_def split: if_splits bind_splits)

function scanSubpackets :: "bytes \<Rightarrow> nat \<Rightarrow> nat \<Rightarrow> scanned \<Rightarrow> scanned option" where
  "scanSubpackets body pos stop acc =
     (if pos \<ge> stop then Some acc
      else case scanSubpacketLength body pos stop of
        None \<Rightarrow> None
      | Some None \<Rightarrow> Some acc
      | Some (Some (subpacketLength, p)) \<Rightarrow>
          if subpacketLength = 0 \<or> p + subpacketLength > stop then Some acc
          else do { acc' \<leftarrow> scanSubpacket body p subpacketLength acc;
                    scanSubpackets body (p + subpacketLength) stop acc' })"
  by pat_completeness auto

termination
  by (relation "measure (\<lambda>(body, pos, stop, acc). stop - pos)") (auto dest: scanSubpacketLength_pos)

declare scanSubpackets.simps [simp del]

definition scanSignatureHashedSubpackets :: "bytes \<Rightarrow> (byte \<times> scanned) cpp" where
  "scanSignatureHashedSubpackets body =
     (if length body < 6 \<or> body ! 0 \<noteq> 4 then no
      else do {
        signatureType \<leftarrow> byte_at body 1;
        hashedLength \<leftarrow> readBigEndian16 body 4;
        if 6 + hashedLength > length body then no
        else do { acc \<leftarrow> scanSubpackets body 6 (6 + hashedLength) (None, None); yes (signatureType, acc) } })"

section \<open>Which subkey to encrypt to\<close>

definition peerSubkeyExpired :: "32 word \<Rightarrow> peer_subkey \<Rightarrow> bool" where
  "peerSubkeyExpired now k = (pskHaveExpiration k \<and> pskExpirationSeconds k > 0
     \<and> pskCreationTime k + pskExpirationSeconds k \<le> now)"

definition newer :: "peer_subkey \<Rightarrow> peer_subkey option \<Rightarrow> peer_subkey option" where
  "newer candidate best = (case best of None \<Rightarrow> Some candidate
     | Some b \<Rightarrow> if pskCreationTime candidate > pskCreationTime b then Some candidate else best)"

fun chooseLoop ::
  "32 word \<Rightarrow> peer_subkey list \<Rightarrow> peer_subkey option \<Rightarrow> peer_subkey option \<Rightarrow> peer_subkey option" where
  "chooseLoop now [] bestWithFlags bestAny = (if bestWithFlags \<noteq> None then bestWithFlags else bestAny)"
| "chooseLoop now (candidate # ks) bestWithFlags bestAny =
     (if pskIsRevoked candidate then chooseLoop now ks bestWithFlags bestAny
      else if peerSubkeyExpired now candidate then chooseLoop now ks bestWithFlags bestAny
      else chooseLoop now ks
        (if pskHaveKeyFlags candidate \<and> pskKeyFlags candidate AND 0x0C \<noteq> 0 then newer candidate bestWithFlags
         else bestWithFlags)
        (newer candidate bestAny))"

definition chooseBestPeerEncryptionSubkey :: "32 word \<Rightarrow> peer_subkey list \<Rightarrow> peer_subkey option" where
  "chooseBestPeerEncryptionSubkey now subkeys = chooseLoop now subkeys None None"

section \<open>Walking a key block\<close>

record parsed_block =
  pbHaveMaster :: bool
  pbMasterAlgorithm :: key_algorithm
  pbMasterRsaKey :: rsa_public
  pbMasterEd25519Key :: bytes
  pbMasterKeyId :: bytes
  pbMasterFingerprint :: bytes
  pbHaveSubkey :: bool
  pbSubkeyAlgorithm :: key_algorithm
  pbSubkeyRsaKey :: rsa_public
  pbSubkeyX25519Key :: bytes
  pbSubkeyKeyId :: bytes
  pbSubkeyFingerprint :: bytes
  pbUserIds :: "peer_user_id list"
  pbSubkeys :: "peer_subkey list"

definition newParsedBlock :: parsed_block where
  "newParsedBlock = \<lparr> pbHaveMaster = False, pbMasterAlgorithm = PGP_KEY_ALGORITHM_RSA,
     pbMasterRsaKey = blankRsaPublic, pbMasterEd25519Key = zeros 32, pbMasterKeyId = zeros 8,
     pbMasterFingerprint = zeros 20, pbHaveSubkey = False, pbSubkeyAlgorithm = PGP_KEY_ALGORITHM_RSA,
     pbSubkeyRsaKey = blankRsaPublic, pbSubkeyX25519Key = zeros 32, pbSubkeyKeyId = zeros 8,
     pbSubkeyFingerprint = zeros 20, pbUserIds = [], pbSubkeys = [] \<rparr>"

text \<open>The packet the following signatures belong to; an index is set together with its kind.\<close>

datatype owner = OWNER_NONE | OWNER_MASTER | OWNER_UID nat | OWNER_SUBKEY nat

definition onPublicKeyPacket :: "crypto \<Rightarrow> bytes \<Rightarrow> parsed_block \<Rightarrow> (owner \<times> parsed_block) option" where
  "onPublicKeyPacket L body out =
     (if pbHaveMaster out \<or> length body < 6 then Some (OWNER_NONE, out)
      else do {
        algo \<leftarrow> byte_at body 5;
        if algo = PGP_ALGO_RSA then
          on_read (parseRsaPublicKeyPacketBody L body) (OWNER_NONE, out) (\<lambda>(n, e, keyId).
            Some (OWNER_MASTER, out\<lparr>pbMasterAlgorithm := PGP_KEY_ALGORITHM_RSA, pbMasterRsaKey := (n, e),
              pbMasterKeyId := keyId, pbHaveMaster := True,
              pbMasterFingerprint := fst (computeFingerprintAndKeyId L body)\<rparr>))
        else if algo = PGP_ALGO_EDDSA then
          on_read (parseEd25519PublicKeyPacketBody L body) (OWNER_NONE, out) (\<lambda>(point, keyId).
            Some (OWNER_MASTER, out\<lparr>pbMasterAlgorithm := PGP_KEY_ALGORITHM_ED25519_X25519,
              pbMasterEd25519Key := point, pbMasterKeyId := keyId, pbHaveMaster := True,
              pbMasterFingerprint := fst (computeFingerprintAndKeyId L body)\<rparr>))
        else Some (OWNER_NONE, out) })"

text \<open>The key material of a subkey packet; false when it is not one of the three algorithms.\<close>

definition readSubkeyMaterial :: "crypto \<Rightarrow> bytes \<Rightarrow> byte \<Rightarrow> peer_subkey \<Rightarrow> peer_subkey cpp" where
  "readSubkeyMaterial L body algo k =
     (if algo = PGP_ALGO_RSA then
        on_true (parseRsaPublicKeyPacketBody L body) (\<lambda>(n, e, keyId).
          yes (k\<lparr>pskAlgorithm := PGP_KEY_ALGORITHM_RSA, pskRsaKey := (n, e), pskKeyId := keyId\<rparr>))
      else if algo = PGP_ALGO_ECDH then
        on_true (parseX25519PublicKeyPacketBody L body) (\<lambda>(point, keyId, fingerprint).
          yes (k\<lparr>pskAlgorithm := PGP_KEY_ALGORITHM_ED25519_X25519, pskX25519Key := point, pskKeyId := keyId,
                 pskFingerprint := fingerprint\<rparr>))
      else if algo = PGP_ALGO_EDDSA then
        on_true (parseEd25519PublicKeyPacketBody L body) (\<lambda>(point, keyId).
          yes (k\<lparr>pskAlgorithm := PGP_KEY_ALGORITHM_ED25519_X25519, pskIsEd25519 := True, pskEd25519Key := point,
                 pskKeyId := keyId\<rparr>))
      else no)"

definition onPublicSubkeyPacket :: "crypto \<Rightarrow> bytes \<Rightarrow> parsed_block \<Rightarrow> (owner \<times> parsed_block) option" where
  "onPublicSubkeyPacket L body out =
     (if length body < 6 then Some (OWNER_NONE, out)
      else do {
        a \<leftarrow> byte_at body 1; b \<leftarrow> byte_at body 2; c \<leftarrow> byte_at body 3; d \<leftarrow> byte_at body 4;
        algo \<leftarrow> byte_at body 5;
        let k = newPeerSubkey\<lparr>pskCreationTime := word_of_nat (be32 a b c d)\<rparr>;
        on_read (readSubkeyMaterial L body algo k) (OWNER_NONE, out) (\<lambda>k.
          let k = (if pskAlgorithm k = PGP_KEY_ALGORITHM_RSA \<or> pskIsEd25519 k
                   then k\<lparr>pskFingerprint := fst (computeFingerprintAndKeyId L body)\<rparr> else k)
          in Some (OWNER_SUBKEY (length (pbSubkeys out)), out\<lparr>pbSubkeys := pbSubkeys out @ [k]\<rparr>)) })"

definition applyBinding :: "scanned \<Rightarrow> peer_subkey \<Rightarrow> peer_subkey" where
  "applyBinding acc k =
     (let k = (case fst acc of None \<Rightarrow> k | Some flags \<Rightarrow> k\<lparr>pskHaveKeyFlags := True, pskKeyFlags := flags\<rparr>)
      in case snd acc of None \<Rightarrow> k | Some e \<Rightarrow> k\<lparr>pskHaveExpiration := True, pskExpirationSeconds := e\<rparr>)"

definition onSignaturePacket :: "bytes \<Rightarrow> owner \<Rightarrow> parsed_block \<Rightarrow> parsed_block option" where
  "onSignaturePacket body owner out =
     on_read (scanSignatureHashedSubpackets body) out (\<lambda>(signatureType, acc).
       case owner of
         OWNER_UID i \<Rightarrow>
           if signatureType = 0x30 \<and> i < length (pbUserIds out)
           then Some (out\<lparr>pbUserIds := (pbUserIds out)[i := (pbUserIds out ! i)\<lparr>puIsRevoked := True\<rparr>]\<rparr>)
           else Some out
       | OWNER_SUBKEY i \<Rightarrow>
           if i < length (pbSubkeys out) then
             if signatureType = 0x28
             then Some (out\<lparr>pbSubkeys := (pbSubkeys out)[i := (pbSubkeys out ! i)\<lparr>pskIsRevoked := True\<rparr>]\<rparr>)
             else if signatureType = 0x18
             then Some (out\<lparr>pbSubkeys := (pbSubkeys out)[i := applyBinding acc (pbSubkeys out ! i)]\<rparr>)
             else Some out
           else Some out
       | _ \<Rightarrow> Some out)"

definition onBlockPacket :: "crypto \<Rightarrow> byte \<Rightarrow> bytes \<Rightarrow> owner \<Rightarrow> parsed_block \<Rightarrow> (owner \<times> parsed_block) option" where
  "onBlockPacket L tag body owner out =
     (if tag = PGP_TAG_PUBLIC_KEY then onPublicKeyPacket L body out
      else if tag = PGP_TAG_PUBLIC_SUBKEY then onPublicSubkeyPacket L body out
      else if tag = PGP_TAG_USER_ID then
        Some (OWNER_UID (length (pbUserIds out)),
              out\<lparr>pbUserIds := pbUserIds out @ [\<lparr>puText = body, puIsRevoked = False\<rparr>]\<rparr>)
      else if tag = PGP_TAG_SIGNATURE then
        do { out' \<leftarrow> onSignaturePacket body owner out; Some (owner, out') }
      else Some (owner, out))"

function walkBlock :: "crypto \<Rightarrow> bytes \<Rightarrow> nat \<Rightarrow> owner \<Rightarrow> parsed_block \<Rightarrow> parsed_block option" where
  "walkBlock L binary pos owner out =
     (if pos \<ge> length binary then Some out
      else case readPacketHeader binary pos None False of
        None \<Rightarrow> None
      | Some None \<Rightarrow> Some out
      | Some (Some (tag, bodyLength, p, _)) \<Rightarrow>
          if p + bodyLength > length binary then Some out
          else do {
            body \<leftarrow> slice binary p (p + bodyLength);
            (owner', out') \<leftarrow> onBlockPacket L tag body owner out;
            walkBlock L binary (p + bodyLength) owner' out' })"
  by pat_completeness auto

termination
  by (relation "measure (\<lambda>(L, binary, pos, owner, out). length binary - pos)") (auto dest: readPacketHeader_pos)

declare walkBlock.simps [simp del]

definition fillLegacySubkey :: "32 word \<Rightarrow> parsed_block \<Rightarrow> parsed_block" where
  "fillLegacySubkey now out =
     (case chooseBestPeerEncryptionSubkey now (pbSubkeys out) of
        Some chosen \<Rightarrow> out\<lparr>pbSubkeyAlgorithm := pskAlgorithm chosen, pbSubkeyRsaKey := pskRsaKey chosen,
          pbSubkeyX25519Key := pskX25519Key chosen, pbSubkeyKeyId := pskKeyId chosen,
          pbSubkeyFingerprint := pskFingerprint chosen, pbHaveSubkey := True\<rparr>
      | None \<Rightarrow>
          if pbMasterAlgorithm out = PGP_KEY_ALGORITHM_RSA
          then out\<lparr>pbSubkeyAlgorithm := PGP_KEY_ALGORITHM_RSA, pbSubkeyRsaKey := pbMasterRsaKey out,
                   pbSubkeyKeyId := pbMasterKeyId out, pbHaveSubkey := True\<rparr>
          else out\<lparr>pbHaveSubkey := False\<rparr>)"

definition parsePeerPublicKeyBlock :: "crypto \<Rightarrow> 32 word \<Rightarrow> bytes \<Rightarrow> parsed_block cpp" where
  "parsePeerPublicKeyBlock L now binary = do {
     out \<leftarrow> walkBlock L binary 0 OWNER_NONE newParsedBlock;
     if \<not> pbHaveMaster out then no else yes (fillLegacySubkey now out) }"

section \<open>Importing\<close>

text \<open>Text octets as characters and back.\<close>

definition to_text :: "bytes \<Rightarrow> string" where
  "to_text = map (\<lambda>b. char_of (unat b))"

definition of_text :: "string \<Rightarrow> bytes" where
  "of_text = map (\<lambda>c. word_of_nat (of_char c))"

definition decodeKeyBlockToBinary :: "bytes \<Rightarrow> bytes cpp" where
  "decodeKeyBlockToBinary keyBlock =
     (if length keyBlock \<ge> 5 \<and> take 5 keyBlock = of_text dashes
      then on_true (armorDecode (to_text keyBlock)) (\<lambda>(blockType, binary). yes binary)
      else yes keyBlock)"

definition installPeer :: "parsed_block \<Rightarrow> engine \<Rightarrow> engine" where
  "installPeer p S =
     (let S = S\<lparr>peerMasterAlgorithm := pbMasterAlgorithm p, peerSubkeyAlgorithm := pbSubkeyAlgorithm p\<rparr>;
          S = (if pbMasterAlgorithm p = PGP_KEY_ALGORITHM_RSA then S\<lparr>peerMasterPublicKey := pbMasterRsaKey p\<rparr>
               else S\<lparr>peerEd25519PublicKey := pbMasterEd25519Key p\<rparr>);
          S = S\<lparr>peerMasterKeyId := pbMasterKeyId p\<rparr>;
          S = (if pbSubkeyAlgorithm p = PGP_KEY_ALGORITHM_RSA then S\<lparr>peerSubkeyPublicKey := pbSubkeyRsaKey p\<rparr>
               else S\<lparr>peerX25519PublicKey := pbSubkeyX25519Key p, peerSubkeyFingerprint := pbSubkeyFingerprint p\<rparr>)
      in S\<lparr>peerSubkeyKeyId := pbSubkeyKeyId p, peerUserIds := pbUserIds p, peerSubkeys := pbSubkeys p,
           peerKeyImported := True\<rparr>)"

definition ImportPeerPublicKey :: "crypto \<Rightarrow> 32 word \<Rightarrow> engine \<Rightarrow> bytes option \<Rightarrow> (status \<times> engine) option" where
  "ImportPeerPublicKey L now S keyBlock =
     (if \<not> has_text keyBlock then Some (INVALID_ARGUMENT, S)
      else on_read (decodeKeyBlockToBinary (the keyBlock)) (INVALID_DATA, S) (\<lambda>binary.
           on_read (parsePeerPublicKeyBlock L now binary) (INVALID_DATA, S) (\<lambda>parsed.
           Some (NO_ERROR, installPeer parsed S))))"

text \<open>An additional recipient is encrypt-only and needs a usable subkey.\<close>

definition recipientOf :: "parsed_block \<Rightarrow> recipient" where
  "recipientOf p =
     (if pbSubkeyAlgorithm p = PGP_KEY_ALGORITHM_RSA
      then \<lparr> rcAlgorithm = PGP_KEY_ALGORITHM_RSA, rcRsaPublicKey = pbSubkeyRsaKey p, rcRsaKeyId = pbSubkeyKeyId p,
             rcX25519PublicKey = zeros 32, rcX25519KeyId = zeros 8, rcX25519Fingerprint = zeros 20 \<rparr>
      else \<lparr> rcAlgorithm = pbSubkeyAlgorithm p, rcRsaPublicKey = blankRsaPublic, rcRsaKeyId = zeros 8,
             rcX25519PublicKey = pbSubkeyX25519Key p, rcX25519KeyId = pbSubkeyKeyId p,
             rcX25519Fingerprint = pbSubkeyFingerprint p \<rparr>)"

definition ImportAdditionalRecipientPublicKey ::
  "crypto \<Rightarrow> 32 word \<Rightarrow> engine \<Rightarrow> bytes option \<Rightarrow> (status \<times> engine) option" where
  "ImportAdditionalRecipientPublicKey L now S keyBlock =
     (if \<not> peerKeyImported S \<or> \<not> has_text keyBlock then Some (INVALID_ARGUMENT, S)
      else on_read (decodeKeyBlockToBinary (the keyBlock)) (INVALID_DATA, S) (\<lambda>binary.
           on_read (parsePeerPublicKeyBlock L now binary) (INVALID_DATA, S) (\<lambda>parsed.
             if \<not> pbHaveSubkey parsed then Some (INVALID_DATA, S)
             else Some (NO_ERROR, S\<lparr>additionalRecipients := additionalRecipients S @ [recipientOf parsed]\<rparr>))))"

definition SetSymmetricCipherPreference :: "engine \<Rightarrow> symmetric_algorithm option \<Rightarrow> status \<times> engine" where
  "SetSymmetricCipherPreference S algorithm =
     (case algorithm of None \<Rightarrow> (INVALID_ARGUMENT, S)
      | Some a \<Rightarrow> (NO_ERROR, S\<lparr>symmetricCipherPreference := a\<rparr>))"

section \<open>Reading is safe\<close>

lemma scanSubpacketLength_safe [ub_free]:
  "pos < stop \<Longrightarrow> stop \<le> length body \<Longrightarrow> safe (scanSubpacketLength body pos stop)"
  by (simp add: scanSubpacketLength_def)

lemma scanSubpacket_safe [ub_free]:
  "0 < n \<Longrightarrow> pos + n \<le> length body \<Longrightarrow> safe (scanSubpacket body pos n acc)"
  by (auto simp: scanSubpacket_def Let_def)

lemma scanSubpackets_safe [ub_free]: "stop \<le> length body \<Longrightarrow> safe (scanSubpackets body pos stop acc)"
proof (induction body pos stop acc rule: scanSubpackets.induct)
  case (1 body pos stop acc)
  show ?case
  proof (cases "pos \<ge> stop")
    case False
    with 1 have "safe (scanSubpacketLength body pos stop)" by (intro scanSubpacketLength_safe) simp_all
    then show ?thesis
    proof (cases rule: safe_cases)
      case no
      with False show ?thesis by (subst scanSubpackets.simps) simp
    next
      case (yes v)
      obtain n p where v: "v = (n, p)" by (cases v)
      show ?thesis
      proof (cases "n = 0 \<or> p + n > stop")
        case True
        with False yes v show ?thesis by (subst scanSubpackets.simps) simp
      next
        case ok: False
        then have "safe (scanSubpacket body p n acc)" using "1.prems" by (intro scanSubpacket_safe) simp_all
        then show ?thesis
          using False yes v ok "1.IH" [OF False yes refl v [symmetric] ok _ "1.prems"]
          by (subst scanSubpackets.simps) (auto intro!: safe_bind)
      qed
    qed
  qed (subst scanSubpackets.simps, simp)
qed

lemma scanSignatureHashedSubpackets_safe [ub_free]: "safe (scanSignatureHashedSubpackets body)"
  by (auto simp: scanSignatureHashedSubpackets_def readBigEndian16_def intro!: safe_bind scanSubpackets_safe safe_if)

lemma on_packet_safe [ub_free]:
  "safe (onPublicKeyPacket L body out)" "safe (onPublicSubkeyPacket L body out)" "safe (onSignaturePacket body owner out)"
  unfolding onPublicKeyPacket_def onPublicSubkeyPacket_def onSignaturePacket_def readSubkeyMaterial_def Let_def case_prod_unfold
  by (auto intro!: safe_bind safe_if safe_on_read safe_on_true parse_bodies_safe scanSignatureHashedSubpackets_safe
      split: owner.split)

lemma onBlockPacket_safe [ub_free]: "safe (onBlockPacket L tag body owner out)"
  by (auto simp: onBlockPacket_def intro!: safe_bind on_packet_safe)

lemma walkBlock_safe [ub_free]: "safe (walkBlock L binary pos owner out)"
proof (induction L binary pos owner out rule: walkBlock.induct)
  case (1 L binary pos owner out)
  show ?case
  proof (cases "pos \<ge> length binary")
    case False
    show ?thesis
    proof (cases rule: safe_cases [OF readPacketHeader_safe [of binary pos None False]])
      case 1
      with False show ?thesis by (subst walkBlock.simps) simp
    next
      case (2 v)
      obtain tag n p part where v: "v = (tag, n, p, part)" by (cases v)
      show ?thesis
        using False 2 v "1.IH" [OF False 2 refl v [symmetric] refl refl]
        by (subst walkBlock.simps) (auto intro!: safe_bind onBlockPacket_safe)
    qed
  qed (subst walkBlock.simps, simp)
qed

lemma parsePeerPublicKeyBlock_safe [ub_free]: "safe (parsePeerPublicKeyBlock L now binary)"
  by (auto simp: parsePeerPublicKeyBlock_def intro!: safe_bind walkBlock_safe)

end
