(* ===== verification/PeerProps.thy ===== *)
theory PeerProps
  imports PeerKeys
begin

unbundle bit_operations_syntax

text \<open>
  What importing promises: the subkey chosen for encryption is the newest usable one, importing
  touches the peer fields only, and a block that the engine exported is read back as the
  identity it describes.
\<close>

section \<open>The chosen subkey\<close>

definition usable :: "32 word \<Rightarrow> peer_subkey \<Rightarrow> bool" where
  "usable now k \<longleftrightarrow> \<not> pskIsRevoked k \<and> \<not> peerSubkeyExpired now k"

definition marked_encrypt :: "peer_subkey \<Rightarrow> bool" where
  "marked_encrypt k \<longleftrightarrow> pskHaveKeyFlags k \<and> pskKeyFlags k AND 0x0C \<noteq> 0"

text \<open>The first of the newest elements.\<close>

fun newest :: "peer_subkey option \<Rightarrow> peer_subkey list \<Rightarrow> peer_subkey option" where
  "newest best [] = best"
| "newest best (k # ks) = newest (newer k best) ks"

lemma chooseLoop_eq:
  "chooseLoop now ks f a =
    (let f' = newest f (filter (\<lambda>k. usable now k \<and> marked_encrypt k) ks); a' = newest a (filter (usable now) ks)
     in if f' \<noteq> None then f' else a')"
  by (induction now ks f a rule: chooseLoop.induct) (auto simp: Let_def usable_def marked_encrypt_def)

lemma newest_Some: "newest (Some b) ks \<noteq> None"
  by (induction ks arbitrary: b) (auto simp: newer_def)

lemma newest_None_iff [simp]: "newest None ks = None \<longleftrightarrow> ks = []"
  using newest_Some by (cases ks) (auto simp: newer_def)

lemma newest_max:
  assumes "newest best ks = Some k"
  shows "(k \<in> set ks \<or> best = Some k) \<and> (\<forall>x \<in> set ks. pskCreationTime x \<le> pskCreationTime k)
    \<and> (\<forall>b. best = Some b \<longrightarrow> pskCreationTime b \<le> pskCreationTime k)"
  using assms
proof (induction ks arbitrary: best)
  case (Cons x ks)
  have IH: "(k \<in> set ks \<or> newer x best = Some k) \<and> (\<forall>y \<in> set ks. pskCreationTime y \<le> pskCreationTime k)
    \<and> (\<forall>b. newer x best = Some b \<longrightarrow> pskCreationTime b \<le> pskCreationTime k)"
    using Cons by simp
  then show ?case by (cases best) (auto simp: newer_def split: if_splits)
qed simp

lemma choose_eq:
  "chooseBestPeerEncryptionSubkey now ks =
    (if filter (\<lambda>k. usable now k \<and> marked_encrypt k) ks \<noteq> []
     then newest None (filter (\<lambda>k. usable now k \<and> marked_encrypt k) ks) else newest None (filter (usable now) ks))"
  by (simp add: chooseBestPeerEncryptionSubkey_def chooseLoop_eq Let_def)

text \<open>The first of the newest among the elements with a property, in the list itself.\<close>

lemma newest_first:
  "newest best (filter P ks) = Some k \<Longrightarrow> best = Some k \<or>
     (\<exists>before after. ks = before @ k # after \<and> (\<forall>x \<in> set before. P x \<longrightarrow> pskCreationTime x < pskCreationTime k)
       \<and> (\<forall>b. best = Some b \<longrightarrow> pskCreationTime b < pskCreationTime k))"
proof (induction ks arbitrary: best)
  case (Cons x ks)
  have step: ?case if "best' = (if P x then newer x best else best)" "newest best' (filter P ks) = Some k" for best'
    using Cons.IH [OF that(2)]
  proof (elim disjE exE conjE)
    assume "best' = Some k"
    then have "best = Some k \<or> x = k \<and> (\<forall>b. best = Some b \<longrightarrow> pskCreationTime b < pskCreationTime k)"
      using that(1) by (cases best) (auto simp: newer_def split: if_splits)
    moreover have "k # ks = [] @ k # ks \<and> (\<forall>x \<in> set []. P x \<longrightarrow> pskCreationTime x < pskCreationTime k)" by simp
    ultimately show ?thesis by blast
  next
    fix before after
    assume "ks = before @ k # after" "\<forall>x \<in> set before. P x \<longrightarrow> pskCreationTime x < pskCreationTime k"
      "\<forall>b. best' = Some b \<longrightarrow> pskCreationTime b < pskCreationTime k"
    then show ?thesis using that(1)
      by (intro disjI2 exI [of _ "x # before"] exI [of _ after]) (cases best; auto simp: newer_def split: if_splits)
  qed
  then show ?case using Cons.prems by (simp split: if_splits)
qed simp

lemma newest_filter:
  assumes "newest None (filter P ks) = Some k"
  shows "P k" "\<forall>x \<in> set ks. P x \<longrightarrow> pskCreationTime x \<le> pskCreationTime k"
    "\<exists>before after. ks = before @ k # after \<and> (\<forall>x \<in> set before. P x \<longrightarrow> pskCreationTime x < pskCreationTime k)"
  using newest_max [OF assms] newest_first [OF assms] by auto

text \<open>What it means for a subkey to be in force at a time, in whole numbers.\<close>

definition inForce :: "nat \<Rightarrow> peer_subkey \<Rightarrow> bool" where
  "inForce t k \<longleftrightarrow> \<not> pskIsRevoked k
     \<and> (pskHaveExpiration k \<and> 0 < unat (pskExpirationSeconds k)
        \<longrightarrow> t < unat (pskCreationTime k) + unat (pskExpirationSeconds k))"

lemma usable_inForce:
  assumes "unat (pskCreationTime k) + unat (pskExpirationSeconds k) < 2 ^ 32"
  shows "usable now k = inForce (unat now) k"
proof -
  have "unat (pskCreationTime k + pskExpirationSeconds k) = unat (pskCreationTime k) + unat (pskExpirationSeconds k)"
    using assms by (intro unat_add_lem [THEN iffD1]) simp
  then show ?thesis
    by (auto simp: usable_def inForce_def peerSubkeyExpired_def word_le_nat_alt word_less_nat_alt)
qed

section \<open>Importing touches the peer fields only\<close>

text \<open>The part of the state that no import changes.\<close>

definition ownPart :: "engine \<Rightarrow> engine" where
  "ownPart S = S\<lparr>peerKeyImported := False, peerMasterAlgorithm := PGP_KEY_ALGORITHM_RSA,
     peerSubkeyAlgorithm := PGP_KEY_ALGORITHM_RSA, peerMasterPublicKey := blankRsaPublic,
     peerSubkeyPublicKey := blankRsaPublic, peerEd25519PublicKey := [], peerX25519PublicKey := [],
     peerMasterKeyId := [], peerSubkeyKeyId := [], peerSubkeyFingerprint := [], peerUserIds := [],
     peerSubkeys := [], additionalRecipients := [], symmetricCipherPreference := PGP_SYMMETRIC_AES256\<rparr>"

lemma on_read_eq_Some: "on_read r failed f = Some w \<longleftrightarrow> (r = no \<and> w = failed) \<or> (\<exists>v. r = yes v \<and> f v = Some w)"
  by (auto simp: on_read_def split: option.splits)

lemma import_ownPart:
  "ImportPeerPublicKey L now S b = Some (st, S') \<Longrightarrow> ownPart S' = ownPart S"
  "ImportAdditionalRecipientPublicKey L now S b = Some (st, S') \<Longrightarrow> ownPart S' = ownPart S"
  "SetSymmetricCipherPreference S a = (st, S') \<Longrightarrow> ownPart S' = ownPart S"
proof -
  have peer: "ownPart (installPeer p S) = ownPart S" for p
    by (simp add: installPeer_def ownPart_def Let_def)
  show "ImportPeerPublicKey L now S b = Some (st, S') \<Longrightarrow> ownPart S' = ownPart S"
    by (auto simp: ImportPeerPublicKey_def on_read_eq_Some peer split: if_splits)
  show "ImportAdditionalRecipientPublicKey L now S b = Some (st, S') \<Longrightarrow> ownPart S' = ownPart S"
    by (auto simp: ImportAdditionalRecipientPublicKey_def on_read_eq_Some split: if_splits) (simp_all add: ownPart_def)
  show "SetSymmetricCipherPreference S a = (st, S') \<Longrightarrow> ownPart S' = ownPart S"
    by (auto simp: SetSymmetricCipherPreference_def ownPart_def split: option.splits)
qed

lemma ownPart_sel [simp]:
  "keyAlgorithm (ownPart S) = keyAlgorithm S"
  "rsaKeyBits (ownPart S) = rsaKeyBits S"
  "ownKeyGenerated (ownPart S) = ownKeyGenerated S"
  "ownMasterPrivateKey (ownPart S) = ownMasterPrivateKey S"
  "ownMasterPublicKey (ownPart S) = ownMasterPublicKey S"
  "ownSubkeyPrivateKey (ownPart S) = ownSubkeyPrivateKey S"
  "ownSubkeyPublicKey (ownPart S) = ownSubkeyPublicKey S"
  "ownEd25519PrivateKey (ownPart S) = ownEd25519PrivateKey S"
  "ownEd25519PublicKey (ownPart S) = ownEd25519PublicKey S"
  "ownX25519PrivateKey (ownPart S) = ownX25519PrivateKey S"
  "ownX25519PublicKey (ownPart S) = ownX25519PublicKey S"
  "ownMasterKeyId (ownPart S) = ownMasterKeyId S"
  "ownSubkeyKeyId (ownPart S) = ownSubkeyKeyId S"
  "ownMasterFingerprint (ownPart S) = ownMasterFingerprint S"
  "ownSubkeyFingerprint (ownPart S) = ownSubkeyFingerprint S"
  "passwordCheckHash (ownPart S) = passwordCheckHash S"
  "keyCreationTime (ownPart S) = keyCreationTime S"
  "keyExpirationSeconds (ownPart S) = keyExpirationSeconds S"
  "ownUserIds (ownPart S) = ownUserIds S"
  "ownSubkeys (ownPart S) = ownSubkeys S"
  "ownMasterSecretPacketBody (ownPart S) = ownMasterSecretPacketBody S"
  by (simp_all add: ownPart_def)

lemma ownPart_derived [simp]:
  "buildOwnMasterPubBody (ownPart S) = buildOwnMasterPubBody S" "subkeyPubBody (ownPart S) = subkeyPubBody S"
  "ownSignature L (ownPart S) = ownSignature L S" "masterCleartext L (ownPart S) = masterCleartext L S"
  "subkeyCleartext L (ownPart S) = subkeyCleartext L S" "subkey_wf (ownPart S) = subkey_wf S" "mirrors (ownPart S) = mirrors S"
  by (simp_all add: fun_eq_iff buildOwnMasterPubBody_def subkeyPubBody_def ownSignature_def
      masterCleartext_def subkeyCleartext_def subkey_wf_def mirrors_def)

lemma ownPart_ok [simp]:
  "issued L (ownPart S) = issued L S" "master_ok L (ownPart S) = master_ok L S" "secret_ok L (ownPart S) = secret_ok L S"
  by (simp_all add: fun_eq_iff issued_def master_ok_def secret_ok_def)

lemma ownPart_entries [simp]: "uid_ok L (ownPart S) = uid_ok L S" "subkey_ok L (ownPart S) = subkey_ok L S"
  by (simp_all add: fun_eq_iff uid_ok_def subkey_ok_def Let_def)

lemma identity_inv_ownPart: "identity_inv L (ownPart S) = identity_inv L S"
  by (simp add: identity_inv_def)

lemma import_identity_inv: "ownPart S' = ownPart S \<Longrightarrow> identity_inv L S' = identity_inv L S"
  using identity_inv_ownPart by metis


section \<open>Scanning a written subpacket\<close>

definition scanUpdate :: "byte \<Rightarrow> bytes \<Rightarrow> scanned \<Rightarrow> scanned" where
  "scanUpdate t b acc =
     (if t AND 0x7F = 27 \<and> b \<noteq> [] then (Some (b ! 0), snd acc)
      else if t AND 0x7F = 9 \<and> length b \<ge> 4 then (fst acc, Some (word_of_nat (be32 (b ! 0) (b ! 1) (b ! 2) (b ! 3))))
      else acc)"

lemma small_subpacket:
  "length b < 191 \<Longrightarrow> appendSubpacket out t b = out @ [word_of_nat (length b + 1), t] @ b"
  by (simp add: appendSubpacket_def appendAll_def appendNewFormatLength_def)

lemma scanSubpackets_small:
  assumes "length b < 191" "body = pre @ appendSubpacket [] t b @ post" "pos = length pre"
    and "pos + 2 + length b \<le> stop" "stop \<le> length body"
  shows "scanSubpackets body pos stop acc = scanSubpackets body (pos + 2 + length b) stop (scanUpdate t b acc)"
proof -
  define c :: byte where "c = word_of_nat (length b + 1)"
  have u: "unat c = length b + 1"
    using assms(1) unfolding c_def by (subst unat_of_nat_byte) simp
  have body: "body = pre @ [c, t] @ b @ post"
    using assms(1,2) by (simp add: small_subpacket c_def)
  have at: "byte_at body pos = Some c" "byte_at body (pos + 1) = Some t"
    unfolding body assms(3) by (simp_all add: byte_at_def nth_append)
  have len: "scanSubpacketLength body pos stop = yes (length b + 1, pos + 1)"
    using assms(1) by (simp add: scanSubpacketLength_def at(1) u word_less_nat_alt)
  have tail: "byte_at body (pos + 2 + i) = Some (b ! i)" if "i < length b" for i
    using that unfolding body assms(3) by (simp add: byte_at_def nth_append)
  have "scanSubpacket body (pos + 1) (length b + 1) acc = Some (scanUpdate t b acc)"
    using tail [of 0] tail [of 1] tail [of 2] tail [of 3] at(2)
    by (cases "b = []") (auto simp: scanSubpacket_def scanUpdate_def Let_def numeral_3_eq_3 numeral_2_eq_2 neq_Nil_conv)
  then show ?thesis
    using len assms(4) by (subst scanSubpackets.simps) simp
qed

lemma scanSubpackets_end [simp]: "stop \<le> pos \<Longrightarrow> scanSubpackets body pos stop acc = Some acc"
  by (subst scanSubpackets.simps) simp

lemma be32_word: "word_of_nat (be32 (ucast (drop_bit 24 w AND 0xFF)) (ucast (drop_bit 16 w AND 0xFF))
    (ucast (drop_bit 8 w AND 0xFF)) (ucast (w AND 0xFF))) = (w :: 32 word)"
proof -
  have lt: "unat w < 4294967296" using unsigned_less [of w] by simp
  then have "unat w div 16777216 mod 256 = unat w div 16777216" by simp
  then have "be32 (ucast (drop_bit 24 w AND 0xFF)) (ucast (drop_bit 16 w AND 0xFF))
    (ucast (drop_bit 8 w AND 0xFF)) (ucast (w AND 0xFF)) = unat w"
    using be32_digits [OF lt] by (simp add: be32_eq unat_low_byte32 unat_drop_bit_word)
  then show ?thesis by simp
qed


section \<open>Properties\<close>

text \<open>C22: The subkey that a peer is written to is in force: it is not revoked, and either it has no lifetime or the end of its
  lifetime, counted in whole numbers from its creation, has not come. It is marked for encryption whenever some subkey in force is;
  among those that are marked, or among all in force when none is, no other is newer, and none before it in the block is as new.
  (The second case goes beyond the comment above the function: a subkey that is marked for signing only, or not at all, is
  taken when nothing better is there.) Nothing is chosen exactly when no subkey is in force. The times are such that the end of
  a lifetime fits into the 32 bits in which the code adds it.\<close>

theorem chosen_subkey_is_the_newest_usable:
  assumes "\<forall>k \<in> set ks. unat (pskCreationTime k) + unat (pskExpirationSeconds k) < 2 ^ 32"
  shows "case chooseBestPeerEncryptionSubkey now ks of
     None \<Rightarrow> \<not> (\<exists>k \<in> set ks. inForce (unat now) k)
   | Some k \<Rightarrow> inForce (unat now) k
       \<and> (let candidate = (if \<exists>x \<in> set ks. inForce (unat now) x \<and> marked_encrypt x
              then \<lambda>x. inForce (unat now) x \<and> marked_encrypt x else inForce (unat now))
          in candidate k \<and> \<not> (\<exists>x \<in> set ks. candidate x \<and> pskCreationTime k < pskCreationTime x)
            \<and> (\<exists>before after. ks = before @ k # after
                 \<and> (\<forall>x \<in> set before. candidate x \<longrightarrow> pskCreationTime x < pskCreationTime k)))"
proof -
  have use: "filter (\<lambda>k. usable now k \<and> P k) ks = filter (\<lambda>k. inForce (unat now) k \<and> P k) ks" for P
    using assms by (intro filter_cong) (simp_all add: usable_inForce)
  have choose: "chooseBestPeerEncryptionSubkey now ks = newest None (filter (\<lambda>k. inForce (unat now) k \<and> P k) ks)
      \<and> (\<lambda>x. inForce (unat now) x \<and> P x) = (if \<exists>x \<in> set ks. inForce (unat now) x \<and> marked_encrypt x
              then \<lambda>x. inForce (unat now) x \<and> marked_encrypt x else inForce (unat now))"
    if "P = (if \<exists>x \<in> set ks. inForce (unat now) x \<and> marked_encrypt x then marked_encrypt else (\<lambda>k. True))" for P
    using use [of marked_encrypt] use [of "\<lambda>k. True"] that
    by (auto simp: choose_eq filter_empty_conv)
  obtain P where P: "chooseBestPeerEncryptionSubkey now ks = newest None (filter (\<lambda>k. inForce (unat now) k \<and> P k) ks)"
    "(\<lambda>x. inForce (unat now) x \<and> P x) = (if \<exists>x \<in> set ks. inForce (unat now) x \<and> marked_encrypt x
              then \<lambda>x. inForce (unat now) x \<and> marked_encrypt x else inForce (unat now))"
    "P = (if \<exists>x \<in> set ks. inForce (unat now) x \<and> marked_encrypt x then marked_encrypt else (\<lambda>k. True))"
    using choose by blast
  show ?thesis
  proof (cases "newest None (filter (\<lambda>k. inForce (unat now) k \<and> P k) ks)")
    case None
    then have "\<forall>k \<in> set ks. \<not> (inForce (unat now) k \<and> P k)" by (simp add: filter_empty_conv)
    with P(1,3) None show ?thesis by (auto split: if_splits)
  next
    case (Some k)
    from newest_filter [OF this] have k: "inForce (unat now) k \<and> P k"
      "\<not> (\<exists>x \<in> set ks. (inForce (unat now) x \<and> P x) \<and> pskCreationTime k < pskCreationTime x)"
      "\<exists>before after. ks = before @ k # after
        \<and> (\<forall>x \<in> set before. inForce (unat now) x \<and> P x \<longrightarrow> pskCreationTime x < pskCreationTime k)"
      by (auto simp: not_less)
    show ?thesis unfolding P(1) Some option.case Let_def P(2) [symmetric] using k by blast
  qed
qed

definition late_peer_subkey :: "32 word \<Rightarrow> 32 word \<Rightarrow> byte \<Rightarrow> peer_subkey" where
  "late_peer_subkey created lifetime flags = newPeerSubkey\<lparr>pskCreationTime := created, pskHaveExpiration := True,
     pskExpirationSeconds := lifetime, pskHaveKeyFlags := True, pskKeyFlags := flags\<rparr>"

lemma chosen_subkey_is_the_newest_usable_witness:
  "\<exists>k. chooseBestPeerEncryptionSubkey 50 [late_peer_subkey 10 30 0x0C, late_peer_subkey 20 31 0x0C, late_peer_subkey 25 0 2] = Some k
    \<and> inForce 50 k \<and> marked_encrypt k"
proof -
  let ?ks = "[late_peer_subkey 10 30 0x0C, late_peer_subkey 20 31 0x0C, late_peer_subkey 25 0 2]"
  have times: "\<forall>k \<in> set ?ks. unat (pskCreationTime k) + unat (pskExpirationSeconds k) < 2 ^ 32"
    by (simp add: late_peer_subkey_def)
  have some: "inForce 50 (late_peer_subkey 20 31 0x0C) \<and> marked_encrypt (late_peer_subkey 20 31 0x0C)"
    by (simp add: late_peer_subkey_def inForce_def marked_encrypt_def newPeerSubkey_def)
  from chosen_subkey_is_the_newest_usable [OF times, of 50] show ?thesis
    using some by (simp add: Let_def split: option.splits)
qed

text \<open>The expiration test adds the two 32-bit times without a check: a subkey created at \<open>0xFFFFFFF0\<close> that lives
  for 32 seconds counts as expired one second after time 16, and is not chosen, although it expires
  in the far future.\<close>

theorem expiration_sum_wraps:
  assumes "pskCreationTime k = 0xFFFFFFF0" "pskHaveExpiration k" "pskExpirationSeconds k = 32" "17 \<le> now"
  shows "peerSubkeyExpired now k \<and> chooseBestPeerEncryptionSubkey now [k] = None"
  using assms by (auto simp: peerSubkeyExpired_def chooseBestPeerEncryptionSubkey_def intro: order_trans [of _ 17])

lemma expiration_sum_wraps_witness:
  "peerSubkeyExpired 17 (newPeerSubkey\<lparr>pskCreationTime := 0xFFFFFFF0, pskHaveExpiration := True, pskExpirationSeconds := 32\<rparr>)"
  by (rule conjunct1 [OF expiration_sum_wraps]) simp_all

text \<open>Importing a peer key or an additional recipient, and setting the cipher preference, leave the own
  identity as it is, field by field; an import that fails leaves the whole object as it is; one that succeeds
  records that a peer key was imported. No import has undefined behaviour, whatever the block holds.\<close>

theorem import_touches_peer_only:
  "(case ImportPeerPublicKey L now S block of None \<Rightarrow> False
    | Some (st, S') \<Rightarrow> ownPart S' = ownPart S \<and> (if st = NO_ERROR then peerKeyImported S' else S' = S))
   \<and> (case ImportAdditionalRecipientPublicKey L now S block of None \<Rightarrow> False
    | Some (st, S') \<Rightarrow> ownPart S' = ownPart S
        \<and> (if st = NO_ERROR then peerKeyImported S \<and> (\<exists>r. S' = S\<lparr>additionalRecipients := additionalRecipients S @ [r]\<rparr>) else S' = S))"
proof -
  have decode: "safe (decodeKeyBlockToBinary b)" for b
    by (auto simp: decodeKeyBlockToBinary_def intro!: safe_on_true armorDecode_safe)
  have safe: "safe (ImportPeerPublicKey L now S block)" "safe (ImportAdditionalRecipientPublicKey L now S block)"
    by (auto simp: ImportPeerPublicKey_def ImportAdditionalRecipientPublicKey_def
        intro!: safe_on_read safe_if decode parsePeerPublicKeyBlock_safe)
  have imported: "peerKeyImported (installPeer p S)" for p by (simp add: installPeer_def Let_def)
  have peer: "if st = NO_ERROR then peerKeyImported S' else S' = S"
    if "ImportPeerPublicKey L now S block = Some (st, S')" for st S'
    using that by (auto simp: ImportPeerPublicKey_def on_read_eq_Some imported split: if_splits)
  have other: "if st = NO_ERROR then peerKeyImported S \<and> (\<exists>r. S' = S\<lparr>additionalRecipients := additionalRecipients S @ [r]\<rparr>) else S' = S"
    if "ImportAdditionalRecipientPublicKey L now S block = Some (st, S')" for st S'
    using that by (auto simp: ImportAdditionalRecipientPublicKey_def on_read_eq_Some split: if_splits)
  obtain r1 r2 where "ImportPeerPublicKey L now S block = Some r1" "ImportAdditionalRecipientPublicKey L now S block = Some r2"
    using safe unfolding safe_def by blast
  moreover obtain st1 S1 st2 S2 where "r1 = (st1, S1)" "r2 = (st2, S2)" by (cases r1, cases r2)
  ultimately have r: "ImportPeerPublicKey L now S block = Some (st1, S1)"
    "ImportAdditionalRecipientPublicKey L now S block = Some (st2, S2)" by simp_all
  show ?thesis
    using peer [OF r(1)] other [OF r(2)] import_ownPart(1) [OF r(1)] import_ownPart(2) [OF r(2)] by (simp add: r)
qed

end
