(* ===== verification/ExportImport.thy ===== *)
theory ExportImport
  imports PeerProps
begin

unbundle bit_operations_syntax

text \<open>
  The public block that the engine exports, read back by the parser it uses for peers: the master
  key, every user ID with its revocation state and every subkey with its flags, expiration and
  revocation state come back as they are in the state.
\<close>

section \<open>Own signature packets as the block parser sees them\<close>

lemma sign_body:
  assumes "master_ok L S" "digests_ok L" "length extra < 65530"
  obtains pk h u l m where
    "ownSignature L S t st doc extra
      = writePacket PGP_TAG_SIGNATURE (signatureBody st pk h (signatureHashedSubpackets t extra) u l m)"
    "length (signatureBody st pk h (signatureHashedSubpackets t extra) u l m) < 4294967296"
proof -
  have id: "length (ownMasterKeyId S) = 8"
    using assms(1) length_keyId [OF assms(2), of "buildOwnMasterPubBody S"] by (metis master_ok_def snd_conv)
  have us: "length (appendSubpacket [] 16 (ownMasterKeyId S)) = 10" using id by (rule length_issuerSubpacket)
  have mpi: "length (encodeMpi (integerDecode bs)) \<le> 8200" if "length bs \<le> 8191" for bs
    using bitCount_integerDecode [of bs] that unfolding length_encodeMpi by linarith
  have hs: "length (signatureHashedSubpackets t extra) < 65536"
    using assms(3) by (simp add: length_signatureHashedSubpackets)
  have bound: "length (signatureBody st pk h (signatureHashedSubpackets t extra) (appendSubpacket [] 16 (ownMasterKeyId S)) l m) < 4294967296"
    if "length m \<le> 16400" for pk h l m
    unfolding length_signatureBody us using hs that by linarith
  show ?thesis
  proof (cases "keyAlgorithm S = PGP_KEY_ALGORITHM_RSA")
    case True
    with assms(1) have "length (rsaSign L (ownMasterPrivateKey S) d) \<le> 8191" for d
      by (simp add: master_ok_def rsa_sign_ok_def)
    then have "length (encodeMpi (integerDecode (rsaSign L (ownMasterPrivateKey S) d))) \<le> 16400" for d
      by (intro order_trans [OF mpi]) simp_all
    from that [OF _ bound [OF this]] True show ?thesis
      by (simp add: ownSignature_def buildSignaturePacket_def Let_def)
  next
    case False
    have "length (appendAll (encodeMpi (integerDecode (take 32 x))) (encodeMpi (integerDecode (take 32 y)))) \<le> 16400" for x y
      using mpi [of "take 32 x"] mpi [of "take 32 y"] by (simp add: appendAll_def min_le_iff_disj)
    from that [OF _ bound [OF this]] False show ?thesis
      by (simp add: ownSignature_def buildEd25519SignaturePacket_def Let_def)
  qed
qed

lemma scan_signatureBody:
  assumes "length hs < 65536" "B = signatureBody st pk h hs u l m"
  shows "scanSignatureHashedSubpackets B = do { acc \<leftarrow> scanSubpackets B 6 (6 + length hs) (None, None); yes (st, acc) }"
proof -
  have B: "B = [4, st, pk, h] @ putCounted16 hs @ putCounted16 u @ [l ! 0, l ! 1] @ m"
    using assms(2) by (simp only: signatureBody_eq)
  define H where "H = [4, st, pk, h]"
  have "length H = 4" by (simp add: H_def)
  then have "readBigEndian16 B 4 = Some (length hs)"
    using readBigEndian16_appendBigEndian16 [of H "word_of_nat (length hs)" "hs @ putCounted16 u @ [l ! 0, l ! 1] @ m"] assms(1)
    unfolding B putCounted16_def H_def [symmetric] by (simp add: unat_of_nat)
  moreover have "\<not> length B < 6" "\<not> 6 + length hs > length B" "B ! 0 = 4" "byte_at B 1 = Some st"
    unfolding B putCounted16_def by (simp_all add: byte_at_def)
  ultimately show ?thesis by (simp add: scanSignatureHashedSubpackets_def)
qed

lemma scan_any:
  assumes "length hs < 65536"
  obtains acc where "scanSignatureHashedSubpackets (signatureBody st pk h hs u l m) = yes (st, acc)"
proof -
  let ?B = "signatureBody st pk h hs u l m"
  have "safe (scanSubpackets ?B 6 (6 + length hs) (None, None))"
    by (rule scanSubpackets_safe) (simp add: length_signatureBody)
  then obtain acc where "scanSubpackets ?B 6 (6 + length hs) (None, None) = Some acc"
    by (auto simp: safe_def)
  with that scan_signatureBody [OF assms refl] show ?thesis by simp
qed

definition bindingScan :: "byte \<Rightarrow> 32 word \<Rightarrow> scanned" where
  "bindingScan f e = (Some f, if e > 0 then Some e else None)"

lemma scan_binding:
  "scanSignatureHashedSubpackets (signatureBody st pk h (signatureHashedSubpackets t (flagsAndExpiration f e)) u l m)
    = yes (st, bindingScan f e)"
proof -
  let ?hs = "signatureHashedSubpackets t (flagsAndExpiration f e)"
  define B where "B = signatureBody st pk h ?hs u l m"
  define H where "H = [4, st, pk, h] @ appendBigEndian16 [] (word_of_nat (length ?hs))"
  define R where "R = putCounted16 u @ [l ! 0, l ! 1] @ m"
  have H: "length H = 6" by (simp add: H_def)
  let ?time = "appendSubpacket [] 2 (appendBigEndian32 [] t)" and ?flags = "appendSubpacket [] 27 [f]"
    and ?exp = "appendSubpacket [] 9 (appendBigEndian32 [] e)"
  have hs: "?hs = ?time @ ?flags @ (if e > 0 then ?exp else [])"
    by (simp add: signatureHashedSubpackets_def flagsAndExpiration_def appendAll_def buildKeyFlagsSubpacket_def
        buildKeyExpirationSubpacket_def Let_def)
  have B: "B = H @ ?hs @ R" by (simp add: B_def H_def R_def signatureBody_eq putCounted16_def)
  have len: "length ?hs = 6 + 3 + (if e > 0 then 6 else 0)" "length ?time = 6" "length ?flags = 3"
    by (simp_all add: hs length_appendSubpacket newFormatLengthOctets_def)
  let ?stop = "6 + length ?hs"
  have stop: "?stop \<le> length B" using H by (simp add: B)
  have "scanSubpackets B 6 ?stop (None, None) = scanSubpackets B 12 ?stop (None, None)"
    using scanSubpackets_small [of "appendBigEndian32 [] t" B H 2 "?flags @ (if e > 0 then ?exp else []) @ R" 6 ?stop "(None, None)"]
      stop H len by (simp add: B hs scanUpdate_def)
  also have "\<dots> = scanSubpackets B 15 ?stop (Some f, None)"
    using scanSubpackets_small [of "[f]" B "H @ ?time" 27 "(if e > 0 then ?exp else []) @ R" 12 ?stop "(None, None)"]
      stop H len by (simp add: B hs scanUpdate_def)
  also have "\<dots> = Some (bindingScan f e)"
  proof (cases "e > 0")
    case True
    have "scanUpdate 9 (appendBigEndian32 [] e) (Some f, None) = bindingScan f e"
      using True be32_word [of e] by (simp add: scanUpdate_def bindingScan_def appendBigEndian32_def)
    then show ?thesis
      using scanSubpackets_small [of "appendBigEndian32 [] e" B "H @ ?time @ ?flags" 9 R 15 ?stop "(Some f, None)"]
        stop H len True by (simp add: B hs)
  qed (simp add: len bindingScan_def)
  finally show ?thesis
    using scan_signatureBody [OF _ B_def] len by (simp add: B_def split: if_splits)
qed


section \<open>One step of the walk\<close>

lemma walkBlock_end [simp]: "length binary \<le> pos \<Longrightarrow> walkBlock L binary pos owner out = Some out"
  by (subst walkBlock.simps) simp

lemma walkBlock_step:
  assumes "unat tag < 64" "length body < 4294967296"
    and "binary = pre @ writePacket tag body @ post" "pos = length pre"
    and "onBlockPacket L tag body owner out = Some (owner', out')"
  shows "walkBlock L binary pos owner out = walkBlock L binary (pos + length (writePacket tag body)) owner' out'"
  using readPacketHeader_at [OF assms(1-4)] assms
  by (subst walkBlock.simps) (simp add: length_writePacket add.assoc)

text \<open>A signature packet of the own key leaves the owner and changes what its type says.\<close>

definition afterSignature :: "byte \<Rightarrow> scanned \<Rightarrow> owner \<Rightarrow> parsed_block \<Rightarrow> parsed_block" where
  "afterSignature st acc owner out = (case owner of
     OWNER_UID i \<Rightarrow> if st = 0x30 \<and> i < length (pbUserIds out)
       then out\<lparr>pbUserIds := (pbUserIds out)[i := (pbUserIds out ! i)\<lparr>puIsRevoked := True\<rparr>]\<rparr> else out
   | OWNER_SUBKEY i \<Rightarrow> if i < length (pbSubkeys out) then
       (if st = 0x28 then out\<lparr>pbSubkeys := (pbSubkeys out)[i := (pbSubkeys out ! i)\<lparr>pskIsRevoked := True\<rparr>]\<rparr>
        else if st = 0x18 then out\<lparr>pbSubkeys := (pbSubkeys out)[i := applyBinding acc (pbSubkeys out ! i)]\<rparr> else out) else out
   | _ \<Rightarrow> out)"

lemma onSignaturePacket_after:
  "scanSignatureHashedSubpackets body = yes (st, acc) \<Longrightarrow> onSignaturePacket body owner out = Some (afterSignature st acc owner out)"
  by (simp add: onSignaturePacket_def afterSignature_def split: owner.split)

lemma walk_signature:
  assumes "master_ok L S" "digests_ok L" "length extra < 65530"
    and "binary = pre @ ownSignature L S t st doc extra @ post" "pos = length pre"
  obtains acc where "walkBlock L binary pos owner out
      = walkBlock L binary (pos + length (ownSignature L S t st doc extra)) owner (afterSignature st acc owner out)"
    "\<And>f e. extra = flagsAndExpiration f e \<Longrightarrow> acc = bindingScan f e"
proof -
  obtain pk h u l m where sig: "ownSignature L S t st doc extra
      = writePacket PGP_TAG_SIGNATURE (signatureBody st pk h (signatureHashedSubpackets t extra) u l m)"
    and len: "length (signatureBody st pk h (signatureHashedSubpackets t extra) u l m) < 4294967296"
    by (rule sign_body [OF assms(1-3), where t = t and st = st and doc = doc])
  obtain acc where acc: "scanSignatureHashedSubpackets (signatureBody st pk h (signatureHashedSubpackets t extra) u l m) = yes (st, acc)"
    by (rule scan_any [of "signatureHashedSubpackets t extra" st pk h u l m])
      (use assms(3) in \<open>simp_all add: length_signatureHashedSubpackets\<close>)
  have "walkBlock L binary pos owner out = walkBlock L binary
      (pos + length (ownSignature L S t st doc extra)) owner (afterSignature st acc owner out)"
    unfolding sig
    by (rule walkBlock_step [OF _ len])
      (use assms(4,5) sig onSignaturePacket_after [OF acc] in \<open>simp_all add: onBlockPacket_def\<close>)
  moreover have "acc = bindingScan f e" if "extra = flagsAndExpiration f e" for f e
    using acc scan_binding [of st pk h t f e u l m] that by simp
  ultimately show ?thesis by (rule that)
qed

lemma walk_binding:
  assumes "master_ok L S" "digests_ok L"
    and "binary = pre @ ownSignature L S t st doc (flagsAndExpiration f e) @ post" "pos = length pre"
  shows "walkBlock L binary pos owner out
      = walkBlock L binary (pos + length (ownSignature L S t st doc (flagsAndExpiration f e))) owner
          (afterSignature st (bindingScan f e) owner out)"
proof -
  obtain acc where acc: "walkBlock L binary pos owner out
      = walkBlock L binary (pos + length (ownSignature L S t st doc (flagsAndExpiration f e))) owner (afterSignature st acc owner out)"
    "\<And>f' e'. flagsAndExpiration f e = flagsAndExpiration f' e' \<Longrightarrow> acc = bindingScan f' e'"
    using walk_signature [OF assms(1,2) cert_extra_short(1) assms(3,4), where owner = owner and out = out] by metis
  show ?thesis using acc(1) unfolding acc(2) [OF refl] .
qed

section \<open>Master key, user IDs, subkeys\<close>

definition renderUid :: "own_user_id \<Rightarrow> bytes" where
  "renderUid uid = writePacket PGP_TAG_USER_ID (uidText uid) @ uidCertSigPacket uid
     @ (if uidIsRevoked uid then uidRevocationSigPacket uid else [])"

definition renderSubkey :: "engine \<Rightarrow> own_subkey \<Rightarrow> bytes" where
  "renderSubkey S k = writePacket PGP_TAG_PUBLIC_SUBKEY (subkeyPubBody S k) @ skBindingSigPacket k
     @ (if skIsRevoked k then skRevocationSigPacket k else [])"

lemma renderOwnKeyBlocks_public:
  "ownKeyGenerated S \<Longrightarrow> fst (renderOwnKeyBlocks S) = writePacket PGP_TAG_PUBLIC_KEY (buildOwnMasterPubBody S)
     @ concat (map renderUid (ownUserIds S)) @ concat (map (renderSubkey S) (ownSubkeys S))"
proof -
  have "(\<lambda>uid. appendAll (appendAll (writePacket 13 (uidText uid)) (uidCertSigPacket uid))
      (if uidIsRevoked uid then uidRevocationSigPacket uid else [])) = renderUid"
    by (simp add: renderUid_def fun_eq_iff appendAll_def)
  moreover have "(\<lambda>k. appendAll (writePacket 14 (subkeyPubBody S k))
      (appendAll (skBindingSigPacket k) (if skIsRevoked k then skRevocationSigPacket k else []))) = renderSubkey S"
    by (simp add: renderSubkey_def fun_eq_iff appendAll_def)
  ultimately show "ownKeyGenerated S \<Longrightarrow> ?thesis" by (simp add: renderOwnKeyBlocks_def Let_def)
qed

definition peerUidOf :: "own_user_id \<Rightarrow> peer_user_id" where
  "peerUidOf uid = \<lparr> puText = uidText uid, puIsRevoked = uidIsRevoked uid \<rparr>"

lemma walk_uid:
  assumes "master_ok L S" "digests_ok L" "uid_ok L S uid" "length (uidText uid) < 4294967296"
    and "binary = pre @ renderUid uid @ post" "pos = length pre"
  shows "walkBlock L binary pos owner out = walkBlock L binary (pos + length (renderUid uid))
    (OWNER_UID (length (pbUserIds out))) (out\<lparr>pbUserIds := pbUserIds out @ [peerUidOf uid]\<rparr>)"
proof -
  let ?doc = "buildUserIdCertificationDocument (buildOwnMasterPubBody S) (uidText uid)"
  let ?p = "writePacket PGP_TAG_USER_ID (uidText uid)" and ?o = "OWNER_UID (length (pbUserIds out))"
  let ?out = "out\<lparr>pbUserIds := pbUserIds out @ [\<lparr> puText = uidText uid, puIsRevoked = False \<rparr>]\<rparr>"
  obtain t extra where cert: "length extra < 65530" "uidCertSigPacket uid = ownSignature L S t 0x13 ?doc extra"
    using assms(3) by (auto simp: uid_ok_def issued_def Let_def)
  define rev where "rev = (if uidIsRevoked uid then uidRevocationSigPacket uid else [])"
  have bin: "binary = pre @ ?p @ uidCertSigPacket uid @ rev @ post"
    using assms(5) by (simp add: renderUid_def rev_def)
  have "walkBlock L binary pos owner out = walkBlock L binary (pos + length ?p) ?o ?out"
    by (rule walkBlock_step [OF _ assms(4) bin assms(6)]) (simp_all add: onBlockPacket_def)
  also obtain acc where "\<dots> = walkBlock L binary (pos + length ?p + length (uidCertSigPacket uid)) ?o (afterSignature 0x13 acc ?o ?out)"
    unfolding cert(2)
    by (rule walk_signature [OF assms(1,2) cert(1), where binary = binary and pre = "pre @ ?p" and post = "rev @ post" and pos = "pos + length ?p" and owner = ?o
          and out = ?out])
      (use bin assms(6) cert(2) in simp_all)
  also have "afterSignature 0x13 acc ?o ?out = ?out" by (simp add: afterSignature_def)
  finally have cert_done: "walkBlock L binary pos owner out
    = walkBlock L binary (pos + length ?p + length (uidCertSigPacket uid)) ?o ?out" .
  show ?thesis
  proof (cases "uidIsRevoked uid")
    case True
    then obtain t' extra' where rv: "length extra' < 65530" "uidRevocationSigPacket uid = ownSignature L S t' 0x30 ?doc extra'"
      using assms(3) by (auto simp: uid_ok_def issued_def Let_def)
    have rev: "rev = ownSignature L S t' 0x30 ?doc extra'" using True rv(2) by (simp add: rev_def)
    obtain acc' where "walkBlock L binary (pos + length ?p + length (uidCertSigPacket uid)) ?o ?out
        = walkBlock L binary (pos + length ?p + length (uidCertSigPacket uid) + length rev) ?o (afterSignature 0x30 acc' ?o ?out)"
      unfolding rev
      by (rule walk_signature [OF assms(1,2) rv(1), where binary = binary and pre = "pre @ ?p @ uidCertSigPacket uid" and post = post
            and pos = "pos + length ?p + length (uidCertSigPacket uid)" and owner = ?o and out = ?out])
        (use bin assms(6) rev in simp_all)
    moreover have "afterSignature 0x30 acc' ?o ?out = out\<lparr>pbUserIds := pbUserIds out @ [peerUidOf uid]\<rparr>"
      using True by (simp add: afterSignature_def peerUidOf_def)
    ultimately show ?thesis using cert_done True by (simp add: renderUid_def rev_def add.assoc)
  next
    case False
    then show ?thesis using cert_done by (simp add: renderUid_def rev_def peerUidOf_def add.assoc)
  qed
qed


text \<open>The subkey entry before and after its signatures are read.\<close>

definition peerSubkeyBase :: "engine \<Rightarrow> own_subkey \<Rightarrow> peer_subkey" where
  "peerSubkeyBase S k =
     (let base = newPeerSubkey\<lparr>pskCreationTime := skCreationTime k, pskKeyId := skKeyId k, pskFingerprint := skFingerprint k\<rparr>
      in if keyAlgorithm S = PGP_KEY_ALGORITHM_RSA then base\<lparr>pskRsaKey := skRsaPublicKey k\<rparr>
         else if skIsEd25519Sign k
         then base\<lparr>pskAlgorithm := PGP_KEY_ALGORITHM_ED25519_X25519, pskIsEd25519 := True, pskEd25519Key := skEd25519PublicKey k\<rparr>
         else base\<lparr>pskAlgorithm := PGP_KEY_ALGORITHM_ED25519_X25519, pskX25519Key := skX25519PublicKey k\<rparr>)"

definition peerSubkeyOf :: "engine \<Rightarrow> own_subkey \<Rightarrow> peer_subkey" where
  "peerSubkeyOf S k = (applyBinding (bindingScan (skKeyFlags k) (skExpirationSeconds k)) (peerSubkeyBase S k))
     \<lparr>pskIsRevoked := skIsRevoked k\<rparr>"

lemma pub_body_shape:
  "buildRsaPublicKeyPacketBody t n e = [4] @ appendBigEndian32 [] t @ [PGP_ALGO_RSA] @ encodeMpi n @ encodeMpi e"
  "buildEd25519PublicKeyPacketBody t p = [4] @ appendBigEndian32 [] t @ [PGP_ALGO_EDDSA] @ [9] @ PGP_ED25519_OID @ encodeNativePointMpi p"
  "buildX25519PublicKeyPacketBody t p = [4] @ appendBigEndian32 [] t @ [PGP_ALGO_ECDH] @ [10] @ PGP_X25519_OID @ encodeNativePointMpi p @ [3, 1, 8, 7]"
  by (simp_all add: buildRsaPublicKeyPacketBody_def buildEd25519PublicKeyPacketBody_def buildX25519PublicKeyPacketBody_def
      Let_def appendAll_def appendBigEndian32_def PGP_ED25519_OID_def PGP_X25519_OID_def)

lemma time_bytes:
  assumes "body = [4] @ appendBigEndian32 [] t @ [algo] @ rest"
  shows "\<not> length body < 6" "byte_at body 1 = Some (ucast (drop_bit 24 t AND 0xFF))"
    "byte_at body 2 = Some (ucast (drop_bit 16 t AND 0xFF))" "byte_at body 3 = Some (ucast (drop_bit 8 t AND 0xFF))"
    "byte_at body 4 = Some (ucast (t AND 0xFF))" "byte_at body 5 = Some algo"
  using assms by (simp_all add: appendBigEndian32_def byte_at_def)

lemma onPublicSubkeyPacket_read:
  assumes "body = [4] @ appendBigEndian32 [] t @ [algo] @ rest"
    and "readSubkeyMaterial L body algo (newPeerSubkey\<lparr>pskCreationTime := t\<rparr>) = yes k"
  shows "onPublicSubkeyPacket L body out = Some (OWNER_SUBKEY (length (pbSubkeys out)),
    out\<lparr>pbSubkeys := pbSubkeys out @ [if pskAlgorithm k = PGP_KEY_ALGORITHM_RSA \<or> pskIsEd25519 k
      then k\<lparr>pskFingerprint := fst (computeFingerprintAndKeyId L body)\<rparr> else k]\<rparr>)"
  using assms(2) by (simp add: onPublicSubkeyPacket_def time_bytes [OF assms(1)] be32_word Let_def del: One_nat_def)

lemma newPeerSubkey_kind [simp]: "pskAlgorithm newPeerSubkey = PGP_KEY_ALGORITHM_RSA" "pskIsEd25519 newPeerSubkey = False"
  by (simp_all add: newPeerSubkey_def)

lemma onPublicSubkeyPacket_own:
  assumes "subkey_ok L S k"
  shows "onPublicSubkeyPacket L (subkeyPubBody S k) out = Some (OWNER_SUBKEY (length (pbSubkeys out)),
    out\<lparr>pbSubkeys := pbSubkeys out @ [peerSubkeyBase S k]\<rparr>)"
proof -
  have fp: "fst (computeFingerprintAndKeyId L (subkeyPubBody S k)) = skFingerprint k"
    "snd (computeFingerprintAndKeyId L (subkeyPubBody S k)) = skKeyId k"
    using assms by (metis subkey_ok_def fst_conv, metis subkey_ok_def snd_conv)
  have wf: "subkey_wf S k" using assms by (simp add: subkey_ok_def Let_def)
  consider "keyAlgorithm S = PGP_KEY_ALGORITHM_RSA"
    | "keyAlgorithm S \<noteq> PGP_KEY_ALGORITHM_RSA" "skIsEd25519Sign k" | "keyAlgorithm S \<noteq> PGP_KEY_ALGORITHM_RSA" "\<not> skIsEd25519Sign k"
    by blast
  then show ?thesis
  proof cases
    case 1
    then have body: "subkeyPubBody S k = buildRsaPublicKeyPacketBody (skCreationTime k) (fst (skRsaPublicKey k)) (snd (skRsaPublicKey k))"
      by (simp add: subkeyPubBody_def)
    let ?k = "newPeerSubkey\<lparr>pskCreationTime := skCreationTime k, pskRsaKey := skRsaPublicKey k, pskKeyId := skKeyId k\<rparr>"
    have "readSubkeyMaterial L (subkeyPubBody S k) PGP_ALGO_RSA (newPeerSubkey\<lparr>pskCreationTime := skCreationTime k\<rparr>) = yes ?k"
      using 1 wf fp parseRsa_build [of "fst (skRsaPublicKey k)" "snd (skRsaPublicKey k)" L "skCreationTime k"]
      by (simp add: body [symmetric] readSubkeyMaterial_def subkey_wf_def newPeerSubkey_def)
    from onPublicSubkeyPacket_read [OF trans [OF body pub_body_shape(1)] this] 1 fp(1) show ?thesis
      by (simp add: peerSubkeyBase_def newPeerSubkey_def)
  next
    case 2
    then have body: "subkeyPubBody S k = buildEd25519PublicKeyPacketBody (skCreationTime k) (skEd25519PublicKey k)"
      by (simp add: subkeyPubBody_def)
    let ?k = "newPeerSubkey\<lparr>pskCreationTime := skCreationTime k, pskAlgorithm := PGP_KEY_ALGORITHM_ED25519_X25519,
      pskIsEd25519 := True, pskEd25519Key := skEd25519PublicKey k, pskKeyId := skKeyId k\<rparr>"
    have "readSubkeyMaterial L (subkeyPubBody S k) PGP_ALGO_EDDSA (newPeerSubkey\<lparr>pskCreationTime := skCreationTime k\<rparr>) = yes ?k"
      using 2 wf fp parseEd25519_build [of "skEd25519PublicKey k" L "skCreationTime k"]
      by (simp add: body [symmetric] readSubkeyMaterial_def subkey_wf_def)
    from onPublicSubkeyPacket_read [OF trans [OF body pub_body_shape(2)] this] 2 fp(1) show ?thesis
      by (simp add: peerSubkeyBase_def newPeerSubkey_def)
  next
    case 3
    then have body: "subkeyPubBody S k = buildX25519PublicKeyPacketBody (skCreationTime k) (skX25519PublicKey k)"
      by (simp add: subkeyPubBody_def)
    let ?k = "newPeerSubkey\<lparr>pskCreationTime := skCreationTime k, pskAlgorithm := PGP_KEY_ALGORITHM_ED25519_X25519,
      pskX25519Key := skX25519PublicKey k, pskKeyId := skKeyId k, pskFingerprint := skFingerprint k\<rparr>"
    have "readSubkeyMaterial L (subkeyPubBody S k) PGP_ALGO_ECDH (newPeerSubkey\<lparr>pskCreationTime := skCreationTime k\<rparr>) = yes ?k"
      using 3 wf fp parseX25519_build [of "skX25519PublicKey k" L "skCreationTime k"]
      by (simp add: body [symmetric] readSubkeyMaterial_def subkey_wf_def)
    from onPublicSubkeyPacket_read [OF trans [OF body pub_body_shape(3)] this] 3 show ?thesis
      by (simp add: peerSubkeyBase_def newPeerSubkey_def)
  qed
qed

lemma length_subkeyPubBody: "subkey_wf S k \<Longrightarrow> length (subkeyPubBody S k) < 4294967296"
  by (auto simp: subkeyPubBody_def subkey_wf_def pub_body_shape length_encodeMpi length_encodeNativePointMpi
      PGP_ED25519_OID_def PGP_X25519_OID_def split: if_splits)

lemma walk_subkey:
  assumes "master_ok L S" "digests_ok L" "subkey_ok L S k"
    and "binary = pre @ renderSubkey S k @ post" "pos = length pre"
  shows "walkBlock L binary pos owner out = walkBlock L binary (pos + length (renderSubkey S k))
    (OWNER_SUBKEY (length (pbSubkeys out))) (out\<lparr>pbSubkeys := pbSubkeys out @ [peerSubkeyOf S k]\<rparr>)"
proof -
  let ?doc = "buildSubkeyBindingDocument (buildOwnMasterPubBody S) (subkeyPubBody S k)"
  let ?p = "writePacket PGP_TAG_PUBLIC_SUBKEY (subkeyPubBody S k)" and ?o = "OWNER_SUBKEY (length (pbSubkeys out))"
  let ?e = "flagsAndExpiration (skKeyFlags k) (skExpirationSeconds k)"
  let ?bound = "applyBinding (bindingScan (skKeyFlags k) (skExpirationSeconds k)) (peerSubkeyBase S k)"
  let ?out = "out\<lparr>pbSubkeys := pbSubkeys out @ [peerSubkeyBase S k]\<rparr>"
    and ?out2 = "out\<lparr>pbSubkeys := pbSubkeys out @ [?bound]\<rparr>"
  obtain t where bind: "skBindingSigPacket k = ownSignature L S t 0x18 ?doc ?e"
    using assms(3) by (auto simp: subkey_ok_def Let_def)
  define rev where "rev = (if skIsRevoked k then skRevocationSigPacket k else [])"
  have bin: "binary = pre @ ?p @ skBindingSigPacket k @ rev @ post"
    using assms(4) by (simp add: renderSubkey_def rev_def)
  have len: "length (subkeyPubBody S k) < 4294967296"
    using assms(3) by (intro length_subkeyPubBody) (simp add: subkey_ok_def Let_def)
  have "walkBlock L binary pos owner out = walkBlock L binary (pos + length ?p) ?o ?out"
    by (rule walkBlock_step [OF _ len bin assms(5)]) (simp_all add: onBlockPacket_def onPublicSubkeyPacket_own [OF assms(3)])
  also have "\<dots> = walkBlock L binary (pos + length ?p + length (skBindingSigPacket k)) ?o
      (afterSignature 0x18 (bindingScan (skKeyFlags k) (skExpirationSeconds k)) ?o ?out)"
    unfolding bind
    by (rule walk_binding [OF assms(1,2), where pre = "pre @ ?p" and post = "rev @ post"])
      (use bin assms(5) bind in simp_all)
  also have "afterSignature 0x18 (bindingScan (skKeyFlags k) (skExpirationSeconds k)) ?o ?out = ?out2"
    by (simp add: afterSignature_def)
  finally have bound: "walkBlock L binary pos owner out
    = walkBlock L binary (pos + length ?p + length (skBindingSigPacket k)) ?o ?out2" .
  have kept: "pskIsRevoked ?bound = False"
    by (simp add: applyBinding_def bindingScan_def peerSubkeyBase_def newPeerSubkey_def Let_def)
  show ?thesis
  proof (cases "skIsRevoked k")
    case True
    then obtain t' extra' where rv: "length extra' < 65530" "skRevocationSigPacket k = ownSignature L S t' 0x28 ?doc extra'"
      using assms(3) by (auto simp: subkey_ok_def issued_def Let_def)
    have rev: "rev = ownSignature L S t' 0x28 ?doc extra'" using True rv(2) by (simp add: rev_def)
    obtain acc' where "walkBlock L binary (pos + length ?p + length (skBindingSigPacket k)) ?o ?out2
        = walkBlock L binary (pos + length ?p + length (skBindingSigPacket k) + length rev) ?o (afterSignature 0x28 acc' ?o ?out2)"
      unfolding rev
      by (rule walk_signature [OF assms(1,2) rv(1), where binary = binary and pre = "pre @ ?p @ skBindingSigPacket k" and post = post
            and pos = "pos + length ?p + length (skBindingSigPacket k)" and owner = ?o and out = ?out2])
        (use bin assms(5) rev in simp_all)
    moreover have "afterSignature 0x28 acc' ?o ?out2 = out\<lparr>pbSubkeys := pbSubkeys out @ [peerSubkeyOf S k]\<rparr>"
      using True by (simp add: afterSignature_def peerSubkeyOf_def)
    ultimately show ?thesis using bound True by (simp add: renderSubkey_def rev_def add.assoc)
  next
    case False
    have "?bound\<lparr>pskIsRevoked := False\<rparr> = ?bound" using kept by simp
    with False show ?thesis using bound by (simp add: renderSubkey_def rev_def peerSubkeyOf_def add.assoc)
  qed
qed

lemma walk_uids:
  assumes "master_ok L S" "digests_ok L" "\<forall>uid \<in> set uids. uid_ok L S uid \<and> length (uidText uid) < 4294967296"
    and "binary = pre @ concat (map renderUid uids) @ post" "pos = length pre"
  shows "\<exists>owner'. walkBlock L binary pos owner out = walkBlock L binary (pos + length (concat (map renderUid uids)))
    owner' (out\<lparr>pbUserIds := pbUserIds out @ map peerUidOf uids\<rparr>)"
  using assms(3-5)
proof (induction uids arbitrary: pre pos owner out)
  case (Cons uid uids)
  have "walkBlock L binary pos owner out = walkBlock L binary (pos + length (renderUid uid))
    (OWNER_UID (length (pbUserIds out))) (out\<lparr>pbUserIds := pbUserIds out @ [peerUidOf uid]\<rparr>)"
    by (rule walk_uid [OF assms(1,2), where pre = pre and post = "concat (map renderUid uids) @ post"]) (use Cons.prems in auto)
  moreover obtain owner' where "walkBlock L binary (pos + length (renderUid uid))
      (OWNER_UID (length (pbUserIds out))) (out\<lparr>pbUserIds := pbUserIds out @ [peerUidOf uid]\<rparr>)
    = walkBlock L binary (pos + length (renderUid uid) + length (concat (map renderUid uids))) owner'
        (out\<lparr>pbUserIds := pbUserIds out @ peerUidOf uid # map peerUidOf uids\<rparr>)"
    using Cons.IH [of "pre @ renderUid uid" "pos + length (renderUid uid)" "OWNER_UID (length (pbUserIds out))"
        "out\<lparr>pbUserIds := pbUserIds out @ [peerUidOf uid]\<rparr>"] Cons.prems by auto
  ultimately show ?case by (auto simp: add.assoc)
qed auto

lemma walk_subkeys:
  assumes "master_ok L S" "digests_ok L" "\<forall>k \<in> set ks. subkey_ok L S k"
    and "binary = pre @ concat (map (renderSubkey S) ks) @ post" "pos = length pre"
  shows "\<exists>owner'. walkBlock L binary pos owner out = walkBlock L binary (pos + length (concat (map (renderSubkey S) ks)))
    owner' (out\<lparr>pbSubkeys := pbSubkeys out @ map (peerSubkeyOf S) ks\<rparr>)"
  using assms(3-5)
proof (induction ks arbitrary: pre pos owner out)
  case (Cons k ks)
  have "walkBlock L binary pos owner out = walkBlock L binary (pos + length (renderSubkey S k))
    (OWNER_SUBKEY (length (pbSubkeys out))) (out\<lparr>pbSubkeys := pbSubkeys out @ [peerSubkeyOf S k]\<rparr>)"
    by (rule walk_subkey [OF assms(1,2), where pre = pre and post = "concat (map (renderSubkey S) ks) @ post"]) (use Cons.prems in auto)
  moreover obtain owner' where "walkBlock L binary (pos + length (renderSubkey S k))
      (OWNER_SUBKEY (length (pbSubkeys out))) (out\<lparr>pbSubkeys := pbSubkeys out @ [peerSubkeyOf S k]\<rparr>)
    = walkBlock L binary (pos + length (renderSubkey S k) + length (concat (map (renderSubkey S) ks))) owner'
        (out\<lparr>pbSubkeys := pbSubkeys out @ peerSubkeyOf S k # map (peerSubkeyOf S) ks\<rparr>)"
    using Cons.IH [of "pre @ renderSubkey S k" "pos + length (renderSubkey S k)" "OWNER_SUBKEY (length (pbSubkeys out))"
        "out\<lparr>pbSubkeys := pbSubkeys out @ [peerSubkeyOf S k]\<rparr>"] Cons.prems by auto
  ultimately show ?case by (auto simp: add.assoc)
qed auto

section \<open>The whole block\<close>

definition importedMaster :: "engine \<Rightarrow> parsed_block" where
  "importedMaster S =
     (let out = newParsedBlock\<lparr>pbMasterKeyId := ownMasterKeyId S, pbMasterFingerprint := ownMasterFingerprint S,
        pbHaveMaster := True\<rparr>
      in if keyAlgorithm S = PGP_KEY_ALGORITHM_RSA then out\<lparr>pbMasterRsaKey := ownMasterPublicKey S\<rparr>
         else out\<lparr>pbMasterAlgorithm := PGP_KEY_ALGORITHM_ED25519_X25519, pbMasterEd25519Key := ownEd25519PublicKey S\<rparr>)"

lemma master_modulus: "minEncodedSize n \<le> 8191 \<Longrightarrow> bitCount n < 65536"
  by (simp add: minEncodedSize_def)

lemma onPublicKeyPacket_own:
  assumes "master_ok L S"
  shows "onPublicKeyPacket L (buildOwnMasterPubBody S) newParsedBlock = Some (OWNER_MASTER, importedMaster S)"
proof -
  have fp: "fst (computeFingerprintAndKeyId L (buildOwnMasterPubBody S)) = ownMasterFingerprint S"
    "snd (computeFingerprintAndKeyId L (buildOwnMasterPubBody S)) = ownMasterKeyId S"
    using assms by (metis master_ok_def fst_conv, metis master_ok_def snd_conv)
  have fresh: "pbHaveMaster newParsedBlock = False" by (simp add: newParsedBlock_def)
  show ?thesis
  proof (cases "keyAlgorithm S = PGP_KEY_ALGORITHM_RSA")
    case True
    then have body: "buildOwnMasterPubBody S
        = buildRsaPublicKeyPacketBody (keyCreationTime S) (fst (ownMasterPublicKey S)) (snd (ownMasterPublicKey S))"
      by (simp add: buildOwnMasterPubBody_def)
    have "bitCount (fst (ownMasterPublicKey S)) < 65536" "bitCount (snd (ownMasterPublicKey S)) < 65536"
      using assms True by (auto simp: master_ok_def rsaPublicOf_def intro: master_modulus)
    then have "parseRsaPublicKeyPacketBody L (buildOwnMasterPubBody S)
        = yes (fst (ownMasterPublicKey S), snd (ownMasterPublicKey S), ownMasterKeyId S)"
      using parseRsa_build [of "fst (ownMasterPublicKey S)" "snd (ownMasterPublicKey S)" L "keyCreationTime S"] fp(2)
      by (simp add: body [symmetric])
    then show ?thesis
      using time_bytes [OF trans [OF body pub_body_shape(1)]] True fp fresh
      by (simp add: onPublicKeyPacket_def importedMaster_def newParsedBlock_def del: One_nat_def)
  next
    case False
    then have body: "buildOwnMasterPubBody S = buildEd25519PublicKeyPacketBody (keyCreationTime S) (ownEd25519PublicKey S)"
      by (simp add: buildOwnMasterPubBody_def)
    have l32: "length (ownEd25519PublicKey S) = 32" using assms False unfolding master_ok_def by blast
    have "parseEd25519PublicKeyPacketBody L (buildOwnMasterPubBody S) = yes (ownEd25519PublicKey S, ownMasterKeyId S)"
      using parseEd25519_build [of "ownEd25519PublicKey S" L "keyCreationTime S"] fp(2) l32
      by (simp add: body [symmetric])
    then show ?thesis
      using time_bytes [OF trans [OF body pub_body_shape(2)]] False fp fresh
      by (simp add: onPublicKeyPacket_def importedMaster_def newParsedBlock_def del: One_nat_def)
  qed
qed

lemma length_buildOwnMasterPubBody: "master_ok L S \<Longrightarrow> length (buildOwnMasterPubBody S) < 4294967296"
  by (auto simp: buildOwnMasterPubBody_def master_ok_def rsaPublicOf_def pub_body_shape length_encodeMpi
      length_encodeNativePointMpi PGP_ED25519_OID_def dest!: master_modulus)

text \<open>The exported block, walked to its end.\<close>

definition importedBlock :: "engine \<Rightarrow> parsed_block" where
  "importedBlock S = (importedMaster S)\<lparr>pbUserIds := map peerUidOf (ownUserIds S),
     pbSubkeys := map (peerSubkeyOf S) (ownSubkeys S)\<rparr>"

lemma importedMaster_lists [simp]: "pbUserIds (importedMaster S) = []" "pbSubkeys (importedMaster S) = []"
  "pbHaveMaster (importedMaster S)"
  by (simp_all add: importedMaster_def newParsedBlock_def Let_def)

lemma walk_exported:
  assumes "lib_ok L" "identity_inv L S" "ownKeyGenerated S" "\<forall>uid \<in> set (ownUserIds S). length (uidText uid) < 4294967296"
  shows "walkBlock L (fst (renderOwnKeyBlocks S)) 0 OWNER_NONE newParsedBlock = Some (importedBlock S)"
proof -
  from assms(1-3) have ok: "master_ok L S" "digests_ok L" "\<forall>uid \<in> set (ownUserIds S). uid_ok L S uid"
      "\<forall>k \<in> set (ownSubkeys S). subkey_ok L S k"
    by (simp_all add: identity_inv_def lib_ok_def)
  define M where "M = writePacket PGP_TAG_PUBLIC_KEY (buildOwnMasterPubBody S)"
  define U where "U = concat (map renderUid (ownUserIds S))"
  define K where "K = concat (map (renderSubkey S) (ownSubkeys S))"
  define B where "B = M @ U @ K"
  have block: "fst (renderOwnKeyBlocks S) = B"
    using assms(3) by (simp add: renderOwnKeyBlocks_public B_def M_def U_def K_def)
  let ?out = "(importedMaster S)\<lparr>pbUserIds := map peerUidOf (ownUserIds S)\<rparr>"
  have "walkBlock L B 0 OWNER_NONE newParsedBlock = walkBlock L B (0 + length M) OWNER_MASTER (importedMaster S)"
    unfolding M_def
    by (rule walkBlock_step [where pre = "[]" and post = "U @ K"])
      (use ok(1) in \<open>simp_all add: B_def M_def length_buildOwnMasterPubBody onBlockPacket_def onPublicKeyPacket_own\<close>)
  moreover obtain o1 where "walkBlock L B (length M) OWNER_MASTER (importedMaster S) = walkBlock L B (length M + length U) o1 ?out"
    using walk_uids [OF ok(1,2), of "ownUserIds S" B M K "length M" OWNER_MASTER "importedMaster S"] ok(3) assms(4)
    by (auto simp: B_def U_def)
  moreover obtain o2 where "walkBlock L B (length M + length U) o1 ?out
      = walkBlock L B (length M + length U + length K) o2 (importedBlock S)"
    using walk_subkeys [OF ok(1,2,4), of B "M @ U" "[]" "length M + length U" o1 ?out]
    by (auto simp: B_def K_def importedBlock_def)
  ultimately show ?thesis by (simp add: block B_def)
qed

lemma parse_exported:
  assumes "lib_ok L" "identity_inv L S" "ownKeyGenerated S" "\<forall>uid \<in> set (ownUserIds S). length (uidText uid) < 4294967296"
  shows "parsePeerPublicKeyBlock L now (fst (renderOwnKeyBlocks S)) = yes (fillLegacySubkey now (importedBlock S))"
  using walk_exported [OF assms] by (simp add: parsePeerPublicKeyBlock_def importedBlock_def)


section \<open>Properties\<close>

text \<open>C16: The public key block that an engine exports is read back by the parser it uses for
  peers: the master key, its ID and fingerprint, every user ID with its text and revocation state, and every subkey
  with its key, ID, fingerprint, creation time, flags, expiration and revocation state, in order.\<close>

theorem exported_key_is_read_back:
  assumes "lib_ok L" "identity_inv L S" "ownKeyGenerated S" "\<forall>uid \<in> set (ownUserIds S). length (uidText uid) < 4294967296"
  shows "parsePeerPublicKeyBlock L now (fst (renderOwnKeyBlocks S)) = yes (fillLegacySubkey now (importedBlock S))
    \<and> pbUserIds (importedBlock S) = map (\<lambda>uid. \<lparr> puText = uidText uid, puIsRevoked = uidIsRevoked uid \<rparr>) (ownUserIds S)
    \<and> map pskKeyId (pbSubkeys (importedBlock S)) = map skKeyId (ownSubkeys S)
    \<and> map pskIsRevoked (pbSubkeys (importedBlock S)) = map skIsRevoked (ownSubkeys S)
    \<and> map pskKeyFlags (pbSubkeys (importedBlock S)) = map skKeyFlags (ownSubkeys S)
    \<and> map (\<lambda>k. (pskHaveExpiration k, pskExpirationSeconds k)) (pbSubkeys (importedBlock S))
        = map (\<lambda>k. (skExpirationSeconds k > 0, skExpirationSeconds k)) (ownSubkeys S)
    \<and> pbMasterKeyId (importedBlock S) = ownMasterKeyId S \<and> pbMasterFingerprint (importedBlock S) = ownMasterFingerprint S"
proof -
  have shape: "pskKeyId (peerSubkeyOf S k) = skKeyId k" "pskIsRevoked (peerSubkeyOf S k) = skIsRevoked k"
    "pskKeyFlags (peerSubkeyOf S k) = skKeyFlags k" "pskHaveExpiration (peerSubkeyOf S k) = (skExpirationSeconds k > 0)"
    "pskExpirationSeconds (peerSubkeyOf S k) = skExpirationSeconds k" for k
    by (simp_all add: peerSubkeyOf_def peerSubkeyBase_def applyBinding_def bindingScan_def newPeerSubkey_def Let_def
        word_gt_0)
  show ?thesis
    using parse_exported [OF assms] unfolding importedBlock_def importedMaster_def Let_def
    by (simp add: shape comp_def peerUidOf_def [abs_def])
qed

lemma exported_key_is_read_back_witness:
  "safe (parsePeerPublicKeyBlock sample_lib 0 (fst (renderOwnKeyBlocks
     (newborn sample_lib sample_draws (newEngineFor PGP_KEY_ALGORITHM_ED25519_X25519) [65] [112, 119] 3600))))
   \<and> pbUserIds (importedBlock (newborn sample_lib sample_draws (newEngineFor PGP_KEY_ALGORITHM_ED25519_X25519) [65] [112, 119] 3600))
     = [\<lparr> puText = [65], puIsRevoked = False \<rparr>]"
proof -
  have lib: "lib_ok sample_lib" by (simp add: lib_ok_def sample_lib_ok)
  have signed: "bothSigned sample_draws" by (simp add: bothSigned_def sample_draws_def)
  let ?S = "newborn sample_lib sample_draws (newEngineFor PGP_KEY_ALGORITHM_ED25519_X25519) [65] [112, 119] 3600"
  have uids: "\<exists>u. ownUserIds ?S = [u] \<and> uidText u = [65] \<and> \<not> uidIsRevoked u" by (simp add: install_defs)
  show ?thesis
    using exported_key_is_read_back [OF lib newborn_inv [OF lib sample_draws_ok signed], of "newEngineFor PGP_KEY_ALGORITHM_ED25519_X25519" "[65]" "[112, 119]" 3600 0]
      uids by auto
qed

end
