(* ===== verification/Bzip2Symbols.thy ===== *)
theory Bzip2Symbols
  imports Prelude
begin

unbundle bit_operations_syntax

text \<open>
  The bzip2 stream decoder of the engine (Compressed Data algorithm 3): bit reader, canonical
  Huffman tables, and what a block holds in front of the transforms (symbol map, selectors, code
  lengths, MTF and run decoding). A failed read, a
  malformed table or a size above the block limit is \<open>no\<close>; an index outside an array, the use of
  the table pointer before it is set and a shift by 64 or more are undefined behaviour.
\<close>

section \<open>Bit reader\<close>

record bit_reader =
  brData :: bytes
  brBytePos :: nat
  brBitBuffer :: "32 word"
  brBitCount :: nat

definition newBitReader :: "bytes \<Rightarrow> bit_reader" where
  "newBitReader data = \<lparr> brData = data, brBytePos = 0, brBitBuffer = 0, brBitCount = 0 \<rparr>"

definition takeBit :: "bit_reader \<Rightarrow> (32 word \<times> bit_reader) cpp" where
  "takeBit r = (let r = r\<lparr>brBitCount := brBitCount r - 1\<rparr>
     in yes (drop_bit (brBitCount r) (brBitBuffer r) AND 1, r))"

definition ReadBit :: "bit_reader \<Rightarrow> (32 word \<times> bit_reader) cpp" where
  "ReadBit r =
     (if brBitCount r = 0 then
        if brBytePos r \<ge> length (brData r) then no
        else do {
          b \<leftarrow> byte_at (brData r) (brBytePos r);
          takeBit (r\<lparr>brBitBuffer := ucast b, brBytePos := brBytePos r + 1, brBitCount := 8\<rparr>) }
      else takeBit r)"

text \<open>The loop of \<open>ReadBits\<close> and \<open>ReadBits64\<close>, which differ in the width of the result only.\<close>

fun readBitsLoop :: "nat \<Rightarrow> 'a::len word \<Rightarrow> bit_reader \<Rightarrow> ('a word \<times> bit_reader) cpp" where
  "readBitsLoop 0 v r = yes (v, r)"
| "readBitsLoop (Suc n) v r = on_true (ReadBit r) (\<lambda>(b, r). readBitsLoop n (push_bit 1 v OR ucast b) r)"

definition ReadBits :: "nat \<Rightarrow> bit_reader \<Rightarrow> (32 word \<times> bit_reader) cpp" where
  "ReadBits count r = readBitsLoop count 0 r"

definition ReadBits64 :: "nat \<Rightarrow> bit_reader \<Rightarrow> (64 word \<times> bit_reader) cpp" where
  "ReadBits64 count r = readBitsLoop count 0 r"

text \<open>The bits that are still to come.\<close>

definition bits_of :: "nat \<Rightarrow> 'a::len word \<Rightarrow> bool list" where
  "bits_of n w = map (bit w) (rev [0..<n])"

definition remaining_bits :: "bit_reader \<Rightarrow> bool list" where
  "remaining_bits r = bits_of (brBitCount r) (brBitBuffer r)
     @ concat (map (bits_of 8) (drop (brBytePos r) (brData r)))"

lemma bits_of_0 [simp]: "bits_of 0 w = []"
  by (simp add: bits_of_def)

lemma bits_of_Suc: "bits_of (Suc n) w = bit w n # bits_of n w"
  by (simp add: bits_of_def)

lemma length_bits_of [simp]: "length (bits_of n w) = n"
  by (simp add: bits_of_def)

lemma bits_of_ucast: "bits_of 8 (ucast (b :: byte) :: 32 word) = bits_of 8 b"
  unfolding bits_of_def by (rule map_cong) (auto simp only: set_rev set_upt atLeastLessThan_iff
      bit_ucast_iff, simp)

lemma and_1_bool: "drop_bit n w AND 1 = (of_bool (bit w n) :: 'a::len word)"
  by (simp only: and_one_eq mod_2_eq_odd bit_iff_odd_drop_bit)

text \<open>\<open>ReadBit\<close> takes the head of the remaining bits, and fails exactly when there is none.\<close>

lemma takeBit_eq:
  assumes "brBitCount r = Suc n"
  shows "takeBit r = yes (of_bool (bit (brBitBuffer r) n), r\<lparr>brBitCount := n\<rparr>)"
    and "remaining_bits r = bit (brBitBuffer r) n # remaining_bits (r\<lparr>brBitCount := n\<rparr>)"
  using assms by (simp_all only: takeBit_def Let_def and_1_bool remaining_bits_def bits_of_Suc
      diff_Suc_1 append_Cons) simp_all

lemma ReadBit_refines:
  "case remaining_bits r of [] \<Rightarrow> ReadBit r = no
   | b # bs \<Rightarrow> \<exists>r'. ReadBit r = yes (of_bool b, r') \<and> remaining_bits r' = bs"
proof (cases "brBitCount r")
  case (Suc n)
  show ?thesis using takeBit_eq [OF Suc] Suc by (simp add: ReadBit_def)
next
  case 0
  show ?thesis
  proof (cases "brBytePos r < length (brData r)")
    case True
    let ?b = "brData r ! brBytePos r"
    let ?r = "r\<lparr>brBitBuffer := ucast ?b, brBytePos := brBytePos r + 1, brBitCount := 8\<rparr>"
    have bits: "remaining_bits r = remaining_bits ?r"
      using True 0 by (simp add: remaining_bits_def bits_of_ucast flip: Cons_nth_drop_Suc)
    have "brBitCount ?r = Suc 7" by simp
    from takeBit_eq [OF this] show ?thesis
      using 0 True unfolding bits by (simp add: ReadBit_def)
  qed (use 0 in \<open>simp add: ReadBit_def remaining_bits_def\<close>)
qed

lemma ReadBit_cases:
  obtains "remaining_bits r = []" "ReadBit r = no"
  | b bs r' where "remaining_bits r = b # bs" "ReadBit r = yes (of_bool b, r')" "remaining_bits r' = bs"
  using ReadBit_refines [of r] by (cases "remaining_bits r") auto

definition bits_left :: "bit_reader \<Rightarrow> nat" where
  "bits_left r = length (remaining_bits r)"

lemma ReadBit_left [advances]: "ReadBit r = yes (b, r') \<Longrightarrow> bits_left r' < bits_left r"
  by (rule ReadBit_cases [of r]) (auto simp: bits_left_def)

lemma ReadBit_safe [ub_free]: "safe (ReadBit r)"
  by (rule ReadBit_cases [of r]) auto

lemma readBitsLoop_safe [ub_free]: "safe (readBitsLoop n v r)"
  by (induction n v r rule: readBitsLoop.induct) (auto intro!: safe_on_true ReadBit_safe)

lemma readBits_safe [ub_free]: "safe (ReadBits n r)" "safe (ReadBits64 n r)"
  by (simp_all add: ReadBits_def ReadBits64_def readBitsLoop_safe)

section \<open>Huffman tables\<close>

record huffman_table =
  htMinLen :: nat
  htMaxLen :: nat
  htLimit :: "int list"
  htBase :: "int list"
  htPerm :: "nat list"

text \<open>The two passes that turn the number of codes of each length into limits and bases.\<close>

definition huffmanCounts :: "nat list \<Rightarrow> int list option" where
  "huffmanCounts lens = do {
     base \<leftarrow> for_each (\<lambda>l base. add_at base (l + 1) 1) lens (replicate 24 0);
     for_each (\<lambda>i base. do { b \<leftarrow> byte_at base (i - 1); add_at base i b }) [1..<24] base }"

definition huffmanLimits :: "int list \<Rightarrow> nat \<Rightarrow> nat \<Rightarrow> int list option" where
  "huffmanLimits base minLen maxLen = do {
     (vec, limit) \<leftarrow> for_each (\<lambda>len (vec, limit). do {
         b \<leftarrow> byte_at base (len + 1);
         b' \<leftarrow> byte_at base len;
         let vec = vec + (b - b');
         limit \<leftarrow> put_at limit len (vec - 1);
         Some (2 * vec, limit) }) [minLen..<maxLen + 1] (0, replicate 24 0);
     Some limit }"

definition huffmanBases :: "int list \<Rightarrow> int list \<Rightarrow> nat \<Rightarrow> nat \<Rightarrow> int list option" where
  "huffmanBases limit base minLen maxLen = for_each (\<lambda>len base. do {
       l \<leftarrow> byte_at limit (len - 1);
       b \<leftarrow> byte_at base len;
       put_at base len ((l + 1) * 2 - b) }) [minLen + 1..<maxLen + 1] base"

text \<open>The symbols in the order of their code lengths, written one by one into \<open>perm\<close>.\<close>

definition huffmanPerm :: "nat list \<Rightarrow> nat \<Rightarrow> nat \<Rightarrow> nat \<Rightarrow> nat list option" where
  "huffmanPerm lens alphaSize minLen maxLen = do {
     (pp, perm) \<leftarrow> for_each (\<lambda>len. for_each (\<lambda>i (pp, perm). do {
         l \<leftarrow> byte_at lens i;
         if l = len then do { perm \<leftarrow> put_at perm pp i; Some (pp + 1, perm) } else Some (pp, perm) })
       [0..<alphaSize]) [minLen..<maxLen + 1] (0, replicate alphaSize 0);
     Some perm }"

definition bzip2BuildHuffmanTable :: "bytes \<Rightarrow> nat \<Rightarrow> huffman_table cpp" where
  "bzip2BuildHuffmanTable lengths alphaSize = do {
     used \<leftarrow> slice lengths 0 alphaSize;
     let lens = map unat used;
         minLen = fold (\<lambda>l m. if l < m then l else m) lens 32;
         maxLen = fold (\<lambda>l m. if l > m then l else m) lens 0
     in if minLen < 1 \<or> maxLen > 20 then no
        else do {
          perm \<leftarrow> huffmanPerm lens alphaSize minLen maxLen;
          counts \<leftarrow> huffmanCounts lens;
          limit \<leftarrow> huffmanLimits counts minLen maxLen;
          base \<leftarrow> huffmanBases limit counts minLen maxLen;
          yes \<lparr> htMinLen = minLen, htMaxLen = maxLen, htLimit = limit, htBase = base, htPerm = perm \<rparr> } }"

function symbolBits ::
  "huffman_table \<Rightarrow> 32 word \<Rightarrow> nat \<Rightarrow> bit_reader \<Rightarrow> ((32 word \<times> nat) \<times> bit_reader) cpp" where
  "symbolBits t code len r =
     (if len > htMaxLen t then no
      else do {
        limit \<leftarrow> byte_at (htLimit t) len;
        if sint code \<le> limit then yes ((code, len), r)
        else on_true (ReadBit r) (\<lambda>(b, r). symbolBits t (push_bit 1 code OR b) (len + 1) r) })"
  by pat_completeness auto

termination
  by (relation "measure (\<lambda>(t, code, len, r). htMaxLen t + 1 - len)") auto

declare symbolBits.simps [simp del]

definition bzip2GetSymbol :: "bit_reader \<Rightarrow> huffman_table \<Rightarrow> (nat \<times> bit_reader) cpp" where
  "bzip2GetSymbol r t =
     on_true (ReadBits (htMinLen t) r) (\<lambda>(code, r).
     on_true (symbolBits t code (htMinLen t) r) (\<lambda>((code, len), r). do {
       b \<leftarrow> byte_at (htBase t) len;
       let index = sint code - b
       in if index < 0 \<or> index \<ge> int (length (htPerm t)) then no
          else do { symbol \<leftarrow> byte_at (htPerm t) (nat index); yes (symbol, r) } }))"

section \<open>Block header\<close>

fun readGroupMap :: "32 word \<Rightarrow> nat list \<Rightarrow> bytes \<Rightarrow> bit_reader \<Rightarrow> (bytes \<times> bit_reader) cpp" where
  "readGroupMap usedGroups [] symbolMap r = yes (symbolMap, r)"
| "readGroupMap usedGroups (g # gs) symbolMap r =
     (if drop_bit (15 - g) usedGroups AND 1 = 0 then readGroupMap usedGroups gs symbolMap r
      else on_true (ReadBits 16 r) (\<lambda>(usedBits, r).
        readGroupMap usedGroups gs
          (symbolMap @ map (\<lambda>k. word_of_nat (g * 16 + k)) (filter (\<lambda>k. drop_bit (15 - k) usedBits AND 1 \<noteq> 0) [0..<16])) r))"

definition readSymbolMap :: "bit_reader \<Rightarrow> (bytes \<times> bit_reader) cpp" where
  "readSymbolMap r = on_true (ReadBits 16 r) (\<lambda>(usedGroups, r). readGroupMap usedGroups [0..<16] [] r)"

text \<open>The loop that moves the elements before index \<open>j\<close> up by one and puts the value in front.\<close>

definition moveToFront :: "'a list \<Rightarrow> nat \<Rightarrow> 'a \<Rightarrow> 'a list option" where
  "moveToFront xs j v = do {
     xs \<leftarrow> for_each (\<lambda>k xs. do { x \<leftarrow> byte_at xs (k - 1); put_at xs k x }) (rev [1..<j + 1]) xs;
     put_at xs 0 v }"

function readUnary :: "nat \<Rightarrow> nat \<Rightarrow> bit_reader \<Rightarrow> (nat \<times> bit_reader) cpp" where
  "readUnary numGroups j r = on_true (ReadBit r) (\<lambda>(b, r).
     if b = 0 then yes (j, r) else if j + 1 \<ge> numGroups then no else readUnary numGroups (j + 1) r)"
  by pat_completeness auto

termination
  by (relation "measure (\<lambda>(n, j, r). n - j)") auto

declare readUnary.simps [simp del]

fun readSelectors ::
  "nat \<Rightarrow> nat \<Rightarrow> bytes \<Rightarrow> bytes \<Rightarrow> bit_reader \<Rightarrow> (bytes \<times> bit_reader) cpp" where
  "readSelectors 0 numGroups groups selectors r = yes (selectors, r)"
| "readSelectors (Suc n) numGroups groups selectors r =
     on_true (readUnary numGroups 0 r) (\<lambda>(j, r). do {
       v \<leftarrow> byte_at groups j;
       groups \<leftarrow> moveToFront groups j v;
       readSelectors n numGroups groups (selectors @ [v]) r })"

function readDelta :: "32 word \<Rightarrow> bit_reader \<Rightarrow> (32 word \<times> bit_reader) cpp" where
  "readDelta curLen r = on_true (ReadBit r) (\<lambda>(b, r1).
     if b = 0 then yes (curLen, r1)
     else on_true (ReadBit r1) (\<lambda>(adjust, r2).
       if adjust = 0 then readDelta (curLen + 1) r2
       else if curLen = 0 then no
       else readDelta (curLen - 1) r2))"
  by pat_completeness auto

termination
  by (relation "measure (\<lambda>(c, r). bits_left r)") (auto dest!: ReadBit_left)

declare readDelta.simps [simp del]

fun readLengths :: "nat \<Rightarrow> 32 word \<Rightarrow> bytes \<Rightarrow> bit_reader \<Rightarrow> (bytes \<times> bit_reader) cpp" where
  "readLengths 0 curLen lengths r = yes (lengths, r)"
| "readLengths (Suc n) curLen lengths r = on_true (readDelta curLen r) (\<lambda>(curLen, r).
     if curLen < 1 \<or> curLen > 20 then no
     else readLengths n curLen (lengths @ [ucast curLen]) r)"

fun readTables :: "nat \<Rightarrow> nat \<Rightarrow> huffman_table list \<Rightarrow> bit_reader \<Rightarrow> (huffman_table list \<times> bit_reader) cpp" where
  "readTables 0 alphaSize tables r = yes (tables, r)"
| "readTables (Suc n) alphaSize tables r =
     on_true (ReadBits 5 r) (\<lambda>(curLen, r).
     on_true (readLengths alphaSize curLen [] r) (\<lambda>(lengths, r).
     on_true (bzip2BuildHuffmanTable lengths alphaSize) (\<lambda>t.
       readTables n alphaSize (tables @ [t]) r)))"

section \<open>Symbol stream\<close>

text \<open>The table for the next symbol: a new selector is taken after every 50 symbols.\<close>

definition nextTable ::
  "huffman_table list \<Rightarrow> bytes \<Rightarrow> nat \<Rightarrow> nat \<Rightarrow> huffman_table option \<Rightarrow> (huffman_table \<times> nat \<times> nat) cpp" where
  "nextTable tables selectors selectorIndex symbolsLeft current =
     (if symbolsLeft = 0 then
        if selectorIndex \<ge> length selectors then no
        else do {
          s \<leftarrow> byte_at selectors selectorIndex;
          t \<leftarrow> byte_at tables (unat s);
          yes (t, selectorIndex + 1, 49) }
      else do { t \<leftarrow> current; yes (t, selectorIndex, symbolsLeft - 1) })"

lemma nextTable_fuel:
  "nextTable tables selectors i k cur = yes (t, i', k') \<Longrightarrow>
     50 * (length selectors - i') + k' < 50 * (length selectors - i) + k"
  by (auto simp: nextTable_def split: if_splits bind_splits)

function symbolLoop ::
  "huffman_table list \<Rightarrow> bytes \<Rightarrow> nat \<Rightarrow> nat \<Rightarrow> nat \<Rightarrow> nat \<Rightarrow> huffman_table option \<Rightarrow> nat \<Rightarrow> nat \<Rightarrow>
   bytes \<Rightarrow> bytes \<Rightarrow> bit_reader \<Rightarrow> (bytes \<times> bit_reader) cpp" where
  "symbolLoop tables selectors nInUse maxBytes selectorIndex symbolsLeft current runLength runBit mtf out r =
     on_true (nextTable tables selectors selectorIndex symbolsLeft current) (\<lambda>(t, selectorIndex', symbolsLeft').
     on_true (bzip2GetSymbol r t) (\<lambda>(symbol, r).
       if symbol = 0 \<or> symbol = 1 then
         if runBit \<ge> 64 then None
         else
           let runLength = runLength + push_bit runBit (symbol + 1)
           in if runLength > maxBytes then no
              else symbolLoop tables selectors nInUse maxBytes selectorIndex' symbolsLeft' (Some t)
                runLength (runBit + 1) mtf out r
       else do {
         (out, runBit) \<leftarrow> (if runLength > 0
             then do { front \<leftarrow> byte_at mtf 0; Some (out @ replicate runLength front, 0) }
             else Some (out, runBit));
         if runLength > 0 \<and> length out > maxBytes then no
            else if symbol = nInUse + 1 then yes (out, r)
            else if symbol - 1 \<ge> nInUse then no
            else do {
              v \<leftarrow> byte_at mtf (symbol - 1);
              mtf \<leftarrow> moveToFront mtf (symbol - 1) v;
              let out = out @ [v]
              in if length out > maxBytes then no
                 else symbolLoop tables selectors nInUse maxBytes selectorIndex' symbolsLeft' (Some t)
                   0 runBit mtf out r } }))"
  by pat_completeness auto

termination
  by (relation "measure (\<lambda>(tables, selectors, n, m, i, k, _). 50 * (length selectors - i) + k)")
    (auto dest: nextTable_fuel)

declare symbolLoop.simps [simp del]

section \<open>No undefined behaviour, no bits given back\<close>

text \<open>
  What every reader of this theory satisfies: it has a defined outcome, and a value it returns
  satisfies \<open>P\<close> and leaves no more bits than there were.
\<close>

definition reads :: "bit_reader \<Rightarrow> ('a \<Rightarrow> bool) \<Rightarrow> ('a \<times> bit_reader) cpp \<Rightarrow> bool" where
  "reads r P m \<longleftrightarrow> (case m of None \<Rightarrow> False | Some None \<Rightarrow> True
     | Some (Some (v, r')) \<Rightarrow> P v \<and> bits_left r' \<le> bits_left r)"

named_theorems reads_rules \<open>rules for the outcome of the bit-stream readers\<close>

lemma reads_no [simp]: "reads r P no"
  by (simp add: reads_def)

lemma reads_yes [simp]: "reads r P (yes (v, r')) \<longleftrightarrow> P v \<and> bits_left r' \<le> bits_left r"
  by (simp add: reads_def)

lemma reads_mono: "reads r' P m \<Longrightarrow> bits_left r' \<le> bits_left r \<Longrightarrow> (\<And>v. P v \<Longrightarrow> Q v) \<Longrightarrow> reads r Q m"
  by (auto simp: reads_def split: option.splits)

text \<open>Sequencing: the continuation is judged against its own reader.\<close>

lemma reads_then:
  assumes "reads r P m" "\<And>v r'. m = yes (v, r') \<Longrightarrow> P v \<Longrightarrow> reads r' Q (f (v, r'))"
  shows "reads r Q (on_true m f)"
proof (cases "\<exists>v r'. m = yes (v, r')")
  case True
  then obtain v r' where m: "m = yes (v, r')" by blast
  with assms have "P v" "bits_left r' \<le> bits_left r" "reads r' Q (f (v, r'))" by simp_all
  then show ?thesis by (auto simp: m intro: reads_mono)
next
  case False
  with assms(1) have "m = no" by (auto simp: reads_def split: option.splits)
  then show ?thesis by simp
qed

lemma reads_safe: "reads r P m \<Longrightarrow> safe m"
  by (cases m) (auto simp: reads_def)

lemma reads_left: "reads r P m \<Longrightarrow> m = yes (v, r') \<Longrightarrow> P v \<and> bits_left r' \<le> bits_left r"
  by simp

lemma reads_ReadBit [reads_rules]: "reads r (\<lambda>b. True) (ReadBit r)"
  by (cases r rule: ReadBit_cases) (auto simp: bits_left_def)

lemma readBitsLoop_left: "readBitsLoop n v r = yes (w, r') \<Longrightarrow> bits_left r' + n = bits_left r"
proof (induction n v r rule: readBitsLoop.induct)
  case (2 n v r)
  then show ?case by (cases r rule: ReadBit_cases) (auto simp: bits_left_def)
qed simp

lemma readBits_left [advances]:
  "ReadBits n r = yes (w, r') \<Longrightarrow> bits_left r' + n = bits_left r"
  "ReadBits64 n r = yes (w', r') \<Longrightarrow> bits_left r' + n = bits_left r"
  by (simp_all add: ReadBits_def ReadBits64_def readBitsLoop_left)

lemma reads_ReadBits [reads_rules]: "reads r (\<lambda>b. True) (ReadBits n r)"
proof (rule safe_cases [OF readBits_safe(1) [of n r]])
  fix v assume "ReadBits n r = yes v"
  then show ?thesis using readBits_left(1) [of n r "fst v" "snd v"] by (cases v) simp
qed simp

lemma reads_readGroupMap [reads_rules]: "reads r (\<lambda>m. True) (readGroupMap u gs m r)"
  by (induction u gs m r rule: readGroupMap.induct) (auto intro!: reads_then [OF reads_ReadBits])

lemma reads_readSymbolMap [reads_rules]: "reads r (\<lambda>m. True) (readSymbolMap r)"
  by (auto simp: readSymbolMap_def intro!: reads_then [OF reads_ReadBits] reads_readGroupMap)

lemma reads_readUnary [reads_rules]: "j < n \<Longrightarrow> reads r (\<lambda>i. i < n) (readUnary n j r)"
  by (induction n j r rule: readUnary.induct)
    (subst readUnary.simps, auto intro!: reads_then [OF reads_ReadBit])

text \<open>The shifting loop rotates the first \<open>j + 1\<close> places, and leaves the array when \<open>j\<close> does.\<close>

lemma shift_fold:
  "j < length xs \<Longrightarrow>
     fold (\<lambda>k xs. xs[k := xs ! (k - 1)]) (rev [1..<j + 1]) xs = take 1 xs @ take j xs @ drop (j + 1) xs"
proof (induction j arbitrary: xs)
  case (Suc j)
  let ?ys = "xs[Suc j := xs ! j]"
  have "take j ?ys @ drop (j + 1) ?ys = take (Suc j) xs @ drop (Suc j + 1) xs"
    using Suc.prems by (simp add: take_Suc_conv_app_nth list_update_append upd_conv_take_nth_drop)
  with Suc show ?case by simp
qed (cases xs, simp_all)

lemma moveToFront_eq [simp]:
  assumes "j < length xs"
  shows "moveToFront xs j v = Some (v # take j xs @ drop (j + 1) xs)"
proof -
  have "for_each (\<lambda>k xs. do { x \<leftarrow> byte_at xs (k - 1); put_at xs k x }) (rev [1..<j + 1]) xs
      = Some (fold (\<lambda>k xs. xs[k := xs ! (k - 1)]) (rev [1..<j + 1]) xs)"
    by (rule for_each_fold [where P = "\<lambda>ys. length ys = length xs"]) (use assms in auto)
  then show ?thesis using assms by (cases xs) (simp_all only: moveToFront_def shift_fold, simp_all)
qed

lemma set_moved: "j < length xs \<Longrightarrow> insert (xs ! j) (set (take j xs) \<union> set (drop (Suc j) xs)) = set xs"
  by (subst (4) id_take_nth_drop [of j xs]) auto

lemma reads_readSelectors [reads_rules]:
  "\<forall>g \<in> set groups. unat g < n \<Longrightarrow> \<forall>g \<in> set selectors. unat g < n \<Longrightarrow> length groups = n \<Longrightarrow> 0 < n \<Longrightarrow>
   reads r (\<lambda>s. \<forall>g \<in> set s. unat g < n) (readSelectors k n groups selectors r)"
  by (induction k n groups selectors r rule: readSelectors.induct)
    (auto intro!: reads_then [OF reads_readUnary] simp: set_moved dest: in_set_takeD in_set_dropD)

lemma reads_readDelta [reads_rules]: "reads r (\<lambda>c. True) (readDelta c r)"
  by (induction c r rule: readDelta.induct)
    (subst readDelta.simps, auto intro!: reads_then [OF reads_ReadBit])

lemma reads_readLengths [reads_rules]:
  "\<forall>l \<in> set ls. 1 \<le> unat l \<and> unat l \<le> 20 \<Longrightarrow>
   reads r (\<lambda>ls'. length ls' = n + length ls \<and> (\<forall>l \<in> set ls'. 1 \<le> unat l \<and> unat l \<le> 20)) (readLengths n c ls r)"
proof (induction n c ls r rule: readLengths.induct)
  case (2 n c ls r)
  have byte: "1 \<le> unat (ucast w :: byte) \<and> unat (ucast w :: byte) \<le> 20" if "\<not> (w < 1 \<or> 20 < w)" for w :: "32 word"
  proof -
    have "1 \<le> unat w" "unat w \<le> 20" using that by (auto simp: word_less_nat_alt)
    then show ?thesis by (simp add: unsigned_ucast_eq take_bit_eq_mod)
  qed
  show ?case
    unfolding readLengths.simps
  proof (rule reads_then [OF reads_readDelta])
    fix v r' assume m: "readDelta c r = yes (v, r')"
    show "reads r' (\<lambda>ls'. length ls' = Suc n + length ls \<and> (\<forall>l \<in> set ls'. 1 \<le> unat l \<and> unat l \<le> 20))
      (case (v, r') of (curLen, r) \<Rightarrow> if curLen < 1 \<or> 20 < curLen then no
        else readLengths n curLen (ls @ [ucast curLen]) r)"
    proof (cases "v < 1 \<or> 20 < v")
      case False
      have "\<forall>l \<in> set (ls @ [ucast v]). 1 \<le> unat l \<and> unat l \<le> 20"
        using 2(2) byte [OF False] by auto
      from 2(1) [OF m refl False this] show ?thesis using False by auto
    qed auto
  qed
qed simp

lemma length_fold_update: "length (fold (\<lambda>x xs. xs[f x xs := g x xs]) ks xs) = length xs"
  by (induction ks arbitrary: xs) simp_all

text \<open>A table that the symbol reader can use without leaving its arrays.\<close>

definition table_ok :: "nat \<Rightarrow> huffman_table \<Rightarrow> bool" where
  "table_ok alphaSize t \<longleftrightarrow> length (htLimit t) = 24 \<and> length (htBase t) = 24 \<and> htMaxLen t \<le> 20
     \<and> (\<forall>i \<in> set (htPerm t). i < alphaSize)"

lemma huffmanCounts_ok:
  assumes "\<forall>l \<in> set lens. l \<le> 20"
  shows "\<exists>base. huffmanCounts lens = Some base \<and> length base = 24"
proof -
  have "for_each (\<lambda>l base. add_at base (l + 1) 1) lens (replicate 24 0)
      = Some (fold (\<lambda>l base. base[l + 1 := base ! (l + 1) + 1]) lens (replicate 24 (0 :: int)))"
    by (rule for_each_fold [where P = "\<lambda>ys. length ys = 24"]) (use assms in auto)
  moreover have "for_each (\<lambda>i base. do { b \<leftarrow> byte_at base (i - 1); add_at base i b }) [1..<24] base
      = Some (fold (\<lambda>i base. base[i := base ! i + base ! (i - 1)]) [1..<24] base)" if "length base = 24" for base :: "int list"
    by (rule for_each_fold [where P = "\<lambda>ys. length ys = 24"]) (use that in auto)
  ultimately show ?thesis by (simp add: huffmanCounts_def length_fold_update)
qed

lemma huffmanLimits_ok:
  assumes "length base = 24" "b \<le> 20"
  shows "\<exists>limit. huffmanLimits base a b = Some limit \<and> length limit = 24"
proof -
  have "\<exists>vec' limit'. for_each (\<lambda>len (vec, limit). do {
         b \<leftarrow> byte_at base (len + 1);
         b' \<leftarrow> byte_at base len;
         let vec = vec + (b - b');
         limit \<leftarrow> put_at limit len (vec - 1);
         Some (2 * vec, limit) }) ks (vec, limit) = Some (vec', limit') \<and> length limit' = 24"
    if "set ks \<subseteq> {..20}" "length limit = 24" for ks vec and limit :: "int list"
    using that by (induction ks arbitrary: vec limit) (simp_all add: assms(1) Let_def)
  from this [of "[a..<b + 1]" "replicate 24 0" 0] assms(2) obtain vec' limit' where
    "for_each (\<lambda>len (vec, limit). do {
         b \<leftarrow> byte_at base (len + 1);
         b' \<leftarrow> byte_at base len;
         let vec = vec + (b - b');
         limit \<leftarrow> put_at limit len (vec - 1);
         Some (2 * vec, limit) }) [a..<b + 1] (0, replicate 24 0) = Some (vec', limit')" "length limit' = 24"
    by force
  then show ?thesis unfolding huffmanLimits_def by (simp only: bind.bind_lunit prod.case) simp
qed

lemma huffmanBases_ok:
  assumes "length base = 24" "length limit = 24" "b \<le> 20"
  shows "\<exists>base'. huffmanBases limit base a b = Some base' \<and> length base' = 24"
proof -
  have "huffmanBases limit base a b
      = Some (fold (\<lambda>len base. base[len := (limit ! (len - 1) + 1) * 2 - base ! len]) [a + 1..<b + 1] base)"
    unfolding huffmanBases_def
    by (rule for_each_fold [where P = "\<lambda>ys. length ys = 24"]) (use assms in auto)
  then show ?thesis using assms(1) by (simp add: length_fold_update)
qed

text \<open>Every symbol is written once, so the position in \<open>perm\<close> stays below the number of symbols.\<close>

lemma perm_row:
  assumes "length lens = n" "set is \<subseteq> {..<n}" "distinct is" "distinct xs" "set xs \<subseteq> {..<n}"
    and "\<forall>i \<in> set is. lens ! i = len \<longrightarrow> i \<notin> set xs" "length perm = n" "set perm \<subseteq> {..<n}"
  shows "\<exists>ys perm'. for_each (\<lambda>i (pp, perm). do {
         l \<leftarrow> byte_at lens i;
         if l = len then do { perm \<leftarrow> put_at perm pp i; Some (pp + 1, perm) } else Some (pp, perm) }) is
       (length xs, perm) = Some (length ys, perm') \<and> distinct ys
     \<and> set ys = set xs \<union> {i \<in> set is. lens ! i = len} \<and> length perm' = n \<and> set perm' \<subseteq> {..<n}"
  using assms
proof (induction "is" arbitrary: xs perm)
  case (Cons i "is")
  show ?case
  proof (cases "lens ! i = len")
    case True
    have "length (i # xs) = card (set (i # xs))" using Cons.prems True by (simp add: distinct_card)
    also have "\<dots> \<le> card {..<n}" using Cons.prems by (intro card_mono) auto
    finally have room: "length xs < n" by simp
    have perm: "set (perm[length xs := i]) \<subseteq> {..<n}"
      using Cons.prems set_update_subset_insert [of perm "length xs" i] by auto
    from Cons.IH [of "i # xs" "perm[length xs := i]"] obtain ys perm' where
      "for_each (\<lambda>i (pp, perm). do {
         l \<leftarrow> byte_at lens i;
         if l = len then do { perm \<leftarrow> put_at perm pp i; Some (pp + 1, perm) } else Some (pp, perm) }) is
        (length (i # xs), perm[length xs := i]) = Some (length ys, perm')" "distinct ys"
      "set ys = set (i # xs) \<union> {i \<in> set is. lens ! i = len}" "length perm' = n" "set perm' \<subseteq> {..<n}"
      using Cons.prems True perm by auto
    then show ?thesis using Cons.prems True room by (intro exI [of _ ys] exI [of _ perm']) auto
  next
    case False
    from Cons.IH [of xs perm] Cons.prems obtain ys perm' where
      "for_each (\<lambda>i (pp, perm). do {
         l \<leftarrow> byte_at lens i;
         if l = len then do { perm \<leftarrow> put_at perm pp i; Some (pp + 1, perm) } else Some (pp, perm) }) is
        (length xs, perm) = Some (length ys, perm')" "distinct ys"
      "set ys = set xs \<union> {i \<in> set is. lens ! i = len}" "length perm' = n" "set perm' \<subseteq> {..<n}"
      by auto
    then show ?thesis using Cons.prems False by (intro exI [of _ ys] exI [of _ perm']) auto
  qed
qed auto

lemma perm_rows:
  assumes "length lens = n" "distinct xs" "set xs \<subseteq> {..<n}" "\<forall>i \<in> set xs. lens ! i < a"
    and "length perm = n" "set perm \<subseteq> {..<n}"
  shows "\<exists>pp perm'. for_each (\<lambda>len. for_each (\<lambda>i (pp, perm). do {
         l \<leftarrow> byte_at lens i;
         if l = len then do { perm \<leftarrow> put_at perm pp i; Some (pp + 1, perm) } else Some (pp, perm) }) [0..<n])
       [a..<b] (length xs, perm) = Some (pp, perm') \<and> length perm' = n \<and> set perm' \<subseteq> {..<n}"
  using assms(2-)
proof (induction "b - a" arbitrary: a xs perm)
  case (Suc k)
  from perm_row [OF assms(1), of "[0..<n]" xs a perm] Suc.prems obtain ys perm' where row:
    "for_each (\<lambda>i (pp, perm). do {
         l \<leftarrow> byte_at lens i;
         if l = a then do { perm \<leftarrow> put_at perm pp i; Some (pp + 1, perm) } else Some (pp, perm) }) [0..<n]
        (length xs, perm) = Some (length ys, perm')" "distinct ys"
      "set ys = set xs \<union> {i \<in> {..<n}. lens ! i = a}" "length perm' = n" "set perm' \<subseteq> {..<n}"
    by (auto simp: atLeast0LessThan)
  have cons: "[a..<b] = a # [Suc a..<b]" using Suc.hyps(2) by (simp add: upt_conv_Cons)
  have "\<forall>i \<in> set ys. lens ! i < Suc a" using row(3) Suc.prems by (auto simp: less_Suc_eq)
  moreover have "k = b - Suc a" "set ys \<subseteq> {..<n}" using Suc.hyps(2) row(3) Suc.prems(2) by auto
  ultimately show ?case
    using Suc.hyps(1) [of "Suc a" ys perm'] row(2,4,5) unfolding cons for_each.simps row(1) bind.bind_lunit by blast
qed simp

lemma huffmanPerm_ok:
  assumes "length lens = n"
  shows "\<exists>perm. huffmanPerm lens n a b = Some perm \<and> (\<forall>i \<in> set perm. i < n)"
proof -
  have "set (replicate n 0) \<subseteq> {..<n}" by auto
  with perm_rows [OF assms, of "[]" a "replicate n 0" "b + 1"] obtain pp perm where
    "for_each (\<lambda>len. for_each (\<lambda>i (pp, perm). do {
         l \<leftarrow> byte_at lens i;
         if l = len then do { perm \<leftarrow> put_at perm pp i; Some (pp + 1, perm) } else Some (pp, perm) }) [0..<n])
       [a..<b + 1] (0, replicate n 0) = Some (pp, perm)" "set perm \<subseteq> {..<n}" by auto
  then show ?thesis unfolding huffmanPerm_def by (simp only: bind.bind_lunit prod.case) auto
qed

lemma le_fold_max: "l \<in> set ls \<or> l \<le> m \<Longrightarrow> l \<le> fold (\<lambda>l m. if l > m then l else m) ls (m :: nat)"
proof (induction ls arbitrary: m)
  case (Cons k ls)
  then show ?case using Cons.IH [of "if k > m then k else m"] by auto
qed simp

lemma bzip2BuildHuffmanTable_ok:
  assumes "n \<le> length ls"
  shows "bzip2BuildHuffmanTable ls n = no \<or> (\<exists>t. bzip2BuildHuffmanTable ls n = yes t \<and> table_ok n t)"
proof -
  let ?lens = "map unat (take n ls)"
  define a where "a = fold (\<lambda>l m. if l < m then l else m) ?lens (32 :: nat)"
  define b where "b = fold (\<lambda>l m. if l > m then l else m) ?lens (0 :: nat)"
  have slice: "slice ls 0 n = Some (take n ls)" using assms by simp
  have eq: "bzip2BuildHuffmanTable ls n = (if a < 1 \<or> b > 20 then no else do {
       perm \<leftarrow> huffmanPerm ?lens n a b;
       counts \<leftarrow> huffmanCounts ?lens;
       limit \<leftarrow> huffmanLimits counts a b;
       base \<leftarrow> huffmanBases limit counts a b;
       yes \<lparr> htMinLen = a, htMaxLen = b, htLimit = limit, htBase = base, htPerm = perm \<rparr> })"
    by (simp only: bzip2BuildHuffmanTable_def Let_def slice bind.bind_lunit a_def b_def)
  show ?thesis
  proof (cases "a < 1 \<or> b > 20")
    case False
    have lens: "\<forall>l \<in> set ?lens. l \<le> 20" using False le_fold_max [of _ ?lens 0] by (fastforce simp: b_def)
    obtain perm where perm: "huffmanPerm ?lens n a b = Some perm" "\<forall>i \<in> set perm. i < n"
      using huffmanPerm_ok [of ?lens n a b] assms by auto
    obtain counts where counts: "huffmanCounts ?lens = Some counts" "length counts = 24"
      using huffmanCounts_ok [OF lens] by blast
    obtain limit where limit: "huffmanLimits counts a b = Some limit" "length limit = 24"
      using huffmanLimits_ok [OF counts(2), of b] False by auto
    obtain base where "huffmanBases limit counts a b = Some base" "length base = 24"
      using huffmanBases_ok [OF counts(2) limit(2), of b] False by auto
    then show ?thesis using False by (auto simp: eq perm counts limit table_ok_def)
  qed (simp add: eq)
qed

lemma reads_readTables [reads_rules]:
  "\<forall>t \<in> set ts. table_ok a t \<Longrightarrow>
   reads r (\<lambda>ts'. length ts' = n + length ts \<and> (\<forall>t \<in> set ts'. table_ok a t)) (readTables n a ts r)"
proof (induction n a ts r rule: readTables.induct)
  case (2 n a ts r)
  show ?case
    unfolding readTables.simps
  proof (rule reads_then [OF reads_ReadBits], clarify)
    fix c r1 assume r1: "ReadBits 5 r = yes (c, r1)"
    show "reads r1 (\<lambda>ts'. length ts' = Suc n + length ts \<and> (\<forall>t \<in> set ts'. table_ok a t))
      (on_true (readLengths a c [] r1) (\<lambda>(lengths, r). on_true (bzip2BuildHuffmanTable lengths a)
        (\<lambda>t. readTables n a (ts @ [t]) r)))"
    proof (rule reads_then [OF reads_readLengths], simp, clarify)
      fix ls r2 assume r2: "readLengths a c [] r1 = yes (ls, r2)" and ls: "length ls = a + length []"
      from bzip2BuildHuffmanTable_ok [of a ls] ls consider "bzip2BuildHuffmanTable ls a = no"
        | t where "bzip2BuildHuffmanTable ls a = yes t" "table_ok a t" by auto
      then show "reads r2 (\<lambda>ts'. length ts' = Suc n + length ts \<and> (\<forall>t \<in> set ts'. table_ok a t))
        (on_true (bzip2BuildHuffmanTable ls a) (\<lambda>t. readTables n a (ts @ [t]) r2))"
      proof cases
        case 2
        from "2.IH" [OF r1 refl r2 refl 2(1)] 2 "2.prems" show ?thesis by simp
      qed simp
    qed
  qed
qed simp

lemma reads_symbolBits [reads_rules]:
  "table_ok a t \<Longrightarrow> reads r (\<lambda>(c, l). l \<le> htMaxLen t) (symbolBits t c len r)"
proof (induction t c len r rule: symbolBits.induct)
  case (1 t c len r)
  show ?case
  proof (cases "len > htMaxLen t")
    case False
    then have "byte_at (htLimit t) len = Some (htLimit t ! len)" using "1.prems" by (simp add: table_ok_def)
    then show ?thesis
      using False "1.IH" [OF False _ _ _ refl] "1.prems"
      by (subst symbolBits.simps) (auto intro!: reads_then [OF reads_ReadBit])
  qed (subst symbolBits.simps, simp)
qed

lemma reads_bzip2GetSymbol [reads_rules]:
  assumes "table_ok a t"
  shows "reads r (\<lambda>s. s < a) (bzip2GetSymbol r t)"
  unfolding bzip2GetSymbol_def
proof (rule reads_then [OF reads_ReadBits], clarify, rule reads_then [OF reads_symbolBits [OF assms]], clarify)
  fix r c l assume "l \<le> htMaxLen t"
  then have "byte_at (htBase t) l = Some (htBase t ! l)" using assms by (simp add: table_ok_def)
  moreover have "htPerm t ! nat i < a" if "0 \<le> i" "i < int (length (htPerm t))" for i
    using assms that by (simp add: table_ok_def nat_less_iff)
  ultimately show "reads r (\<lambda>s. s < a) (byte_at (htBase t) l \<bind> (\<lambda>b. let index = sint c - b
       in if index < 0 \<or> int (length (htPerm t)) \<le> index then no
          else byte_at (htPerm t) (nat index) \<bind> (\<lambda>symbol. yes (symbol, r))))"
    by (auto simp: Let_def nat_less_iff)
qed

lemma nextTable_ok:
  assumes "\<forall>s \<in> set selectors. unat s < length tables" "\<forall>t \<in> set tables. table_ok a t"
    and "k \<noteq> 0 \<longrightarrow> (\<exists>t. cur = Some t \<and> table_ok a t)"
  shows "nextTable tables selectors i k cur = no
    \<or> (\<exists>t i' k'. nextTable tables selectors i k cur = yes (t, i', k') \<and> table_ok a t)"
  using assms by (auto simp: nextTable_def byte_at_def)

text \<open>A run of length \<open>n\<close> has at most \<open>log n\<close> digits, so the shift never reaches the width.\<close>

lemma run_digit:
  assumes "2 ^ b \<le> n + (1 :: nat)" "n \<le> m" "m < 2 ^ 62"
  shows "b < 64" "2 ^ Suc b \<le> n + push_bit b (s + 1) + 1"
proof -
  have "(2 :: nat) ^ b < 2 ^ 64" using assms by simp
  then show "b < 64" by (rule power_less_imp_less_exp [rotated]) simp
  show "2 ^ Suc b \<le> n + push_bit b (s + 1) + 1" using assms(1) by (simp add: push_bit_eq_mult)
qed

lemma reads_symbolLoop [reads_rules]:
  assumes "\<forall>s \<in> set selectors. unat s < length tables" "\<forall>t \<in> set tables. table_ok (n + 2) t"
    and "0 < n" "m < 2 ^ 62"
  shows "length mtf = n \<Longrightarrow> 2 ^ runBit \<le> runLength + 1 \<Longrightarrow> runLength \<le> m \<Longrightarrow> length out \<le> m \<Longrightarrow>
    k \<noteq> 0 \<longrightarrow> (\<exists>t. cur = Some t \<and> table_ok (n + 2) t) \<Longrightarrow>
    reads r (\<lambda>out. length out \<le> m) (symbolLoop tables selectors n m i k cur runLength runBit mtf out r)"
proof (induction "50 * (length selectors - i) + k" arbitrary: i k cur runLength runBit mtf out r rule: less_induct)
  case less
  let ?P = "\<lambda>out. length out \<le> m"
  from nextTable_ok [OF assms(1,2) less.prems(5), of i] show ?case
  proof (elim disjE exE conjE)
    fix t i' k' assume nt: "nextTable tables selectors i k cur = yes (t, i', k')" and t: "table_ok (n + 2) t"
    note fuel = nextTable_fuel [OF nt]
    note IH = less.hyps [OF fuel]
    have cur: "k' \<noteq> 0 \<longrightarrow> (\<exists>u. Some t = Some u \<and> table_ok (n + 2) u)" using t by simp
    show ?case
      apply (subst symbolLoop.simps)
      apply (simp only: nt on_true_simps prod.case)
      apply (rule reads_then [OF reads_bzip2GetSymbol [OF t]])
      subgoal premises sym for symbol r'
      proof (cases "symbol = 0 \<or> symbol = 1")
        case True
        from run_digit(1) [OF less.prems(2,3) assms(4)] run_digit(2) [OF less.prems(2,3) assms(4), of symbol] show ?thesis
          using True IH [OF less.prems(1) _ _ less.prems(4) cur, of "Suc runBit" "runLength + push_bit runBit (symbol + 1)" r']
          by (auto simp: Let_def not_less)
      next
        case False
        have rep: "length (mtf ! (symbol - 1) # take (symbol - 1) mtf @ drop symbol mtf) = n"
          if "symbol - 1 < n" using less.prems(1) that False by simp
        have in0: "byte_at mtf 0 = Some (mtf ! 0)" using assms(3) less.prems(1) by simp
        show ?thesis
          using False less.prems in0 IH [OF rep _ _ _ cur, where runLength = 0]
          by (auto simp: Let_def not_le not_less)
      qed
      done
  qed (subst symbolLoop.simps, simp)
qed

end
