(* ===== verification/BurrowsWheeler.thy ===== *)
theory BurrowsWheeler
  imports Prelude "HOL-Library.Multiset" "HOL-Library.List_Lexorder"
begin

text \<open>
  The two transforms that end the decoding of a bzip2 block: the inverse Burrows-Wheeler
  transform, with its array of successors, and the expansion of runs. The array is shown to be
  the stable sort of the positions by their octet, which keeps every access inside the arrays and
  makes the walk return the string whose sorted rotations the block came from.
\<close>

section \<open>The transforms\<close>

text \<open>Where the occurrences of each value start in the sorted block, and the array of successors.\<close>

definition bwtCumulative :: "bytes \<Rightarrow> nat list option" where
  "bwtCumulative block = do {
     c \<leftarrow> for_each (\<lambda>b c. add_at c (unat b + 1) 1) block (replicate 257 0);
     for_each (\<lambda>i c. do { x \<leftarrow> byte_at c (i - 1); add_at c i x }) [1..<257] c }"

fun fillNext :: "nat \<Rightarrow> bytes \<Rightarrow> nat list \<Rightarrow> nat list \<Rightarrow> nat list option" where
  "fillNext i [] cursor next = Some next"
| "fillNext i (ch # chs) cursor next = do {
     c \<leftarrow> byte_at cursor (unat ch);
     next \<leftarrow> put_at next c i;
     cursor \<leftarrow> add_at cursor (unat ch) 1;
     fillNext (i + 1) chs cursor next }"

definition bwtNext :: "bytes \<Rightarrow> nat list option" where
  "bwtNext block = do {
     c \<leftarrow> bwtCumulative block;
     cursor \<leftarrow> slice c 0 256;
     fillNext 0 block cursor (replicate (length block) 0) }"

fun bwtWalk :: "nat \<Rightarrow> bytes \<Rightarrow> nat list \<Rightarrow> nat \<Rightarrow> bytes option" where
  "bwtWalk 0 block next tPos = Some []"
| "bwtWalk (Suc k) block next tPos = do {
     b \<leftarrow> byte_at block tPos;
     t \<leftarrow> byte_at next tPos;
     bs \<leftarrow> bwtWalk k block next t;
     Some (b # bs) }"

definition inverseBwt :: "bytes \<Rightarrow> nat \<Rightarrow> bytes option" where
  "inverseBwt block origPtr = do {
     next \<leftarrow> bwtNext block;
     start \<leftarrow> byte_at next origPtr;
     bwtWalk (length block) block next start }"

text \<open>The run that starts a list, at most four long, and the loop that expands runs.\<close>

fun runCount :: "byte \<Rightarrow> nat \<Rightarrow> bytes \<Rightarrow> nat" where
  "runCount b k [] = k"
| "runCount b k (c # cs) = (if k < 4 \<and> c = b then runCount b (k + 1) cs else k)"

lemma runCount_ge: "k \<le> runCount b k cs"
proof (induction b k cs rule: runCount.induct)
  case (2 b k c cs)
  then show ?case by (cases "k < 4 \<and> c = b") (auto dest: Suc_leD)
qed simp

function expandRuns :: "bytes \<Rightarrow> bytes \<Rightarrow> bytes cpp" where
  "expandRuns input out =
     (case input of [] \<Rightarrow> yes out
      | b # rest \<Rightarrow>
          let n = runCount b 1 rest; out = out @ replicate n b; rest = drop n input
          in if n = 4 then
               (case rest of [] \<Rightarrow> no
                | extra # rest \<Rightarrow> expandRuns rest (out @ replicate (unat extra) b))
             else expandRuns rest out)"
  by pat_completeness auto

termination
proof (relation "measure (\<lambda>(input, out). length input)", goal_cases)
  case (3 input out b rest n)
  then show ?case using runCount_ge [of 1 b rest] by auto
next
  case (2 input out b rest n)
  show ?case using 2 runCount_ge [of 1 b rest] by (auto dest: arg_cong [where f = length])
qed simp

declare expandRuns.simps [simp del]

section \<open>Counting\<close>

lemma length_histogram:
  "length (fold (\<lambda>b c. c[unat b + 1 := c ! (unat b + 1) + 1]) bs h) = length h" for bs :: bytes and h :: "nat list"
  by (induction bs arbitrary: h) simp_all

lemma histogram_nth:
  "length h = 257 \<Longrightarrow> k < 257 \<Longrightarrow> fold (\<lambda>b c. c[unat b + 1 := c ! (unat b + 1) + 1]) bs h ! k
     = h ! k + (case k of 0 \<Rightarrow> 0 | Suc l \<Rightarrow> length (filter (\<lambda>b. unat b = l) bs))" for bs :: bytes
proof (induction bs arbitrary: h)
  case (Cons b bs)
  from Cons.IH [of "h[unat b + 1 := h ! (unat b + 1) + 1]"] Cons.prems show ?case
    by (cases k) (auto simp: nth_list_update)
qed (simp split: nat.split)

lemma prefix_sum_nth:
  "1 \<le> m \<Longrightarrow> m \<le> length h \<Longrightarrow> k < length h \<Longrightarrow>
     fold (\<lambda>i c. c[i := c ! i + c ! (i - 1)]) [1..<m] h ! k
       = (if k < m then sum_list (take (Suc k) h) else h ! k)" for h :: "nat list"
proof (induction m arbitrary: k)
  case (Suc m)
  show ?case
  proof (cases "m = 0")
    case True
    then show ?thesis using Suc.prems by (cases h) auto
  next
    case False
    let ?g = "fold (\<lambda>i c. c[i := c ! i + c ! (i - 1)]) [1..<m] h"
    have len: "length (fold (\<lambda>i c. c[i := c ! i + c ! (i - 1)]) is h) = length h" for "is" and h :: "nat list"
      by (induction "is" arbitrary: h) simp_all
    have "?g ! m = h ! m" "?g ! (m - 1) = sum_list (take m h)"
      using Suc.IH [of m] Suc.IH [of "m - 1"] Suc.prems False by simp_all
    then show ?thesis
      using Suc.IH [of k] Suc.prems False len [of "[1..<m]" h]
      by (auto simp: nth_list_update take_Suc_conv_app_nth)
  qed
qed simp

lemma filter_less_Suc:
  "length (filter (\<lambda>x. f x < Suc k) xs) = length (filter (\<lambda>x. f x < k) xs) + length (filter (\<lambda>x. f x = k) xs)"
  by (induction xs) auto

text \<open>No octet leaves the 257 counters.\<close>

lemma bwtCumulative_fold:
  "bwtCumulative block = Some (fold (\<lambda>i c. c[i := c ! i + c ! (i - 1)]) [1..<257]
       (fold (\<lambda>b c. c[unat b + 1 := c ! (unat b + 1) + 1]) block (replicate 257 0)))"
proof -
  let ?h = "fold (\<lambda>b c. c[unat b + 1 := c ! (unat b + 1) + 1]) block (replicate 257 (0 :: nat))"
  have h: "length ?h = 257" using length_histogram [of block "replicate 257 0"] by simp
  have "for_each (\<lambda>b c. add_at c (unat b + 1) 1) block (replicate 257 0) = Some ?h"
    by (rule for_each_fold [where P = "\<lambda>c. length c = 257"]) simp_all
  moreover have "for_each (\<lambda>i c. do { x \<leftarrow> byte_at c (i - 1); add_at c i x }) [1..<257] ?h
      = Some (fold (\<lambda>i c. c[i := c ! i + c ! (i - 1)]) [1..<257] ?h)"
    by (rule for_each_fold [where P = "\<lambda>c. length c = 257"]) (use h in auto)
  ultimately show ?thesis by (simp only: bwtCumulative_def bind.bind_lunit)
qed

lemma bwtCumulative_nth:
  assumes "k < 257" "bwtCumulative block = Some c"
  shows "c ! k = length (filter (\<lambda>b. unat b < k) block)"
proof -
  let ?h = "fold (\<lambda>b c. c[unat b + 1 := c ! (unat b + 1) + 1]) block (replicate 257 0)"
  have h: "?h ! j = (case j of 0 \<Rightarrow> 0 | Suc l \<Rightarrow> length (filter (\<lambda>b. unat b = l) block))" if "j < 257" for j
    using histogram_nth [of "replicate 257 0" j block] that by simp
  have "sum_list (take (Suc k) ?h) = length (filter (\<lambda>b. unat b < k) block)" using assms
  proof (induction k)
    case 0
    then show ?case using h [of 0] length_histogram [of block "replicate 257 0"] by (simp add: take_Suc_conv_app_nth)
  next
    case (Suc k)
    then show ?case using h [of "Suc k"] length_histogram [of block "replicate 257 0"]
      by (simp add: take_Suc_conv_app_nth [of "Suc k"] filter_less_Suc)
  qed
  then show ?thesis
    using prefix_sum_nth [of 257 ?h k] assms length_histogram [of block "replicate 257 0"]
    by (simp add: bwtCumulative_fold)
qed

lemma length_bwtCumulative: "bwtCumulative block = Some c \<Longrightarrow> length c = 257"
proof -
  have "length (fold (\<lambda>i c. c[i := c ! i + c ! (i - 1)]) is h) = length h" for "is" and h :: "nat list"
    by (induction "is" arbitrary: h) simp_all
  then show "bwtCumulative block = Some c \<Longrightarrow> length c = 257"
    using length_histogram [of block "replicate 257 0"] by (auto simp: bwtCumulative_fold)
qed

section \<open>The array of successors is the stable sort\<close>

text \<open>The place of position \<open>i\<close> in the order by octet and then by position.\<close>

definition bwtPlace :: "bytes \<Rightarrow> nat \<Rightarrow> nat" where
  "bwtPlace block i = length (filter (\<lambda>b. unat b < unat (block ! i)) block)
     + length (filter (\<lambda>b. b = block ! i) (take i block))"

lemma filter_take_less:
  assumes "i < j" "j \<le> length xs" "P (xs ! i)"
  shows "length (filter P (take i xs)) < length (filter P (take j xs))"
proof -
  have "take j xs = take i xs @ xs ! i # take (j - i - 1) (drop (i + 1) xs)"
    using assms(1,2) id_take_nth_drop [of i "take j xs"] by (simp add: min_def take_drop)
  then show ?thesis using assms(3) by simp
qed

lemma filter_less_add_le:
  "(k :: nat) < l \<Longrightarrow> length (filter (\<lambda>x. f x < k) xs) + length (filter (\<lambda>x. f x = k) xs)
     \<le> length (filter (\<lambda>x. f x < l) xs)"
  by (induction xs) auto

lemma bwtPlace_mono:
  assumes "j < length block" "i < length block" "block ! i < block ! j \<or> block ! i = block ! j \<and> i < j"
  shows "bwtPlace block i < bwtPlace block j"
  using assms(3)
proof
  assume less: "block ! i < block ! j"
  have "length (filter (\<lambda>b. b = block ! i) (take i block)) < length (filter (\<lambda>b. b = block ! i) (take (length block) block))"
    using assms by (intro filter_take_less) simp_all
  moreover have "length (filter (\<lambda>b. unat b < unat (block ! i)) block) + length (filter (\<lambda>b. b = block ! i) block)
      \<le> length (filter (\<lambda>b. unat b < unat (block ! j)) block)"
    using filter_less_add_le [of "unat (block ! i)" "unat (block ! j)" unat block] less
    by (simp add: word_less_nat_alt flip: word_unat_eq_iff)
  ultimately show ?thesis by (simp add: bwtPlace_def)
next
  assume "block ! i = block ! j \<and> i < j"
  then show ?thesis using filter_take_less [of i j block "\<lambda>b. b = block ! i"] assms by (simp add: bwtPlace_def)
qed

lemma bwtPlace_less: "i < length block \<Longrightarrow> bwtPlace block i < length block"
proof -
  assume i: "i < length block"
  have "length (filter (\<lambda>b. b = block ! i) (take i block)) < length (filter (\<lambda>b. b = block ! i) (take (length block) block))"
    using i by (intro filter_take_less) simp_all
  moreover have "length (filter (\<lambda>b. unat b < unat (block ! i)) block) + length (filter (\<lambda>b. b = block ! i) block)
      \<le> length (filter (\<lambda>b. unat b < 256) block)"
    using filter_less_add_le [of "unat (block ! i)" 256 unat block] by (simp flip: word_unat_eq_iff)
  ultimately show ?thesis by (simp add: bwtPlace_def)
qed

lemma bwtPlace_inj: "inj_on (bwtPlace block) {0..<length block}"
proof (rule inj_onI)
  fix i j assume "i \<in> {0..<length block}" "j \<in> {0..<length block}" "bwtPlace block i = bwtPlace block j"
  then show "i = j"
    using bwtPlace_mono [of i block j] bwtPlace_mono [of j block i] by (cases i j rule: linorder_cases)
      (fastforce simp: not_less_iff_gr_or_eq)+
qed

lemma bwtPlace_surj: "p < length block \<Longrightarrow> \<exists>i < length block. bwtPlace block i = p"
proof -
  assume p: "p < length block"
  have "bwtPlace block ` {0..<length block} = {0..<length block}"
    by (rule endo_inj_surj) (auto simp: bwtPlace_less bwtPlace_inj)
  then show ?thesis using p by (metis atLeastLessThan_iff imageE le0)
qed

lemma fillNext_places:
  assumes "i \<le> length block" "length cursor = 256" "length next = length block"
    and "\<forall>c. cursor ! unat c = length (filter (\<lambda>b. unat b < unat c) block) + length (filter (\<lambda>b. b = c) (take i block))"
    and "\<forall>j < i. next ! bwtPlace block j = j"
  shows "\<exists>res. fillNext i (drop i block) cursor next = Some res \<and> length res = length block
    \<and> (\<forall>j < length block. res ! bwtPlace block j = j)"
  using assms
proof (induction "length block - i" arbitrary: i cursor "next")
  case (Suc k)
  then have i: "i < length block" by simp
  let ?ch = "block ! i"
  have c: "cursor ! unat ?ch = bwtPlace block i" using Suc.prems(4) by (simp add: bwtPlace_def)
  have at: "byte_at cursor (unat ?ch) = Some (bwtPlace block i)" using Suc.prems(2) c by simp
  have step: "fillNext i (drop i block) cursor next
      = fillNext (Suc i) (drop (Suc i) block) (cursor[unat ?ch := bwtPlace block i + 1]) (next[bwtPlace block i := i])"
    using i at bwtPlace_less [OF i] Suc.prems(2,3) c by (simp flip: Cons_nth_drop_Suc)
  have "next[bwtPlace block i := i] ! bwtPlace block j = j" if "j < Suc i" for j
    using that i Suc.prems(3,5) bwtPlace_less [OF i] bwtPlace_inj [of block]
    by (cases "j = i") (auto simp: nth_list_update inj_on_def less_Suc_eq)
  moreover have "cursor[unat ?ch := bwtPlace block i + 1] ! unat c = length (filter (\<lambda>b. unat b < unat c) block)
      + length (filter (\<lambda>b. b = c) (take (Suc i) block))" for c
    using Suc.prems(2,4) i c by (cases "c = ?ch") (auto simp: nth_list_update take_Suc_conv_app_nth word_unat_eq_iff)
  ultimately show ?case
    unfolding step using i Suc.hyps(2) Suc.prems(2,3) by (intro Suc.hyps(1)) auto
qed auto

lemma bwtNext_places:
  obtains res where "bwtNext block = Some res" "length res = length block"
    "\<forall>j < length block. res ! bwtPlace block j = j"
proof -
  obtain cs where cs: "bwtCumulative block = Some cs" using bwtCumulative_fold by blast
  note len = length_bwtCumulative [OF cs]
  have "take 256 cs ! unat c = length (filter (\<lambda>b. unat b < unat c) block)" for c :: byte
    using bwtCumulative_nth [OF _ cs, of "unat c"] unat_byte_lt [of c] by simp
  then have "\<exists>res. fillNext 0 (drop 0 block) (take 256 cs) (replicate (length block) 0) = Some res
    \<and> length res = length block \<and> (\<forall>j < length block. res ! bwtPlace block j = j)"
    using len by (intro fillNext_places) simp_all
  then show thesis using that len by (auto simp: bwtNext_def cs)
qed

text \<open>Entries are in range, in the order of the octet at the entry, ties in the order of position.\<close>

lemma bwtNext_sorted:
  "\<exists>res. bwtNext block = Some res \<and> length res = length block \<and> mset res = mset [0..<length block]
    \<and> (\<forall>p q. p < q \<longrightarrow> q < length block \<longrightarrow>
       block ! (res ! p) < block ! (res ! q) \<or> block ! (res ! p) = block ! (res ! q) \<and> res ! p < res ! q)"
proof -
  obtain res where res: "bwtNext block = Some res" "length res = length block"
    "\<forall>j < length block. res ! bwtPlace block j = j" using bwtNext_places .
  have at: "\<exists>i < length block. bwtPlace block i = p \<and> res ! p = i" if "p < length block" for p
    using bwtPlace_surj [OF that] res(3) by auto
  have "set res = {0..<length block}"
    using at res(2,3) bwtPlace_less [of _ block] by (auto simp: in_set_conv_nth) (metis)+
  moreover have "distinct res"
    unfolding distinct_conv_nth using at res(2) by metis
  ultimately have "mset res = mset [0..<length block]"
    by (metis distinct_upt set_eq_iff_mset_eq_distinct set_upt)
  moreover have "block ! (res ! p) < block ! (res ! q) \<or> block ! (res ! p) = block ! (res ! q) \<and> res ! p < res ! q"
    if pq: "p < q" "q < length block" for p q
  proof -
    obtain i j where ij: "i < length block" "bwtPlace block i = p" "res ! p = i"
      "j < length block" "bwtPlace block j = q" "res ! q = j" using at pq by (metis less_trans)
    then show ?thesis
      using bwtPlace_mono [of i block j] pq(1) by (metis less_imp_not_less linorder_neqE less_irrefl)
  qed
  ultimately show ?thesis using res(1,2) by blast
qed

lemma bwtNext_is_sort: "bwtNext block = Some (sort_key (\<lambda>i. block ! i) [0..<length block])"
proof -
  obtain res where res: "bwtNext block = Some res" "length res = length block" "mset res = mset [0..<length block]"
    "\<And>p q. p < q \<Longrightarrow> q < length block \<Longrightarrow>
       block ! (res ! p) < block ! (res ! q) \<or> block ! (res ! p) = block ! (res ! q) \<and> res ! p < res ! q"
    using bwtNext_sorted [of block] by blast
  have strict: "sorted_wrt (\<lambda>i j. block ! i < block ! j \<or> block ! i = block ! j \<and> i < j) res"
    using res(2,4) by (simp add: sorted_wrt_iff_nth_less)
  have "sort_key (\<lambda>i. block ! i) [0..<length block] = res"
  proof (rule properties_for_sort_key [OF res(3)])
    show "sorted (map (\<lambda>i. block ! i) res)"
      using strict unfolding sorted_map by (rule sorted_wrt_mono_rel [rotated]) auto
    fix k
    have "sorted_wrt (<) (filter (\<lambda>i. block ! k = block ! i) res)"
      using sorted_wrt_filter [OF strict, of "\<lambda>i. block ! k = block ! i"]
      by (rule sorted_wrt_mono_rel [rotated]) auto
    moreover have "sorted_wrt (<) (filter (\<lambda>i. block ! k = block ! i) [0..<length block])"
      by (rule sorted_wrt_filter) simp
    moreover have "set (filter (\<lambda>i. block ! k = block ! i) res) = set (filter (\<lambda>i. block ! k = block ! i) [0..<length block])"
      using res(3) by (metis set_filter set_mset_mset)
    ultimately show "filter (\<lambda>i. block ! k = block ! i) res = filter (\<lambda>i. block ! k = block ! i) [0..<length block]"
      by (simp add: strict_sorted_equal)
  qed
  with res(1) show ?thesis by simp
qed

lemma bwtNext_range:
  assumes "bwtNext block = Some next" "p < length block"
  shows "length next = length block" "next ! p < length block"
proof -
  from assms(1) have n: "mset next = mset [0..<length block]" by (auto simp: bwtNext_is_sort simp del: mset_upt)
  then show "length next = length block" by (metis size_mset length_upt diff_zero)
  then have "next ! p \<in> set [0..<length block]" using assms(2) n by (metis nth_mem set_mset_mset)
  then show "next ! p < length block" by simp
qed

lemma bwtWalk_total:
  assumes "bwtNext block = Some next"
  shows "t < length block \<Longrightarrow> \<exists>bs. bwtWalk k block next t = Some bs \<and> length bs = k"
proof (induction k arbitrary: t)
  case (Suc k)
  from Suc.IH [OF bwtNext_range(2) [OF assms Suc.prems]] bwtNext_range [OF assms Suc.prems] Suc.prems
  show ?case by auto
qed simp

lemma inverseBwt_total:
  assumes "p < length block"
  shows "\<exists>bs. inverseBwt block p = Some bs \<and> length bs = length block"
proof -
  let ?n = "sort_key (\<lambda>i. block ! i) [0..<length block]"
  note n = bwtNext_is_sort [of block]
  from bwtWalk_total [OF n bwtNext_range(2) [OF n assms], of "length block"] bwtNext_range(1) [OF n assms] assms n
  show ?thesis by (simp add: inverseBwt_def)
qed

section \<open>The transform is inverted\<close>

text \<open>The forward transform: the sorted rotations of a string, of which a block keeps the last column.\<close>

definition rotations :: "bytes \<Rightarrow> bytes list" where
  "rotations s = sort (map (\<lambda>i. rotate i s) [0..<length s])"

definition lastFirst :: "bytes \<Rightarrow> bytes" where
  "lastFirst r = last r # butlast r"

lemma lastFirst_rotate1: "s \<noteq> [] \<Longrightarrow> lastFirst (rotate1 s) = s"
  by (cases s) (simp_all add: lastFirst_def)

lemma rotate1_lastFirst: "s \<noteq> [] \<Longrightarrow> rotate1 (lastFirst s) = s"
  by (simp add: lastFirst_def)

lemma mset_lastFirst_rotations:
  assumes "s \<noteq> []"
  shows "image_mset lastFirst (mset (rotations s)) = mset (rotations s)"
proof -
  let ?n = "length s"
  have shift: "mset (map (\<lambda>i. rotate i s) [0..<?n]) = mset (map (\<lambda>i. rotate (Suc i) s) [0..<?n])"
  proof -
    obtain m where m: "?n = Suc m" using assms by (cases s) auto
    have "map (\<lambda>i. rotate i s) [0..<Suc m] = s # map (\<lambda>i. rotate (Suc i) s) [0..<m]"
      by (simp add: upt_conv_Cons map_Suc_upt [symmetric] del: upt_Suc rotate_Suc)
    moreover have "rotate (Suc m) s = s" using m by (metis rotate_id mod_self)
    ultimately show ?thesis unfolding m by simp
  qed
  have "image_mset lastFirst (mset (map (\<lambda>i. rotate (Suc i) s) [0..<?n])) = mset (map (\<lambda>i. rotate i s) [0..<?n])"
  proof -
    have "lastFirst (rotate (Suc i) s) = rotate i s" for i
      using lastFirst_rotate1 [of "rotate i s"] assms by simp
    then show ?thesis by (simp flip: mset_map add: comp_def)
  qed
  then show ?thesis by (simp only: rotations_def mset_sort shift [symmetric]) 
qed

lemma append_le_appendD: "length xs = length ys \<Longrightarrow> xs @ [a] \<le> ys @ [b] \<Longrightarrow> xs \<le> ys" for xs ys :: bytes
  by (induction xs ys rule: list_induct2) auto

lemma length_rotations [simp]: "length (rotations s) = length s"
  by (simp add: rotations_def)

lemma length_rotation: "r \<in> set (rotations s) \<Longrightarrow> length r = length s"
  by (auto simp: rotations_def)

text \<open>Following the successors rotates the row by one place.\<close>

lemma rotations_next:
  assumes "bwtNext (map last (rotations s)) = Some next" "p < length s"
  shows "rotations s ! (next ! p) = rotate1 (rotations s ! p)"
proof -
  let ?rows = "rotations s" and ?L = "map last (rotations s)"
  obtain res where res: "bwtNext ?L = Some res" "length res = length ?L" "mset res = mset [0..<length ?L]"
    "\<And>p q. p < q \<Longrightarrow> q < length ?L \<Longrightarrow> ?L ! (res ! p) < ?L ! (res ! q) \<or> ?L ! (res ! p) = ?L ! (res ! q) \<and> res ! p < res ! q"
    using bwtNext_sorted [of ?L] by blast
  have "next": "res = next" using res(1) assms(1) by simp
  have s: "s \<noteq> []" using assms(2) by auto
  have in_range: "res ! q < length s" if "q < length s" for q
    using bwtNext_range(2) [OF res(1)] that by simp
  have row: "length (?rows ! i) = length s" "?rows ! i \<noteq> []" if "i < length s" for i
    using length_rotation [OF nth_mem, of i s] that s by auto
  have le: "lastFirst (?rows ! (res ! p)) \<le> lastFirst (?rows ! (res ! q))" if pq: "p < q" "q < length s" for p q
  proof -
    let ?i = "res ! p" and ?j = "res ! q"
    have i: "?i < length s" and j: "?j < length s" using in_range pq by auto
    consider "last (?rows ! ?i) < last (?rows ! ?j)" | "last (?rows ! ?i) = last (?rows ! ?j)" "?i < ?j"
      using res(4) [OF pq(1)] pq(2) i j by auto
    then show ?thesis
    proof cases
      case 2
      have "?rows ! ?i \<le> ?rows ! ?j"
        using 2(2) j by (auto simp: rotations_def intro: sorted_nth_mono)
      then have "butlast (?rows ! ?i) \<le> butlast (?rows ! ?j)"
        using append_le_appendD [of "butlast (?rows ! ?i)" "butlast (?rows ! ?j)" "last (?rows ! ?i)" "last (?rows ! ?j)"]
          row(1) row(2) i j by simp
      then show ?thesis using 2(1) by (simp add: lastFirst_def)
    qed (simp add: lastFirst_def)
  qed
  have "sorted (map (\<lambda>i. lastFirst (?rows ! i)) res)"
    using le res(2) by (auto simp: sorted_iff_nth_mono_less)
  moreover have "mset (map (\<lambda>i. lastFirst (?rows ! i)) res) = mset ?rows"
  proof -
    have "mset (map (\<lambda>i. lastFirst (?rows ! i)) res) = image_mset (\<lambda>i. lastFirst (?rows ! i)) (mset [0..<length ?rows])"
      using res(3) by simp
    also have "\<dots> = image_mset lastFirst (mset (map (\<lambda>i. ?rows ! i) [0..<length ?rows]))"
      by (simp flip: mset_map add: comp_def del: mset_upt)
    also have "\<dots> = image_mset lastFirst (mset ?rows)" by (simp only: map_nth)
    finally show ?thesis using mset_lastFirst_rotations [OF s] by simp
  qed
  moreover have "sorted ?rows" by (simp add: rotations_def)
  ultimately have "map (\<lambda>i. lastFirst (?rows ! i)) res = ?rows"
    by (metis properties_for_sort sorted_sort_id)
  then have "lastFirst (?rows ! (res ! p)) = ?rows ! p"
    using assms(2) res(2) by (metis length_map length_rotations nth_map)
  then show ?thesis
    using rotate1_lastFirst [OF row(2) [OF in_range [OF assms(2)]]] "next" by simp
qed

lemma bwtWalk_rotations:
  assumes "bwtNext (map last (rotations s)) = Some next"
  shows "t < length s \<Longrightarrow> bwtWalk k (map last (rotations s)) next t
    = Some (map (\<lambda>i. last (rotate i (rotations s ! t))) [0..<k])"
proof (induction k arbitrary: t)
  case (Suc k)
  have t: "t < length (map last (rotations s))" using Suc.prems by simp
  note r = bwtNext_range [OF assms t]
  have "[0..<Suc k] = 0 # map Suc [0..<k]" by (simp only: upt_conv_Cons [of 0 "Suc k"] map_Suc_upt zero_less_Suc)
  then show ?case
    using Suc.IH [of "next ! t"] r Suc.prems rotations_next [OF assms Suc.prems]
    by (simp add: rotate1_rotate_swap comp_def del: upt_Suc)
qed simp

lemma last_rotate_Suc: "i < length s \<Longrightarrow> last (rotate (Suc i) s) = s ! i"
proof -
  assume i: "i < length s"
  have "rotate (Suc i) s = drop (Suc i) s @ take (Suc i) s"
    using i by (cases "Suc i = length s") (simp_all add: rotate_drop_take del: rotate_Suc)
  moreover have "take (Suc i) s \<noteq> []" using i by auto
  ultimately show ?thesis using i by (simp add: take_Suc_conv_app_nth del: rotate_Suc)
qed

lemma inverseBwt_rotations:
  assumes "p < length s" "rotations s ! p = s"
  shows "inverseBwt (map last (rotations s)) p = Some s"
proof -
  obtain "next" where n: "bwtNext (map last (rotations s)) = Some next" using bwtNext_is_sort by blast
  have p: "p < length (map last (rotations s))" using assms(1) by simp
  note r = bwtNext_range [OF n p]
  have "map (\<lambda>i. last (rotate i (rotate1 s))) [0..<length s] = s"
    using last_rotate_Suc by (intro nth_equalityI) (simp_all add: rotate1_rotate_swap)
  then show ?thesis
    using n r assms bwtWalk_rotations [OF n, of "next ! p" "length s"] rotations_next [OF n assms(1)]
    by (simp add: inverseBwt_def)
qed

section \<open>Runs\<close>

text \<open>The encoder of the first run-length pass, on maximal runs of at most 259 equal octets.\<close>

definition encodeRun :: "byte \<times> nat \<Rightarrow> bytes" where
  "encodeRun = (\<lambda>(b, n). if n < 4 then replicate n b else replicate 4 b @ [word_of_nat (n - 4)])"

definition wf_runs :: "(byte \<times> nat) list \<Rightarrow> bool" where
  "wf_runs rs \<longleftrightarrow> (\<forall>(b, n) \<in> set rs. 0 < n \<and> n < 260)
     \<and> (\<forall>i. Suc i < length rs \<longrightarrow> snd (rs ! i) < 4 \<longrightarrow> fst (rs ! i) \<noteq> fst (rs ! Suc i))"

lemma runCount_replicate:
  "k + n \<le> 4 \<Longrightarrow> k + n = 4 \<or> rest = [] \<or> hd rest \<noteq> b \<Longrightarrow> runCount b k (replicate n b @ rest) = k + n"
proof (induction n arbitrary: k)
  case 0
  then show ?case by (cases rest) auto
qed auto

lemma expandRuns_run:
  assumes "0 < n" "n < 260" "n < 4 \<Longrightarrow> rest = [] \<or> hd rest \<noteq> b"
  shows "expandRuns (encodeRun (b, n) @ rest) out = expandRuns rest (out @ replicate n b)"
proof -
  obtain m where m: "n = Suc m" using assms(1) by (cases n) auto
  show ?thesis
  proof (cases "n < 4")
    case True
    then have "runCount b 1 (replicate m b @ rest) = n" using runCount_replicate [of 1 m rest b] m assms(3) by simp
    then show ?thesis using m True by (subst expandRuns.simps) (simp add: encodeRun_def)
  next
    case False
    then obtain k where n: "n = 4 + k" by (metis le_add_diff_inverse not_less)
    let ?x = "word_of_nat k :: byte"
    have four: "replicate 4 b = b # replicate 3 b" by (simp add: numeral_eq_Suc)
    have count: "runCount b 1 (replicate 3 b @ ?x # rest) = 4" using runCount_replicate [of 1 3 "?x # rest" b] by simp
    have x: "unat ?x = k" using assms(2) n by simp
    have "expandRuns (encodeRun (b, n) @ rest) out = expandRuns rest (out @ replicate 4 b @ replicate k b)"
      using count x by (subst expandRuns.simps) (simp add: encodeRun_def n four)
    then show ?thesis by (simp only: n replicate_add append_assoc)
  qed
qed

lemma hd_encodeRun: "0 < n \<Longrightarrow> encodeRun (b, n) \<noteq> [] \<and> hd (encodeRun (b, n)) = b"
  by (auto simp: encodeRun_def hd_append)

lemma expandRuns_encode:
  "wf_runs rs \<Longrightarrow> expandRuns (concat (map encodeRun rs)) out = yes (out @ concat (map (\<lambda>(b, n). replicate n b) rs))"
proof (induction rs arbitrary: out)
  case Nil
  then show ?case by (subst expandRuns.simps) simp
next
  case (Cons r rs)
  obtain b n where r: "r = (b, n)" by (cases r)
  have wf: "wf_runs rs" "0 < n" "n < 260"
    using Cons.prems by (auto simp: wf_runs_def r)
  have "concat (map encodeRun rs) = [] \<or> hd (concat (map encodeRun rs)) \<noteq> b" if "n < 4"
  proof (cases rs)
    case (Cons r' rs')
    obtain b' n' where r': "r' = (b', n')" by (cases r')
    have "b' \<noteq> b" "0 < n'" using Cons.prems that by (auto simp: wf_runs_def r r' Cons)
    then show ?thesis using hd_encodeRun [of n' b'] by (simp add: Cons r' hd_append)
  qed simp
  then show ?case using Cons.IH [OF wf(1)] expandRuns_run [OF wf(2,3)] by (simp add: r)
qed

lemma expandRuns_safe [ub_free]: "safe (expandRuns input out)"
proof (induction "length input" arbitrary: input out rule: less_induct)
  case less
  show ?case
  proof (cases input)
    case (Cons b rest)
    define n where "n = runCount b 1 rest"
    have n: "1 \<le> n" using runCount_ge [of 1 b rest] by (simp add: n_def)
    have shorter: "safe (expandRuns (drop n input) o')" for o'
      using n Cons by (intro less) simp
    have "safe (expandRuns rest' o')" if "drop n input = x # rest'" for x rest' o'
    proof -
      have "length rest' < length (drop n input)" by (simp add: that)
      then show ?thesis by (intro less) simp
    qed
    with shorter show ?thesis
      by (subst expandRuns.simps) (cases "n = 4"; auto simp: Cons Let_def n_def split: list.split)
  qed (subst expandRuns.simps, simp)
qed

end
