(* ===== verification/Bzip2.thy ===== *)
theory Bzip2
  imports Bzip2Symbols BurrowsWheeler
begin

unbundle bit_operations_syntax

text \<open>
  A bzip2 block from its checksum to its octets, and the stream of blocks. The stream loop ends
  because each block takes at least the 48 bits of its magic number from the reader.
\<close>

section \<open>Blocks and the stream\<close>

text \<open>Selectors, tables and the symbol stream of a block.\<close>

definition decodeSymbols :: "32 word \<Rightarrow> bytes \<Rightarrow> nat \<Rightarrow> nat \<Rightarrow> bit_reader \<Rightarrow> (bytes \<times> bit_reader) cpp" where
  "decodeSymbols blockSize100k symbolMap numGroups numSelectors r =
     on_true (readSelectors numSelectors numGroups (map word_of_nat [0..<numGroups]) [] r) (\<lambda>(selectors, r).
     on_true (readTables numGroups (length symbolMap + 2) [] r) (\<lambda>(tables, r).
       symbolLoop tables selectors (length symbolMap) (unat blockSize100k * 100000 + 4096) 0 0 None 0 0 symbolMap [] r))"

definition bzip2DecodeBlock :: "32 word \<Rightarrow> bit_reader \<Rightarrow> (bytes \<times> bit_reader) cpp" where
  "bzip2DecodeBlock blockSize100k r =
     on_true (ReadBits 32 r) (\<lambda>(blockCrc, r).
     on_true (ReadBits 1 r) (\<lambda>(randomized, r). if randomized \<noteq> 0 then no else
     on_true (ReadBits 24 r) (\<lambda>(origPtr, r).
     on_true (readSymbolMap r) (\<lambda>(symbolMap, r). if length symbolMap < 1 then no else
     on_true (ReadBits 3 r) (\<lambda>(numGroups, r). if numGroups < 2 \<or> numGroups > 6 then no else
     on_true (ReadBits 15 r) (\<lambda>(numSelectors, r). if numSelectors = 0 then no else
     on_true (decodeSymbols blockSize100k symbolMap (unat numGroups) (unat numSelectors) r) (\<lambda>(block, r).
       if unat origPtr \<ge> length block then no
       else do {
         bwtOutput \<leftarrow> inverseBwt block (unat origPtr);
         on_true (expandRuns bwtOutput []) (\<lambda>out. yes (out, r)) })))))))"

lemma reads_finish:
  assumes "p < length block"
  shows "reads r (\<lambda>out. True) (inverseBwt block p \<bind> (\<lambda>bwtOutput. on_true (expandRuns bwtOutput []) (\<lambda>out. yes (out, r))))"
proof -
  obtain bs where "inverseBwt block p = Some bs" using inverseBwt_total [OF assms] by blast
  with expandRuns_safe [of bs "[]"] show ?thesis by (cases rule: safe_cases) simp_all
qed

lemma block_limit: "unat (b :: 32 word) * 100000 + 4096 < 2 ^ 62"
proof -
  have "unat b < 4294967296" using unsigned_less [of b] by simp
  then show ?thesis by simp
qed

lemma reads_decodeSymbols [reads_rules]:
  assumes "0 < length symbolMap" "0 < numGroups" "numGroups \<le> 6"
  shows "reads r (\<lambda>out. True) (decodeSymbols bs symbolMap numGroups numSelectors r)"
proof -
  let ?m = "unat bs * 100000 + 4096"
  have loop: "reads r2 (\<lambda>out. True)
      (symbolLoop tables selectors (length symbolMap) ?m 0 0 None 0 0 symbolMap [] r2)"
    if "\<forall>s \<in> set selectors. unat s < numGroups" "length tables = numGroups"
      "\<forall>t \<in> set tables. table_ok (length symbolMap + 2) t" for tables selectors r2
    using reads_symbolLoop [of selectors tables "length symbolMap" ?m symbolMap 0 0 "[]" 0 None r2 0]
      that assms block_limit [of bs] by (auto intro: reads_mono)
  have "\<forall>x \<in> set (map word_of_nat [0..<numGroups] :: bytes). unat x < numGroups" using assms(3) by auto
  then show ?thesis
    unfolding decodeSymbols_def
    by (intro reads_then [OF reads_readSelectors]) (auto simp: assms intro!: reads_then [OF reads_readTables] loop)
qed

lemma reads_bzip2DecodeBlock [reads_rules]: "reads r (\<lambda>out. True) (bzip2DecodeBlock bs r)"
proof -
  have "0 < unat w \<and> unat w \<le> 6" if "\<not> (w < 2 \<or> w > 6)" for w :: "32 word"
    using that by (auto simp: word_less_nat_alt)
  then show ?thesis
    unfolding bzip2DecodeBlock_def
    by (auto intro!: reads_then [OF reads_ReadBits] reads_then [OF reads_readSymbolMap]
        reads_then [OF reads_decodeSymbols] reads_finish)
qed

text \<open>The loop over the blocks, up to the end-of-stream mark. The read of the combined checksum
  after the mark is ignored whatever its outcome.\<close>

function bzip2Blocks :: "32 word \<Rightarrow> bytes \<Rightarrow> bit_reader \<Rightarrow> bytes cpp" where
  "bzip2Blocks blockSize100k output r =
     on_true (ReadBits64 48 r) (\<lambda>(magic, r).
       if magic = 0x177245385090 then yes output
       else if magic \<noteq> 0x314159265359 then no
       else on_true (bzip2DecodeBlock blockSize100k r) (\<lambda>(blockOut, r).
         bzip2Blocks blockSize100k (output @ blockOut) r))"
  by pat_completeness auto

termination
  by (relation "measure (\<lambda>(b, output, r). bits_left r)")
    (auto dest!: readBits_left(2) reads_left [OF reads_bzip2DecodeBlock])

declare bzip2Blocks.simps [simp del]

definition bzip2DecompressBuffer :: "bytes \<Rightarrow> bytes cpp" where
  "bzip2DecompressBuffer input =
     (if length input < 4 then no
      else do {
        b0 \<leftarrow> byte_at input 0; b1 \<leftarrow> byte_at input 1; b2 \<leftarrow> byte_at input 2; b3 \<leftarrow> byte_at input 3;
        if b0 \<noteq> of_char CHR ''B'' \<or> b1 \<noteq> of_char CHR ''Z'' \<or> b2 \<noteq> of_char CHR ''h''
           \<or> b3 < of_char CHR ''1'' \<or> b3 > of_char CHR ''9'' then no
        else bzip2Blocks (ucast (b3 - of_char CHR ''0'')) [] (newBitReader (drop 4 input)) })"

lemma bzip2Blocks_safe [ub_free]: "safe (bzip2Blocks bs out r)"
proof (induction "bits_left r" arbitrary: out r rule: less_induct)
  case less
  have "safe (bzip2Blocks bs out' r2)"
    if "ReadBits64 48 r = yes (magic, r1)" "bzip2DecodeBlock bs r1 = yes (blockOut, r2)" for magic r1 blockOut r2 out'
    using less readBits_left(2) [OF that(1)] reads_left [OF reads_bzip2DecodeBlock that(2)] by simp
  then show ?case
    by (subst bzip2Blocks.simps)
      (auto intro!: safe_on_true readBits_safe reads_safe [OF reads_bzip2DecodeBlock])
qed

lemma bzip2DecompressBuffer_safe [ub_free]: "safe (bzip2DecompressBuffer input)"
  by (auto simp: bzip2DecompressBuffer_def intro!: safe_bind safe_if bzip2Blocks_safe)


section \<open>Properties\<close>

text \<open>C32: The bzip2 decoder returns for every input, and never with undefined behaviour: it
  either rejects the input or produces the octets, and no table, array of successors or shift is
  ever used outside its bounds, however the symbol map, selectors, code lengths and runs were
  chosen.\<close>

theorem bzip2_decoder_is_total: "bzip2DecompressBuffer input = no \<or> (\<exists>output. bzip2DecompressBuffer input = yes output)"
  using bzip2DecompressBuffer_safe [of input] by (cases rule: safe_cases) simp_all

text \<open>The array of successors is the stable sort of the positions by their octet, and from the
  last column of the sorted rotations of a string and a row that holds the string itself, the
  decoder returns the string, periodic strings included.\<close>

theorem burrows_wheeler_is_inverted:
  assumes "p < length s" "rotations s ! p = s"
  shows "bwtNext (map last (rotations s)) = Some (sort_key (\<lambda>i. map last (rotations s) ! i) [0..<length s])
    \<and> inverseBwt (map last (rotations s)) p = Some s"
  using bwtNext_is_sort [of "map last (rotations s)"] inverseBwt_rotations [OF assms] by simp

lemma burrows_wheeler_is_inverted_witness: "inverseBwt [98, 97, 97] 1 = Some [97, 98, 97]"
proof -
  have rows: "rotations [97, 98, 97] = [[97, 97, 98], [97, 98, 97], [98, 97, 97]]" by code_simp
  show ?thesis using burrows_wheeler_is_inverted [of 1 "[97, 98, 97]"] unfolding rows by simp
qed

text \<open>The run-length pass restores every sequence of runs that its encoder writes: runs below four
  octets stand as they are, longer ones as four octets and a count, up to 259; neighbouring
  runs after a short one differ.\<close>

theorem runs_are_expanded:
  assumes "wf_runs rs"
  shows "expandRuns (concat (map encodeRun rs)) [] = yes (concat (map (\<lambda>(b, n). replicate n b) rs))"
  using expandRuns_encode [OF assms, of "[]"] by simp

lemma runs_are_expanded_witness: "expandRuns [7, 7, 9, 9, 9, 9, 2, 9] [] = yes [7, 7, 9, 9, 9, 9, 9, 9, 9]"
  using runs_are_expanded [of "[(7, 2), (9, 6), (9, 1)]"]
  by (simp add: wf_runs_def encodeRun_def less_Suc_eq numeral_eq_Suc)

end
