(* ===== verification/PartialBody.thy ===== *)
theory PartialBody
  imports Codec
begin
unbundle bit_operations_syntax

text \<open>
  Partial body lengths (RFC 4880, 4.2.2.4): \<open>dechunkPartialBody\<close>, which strips the chunk headers of
  a streamed body piece by piece, and \<open>reassemblePartialBodyLengths\<close>, which rewrites a packet
  sequence so that every packet has a definite length. The lemmas show that both loops
  terminate, where they stay inside the buffer, and what they compute on well-formed framings.
\<close>

section \<open>Streaming de-framing\<close>

function dechunkLoop ::
  "bytes \<Rightarrow> nat \<Rightarrow> nat \<Rightarrow> bool \<Rightarrow> bytes \<Rightarrow> (nat \<times> nat \<times> bool \<times> bytes) cpp" where
  "dechunkLoop raw pos chunkRemaining finalChunk content =
     (if pos \<ge> length raw then yes (pos, chunkRemaining, finalChunk, content)
      else if chunkRemaining > 0 then
        let available = length raw - pos; n = (if chunkRemaining < available then chunkRemaining else available)
        in do {
          piece \<leftarrow> slice raw pos (pos + n);
          dechunkLoop raw (pos + n) (chunkRemaining - n) finalChunk (content @ piece) }
      else if finalChunk then yes (pos, chunkRemaining, finalChunk, content)
      else do {
        first \<leftarrow> byte_at raw pos;
        if length raw - pos < newFormatBodyLengthHeaderSize first
        then yes (pos, chunkRemaining, finalChunk, content)
        else on_true (decodeNewFormatBodyLength (Some (drop pos raw)) (length raw - pos))
          (\<lambda>(headerSize, chunkLength, isPartial).
            dechunkLoop raw (pos + headerSize) chunkLength (\<not> isPartial) content) })"
  by pat_completeness auto

termination
  by (relation "measure (\<lambda>(raw, pos, _). length raw - pos)")
    (auto dest: decodeNewFormatBodyLength_size split: if_splits)

declare dechunkLoop.simps [simp del]

definition dechunkPartialBody ::
  "bytes \<Rightarrow> nat \<Rightarrow> bool \<Rightarrow> bytes \<Rightarrow> (bytes \<times> nat \<times> bool \<times> bytes) cpp" where
  "dechunkPartialBody raw chunkRemaining finalChunk content =
     on_true (dechunkLoop raw 0 chunkRemaining finalChunk content)
       (\<lambda>(pos, rem, final, content'). yes (drop pos raw, rem, final, content'))"

function gatherChunks :: "bytes \<Rightarrow> nat \<Rightarrow> nat \<Rightarrow> nat \<Rightarrow> bool \<Rightarrow> bytes \<Rightarrow> (bytes \<times> nat) cpp" where
  "gatherChunks data stop pos chunkLength moreChunks body =
     (if chunkLength > size_sub stop pos then no
      else do {
        piece \<leftarrow> slice data pos (pos + chunkLength);
        if \<not> moreChunks then yes (body @ piece, pos + chunkLength)
        else if pos + chunkLength \<ge> stop then no
        else on_true (decodeNewFormatBodyLength (Some (drop (pos + chunkLength) data)) (stop - (pos + chunkLength)))
          (\<lambda>(headerSize, nextLength, nextPartial).
            gatherChunks data stop (pos + chunkLength + headerSize) nextLength nextPartial (body @ piece)) })"
  by pat_completeness auto

termination
  by (relation "measure (\<lambda>(data, stop, pos, _). stop - pos)")
    (auto dest: decodeNewFormatBodyLength_size)

declare gatherChunks.simps [simp del]

lemma gatherChunks_pos [advances]:
  "gatherChunks data stop pos n more body = yes (b, p) \<Longrightarrow> pos + n \<le> p"
proof (induction data stop pos n more body rule: gatherChunks.induct)
  case (1 data stop pos n more body)
  from "1.prems" show ?case
    by (subst (asm) gatherChunks.simps)
      (auto split: if_splits bind_splits simp: on_true_eq_yes dest!: "1.IH" [rotated -1])
qed

function reassembleLoop :: "bytes \<Rightarrow> nat \<Rightarrow> nat \<Rightarrow> bytes \<Rightarrow> bool \<Rightarrow> (bytes \<times> bool) cpp" where
  "reassembleLoop data stop pos out rewroteAny =
     (if pos \<ge> stop then yes (out, rewroteAny)
      else case readPacketHeader data pos (Some stop) True of
        None \<Rightarrow> None
      | Some None \<Rightarrow> do { tail \<leftarrow> slice data pos stop; yes (out @ tail, rewroteAny) }
      | Some (Some (tag, bodyLength, p, isPartial)) \<Rightarrow>
          if \<not> isPartial then
            let remaining = size_sub stop p;
                bodyEnd = (if bodyLength > remaining then stop else p + bodyLength)
            in do {
              packet \<leftarrow> slice data pos bodyEnd;
              reassembleLoop data stop bodyEnd (out @ packet) rewroteAny }
          else on_true (gatherChunks data stop p bodyLength True [])
            (\<lambda>(body, p').
              reassembleLoop data stop p'
                (appendAll (appendNewFormatLength (out @ [0xC0 OR tag]) (length body)) body) True))"
  by pat_completeness auto

termination
  by (relation "measure (\<lambda>(data, stop, pos, _). stop - pos)")
    (auto dest!: readPacketHeader_pos gatherChunks_pos split: if_splits)

declare reassembleLoop.simps [simp del]

definition reassemblePartialBodyLengthRange :: "bytes \<Rightarrow> nat \<Rightarrow> nat \<Rightarrow> bytes cpp" where
  "reassemblePartialBodyLengthRange data start stop =
     (if start > stop \<or> stop > length data then no
      else on_true (reassembleLoop data stop start [] False)
        (\<lambda>(out, rewroteAny). if rewroteAny then yes out else no))"

definition reassemblePartialBodyLengths :: "bytes \<Rightarrow> bytes cpp" where
  "reassemblePartialBodyLengths data = reassemblePartialBodyLengthRange data 0 (length data)"

section \<open>Safety of de-framing\<close>

text \<open>The four branches of the loop as rewrite rules.\<close>

lemma dechunkLoop_step:
  "pos \<ge> length raw \<Longrightarrow> dechunkLoop raw pos n final content = yes (pos, n, final, content)"
  "pos < length raw \<Longrightarrow> 0 < n \<Longrightarrow> dechunkLoop raw pos n final content =
     dechunkLoop raw (pos + min n (length raw - pos)) (n - min n (length raw - pos)) final
       (content @ take n (drop pos raw))"
  "pos < length raw \<Longrightarrow> dechunkLoop raw pos 0 True content = yes (pos, 0, True, content)"
  "pos < length raw \<Longrightarrow> length raw - pos < newFormatBodyLengthHeaderSize (raw ! pos) \<Longrightarrow>
     dechunkLoop raw pos 0 False content = yes (pos, 0, False, content)"
  "pos < length raw \<Longrightarrow> newFormatBodyLengthHeaderSize (raw ! pos) \<le> length raw - pos \<Longrightarrow>
     decodeNewFormatBodyLength (Some (drop pos raw)) (length raw - pos) = yes (s, m, part) \<Longrightarrow>
     dechunkLoop raw pos 0 False content = dechunkLoop raw (pos + s) m (\<not> part) content"
proof -
  have k: "(if n < length raw - pos then n else length raw - pos) = min n (length raw - pos)" by simp
  show "dechunkLoop raw pos n final content = dechunkLoop raw (pos + min n (length raw - pos))
      (n - min n (length raw - pos)) final (content @ take n (drop pos raw))"
    if "pos < length raw" "0 < n"
  proof -
    have "take (min n (length raw - pos)) (drop pos raw) = take n (drop pos raw)"
      by (simp add: min_def)
    with that show ?thesis
      by (subst dechunkLoop.simps) (simp only: k Let_def, simp)
  qed
qed (subst dechunkLoop.simps, auto)+

lemma decode_enough:
  assumes "pos < length raw" "newFormatBodyLengthHeaderSize (raw ! pos) \<le> length raw - pos"
  obtains m part where "decodeNewFormatBodyLength (Some (drop pos raw @ more)) (length raw - pos + length more)
      = yes (newFormatBodyLengthHeaderSize (raw ! pos), m, part)"
    "decodeNewFormatBodyLength (Some (drop pos raw)) (length raw - pos)
      = yes (newFormatBodyLengthHeaderSize (raw ! pos), m, part)"
  using assms
  by (auto simp: decodeNewFormatBodyLength_def newFormatBodyLengthHeaderSize_def
      byte_at_def nth_append split: if_splits)

text \<open>An induction rule with one case per kind of step.\<close>

lemma dechunk_induct [case_names finish data final short header]:
  assumes "\<And>pos n final content. pos \<ge> length raw \<Longrightarrow> P pos n final content"
    and "\<And>pos n final content. pos < length raw \<Longrightarrow> 0 < n \<Longrightarrow>
      P (pos + min n (length raw - pos)) (n - min n (length raw - pos)) final
        (content @ take n (drop pos raw)) \<Longrightarrow> P pos n final content"
    and "\<And>pos content. pos < length raw \<Longrightarrow> P pos 0 True content"
    and "\<And>pos content. pos < length raw \<Longrightarrow>
      length raw - pos < newFormatBodyLengthHeaderSize (raw ! pos) \<Longrightarrow> P pos 0 False content"
    and "\<And>pos content s m part. pos < length raw \<Longrightarrow> s = newFormatBodyLengthHeaderSize (raw ! pos) \<Longrightarrow>
      0 < s \<Longrightarrow> s \<le> length raw - pos \<Longrightarrow>
      (\<And>more. decodeNewFormatBodyLength (Some (drop pos raw @ more)) (length raw - pos + length more)
        = yes (s, m, part)) \<Longrightarrow>
      P (pos + s) m (\<not> part) content \<Longrightarrow> P pos 0 False content"
  shows "P pos n final content"
proof (induction "length raw - pos" arbitrary: pos n final content rule: less_induct)
  case less
  consider "pos \<ge> length raw" | "pos < length raw" "n > 0" | "pos < length raw" "n = 0" "final"
    | "pos < length raw" "n = 0" "\<not> final" by fastforce
  then show ?case
  proof cases
    case 4
    let ?s = "newFormatBodyLengthHeaderSize (raw ! pos)"
    have s: "0 < ?s" by (simp add: newFormatBodyLengthHeaderSize_def)
    show ?thesis
    proof (cases "?s \<le> length raw - pos")
      case True
      obtain m part where dec: "decodeNewFormatBodyLength (Some (drop pos raw @ more)) (length raw - pos + length more)
        = yes (?s, m, part)" for more
        using decode_enough [OF \<open>pos < length raw\<close> True] by (metis option.inject prod.inject)
      show ?thesis
        using assms(5) [OF 4(1) refl s True dec] less(1) 4 s by auto
    qed (use assms(4) 4 in auto)
  qed (use assms(1-3) less in auto)
qed

lemma dechunkLoop_bounds:
  "pos \<le> length raw \<Longrightarrow> \<exists>p r f c. dechunkLoop raw pos n final content = yes (p, r, f, content @ c)
     \<and> pos \<le> p \<and> p \<le> length raw"
proof (induction pos n final content rule: dechunk_induct [where raw = raw])
  case (header pos content s m part)
  from header.IH header.hyps have "\<exists>p r f c. dechunkLoop raw (pos + s) m (\<not> part) content = yes (p, r, f, content @ c)
     \<and> pos + s \<le> p \<and> p \<le> length raw" by auto
  with header.hyps header.hyps(5) [of "[]"] show ?case by (auto simp: dechunkLoop_step)
qed (fastforce simp: dechunkLoop_step)+

lemma dechunkPartialBody_total [ub_free]:
  "\<exists>p r f c. p \<le> length raw \<and> dechunkPartialBody raw n final content = yes (drop p raw, r, f, content @ c)"
  using dechunkLoop_bounds [of 0 raw n final content]
  by (auto simp: dechunkPartialBody_def)

section \<open>Incremental de-framing does not depend on how the input is cut\<close>

lemma dechunkLoop_full:
  assumes "dechunkLoop raw pos n final content = yes (p, r, f, c)"
  shows "dechunkLoop (raw @ more) pos n final content = dechunkLoop (raw @ more) p r f c"
  using assms
proof (induction pos n final content rule: dechunk_induct [where raw = raw])
  case (data pos n final content)
  let ?k = "min n (length raw - pos)"
  have IH: "dechunkLoop (raw @ more) (pos + ?k) (n - ?k) final (content @ take n (drop pos raw))
    = dechunkLoop (raw @ more) p r f c"
    using data by (simp add: dechunkLoop_step(2))
  show ?case
  proof (cases "n \<le> length raw - pos")
    case True
    with data IH show ?thesis by (subst dechunkLoop_step(2)) auto
  next
    case False
    show ?thesis
    proof (cases "more = []")
      case True with data IH show ?thesis by (simp add: dechunkLoop_step(2))
    next
      case more: False
      with False data IH show ?thesis
        by (simp add: dechunkLoop_step(2) dechunkLoop_step(2) [of "length raw" "raw @ more"])
          (cases "n + pos - length raw \<le> length more"; auto simp: min_def ac_simps)
    qed
  qed
next
  case (header pos content s m part)
  with header.hyps(5) [of "[]"] header.hyps(5) [of more] show ?case
    by (auto simp: dechunkLoop_step(5) nth_append)
qed (auto simp: dechunkLoop_step)

lemma dechunkLoop_shift:
  "dechunkLoop (pre @ raw) (length pre + pos) n final content =
     on_true (dechunkLoop raw pos n final content) (\<lambda>(p, s). yes (length pre + p, s))"
proof (induction pos n final content rule: dechunk_induct [where raw = raw])
  case (data pos n final content)
  then show ?case by (auto simp: dechunkLoop_step(2) add.assoc)
next
  case (header pos content s m part)
  with header.hyps(5) [of "[]"] show ?case by (auto simp: dechunkLoop_step(5) add.assoc)
qed (auto simp: dechunkLoop_step)

lemma dechunkPartialBody_cut:
  assumes "dechunkPartialBody raw n final content = yes (rest, r, f, c)"
  shows "dechunkPartialBody (raw @ more) n final content = dechunkPartialBody (rest @ more) r f c"
proof -
  from assms dechunkLoop_bounds [of 0 raw n final content] obtain p where
    loop: "dechunkLoop raw 0 n final content = yes (p, r, f, c)" and p: "p \<le> length raw"
    and rest: "rest = drop p raw"
    by (auto simp: dechunkPartialBody_def)
  have "dechunkLoop (raw @ more) 0 n final content = dechunkLoop (take p raw @ (rest @ more)) (length (take p raw) + 0) r f c"
    using dechunkLoop_full [OF loop, of more] p by (simp add: rest flip: append_assoc)
  then have "dechunkLoop (raw @ more) 0 n final content
      = on_true (dechunkLoop (rest @ more) 0 r f c) (\<lambda>(q, s). yes (p + q, s))"
    by (simp only: dechunkLoop_shift) (simp add: p min_absorb2)
  moreover have "drop (p + q) (raw @ more) = drop q (rest @ more)" for q
    using p by (auto simp: rest add.commute)
  ultimately show ?thesis
    by (auto simp: dechunkPartialBody_def on_true_def split: option.splits)
qed


section \<open>Reassembly of partial body lengths\<close>

text \<open>
  A reference writer for RFC 4880 section 4.2.2.4: chunks of \<open>2 ^ k\<close> octets, each behind the
  octet \<open>224 + k\<close>, then a last chunk of a definite length.
\<close>

fun partialFrame :: "(nat \<times> bytes) list \<Rightarrow> bytes \<Rightarrow> bytes" where
  "partialFrame [] final = appendNewFormatLength [] (length final) @ final"
| "partialFrame ((k, chunk) # chunks) final = word_of_nat (224 + k) # chunk @ partialFrame chunks final"

definition wf_chunks :: "(nat \<times> bytes) list \<Rightarrow> bool" where
  "wf_chunks chunks = (\<forall>(k, chunk) \<in> set chunks. k < 31 \<and> length chunk = 2 ^ k)"

lemma wf_chunks_simps [simp]:
  "wf_chunks []"
  "wf_chunks ((k, chunk) # chunks) \<longleftrightarrow> k < 31 \<and> length chunk = 2 ^ k \<and> wf_chunks chunks"
  by (auto simp: wf_chunks_def)

lemma partial_octet:
  assumes "k < 31"
  shows "unat (word_of_nat (224 + k) :: byte) = 224 + k"
    and "push_bit (unat (word_of_nat (224 + k) AND 0x1F :: byte)) 1 = (2 ^ k :: nat)"
proof -
  show u: "unat (word_of_nat (224 + k) :: byte) = 224 + k"
    using assms by (subst unat_of_nat_byte) simp
  have "(224 + k) AND 31 = (224 + k) mod 32"
    using take_bit_eq_mask [of 5 "224 + k"] by (simp add: mask_eq_exp_minus_1 take_bit_eq_mod)
  also have "\<dots> = k"
  proof -
    have "224 + k = k + 32 * 7" by simp
    then show ?thesis using assms by (simp only: mod_mult_self2) simp
  qed
  finally show "push_bit (unat (word_of_nat (224 + k) AND 0x1F :: byte)) 1 = (2 ^ k :: nat)"
    by (simp only: unsigned_and_eq u) (simp add: push_bit_eq_mult)
qed

lemma decode_partial_octet:
  assumes "k < 31" "0 < n"
  shows "decodeNewFormatBodyLength (Some (word_of_nat (224 + k) # t)) n = yes (1, 2 ^ k, True)"
  using partial_octet [OF assms(1)] assms
  by (auto simp: decodeNewFormatBodyLength_def word_less_nat_alt)

lemma gatherChunks_step:
  assumes "data = pre @ chunk @ rest" "length pre + length chunk \<le> stop"
  shows "gatherChunks data stop (length pre) (length chunk) False body
      = yes (body @ chunk, length pre + length chunk)"
    and "length pre + length chunk < stop \<Longrightarrow>
      decodeNewFormatBodyLength (Some rest) (stop - (length pre + length chunk)) = yes (s, m, part) \<Longrightarrow>
      gatherChunks data stop (length pre) (length chunk) True body
      = gatherChunks data stop (length pre + length chunk + s) m part (body @ chunk)"
proof -
  have "slice data (length pre) (length pre + length chunk) = Some chunk"
    "drop (length pre + length chunk) data = rest" "\<not> size_sub stop (length pre) < length chunk"
    using assms by auto
  note facts = this
  show "gatherChunks data stop (length pre) (length chunk) False body
      = yes (body @ chunk, length pre + length chunk)"
    by (subst gatherChunks.simps) (simp add: facts)
  show "gatherChunks data stop (length pre) (length chunk) True body
      = gatherChunks data stop (length pre + length chunk + s) m part (body @ chunk)"
    if "length pre + length chunk < stop"
      "decodeNewFormatBodyLength (Some rest) (stop - (length pre + length chunk)) = yes (s, m, part)"
    using that by (subst gatherChunks.simps) (auto simp: facts)
qed

lemma gatherChunks_frame:
  assumes "wf_chunks chunks" "length final < 4294967296"
    and "data = pre @ chunk @ partialFrame chunks final @ post"
    and "length pre + length chunk + length (partialFrame chunks final) \<le> stop"
  shows "gatherChunks data stop (length pre) (length chunk) True body
    = yes (body @ chunk @ concat (map snd chunks) @ final,
        length pre + length chunk + length (partialFrame chunks final))"
  using assms
proof (induction chunks arbitrary: pre chunk body)
  case Nil
  let ?l = "newFormatLengthOctets (length final)"
  have "0 < ?l" by (simp add: newFormatLengthOctets_def)
  have "decodeNewFormatBodyLength (Some (partialFrame [] final @ post)) (stop - (length pre + length chunk))
      = yes (?l, length final, False)"
    using decode_newFormatLength [OF Nil(2), of "final @ post" "stop - (length pre + length chunk) - ?l"] Nil(4)
    by (simp add: length_newFormatLength)
  with \<open>0 < ?l\<close> Nil show ?case
    using gatherChunks_step(2) [OF Nil(3), of stop ?l "length final" False body]
      gatherChunks_step(1) [of data "pre @ chunk @ appendNewFormatLength [] (length final)" final post stop "body @ chunk"]
    by (simp add: length_newFormatLength add.assoc)
next
  case (Cons kc chunks)
  obtain k c where kc: "kc = (k, c)" by force
  let ?octet = "word_of_nat (224 + k) :: byte"
  have dec: "decodeNewFormatBodyLength (Some (partialFrame (kc # chunks) final @ post)) (stop - (length pre + length chunk))
      = yes (1, 2 ^ k, True)"
    using Cons.prems by (simp add: kc) (rule decode_partial_octet [simplified]; simp)
  have "gatherChunks data stop (length (pre @ chunk @ [?octet])) (length c) True (body @ chunk)
      = yes ((body @ chunk) @ c @ concat (map snd chunks) @ final,
          length (pre @ chunk @ [?octet]) + length c + length (partialFrame chunks final))"
    by (rule Cons.IH) (use Cons.prems in \<open>auto simp: kc\<close>)
  then show ?case
    using gatherChunks_step(2) [OF Cons.prems(3), of stop 1 "2 ^ k" True body] dec Cons.prems
    by (simp add: kc)
qed

lemma reassembleLoop_end [simp]: "stop \<le> pos \<Longrightarrow> reassembleLoop data stop pos out w = yes (out, w)"
  by (subst reassembleLoop.simps) simp

definition partialPacket :: "byte \<Rightarrow> (nat \<times> bytes) list \<Rightarrow> bytes \<Rightarrow> bytes" where
  "partialPacket tag chunks final = (0xC0 OR tag) # partialFrame chunks final"

lemma readPacketHeader_partialPacket:
  assumes "unat tag < 64" "k < 31"
  shows "readPacketHeader (pre @ partialPacket tag ((k, c) # chunks) final @ post) (length pre) e True
    = yes (tag, 2 ^ k, length pre + 2, True)"
  using packet_octet_bits [OF assms(1)] partial_octet [OF assms(2)] assms(2)
  by (simp add: readPacketHeader_def readNewFormatHeader_def partialPacket_def nth_append
      word_less_nat_alt Let_def)

lemma reassembleLoop_partial:
  assumes "unat tag < 64" "chunks \<noteq> []" "wf_chunks chunks" "length final < 4294967296"
    and "data = pre @ partialPacket tag chunks final @ post"
    and "length pre + length (partialPacket tag chunks final) \<le> stop"
  shows "reassembleLoop data stop (length pre) out w
    = reassembleLoop data stop (length pre + length (partialPacket tag chunks final))
        (out @ writePacket tag (concat (map snd chunks) @ final)) True"
proof -
  obtain k c rest where ch: "chunks = (k, c) # rest" using assms(2) by (cases chunks) auto
  let ?octet = "word_of_nat (224 + k) :: byte"
  have hd: "readPacketHeader data (length pre) (Some stop) True = yes (tag, 2 ^ k, length pre + 2, True)"
    unfolding assms(5) ch by (rule readPacketHeader_partialPacket) (use assms ch in auto)
  have "gatherChunks data stop (length (pre @ [0xC0 OR tag, ?octet])) (length c) True []
      = yes ([] @ c @ concat (map snd rest) @ final,
          length (pre @ [0xC0 OR tag, ?octet]) + length c + length (partialFrame rest final))"
    by (rule gatherChunks_frame) (use assms in \<open>auto simp: ch partialPacket_def\<close>)
  with hd assms show ?thesis
    by (subst reassembleLoop.simps)
      (simp add: ch partialPacket_def writePacket_def appendAll_def newFormatLength_append [of "out @ _"]
        newFormatLength_append [of "[_]"] add.assoc)
qed

lemma reassembleLoop_definite:
  assumes "unat tag < 64" "length body < 4294967296"
    and "data = pre @ writePacket tag body @ post" "length pre + length (writePacket tag body) \<le> stop"
  shows "reassembleLoop data stop (length pre) out w
    = reassembleLoop data stop (length pre + length (writePacket tag body)) (out @ writePacket tag body) w"
proof -
  let ?p = "length pre + 1 + newFormatLengthOctets (length body)"
  have hd: "readPacketHeader data (length pre) (Some stop) True = yes (tag, length body, ?p, False)"
    unfolding assms(3) by (rule readPacketHeader_writePacket) (use assms in auto)
  have len: "length (writePacket tag body) = 1 + newFormatLengthOctets (length body) + length body"
    by (simp add: writePacket_def appendAll_def newFormatLength_append [of "[_]"] length_newFormatLength)
  have "slice data (length pre) (?p + length body) = Some (writePacket tag body)"
    using assms(3) len by simp
  moreover have "size_sub stop ?p = stop - ?p" "\<not> stop - ?p < length body" "length pre < stop"
    using assms(4) len by auto
  ultimately show ?thesis using hd
    by (subst reassembleLoop.simps) (simp only: Let_def len, simp add: add.assoc)
qed


section \<open>A whole buffer is reassembled without an access outside it\<close>

lemma gatherChunks_safe [ub_free]:
  assumes "stop = length data" "pos \<le> stop"
  shows "safe (gatherChunks data stop pos n more body)
    \<and> (\<forall>b p. gatherChunks data stop pos n more body = yes (b, p) \<longrightarrow> p \<le> stop)"
  using assms
proof (induction data stop pos n more body rule: gatherChunks.induct)
  case (1 data stop pos n more body)
  let ?p = "pos + n"
  show ?case
  proof (cases "n > stop - pos \<or> \<not> more \<or> ?p \<ge> stop")
    case True
    with "1.prems" show ?thesis by (subst (1 2) gatherChunks.simps) auto
  next
    case False
    with "1.prems" have sl: "slice data pos ?p = Some (take n (drop pos data))" by (auto simp: slice_def)
    let ?d = "decodeNewFormatBodyLength (Some (drop ?p data)) (stop - ?p)"
    have "safe ?d" by (rule decodeNewFormatBodyLength_safe) (use "1.prems" in simp)
    then consider "?d = no" | s m part where "?d = yes (s, m, part)" by (cases ?d rule: safe_cases) auto
    then show ?thesis
    proof cases
      case 1
      with False "1.prems" sl show ?thesis by (subst (1 2) gatherChunks.simps) simp
    next
      case (2 s m part)
      have step: "gatherChunks data stop pos n more body
          = gatherChunks data stop (?p + s) m part (body @ take n (drop pos data))"
        using 2 False "1.prems" sl by (subst gatherChunks.simps) simp
      from decodeNewFormatBodyLength_size [OF 2] have "?p + s \<le> stop" using False by auto
      then show ?thesis
        unfolding step by (intro "1.IH") (use 2 False "1.prems" sl in auto)
    qed
  qed
qed

lemma reassembleLoop_safe [ub_free]:
  "stop = length data \<Longrightarrow> safe (reassembleLoop data stop pos out w)"
proof (induction "stop - pos" arbitrary: pos out w rule: less_induct)
  case less
  show ?case
  proof (cases "stop \<le> pos")
    case False
    have "safe (readPacketHeader data pos (Some stop) True)" by (rule readPacketHeader_safe)
    then consider "readPacketHeader data pos (Some stop) True = no"
      | tag n p part where "readPacketHeader data pos (Some stop) True = yes (tag, n, p, part)"
      by (cases "readPacketHeader data pos (Some stop) True" rule: safe_cases) auto
    then show ?thesis
    proof cases
      case 1
      with False less(2) show ?thesis by (subst reassembleLoop.simps) simp
    next
      case (2 tag n p part)
      note pos = readPacketHeader_pos [OF 2]
      show ?thesis
      proof (cases part)
        case True
        have gs: "safe (gatherChunks data stop p n True []) \<and>
            (\<forall>b q. gatherChunks data stop p n True [] = yes (b, q) \<longrightarrow> q \<le> stop)"
          by (rule gatherChunks_safe) (use less(2) pos in auto)
        have "safe (reassembleLoop data stop q out' True)" if "gatherChunks data stop p n True [] = yes (b, q)" for b q out'
          by (rule less(1)) (use gatherChunks_pos [OF that] pos False less(2) in auto)
        with gs 2 True False show ?thesis
          by (subst reassembleLoop.simps) (auto intro!: safe_on_true)
      next
        case part: False
        have "safe (reassembleLoop data stop q out' w)" if "p \<le> q" for q out'
          by (rule less(1)) (use that pos False less(2) in auto)
        then show ?thesis using 2 part False pos less(2)
          by (subst reassembleLoop.simps) (auto simp: Let_def)
      qed
    qed
  qed simp
qed

lemma reassemblePartialBodyLengths_safe [ub_free]: "safe (reassemblePartialBodyLengths data)"
  using reassembleLoop_safe [OF refl, of data 0 "[]" False]
  by (auto simp: reassemblePartialBodyLengths_def reassemblePartialBodyLengthRange_def 
      intro!: safe_on_true)

section \<open>Packet sequences\<close>

text \<open>
  A packet as a sender frames it: chunks of a partial body (none for a definite length) and the
  final chunk. \<open>framedPacket\<close> writes it, \<open>plainPacket\<close> is the definite-length packet with the
  same body.
\<close>

type_synonym framing = "byte \<times> (nat \<times> bytes) list \<times> bytes"

fun framedPacket :: "framing \<Rightarrow> bytes" where
  "framedPacket (tag, chunks, final) =
     (if chunks = [] then writePacket tag final else partialPacket tag chunks final)"

fun plainPacket :: "framing \<Rightarrow> bytes" where
  "plainPacket (tag, chunks, final) = writePacket tag (concat (map snd chunks) @ final)"

fun wf_framing :: "framing \<Rightarrow> bool" where
  "wf_framing (tag, chunks, final) \<longleftrightarrow>
     unat tag < 64 \<and> wf_chunks chunks \<and> length final < 4294967296"

fun is_partial :: "framing \<Rightarrow> bool" where
  "is_partial (tag, chunks, final) \<longleftrightarrow> chunks \<noteq> []"

lemma reassembleLoop_framed:
  assumes "\<forall>f \<in> set fs. wf_framing f" "data = pre @ concat (map framedPacket fs)"
  shows "reassembleLoop data (length data) (length pre) out w
    = yes (out @ concat (map plainPacket fs), w \<or> (\<exists>f \<in> set fs. is_partial f))"
  using assms
proof (induction fs arbitrary: pre out w)
  case (Cons f fs)
  obtain tag chunks final where f: "f = (tag, chunks, final)" by (cases f)
  have IH: "reassembleLoop data (length data) (length (pre @ framedPacket f)) out' w'
    = yes (out' @ concat (map plainPacket fs), w' \<or> (\<exists>f \<in> set fs. is_partial f))" for out' w'
    by (rule Cons.IH) (use Cons.prems in auto)
  show ?case
  proof (cases "chunks = []")
    case True
    have "reassembleLoop data (length data) (length pre) out w
      = reassembleLoop data (length data) (length pre + length (writePacket tag final)) (out @ writePacket tag final) w"
      by (rule reassembleLoop_definite) (use Cons.prems f True in auto)
    then show ?thesis using IH [of "out @ writePacket tag final" w] f True by simp
  next
    case False
    have "reassembleLoop data (length data) (length pre) out w
      = reassembleLoop data (length data) (length pre + length (partialPacket tag chunks final))
          (out @ writePacket tag (concat (map snd chunks) @ final)) True"
      by (rule reassembleLoop_partial) (use Cons.prems f False in auto)
    then show ?thesis using IH [of "out @ plainPacket f" True] f False by simp
  qed
qed simp

lemma reassemble_framed:
  assumes "\<forall>f \<in> set fs. wf_framing f"
  shows "reassemblePartialBodyLengths (concat (map framedPacket fs))
    = (if \<exists>f \<in> set fs. is_partial f then yes (concat (map plainPacket fs)) else no)"
  using reassembleLoop_framed [OF assms refl, of "[]" "[]" False]
  by (auto simp: reassemblePartialBodyLengths_def reassemblePartialBodyLengthRange_def)


section \<open>Properties\<close>

text \<open>De-framing a partial body may be done in pieces: processing a buffer, and later what
  was left of it together with more input, gives the same leftover, the same chunk state and the same
  content as processing everything at once, wherever the input is cut. Neither way has
  undefined behaviour.\<close>

theorem dechunk_any_cut:
  "dechunkPartialBody (raw @ more) chunkRemaining finalChunk content =
     on_true (dechunkPartialBody raw chunkRemaining finalChunk content)
       (\<lambda>(rest, r, f, c). dechunkPartialBody (rest @ more) r f c)
   \<and> safe (dechunkPartialBody raw chunkRemaining finalChunk content)"
proof -
  obtain p r f c where "dechunkPartialBody raw chunkRemaining finalChunk content = yes (drop p raw, r, f, content @ c)"
    using dechunkPartialBody_total by blast
  from dechunkPartialBody_cut [OF this, of more] this show ?thesis by simp
qed

text \<open>C31: A sequence of packets framed with partial body lengths is rewritten to the
  sequence of definite-length packets with the same tags and bodies, in order; when no packet was
  partial the function reports that there was nothing to rewrite.\<close>

theorem reassembly_equals_definite:
  assumes "\<forall>f \<in> set fs. wf_framing f"
  shows "reassemblePartialBodyLengths (concat (map framedPacket fs))
    = (if \<exists>f \<in> set fs. is_partial f then yes (concat (map plainPacket fs)) else no)"
  by (rule reassemble_framed [OF assms])

lemma reassembly_equals_definite_witness:
  "reassemblePartialBodyLengths ([0xCB, 225, 10, 20, 224, 30, 2, 40, 50] @ [0xCD, 1, 65])
    = yes ([0xCB, 5, 10, 20, 30, 40, 50] @ [0xCD, 1, 65])"
  using reassembly_equals_definite [of "[(11, [(1, [10, 20]), (0, [30])], [40, 50]), (13, [], [65])]"]
  by (simp add: writePacket_def partialPacket_def appendNewFormatLength_def appendAll_def)

text \<open>Reassembling a whole buffer never reads outside it, whatever the buffer holds: every
  hostile length, truncated chunk or unterminated chain ends in a rewritten buffer or in false.\<close>

theorem reassembly_in_bounds: "safe (reassemblePartialBodyLengths data)"
  by (rule reassemblePartialBodyLengths_safe)

text \<open>On a proper sub-range the same code is not safe: the header reader checks the length
  octets against the buffer and not against the end of the range, so a header that straddles the end
  leaves the position past it, the remaining length wraps around, and the copy of the packet runs
  with an end before its begin. Here the range is the first octet of three.\<close>

theorem reassembly_range_overruns: "reassemblePartialBodyLengthRange [0xCB, 0xC0, 0x00] 0 1 = None"
proof -
  have "readPacketHeader [0xCB, 0xC0, 0x00] 0 (Some 1) True = yes (11, 192, 3, False)"
    by (simp add: header_defs)
  then show ?thesis
    by (simp add: reassemblePartialBodyLengthRange_def reassembleLoop.simps size_sub_def slice_def)
qed

end
