(* ===== verification/Message.thy ===== *)
theory Message
  imports EngineState Bzip2 PartialBody
begin

unbundle bit_operations_syntax

text \<open>
  Encrypted messages: a session-key packet for each recipient (RSA or ECDH), the encrypted
  container with its checksum, and the reader of both. The reader copes with foreign producers:
  packets with partial lengths, other compression algorithms, session keys for other recipients.
  Reads outside the message are undefined behaviour, so that the missing length check of the
  session-key packet shows.
\<close>

section \<open>Session keys\<close>

definition pgpSymmetricSessionKeyLength :: "byte \<Rightarrow> nat" where
  "pgpSymmetricSessionKeyLength cipherAlgorithmOctet =
     (if cipherAlgorithmOctet = 7 then 16 else if cipherAlgorithmOctet = 8 then 24 else 32)"

definition keyChecksum :: "bytes \<Rightarrow> 32 word" where
  "keyChecksum sessionKey = fold (\<lambda>b sum. sum + ucast b) sessionKey 0"

definition sessionKeyPlain :: "byte \<Rightarrow> bytes \<Rightarrow> bytes" where
  "sessionKeyPlain cipherAlgorithmOctet sessionKey =
     (let checksum = keyChecksum sessionKey
      in [cipherAlgorithmOctet] @ sessionKey
         @ [ucast (drop_bit 8 checksum AND 0xFF), ucast (checksum AND 0xFF)])"

text \<open>The random octets that one message takes.\<close>

record message_draws =
  mdSessionKey :: "nat \<Rightarrow> bytes"
  mdPrefix :: bytes
  mdPadding :: "nat \<Rightarrow> bytes"
  mdEphemeral :: "nat \<Rightarrow> bytes"

definition rsaPkesk :: "crypto \<Rightarrow> bytes \<Rightarrow> recipient \<Rightarrow> bytes \<Rightarrow> bytes" where
  "rsaPkesk L padding rc plain =
     (case rsaEncrypt L (rcRsaPublicKey rc) padding plain of
        None \<Rightarrow> []
      | Some pkcsCipher \<Rightarrow>
          let cipherMpi = encodeMpi (integerDecode pkcsCipher)
          in writePacket PGP_TAG_PKESK (appendAll ([3] @ rcRsaKeyId rc @ [PGP_ALGO_RSA]) cipherMpi))"

definition padPkcs5 :: "bytes \<Rightarrow> bytes" where
  "padPkcs5 plain =
     (let padLength = 8 - length plain mod 8 in plain @ replicate padLength (word_of_nat padLength))"

definition ecdhPkesk :: "crypto \<Rightarrow> bytes \<Rightarrow> recipient \<Rightarrow> bytes \<Rightarrow> bytes" where
  "ecdhPkesk L ephemeralPrivateKey rc plain =
     (case xAgree L ephemeralPrivateKey (rcX25519PublicKey rc) of
        None \<Rightarrow> []
      | Some sharedSecret \<Rightarrow>
          let kek = computeEcdhKek L sharedSecret (buildEcdhKdfParam (rcX25519Fingerprint rc)) 16;
              wrapped = aesKeyWrap L kek (padPkcs5 plain)
          in if length kek \<noteq> 16 then []
             else if wrapped = [] then []
             else writePacket PGP_TAG_PKESK
               (appendAll (appendAll ([3] @ rcX25519KeyId rc @ [PGP_ALGO_ECDH])
                  (encodeNativePointMpi (xPublic L ephemeralPrivateKey)) @ [word_of_nat (length wrapped)]) wrapped))"

definition buildPkeskPacketForRecipient ::
  "crypto \<Rightarrow> bytes \<Rightarrow> bytes \<Rightarrow> recipient \<Rightarrow> bytes \<Rightarrow> byte \<Rightarrow> bytes" where
  "buildPkeskPacketForRecipient L padding ephemeral rc sessionKey cipherAlgorithmOctet =
     (let plain = sessionKeyPlain cipherAlgorithmOctet sessionKey
      in if rcAlgorithm rc = PGP_KEY_ALGORITHM_RSA then rsaPkesk L padding rc plain
         else ecdhPkesk L ephemeral rc plain)"

section \<open>Building a message\<close>

definition literalPacketOf :: "bytes \<Rightarrow> bytes" where
  "literalPacketOf plaintext =
     writePacket PGP_TAG_LITERAL_DATA (appendBigEndian32 [of_char CHR ''b'', 0] 0 @ plaintext)"

definition compressedPacketOf :: "crypto \<Rightarrow> bytes \<Rightarrow> bytes" where
  "compressedPacketOf L content = writePacket PGP_TAG_COMPRESSED_DATA ([1] @ deflate L content)"

text \<open>The encrypted container: random prefix with its last two octets repeated, content, and the
  checksum packet over all of it.\<close>

definition seipPacketOf :: "crypto \<Rightarrow> bytes \<Rightarrow> bytes \<Rightarrow> bytes \<Rightarrow> bytes" where
  "seipPacketOf L sessionKey random16 content =
     (let prefix = random16 @ [random16 ! 14, random16 ! 15];
          plainForCfb = appendAll prefix content;
          mdcHash = sha1 L (plainForCfb @ [0xD3, 0x14]);
          plainForCfb = plainForCfb @ [0xD3, 0x14] @ mdcHash
      in writePacket PGP_TAG_SEIP (appendAll [1] (cfbEncrypt L sessionKey (zeros 16) plainForCfb)))"

text \<open>The session-key packets of all recipients; \<open>None\<close> when one cannot be built.\<close>

fun pkeskPackets ::
  "crypto \<Rightarrow> message_draws \<Rightarrow> bytes \<Rightarrow> byte \<Rightarrow> nat \<Rightarrow> recipient list \<Rightarrow> bytes option" where
  "pkeskPackets L M sessionKey cipher i [] = Some []"
| "pkeskPackets L M sessionKey cipher i (rc # rcs) =
     (let packet = buildPkeskPacketForRecipient L (mdPadding M i) (mdEphemeral M i) rc sessionKey cipher
      in if packet = [] then None
         else map_option (\<lambda>rest. packet @ rest) (pkeskPackets L M sessionKey cipher (i + 1) rcs))"

text \<open>\<open>None\<close> is the result \<open>false\<close>.\<close>

definition sealMessage ::
  "crypto \<Rightarrow> message_draws \<Rightarrow> recipient list \<Rightarrow> byte \<Rightarrow> bytes \<Rightarrow> bytes option" where
  "sealMessage L M recipients cipher content =
     (let sessionKey = mdSessionKey M (pgpSymmetricSessionKeyLength cipher);
          seipPacket = seipPacketOf L sessionKey (mdPrefix M) (compressedPacketOf L content)
      in map_option (\<lambda>out. appendAll out seipPacket) (pkeskPackets L M sessionKey cipher 0 recipients))"

definition buildEncryptedMessageMultiRecipient ::
  "crypto \<Rightarrow> message_draws \<Rightarrow> recipient list \<Rightarrow> byte \<Rightarrow> bytes \<Rightarrow> bytes option" where
  "buildEncryptedMessageMultiRecipient L M recipients cipher plaintext =
     (if recipients = [] then None
      else sealMessage L M recipients cipher (literalPacketOf plaintext))"

text \<open>The newest usable signing subkey, else the master key: RSA key, Ed25519 key, key ID.\<close>

fun selectFromSubkeys :: "own_subkey list \<Rightarrow> rsa_key \<times> bytes \<times> bytes \<Rightarrow> rsa_key \<times> bytes \<times> bytes" where
  "selectFromSubkeys [] master = master"
| "selectFromSubkeys (k # ks) master =
     (if skIsRevoked k \<or> skKeyFlags k AND 0x02 = 0 then selectFromSubkeys ks master
      else (skRsaPrivateKey k, skEd25519PrivateKey k, skKeyId k))"

definition selectActiveSigningKeyMaterial ::
  "own_subkey list \<Rightarrow> rsa_key \<Rightarrow> bytes \<Rightarrow> bytes \<Rightarrow> rsa_key \<times> bytes \<times> bytes" where
  "selectActiveSigningKeyMaterial subkeys masterRsaKey masterEd25519Key masterKeyId =
     selectFromSubkeys (rev subkeys) (masterRsaKey, masterEd25519Key, masterKeyId)"

text \<open>The signature over a document, and the packets a signed message compresses.\<close>

definition documentSignature ::
  "crypto \<Rightarrow> 32 word \<Rightarrow> key_algorithm \<Rightarrow> rsa_key \<times> bytes \<times> bytes \<Rightarrow> bytes \<Rightarrow> byte \<Rightarrow> bytes" where
  "documentSignature L now alg key documentData signatureType =
     (case key of (rsaKey, edKey, keyId) \<Rightarrow>
        if alg = PGP_KEY_ALGORITHM_RSA then buildSignaturePacket L now rsaKey signatureType documentData [] keyId
        else buildEd25519SignaturePacket L now edKey signatureType documentData [] keyId)"

abbreviation messageSignature ::
  "crypto \<Rightarrow> 32 word \<Rightarrow> key_algorithm \<Rightarrow> rsa_key \<times> bytes \<times> bytes \<Rightarrow> bytes \<Rightarrow> bytes" where
  "messageSignature L now alg key documentData \<equiv> documentSignature L now alg key documentData 0"

definition messageOnePass :: "key_algorithm \<Rightarrow> bytes \<Rightarrow> bytes" where
  "messageOnePass alg keyId =
     buildOnePassSignaturePacket 0 (if alg = PGP_KEY_ALGORITHM_RSA then 8 else 10)
       (if alg = PGP_KEY_ALGORITHM_RSA then 1 else PGP_ALGO_EDDSA) keyId True"

definition signedContentOf :: "key_algorithm \<Rightarrow> bytes \<Rightarrow> bytes \<Rightarrow> bytes \<Rightarrow> bytes" where
  "signedContentOf alg keyId plaintext sigPacket =
     appendAll (appendAll (appendAll [] (messageOnePass alg keyId)) (literalPacketOf plaintext)) sigPacket"

definition buildEncryptedSignedMessageMultiRecipient ::
  "crypto \<Rightarrow> message_draws \<Rightarrow> 32 word \<Rightarrow> recipient list \<Rightarrow> key_algorithm \<Rightarrow> rsa_key \<times> bytes \<times> bytes \<Rightarrow> byte
   \<Rightarrow> bytes \<Rightarrow> bytes option" where
  "buildEncryptedSignedMessageMultiRecipient L M now recipients alg key cipher plaintext =
     (if recipients = [] then None
      else case key of (rsaKey, edKey, keyId) \<Rightarrow>
        let sigPacket = messageSignature L now alg key plaintext
        in if messageOnePass alg keyId = [] then None
           else if sigPacket = [] then None
           else sealMessage L M recipients cipher (signedContentOf alg keyId plaintext sigPacket))"

section \<open>Finding the session key\<close>

text \<open>The key that a message is opened with: algorithm, RSA key, X25519 key, fingerprint, key ID.\<close>

record own_key =
  okAlgorithm :: key_algorithm
  okRsaKey :: rsa_key
  okX25519Key :: bytes
  okFingerprint :: bytes
  okKeyId :: bytes

text \<open>\<open>no\<close> makes the whole reader return false; \<open>yes None\<close> leaves the session key not found.\<close>

definition rsaSessionKey :: "crypto \<Rightarrow> own_key \<Rightarrow> bytes \<Rightarrow> nat \<Rightarrow> nat \<Rightarrow> bytes option cpp" where
  "rsaSessionKey L K message p pkeskEnd =
     (if p + 2 > pkeskEnd then no
      else do {
        bitLength \<leftarrow> readBigEndian16 message p;
        let byteLength = (bitLength + 7) div 8;
        if p + 2 + byteLength > pkeskEnd then no
        else do {
          field \<leftarrow> slice message (p + 2) (p + 2 + byteLength);
          let fixedCipher = integerEncode (rsaModulusByteLength (rsaModulus (okRsaKey K))) (integerDecode field);
          case rsaDecrypt L (okRsaKey K) fixedCipher of None \<Rightarrow> no | Some result \<Rightarrow> yes result } })"

definition unpadPkcs5 :: "bytes \<Rightarrow> bytes option" where
  "unpadPkcs5 unwrapped =
     (if unwrapped = [] then None
      else let padLength = last unwrapped
           in if padLength \<ge> 1 \<and> padLength \<le> 8 \<and> unat padLength \<le> length unwrapped
              then Some (take (length unwrapped - unat padLength) unwrapped) else None)"

definition ecdhSessionKey :: "crypto \<Rightarrow> own_key \<Rightarrow> bytes \<Rightarrow> nat \<Rightarrow> nat \<Rightarrow> bytes option cpp" where
  "ecdhSessionKey L K message p pkeskEnd =
     (case readNativePointMpi message p of None \<Rightarrow> None | Some None \<Rightarrow> yes None
      | Some (Some (ephemeralPublicKey, mpiPos)) \<Rightarrow>
          if \<not> mpiPos < pkeskEnd then yes None
          else do {
            wrappedLength \<leftarrow> byte_at message mpiPos;
            if mpiPos + 1 + unat wrappedLength > pkeskEnd then yes None
            else do {
              wrapped \<leftarrow> slice message (mpiPos + 1) (mpiPos + 1 + unat wrappedLength);
              case xAgree L (okX25519Key K) ephemeralPublicKey of None \<Rightarrow> yes None
              | Some sharedSecret \<Rightarrow>
                  let kek = computeEcdhKek L sharedSecret (buildEcdhKdfParam (okFingerprint K)) 16
                  in if length kek \<noteq> 16 then yes None
                     else case aesKeyUnwrap L kek wrapped of None \<Rightarrow> None | Some None \<Rightarrow> yes None
                     | Some (Some unwrapped) \<Rightarrow> yes (unpadPkcs5 unwrapped) } })"

definition algorithmMatches :: "own_key \<Rightarrow> byte \<Rightarrow> bool" where
  "algorithmMatches K pkAlgo =
     (if okAlgorithm K = PGP_KEY_ALGORITHM_RSA then pkAlgo = PGP_ALGO_RSA else pkAlgo = PGP_ALGO_ECDH)"

text \<open>One session-key packet whose body is \<open>[p, pkeskEnd)\<close>: what it adds to what was found so far.\<close>

definition pkeskStep :: "crypto \<Rightarrow> own_key \<Rightarrow> bytes \<Rightarrow> nat \<Rightarrow> nat \<Rightarrow> bytes option \<Rightarrow> bytes option cpp" where
  "pkeskStep L K message p pkeskEnd session = do {
     version \<leftarrow> byte_at message p;
     if version \<noteq> 3 then no
     else do {
       thisKeyId \<leftarrow> slice message (p + 1) (p + 9);
       pkAlgo \<leftarrow> byte_at message (p + 9);
       if session = None \<and> thisKeyId = okKeyId K \<and> algorithmMatches K pkAlgo
       then if pkAlgo = PGP_ALGO_RSA then rsaSessionKey L K message (p + 10) pkeskEnd
            else ecdhSessionKey L K message (p + 10) pkeskEnd
       else yes session } }"

function pkeskLoop :: "crypto \<Rightarrow> own_key \<Rightarrow> bytes \<Rightarrow> nat \<Rightarrow> bytes option \<Rightarrow> (nat \<times> bytes option) cpp" where
  "pkeskLoop L K message pos session =
     (case readPacketHeader message pos None False of None \<Rightarrow> None | Some None \<Rightarrow> yes (pos, session)
      | Some (Some (tag, bodyLength, peekPos, part)) \<Rightarrow>
          if tag \<noteq> PGP_TAG_PKESK then yes (pos, session)
          else if peekPos + bodyLength > length message then no
          else on_true (pkeskStep L K message peekPos (peekPos + bodyLength) session)
            (\<lambda>session. pkeskLoop L K message (peekPos + bodyLength) session))"
  by pat_completeness auto

termination
  by (relation "measure (\<lambda>(L, K, message, pos, s). length message - pos)")
    (auto dest!: readPacketHeader_pos)

declare pkeskLoop.simps [simp del]

definition openSessionKey :: "bytes \<Rightarrow> bytes cpp" where
  "openSessionKey sessionPlain = do {
     cipher \<leftarrow> byte_at sessionPlain 0;
     let sessionKeyLength = (if cipher = 7 then 16 else if cipher = 8 then 24 else if cipher = 9 then 32 else 0);
     if sessionKeyLength = 0 then no
     else if length sessionPlain \<noteq> 1 + sessionKeyLength + 2 then no
     else do {
       sessionKey \<leftarrow> slice sessionPlain 1 (1 + sessionKeyLength);
       hi \<leftarrow> byte_at sessionPlain (1 + sessionKeyLength);
       lo \<leftarrow> byte_at sessionPlain (1 + sessionKeyLength + 1);
       if keyChecksum sessionKey AND 0xFFFF \<noteq> push_bit 8 (ucast hi) OR ucast lo then no
       else yes sessionKey } }"

section \<open>Opening the container\<close>

definition openSeip :: "crypto \<Rightarrow> bytes \<Rightarrow> nat \<Rightarrow> bytes \<Rightarrow> bytes cpp" where
  "openSeip L message pos sessionKey =
     on_true (readPacketHeader message pos None False) (\<lambda>(tag, bodyLength, pos, part).
       if tag \<noteq> PGP_TAG_SEIP then no
       else if pos + bodyLength > length message \<or> bodyLength < 1 then no
       else do {
         version \<leftarrow> byte_at message pos;
         if version \<noteq> 1 then no
         else do {
           encrypted \<leftarrow> slice message (pos + 1) (pos + bodyLength);
           let plainForCfb = cfbDecrypt L sessionKey (zeros 16) encrypted;
           if length plainForCfb < 18 + 2 + 20 then no
           else
             let mdcHashOffset = length plainForCfb - 20
             in do {
               t0 \<leftarrow> byte_at plainForCfb (mdcHashOffset - 2);
               t1 \<leftarrow> byte_at plainForCfb (mdcHashOffset - 1);
               if t0 \<noteq> 0xD3 \<or> t1 \<noteq> 0x14 then no
               else if sha1 L (take mdcHashOffset plainForCfb) \<noteq> drop mdcHashOffset plainForCfb then no
               else yes plainForCfb } } })"

definition decompress :: "crypto \<Rightarrow> byte \<Rightarrow> bytes \<Rightarrow> bytes cpp" where
  "decompress L algorithm compressed =
     (if algorithm = 0 then yes compressed
      else if algorithm = 1 then (case inflateRaw L compressed of None \<Rightarrow> no | Some d \<Rightarrow> yes d)
      else if algorithm = 2 then (case inflateZlib L compressed of None \<Rightarrow> no | Some d \<Rightarrow> yes d)
      else if algorithm = 3 then bzip2DecompressBuffer compressed
      else no)"

text \<open>The literal packet inside the decompressed data and, when it is wanted, the signature packet
  after it.\<close>

definition signatureAfter :: "bytes \<Rightarrow> nat \<Rightarrow> bytes cpp" where
  "signatureAfter packets sigPacketStart =
     on_true (readPacketHeader packets sigPacketStart None False) (\<lambda>(tag, len, pos, part).
       if tag \<noteq> PGP_TAG_SIGNATURE \<or> pos + len > length packets then no
       else do { sig \<leftarrow> slice packets sigPacketStart (pos + len); yes sig })"

definition literalIn :: "bytes \<Rightarrow> bool \<Rightarrow> (bytes \<times> bytes option) cpp" where
  "literalIn packets wantSignature =
     on_true (readPacketHeader packets 0 None False) (\<lambda>(lt, ll, lp, part).
     on_true (if lt = PGP_TAG_ONE_PASS_SIG then readPacketHeader packets (lp + ll) None False else yes (lt, ll, lp, part))
       (\<lambda>(lt, ll, lp, part).
         if lt \<noteq> PGP_TAG_LITERAL_DATA \<or> lp + ll > length packets then no
         else do {
           body \<leftarrow> slice packets lp (lp + ll);
           if \<not> wantSignature then yes (body, None)
           else on_true (signatureAfter packets (lp + ll)) (\<lambda>sig. yes (body, Some sig)) }))"

definition literalContent :: "bytes \<Rightarrow> bytes cpp" where
  "literalContent body =
     (if length body < 6 then no
      else do {
        filenameLength \<leftarrow> byte_at body 1;
        let contentOffset = 1 + 1 + unat filenameLength + 4;
        if contentOffset > length body then no
        else do { content \<leftarrow> slice body contentOffset (length body); yes content } })"

text \<open>The packet at \<open>innerPos\<close>, compressed or literal. A literal packet that is not compressed
  carries no signature: the out-parameter keeps its old value, and the result is \<open>None\<close>.\<close>

definition openInner :: "crypto \<Rightarrow> bytes \<Rightarrow> nat \<Rightarrow> nat \<Rightarrow> bool \<Rightarrow> (bytes \<times> bytes option) cpp" where
  "openInner L innerData innerPos innerEnd wantSignature =
     on_true (readPacketHeader innerData innerPos (Some innerEnd) False) (\<lambda>(tag, len, innerPos, part).
       if innerPos + len > innerEnd then no
       else if tag = PGP_TAG_COMPRESSED_DATA then
         if len < 1 then no
         else do {
           algorithm \<leftarrow> byte_at innerData innerPos;
           compressed \<leftarrow> slice innerData (innerPos + 1) (innerPos + len);
           on_true (decompress L algorithm compressed) (\<lambda>packets. do {
             r \<leftarrow> reassemblePartialBodyLengths packets;
             literalIn (case r of None \<Rightarrow> packets | Some reassembled \<Rightarrow> reassembled) wantSignature }) }
       else if tag = PGP_TAG_LITERAL_DATA then do { body \<leftarrow> slice innerData innerPos (innerPos + len); yes (body, None) }
       else no)"

text \<open>The body of the literal packet, and the signature packet that the caller's vector then holds.\<close>

definition openBody :: "crypto \<Rightarrow> bytes \<Rightarrow> bool \<Rightarrow> (bytes \<times> bytes option) cpp" where
  "openBody L plainForCfb wantSignature =
     (let mdcTagOffset = length plainForCfb - 22
      in do {
        r \<leftarrow> reassemblePartialBodyLengthRange plainForCfb 18 mdcTagOffset;
        case r of None \<Rightarrow> openInner L plainForCfb 18 mdcTagOffset wantSignature
        | Some reassembled \<Rightarrow> openInner L reassembled 0 (length reassembled) wantSignature })"

definition openPlain :: "crypto \<Rightarrow> bytes \<Rightarrow> bool \<Rightarrow> (bytes \<times> bytes option) cpp" where
  "openPlain L plainForCfb wantSignature =
     on_true (openBody L plainForCfb wantSignature)
       (\<lambda>(body, sig). on_true (literalContent body) (\<lambda>content. yes (content, sig)))"

text \<open>The decrypted container, and the whole reader.\<close>

definition messagePlain :: "crypto \<Rightarrow> own_key \<Rightarrow> bytes \<Rightarrow> bytes cpp" where
  "messagePlain L K inputMessage = do {
     r \<leftarrow> reassemblePartialBodyLengths inputMessage;
     let message = (case r of None \<Rightarrow> inputMessage | Some reassembled \<Rightarrow> reassembled);
     on_true (pkeskLoop L K message 0 None) (\<lambda>(pos, session).
       case session of None \<Rightarrow> no
       | Some sessionPlain \<Rightarrow>
           if sessionPlain = [] then no
           else on_true (openSessionKey sessionPlain) (\<lambda>sessionKey. openSeip L message pos sessionKey)) }"

definition parseAndDecryptMessage ::
  "crypto \<Rightarrow> own_key \<Rightarrow> bytes \<Rightarrow> bool \<Rightarrow> (bytes \<times> bytes option) cpp" where
  "parseAndDecryptMessage L K inputMessage wantSignature =
     on_true (messagePlain L K inputMessage) (\<lambda>plain. openPlain L plain wantSignature)"

end
