(* ===== verification/MessageFacts.thy ===== *)
theory MessageFacts
  imports Message
begin

unbundle bit_operations_syntax

text \<open>
  What the message reader makes of the packets the message writer produces: session keys, the
  session-key packets of other recipients, the container, the compressed content. The theorems
  about whole messages put these together.
\<close>

section \<open>Session keys\<close>

lemma checksum_octets:
  "push_bit 8 (ucast (ucast (drop_bit 8 s AND 0xFF) :: byte)) OR ucast (ucast (s AND 0xFF) :: byte) = s AND (0xFFFF :: 32 word)"
proof -
  have m: "(0xFF :: 32 word) = mask 8" "(0xFFFF :: 32 word) = mask 16" by (simp_all add: mask_eq_exp_minus_1)
  show ?thesis
    unfolding m by (rule bit_word_eqI) (auto simp: bit_simps)
qed

definition knownCipher :: "byte \<Rightarrow> bool" where
  "knownCipher c \<longleftrightarrow> c \<in> {7, 8, 9}"

lemma openSessionKey_plain:
  assumes "knownCipher c" "length k = pgpSymmetricSessionKeyLength c"
  shows "openSessionKey (sessionKeyPlain c k) = yes k"
proof -
  let ?s = "keyChecksum k"
  let ?n = "pgpSymmetricSessionKeyLength c"
  define hi where "hi = (ucast (drop_bit 8 ?s AND 0xFF) :: byte)"
  define lo where "lo = (ucast (?s AND 0xFF) :: byte)"
  have plain: "sessionKeyPlain c k = [c] @ k @ [hi, lo]" by (simp add: sessionKeyPlain_def Let_def hi_def lo_def)
  have n: "(if c = 7 then 16 else if c = 8 then 24 else if c = 9 then 32 else 0) = ?n" "?n \<noteq> 0"
    using assms(1) by (auto simp: knownCipher_def pgpSymmetricSessionKeyLength_def)
  have sum: "?s AND 0xFFFF = push_bit 8 (ucast hi) OR ucast lo" by (simp only: hi_def lo_def checksum_octets)
  have "slice ([c] @ k @ [hi, lo]) 1 (1 + ?n) = Some k"
    using slice_append [of "[c]" k "[hi, lo]"] assms(2) by simp
  moreover have "byte_at ([c] @ k @ [hi, lo]) 0 = Some c" by simp
  moreover have "byte_at ([c] @ k @ [hi, lo]) (1 + ?n) = Some hi" "byte_at ([c] @ k @ [hi, lo]) (1 + ?n + 1) = Some lo"
    using assms(2) byte_at_append [of "[c] @ k" "[hi, lo]" 0] byte_at_append [of "[c] @ k" "[hi, lo]" 1] by simp_all
  ultimately show ?thesis
    unfolding openSessionKey_def plain using n sum assms(2)
    by (simp only: bind.bind_lunit Let_def) simp
qed

lemma length_sessionKeyPlain [simp]: "length (sessionKeyPlain c k) = length k + 3"
  by (simp add: sessionKeyPlain_def Let_def)

lemma unpad_pad: "unpadPkcs5 (padPkcs5 m) = Some m"
proof -
  define p where "p = 8 - length m mod 8"
  have p: "1 \<le> p" "p \<le> 8" using mod_less_divisor [of 8 "length m"] by (simp_all add: p_def)
  then have "unat (word_of_nat p :: byte) = p" by simp
  then show ?thesis using p
    by (simp add: unpadPkcs5_def padPkcs5_def Let_def word_le_nat_alt flip: p_def)
qed

lemma length_padPkcs5: "length (padPkcs5 m) mod 8 = 0" "padPkcs5 m \<noteq> []" "length (padPkcs5 m) \<le> length m + 8"
proof -
  have "(n + (8 - n mod 8)) mod 8 = 0" for n :: nat by presburger
  then show "length (padPkcs5 m) mod 8 = 0" by (simp add: padPkcs5_def Let_def)
  have "0 < 8 - length m mod 8" using mod_less_divisor [of 8 "length m"] by simp
  then show "padPkcs5 m \<noteq> []" by (simp add: padPkcs5_def Let_def)
qed (simp add: padPkcs5_def Let_def)

section \<open>One session-key packet\<close>

text \<open>The body of a session-key packet, version 3.\<close>

definition pkeskBody :: "bytes \<Rightarrow> byte \<Rightarrow> bytes \<Rightarrow> bytes" where
  "pkeskBody keyId algorithm material = [3] @ keyId @ [algorithm] @ material"

text \<open>The secret key \<open>K\<close> belongs to the recipient entry \<open>rc\<close>, for the ephemeral key of the packet.\<close>

definition keyFor :: "crypto \<Rightarrow> own_key \<Rightarrow> recipient \<Rightarrow> bytes \<Rightarrow> bool" where
  "keyFor L K rc ephemeral \<longleftrightarrow> okAlgorithm K = rcAlgorithm rc \<and> length (okKeyId K) = 8 \<and>
     (if rcAlgorithm rc = PGP_KEY_ALGORITHM_RSA
      then rcRsaPublicKey rc = rsaPublicOf (okRsaKey K) \<and> rcRsaKeyId rc = okKeyId K \<and> rsa_crypt_ok L (okRsaKey K)
         \<and> 46 \<le> minEncodedSize (rsaModulus (okRsaKey K)) \<and> minEncodedSize (rsaModulus (okRsaKey K)) \<le> 8191
      else rcX25519PublicKey rc = xPublic L (okX25519Key K) \<and> rcX25519KeyId rc = okKeyId K
         \<and> rcX25519Fingerprint rc = okFingerprint K \<and> x_agree_ok L ephemeral (okX25519Key K)
         \<and> length (xPublic L ephemeral) = 32)"

lemma rsaSessionKey_read:
  assumes "readMpiOctets message p = yes (field, q)" "q \<le> pkeskEnd"
  shows "rsaSessionKey L K message p pkeskEnd
    = (case rsaDecrypt L (okRsaKey K) (integerEncode (rsaModulusByteLength (rsaModulus (okRsaKey K))) (integerDecode field))
       of None \<Rightarrow> no | Some result \<Rightarrow> yes result)"
  using assms by (auto simp: rsaSessionKey_def readMpiOctets_def Let_def slice_Some split: if_splits bind_splits)

lemma rsaPkesk_reads:
  assumes key: "rsa_crypt_ok L (okRsaKey K)" "minEncodedSize (rsaModulus (okRsaKey K)) \<le> 8191"
    and fits: "length plain + 11 \<le> minEncodedSize (rsaModulus (okRsaKey K))"
    and rc: "rcRsaPublicKey rc = rsaPublicOf (okRsaKey K)"
  shows "\<exists>material. rsaPkesk L padding rc plain = writePacket PGP_TAG_PKESK (pkeskBody (rcRsaKeyId rc) PGP_ALGO_RSA material)
    \<and> length material \<le> 8193
    \<and> (\<forall>pre post. rsaSessionKey L K (pre @ material @ post) (length pre) (length pre + length material) = yes (Some plain))"
proof -
  let ?n = "minEncodedSize (rsaModulus (okRsaKey K))"
  obtain c where c: "rsaEncrypt L (rsaPublicOf (okRsaKey K)) padding plain = Some c" "length c = ?n"
    "rsaDecrypt L (okRsaKey K) c = Some (Some plain)"
    using key(1) fits unfolding rsa_crypt_ok_def by blast
  let ?v = "integerDecode c"
  have "?v < 2 ^ (8 * length c)" using integerDecode_lt [of c] by (simp add: power_mult)
  then have bits: "bitCount ?v \<le> 8 * length c" by (rule bitCount_le)
  then have small: "bitCount ?v < 65536" using c(2) key(2) by linarith
  have restored: "integerEncode (rsaModulusByteLength (rsaModulus (okRsaKey K))) ?v = c"
    using integerEncode_integerDecode [of c] c(2) by (simp add: rsaModulusByteLength_def)
  have "rsaSessionKey L K (pre @ encodeMpi ?v @ post) (length pre) (length pre + length (encodeMpi ?v)) = yes (Some plain)" for pre post
    using rsaSessionKey_read [OF readMpiOctets_encodeMpi [OF small, of pre post]] restored c(3)
    by (simp add: integerDecode_mpiOctets del: integerDecode_integerEncode)
  moreover have "length (encodeMpi ?v) \<le> 8193"
    using bits c(2) key(2) by (simp add: length_encodeMpi)
  ultimately show ?thesis
    by (intro exI [of _ "encodeMpi ?v"]) (simp add: rsaPkesk_def rc c(1) Let_def pkeskBody_def appendAll_def)
qed

lemma ecdhPkesk_reads:
  assumes lib: "digests_ok L" "aes_ok L" and agree: "x_agree_ok L ephemeral (okX25519Key K)"
    and eph: "length (xPublic L ephemeral) = 32" and plain: "length plain \<le> 35"
    and rc: "rcX25519PublicKey rc = xPublic L (okX25519Key K)" "rcX25519Fingerprint rc = okFingerprint K"
  shows "\<exists>material. ecdhPkesk L ephemeral rc plain = writePacket PGP_TAG_PKESK (pkeskBody (rcX25519KeyId rc) PGP_ALGO_ECDH material)
    \<and> length material \<le> 8193
    \<and> (\<forall>pre post. ecdhSessionKey L K (pre @ material @ post) (length pre) (length pre + length material) = yes (Some plain))"
proof -
  obtain s where s: "xAgree L ephemeral (xPublic L (okX25519Key K)) = Some s" "xAgree L (okX25519Key K) (xPublic L ephemeral) = Some s"
    using agree by (auto simp: x_agree_ok_def)
  let ?kek = "computeEcdhKek L s (buildEcdhKdfParam (okFingerprint K)) 16"
  let ?w = "aesKeyWrap L ?kek (padPkcs5 plain)"
  have kek: "length ?kek = 16" using lib(1) by (simp add: computeEcdhKek_def digests_ok_def)
  have w: "aesKeyUnwrap L ?kek ?w = yes (padPkcs5 plain)" "length ?w = length (padPkcs5 plain) + 8"
    using aesKeyUnwrap_aesKeyWrap [OF lib(2), of ?kek "padPkcs5 plain"] kek length_padPkcs5 [of plain] by simp_all
  have wl: "length ?w \<le> 51" using w(2) length_padPkcs5(3) [of plain] plain by linarith
  let ?mpi = "encodeNativePointMpi (xPublic L ephemeral)"
  let ?mat = "?mpi @ [word_of_nat (length ?w)] @ ?w"
  note mpi = length_encodeNativePointMpi [OF eph]
  have "ecdhSessionKey L K (pre @ ?mat @ post) (length pre) (length pre + length ?mat) = yes (Some plain)" for pre post
  proof -
    have at: "readNativePointMpi (pre @ ?mat @ post) (length pre) = yes (xPublic L ephemeral, length pre + 35)"
      using readNativePointMpi_encode [OF eph, of pre "([word_of_nat (length ?w)] @ ?w) @ post"] by simp
    have "byte_at ((pre @ ?mpi) @ [word_of_nat (length ?w)] @ ?w @ post) (length (pre @ ?mpi)) = Some (word_of_nat (length ?w))"
      by simp
    then have b: "byte_at (pre @ ?mat @ post) (length pre + 35) = Some (word_of_nat (length ?w))" using mpi by simp
    have "slice ((pre @ ?mpi @ [word_of_nat (length ?w)]) @ ?w @ post) (length (pre @ ?mpi @ [word_of_nat (length ?w)]))
        (length (pre @ ?mpi @ [word_of_nat (length ?w)]) + length ?w) = Some ?w"
      by (rule slice_append)
    then have sl: "slice (pre @ ?mat @ post) (length pre + 35 + 1) (length pre + 35 + 1 + length ?w) = Some ?w"
      using mpi by (simp add: add.assoc)
    have u: "unat (word_of_nat (length ?w) :: byte) = length ?w" using wl by simp
    show ?thesis
      unfolding ecdhSessionKey_def at using b sl u s(2) kek w(1) mpi by (simp add: Let_def unpad_pad)
  qed
  moreover have "?w \<noteq> []" using w(2) by auto
  moreover have "length ?mat \<le> 8193" using wl mpi by simp
  ultimately show ?thesis
    by (intro exI [of _ ?mat]) (simp add: ecdhPkesk_def rc s(1) kek Let_def pkeskBody_def appendAll_def)
qed

section \<open>The session-key packets of a message\<close>

lemma tags_small: "unat PGP_TAG_PKESK < 64" "unat PGP_TAG_SEIP < 64" "unat PGP_TAG_COMPRESSED_DATA < 64"
  "unat PGP_TAG_LITERAL_DATA < 64" "unat PGP_TAG_SIGNATURE < 64" "unat PGP_TAG_ONE_PASS_SIG < 64"
  by (simp_all add: PGP_TAG_PKESK_def PGP_TAG_SEIP_def PGP_TAG_COMPRESSED_DATA_def PGP_TAG_LITERAL_DATA_def
      PGP_TAG_SIGNATURE_def PGP_TAG_ONE_PASS_SIG_def)

text \<open>What a session-key packet leaves found, given what its step makes of its material.\<close>

lemma pkeskStep_body:
  assumes "length keyId = 8" "p = length pre"
  shows "pkeskStep L K (pre @ pkeskBody keyId algorithm material @ post) p e session
    = (if session = None \<and> keyId = okKeyId K \<and> algorithmMatches K algorithm
       then if algorithm = PGP_ALGO_RSA
            then rsaSessionKey L K (pre @ pkeskBody keyId algorithm material @ post) (p + 10) e
            else ecdhSessionKey L K (pre @ pkeskBody keyId algorithm material @ post) (p + 10) e
       else yes session)"
proof -
  let ?m = "pre @ pkeskBody keyId algorithm material @ post"
  have "byte_at ?m p = Some 3" using assms(2) by (simp add: pkeskBody_def)
  moreover have "slice ?m (p + 1) (p + 9) = Some keyId"
    using slice_append [of "pre @ [3]" keyId "[algorithm] @ material @ post"] assms
    by (simp add: pkeskBody_def)
  moreover have "byte_at ?m (p + 9) = Some algorithm"
    using byte_at_append [of "pre @ [3] @ keyId" "[algorithm] @ material @ post" 0] assms
    by (simp add: pkeskBody_def)
  ultimately show ?thesis by (simp only: pkeskStep_def bind.bind_lunit) simp
qed

text \<open>What the sender's library and random octets must satisfy.\<close>

definition messageLib_ok :: "crypto \<Rightarrow> bool" where
  "messageLib_ok L \<longleftrightarrow> digests_ok L \<and> aes_ok L \<and> cfb_ok L \<and> deflate_ok L"

definition messageDraws_ok :: "message_draws \<Rightarrow> bool" where
  "messageDraws_ok M \<longleftrightarrow> (\<forall>n. length (mdSessionKey M n) = n) \<and> length (mdPrefix M) = 16"

text \<open>A packet that yields the session key to its owner, whatever surrounds it.\<close>

definition opensFor :: "crypto \<Rightarrow> own_key \<Rightarrow> bytes \<Rightarrow> bytes \<times> byte \<times> bytes \<Rightarrow> bool" where
  "opensFor L K plain = (\<lambda>(k, a, m). k = okKeyId K \<and> length k = 8 \<and> length m \<le> 8193 \<and>
     (\<forall>pre post. pkeskStep L K (pre @ pkeskBody k a m @ post) (length pre) (length pre + length (pkeskBody k a m)) None
        = yes (Some plain)))"

lemma opensForI:
  assumes "length k = 8" "length m \<le> 8193" "k = okKeyId K" "algorithmMatches K a"
    and "a = PGP_ALGO_RSA \<Longrightarrow> \<forall>pre post. rsaSessionKey L K (pre @ m @ post) (length pre) (length pre + length m) = yes (Some plain)"
    and "a \<noteq> PGP_ALGO_RSA \<Longrightarrow> \<forall>pre post. ecdhSessionKey L K (pre @ m @ post) (length pre) (length pre + length m) = yes (Some plain)"
  shows "opensFor L K plain (k, a, m)"
proof -
  have "pkeskStep L K (pre @ pkeskBody k a m @ post) (length pre) (length pre + length (pkeskBody k a m)) None
      = yes (Some plain)" for pre post
  proof -
    let ?pre = "pre @ [3] @ k @ [a]"
    have "pre @ pkeskBody k a m @ post = ?pre @ m @ post" "length pre + 10 = length ?pre"
      "length pre + length (pkeskBody k a m) = length ?pre + length m"
      using assms(1) by (simp_all add: pkeskBody_def)
    then show ?thesis
      using pkeskStep_body [OF assms(1) refl, of L K pre a m post "length pre + length (pkeskBody k a m)" None] assms(3-6)
      by metis
  qed
  then show ?thesis using assms(1-3) by (simp add: opensFor_def)
qed

lemma buildPkesk_opens:
  assumes lib: "digests_ok L" "aes_ok L" and key: "keyFor L K rc ephemeral" and len: "length sessionKey \<le> 32"
  shows "\<exists>k a m. buildPkeskPacketForRecipient L padding ephemeral rc sessionKey cipher
      = writePacket PGP_TAG_PKESK (pkeskBody k a m) \<and> opensFor L K (sessionKeyPlain cipher sessionKey) (k, a, m)"
proof (cases "rcAlgorithm rc = PGP_KEY_ALGORITHM_RSA")
  case True
  let ?plain = "sessionKeyPlain cipher sessionKey"
  have key': "rsa_crypt_ok L (okRsaKey K)" "minEncodedSize (rsaModulus (okRsaKey K)) \<le> 8191"
    "length ?plain + 11 \<le> minEncodedSize (rsaModulus (okRsaKey K))" "rcRsaPublicKey rc = rsaPublicOf (okRsaKey K)"
    "rcRsaKeyId rc = okKeyId K" "length (okKeyId K) = 8" "okAlgorithm K = PGP_KEY_ALGORITHM_RSA"
    using key True len by (auto simp: keyFor_def)
  obtain m where m: "rsaPkesk L padding rc ?plain = writePacket PGP_TAG_PKESK (pkeskBody (rcRsaKeyId rc) PGP_ALGO_RSA m)"
    "length m \<le> 8193" "\<forall>pre post. rsaSessionKey L K (pre @ m @ post) (length pre) (length pre + length m) = yes (Some ?plain)"
    using rsaPkesk_reads [OF key'(1-4), of padding] by blast
  have "opensFor L K ?plain (rcRsaKeyId rc, PGP_ALGO_RSA, m)"
    using m key' by (intro opensForI) (auto simp: algorithmMatches_def)
  then show ?thesis using m(1) True by (auto simp: buildPkeskPacketForRecipient_def Let_def)
next
  case False
  let ?plain = "sessionKeyPlain cipher sessionKey"
  have key': "x_agree_ok L ephemeral (okX25519Key K)" "length (xPublic L ephemeral) = 32" "length ?plain \<le> 35"
    "rcX25519PublicKey rc = xPublic L (okX25519Key K)" "rcX25519Fingerprint rc = okFingerprint K"
    "rcX25519KeyId rc = okKeyId K" "length (okKeyId K) = 8" "okAlgorithm K \<noteq> PGP_KEY_ALGORITHM_RSA"
    using key False len by (auto simp: keyFor_def)
  obtain m where m: "ecdhPkesk L ephemeral rc ?plain = writePacket PGP_TAG_PKESK (pkeskBody (rcX25519KeyId rc) PGP_ALGO_ECDH m)"
    "length m \<le> 8193" "\<forall>pre post. ecdhSessionKey L K (pre @ m @ post) (length pre) (length pre + length m) = yes (Some ?plain)"
    using ecdhPkesk_reads [OF lib key'(1-5)] by blast
  have "PGP_ALGO_ECDH \<noteq> PGP_ALGO_RSA" by (simp add: PGP_ALGO_ECDH_def PGP_ALGO_RSA_def)
  then have "opensFor L K ?plain (rcX25519KeyId rc, PGP_ALGO_ECDH, m)"
    using m key' by (intro opensForI) (auto simp: algorithmMatches_def)
  then show ?thesis using m(1) False by (auto simp: buildPkeskPacketForRecipient_def Let_def)
qed

text \<open>Every recipient of a list has a key, in order.\<close>

fun keysFor :: "crypto \<Rightarrow> message_draws \<Rightarrow> nat \<Rightarrow> own_key list \<Rightarrow> recipient list \<Rightarrow> bool" where
  "keysFor L M i [] [] = True"
| "keysFor L M i (K # Ks) (rc # rcs) = (keyFor L K rc (mdEphemeral M i) \<and> keysFor L M (i + 1) Ks rcs)"
| "keysFor L M i _ _ = False"

definition pkeskSequence :: "(bytes \<times> byte \<times> bytes) list \<Rightarrow> bytes" where
  "pkeskSequence ps = concat (map (\<lambda>(k, a, m). writePacket PGP_TAG_PKESK (pkeskBody k a m)) ps)"

lemma pkeskPackets_open:
  assumes lib: "digests_ok L" "aes_ok L" and len: "length sessionKey \<le> 32"
  shows "keysFor L M i Ks rcs \<Longrightarrow> \<exists>ps. pkeskPackets L M sessionKey cipher i rcs = Some (pkeskSequence ps)
    \<and> list_all2 (\<lambda>p K. opensFor L K (sessionKeyPlain cipher sessionKey) p) ps Ks"
proof (induction rcs arbitrary: i Ks)
  case Nil
  then have "Ks = []" by (cases Ks) simp_all
  then show ?case by (intro exI [of _ "[]"]) (simp add: pkeskSequence_def)
next
  case (Cons rc rcs)
  then obtain K Ks' where Ks: "Ks = K # Ks'" by (cases Ks) simp_all
  with Cons.prems have key: "keyFor L K rc (mdEphemeral M i)" "keysFor L M (i + 1) Ks' rcs" by simp_all
  obtain ps where ps: "pkeskPackets L M sessionKey cipher (i + 1) rcs = Some (pkeskSequence ps)"
    "list_all2 (\<lambda>p K. opensFor L K (sessionKeyPlain cipher sessionKey) p) ps Ks'" using Cons.IH [OF key(2)] by blast
  obtain k a m where p: "buildPkeskPacketForRecipient L (mdPadding M i) (mdEphemeral M i) rc sessionKey cipher
      = writePacket PGP_TAG_PKESK (pkeskBody k a m)" "opensFor L K (sessionKeyPlain cipher sessionKey) (k, a, m)"
    using buildPkesk_opens [OF lib key(1) len] by blast
  have "writePacket PGP_TAG_PKESK (pkeskBody k a m) \<noteq> []" by (simp add: writePacket_eq)
  then show ?case
    using p ps by (intro exI [of _ "(k, a, m) # ps"]) (simp add: Ks Let_def pkeskSequence_def)
qed

text \<open>
  Two functions walk the session-key packets of a message, \<open>parseAndDecryptMessage\<close> for a message in memory
  and \<open>parseEncryptedFileHeader\<close> for a file. What they have in common is what this interface asks of
  their loop and of their treatment of one packet; that the walk finds the own packet among those of other
  recipients follows for both.
\<close>

definition headStops :: "bytes \<Rightarrow> nat \<Rightarrow> bool" where
  "headStops message pos \<longleftrightarrow> (case readPacketHeader message pos None False of None \<Rightarrow> False | Some None \<Rightarrow> True
     | Some (Some (tag, rest)) \<Rightarrow> tag \<noteq> PGP_TAG_PKESK)"

locale pkesk_walk =
  fixes loop :: "crypto \<Rightarrow> own_key \<Rightarrow> bytes \<Rightarrow> nat \<Rightarrow> bytes option \<Rightarrow> (nat \<times> bytes option) cpp"
    and step :: "crypto \<Rightarrow> own_key \<Rightarrow> bytes \<Rightarrow> nat \<Rightarrow> nat \<Rightarrow> bytes option \<Rightarrow> bytes option cpp"
  assumes loop_packet: "readPacketHeader message pos None False = yes (PGP_TAG_PKESK, n, p, part) \<Longrightarrow> p + n \<le> length message \<Longrightarrow>
      loop L K message pos session = on_true (step L K message p (p + n) session) (\<lambda>session. loop L K message (p + n) session)"
    and loop_stop: "headStops message pos \<Longrightarrow> loop L K message pos session = yes (pos, session)"
    and step_other: "length k = 8 \<Longrightarrow> k \<noteq> okKeyId K \<Longrightarrow>
      step L K (pre @ pkeskBody k a m @ post) (length pre) (length pre + length (pkeskBody k a m)) session = yes session"
    and step_own: "opensFor L K plain (k, a, m) \<Longrightarrow>
      step L K (pre @ pkeskBody k a m @ post) (length pre) (length pre + length (pkeskBody k a m)) None = yes (Some plain)"
begin

lemma loop_body:
  assumes "length k = 8" "length m \<le> 8193"
  shows "\<exists>h. loop L K (pre @ writePacket PGP_TAG_PKESK (pkeskBody k a m) @ post) (length pre) session
    = on_true (step L K ((pre @ h) @ pkeskBody k a m @ post) (length (pre @ h)) (length (pre @ h) + length (pkeskBody k a m)) session)
        (\<lambda>session. loop L K (pre @ writePacket PGP_TAG_PKESK (pkeskBody k a m) @ post)
           (length (pre @ writePacket PGP_TAG_PKESK (pkeskBody k a m))) session)"
proof -
  let ?body = "pkeskBody k a m"
  let ?message = "pre @ writePacket PGP_TAG_PKESK ?body @ post"
  define h where "h = (0xC0 OR PGP_TAG_PKESK) # appendNewFormatLength [] (length ?body)"
  have len: "length ?body < 4294967296" using assms by (simp add: pkeskBody_def)
  have split: "?message = (pre @ h) @ ?body @ post" "length (pre @ h) = length pre + 1 + newFormatLengthOctets (length ?body)"
    "length (pre @ h) + length ?body = length (pre @ writePacket PGP_TAG_PKESK ?body)"
    by (simp_all add: writePacket_eq h_def length_newFormatLength)
  note head = readPacketHeader_at(1) [OF tags_small(1) len refl refl, of pre post None False, folded split(2)]
  have fits: "length (pre @ h) + length ?body \<le> length ?message" unfolding split(3) by simp
  show ?thesis
    using loop_packet [OF head fits, of L K session]
    by (intro exI [of _ h]) (simp only: split(3) flip: split(1))
qed

lemma loop_other:
  assumes "length k = 8" "length m \<le> 8193" "k \<noteq> okKeyId K"
  shows "loop L K (pre @ writePacket PGP_TAG_PKESK (pkeskBody k a m) @ post) (length pre) session
    = loop L K (pre @ writePacket PGP_TAG_PKESK (pkeskBody k a m) @ post)
        (length (pre @ writePacket PGP_TAG_PKESK (pkeskBody k a m))) session"
  using loop_body [OF assms(1,2), of L K pre a post session] unfolding step_other [OF assms(1,3)] on_true_simps by blast

lemma loop_own:
  assumes "opensFor L K plain (k, a, m)"
  shows "loop L K (pre @ writePacket PGP_TAG_PKESK (pkeskBody k a m) @ post) (length pre) None
    = loop L K (pre @ writePacket PGP_TAG_PKESK (pkeskBody k a m) @ post)
        (length (pre @ writePacket PGP_TAG_PKESK (pkeskBody k a m))) (Some plain)"
proof -
  have "length k = 8" "length m \<le> 8193" using assms unfolding opensFor_def prod.case by blast+
  from loop_body [OF this, of L K pre a post None] show ?thesis
    unfolding step_own [OF assms] on_true_simps by blast
qed

lemma skip:
  assumes "\<forall>(k, a, m) \<in> set ps. length k = 8 \<and> length m \<le> 8193 \<and> k \<noteq> okKeyId K"
  shows "loop L K (pre @ pkeskSequence ps @ post) (length pre) session
    = loop L K (pre @ pkeskSequence ps @ post) (length (pre @ pkeskSequence ps)) session"
  using assms
proof (induction ps arbitrary: pre)
  case (Cons x ps)
  obtain k a m where x: "x = (k, a, m)" by (cases x) auto
  let ?packet = "writePacket PGP_TAG_PKESK (pkeskBody k a m)"
  have k: "length k = 8" "length m \<le> 8193" "k \<noteq> okKeyId K" using Cons.prems by (auto simp: x)
  have seq: "pkeskSequence (x # ps) = ?packet @ pkeskSequence ps" by (simp add: pkeskSequence_def x)
  from loop_other [OF k, of L pre a "pkeskSequence ps @ post" session]
  have "loop L K (pre @ pkeskSequence (x # ps) @ post) (length pre) session
      = loop L K ((pre @ ?packet) @ pkeskSequence ps @ post) (length (pre @ ?packet)) session"
    by (simp add: seq)
  also have "\<dots> = loop L K ((pre @ ?packet) @ pkeskSequence ps @ post) (length ((pre @ ?packet) @ pkeskSequence ps)) session"
    by (rule Cons.IH) (use Cons.prems in auto)
  finally show ?case by (simp add: seq add.assoc)
qed (simp add: pkeskSequence_def)

text \<open>The walk stops behind the session-key packets with the session key of the owner of any of them.\<close>

lemma finds:
  assumes open_: "list_all2 (\<lambda>p K. opensFor L K plain p) ps Ks" and K: "K \<in> set Ks" and dist: "distinct (map okKeyId Ks)"
    and stop: "headStops (pkeskSequence ps @ rest) (length (pkeskSequence ps))"
  shows "loop L K (pkeskSequence ps @ rest) 0 None = yes (length (pkeskSequence ps), Some plain)"
proof -
  let ?msg = "pkeskSequence ps @ rest"
  obtain i where i: "i < length Ks" "Ks ! i = K" using K by (auto simp: in_set_conv_nth)
  have len: "length ps = length Ks" using open_ by (rule list_all2_lengthD)
  have at: "opensFor L (Ks ! j) plain (ps ! j)" if "j < length Ks" for j
    using list_all2_nthD2 [OF open_] that by simp
  obtain k a m where x: "ps ! i = (k, a, m)" by (cases "ps ! i") auto
  let ?A = "take i ps" and ?B = "drop (Suc i) ps"
  let ?packet = "writePacket PGP_TAG_PKESK (pkeskBody k a m)"
  have split: "ps = ?A @ (k, a, m) # ?B" using id_take_nth_drop [of i ps] i len x by simp
  have own: "opensFor L K plain (k, a, m)" using at [OF i(1)] i(2) x by simp
  have shape: "length (fst (ps ! j)) = 8" "length (snd (snd (ps ! j))) \<le> 8193" "j \<noteq> i \<Longrightarrow> fst (ps ! j) \<noteq> okKeyId K"
    if "j < length Ks" for j
  proof -
    have id: "fst (ps ! j) = okKeyId (Ks ! j)" using at [OF that] unfolding opensFor_def by (auto split: prod.splits)
    show "length (fst (ps ! j)) = 8" "length (snd (snd (ps ! j))) \<le> 8193"
      using at [OF that] unfolding opensFor_def by (auto split: prod.splits)
    show "fst (ps ! j) \<noteq> okKeyId K" if "j \<noteq> i"
      using nth_eq_iff_index_eq [OF dist, of j i] \<open>j < length Ks\<close> that i by (simp add: id)
  qed
  define Q where "Q x \<longleftrightarrow> length (fst x) = 8 \<and> length (snd (snd x)) \<le> 8193 \<and> fst x \<noteq> okKeyId K" for x :: "bytes \<times> byte \<times> bytes"
  have "Q (ps ! j)" if "j < length ps" "j \<noteq> i" for j using shape [of j] that len by (simp add: Q_def)
  then have "Q x" if "x \<in> set ?A \<or> x \<in> set ?B" for x
    using that i(1) len by (elim disjE) (clarsimp simp only: in_set_conv_nth; simp)+
  then have "\<forall>x \<in> set ?A. Q x" "\<forall>x \<in> set ?B. Q x" by blast+
  then have others: "\<forall>(k, a, m) \<in> set ?A. length k = 8 \<and> length m \<le> 8193 \<and> k \<noteq> okKeyId K"
    "\<forall>(k, a, m) \<in> set ?B. length k = 8 \<and> length m \<le> 8193 \<and> k \<noteq> okKeyId K"
    by (auto simp: Q_def)
  have seq: "pkeskSequence ps = pkeskSequence ?A @ ?packet @ pkeskSequence ?B"
    by (subst split) (simp add: pkeskSequence_def)
  have "loop L K ?msg 0 None = loop L K ?msg (length (pkeskSequence ?A)) None"
    using skip [OF others(1), of L "[]" "?packet @ pkeskSequence ?B @ rest"] by (simp add: seq)
  also have "\<dots> = loop L K ?msg (length (pkeskSequence ?A @ ?packet)) (Some plain)"
    using loop_own [OF own, of "pkeskSequence ?A" "pkeskSequence ?B @ rest"] by (simp add: seq)
  also have "\<dots> = loop L K ?msg (length (pkeskSequence ps)) (Some plain)"
    using skip [OF others(2), of L "pkeskSequence ?A @ ?packet" rest] by (simp add: seq)
  also have "\<dots> = yes (length (pkeskSequence ps), Some plain)" by (rule loop_stop [OF stop])
  finally show ?thesis .
qed

end

text \<open>The walk of \<open>parseAndDecryptMessage\<close>.\<close>

lemma pkeskStep_at:
  "length k = 8 \<Longrightarrow> pkeskStep L K (pre @ pkeskBody k a m @ post) (length pre) e session
    = (if session = None \<and> k = okKeyId K \<and> algorithmMatches K a
       then if a = PGP_ALGO_RSA then rsaSessionKey L K (pre @ pkeskBody k a m @ post) (length pre + 10) e
            else ecdhSessionKey L K (pre @ pkeskBody k a m @ post) (length pre + 10) e
       else yes session)"
  by (rule pkeskStep_body) simp_all

interpretation buffer_walk: pkesk_walk pkeskLoop pkeskStep
proof unfold_locales
  show "pkeskLoop L K message pos session = on_true (pkeskStep L K message p (p + n) session)
      (\<lambda>session. pkeskLoop L K message (p + n) session)"
    if "readPacketHeader message pos None False = yes (PGP_TAG_PKESK, n, p, part)" "p + n \<le> length message"
    for message pos n p part L K session
    using that by (subst pkeskLoop.simps) simp
  show "pkeskLoop L K message pos session = yes (pos, session)" if "headStops message pos" for L K message pos session
    using that by (subst pkeskLoop.simps) (auto simp: headStops_def split: option.splits)
qed (simp_all add: pkeskStep_at opensFor_def)

lemma headStops_packet:
  "unat tag < 64 \<Longrightarrow> tag \<noteq> PGP_TAG_PKESK \<Longrightarrow> n < 4294967296 \<Longrightarrow>
    headStops (pre @ (0xC0 OR tag) # appendNewFormatLength [] n @ post) (length pre)"
  by (simp add: headStops_def readPacketHeader_head)

lemma headStops_seip:
  "length body < 4294967296 \<Longrightarrow> headStops (pre @ writePacket PGP_TAG_SEIP body) (length pre)"
  using headStops_packet [OF tags_small(2), of "length body" pre body]
  by (simp add: writePacket_eq PGP_TAG_SEIP_def PGP_TAG_PKESK_def)

section \<open>The container\<close>

text \<open>What the container holds in clear: prefix, content, checksum packet.\<close>

definition seipPlain :: "crypto \<Rightarrow> bytes \<Rightarrow> bytes \<Rightarrow> bytes" where
  "seipPlain L random16 content =
     (let body = random16 @ [random16 ! 14, random16 ! 15] @ content in body @ [0xD3, 0x14] @ sha1 L (body @ [0xD3, 0x14]))"

lemma seipPacketOf_eq:
  "seipPacketOf L k r content = writePacket PGP_TAG_SEIP ([1] @ cfbEncrypt L k (zeros 16) (seipPlain L r content))"
  by (simp add: seipPacketOf_def seipPlain_def appendAll_def Let_def)

lemma length_seipPlain:
  "digests_ok L \<Longrightarrow> length r = 16 \<Longrightarrow> length (seipPlain L r content) = 18 + length content + 22"
  by (simp add: seipPlain_def Let_def digests_ok_def)

lemma openSeip_packet:
  assumes lib: "digests_ok L" "cfb_ok L" and r: "length r = 16" and small: "length content < 4294967000"
    and msg: "message = pre @ seipPacketOf L k r content" "pos = length pre"
  shows "openSeip L message pos k = yes (seipPlain L r content)"
proof -
  let ?plain = "seipPlain L r content" and ?c = "cfbEncrypt L k (zeros 16) (seipPlain L r content)"
  define n where "n = newFormatLengthOctets (length ([1] @ ?c))"
  define hash where "hash = sha1 L (r @ [r ! 14, r ! 15] @ content @ [0xD3, 0x14])"
  have c: "length ?c = length ?plain" "cfbDecrypt L k (zeros 16) ?c = ?plain" using lib(2) by (simp_all add: cfb_ok_def)
  have plain: "?plain = (r @ [r ! 14, r ! 15] @ content @ [0xD3, 0x14]) @ hash" by (simp add: seipPlain_def hash_def)
  have hash: "length hash = 20" using lib(1) by (simp add: hash_def digests_ok_def)
  have len: "length ?plain = 40 + length content" using length_seipPlain [OF lib(1) r, of content] by simp
  have body: "length ([1] @ ?c) < 4294967296" using c(1) len small by simp
  have m: "message = pre @ writePacket PGP_TAG_SEIP ([1] @ ?c) @ []" using msg(1) by (simp add: seipPacketOf_eq)
  note h = readPacketHeader_at [OF tags_small(2) body m msg(2), folded n_def]
  define H where "H = pre @ (0xC0 OR PGP_TAG_SEIP) # appendNewFormatLength [] (length ([1] @ ?c))"
  have H: "message = H @ [1] @ ?c" "length H = pos + 1 + n"
    by (simp_all add: m writePacket_eq H_def msg(2) n_def length_newFormatLength)
  have enc: "slice message (pos + 1 + n + 1) (pos + 1 + n + length ([1] @ ?c)) = Some ?c"
    using slice_append [of "H @ [1]" ?c "[]"] H by simp
  have one: "byte_at message (pos + 1 + n) = Some 1"
    using byte_at_append [of H "[1] @ ?c" 0] H by simp
  have fits: "pos + 1 + n + length ([1] @ ?c) \<le> length message" using enc by (simp add: slice_Some)
  have off: "length ?plain - 20 = 20 + length content" using len by simp
  have tags: "byte_at ?plain (20 + length content - 2) = Some 0xD3" "byte_at ?plain (20 + length content - 1) = Some 0x14"
    using byte_at_append [of "r @ [r ! 14, r ! 15] @ content" "[0xD3, 0x14] @ hash" 0]
      byte_at_append [of "r @ [r ! 14, r ! 15] @ content" "[0xD3, 0x14] @ hash" 1] r
    by (simp_all add: plain)
  define X where "X = r @ [r ! 14, r ! 15] @ content @ [0xD3, 0x14]"
  have lx: "20 + length content = length X" and px: "?plain = X @ hash" using r plain by (simp_all add: X_def)
  have hx: "sha1 L X = hash" by (simp only: hash_def X_def)
  have mdc: "sha1 L (take (20 + length content) ?plain) = drop (20 + length content) ?plain"
    unfolding lx px using hx by simp
  show ?thesis
    unfolding openSeip_def h(1) on_true_simps prod.case
    using fits one enc tags mdc off len by (simp add: c(2) Let_def)
qed

section \<open>The content\<close>

text \<open>A single packet of definite length in a range needs no reassembly.\<close>

lemma reassembleRange_packet:
  assumes "unat tag < 64" "length body < 4294967296" "data = pre @ writePacket tag body @ post"
    and stop: "stop = length pre + length (writePacket tag body)"
  shows "reassemblePartialBodyLengthRange data (length pre) stop = no"
proof -
  define p where "p = length pre + 1 + newFormatLengthOctets (length body)"
  have h: "readPacketHeader data (length pre) (Some stop) True = yes (tag, length body, p, False)"
    using readPacketHeader_at(1) [OF assms(1-3) refl, of "Some stop" True] by (simp add: p_def)
  have p: "length pre < p" "p \<le> stop" "stop - p = length body" "p + length body = stop"
    by (simp_all add: p_def stop length_writePacket)
  have "slice data (length pre) stop = Some (writePacket tag body)" unfolding assms(3) stop by (rule slice_append)
  moreover have "reassembleLoop data stop stop out w = yes (out, w)" for out w by (subst reassembleLoop.simps) simp
  ultimately have "reassembleLoop data stop (length pre) [] False = yes (writePacket tag body, False)"
    using h p by (subst reassembleLoop.simps) (simp add: Let_def)
  then show ?thesis using assms(3) stop by (simp add: reassemblePartialBodyLengthRange_def)
qed

lemma reassemble_plain:
  assumes "\<forall>(tag, body) \<in> set ps. unat tag < 64 \<and> length body < 4294967296"
  shows "reassemblePartialBodyLengths (concat (map (\<lambda>(tag, body). writePacket tag body) ps)) = no"
proof -
  let ?fs = "map (\<lambda>(tag, body). (tag, [], body)) ps :: framing list"
  have "\<forall>f \<in> set ?fs. wf_framing f" using assms by (auto simp: wf_chunks_def)
  moreover have "\<not> (\<exists>f \<in> set ?fs. is_partial f)" by auto
  moreover have "concat (map framedPacket ?fs) = concat (map (\<lambda>(tag, body). writePacket tag body) ps)"
    by (induction ps) auto
  ultimately show ?thesis using reassemble_framed [of ?fs] by simp
qed

lemma pkeskSequence_packets: "pkeskSequence ps = concat (map (\<lambda>(tag, body). writePacket tag body)
    (map (\<lambda>(k, a, m). (PGP_TAG_PKESK, pkeskBody k a m)) ps))"
  by (induction ps) (auto simp: pkeskSequence_def)

lemma literalContent_literal: "literalContent (appendBigEndian32 [b, 0] w @ text) = yes text"
proof -
  obtain a where a: "appendBigEndian32 [b, 0] w = [b, 0] @ a" "length a = 4"
    by (simp add: appendBigEndian32_def)
  have "slice (([b, 0] @ a) @ text @ []) (length ([b, 0] @ a)) (length ([b, 0] @ a) + length text) = Some text"
    by (rule slice_append)
  then show ?thesis using a by (simp add: literalContent_def add.commute)
qed

text \<open>The literal packet alone, and between a one-pass signature and a signature.\<close>

lemma literalIn_plain:
  assumes "length text < 4294967000"
  shows "literalIn (literalPacketOf text) False = yes (appendBigEndian32 [of_char CHR ''b'', 0] 0 @ text, None)"
    and "literalIn (literalPacketOf text) True = no"
proof -
  let ?body = "appendBigEndian32 [of_char CHR ''b'', 0] 0 @ text"
  have small: "length ?body < 4294967296" using assms by (simp add: appendBigEndian32_def)
  have m: "literalPacketOf text = [] @ writePacket PGP_TAG_LITERAL_DATA ?body @ []" by (simp add: literalPacketOf_def)
  let ?p = "1 + newFormatLengthOctets (length ?body)"
  have h: "readPacketHeader (literalPacketOf text) 0 None False = yes (PGP_TAG_LITERAL_DATA, length ?body, ?p, False)"
    "slice (literalPacketOf text) ?p (?p + length ?body) = Some ?body"
    using readPacketHeader_at(1) [OF tags_small(4) small m, of 0 None False]
      readPacketHeader_at(2) [OF tags_small(4) small m, of 0] by simp_all
  have len: "length (literalPacketOf text) = ?p + length ?body" by (simp add: m length_writePacket)
  have tag: "PGP_TAG_LITERAL_DATA \<noteq> PGP_TAG_ONE_PASS_SIG" by (simp add: PGP_TAG_LITERAL_DATA_def PGP_TAG_ONE_PASS_SIG_def)
  have stop: "signatureAfter (literalPacketOf text) (?p + length ?body) = no"
    using len by (simp add: signatureAfter_def readPacketHeader_def)
  show "literalIn (literalPacketOf text) False = yes (?body, None)" "literalIn (literalPacketOf text) True = no"
    unfolding literalIn_def h(1) on_true_simps prod.case using tag h(2) len stop by simp_all
qed

lemma literalIn_signed:
  assumes "length text < 4294967000" "length ops < 4294967296" "length sig < 4294967296"
  defines "packets \<equiv> writePacket PGP_TAG_ONE_PASS_SIG ops @ literalPacketOf text @ writePacket PGP_TAG_SIGNATURE sig"
  shows "literalIn packets want
    = yes (appendBigEndian32 [of_char CHR ''b'', 0] 0 @ text, if want then Some (writePacket PGP_TAG_SIGNATURE sig) else None)"
proof -
  let ?body = "appendBigEndian32 [of_char CHR ''b'', 0] 0 @ text"
  let ?ops = "writePacket PGP_TAG_ONE_PASS_SIG ops" and ?lit = "writePacket PGP_TAG_LITERAL_DATA ?body"
    and ?sig = "writePacket PGP_TAG_SIGNATURE sig"
  have small: "length ?body < 4294967296" using assms(1) by (simp add: appendBigEndian32_def)
  have p: "packets = [] @ ?ops @ (?lit @ ?sig)" "packets = ?ops @ ?lit @ ?sig" "packets = (?ops @ ?lit) @ ?sig @ []"
    by (simp_all add: packets_def literalPacketOf_def)
  let ?a = "1 + newFormatLengthOctets (length ops)"
  let ?b = "length ?ops + 1 + newFormatLengthOctets (length ?body)"
  let ?c = "length (?ops @ ?lit) + 1 + newFormatLengthOctets (length sig)"
  have h1: "readPacketHeader packets 0 None False = yes (PGP_TAG_ONE_PASS_SIG, length ops, ?a, False)"
    using readPacketHeader_at(1) [OF tags_small(6) assms(2) p(1), of 0 None False] by simp
  have h2: "readPacketHeader packets (?a + length ops) None False = yes (PGP_TAG_LITERAL_DATA, length ?body, ?b, False)"
    "slice packets ?b (?b + length ?body) = Some ?body"
    using readPacketHeader_at(1) [OF tags_small(4) small p(2), of "length ?ops" None False]
      readPacketHeader_at(2) [OF tags_small(4) small p(2), of "length ?ops"] by (simp_all add: length_writePacket)
  have h3: "readPacketHeader packets (?b + length ?body) None False = yes (PGP_TAG_SIGNATURE, length sig, ?c, False)"
    using readPacketHeader_at(1) [OF tags_small(5) assms(3) p(3), of "length (?ops @ ?lit)" None False]
    by (simp add: length_writePacket)
  have ends: "?b + length ?body = length (?ops @ ?lit)" "?c + length sig = length (?ops @ ?lit) + length ?sig"
    "length packets = ?c + length sig"
    by (simp_all add: length_writePacket p(2))
  have sl: "slice packets (?b + length ?body) (?c + length sig) = Some ?sig"
    unfolding ends p(3) by (rule slice_append)
  have sigAfter: "signatureAfter packets (?b + length ?body) = yes ?sig"
    unfolding signatureAfter_def h3 on_true_simps prod.case using sl ends(3) by simp
  have fit: "?b + length ?body \<le> length packets" using ends by linarith
  have tag: "PGP_TAG_LITERAL_DATA \<noteq> PGP_TAG_ONE_PASS_SIG" by (simp add: PGP_TAG_LITERAL_DATA_def PGP_TAG_ONE_PASS_SIG_def)
  show ?thesis
    unfolding literalIn_def h1 on_true_simps prod.case using tag h2 fit sigAfter by (simp add: not_less)
qed

text \<open>What the reader makes of decompressed packets.\<close>

definition openContent :: "bytes \<Rightarrow> bool \<Rightarrow> (bytes \<times> bytes option) cpp" where
  "openContent packets want =
     on_true (literalIn packets want) (\<lambda>(body, sig). on_true (literalContent body) (\<lambda>content. yes (content, sig)))"

lemma openPlain_compressed:
  assumes lib: "digests_ok L" "deflate_ok L" and r: "length r = 16"
    and small: "length (deflate L packets) < 4294967000" and plain: "reassemblePartialBodyLengths packets = no"
  shows "openPlain L (seipPlain L r (compressedPacketOf L packets)) want = openContent packets want"
proof -
  let ?body = "[1] @ deflate L packets"
  let ?packet = "writePacket PGP_TAG_COMPRESSED_DATA ?body"
  let ?data = "seipPlain L r (compressedPacketOf L packets)"
  define pre where "pre = r @ [r ! 14, r ! 15]"
  define hash where "hash = [0xD3, 0x14] @ sha1 L (pre @ ?packet @ [0xD3, 0x14])"
  define stop where "stop = length ?data - 22"
  define p where "p = 18 + 1 + newFormatLengthOctets (length ?body)"
  have body: "length ?body < 4294967296" using small by simp
  have data: "?data = pre @ ?packet @ hash" by (simp add: seipPlain_def compressedPacketOf_def pre_def hash_def Let_def)
  have pre: "18 = length pre" using r by (simp add: pre_def)
  have stop: "stop = length pre + length ?packet"
    using lib(1) by (simp add: stop_def data hash_def digests_ok_def)
  have none: "reassemblePartialBodyLengthRange ?data 18 stop = no"
    using reassembleRange_packet [OF tags_small(3) body data stop] pre by simp
  have h: "readPacketHeader ?data 18 (Some stop) False = yes (PGP_TAG_COMPRESSED_DATA, length ?body, p, False)"
    "slice ?data p (p + length ?body) = Some ?body"
    using readPacketHeader_at(1) [OF tags_small(3) body data pre, of "Some stop" False]
      readPacketHeader_at(2) [OF tags_small(3) body data pre] by (simp_all add: p_def)
  have ends: "p + length ?body = stop" by (simp add: p_def stop pre [symmetric] length_writePacket)
  have one: "byte_at ?data p = Some 1" and rest: "slice ?data (p + 1) (p + length ?body) = Some (deflate L packets)"
  proof -
    define H where "H = pre @ (0xC0 OR PGP_TAG_COMPRESSED_DATA) # appendNewFormatLength [] (length ?body)"
    have H: "?data = H @ ?body @ hash" "length H = p"
      by (simp_all add: data writePacket_eq H_def p_def pre [symmetric] length_newFormatLength)
    show "byte_at ?data p = Some 1" using byte_at_append [of H "?body @ hash" 0] H by simp
    show "slice ?data (p + 1) (p + length ?body) = Some (deflate L packets)"
      using slice_append [of "H @ [1]" "deflate L packets" hash] H by simp
  qed
  have inner: "openInner L ?data 18 stop want = literalIn packets want"
    unfolding openInner_def h(1) on_true_simps prod.case
    using ends one rest lib(2) plain by (simp add: decompress_def deflate_ok_def)
  show ?thesis
    unfolding openPlain_def openBody_def openContent_def Let_def stop_def [symmetric] none using inner by simp
qed

text \<open>A literal packet that is not compressed.\<close>

lemma openPlain_literal:
  assumes lib: "digests_ok L" and r: "length r = 16" and small: "length text < 4294967000"
  shows "openPlain L (seipPlain L r (literalPacketOf text)) want = yes (text, None)"
proof -
  define body where "body = appendBigEndian32 [of_char CHR ''b'', 0] 0 @ text"
  define pre where "pre = r @ [r ! 14, r ! 15]"
  define rest where "rest = [0xD3, 0x14] @ sha1 L (pre @ literalPacketOf text @ [0xD3, 0x14])"
  let ?packet = "writePacket PGP_TAG_LITERAL_DATA body"
  let ?data = "seipPlain L r (literalPacketOf text)"
  define stop where "stop = length ?data - 22"
  define p where "p = 18 + 1 + newFormatLengthOctets (length body)"
  have lit: "literalPacketOf text = ?packet" by (simp add: literalPacketOf_def body_def)
  have len: "length body < 4294967296" using small by (simp add: body_def appendBigEndian32_def)
  have data: "?data = pre @ ?packet @ rest" by (simp add: seipPlain_def pre_def rest_def lit Let_def)
  have pre: "18 = length pre" using r by (simp add: pre_def)
  have stop: "stop = length pre + length ?packet" using lib by (simp add: stop_def data rest_def digests_ok_def)
  have none: "reassemblePartialBodyLengthRange ?data 18 stop = no"
    using reassembleRange_packet [OF tags_small(4) len data stop] pre by simp
  have h: "readPacketHeader ?data 18 (Some stop) False = yes (PGP_TAG_LITERAL_DATA, length body, p, False)"
    "slice ?data p (p + length body) = Some body"
    using readPacketHeader_at(1) [OF tags_small(4) len data pre, of "Some stop" False]
      readPacketHeader_at(2) [OF tags_small(4) len data pre] by (simp_all add: p_def)
  have ends: "p + length body = stop" by (simp add: p_def stop pre [symmetric] length_writePacket)
  have tag: "PGP_TAG_LITERAL_DATA \<noteq> PGP_TAG_COMPRESSED_DATA" by (simp add: PGP_TAG_LITERAL_DATA_def PGP_TAG_COMPRESSED_DATA_def)
  have inner: "openInner L ?data 18 stop want = yes (body, None)"
    unfolding openInner_def h(1) on_true_simps prod.case using ends tag h(2) by simp
  show ?thesis
    unfolding openPlain_def openBody_def Let_def stop_def [symmetric] none
    using inner literalContent_literal [of "of_char CHR ''b''" 0 "text"] by (simp add: body_def)
qed

text \<open>The packets of a sealed content: session keys, then the container.\<close>

definition sealedBody :: "crypto \<Rightarrow> message_draws \<Rightarrow> byte \<Rightarrow> bytes \<Rightarrow> bytes" where
  "sealedBody L M cipher inner =
     [1] @ cfbEncrypt L (mdSessionKey M (pgpSymmetricSessionKeyLength cipher)) (zeros 16) (seipPlain L (mdPrefix M) inner)"

definition sealed :: "crypto \<Rightarrow> message_draws \<Rightarrow> recipient list \<Rightarrow> byte \<Rightarrow> bytes \<Rightarrow> bytes option" where
  "sealed L M rcs cipher inner = map_option (\<lambda>out. out @ writePacket PGP_TAG_SEIP (sealedBody L M cipher inner))
     (pkeskPackets L M (mdSessionKey M (pgpSymmetricSessionKeyLength cipher)) cipher 0 rcs)"

definition seipBody :: "crypto \<Rightarrow> message_draws \<Rightarrow> byte \<Rightarrow> bytes \<Rightarrow> bytes" where
  "seipBody L M cipher packets = sealedBody L M cipher (compressedPacketOf L packets)"

lemma sealMessage_sealed: "sealMessage L M rcs cipher packets = sealed L M rcs cipher (compressedPacketOf L packets)"
  by (simp add: sealMessage_def sealed_def sealedBody_def seipPacketOf_eq appendAll_def Let_def)

definition sealLib_ok :: "crypto \<Rightarrow> bool" where
  "sealLib_ok L \<longleftrightarrow> digests_ok L \<and> aes_ok L \<and> cfb_ok L"

lemma messageLib_sealLib: "messageLib_ok L \<Longrightarrow> sealLib_ok L"
  by (simp add: messageLib_ok_def sealLib_ok_def)

lemma sealed_shape:
  assumes lib: "sealLib_ok L" "messageDraws_ok M" and keys: "keysFor L M 0 Ks rcs" and small: "length inner < 4294967000"
  shows "\<exists>ps. sealed L M rcs cipher inner = Some (pkeskSequence ps @ writePacket PGP_TAG_SEIP (sealedBody L M cipher inner))
    \<and> list_all2 (\<lambda>p K. opensFor L K (sessionKeyPlain cipher (mdSessionKey M (pgpSymmetricSessionKeyLength cipher))) p) ps Ks
    \<and> (\<forall>(k, a, m) \<in> set ps. length k = 8 \<and> length m \<le> 8193)
    \<and> length (sealedBody L M cipher inner) < 4294967296
    \<and> reassemblePartialBodyLengths (pkeskSequence ps @ writePacket PGP_TAG_SEIP (sealedBody L M cipher inner)) = no"
proof -
  let ?n = "pgpSymmetricSessionKeyLength cipher"
  let ?k = "mdSessionKey M ?n" and ?body = "sealedBody L M cipher inner"
  have k: "length ?k \<le> 32" "length (mdPrefix M) = 16"
    using lib(2) by (simp_all add: messageDraws_ok_def pgpSymmetricSessionKeyLength_def)
  have L: "digests_ok L" "aes_ok L" "cfb_ok L" using lib(1) by (simp_all add: sealLib_ok_def)
  obtain ps where ps: "pkeskPackets L M ?k cipher 0 rcs = Some (pkeskSequence ps)"
    "list_all2 (\<lambda>p K. opensFor L K (sessionKeyPlain cipher ?k) p) ps Ks"
    using pkeskPackets_open [OF L(1,2) k(1) keys] by blast
  have small: "length ?body < 4294967296"
    using length_seipPlain [OF L(1) k(2), of inner] L(3) small by (simp add: sealedBody_def cfb_ok_def)
  have seal: "sealed L M rcs cipher inner = Some (pkeskSequence ps @ writePacket PGP_TAG_SEIP ?body)"
    by (simp add: sealed_def ps(1))
  have shape: "length m \<le> 8193 \<and> length k = 8" if "(k, a, m) \<in> set ps" for k a m
    using ps(2) that by (fastforce simp: list_all2_conv_all_nth in_set_conv_nth opensFor_def)
  let ?all = "map (\<lambda>(k, a, m). (PGP_TAG_PKESK, pkeskBody k a m)) ps @ [(PGP_TAG_SEIP, ?body)]"
  have "\<forall>(tag, body) \<in> set ?all. unat tag < 64 \<and> length body < 4294967296"
    using small tags_small by (auto simp: pkeskBody_def dest!: shape)
  from reassemble_plain [OF this] have "reassemblePartialBodyLengths (pkeskSequence ps @ writePacket PGP_TAG_SEIP ?body) = no"
    by (simp add: pkeskSequence_packets)
  with seal ps(2) small shape show ?thesis by blast
qed

text \<open>A sealed content is opened by every key it was sealed for, and by no other.\<close>

lemma sealed_opens:
  assumes lib: "sealLib_ok L" "messageDraws_ok M" and cipher: "knownCipher cipher"
    and keys: "keysFor L M 0 Ks rcs" "distinct (map okKeyId Ks)" and small: "length inner < 4294967000"
  shows "\<exists>message. sealed L M rcs cipher inner = Some message
    \<and> (\<forall>K \<in> set Ks. \<forall>want. parseAndDecryptMessage L K message want = openPlain L (seipPlain L (mdPrefix M) inner) want)"
proof -
  let ?n = "pgpSymmetricSessionKeyLength cipher"
  let ?k = "mdSessionKey M ?n" and ?body = "sealedBody L M cipher inner"
  have k: "length ?k = ?n" "length (mdPrefix M) = 16"
    using lib(2) by (simp_all add: messageDraws_ok_def)
  have L: "digests_ok L" "aes_ok L" "cfb_ok L" using lib(1) by (simp_all add: sealLib_ok_def)
  obtain ps where ps: "sealed L M rcs cipher inner = Some (pkeskSequence ps @ writePacket PGP_TAG_SEIP ?body)"
    "list_all2 (\<lambda>p K. opensFor L K (sessionKeyPlain cipher ?k) p) ps Ks" "length ?body < 4294967296"
    "reassemblePartialBodyLengths (pkeskSequence ps @ writePacket PGP_TAG_SEIP ?body) = no"
    using sealed_shape [OF lib keys(1) small, of cipher] by blast
  let ?message = "pkeskSequence ps @ writePacket PGP_TAG_SEIP ?body"
  have "parseAndDecryptMessage L K ?message want = openPlain L (seipPlain L (mdPrefix M) inner) want" if "K \<in> set Ks" for K want
  proof -
    have loop: "pkeskLoop L K ?message 0 None = yes (length (pkeskSequence ps), Some (sessionKeyPlain cipher ?k))"
      by (rule buffer_walk.finds [OF ps(2) that keys(2) headStops_seip [OF ps(3)]])
    have "sessionKeyPlain cipher ?k \<noteq> []" by (simp add: sessionKeyPlain_def Let_def)
    moreover have "openSeip L ?message (length (pkeskSequence ps)) ?k = yes (seipPlain L (mdPrefix M) inner)"
      by (rule openSeip_packet [OF L(1,3) k(2) small _ refl]) (simp add: seipPacketOf_eq sealedBody_def)
    ultimately show ?thesis
      unfolding parseAndDecryptMessage_def messagePlain_def ps(4) using loop openSessionKey_plain [OF cipher k(1)] by simp
  qed
  then show ?thesis using ps(1) by blast
qed

lemma sealed_others:
  assumes lib: "sealLib_ok L" "messageDraws_ok M" and keys: "keysFor L M 0 Ks rcs"
    and small: "length inner < 4294967000" and seal: "sealed L M rcs cipher inner = Some message"
    and other: "okKeyId K \<notin> okKeyId ` set Ks"
  shows "messagePlain L K message = no"
proof -
  let ?body = "sealedBody L M cipher inner"
  obtain ps where ps: "message = pkeskSequence ps @ writePacket PGP_TAG_SEIP ?body"
    "list_all2 (\<lambda>p K. opensFor L K (sessionKeyPlain cipher (mdSessionKey M (pgpSymmetricSessionKeyLength cipher))) p) ps Ks"
    "\<forall>(k, a, m) \<in> set ps. length k = 8 \<and> length m \<le> 8193" "length ?body < 4294967296"
    "reassemblePartialBodyLengths message = no"
    using sealed_shape [OF lib keys small, of cipher] seal by auto
  have "k \<in> okKeyId ` set Ks" if "(k, a, m) \<in> set ps" for k a m
    using ps(2) that by (fastforce simp: list_all2_conv_all_nth in_set_conv_nth opensFor_def)
  with other ps(3) have others: "\<forall>(k, a, m) \<in> set ps. length k = 8 \<and> length m \<le> 8193 \<and> k \<noteq> okKeyId K" by blast
  have "pkeskLoop L K message 0 None = pkeskLoop L K message (length (pkeskSequence ps)) None"
    using buffer_walk.skip [OF others, of L "[]" "writePacket PGP_TAG_SEIP ?body" None] by (simp add: ps(1))
  also have "\<dots> = yes (length (pkeskSequence ps), None)"
    unfolding ps(1) by (rule buffer_walk.loop_stop [OF headStops_seip [OF ps(4)]])
  finally show ?thesis by (simp add: messagePlain_def ps(5))
qed

text \<open>The same for a message, whose content is compressed.\<close>

lemma compressedPacket_small:
  assumes "length (deflate L packets) < 4294960000"
  shows "length (compressedPacketOf L packets) < 4294967000"
proof -
  have "newFormatLengthOctets (length ([1] @ deflate L packets)) \<le> 5" by (simp add: newFormatLengthOctets_def)
  moreover have "length (compressedPacketOf L packets) = 1 + newFormatLengthOctets (length ([1] @ deflate L packets)) + (1 + length (deflate L packets))"
    by (simp only: compressedPacketOf_def length_writePacket) simp
  ultimately show ?thesis using assms by linarith
qed

lemma sealMessage_shape:
  assumes lib: "messageLib_ok L" "messageDraws_ok M" and keys: "keysFor L M 0 Ks rcs"
    and packets: "length (deflate L packets) < 4294960000"
  shows "\<exists>ps. sealMessage L M rcs cipher packets = Some (pkeskSequence ps @ writePacket PGP_TAG_SEIP (seipBody L M cipher packets))
    \<and> list_all2 (\<lambda>p K. opensFor L K (sessionKeyPlain cipher (mdSessionKey M (pgpSymmetricSessionKeyLength cipher))) p) ps Ks
    \<and> (\<forall>(k, a, m) \<in> set ps. length k = 8 \<and> length m \<le> 8193)
    \<and> length (seipBody L M cipher packets) < 4294967296
    \<and> reassemblePartialBodyLengths (pkeskSequence ps @ writePacket PGP_TAG_SEIP (seipBody L M cipher packets)) = no"
  using sealed_shape [OF messageLib_sealLib [OF lib(1)] lib(2) keys compressedPacket_small [OF packets]]
  by (simp add: sealMessage_sealed seipBody_def)

lemma sealMessage_opens:
  assumes lib: "messageLib_ok L" "messageDraws_ok M" and cipher: "knownCipher cipher"
    and keys: "keysFor L M 0 Ks rcs" "distinct (map okKeyId Ks)"
    and packets: "length (deflate L packets) < 4294960000" "reassemblePartialBodyLengths packets = no"
  shows "\<exists>message. sealMessage L M rcs cipher packets = Some message
    \<and> (\<forall>K \<in> set Ks. \<forall>want. parseAndDecryptMessage L K message want = openContent packets want)"
proof -
  have "openPlain L (seipPlain L (mdPrefix M) (compressedPacketOf L packets)) want = openContent packets want" for want
    using lib packets by (intro openPlain_compressed) (simp_all add: messageLib_ok_def messageDraws_ok_def)
  then show ?thesis
    using sealed_opens [OF messageLib_sealLib [OF lib(1)] lib(2) cipher keys compressedPacket_small [OF packets(1)]]
    by (simp add: sealMessage_sealed)
qed

lemma sealMessage_others:
  assumes lib: "messageLib_ok L" "messageDraws_ok M" and keys: "keysFor L M 0 Ks rcs"
    and packets: "length (deflate L packets) < 4294960000" and seal: "sealMessage L M rcs cipher packets = Some message"
    and other: "okKeyId K \<notin> okKeyId ` set Ks"
  shows "messagePlain L K message = no"
  using sealed_others [OF messageLib_sealLib [OF lib(1)] lib(2) keys compressedPacket_small [OF packets] _ other] seal
  by (simp add: sealMessage_sealed)

lemma openContent_literal:
  assumes "length text < 4294967000"
  shows "openContent (literalPacketOf text) False = yes (text, None)" "openContent (literalPacketOf text) True = no"
  using literalIn_plain [OF assms] by (simp_all add: openContent_def literalContent_literal)

lemma openContent_signed:
  assumes "length text < 4294967000" "length ops < 4294967296" "length sig < 4294967296"
  shows "openContent (writePacket PGP_TAG_ONE_PASS_SIG ops @ literalPacketOf text @ writePacket PGP_TAG_SIGNATURE sig) want
    = yes (text, if want then Some (writePacket PGP_TAG_SIGNATURE sig) else None)"
  using literalIn_signed [OF assms] by (simp add: openContent_def literalContent_literal)

text \<open>The checksum is what the reader of the container insists on.\<close>

lemma openSeip_checked:
  assumes "openSeip L message pos k = yes plain"
  obtains n start part where "readPacketHeader message pos None False = yes (PGP_TAG_SEIP, n, start, part)"
    "1 \<le> n" "start + n \<le> length message" "message ! start = 1"
    "plain = cfbDecrypt L k (zeros 16) (take (n - 1) (drop (start + 1) message))" "40 \<le> length plain"
    "take 2 (drop (length plain - 22) plain) = [0xD3, 0x14]"
    "drop (length plain - 20) plain = sha1 L (take (length plain - 20) plain)"
proof -
  obtain n start part encrypted where h: "readPacketHeader message pos None False = yes (PGP_TAG_SEIP, n, start, part)"
      "1 \<le> n" "start + n \<le> length message" and version: "byte_at message start = Some 1"
    and encrypted: "slice message (start + 1) (start + n) = Some encrypted"
    and plain: "plain = cfbDecrypt L k (zeros 16) encrypted" and len: "40 \<le> length plain"
    and tags: "byte_at plain (length plain - 20 - 2) = Some 0xD3" "byte_at plain (length plain - 20 - 1) = Some 0x14"
    and sum: "sha1 L (take (length plain - 20) plain) = drop (length plain - 20) plain"
    using assms by (auto simp: openSeip_def on_true_eq_yes Let_def split: if_splits bind_splits prod.splits)
  obtain m where m: "length plain = m + 22" using len le_Suc_ex [of 22 "length plain"] by (auto simp: add.commute)
  then have "drop m plain = plain ! m # plain ! (m + 1) # drop (m + 2) plain"
    using Cons_nth_drop_Suc [of m plain] Cons_nth_drop_Suc [of "m + 1" plain] by simp
  then have "take 2 (drop (length plain - 22) plain) = [0xD3, 0x14]"
    using tags m by (auto simp: byte_at_Some numeral_2_eq_2)
  moreover have "plain = cfbDecrypt L k (zeros 16) (take (n - 1) (drop (start + 1) message))"
    using plain encrypted by (simp add: slice_Some)
  moreover have "message ! start = 1" using version by (simp add: byte_at_Some)
  ultimately show ?thesis using that h len sum by auto
qed

text \<open>The session key that \<open>K\<close> finds: a session-key packet of the message carries the key ID of \<open>K\<close> and
  its algorithm, and what \<open>K\<close> opens there is an algorithm octet, the key and its checksum.\<close>

definition sessionKeyIn :: "crypto \<Rightarrow> own_key \<Rightarrow> bytes \<Rightarrow> bytes \<Rightarrow> bool" where
  "sessionKeyIn L K message key \<longleftrightarrow> (\<exists>pos n p part session.
     readPacketHeader message pos None False = yes (PGP_TAG_PKESK, n, p, part) \<and> p + n \<le> length message
     \<and> message ! p = 3 \<and> take 8 (drop (p + 1) message) = okKeyId K \<and> algorithmMatches K (message ! (p + 9))
     \<and> (if message ! (p + 9) = PGP_ALGO_RSA then rsaSessionKey L K message (p + 10) (p + n)
         else ecdhSessionKey L K message (p + 10) (p + n)) = yes (Some session)
     \<and> openSessionKey session = yes key)"

lemma pkeskStep_found:
  assumes "pkeskStep L K message p e None = yes (Some session)"
  shows "message ! p = 3 \<and> take 8 (drop (p + 1) message) = okKeyId K \<and> algorithmMatches K (message ! (p + 9))
    \<and> (if message ! (p + 9) = PGP_ALGO_RSA then rsaSessionKey L K message (p + 10) e
        else ecdhSessionKey L K message (p + 10) e) = yes (Some session)"
proof -
  obtain v k a where "byte_at message p = Some v" "slice message (p + 1) (p + 9) = Some k" "byte_at message (p + 9) = Some a"
    "v = 3" "k = okKeyId K" "algorithmMatches K a"
    "(if a = PGP_ALGO_RSA then rsaSessionKey L K message (p + 10) e else ecdhSessionKey L K message (p + 10) e) = yes (Some session)"
    using assms by (auto simp: pkeskStep_def split: if_splits bind_splits)
  then show ?thesis by (auto simp: byte_at_Some slice_Some)
qed

lemma pkeskStep_keeps: "pkeskStep L K message p e (Some x) = yes s \<Longrightarrow> s = Some x"
  by (auto simp: pkeskStep_def split: if_splits bind_splits)

lemma pkeskLoop_found:
  assumes "pkeskLoop L K message pos found = yes (pos', Some session)" "openSessionKey session = yes key"
  shows "found = Some session \<or> found = None \<and> sessionKeyIn L K message key"
  using assms
proof (induction L K message pos found rule: pkeskLoop.induct)
  case (1 L K message pos found)
  show ?case
  proof (cases "found = Some session")
    case False
    obtain n p part found' where h: "readPacketHeader message pos None False = yes (PGP_TAG_PKESK, n, p, part)"
      "p + n \<le> length message" and step: "pkeskStep L K message p (p + n) found = yes found'"
      and rest: "pkeskLoop L K message (p + n) found' = yes (pos', Some session)"
      using 1(2) False by (subst (asm) pkeskLoop.simps) (auto simp: on_true_eq_yes split: option.splits if_splits)
    have "\<not> length message < p + n" using h(2) by simp
    from 1(1) [OF h(1) refl refl refl refl _ this step rest 1(3)]
    have later: "found' = Some session \<or> found' = None \<and> sessionKeyIn L K message key" by simp
    show ?thesis
    proof (cases found)
      case None
      show ?thesis
      proof (cases found')
        case found': None
        then show ?thesis using later None by simp
      next
        case (Some x)
        then have "found' = Some session" using later by simp
        with step None have "pkeskStep L K message p (p + n) None = yes (Some session)" by simp
        from pkeskStep_found [OF this] h 1(3) None show ?thesis unfolding sessionKeyIn_def by blast
      qed
    next
      case (Some x)
      with step have "found' = Some x" using pkeskStep_keeps by blast
      with later Some False show ?thesis by simp
    qed
  qed simp
qed

text \<open>A session-key packet that is too short, at the end of a message.\<close>

lemma pkeskStep_short:
  assumes "body = [] \<or> hd body = 3 \<and> length body < 10"
  shows "pkeskStep L K (pre @ body) (length pre) e session = None"
proof (cases body)
  case (Cons v rest)
  then have "v = 3" "length rest < 9" using assms by simp_all
  then show ?thesis
    by (simp add: pkeskStep_def Cons slice_def byte_at_def nth_append)
qed (simp add: pkeskStep_def byte_at_def)

lemma pkeskLoop_short:
  assumes "body = [] \<or> hd body = 3 \<and> length body < 10"
  shows "pkeskLoop L K (pre @ writePacket PGP_TAG_PKESK body) (length pre) session = None"
proof -
  let ?message = "pre @ writePacket PGP_TAG_PKESK body"
  let ?h = "pre @ (0xC0 OR PGP_TAG_PKESK) # appendNewFormatLength [] (length body)"
  have len: "length body < 4294967296" using assms by auto
  have split: "?message = ?h @ body" by (simp add: writePacket_eq)
  have h: "length ?h = length pre + 1 + newFormatLengthOctets (length body)" by (simp add: length_newFormatLength)
  have "readPacketHeader ?message (length pre) None False = yes (PGP_TAG_PKESK, length body, length ?h, False)"
    using readPacketHeader_writePacket [OF tags_small(1) len, of pre "[]"] by (simp only: append_Nil2 h)
  moreover have "pkeskStep L K ?message (length ?h) (length ?h + length body) session = None"
    unfolding split by (rule pkeskStep_short [OF assms])
  moreover have "length ?h + length body \<le> length ?message" unfolding split by simp
  ultimately show ?thesis by (subst pkeskLoop.simps) simp
qed

text \<open>A key that signs: its signatures have the length of the algorithm.\<close>

definition signingKey_ok :: "crypto \<Rightarrow> key_algorithm \<Rightarrow> rsa_key \<times> bytes \<times> bytes \<Rightarrow> bool" where
  "signingKey_ok L alg key \<longleftrightarrow> (case key of (rsaKey, edKey, keyId) \<Rightarrow> length keyId = 8 \<and>
     (if alg = PGP_KEY_ALGORITHM_RSA then rsa_sign_ok L rsaKey \<and> minEncodedSize (rsaModulus rsaKey) \<le> 8191
      else ed_sign_ok L edKey))"

lemma messageSignature_packet:
  assumes "signingKey_ok L alg key"
  shows "\<exists>body. documentSignature L now alg key doc st = writePacket PGP_TAG_SIGNATURE body \<and> length body < 60000"
proof -
  obtain rsaKey edKey keyId where key: "key = (rsaKey, edKey, keyId)" by (cases key)
  have id: "length keyId = 8" using assms by (simp add: signingKey_ok_def key)
  have small: "length (signatureBody st p h (signatureHashedSubpackets now []) (appendSubpacket [] 16 keyId) l mpis) < 60000"
    if "length mpis \<le> 20000" for p h l mpis
    unfolding length_signatureBody
    using that id length_issuerSubpacket [of keyId] by (simp add: length_signatureHashedSubpackets)
  have mpi: "length (encodeMpi (integerDecode bs)) \<le> 3 + length bs" for bs
    using bitCount_integerDecode [of bs] by (simp add: length_encodeMpi)
  show ?thesis
  proof (cases "alg = PGP_KEY_ALGORITHM_RSA")
    case True
    have le: "length (rsaSign L rsaKey m) \<le> 8191" for m using assms True by (simp add: signingKey_ok_def key rsa_sign_ok_def)
    have "length (encodeMpi (integerDecode (rsaSign L rsaKey m))) \<le> 20000" for m
      using mpi [of "rsaSign L rsaKey m"] le [of m] by linarith
    then show ?thesis using small True by (auto simp: documentSignature_def key buildSignaturePacket_def Let_def)
  next
    case False
    have "length (edSign L edKey m) = 64" for m using assms False by (simp add: signingKey_ok_def key ed_sign_ok_def)
    then have "length (appendAll (encodeMpi (integerDecode (take 32 (edSign L edKey m))))
        (encodeMpi (integerDecode (take 32 (drop 32 (edSign L edKey m)))))) \<le> 20000" for m
      using mpi [of "take 32 (edSign L edKey m)"] mpi [of "take 32 (drop 32 (edSign L edKey m))"]
      by (simp add: appendAll_def)
    then show ?thesis using small False by (auto simp: documentSignature_def key buildEd25519SignaturePacket_def Let_def)
  qed
qed

text \<open>A signed message opens to the text and its signature.\<close>

lemma openContent_signedContent:
  assumes "signingKey_ok L alg (rsaKey, edKey, keyId)" "length text < 4294967000"
    and sig_def: "sig = messageSignature L now alg (rsaKey, edKey, keyId) text"
  shows "openContent (signedContentOf alg keyId text sig) want = yes (text, if want then Some sig else None)"
    and "reassemblePartialBodyLengths (signedContentOf alg keyId text sig) = no" "sig \<noteq> []"
proof -
  obtain body where "sig = writePacket PGP_TAG_SIGNATURE body" "length body < 60000"
    using messageSignature_packet [OF assms(1), where now = now and doc = "text"] by (auto simp: sig_def)
  then have body: "sig = writePacket PGP_TAG_SIGNATURE body" "length body < 4294967296" by simp_all
  have "length keyId = 8" using assms(1) by (simp add: signingKey_ok_def)
  then obtain ops where ops: "messageOnePass alg keyId = writePacket PGP_TAG_ONE_PASS_SIG ops" "length ops < 4294967296"
    by (simp add: messageOnePass_def buildOnePassSignaturePacket_def)
  have content: "signedContentOf alg keyId text sig
      = writePacket PGP_TAG_ONE_PASS_SIG ops @ literalPacketOf text @ writePacket PGP_TAG_SIGNATURE body"
    by (simp add: signedContentOf_def appendAll_def ops(1) body(1))
  show "openContent (signedContentOf alg keyId text sig) want = yes (text, if want then Some sig else None)"
    using openContent_signed [OF assms(2) ops(2) body(2), of want] content body(1) by simp
  have "length (appendBigEndian32 [of_char CHR ''b'', 0] 0 @ text :: bytes) < 4294967296"
    using assms(2) by (simp add: appendBigEndian32_def)
  then show "reassemblePartialBodyLengths (signedContentOf alg keyId text sig) = no"
    unfolding content
    using reassemble_plain [of "[(PGP_TAG_ONE_PASS_SIG, ops), (PGP_TAG_LITERAL_DATA, appendBigEndian32 [of_char CHR ''b'', 0] 0 @ text),
        (PGP_TAG_SIGNATURE, body)]"] ops(2) body(2)
    by (simp add: literalPacketOf_def tags_small)
  show "sig \<noteq> []" by (simp add: body(1) writePacket_eq)
qed

section \<open>A concrete message\<close>

definition sample_message_draws :: message_draws where
  "sample_message_draws = \<lparr> mdSessionKey = (\<lambda>n. replicate n 5), mdPrefix = replicate 16 7,
     mdPadding = (\<lambda>i. []), mdEphemeral = (\<lambda>i. replicate 32 (word_of_nat i)) \<rparr>"

definition sample_big_rsa_key :: rsa_key where
  "sample_big_rsa_key = sample_rsa_key\<lparr>rsaModulus := 2 ^ 1023 + 1\<rparr>"

definition sample_x_own :: own_key where
  "sample_x_own = \<lparr> okAlgorithm = PGP_KEY_ALGORITHM_ED25519_X25519, okRsaKey = blankRsaKey, okX25519Key = replicate 32 9,
     okFingerprint = replicate 20 3, okKeyId = replicate 8 1 \<rparr>"

definition sample_rsa_own :: own_key where
  "sample_rsa_own = \<lparr> okAlgorithm = PGP_KEY_ALGORITHM_RSA, okRsaKey = sample_big_rsa_key, okX25519Key = zeros 32,
     okFingerprint = replicate 20 4, okKeyId = replicate 8 2 \<rparr>"

definition sample_x_recipient :: recipient where
  "sample_x_recipient = \<lparr> rcAlgorithm = PGP_KEY_ALGORITHM_ED25519_X25519, rcRsaPublicKey = blankRsaPublic, rcRsaKeyId = zeros 8,
     rcX25519PublicKey = replicate 32 9, rcX25519KeyId = replicate 8 1, rcX25519Fingerprint = replicate 20 3 \<rparr>"

definition sample_rsa_recipient :: recipient where
  "sample_rsa_recipient = \<lparr> rcAlgorithm = PGP_KEY_ALGORITHM_RSA, rcRsaPublicKey = rsaPublicOf sample_big_rsa_key,
     rcRsaKeyId = replicate 8 2, rcX25519PublicKey = zeros 32, rcX25519KeyId = zeros 8, rcX25519Fingerprint = zeros 20 \<rparr>"

lemma minEncodedSize_sample: "minEncodedSize (2 ^ 1023 + 1) = 128"
proof -
  have "bitCount (2 ^ 1023 + 1) = Suc 1023" by (rule bitCount_eq) simp_all
  then show ?thesis by (simp add: minEncodedSize_def)
qed

definition sample_signing_key :: "rsa_key \<times> bytes \<times> bytes" where
  "sample_signing_key = (sample_big_rsa_key, zeros 32, replicate 8 6)"

lemma sample_signing_key_ok: "signingKey_ok sample_lib PGP_KEY_ALGORITHM_RSA sample_signing_key"
  using minEncodedSize_sample sample_lib_ok(4)
  by (simp add: signingKey_ok_def sample_signing_key_def sample_big_rsa_key_def)

lemma newFormatLengthOctets_le: "newFormatLengthOctets n \<le> 5"
  by (simp add: newFormatLengthOctets_def)

lemma sample_signed_small:
  "length (signedContentOf PGP_KEY_ALGORITHM_RSA (replicate 8 6) [104, 105]
     (messageSignature sample_lib 5 PGP_KEY_ALGORITHM_RSA sample_signing_key [104, 105])) < 4294960000"
proof -
  obtain body where body: "messageSignature sample_lib 5 PGP_KEY_ALGORITHM_RSA sample_signing_key [104, 105]
      = writePacket PGP_TAG_SIGNATURE body" "length body < 60000"
    using messageSignature_packet [OF sample_signing_key_ok] by blast
  then show ?thesis
    using newFormatLengthOctets_le [of "length body"]
    by (simp add: signedContentOf_def appendAll_def messageOnePass_def buildOnePassSignaturePacket_def
        literalPacketOf_def appendBigEndian32_def length_writePacket newFormatLengthOctets_def)
qed

lemma sample_deflate: "deflate sample_lib d = d"
  by (simp add: sample_lib_def)

lemma sample_message: "messageLib_ok sample_lib" "messageDraws_ok sample_message_draws"
  "keysFor sample_lib sample_message_draws 0 [sample_x_own, sample_rsa_own] [sample_x_recipient, sample_rsa_recipient]"
  "distinct (map okKeyId [sample_x_own, sample_rsa_own])"
proof -
  show "messageLib_ok sample_lib" "messageDraws_ok sample_message_draws"
    by (simp_all add: messageLib_ok_def sample_lib_ok sample_lib_crypt_ok messageDraws_ok_def sample_message_draws_def)
  have "xPublic sample_lib x = x" for x by (simp add: sample_lib_def)
  then show "keysFor sample_lib sample_message_draws 0 [sample_x_own, sample_rsa_own] [sample_x_recipient, sample_rsa_recipient]"
    using minEncodedSize_sample sample_lib_ok sample_lib_crypt_ok
    by (simp add: keyFor_def sample_x_own_def sample_rsa_own_def sample_x_recipient_def sample_rsa_recipient_def
        sample_message_draws_def sample_big_rsa_key_def)
  show "distinct (map okKeyId [sample_x_own, sample_rsa_own])"
    by (simp add: sample_x_own_def sample_rsa_own_def numeral_eq_Suc)
qed

lemma literal_plain:
  assumes "length text < 4294967000"
  shows "reassemblePartialBodyLengths (literalPacketOf text) = no"
proof -
  have "length (appendBigEndian32 [of_char CHR ''b'', 0] 0 @ text :: bytes) < 4294967296"
    using assms by (simp add: appendBigEndian32_def)
  then show ?thesis
    using reassemble_plain [of "[(PGP_TAG_LITERAL_DATA, appendBigEndian32 [of_char CHR ''b'', 0] 0 @ text)]"]
    by (simp add: literalPacketOf_def tags_small)
qed

lemma sample_opened: "\<exists>message. parseAndDecryptMessage sample_lib sample_x_own message False = yes ([104, 105], None)"
proof -
  have "length (deflate sample_lib (literalPacketOf [104, 105])) < 4294960000"
    by (simp add: sample_deflate literalPacketOf_def length_writePacket newFormatLengthOctets_def appendBigEndian32_def)
  from sealMessage_opens [OF sample_message(1,2) _ sample_message(3,4) this literal_plain, of 9]
  obtain message where "\<forall>want. parseAndDecryptMessage sample_lib sample_x_own message want
      = openContent (literalPacketOf [104, 105]) want" by (auto simp: knownCipher_def)
  then show ?thesis using openContent_literal(1) [of "[104, 105]"] by (intro exI [of _ message]) simp
qed


section \<open>Properties\<close>

text \<open>C13: A message to any number of recipients, RSA and X25519 mixed, is built, and each of
  them opens it with the own key to the plaintext, the session-key packets of the others
  skipped; a reader that insists on a signature refuses it.\<close>

theorem every_recipient_opens_the_message:
  assumes "messageLib_ok L" "messageDraws_ok M" "knownCipher cipher"
    and "keysFor L M 0 Ks recipients" "distinct (map okKeyId Ks)" "recipients \<noteq> []"
    and "length text < 4294967000" "length (deflate L (literalPacketOf text)) < 4294960000"
  shows "\<exists>message. buildEncryptedMessageMultiRecipient L M recipients cipher text = Some message
    \<and> (\<forall>K \<in> set Ks. parseAndDecryptMessage L K message False = yes (text, None)
                      \<and> parseAndDecryptMessage L K message True = no)"
  using sealMessage_opens [OF assms(1-5,8) literal_plain [OF assms(7)]] assms(6) openContent_literal [OF assms(7)]
  by (auto simp: buildEncryptedMessageMultiRecipient_def)

lemma every_recipient_opens_the_message_witness:
  "\<exists>message. buildEncryptedMessageMultiRecipient sample_lib sample_message_draws [sample_x_recipient, sample_rsa_recipient] 9 [104, 105] = Some message
    \<and> parseAndDecryptMessage sample_lib sample_rsa_own message False = yes ([104, 105], None)"
  using every_recipient_opens_the_message [OF sample_message(1,2) _ sample_message(3,4), of 9 "[104, 105]"]
  by (auto simp: knownCipher_def sample_deflate literalPacketOf_def length_writePacket newFormatLengthOctets_def appendBigEndian32_def)

text \<open>A signed and encrypted message gives every recipient the plaintext and exactly the
  signature packet that the sender's signing key made over it; a reader that does not ask for a
  signature gets the plaintext alone.\<close>

theorem signed_message_carries_its_signature:
  assumes "messageLib_ok L" "messageDraws_ok M" "knownCipher cipher"
    and "keysFor L M 0 Ks recipients" "distinct (map okKeyId Ks)" "recipients \<noteq> []"
    and "signingKey_ok L alg (rsaKey, edKey, keyId)" "length text < 4294967000"
    and "signature = messageSignature L now alg (rsaKey, edKey, keyId) text"
    and "length (deflate L (signedContentOf alg keyId text signature)) < 4294960000"
  shows "\<exists>message. buildEncryptedSignedMessageMultiRecipient L M now recipients alg (rsaKey, edKey, keyId) cipher text = Some message
    \<and> (\<forall>K \<in> set Ks. parseAndDecryptMessage L K message False = yes (text, None)
        \<and> parseAndDecryptMessage L K message True = yes (text, Some signature))"
proof -
  note content = openContent_signedContent [OF assms(7-9)]
  have "messageOnePass alg keyId \<noteq> []" by (simp add: messageOnePass_def buildOnePassSignaturePacket_def writePacket_eq)
  with sealMessage_opens [OF assms(1-5,10) content(2)] content(1,3) assms(6,9) show ?thesis
    by (auto simp: buildEncryptedSignedMessageMultiRecipient_def Let_def)
qed

lemma signed_message_carries_its_signature_witness:
  "\<exists>message. buildEncryptedSignedMessageMultiRecipient sample_lib sample_message_draws 5 [sample_x_recipient, sample_rsa_recipient]
      PGP_KEY_ALGORITHM_RSA sample_signing_key 9 [104, 105] = Some message
    \<and> parseAndDecryptMessage sample_lib sample_x_own message True
        = yes ([104, 105], Some (messageSignature sample_lib 5 PGP_KEY_ALGORITHM_RSA sample_signing_key [104, 105]))"
proof -
  have "length (deflate sample_lib (signedContentOf PGP_KEY_ALGORITHM_RSA (replicate 8 6) [104, 105]
      (messageSignature sample_lib 5 PGP_KEY_ALGORITHM_RSA (sample_big_rsa_key, zeros 32, replicate 8 6) [104, 105]))) < 4294960000"
    using sample_signed_small by (simp add: sample_deflate sample_signing_key_def)
  from signed_message_carries_its_signature [OF sample_message(1,2) _ sample_message(3,4) _
      sample_signing_key_ok [unfolded sample_signing_key_def] _ refl this, of 9]
  show ?thesis by (simp add: knownCipher_def sample_signing_key_def) blast
qed

text \<open>C14: Whatever the reader returns for the own key stood in the container of the message: behind the
  session-key packets, one of which the own key opens to the session key, follows a container of version 1 that fits
  into the message, and the octets behind its version octet decrypt under that session key to at least forty octets whose
  last twenty are the SHA-1 checksum of all before them; the plaintext is read from these octets and nothing
  else. The message is the input, with partial body lengths reassembled.\<close>

theorem only_checked_plaintext_is_returned:
  assumes "parseAndDecryptMessage L K input want = yes result"
  shows "\<exists>r message pos session key n start part plain.
    reassemblePartialBodyLengths input = Some r \<and> message = (case r of None \<Rightarrow> input | Some reassembled \<Rightarrow> reassembled)
    \<and> pkeskLoop L K message 0 None = yes (pos, Some session) \<and> openSessionKey session = yes key \<and> sessionKeyIn L K message key
    \<and> readPacketHeader message pos None False = yes (PGP_TAG_SEIP, n, start, part) \<and> 1 \<le> n \<and> start + n \<le> length message
    \<and> message ! start = 1 \<and> plain = cfbDecrypt L key (zeros 16) (take (n - 1) (drop (start + 1) message))
    \<and> 40 \<le> length plain \<and> take 2 (drop (length plain - 22) plain) = [0xD3, 0x14]
    \<and> drop (length plain - 20) plain = sha1 L (take (length plain - 20) plain)
    \<and> openPlain L plain want = yes result"
proof -
  define message where "message r = (case r of None \<Rightarrow> input | Some reassembled \<Rightarrow> reassembled)" for r
  obtain r pos session key plain where run: "reassemblePartialBodyLengths input = Some r"
      "pkeskLoop L K (message r) 0 None = yes (pos, Some session)" "openSessionKey session = yes key"
      "openPlain L plain want = yes result" and container: "openSeip L (message r) pos key = yes plain"
    using assms by (auto simp: parseAndDecryptMessage_def messagePlain_def on_true_eq_yes Let_def message_def
        split: if_splits bind_splits option.splits prod.splits)
  have found: "sessionKeyIn L K (message r) key" using pkeskLoop_found [OF run(2,3)] by simp
  from openSeip_checked [OF container] obtain n start part where
    "readPacketHeader (message r) pos None False = yes (PGP_TAG_SEIP, n, start, part)" "1 \<le> n" "start + n \<le> length (message r)"
    "message r ! start = 1" "plain = cfbDecrypt L key (zeros 16) (take (n - 1) (drop (start + 1) (message r)))" "40 \<le> length plain"
    "take 2 (drop (length plain - 22) plain) = [0xD3, 0x14]" "drop (length plain - 20) plain = sha1 L (take (length plain - 20) plain)"
    by metis
  with run found show ?thesis unfolding message_def by blast
qed

lemma only_checked_plaintext_is_returned_witness:
  "\<exists>input message key. parseAndDecryptMessage sample_lib sample_x_own input False = yes ([104, 105], None)
    \<and> sessionKeyIn sample_lib sample_x_own message key"
proof -
  obtain input where m: "parseAndDecryptMessage sample_lib sample_x_own input False = yes ([104, 105], None)"
    using sample_opened by blast
  from only_checked_plaintext_is_returned [OF this] m show ?thesis by blast
qed

text \<open>C40: The reader does not check that a session-key packet holds its version, key ID and
  algorithm: any message that ends in a session-key packet which has no octet at all, or which has version 3 and fewer than ten
  octets, is read past its end, whatever number of session-key packets for other keys (of at most 8193 octets of key
  material each) precede it.\<close>

theorem short_session_key_packet_is_read_past_its_end:
  assumes "\<forall>(k, a, m) \<in> set ps. length k = 8 \<and> length m \<le> 8193 \<and> k \<noteq> okKeyId K"
    and "body = [] \<or> hd body = 3 \<and> length body < 10"
  shows "parseAndDecryptMessage L K (pkeskSequence ps @ writePacket PGP_TAG_PKESK body) want = None"
proof -
  let ?message = "pkeskSequence ps @ writePacket PGP_TAG_PKESK body"
  let ?packets = "map (\<lambda>(k, a, m). (PGP_TAG_PKESK, pkeskBody k a m)) ps @ [(PGP_TAG_PKESK, body)]"
  have "length body < 4294967296" using assms(2) by auto
  then have "\<forall>(tag, b) \<in> set ?packets. unat tag < 64 \<and> length b < 4294967296"
    using assms(1) tags_small by (auto simp: pkeskBody_def)
  from reassemble_plain [OF this] have "reassemblePartialBodyLengths ?message = no"
    by (simp add: pkeskSequence_def case_prod_unfold comp_def)
  moreover have "pkeskLoop L K ?message 0 None = None"
    using buffer_walk.skip [OF assms(1), of L "[]" "writePacket PGP_TAG_PKESK body" None] pkeskLoop_short [OF assms(2)] by simp
  ultimately show ?thesis by (simp add: parseAndDecryptMessage_def messagePlain_def)
qed

lemma short_session_key_packet_is_read_past_its_end_witness:
  "parseAndDecryptMessage sample_lib sample_x_own (pkeskSequence [(replicate 8 2, 1, [])] @ [0xC1, 1, 3]) False = None"
proof -
  have "writePacket PGP_TAG_PKESK [3] = [0xC1, 1, 3]"
    by (simp add: writePacket_def appendNewFormatLength_def appendAll_def PGP_TAG_PKESK_def)
  then show ?thesis
    using short_session_key_packet_is_read_past_its_end [of "[(replicate 8 2, 1, [])]" sample_x_own "[3]" sample_lib False]
    by (simp add: sample_x_own_def)
qed

end
