(* ===== verification/CallerBuffer.thy ===== *)
theory CallerBuffer
  imports EngineState
begin

text \<open>
  The calling convention of the methods of \<open>CPgpEngine\<close> (src/src/Pgp/PgpEngine.cpp) that hand
  octets to the caller: a null output pointer or a capacity that is too small is answered with the
  size that is needed, otherwise the octets are copied. An \<open>int\<close> argument is an \<open>int\<close>; the size
  of a vector is cast to \<open>int\<close> and so wraps at \<open>2 ^ 31\<close>.
\<close>

definition asInt :: "nat \<Rightarrow> int" where
  "asInt n = sint (word_of_nat n :: 32 word)"

text \<open>What a method leaves behind: its status, what it copied, what it stored as the size.\<close>

record answer =
  ansStatus :: status
  ansWritten :: "bytes option"
  ansSize :: "int option"

definition refused :: "status \<Rightarrow> answer" where
  "refused st = \<lparr> ansStatus = st, ansWritten = None, ansSize = None \<rparr>"

text \<open>The output pointer: null, or a buffer with the capacity that the caller states. Copying more
  than that is undefined. \<open>margin\<close> is added to the answer to a null pointer.\<close>

definition copyOut :: "nat \<Rightarrow> int option \<Rightarrow> bytes \<Rightarrow> answer option" where
  "copyOut margin buffer out =
     (case buffer of
        None \<Rightarrow> Some \<lparr> ansStatus = BUFFER_TOO_SMALL, ansWritten = None, ansSize = Some (asInt (length out + margin)) \<rparr>
      | Some capacity \<Rightarrow>
          if capacity < asInt (length out)
          then Some \<lparr> ansStatus = BUFFER_TOO_SMALL, ansWritten = None, ansSize = Some (asInt (length out)) \<rparr>
          else if int (length out) > capacity then None
          else Some \<lparr> ansStatus = NO_ERROR, ansWritten = Some out, ansSize = Some (asInt (length out)) \<rparr>)"

text \<open>An input pointer with its size; \<open>None\<close> is the refusal of a negative size, or of a null pointer
  with a positive one.\<close>

definition inputOf :: "bytes option \<Rightarrow> int \<Rightarrow> bytes option" where
  "inputOf buffer inputSize =
     (if inputSize < 0 \<or> (inputSize > 0 \<and> buffer = None) then None
      else Some (case buffer of None \<Rightarrow> [] | Some b \<Rightarrow> take (nat inputSize) b))"

lemma asInt_small [simp]: "n < 2147483648 \<Longrightarrow> asInt n = int n"
  by (simp add: asInt_def sint_uint unsigned_of_nat take_bit_nat_eq_self signed_take_bit_int_eq_self)

lemma asInt_big: "2147483648 \<le> n \<Longrightarrow> n < 4294967296 \<Longrightarrow> asInt n < 0"
  by (simp add: asInt_def sint_uint unsigned_of_nat take_bit_nat_eq_self signed_take_bit_eq_take_bit_shift take_bit_eq_mod mod_pos_geq)

lemma copyOut_cases:
  assumes "length out < 2147483648"
  shows "copyOut margin (Some capacity) out = Some (if capacity < int (length out)
      then \<lparr> ansStatus = BUFFER_TOO_SMALL, ansWritten = None, ansSize = Some (int (length out)) \<rparr>
      else \<lparr> ansStatus = NO_ERROR, ansWritten = Some out, ansSize = Some (int (length out)) \<rparr>)"
  using assms by (simp add: copyOut_def)

lemma copyOut_written:
  assumes "copyOut margin buffer out = Some a" "ansStatus a = NO_ERROR"
  shows "ansWritten a = Some out"
  using assms by (auto simp: copyOut_def split: option.splits if_splits)

lemma copyOut_fits:
  assumes "length out < 2147483648" "int (length out) \<le> capacity"
  shows "copyOut margin (Some capacity) out = Some \<lparr> ansStatus = NO_ERROR, ansWritten = Some out, ansSize = Some (int (length out)) \<rparr>"
  using assms by (simp add: copyOut_def)

end
