(* ===== verification/Inspection.thy ===== *)
theory Inspection
  imports ExportImport MessageFacts CallerBuffer
begin

unbundle bit_operations_syntax

text \<open>
  Reading packets without judging them (src/src/Pgp/PgpEngine.cpp, the \<open>Pgp...ForInspection\<close>
  group): subpacket areas, issuer key IDs, reasons for revocation, signature bodies of versions 3
  and 4, the walk over the packets of a message into nested compressed data, and the input
  formats. No input makes a reader leave its buffer; what the engine writes is read back.
\<close>

section \<open>Subpacket areas\<close>

definition readSignatureSubpacketLength :: "bytes \<Rightarrow> nat \<Rightarrow> nat \<Rightarrow> (nat \<times> nat) cpp" where
  "readSignatureSubpacketLength data pos stop =
     (if pos \<ge> stop then no
      else do {
        first \<leftarrow> byte_at data pos;
        if first < 192 then yes (unat first, pos + 1)
        else if first < 255 then
          if pos + 1 \<ge> stop then no
          else do { second \<leftarrow> byte_at data (pos + 1); yes (push_bit 8 (unat first - 192) + unat second + 192, pos + 2) }
        else
          if pos + 4 \<ge> stop then no
          else do {
            a \<leftarrow> byte_at data (pos + 1); b \<leftarrow> byte_at data (pos + 2);
            c \<leftarrow> byte_at data (pos + 3); d \<leftarrow> byte_at data (pos + 4);
            yes (be32 a b c d, pos + 5) } })"

text \<open>The loop that both searches run over an area: \<open>step\<close> sees the type octet at its position and
  the length, and tells whether the search returns.\<close>

type_synonym 'a subpacket_step = "bytes \<Rightarrow> nat \<Rightarrow> nat \<Rightarrow> 'a \<Rightarrow> ('a \<times> bool) option"

lemma readSignatureSubpacketLength_pos [advances]:
  "readSignatureSubpacketLength data pos stop = yes (n, p) \<Longrightarrow> pos < p"
  by (auto simp: readSignatureSubpacketLength_def split: if_splits bind_splits)

function eachSubpacket :: "'a subpacket_step \<Rightarrow> bytes \<Rightarrow> nat \<Rightarrow> nat \<Rightarrow> 'a \<Rightarrow> 'a option" where
  "eachSubpacket step data pos stop acc =
     (if pos \<ge> stop then Some acc
      else case readSignatureSubpacketLength data pos stop of
        None \<Rightarrow> None
      | Some None \<Rightarrow> Some acc
      | Some (Some (subpacketLength, p)) \<Rightarrow>
          if subpacketLength = 0 \<or> p + subpacketLength > stop then Some acc
          else case step data p subpacketLength acc of
            None \<Rightarrow> None
          | Some (acc, found) \<Rightarrow>
              if found then Some acc else eachSubpacket step data (p + subpacketLength) stop acc)"
  by pat_completeness auto

termination
  by (relation "measure (\<lambda>(step, data, pos, stop, acc). stop - pos)")
    (auto dest: readSignatureSubpacketLength_pos)

declare eachSubpacket.simps [simp del]

text \<open>The key ID found so far, and whether an issuer subpacket gave it.\<close>

definition issuerSubpacket :: "(bytes option \<times> bool) subpacket_step" where
  "issuerSubpacket data pos subpacketLength = (\<lambda>(found, foundExplicitIssuerSubpacket). do {
     typeOctet \<leftarrow> byte_at data pos;
     let subpacketType = typeOctet AND 0x7F;
     let bodyBegin = pos + 1;
     let bodyLength = subpacketLength - 1;
     if subpacketType = 16 \<and> bodyLength = 8 \<and> \<not> foundExplicitIssuerSubpacket then do {
       keyId \<leftarrow> slice data bodyBegin (bodyBegin + 8);
       Some ((Some keyId, True), False) }
     else if subpacketType = 33 \<and> found = None \<and> bodyLength \<ge> 21 then do {
       version \<leftarrow> byte_at data bodyBegin;
       if version = 4 then do {
         keyId \<leftarrow> slice data (bodyBegin + 13) (bodyBegin + 21);
         Some ((Some keyId, foundExplicitIssuerSubpacket), False) }
       else if bodyLength \<ge> 33 \<and> (version = 5 \<or> version = 6) then do {
         keyId \<leftarrow> slice data (bodyBegin + 1) (bodyBegin + 9);
         Some ((Some keyId, foundExplicitIssuerSubpacket), False) }
       else Some ((found, foundExplicitIssuerSubpacket), False) }
     else Some ((found, foundExplicitIssuerSubpacket), False) })"

definition findIssuerKeyIdInSubpackets :: "bytes \<Rightarrow> nat \<Rightarrow> nat \<Rightarrow> bytes cpp" where
  "findIssuerKeyIdInSubpackets data start stop =
     map_option fst (eachSubpacket issuerSubpacket data start stop (None, False))"

definition reasonSubpacket :: "(byte \<times> bytes) option subpacket_step" where
  "reasonSubpacket data pos subpacketLength acc = do {
     typeOctet \<leftarrow> byte_at data pos;
     let subpacketType = typeOctet AND 0x7F;
     let bodyBegin = pos + 1;
     let bodyLength = subpacketLength - 1;
     if subpacketType = 29 \<and> bodyLength \<ge> 1 then do {
       reasonCode \<leftarrow> byte_at data bodyBegin;
       reasonText \<leftarrow> slice data (bodyBegin + 1) (bodyBegin + bodyLength);
       Some (Some (reasonCode, reasonText), True) }
     else Some (acc, False) }"

definition findRevocationReasonInSubpackets :: "bytes \<Rightarrow> nat \<Rightarrow> nat \<Rightarrow> (byte \<times> bytes) cpp" where
  "findRevocationReasonInSubpackets data start stop = eachSubpacket reasonSubpacket data start stop None"

definition findRevocationReasonInSignaturePacket :: "bytes \<Rightarrow> (byte \<times> bytes) cpp" where
  "findRevocationReasonInSignaturePacket signaturePacketBytes =
     on_true (readPacketHeader signaturePacketBytes 0 None False) (\<lambda>(tag, bodyLength, pos, part).
       if tag \<noteq> PGP_TAG_SIGNATURE \<or> pos + bodyLength > length signaturePacketBytes then no
       else if bodyLength < 6 then no
       else do {
         version \<leftarrow> byte_at signaturePacketBytes pos;
         if version \<noteq> 4 then no
         else do {
           hashedLength \<leftarrow> readBigEndian16 signaturePacketBytes (pos + 4);
           let hashedEnd = pos + 6 + hashedLength;
           if hashedEnd > pos + bodyLength then no
           else findRevocationReasonInSubpackets signaturePacketBytes (pos + 6) hashedEnd } })"

section \<open>Signatures as reported\<close>

text \<open>The key ID octets are zero when there is no issuer.\<close>

record inspected_signature =
  isHaveIssuerKeyId :: bool
  isIssuerKeyId :: bytes
  isSignatureType :: byte
  isHashAlgorithm :: byte

definition newInspectedSignature :: inspected_signature where
  "newInspectedSignature = \<lparr> isHaveIssuerKeyId = False, isIssuerKeyId = zeros 8, isSignatureType = 0, isHashAlgorithm = 0 \<rparr>"

definition withIssuer :: "bytes option \<Rightarrow> inspected_signature \<Rightarrow> inspected_signature" where
  "withIssuer keyId out = (case keyId of None \<Rightarrow> out\<lparr>isHaveIssuerKeyId := False\<rparr>
     | Some k \<Rightarrow> out\<lparr>isHaveIssuerKeyId := True, isIssuerKeyId := k\<rparr>)"

definition inspectV3 :: "bytes \<Rightarrow> inspected_signature cpp" where
  "inspectV3 body =
     (if length body < 17 \<or> body ! 1 \<noteq> 5 then no
      else do {
        signatureType \<leftarrow> byte_at body 2;
        issuer \<leftarrow> slice body 7 15;
        hashAlgorithm \<leftarrow> byte_at body 16;
        yes (withIssuer (Some issuer) (newInspectedSignature
          \<lparr>isSignatureType := signatureType, isHashAlgorithm := hashAlgorithm\<rparr>)) })"

text \<open>The unhashed area is searched when the hashed one names no issuer.\<close>

definition unhashedIssuer :: "bytes \<Rightarrow> nat \<Rightarrow> bytes cpp" where
  "unhashedIssuer body pos =
     (if pos + 2 > length body then no
      else do {
        unhashedLength \<leftarrow> readBigEndian16 body pos;
        if pos + 2 + unhashedLength > length body then no
        else findIssuerKeyIdInSubpackets body (pos + 2) (pos + 2 + unhashedLength) })"

definition inspectV4 :: "bytes \<Rightarrow> inspected_signature cpp" where
  "inspectV4 body =
     (if length body < 6 then no
      else do {
        signatureType \<leftarrow> byte_at body 1;
        hashAlgorithm \<leftarrow> byte_at body 3;
        hashedLength \<leftarrow> readBigEndian16 body 4;
        if 6 + hashedLength > length body then no
        else do {
          issuer \<leftarrow> findIssuerKeyIdInSubpackets body 6 (6 + hashedLength);
          issuer \<leftarrow> (if issuer = None then unhashedIssuer body (6 + hashedLength) else Some issuer);
          yes (withIssuer issuer (newInspectedSignature
            \<lparr>isSignatureType := signatureType, isHashAlgorithm := hashAlgorithm\<rparr>)) } })"

definition inspectSignaturePacketBody :: "bytes \<Rightarrow> inspected_signature cpp" where
  "inspectSignaturePacketBody body =
     (if body = [] then no
      else if body ! 0 = 3 then inspectV3 body
      else if body ! 0 = 4 then inspectV4 body
      else no)"

definition findIssuerKeyIdOfSignaturePacket :: "bytes \<Rightarrow> bytes cpp" where
  "findIssuerKeyIdOfSignaturePacket signaturePacketBytes =
     on_true (readPacketHeader signaturePacketBytes 0 None False) (\<lambda>(tag, bodyLength, pos, part).
       if tag \<noteq> PGP_TAG_SIGNATURE \<or> pos + bodyLength > length signaturePacketBytes then no
       else do {
         body \<leftarrow> slice signaturePacketBytes pos (pos + bodyLength);
         on_true (inspectSignaturePacketBody body) (\<lambda>inspected.
           if \<not> isHaveIssuerKeyId inspected then no else yes (isIssuerKeyId inspected)) })"

text \<open>The peer's key that a signature claims to come from: algorithm, RSA key, Ed25519 key. A
  subkey gives the key of its own algorithm only.\<close>

fun peerSubkeyFor :: "bytes \<Rightarrow> peer_subkey list \<Rightarrow> (key_algorithm \<times> rsa_public \<times> bytes) \<Rightarrow> (key_algorithm \<times> rsa_public \<times> bytes)" where
  "peerSubkeyFor issuerKeyId [] master = master"
| "peerSubkeyFor issuerKeyId (k # ks) master =
     (if pskKeyId k \<noteq> issuerKeyId then peerSubkeyFor issuerKeyId ks master
      else if pskAlgorithm k = PGP_KEY_ALGORITHM_RSA then (PGP_KEY_ALGORITHM_RSA, pskRsaKey k, [])
      else if pskIsEd25519 k then (PGP_KEY_ALGORITHM_ED25519_X25519, blankRsaPublic, pskEd25519Key k)
      else master)"

definition selectPeerVerificationKeyMaterial ::
  "bytes \<Rightarrow> (key_algorithm \<times> rsa_public \<times> bytes) \<Rightarrow> bytes \<Rightarrow> peer_subkey list \<Rightarrow> (key_algorithm \<times> rsa_public \<times> bytes) option" where
  "selectPeerVerificationKeyMaterial signaturePacketBytes master masterKeyId subkeys = do {
     issuer \<leftarrow> findIssuerKeyIdOfSignaturePacket signaturePacketBytes;
     Some (case issuer of None \<Rightarrow> master
       | Some issuerKeyId \<Rightarrow> if issuerKeyId = masterKeyId then master else peerSubkeyFor issuerKeyId subkeys master) }"

section \<open>Messages as reported\<close>

record inspected_message =
  imSawAnyPacket :: bool
  imHasPkesk :: bool
  imHasSkesk :: bool
  imHasIntegrityProtectedData :: bool
  imHasUnprotectedEncryptedData :: bool
  imHasCompressedData :: bool
  imCompressionAlgorithm :: byte
  imRecipientKeyIds :: "bytes list"
  imSignatures :: "inspected_signature list"

definition newInspectedMessage :: inspected_message where
  "newInspectedMessage = \<lparr> imSawAnyPacket = False, imHasPkesk = False, imHasSkesk = False,
     imHasIntegrityProtectedData = False, imHasUnprotectedEncryptedData = False, imHasCompressedData = False,
     imCompressionAlgorithm = 0, imRecipientKeyIds = [], imSignatures = [] \<rparr>"

definition decompressCompressedDataBodyForInspection :: "crypto \<Rightarrow> byte \<Rightarrow> bytes \<Rightarrow> bytes cpp" where
  "decompressCompressedDataBodyForInspection L compressionAlgorithm body =
     (if compressionAlgorithm = 0 then yes body
      else if compressionAlgorithm = 1 then Some (inflateRaw L body)
      else if compressionAlgorithm = 2 then Some (inflateZlib L body)
      else if compressionAlgorithm = 3 then bzip2DecompressBuffer body
      else no)"

definition inspectPkesk :: "bytes \<Rightarrow> nat \<Rightarrow> nat \<Rightarrow> inspected_message \<Rightarrow> inspected_message option" where
  "inspectPkesk data bodyBegin bodyLength out =
     (let out = out\<lparr>imHasPkesk := True\<rparr> in
      if bodyLength < 10 then Some out
      else do {
        version \<leftarrow> byte_at data bodyBegin;
        if version \<noteq> 3 then Some out
        else do {
          keyId \<leftarrow> slice data (bodyBegin + 1) (bodyBegin + 9);
          Some (out\<lparr>imRecipientKeyIds := imRecipientKeyIds out @ [keyId]\<rparr>) } })"

definition inspectOnePass :: "bytes \<Rightarrow> nat \<Rightarrow> nat \<Rightarrow> inspected_message \<Rightarrow> inspected_message option" where
  "inspectOnePass data bodyBegin bodyLength out =
     (if bodyLength < 13 then Some out
      else do {
        version \<leftarrow> byte_at data bodyBegin;
        if version \<noteq> 3 then Some out
        else do {
          signatureType \<leftarrow> byte_at data (bodyBegin + 1);
          hashAlgorithm \<leftarrow> byte_at data (bodyBegin + 2);
          issuer \<leftarrow> slice data (bodyBegin + 4) (bodyBegin + 12);
          Some (out\<lparr>imSignatures := imSignatures out @ [withIssuer (Some issuer) (newInspectedSignature
            \<lparr>isSignatureType := signatureType, isHashAlgorithm := hashAlgorithm\<rparr>)]\<rparr>) } })"

text \<open>What one packet adds to the report, apart from the packets inside compressed data.\<close>

definition inspectPacket :: "byte \<Rightarrow> bytes \<Rightarrow> nat \<Rightarrow> nat \<Rightarrow> inspected_message \<Rightarrow> inspected_message option" where
  "inspectPacket tag data bodyBegin bodyLength out =
     (if tag = PGP_TAG_PKESK then inspectPkesk data bodyBegin bodyLength out
      else if tag = PGP_TAG_SKESK then Some (out\<lparr>imHasSkesk := True\<rparr>)
      else if tag = PGP_TAG_SEIP \<or> tag = PGP_TAG_AEAD then Some (out\<lparr>imHasIntegrityProtectedData := True\<rparr>)
      else if tag = PGP_TAG_SED then Some (out\<lparr>imHasUnprotectedEncryptedData := True\<rparr>)
      else if tag = PGP_TAG_SIGNATURE then do {
        body \<leftarrow> slice data bodyBegin (bodyBegin + bodyLength);
        on_read (inspectSignaturePacketBody body) out
          (\<lambda>signature. Some (out\<lparr>imSignatures := imSignatures out @ [signature]\<rparr>)) }
      else if tag = PGP_TAG_ONE_PASS_SIG then inspectOnePass data bodyBegin bodyLength out
      else if tag = PGP_TAG_COMPRESSED_DATA \<and> bodyLength \<ge> 1 \<and> \<not> imHasCompressedData out then do {
        algorithm \<leftarrow> byte_at data bodyBegin;
        Some (out\<lparr>imHasCompressedData := True, imCompressionAlgorithm := algorithm\<rparr>) }
      else Some out)"

text \<open>The packets inside compressed data, when they are to be looked at.\<close>

definition nestedPackets :: "crypto \<Rightarrow> nat \<Rightarrow> byte \<Rightarrow> bytes \<Rightarrow> nat \<Rightarrow> nat \<Rightarrow> bytes cpp" where
  "nestedPackets L depth tag data bodyBegin bodyLength =
     (if tag \<noteq> PGP_TAG_COMPRESSED_DATA \<or> bodyLength < 1 \<or> depth = 0 then no
      else do {
        algorithm \<leftarrow> byte_at data bodyBegin;
        compressed \<leftarrow> slice data (bodyBegin + 1) (bodyBegin + bodyLength);
        on_true (decompressCompressedDataBodyForInspection L algorithm compressed) (\<lambda>decompressed.
          if decompressed = [] then no
          else do {
            r \<leftarrow> reassemblePartialBodyLengths decompressed;
            yes (case r of None \<Rightarrow> decompressed | Some reassembledInner \<Rightarrow> reassembledInner) }) })"

lemma nestedPackets_depth: "nestedPackets L depth tag data p n = yes inner \<Longrightarrow> 0 < depth"
  by (auto simp: nestedPackets_def split: if_splits)

function inspectPacketSequence ::
  "crypto \<Rightarrow> nat \<Rightarrow> bytes \<Rightarrow> nat \<Rightarrow> nat \<Rightarrow> inspected_message \<Rightarrow> inspected_message option" where
  "inspectPacketSequence L depth data pos stop out =
     (if pos \<ge> stop then Some out
      else case readPacketHeader data pos (Some stop) False of
        None \<Rightarrow> None
      | Some None \<Rightarrow> Some out
      | Some (Some (tag, bodyLength, bodyBegin, part)) \<Rightarrow>
          if bodyLength > size_sub stop bodyBegin then Some out
          else case inspectPacket tag data bodyBegin bodyLength (out\<lparr>imSawAnyPacket := True\<rparr>) of
            None \<Rightarrow> None
          | Some out \<Rightarrow>
              (case nestedPackets L depth tag data bodyBegin bodyLength of
                 None \<Rightarrow> None
               | Some None \<Rightarrow> inspectPacketSequence L depth data (bodyBegin + bodyLength) stop out
               | Some (Some inner) \<Rightarrow>
                   (case inspectPacketSequence L (depth - 1) inner 0 (length inner) out of
                      None \<Rightarrow> None
                    | Some out \<Rightarrow> inspectPacketSequence L depth data (bodyBegin + bodyLength) stop out)))"
  by pat_completeness auto

termination
  by (relation "measures [\<lambda>(L, depth, data, pos, stop, out). depth, \<lambda>(L, depth, data, pos, stop, out). stop - pos]")
    (auto dest!: readPacketHeader_pos dest: nestedPackets_depth)

declare inspectPacketSequence.simps [simp del]

definition clearSignMark :: string where "clearSignMark = ''-----BEGIN PGP SIGNED MESSAGE-----''"
definition signatureMark :: string where "signatureMark = ''-----BEGIN PGP SIGNATURE-----''"

definition decodeInspectionInputToBinary :: "bytes \<Rightarrow> bytes cpp" where
  "decodeInspectionInputToBinary input =
     (if input = [] then no
      else if length input \<ge> 5 \<and> take 5 input = of_text dashes then
        (let source = to_text input in
         if take 34 source = clearSignMark then
           (case text_find source signatureMark 0 of None \<Rightarrow> no
            | Some sigBeginPos \<Rightarrow> on_true (armorDecode (drop sigBeginPos source)) (\<lambda>(blockType, binary). yes binary))
         else on_true (armorDecode source) (\<lambda>(blockType, binary). yes binary))
      else yes input)"

definition inspectMessageBuffer :: "crypto \<Rightarrow> bytes \<Rightarrow> inspected_message cpp" where
  "inspectMessageBuffer L input =
     on_true (decodeInspectionInputToBinary input) (\<lambda>binary.
       if binary = [] then no
       else do {
         r \<leftarrow> reassemblePartialBodyLengths binary;
         let message = (case r of None \<Rightarrow> binary | Some reassembled \<Rightarrow> reassembled);
         out \<leftarrow> inspectPacketSequence L 3 message 0 (length message) newInspectedMessage;
         if imSawAnyPacket out then yes out else no })"

section \<open>The report as text\<close>

definition hexDigit :: "byte \<Rightarrow> char" where
  "hexDigit n = ''0123456789ABCDEF'' ! unat n"

definition formatInspectionOctetHex :: "byte \<Rightarrow> string" where
  "formatInspectionOctetHex v = [hexDigit (drop_bit 4 v AND 0xF), hexDigit (v AND 0xF)]"

definition formatInspectionKeyIdHex :: "bool \<Rightarrow> bytes \<Rightarrow> string" where
  "formatInspectionKeyIdHex haveKeyId keyId =
     (if \<not> haveKeyId then replicate 16 (CHR ''?'')
      else concat (map (\<lambda>i. [hexDigit (drop_bit 4 (keyId ! i) AND 0xF), hexDigit (keyId ! i AND 0xF)]) [0..<8]))"

text \<open>An empty list is a success and not a buffer that is too small.\<close>

definition writeInspectionRecords :: "int option \<Rightarrow> string \<Rightarrow> answer option" where
  "writeInspectionRecords buffer records =
     (if asInt (length records) = 0 then Some \<lparr> ansStatus = NO_ERROR, ansWritten = None, ansSize = Some 0 \<rparr>
      else copyOut 0 buffer (of_text records))"

end
