(* ===== verification/Lifecycle.thy ===== *)
theory Lifecycle
  imports ExportImport
begin

unbundle bit_operations_syntax

text \<open>
  The life of one engine object: the public operations of \<open>CPgpEngine\<close> that change its state, as
  the steps of an inductive relation from a freshly constructed object. The hypotheses of the
  steps are those of the library (draws have the length that was asked for) and of the two
  revocations (the reason fits the length field of the hashed area).
\<close>

section \<open>Steps\<close>

inductive engine_step :: "crypto \<Rightarrow> engine \<Rightarrow> status \<Rightarrow> engine \<Rightarrow> bool" for L :: crypto where
  generate: "draws_ok L R \<Longrightarrow> GenerateKeyPair L R S uid pw e = (st, S') \<Longrightarrow> engine_step L S st S'"
| set_primary: "draws_ok L R \<Longrightarrow> SetPrimaryUserId L R S pw i = (st, S') \<Longrightarrow> engine_step L S st S'"
| add_uid: "draws_ok L R \<Longrightarrow> AddUserId L R S pw uid p = (st, S') \<Longrightarrow> engine_step L S st S'"
| revoke_uid: "draws_ok L R \<Longrightarrow> reason_fits why \<Longrightarrow> RevokeUserId L R S pw i code why = (st, S') \<Longrightarrow> engine_step L S st S'"
| add_subkey: "draws_ok L R \<Longrightarrow> AddSubkey L R S pw flags e = (st, S') \<Longrightarrow> engine_step L S st S'"
| revoke_subkey: "draws_ok L R \<Longrightarrow> reason_fits why \<Longrightarrow> RevokeSubkey L R S pw i code why = (st, S') \<Longrightarrow> engine_step L S st S'"
| set_expiration: "draws_ok L R \<Longrightarrow> SetKeyExpiration L R S pw i e = (st, S') \<Longrightarrow> engine_step L S st S'"
| change_password: "draws_ok L R \<Longrightarrow> ChangePassword L R S pw new = (st, S') \<Longrightarrow> engine_step L S st S'"
| import_peer: "ImportPeerPublicKey L now S b = Some (st, S') \<Longrightarrow> engine_step L S st S'"
| import_recipient: "ImportAdditionalRecipientPublicKey L now S b = Some (st, S') \<Longrightarrow> engine_step L S st S'"
| set_cipher: "SetSymmetricCipherPreference S a = (st, S') \<Longrightarrow> engine_step L S st S'"

text \<open>The objects that the constructors and any number of operations lead to.\<close>

inductive reachable :: "crypto \<Rightarrow> engine \<Rightarrow> bool" for L :: crypto where
  fresh: "reachable L newEngine"
| fresh_rsa: "reachable L (newRsaEngine bits)"
| fresh_for: "reachable L (newEngineFor algorithm)"
| step: "reachable L S \<Longrightarrow> engine_step L S st S' \<Longrightarrow> reachable L S'"

inductive_cases engine_stepE: "engine_step L S st S'"

section \<open>The identity invariant along a life\<close>

lemma operation_results:
  "SetPrimaryUserId L R S pw i = (st, S') \<Longrightarrow> lib_ok L \<Longrightarrow> draws_ok L R \<Longrightarrow> identity_inv L S \<Longrightarrow> identity_inv L S'"
  "AddUserId L R S pw uid p = (st, S') \<Longrightarrow> lib_ok L \<Longrightarrow> draws_ok L R \<Longrightarrow> identity_inv L S \<Longrightarrow> identity_inv L S'"
  "RevokeUserId L R S pw i code why = (st, S') \<Longrightarrow> lib_ok L \<Longrightarrow> draws_ok L R \<Longrightarrow> reason_fits why \<Longrightarrow> identity_inv L S \<Longrightarrow> identity_inv L S'"
  "AddSubkey L R S pw flags e = (st, S') \<Longrightarrow> lib_ok L \<Longrightarrow> draws_ok L R \<Longrightarrow> identity_inv L S \<Longrightarrow> identity_inv L S'"
  "RevokeSubkey L R S pw i code why = (st, S') \<Longrightarrow> lib_ok L \<Longrightarrow> draws_ok L R \<Longrightarrow> reason_fits why \<Longrightarrow> identity_inv L S \<Longrightarrow> identity_inv L S'"
  "SetKeyExpiration L R S pw i e = (st, S') \<Longrightarrow> lib_ok L \<Longrightarrow> draws_ok L R \<Longrightarrow> identity_inv L S \<Longrightarrow> identity_inv L S'"
  "ChangePassword L R S pw new = (st, S') \<Longrightarrow> lib_ok L \<Longrightarrow> draws_ok L R \<Longrightarrow> identity_inv L S \<Longrightarrow> identity_inv L S'"
  using setPrimary.keeps [where L = L and R = R and x = i and S = S and pw = pw]
    addUserId.keeps [where L = L and R = R and x = "(uid, p)" and S = S and pw = pw]
    revokeUserId.keeps [where L = L and R = R and x = "(i, code, why)" and S = S and pw = pw]
    addSubkey.keeps [where L = L and R = R and x = "(flags, e)" and S = S and pw = pw]
    revokeSubkey.keeps [where L = L and R = R and x = "(i, code, why)" and S = S and pw = pw]
    setExpiration.keeps [where L = L and R = R and x = "(i, e)" and S = S and pw = pw]
    changePassword.keeps [where L = L and R = R and x = new and S = S and pw = pw]
  by simp_all

lemma step_identity_inv:
  assumes "engine_step L S st S'" "lib_ok L" "identity_inv L S"
  shows "identity_inv L S'"
  using assms
proof (cases rule: engine_step.cases)
  case (generate R uid pw e)
  with assms GenerateKeyPair_keeps [of L R S uid pw e] show ?thesis by simp
next
  case (import_peer now b)
  with assms(3) import_ownPart(1) import_identity_inv show ?thesis by metis
next
  case (import_recipient now b)
  with assms(3) import_ownPart(2) import_identity_inv show ?thesis by metis
next
  case (set_cipher a)
  with assms(3) import_ownPart(3) import_identity_inv show ?thesis by metis
next
  case (set_primary R pw i)
  show ?thesis by (rule operation_results(1) [OF set_primary(2) assms(2) set_primary(1) assms(3)])
next
  case (add_uid R pw uid p)
  show ?thesis by (rule operation_results(2) [OF add_uid(2) assms(2) add_uid(1) assms(3)])
next
  case (revoke_uid R why pw i code)
  show ?thesis by (rule operation_results(3) [OF revoke_uid(3) assms(2) revoke_uid(1,2) assms(3)])
next
  case (add_subkey R pw flags e)
  show ?thesis by (rule operation_results(4) [OF add_subkey(2) assms(2) add_subkey(1) assms(3)])
next
  case (revoke_subkey R why pw i code)
  show ?thesis by (rule operation_results(5) [OF revoke_subkey(3) assms(2) revoke_subkey(1,2) assms(3)])
next
  case (set_expiration R pw i e)
  show ?thesis by (rule operation_results(6) [OF set_expiration(2) assms(2) set_expiration(1) assms(3)])
next
  case (change_password R pw new)
  show ?thesis by (rule operation_results(7) [OF change_password(2) assms(2) change_password(1) assms(3)])
qed

lemma reachable_identity_inv: "reachable L S \<Longrightarrow> lib_ok L \<Longrightarrow> identity_inv L S"
proof (induction rule: reachable.induct)
  case (step S st S')
  then show ?case by (blast intro: step_identity_inv)
qed (simp_all add: newEngine_def newRsaEngine_def newEngineFor_def)

lemmas reachable_parts = reachable_identity_inv [unfolded identity_inv_def, rule_format]

section \<open>Failure and the peer\<close>

text \<open>Every operation either reports success or leaves the object as it was, with one exception:
  \<open>AddUserId\<close> keeps the new user ID when marking it as primary fails.\<close>

definition leftUserId :: "crypto \<Rightarrow> engine \<Rightarrow> engine \<Rightarrow> bool" where
  "leftUserId L S S' \<longleftrightarrow> (\<exists>R pw t. draws_ok L R \<and> t \<noteq> [] \<and> AddUserId L R S pw (Some t) True = (UNEXPECTED_ERROR, S')
     \<and> S' = withUserId L R S t)"

lemma AddUserId_left:
  assumes "AddUserId L R S pw uid p = (st, S')" "st \<noteq> NO_ERROR" "draws_ok L R"
  shows "S' = S \<or> st = UNEXPECTED_ERROR \<and> leftUserId L S S'"
proof (cases uid)
  case None
  then show ?thesis using AddUserId_failure [OF assms(1,2)] by (auto simp: has_text_def)
next
  case (Some t)
  from AddUserId_failure [OF assms(1,2)] show ?thesis
  proof
    assume left: "p \<and> authorised L S pw \<and> has_text uid \<and> st = UNEXPECTED_ERROR \<and> S' = withUserId L R S (the uid)"
    then have "AddUserId L R S pw (Some t) True = (UNEXPECTED_ERROR, S')" "t \<noteq> []" "S' = withUserId L R S t"
      using assms(1) Some by (auto simp: has_text_def)
    with assms(3) have "leftUserId L S S'" unfolding leftUserId_def by blast
    then show ?thesis using left by simp
  qed simp
qed

lemma GenerateKeyPair_atomic: "fst (GenerateKeyPair L R S uid pw e) \<noteq> NO_ERROR \<Longrightarrow> snd (GenerateKeyPair L R S uid pw e) = S"
  by (auto simp: GenerateKeyPair_def Let_def)

lemma import_atomic:
  "ImportPeerPublicKey L now S b = Some (st, S') \<Longrightarrow> st \<noteq> NO_ERROR \<Longrightarrow> S' = S"
  "ImportAdditionalRecipientPublicKey L now S b = Some (st, S') \<Longrightarrow> st \<noteq> NO_ERROR \<Longrightarrow> S' = S"
  "SetSymmetricCipherPreference S a = (st, S') \<Longrightarrow> st \<noteq> NO_ERROR \<Longrightarrow> S' = S"
  by (auto simp: ImportPeerPublicKey_def ImportAdditionalRecipientPublicKey_def SetSymmetricCipherPreference_def
      on_read_eq_Some split: if_splits option.splits)

lemma step_failure:
  assumes "engine_step L S st S'" "st \<noteq> NO_ERROR"
  shows "S' = S \<or> st = UNEXPECTED_ERROR \<and> leftUserId L S S'"
  using assms(1)
proof (cases rule: engine_step.cases)
  case (generate R uid pw e)
  with assms(2) GenerateKeyPair_atomic [of L R S uid pw e] show ?thesis by simp
next
  case (add_uid R pw uid p)
  with assms(2) show ?thesis by (intro AddUserId_left)
next
  case (set_primary R pw i)
  with assms(2) show ?thesis using setPrimary.result_cases by blast
next
  case (revoke_uid R why pw i code)
  with assms(2) show ?thesis using revokeUserId.result_cases [where x = "(i, code, why)"] by auto
next
  case (add_subkey R pw flags e)
  with assms(2) show ?thesis using addSubkey.result_cases [where x = "(flags, e)"] by auto
next
  case (revoke_subkey R why pw i code)
  with assms(2) show ?thesis using revokeSubkey.result_cases [where x = "(i, code, why)"] by auto
next
  case (set_expiration R pw i e)
  with assms(2) show ?thesis using setExpiration.result_cases [where x = "(i, e)"] by auto
next
  case (change_password R pw new)
  with assms(2) show ?thesis using changePassword.result_cases by blast
next
  case (import_peer now b)
  with assms(2) import_atomic(1) show ?thesis by blast
next
  case (import_recipient now b)
  with assms(2) import_atomic(2) show ?thesis by blast
next
  case (set_cipher a)
  with assms(2) import_atomic(3) show ?thesis by blast
qed

section \<open>A sample identity\<close>

text \<open>A generated Ed25519/X25519 identity under the sample library, for the concrete instances below.\<close>

definition sample_engine :: engine where
  "sample_engine = newborn sample_lib sample_draws (newEngineFor PGP_KEY_ALGORITHM_ED25519_X25519) [65] [112, 119] 3600"

lemma sample_lib_lib_ok: "lib_ok sample_lib"
  by (simp add: lib_ok_def sample_lib_ok)

lemmas sample_hyps = sample_lib_lib_ok sample_draws_ok

lemma sample_signed: "bothSigned sample_draws" "drawSigns sample_draws i"
  by (simp_all add: bothSigned_def sample_draws_def)

lemma sample_engine_step:
  "GenerateKeyPair sample_lib sample_draws (newEngineFor PGP_KEY_ALGORITHM_ED25519_X25519) (Some [65]) (Some [112, 119]) 3600
    = (NO_ERROR, sample_engine)"
  using GenerateKeyPair_cases [OF sample_hyps] sample_signed by (simp add: sample_engine_def has_text_def newEngineFor_def)

lemma sample_engine_reachable: "reachable sample_lib sample_engine"
  by (rule reachable.step [OF fresh_for engine_step.generate [OF sample_draws_ok sample_engine_step]])

lemma sample_engine_inv: "ownKeyGenerated sample_engine" "identity_inv sample_lib sample_engine"
  unfolding sample_engine_def by (rule newborn_inv [OF sample_hyps sample_signed(1)])+

lemma sample_engine_parts:
  "map uidText (ownUserIds sample_engine) = [[65]]" "map uidIsPrimary (ownUserIds sample_engine) = [True]"
  "length (ownSubkeys sample_engine) = 1" "keyAlgorithm sample_engine = PGP_KEY_ALGORITHM_ED25519_X25519"
  by (simp_all add: sample_engine_def install_defs newEngineFor_def)

lemma sample_authorised: "authorised sample_lib sample_engine (Some [112, 119])"
  by (simp add: authorised_def mayUseIdentity_def has_text_def sample_engine_inv passwordMatches_def
      checkPasswordHash_def) (simp add: sample_engine_def install_defs)

text \<open>Draws whose second signature is not made: the user ID stays.\<close>

definition one_signature_draws :: draws where
  "one_signature_draws = sample_draws\<lparr>drawSigns := \<lambda>i. i = 0\<rparr>"

lemma one_signature_draws_ok: "draws_ok sample_lib one_signature_draws"
  using sample_draws_ok by (simp add: draws_ok_def one_signature_draws_def)

lemma one_signature_AddUserId:
  "AddUserId sample_lib one_signature_draws sample_engine (Some [112, 119]) (Some [66]) True
    = (UNEXPECTED_ERROR, withUserId sample_lib one_signature_draws sample_engine [66])"
  using sample_authorised
  by (simp add: AddUserId_eq SetPrimaryUserId_def has_text_def one_signature_draws_def laterDraws_def withUserId_def
      authorised_def mayUseIdentity_def passwordMatches_def indexOk_def)


section \<open>Properties\<close>

text \<open>C11: In every state that any sequence of public operations leads to, an object that
  has an identity has a sound one: the key ID and fingerprint are those of its public key, the
  cached certifications, bindings and revocations are signatures of the master key over the right
  documents, the secret bodies open with the password whose hash is stored, exactly one user ID is primary,
  and the flat subkey fields mirror the first subkey.\<close>

theorem reachable_identity_is_sound:
  assumes "lib_ok L" "reachable L S"
  shows "identity_inv L S"
  by (rule reachable_identity_inv [OF assms(2,1)])

lemma reachable_identity_is_sound_witness: "identity_inv sample_lib sample_engine \<and> ownKeyGenerated sample_engine"
  using reachable_identity_is_sound [OF sample_lib_lib_ok sample_engine_reachable] sample_engine_inv(1) by simp

text \<open>C12: Every certification, user-ID revocation, subkey binding and subkey revocation that the object
  holds verifies under its own master key, in every reachable state.\<close>

theorem cached_signatures_verify:
  assumes "lib_ok L" "reachable L S" "ownKeyGenerated S"
  shows "(\<forall>uid \<in> set (ownUserIds S).
      verifyOwn L S (buildUserIdCertificationDocument (buildOwnMasterPubBody S) (uidText uid)) (uidCertSigPacket uid) = yes True
      \<and> (if uidIsRevoked uid
         then verifyOwn L S (buildUserIdCertificationDocument (buildOwnMasterPubBody S) (uidText uid)) (uidRevocationSigPacket uid) = yes True
         else uidRevocationSigPacket uid = []))
    \<and> (\<forall>k \<in> set (ownSubkeys S).
      verifyOwn L S (buildSubkeyBindingDocument (buildOwnMasterPubBody S) (subkeyPubBody S k)) (skBindingSigPacket k) = yes True
      \<and> (if skIsRevoked k
         then verifyOwn L S (buildSubkeyBindingDocument (buildOwnMasterPubBody S) (subkeyPubBody S k)) (skRevocationSigPacket k) = yes True
         else skRevocationSigPacket k = []))"
proof -
  from reachable_identity_inv [OF assms(2,1)] assms(3) have inv: "master_ok L S"
    "\<forall>uid \<in> set (ownUserIds S). uid_ok L S uid" "\<forall>k \<in> set (ownSubkeys S). subkey_ok L S k"
    by (simp_all add: identity_inv_def)
  have d: "digests_ok L" using assms(1) by (simp add: lib_ok_def)
  show ?thesis
    using inv(2,3) issued_verifies [OF inv(1) d] verifyOwn_sign [OF inv(1) d cert_extra_short(1)]
    by (auto simp: uid_ok_def subkey_ok_def Let_def)
qed

lemma cached_signatures_verify_witness:
  "\<exists>uid. ownUserIds sample_engine = [uid] \<and> verifyOwn sample_lib sample_engine
     (buildUserIdCertificationDocument (buildOwnMasterPubBody sample_engine) (uidText uid)) (uidCertSigPacket uid) = yes True"
  using conjunct1 [OF cached_signatures_verify [OF sample_lib_lib_ok sample_engine_reachable sample_engine_inv(1)]]
    sample_engine_parts(1) by (cases "ownUserIds sample_engine") auto

text \<open>An object with an identity has exactly one primary user ID in every reachable state, so the
  search that \<open>SetKeyExpiration\<close> starts with always succeeds and finds it.\<close>

theorem exactly_one_primary_user_id:
  assumes "lib_ok L" "reachable L S" "ownKeyGenerated S"
  shows "\<exists>i < length (ownUserIds S). firstPrimary 0 (ownUserIds S) = Some i
    \<and> (\<forall>j < length (ownUserIds S). uidIsPrimary (ownUserIds S ! j) = (j = i))"
proof -
  note inv = reachable_identity_inv [OF assms(2,1)]
  obtain i where i: "firstPrimary 0 (ownUserIds S) = Some i" "i < length (ownUserIds S)" "uidIsPrimary (ownUserIds S ! i)"
    using inv_firstPrimary [OF inv assms(3)] .
  have "one_primary (ownUserIds S)" using inv assms(3) by (simp add: identity_inv_def)
  with i show ?thesis unfolding one_primary_def by metis
qed

lemma exactly_one_primary_user_id_witness: "firstPrimary 0 (ownUserIds sample_engine) \<noteq> None"
  using exactly_one_primary_user_id [OF sample_lib_lib_ok sample_engine_reachable sample_engine_inv(1)] by auto

text \<open>C19: An operation that does not report success leaves the object exactly as it
  was, with one exception: when \<open>AddUserId\<close> cannot make the certificate that marks the new user ID as primary, it
  reports an unexpected error and the new user ID stays, certified by the master key, neither primary nor
  revoked, behind the old ones; everything else in the object is as before, and the object is sound.\<close>

theorem failed_operation_keeps_the_object:
  assumes "lib_ok L" "reachable L S" "engine_step L S st S'" "st \<noteq> NO_ERROR"
  shows "S' = S \<or> (st = UNEXPECTED_ERROR \<and> identity_inv L S'
    \<and> (\<exists>R pw uid. AddUserId L R S pw (Some (uidText uid)) True = (UNEXPECTED_ERROR, S')
        \<and> S' = S\<lparr>ownUserIds := ownUserIds S @ [uid]\<rparr> \<and> \<not> uidIsPrimary uid \<and> \<not> uidIsRevoked uid
        \<and> verifyOwn L S (buildUserIdCertificationDocument (buildOwnMasterPubBody S) (uidText uid)) (uidCertSigPacket uid) = yes True))"
proof (cases "S' = S")
  case False
  note inv = reachable_identity_inv [OF assms(2,1)]
  from step_failure [OF assms(3,4)] False have st: "st = UNEXPECTED_ERROR" and left: "leftUserId L S S'" by blast+
  from left obtain R pw t where t: "AddUserId L R S pw (Some t) True = (UNEXPECTED_ERROR, S')" "S' = withUserId L R S t"
    unfolding leftUserId_def by blast
  let ?uid = "addedUserId L R S t"
  have "authorised L S pw" using t(1) by (auto simp: AddUserId_eq split: if_splits)
  then have "ownKeyGenerated S" by (simp add: authorised_def mayUseIdentity_def)
  with inv assms(1) have m: "master_ok L S" and d: "digests_ok L" by (simp_all add: identity_inv_def lib_ok_def)
  have "verifyOwn L S (buildUserIdCertificationDocument (buildOwnMasterPubBody S) (uidText ?uid)) (uidCertSigPacket ?uid) = yes True"
    using verifyOwn_sign [OF m d cert_extra_short(1)] by (simp add: addedUserId_def)
  moreover have "identity_inv L S'" by (rule step_identity_inv [OF assms(3,1) inv])
  moreover have "AddUserId L R S pw (Some (uidText ?uid)) True = (UNEXPECTED_ERROR, S')"
    "S' = S\<lparr>ownUserIds := ownUserIds S @ [?uid]\<rparr>"
    using t addedUserId_ok(4) [of L R S t] by (simp_all only: withUserId_def)
  ultimately show ?thesis using st addedUserId_ok(2,3) [of L R S t] by blast
qed simp

lemma failed_operation_keeps_the_object_witness:
  "\<exists>S'. engine_step sample_lib sample_engine UNEXPECTED_ERROR S' \<and> S' \<noteq> sample_engine
     \<and> length (ownUserIds S') = 2 \<and> identity_inv sample_lib S'"
proof -
  let ?S = "withUserId sample_lib one_signature_draws sample_engine [66]"
  note step = engine_step.add_uid [OF one_signature_draws_ok one_signature_AddUserId]
  have two: "length (ownUserIds ?S) = 2"
    using sample_engine_parts(1) by (cases "ownUserIds sample_engine") (auto simp: withUserId_def)
  then have new: "?S \<noteq> sample_engine" using arg_cong [OF sample_engine_parts(1), of length] by auto
  from failed_operation_keeps_the_object [OF sample_lib_lib_ok sample_engine_reachable step] new
  have "identity_inv sample_lib ?S" by simp
  with step two new show ?thesis by blast
qed

text \<open>C17: Without an identity, without a password, or with a password whose hash is not the stored one,
  none of the operations on the identity does anything but report an invalid argument.\<close>

theorem identity_needs_password:
  assumes "\<not> (ownKeyGenerated S \<and> has_text pw \<and> sha256 L (the pw) = passwordCheckHash S)"
  shows "SetPrimaryUserId L R S pw i = (INVALID_ARGUMENT, S)
    \<and> AddUserId L R S pw uid makePrimary = (INVALID_ARGUMENT, S)
    \<and> RevokeUserId L R S pw i code why = (INVALID_ARGUMENT, S)
    \<and> AddSubkey L R S pw flags e = (INVALID_ARGUMENT, S)
    \<and> RevokeSubkey L R S pw i code why = (INVALID_ARGUMENT, S)
    \<and> SetKeyExpiration L R S pw i e = (INVALID_ARGUMENT, S)
    \<and> ChangePassword L R S pw new = (INVALID_ARGUMENT, S)"
proof -
  have "\<not> authorised L S pw"
    using assms by (auto simp: authorised_def mayUseIdentity_def passwordMatches_def checkPasswordHash_def)
  then show ?thesis
    by (simp add: SetPrimaryUserId_laws AddUserId_laws RevokeUserId_laws AddSubkey_laws RevokeSubkey_laws
        SetKeyExpiration_laws ChangePassword_laws)
qed

lemma identity_needs_password_witness:
  "AddUserId sample_lib sample_draws newEngine (Some [1]) (Some [2]) True = (INVALID_ARGUMENT, newEngine)"
  by (intro conjunct1 [OF conjunct2 [OF identity_needs_password]]) (simp add: newEngine_def)

text \<open>C21: \<open>GenerateKeyPair\<close> succeeds exactly on a user ID, a password and, for RSA, a supported
  key size, when both its signatures are made; then the object has one primary user ID with the given text, one
  encryption subkey with flags 0x0C and the expiration on master and subkey, the stored hash is that of the
  password, and the identity is sound. In every other case the object stays as it was, and the status tells a wrong
  argument from a signature that could not be made.\<close>

theorem generation_installs_identity:
  assumes "lib_ok L" "draws_ok L R"
  shows "case GenerateKeyPair L R S uid pw e of (st, S') \<Rightarrow>
    if has_text uid \<and> has_text pw \<and> (keyAlgorithm S \<noteq> PGP_KEY_ALGORITHM_RSA \<or> rsaKeyBits S \<in> {1024, 2048, 3072, 4096})
    then if drawSigns R 0 \<and> drawSigns R 1
      then st = NO_ERROR \<and> ownKeyGenerated S' \<and> identity_inv L S'
        \<and> map uidText (ownUserIds S') = [the uid] \<and> map uidIsPrimary (ownUserIds S') = [True]
        \<and> map skKeyFlags (ownSubkeys S') = [0x0C] \<and> map skExpirationSeconds (ownSubkeys S') = [e]
        \<and> keyExpirationSeconds S' = e \<and> passwordCheckHash S' = sha256 L (the pw)
        \<and> keyAlgorithm S' = keyAlgorithm S \<and> peerSubkeys S' = peerSubkeys S
      else st = UNEXPECTED_ERROR \<and> S' = S
    else st = INVALID_ARGUMENT \<and> S' = S"
  using newborn_inv [OF assms]
  by (auto simp: GenerateKeyPair_cases [OF assms] rsaBitsOk_def bothSigned_def) (simp_all add: install_defs)

lemma generation_installs_identity_witness:
  "fst (GenerateKeyPair sample_lib sample_draws (newRsaEngine 2048) (Some [65]) (Some [112]) 0) = NO_ERROR
   \<and> fst (GenerateKeyPair sample_lib one_signature_draws (newRsaEngine 2048) (Some [65]) (Some [112]) 0) = UNEXPECTED_ERROR
   \<and> fst (GenerateKeyPair sample_lib sample_draws (newRsaEngine 1000) (Some [65]) (Some [112]) 0) = INVALID_ARGUMENT"
  using generation_installs_identity [OF sample_hyps, where S = "newRsaEngine 2048" and uid = "Some [65]" and pw = "Some [112]" and e = 0]
    generation_installs_identity [OF sample_lib_lib_ok one_signature_draws_ok, where S = "newRsaEngine 2048" and uid = "Some [65]" and pw = "Some [112]" and e = 0]
    generation_installs_identity [OF sample_hyps, where S = "newRsaEngine 1000" and uid = "Some [65]" and pw = "Some [112]" and e = 0]
  by (auto simp: newRsaEngine_def newEngine_def has_text_def sample_signed one_signature_draws_def split: prod.splits)

text \<open>C20: With the current password and a new one, \<open>ChangePassword\<close> succeeds; afterwards
  the secret body of the master key and of every subkey opens with the new password and yields
  the same key material, the new password is accepted, the old one only if the two collide, and nothing
  public changes.\<close>

theorem password_change_reprotects:
  assumes "lib_ok L" "draws_ok L R" "authorised L S (Some old)" "has_text (Some new)"
  shows "case ChangePassword L R S (Some old) (Some new) of (st, S') \<Rightarrow> st = NO_ERROR
    \<and> openSecretKeyMaterial L new (buildOwnMasterPubBody S) (ownMasterSecretPacketBody S') = Some (masterCleartext L S)
    \<and> map (\<lambda>k. openSecretKeyMaterial L new (subkeyPubBody S k) (skSecretPacketBody k)) (ownSubkeys S')
        = map (\<lambda>k. Some (subkeyCleartext L S k)) (ownSubkeys S)
    \<and> authorised L S' (Some new) \<and> (authorised L S' (Some old) \<longleftrightarrow> sha256 L old = sha256 L new)
    \<and> fst (renderOwnKeyBlocks S') = fst (renderOwnKeyBlocks S)"
proof -
  let ?S = "reprotected L R S new"
  have opens: "openSecretKeyMaterial L new pub (encryptSecretKeyMaterial L (drawSalt R i) (drawIv R i) pub clear new) = Some clear"
    for i pub clear
    using openSecretKeyMaterial_encrypt(1) draws_okD(1,2) [OF assms(2)] assms(1) by (simp add: lib_ok_def)
  have gen: "ownKeyGenerated S" "has_text (Some old)" using assms(3) by (simp_all add: authorised_def mayUseIdentity_def)
  have auth: "authorised L ?S (Some p) \<longleftrightarrow> p \<noteq> [] \<and> sha256 L p = sha256 L new" for p
    using gen by (auto simp: authorised_def mayUseIdentity_def passwordMatches_def checkPasswordHash_def reprotected_def has_text_def)
  have subkeys: "map (\<lambda>k. openSecretKeyMaterial L new (subkeyPubBody S k) (skSecretPacketBody k)) (ownSubkeys ?S)
      = map (\<lambda>k. Some (subkeyCleartext L S k)) (ownSubkeys S)"
    by (rule nth_equalityI) (simp_all add: reprotected_def reencryptSubkey_def buildOwnSubkeyPubBody_def opens)
  have pub: "fst (renderOwnKeyBlocks ?S) = fst (renderOwnKeyBlocks S)"
  proof -
    have "map (renderSubkey ?S) (ownSubkeys ?S) = map (renderSubkey S) (ownSubkeys S)"
      by (rule nth_equalityI) (simp_all add: reprotected_def renderSubkey_def)
    moreover have "ownKeyGenerated ?S" "ownUserIds ?S = ownUserIds S" "buildOwnMasterPubBody ?S = buildOwnMasterPubBody S"
      using gen(1) by (simp_all add: reprotected_def)
    ultimately show ?thesis using renderOwnKeyBlocks_public gen(1) by simp
  qed
  show ?thesis
    using ChangePassword_success [OF assms] assms(4) auth subkeys pub gen(2) opens [of "buildOwnMasterPubBody S" 0]
    by (auto simp: has_text_def) (simp_all add: reprotected_def opens)
qed

lemma password_change_reprotects_witness:
  "fst (ChangePassword sample_lib sample_draws sample_engine (Some [112, 119]) (Some [113])) = NO_ERROR"
  using password_change_reprotects [OF sample_hyps sample_authorised, of "[113]"]
  by (simp add: has_text_def split: prod.splits)

text \<open>With the password and an index in range, and when the certificate is made, \<open>SetPrimaryUserId\<close> succeeds, marks exactly that user ID
  as primary, keeps every text and revocation, and replaces only the certificate of the chosen one, by one that
  verifies.\<close>

theorem primary_user_id_is_the_chosen_one:
  assumes "lib_ok L" "identity_inv L S" "authorised L S pw" "indexOk i (ownUserIds S)" "drawSigns R 0"
  shows "case SetPrimaryUserId L R S pw i of (st, S') \<Rightarrow> st = NO_ERROR
    \<and> map uidText (ownUserIds S') = map uidText (ownUserIds S)
    \<and> map uidIsRevoked (ownUserIds S') = map uidIsRevoked (ownUserIds S)
    \<and> map uidIsPrimary (ownUserIds S') = map (\<lambda>j. j = nat i) [0..<length (ownUserIds S)]
    \<and> (\<forall>j. j \<noteq> nat i \<longrightarrow> j < length (ownUserIds S) \<longrightarrow> uidCertSigPacket (ownUserIds S' ! j) = uidCertSigPacket (ownUserIds S ! j))
    \<and> verifyOwn L S (buildUserIdCertificationDocument (buildOwnMasterPubBody S) (uidText (ownUserIds S ! nat i)))
        (uidCertSigPacket (ownUserIds S' ! nat i)) = yes True"
proof -
  have gen: "ownKeyGenerated S" and i: "nat i < length (ownUserIds S)"
    using assms(3,4) by (auto simp: authorised_def mayUseIdentity_def indexOk_def)
  have m: "master_ok L S" and d: "digests_ok L" using assms(1,2) gen by (simp_all add: identity_inv_def lib_ok_def)
  define cert where "cert = ownSignature L S (drawTime R 0) 0x13
    (buildUserIdCertificationDocument (buildOwnMasterPubBody S) (uidText (ownUserIds S ! nat i)))
    (appendAll (flagsAndExpiration 0x03 (keyExpirationSeconds S)) (buildPrimaryUserIdSubpacket True))"
  define uids where "uids = map2 (\<lambda>j uid. uid\<lparr>uidIsPrimary := (j = nat i)\<rparr>)
      [0..<length (ownUserIds S)] ((ownUserIds S)[nat i := (ownUserIds S ! nat i)\<lparr>uidCertSigPacket := cert\<rparr>])"
  have eq: "SetPrimaryUserId L R S pw i = (NO_ERROR, S\<lparr>ownUserIds := uids\<rparr>)"
    using assms(3-5) by (simp add: SetPrimaryUserId_def authorised_def Let_def uids_def cert_def)
  have nth: "uids ! j = (if j = nat i then (ownUserIds S ! j)\<lparr>uidCertSigPacket := cert, uidIsPrimary := True\<rparr>
      else (ownUserIds S ! j)\<lparr>uidIsPrimary := False\<rparr>)" if "j < length (ownUserIds S)" for j
    using that by (simp add: uids_def)
  have len: "length uids = length (ownUserIds S)" by (simp add: uids_def)
  have "map uidText uids = map uidText (ownUserIds S)" "map uidIsRevoked uids = map uidIsRevoked (ownUserIds S)"
    "map uidIsPrimary uids = map (\<lambda>j. j = nat i) [0..<length (ownUserIds S)]"
    by (rule nth_equalityI; simp add: len nth)+
  then show ?thesis
    using i nth verifyOwn_sign [OF m d cert_extra_short(2)] by (simp add: eq) (simp add: cert_def)
qed

lemma primary_user_id_is_the_chosen_one_witness:
  "fst (SetPrimaryUserId sample_lib sample_draws sample_engine (Some [112, 119]) 0) = NO_ERROR"
  using primary_user_id_is_the_chosen_one [OF sample_lib_lib_ok sample_engine_inv(2) sample_authorised, of 0 sample_draws]
    sample_engine_parts(1) sample_signed(2) by (auto simp: indexOk_def split: prod.splits)

text \<open>With the password, an index in range and a reason that fits, and when the signature is made, revoking a user ID succeeds, sets the
  revocation flag of that entry only, and leaves a revocation signature (type 0x30) over that
  user ID that verifies; every other field of every entry is unchanged.\<close>

theorem revocation_is_recorded_and_verifies:
  assumes "lib_ok L" "identity_inv L S" "authorised L S pw" "indexOk i (ownUserIds S)" "reason_fits why" "drawSigns R 0"
  shows "case RevokeUserId L R S pw i code why of (st, S') \<Rightarrow> st = NO_ERROR
    \<and> (\<exists>sig. S' = S\<lparr>ownUserIds := (ownUserIds S)[nat i := (ownUserIds S ! nat i)\<lparr>uidRevocationSigPacket := sig, uidIsRevoked := True\<rparr>]\<rparr>
        \<and> issued L S 0x30 (buildUserIdCertificationDocument (buildOwnMasterPubBody S) (uidText (ownUserIds S ! nat i))) sig
        \<and> verifyOwn L S' (buildUserIdCertificationDocument (buildOwnMasterPubBody S) (uidText (ownUserIds S ! nat i))) sig = yes True)"
proof -
  have m: "master_ok L S" and d: "digests_ok L"
    using assms(1-3) by (simp_all add: identity_inv_def lib_ok_def authorised_def mayUseIdentity_def)
  define sig where "sig = ownSignature L S (drawTime R 0) 0x30
    (buildUserIdCertificationDocument (buildOwnMasterPubBody S) (uidText (ownUserIds S ! nat i))) (buildRevocationReasonSubpacket code why)"
  let ?S = "S\<lparr>ownUserIds := (ownUserIds S)[nat i := (ownUserIds S ! nat i)\<lparr>uidRevocationSigPacket := sig, uidIsRevoked := True\<rparr>]\<rparr>"
  have issued: "issued L S 0x30 (buildUserIdCertificationDocument (buildOwnMasterPubBody S) (uidText (ownUserIds S ! nat i))) sig"
    unfolding sig_def by (rule issued_sign [OF length_reasonSubpacket [OF assms(5)]])
  then have "verifyOwn L ?S (buildUserIdCertificationDocument (buildOwnMasterPubBody S) (uidText (ownUserIds S ! nat i))) sig = yes True"
    using issued_verifies [of L ?S] m d by simp
  moreover have "RevokeUserId L R S pw i code why = (NO_ERROR, ?S)"
    using assms(3,4,6) by (simp add: RevokeUserId_def authorised_def Let_def sig_def)
  ultimately show ?thesis using issued by (auto intro!: exI [of _ sig])
qed

lemma revocation_is_recorded_and_verifies_witness:
  "fst (RevokeUserId sample_lib sample_draws sample_engine (Some [112, 119]) 0 3 (Some [120])) = NO_ERROR"
  using revocation_is_recorded_and_verifies [OF sample_lib_lib_ok sample_engine_inv(2) sample_authorised, of 0 "Some [120]" sample_draws 3]
    sample_engine_parts(1) sample_signed(2) by (auto simp: indexOk_def reason_fits_def split: prod.splits)

end
