(* ===== verification/EngineMessages.thy ===== *)
theory EngineMessages
  imports Inspection Lifecycle
begin

unbundle bit_operations_syntax

text \<open>
  The messaging methods of \<open>CPgpEngine\<close> (src/src/Pgp/PgpEngine.cpp): encryption to the imported
  peer and the additional recipients, decryption with any own subkey, detached signatures and
  their verification against the peer's keys, in the binary and the armored form. They read the
  state and do not change it; their results go through the calling convention of \<open>CallerBuffer\<close>.
\<close>

section \<open>Recipients\<close>

text \<open>The OpenPGP octet of the preferred cipher, which is the value of its enumerator.\<close>

definition cipherOctet :: "symmetric_algorithm \<Rightarrow> byte" where
  "cipherOctet a = (case a of PGP_SYMMETRIC_AES128 \<Rightarrow> 7 | PGP_SYMMETRIC_AES192 \<Rightarrow> 8 | PGP_SYMMETRIC_AES256 \<Rightarrow> 9)"

definition primaryRecipient :: "engine \<Rightarrow> recipient" where
  "primaryRecipient S =
     (if peerSubkeyAlgorithm S = PGP_KEY_ALGORITHM_RSA
      then \<lparr> rcAlgorithm = peerSubkeyAlgorithm S, rcRsaPublicKey = peerSubkeyPublicKey S, rcRsaKeyId = peerSubkeyKeyId S,
             rcX25519PublicKey = zeros 32, rcX25519KeyId = zeros 8, rcX25519Fingerprint = zeros 20 \<rparr>
      else \<lparr> rcAlgorithm = peerSubkeyAlgorithm S, rcRsaPublicKey = blankRsaPublic, rcRsaKeyId = zeros 8,
             rcX25519PublicKey = peerX25519PublicKey S, rcX25519KeyId = peerSubkeyKeyId S,
             rcX25519Fingerprint = peerSubkeyFingerprint S \<rparr>)"

definition recipientsOf :: "engine \<Rightarrow> recipient list" where
  "recipientsOf S = primaryRecipient S # additionalRecipients S"

definition activeSigningKey :: "engine \<Rightarrow> rsa_key \<times> bytes \<times> bytes" where
  "activeSigningKey S =
     selectActiveSigningKeyMaterial (ownSubkeys S) (ownMasterPrivateKey S) (ownEd25519PrivateKey S) (ownMasterKeyId S)"

section \<open>Encrypting\<close>

text \<open>\<open>sizeGiven\<close>: the pointer to the size is not null. A null buffer is answered with room to spare,
  since the length of a second message can differ.\<close>

definition EncryptBuffer ::
  "crypto \<Rightarrow> message_draws \<Rightarrow> engine \<Rightarrow> bytes option \<Rightarrow> int \<Rightarrow> bool \<Rightarrow> int option \<Rightarrow> answer option" where
  "EncryptBuffer L M S inputBuffer inputBufferSize sizeGiven buffer =
     (if \<not> peerKeyImported S \<or> \<not> sizeGiven then Some (refused INVALID_ARGUMENT)
      else case inputOf inputBuffer inputBufferSize of None \<Rightarrow> Some (refused INVALID_ARGUMENT)
      | Some plaintext \<Rightarrow>
          (case buildEncryptedMessageMultiRecipient L M (recipientsOf S) (cipherOctet (symmetricCipherPreference S)) plaintext of
             None \<Rightarrow> Some (refused UNEXPECTED_ERROR)
           | Some message \<Rightarrow> copyOut (length (recipientsOf S) * 2) buffer message))"

definition EncryptStringArmored ::
  "crypto \<Rightarrow> message_draws \<Rightarrow> engine \<Rightarrow> bytes option \<Rightarrow> int \<Rightarrow> bool \<Rightarrow> int option \<Rightarrow> answer option" where
  "EncryptStringArmored L M S inputString inputStringSize sizeGiven buffer =
     (if \<not> peerKeyImported S \<or> \<not> sizeGiven then Some (refused INVALID_ARGUMENT)
      else case inputOf inputString inputStringSize of None \<Rightarrow> Some (refused INVALID_ARGUMENT)
      | Some plaintext \<Rightarrow>
          (case buildEncryptedMessageMultiRecipient L M (recipientsOf S) (cipherOctet (symmetricCipherPreference S)) plaintext of
             None \<Rightarrow> Some (refused UNEXPECTED_ERROR)
           | Some message \<Rightarrow> copyOut (length (recipientsOf S) * 4) buffer (of_text (armorEncode ''PGP MESSAGE'' message))))"

definition EncryptAndSignBuffer ::
  "crypto \<Rightarrow> message_draws \<Rightarrow> 32 word \<Rightarrow> engine \<Rightarrow> bytes option \<Rightarrow> bytes option \<Rightarrow> int \<Rightarrow> bool \<Rightarrow> int option \<Rightarrow> answer option" where
  "EncryptAndSignBuffer L M now S password inputBuffer inputBufferSize sizeGiven buffer =
     (if \<not> mayUseIdentity S password \<or> \<not> peerKeyImported S \<or> \<not> sizeGiven then Some (refused INVALID_ARGUMENT)
      else case inputOf inputBuffer inputBufferSize of None \<Rightarrow> Some (refused INVALID_ARGUMENT)
      | Some plaintext \<Rightarrow>
          if \<not> passwordMatches L S password then Some (refused INVALID_ARGUMENT)
          else
            (case buildEncryptedSignedMessageMultiRecipient L M now (recipientsOf S) (keyAlgorithm S) (activeSigningKey S)
                    (cipherOctet (symmetricCipherPreference S)) plaintext of
               None \<Rightarrow> Some (refused UNEXPECTED_ERROR)
             | Some message \<Rightarrow> copyOut (length (recipientsOf S) * 2) buffer message))"

definition EncryptAndSignStringArmored ::
  "crypto \<Rightarrow> message_draws \<Rightarrow> 32 word \<Rightarrow> engine \<Rightarrow> bytes option \<Rightarrow> bytes option \<Rightarrow> int \<Rightarrow> bool \<Rightarrow> int option \<Rightarrow> answer option" where
  "EncryptAndSignStringArmored L M now S password inputString inputStringSize sizeGiven buffer =
     (if \<not> mayUseIdentity S password \<or> \<not> peerKeyImported S \<or> \<not> sizeGiven then Some (refused INVALID_ARGUMENT)
      else case inputOf inputString inputStringSize of None \<Rightarrow> Some (refused INVALID_ARGUMENT)
      | Some plaintext \<Rightarrow>
          if \<not> passwordMatches L S password then Some (refused INVALID_ARGUMENT)
          else
            (case buildEncryptedSignedMessageMultiRecipient L M now (recipientsOf S) (keyAlgorithm S) (activeSigningKey S)
                    (cipherOctet (symmetricCipherPreference S)) plaintext of
               None \<Rightarrow> Some (refused UNEXPECTED_ERROR)
             | Some message \<Rightarrow> copyOut (length (recipientsOf S) * 4) buffer (of_text (armorEncode ''PGP MESSAGE'' message))))"

section \<open>Decrypting\<close>

definition firstKey :: "engine \<Rightarrow> own_key" where
  "firstKey S = \<lparr> okAlgorithm = keyAlgorithm S, okRsaKey = ownSubkeyPrivateKey S, okX25519Key = ownX25519PrivateKey S,
     okFingerprint = ownSubkeyFingerprint S, okKeyId = ownSubkeyKeyId S \<rparr>"

definition subkeyKey :: "engine \<Rightarrow> own_subkey \<Rightarrow> own_key" where
  "subkeyKey S k = \<lparr> okAlgorithm = keyAlgorithm S, okRsaKey = skRsaPrivateKey k, okX25519Key = skX25519PrivateKey k,
     okFingerprint = skFingerprint k, okKeyId = skKeyId k \<rparr>"

text \<open>The signature packet that a failed attempt has already put into the caller's vector.\<close>

definition signatureLeft :: "crypto \<Rightarrow> own_key \<Rightarrow> bytes \<Rightarrow> bool \<Rightarrow> bytes option" where
  "signatureLeft L K message wantSignature =
     (case on_true (messagePlain L K message) (\<lambda>plain. openBody L plain wantSignature) of
        Some (Some (body, sig)) \<Rightarrow> sig | _ \<Rightarrow> None)"

fun decryptWithAny :: "crypto \<Rightarrow> bytes \<Rightarrow> bool \<Rightarrow> own_key list \<Rightarrow> bytes option \<Rightarrow> (bytes \<times> bytes option) cpp" where
  "decryptWithAny L message wantSignature [] signature = no"
| "decryptWithAny L message wantSignature (K # Ks) signature =
     (case parseAndDecryptMessage L K message wantSignature of
        None \<Rightarrow> None
      | Some (Some (plaintext, sig)) \<Rightarrow> yes (plaintext, if sig = None then signature else sig)
      | Some None \<Rightarrow>
          let left = signatureLeft L K message wantSignature
          in decryptWithAny L message wantSignature Ks (if left = None then signature else left))"

definition parseAndDecryptMessageWithAnyOwnSubkey ::
  "crypto \<Rightarrow> engine \<Rightarrow> bytes \<Rightarrow> bool \<Rightarrow> (bytes \<times> bytes option) cpp" where
  "parseAndDecryptMessageWithAnyOwnSubkey L S message wantSignature =
     decryptWithAny L message wantSignature (firstKey S # map (subkeyKey S) (ownSubkeys S)) None"

definition decryptForCaller :: "crypto \<Rightarrow> engine \<Rightarrow> bytes \<Rightarrow> int option \<Rightarrow> answer option" where
  "decryptForCaller L S message buffer =
     on_read (parseAndDecryptMessageWithAnyOwnSubkey L S message False) (refused INVALID_DATA)
       (\<lambda>(plaintext, sig). copyOut 0 buffer plaintext)"

definition DecryptBuffer :: "crypto \<Rightarrow> engine \<Rightarrow> bytes option \<Rightarrow> bytes option \<Rightarrow> bool \<Rightarrow> int option \<Rightarrow> answer option" where
  "DecryptBuffer L S password inputBuffer sizeGiven buffer =
     (if \<not> mayUseIdentity S password \<or> \<not> has_text inputBuffer \<or> \<not> sizeGiven then Some (refused INVALID_ARGUMENT)
      else if \<not> passwordMatches L S password then Some (refused INVALID_ARGUMENT)
      else decryptForCaller L S (the inputBuffer) buffer)"

definition DecryptStringArmored :: "crypto \<Rightarrow> engine \<Rightarrow> bytes option \<Rightarrow> bytes option \<Rightarrow> bool \<Rightarrow> int option \<Rightarrow> answer option" where
  "DecryptStringArmored L S password inputString sizeGiven buffer =
     (if \<not> mayUseIdentity S password \<or> \<not> has_text inputString \<or> \<not> sizeGiven then Some (refused INVALID_ARGUMENT)
      else if \<not> passwordMatches L S password then Some (refused INVALID_ARGUMENT)
      else on_read (armorDecode (to_text (the inputString))) (refused INVALID_DATA)
        (\<lambda>(blockType, message). decryptForCaller L S message buffer))"

section \<open>Signatures\<close>

definition verifyAgainstPeer :: "crypto \<Rightarrow> engine \<Rightarrow> bytes \<Rightarrow> bytes \<Rightarrow> bool cpp" where
  "verifyAgainstPeer L S documentData sigPacketBytes = do {
     (verifyAlgorithm, verifyRsaKey, verifyEd25519Key) \<leftarrow> selectPeerVerificationKeyMaterial sigPacketBytes
       (peerMasterAlgorithm S, peerMasterPublicKey S, peerEd25519PublicKey S) (peerMasterKeyId S) (peerSubkeys S);
     if verifyAlgorithm = PGP_KEY_ALGORITHM_RSA
     then verifySignaturePacket L verifyRsaKey documentData sigPacketBytes
     else verifyEd25519SignaturePacket L verifyEd25519Key documentData sigPacketBytes }"

text \<open>The flag of the caller is set on success only.\<close>

definition decryptAndVerifyForCaller :: "crypto \<Rightarrow> engine \<Rightarrow> bytes \<Rightarrow> int option \<Rightarrow> (answer \<times> bool option) option" where
  "decryptAndVerifyForCaller L S message buffer =
     on_read (parseAndDecryptMessageWithAnyOwnSubkey L S message True) (refused INVALID_DATA, None) (\<lambda>(plaintext, sig).
     on_read (verifyAgainstPeer L S plaintext (case sig of None \<Rightarrow> [] | Some s \<Rightarrow> s)) (refused INVALID_DATA, None) (\<lambda>verified. do {
       a \<leftarrow> copyOut 0 buffer plaintext;
       Some (a, if ansStatus a = NO_ERROR then Some verified else None) }))"

definition DecryptAndVerifyBuffer ::
  "crypto \<Rightarrow> engine \<Rightarrow> bytes option \<Rightarrow> bytes option \<Rightarrow> bool \<Rightarrow> bool \<Rightarrow> int option \<Rightarrow> (answer \<times> bool option) option" where
  "DecryptAndVerifyBuffer L S password inputBuffer sizeGiven flagGiven buffer =
     (if \<not> mayUseIdentity S password \<or> \<not> peerKeyImported S \<or> \<not> has_text inputBuffer \<or> \<not> sizeGiven \<or> \<not> flagGiven
      then Some (refused INVALID_ARGUMENT, None)
      else if \<not> passwordMatches L S password then Some (refused INVALID_ARGUMENT, None)
      else decryptAndVerifyForCaller L S (the inputBuffer) buffer)"

definition DecryptAndVerifyStringArmored ::
  "crypto \<Rightarrow> engine \<Rightarrow> bytes option \<Rightarrow> bytes option \<Rightarrow> bool \<Rightarrow> bool \<Rightarrow> int option \<Rightarrow> (answer \<times> bool option) option" where
  "DecryptAndVerifyStringArmored L S password inputString sizeGiven flagGiven buffer =
     (if \<not> mayUseIdentity S password \<or> \<not> peerKeyImported S \<or> \<not> has_text inputString \<or> \<not> sizeGiven \<or> \<not> flagGiven
      then Some (refused INVALID_ARGUMENT, None)
      else if \<not> passwordMatches L S password then Some (refused INVALID_ARGUMENT, None)
      else on_read (armorDecode (to_text (the inputString))) (refused INVALID_DATA, None)
        (\<lambda>(blockType, message). decryptAndVerifyForCaller L S message buffer))"

definition SignBuffer ::
  "crypto \<Rightarrow> 32 word \<Rightarrow> engine \<Rightarrow> bytes option \<Rightarrow> bytes option \<Rightarrow> int \<Rightarrow> bool \<Rightarrow> int option \<Rightarrow> answer option" where
  "SignBuffer L now S password inputBuffer inputBufferSize sizeGiven buffer =
     (if \<not> mayUseIdentity S password \<or> \<not> sizeGiven then Some (refused INVALID_ARGUMENT)
      else case inputOf inputBuffer inputBufferSize of None \<Rightarrow> Some (refused INVALID_ARGUMENT)
      | Some documentData \<Rightarrow>
          if \<not> passwordMatches L S password then Some (refused INVALID_ARGUMENT)
          else
            let sigPacket = messageSignature L now (keyAlgorithm S) (activeSigningKey S) documentData
            in if sigPacket = [] then Some (refused UNEXPECTED_ERROR) else copyOut 0 buffer sigPacket)"

definition VerifyBuffer ::
  "crypto \<Rightarrow> engine \<Rightarrow> bytes option \<Rightarrow> int \<Rightarrow> bytes option \<Rightarrow> bool \<Rightarrow> (status \<times> bool option) option" where
  "VerifyBuffer L S inputBuffer inputBufferSize signatureBuffer flagGiven =
     (if \<not> peerKeyImported S \<or> \<not> flagGiven \<or> \<not> has_text signatureBuffer then Some (INVALID_ARGUMENT, None)
      else case inputOf inputBuffer inputBufferSize of None \<Rightarrow> Some (INVALID_ARGUMENT, None)
      | Some documentData \<Rightarrow>
          on_read (verifyAgainstPeer L S documentData (the signatureBuffer)) (INVALID_DATA, None)
            (\<lambda>verified. Some (NO_ERROR, Some verified)))"

end
