(* ===== verification/InspectionFacts.thy ===== *)
theory InspectionFacts
  imports Inspection
begin

unbundle bit_operations_syntax

text \<open>
  What the inspection functions promise: no input makes them read outside it, a revocation
  signature gives back the reason it was built with, an own signature names its issuer, and a
  message that the engine seals is reported with exactly its recipients.
\<close>

section \<open>No read outside the buffer\<close>

lemma readSignatureSubpacketLength_safe [ub_free]:
  "stop \<le> length data \<Longrightarrow> safe (readSignatureSubpacketLength data pos stop)"
  by (auto simp: readSignatureSubpacketLength_def byte_at_def)

text \<open>A step stays inside when it reads no more than the subpacket it is given.\<close>

definition step_safe :: "'a subpacket_step \<Rightarrow> bool" where
  "step_safe step \<longleftrightarrow> (\<forall>data pos n acc. 0 < n \<longrightarrow> pos + n \<le> length data \<longrightarrow> safe (step data pos n acc))"

lemma eachSubpacket_safe [ub_free]:
  "step_safe step \<Longrightarrow> stop \<le> length data \<Longrightarrow> safe (eachSubpacket step data pos stop acc)"
proof (induction step data pos stop acc rule: eachSubpacket.induct)
  case (1 step data pos stop acc)
  show ?case
  proof (cases "pos \<ge> stop")
    case False
    from 1(3) have "safe (readSignatureSubpacketLength data pos stop)" by (rule readSignatureSubpacketLength_safe)
    then show ?thesis
    proof (cases rule: safe_cases)
      case no
      with False show ?thesis by (subst eachSubpacket.simps) simp
    next
      case (yes v)
      obtain n p where v: "v = (n, p)" by (cases v)
      show ?thesis
      proof (cases "n = 0 \<or> p + n > stop")
        case True
        with False yes v show ?thesis by (subst eachSubpacket.simps) simp
      next
        case ok: False
        then have "safe (step data p n acc)" using 1(2,3) by (simp add: step_safe_def)
        then obtain acc' found where st: "step data p n acc = Some (acc', found)" by (auto simp: safe_def)
        show ?thesis
        proof (cases found)
          case True
          with False yes v ok st show ?thesis by (subst eachSubpacket.simps) simp
        next
          case again: False
          have "safe (eachSubpacket step data (p + n) stop acc')"
            by (rule "1.IH" [OF False yes refl v [symmetric] ok st refl again 1(2,3)])
          with False yes v ok st again show ?thesis by (subst eachSubpacket.simps) simp
        qed
      qed
    qed
  qed (subst eachSubpacket.simps, simp)
qed

lemma steps_safe: "step_safe issuerSubpacket" "step_safe reasonSubpacket"
  by (auto simp: step_safe_def issuerSubpacket_def reasonSubpacket_def Let_def intro!: safe_bind safe_if)

lemma finders_safe [ub_free]:
  "stop \<le> length data \<Longrightarrow> safe (findIssuerKeyIdInSubpackets data start stop)"
  "stop \<le> length data \<Longrightarrow> safe (findRevocationReasonInSubpackets data start stop)"
  using eachSubpacket_safe [OF steps_safe(1)] eachSubpacket_safe [OF steps_safe(2)]
  by (simp_all add: findIssuerKeyIdInSubpackets_def findRevocationReasonInSubpackets_def safe_def)

lemma findRevocationReasonInSignaturePacket_safe [ub_free]: "safe (findRevocationReasonInSignaturePacket packet)"
  unfolding findRevocationReasonInSignaturePacket_def Let_def case_prod_unfold
  by (auto simp: readBigEndian16_def intro!: safe_on_true safe_bind safe_if finders_safe readPacketHeader_safe
      dest!: readPacketHeader_pos)

lemma unhashedIssuer_safe [ub_free]: "safe (unhashedIssuer body pos)"
  by (auto simp: unhashedIssuer_def readBigEndian16_def intro!: safe_bind safe_if finders_safe)

lemma inspectSignaturePacketBody_safe [ub_free]: "safe (inspectSignaturePacketBody body)"
  by (auto simp: inspectSignaturePacketBody_def inspectV3_def inspectV4_def readBigEndian16_def
      intro!: safe_bind safe_if finders_safe unhashedIssuer_safe)

lemma findIssuerKeyIdOfSignaturePacket_safe [ub_free]: "safe (findIssuerKeyIdOfSignaturePacket packet)"
  unfolding findIssuerKeyIdOfSignaturePacket_def case_prod_unfold
  by (auto intro!: safe_on_true safe_bind safe_if inspectSignaturePacketBody_safe readPacketHeader_safe)

lemma selectPeerVerificationKeyMaterial_safe [ub_free]: "safe (selectPeerVerificationKeyMaterial packet master keyId subkeys)"
  by (auto simp: selectPeerVerificationKeyMaterial_def intro!: safe_bind findIssuerKeyIdOfSignaturePacket_safe)

lemma inspectPacket_safe [ub_free]:
  "bodyBegin + bodyLength \<le> length data \<Longrightarrow> safe (inspectPacket tag data bodyBegin bodyLength out)"
  unfolding inspectPacket_def inspectPkesk_def inspectOnePass_def Let_def
  by (auto intro!: safe_if safe_bind safe_on_read inspectSignaturePacketBody_safe)

lemma decompressForInspection_safe [ub_free]: "safe (decompressCompressedDataBodyForInspection L a body)"
  by (simp add: decompressCompressedDataBodyForInspection_def bzip2DecompressBuffer_safe)

lemma nestedPackets_safe [ub_free]:
  "bodyBegin + bodyLength \<le> length data \<Longrightarrow> safe (nestedPackets L depth tag data bodyBegin bodyLength)"
  by (auto simp: nestedPackets_def intro!: safe_if safe_bind safe_on_true decompressForInspection_safe
      reassemblePartialBodyLengths_safe)

lemma inspectPacketSequence_safe [ub_free]:
  "stop = length data \<Longrightarrow> safe (inspectPacketSequence L depth data pos stop out)"
proof (induction L depth data pos stop out rule: inspectPacketSequence.induct)
  case (1 L depth data pos stop out)
  show ?case
  proof (cases "pos \<ge> stop")
    case False
    show ?thesis
    proof (cases rule: safe_cases [OF readPacketHeader_safe [of data pos "Some stop" False]])
      case 1
      with False show ?thesis by (subst inspectPacketSequence.simps) simp
    next
      case (2 v)
      obtain tag n p part where v: "v = (tag, n, p, part)" by (cases v)
      note h = 2 [unfolded v]
      have p: "p \<le> stop" using readPacketHeader_pos [OF h] "1.prems" by simp
      show ?thesis
      proof (cases "n > size_sub stop p")
        case True
        with False h show ?thesis by (subst inspectPacketSequence.simps) simp
      next
        case fits: False
        with p have inside: "p + n \<le> length data" using "1.prems" by simp
        then obtain out' where out': "inspectPacket tag data p n (out\<lparr>imSawAnyPacket := True\<rparr>) = Some out'"
          using inspectPacket_safe by (fastforce simp: safe_def)
        note step = False h fits out'
        show ?thesis
        proof (cases rule: safe_cases [OF nestedPackets_safe [OF inside, of L depth tag]])
          case 1
          have "safe (inspectPacketSequence L depth data (p + n) stop out')"
            using "1.IH"(1) [OF False h refl refl refl refl fits out' 1 refl "1.prems"] .
          with step 1 show ?thesis by (subst inspectPacketSequence.simps) simp
        next
          case (2 inner)
          have "safe (inspectPacketSequence L (depth - 1) inner 0 (length inner) out')"
            using "1.IH"(2) [OF False h refl refl refl refl fits out' 2 refl refl] .
          then obtain out'' where o: "inspectPacketSequence L (depth - 1) inner 0 (length inner) out' = Some out''"
            by (auto simp: safe_def)
          have "safe (inspectPacketSequence L depth data (p + n) stop out'')"
            using "1.IH"(3) [OF False h refl refl refl refl fits out' 2 refl o "1.prems"] .
          with step 2 o show ?thesis by (subst inspectPacketSequence.simps) simp
        qed
      qed
    qed
  qed (subst inspectPacketSequence.simps, simp)
qed

lemma inspectMessageBuffer_safe [ub_free]: "safe (inspectMessageBuffer L input)"
proof -
  have "safe (decodeInspectionInputToBinary input)"
    by (auto simp: decodeInspectionInputToBinary_def Let_def intro!: safe_if safe_on_true armorDecode_safe split: option.split)
  then show ?thesis
    by (auto simp: inspectMessageBuffer_def Let_def intro!: safe_if safe_on_true safe_bind inspectPacketSequence_safe
        reassemblePartialBodyLengths_safe)
qed

section \<open>Reading written subpackets\<close>

lemma readSignatureSubpacketLength_written:
  assumes n: "n < 4294967296" and data: "data = pre @ appendNewFormatLength [] n @ post" "pos = length pre"
    and stop: "pos + newFormatLengthOctets n \<le> stop"
  shows "readSignatureSubpacketLength data pos stop = yes (n, pos + newFormatLengthOctets n)"
proof -
  have at: "byte_at data (pos + i) = byte_at (appendNewFormatLength [] n @ post) i" for i
    unfolding data by simp
  have at0: "byte_at data pos = byte_at (appendNewFormatLength [] n @ post) 0"
    "byte_at data (Suc pos) = byte_at (appendNewFormatLength [] n @ post) 1"
    "byte_at data (Suc (Suc pos)) = byte_at (appendNewFormatLength [] n @ post) 2"
    using at [of 0] at [of 1] at [of 2] by simp_all
  consider "n < 192" | "192 \<le> n" "n < 8384" | "8384 \<le> n" by linarith
  then show ?thesis
  proof cases
    case 1
    then show ?thesis
      using stop by (simp add: at0 appendNewFormatLength_def newFormatLengthOctets_def readSignatureSubpacketLength_def
        word_less_nat_alt)
  next
    case 2
    from two_octet_first [OF 2] 2 stop show ?thesis
      by (simp add: at at0 appendNewFormatLength_def newFormatLengthOctets_def readSignatureSubpacketLength_def
        word_less_nat_alt Let_def nat_and_255 push_bit_eq_mult)
  next
    case 3
    with n stop show ?thesis
      by (simp add: at at0 appendNewFormatLength_def newFormatLengthOctets_def readSignatureSubpacketLength_def
        word_less_nat_alt appendBigEndian32_def be32_eq unat_low_byte32 unat_drop_bit_word be32_digits)
  qed
qed

text \<open>One round of the search over a subpacket that \<open>appendSubpacket\<close> wrote.\<close>

lemma eachSubpacket_written:
  assumes b: "length b < 4294967295" and data: "data = pre @ appendSubpacket [] t b @ post" "pos = length pre"
    and stop: "pos + length (appendSubpacket [] t b) \<le> stop"
    and step: "\<And>H p. data = H @ t # b @ post \<Longrightarrow> p = length H \<Longrightarrow> step data p (Suc (length b)) acc = Some (acc', found)"
  shows "eachSubpacket step data pos stop acc =
    (if found then Some acc' else eachSubpacket step data (pos + length (appendSubpacket [] t b)) stop acc')"
proof -
  let ?n = "length b + 1"
  let ?p = "pos + newFormatLengthOctets ?n"
  have sub: "appendSubpacket [] t b = appendNewFormatLength [] ?n @ t # b"
    by (simp add: appendSubpacket_def appendAll_def)
  have len: "length (appendSubpacket [] t b) = newFormatLengthOctets ?n + ?n"
    by (simp add: length_appendSubpacket)
  have "newFormatLengthOctets ?n > 0" by (simp add: newFormatLengthOctets_def)
  then have lt: "\<not> pos \<ge> stop" "\<not> (?n = 0 \<or> ?p + ?n > stop)" using stop len by auto
  have l: "readSignatureSubpacketLength data pos stop = yes (?n, ?p)"
    by (rule readSignatureSubpacketLength_written [of _ _ pre "(t # b) @ post"]) (use b data stop len sub in simp_all)
  have "step data ?p ?n acc = Some (acc', found)"
    using step [of "pre @ appendNewFormatLength [] ?n" ?p] data sub by (simp add: length_newFormatLength)
  with l lt show ?thesis
    by (subst eachSubpacket.simps) (simp add: len add.assoc)
qed

lemma eachSubpacket_end [simp]: "stop \<le> pos \<Longrightarrow> eachSubpacket step data pos stop acc = Some acc"
  by (subst eachSubpacket.simps) simp

lemma subpacket_at:
  assumes "data = H @ t # b @ post" "p = length H"
  shows "byte_at data p = Some t" "i < length b \<Longrightarrow> byte_at data (p + 1 + i) = Some (b ! i)"
    "i \<le> j \<Longrightarrow> j \<le> length b \<Longrightarrow> slice data (p + 1 + i) (p + 1 + j) = Some (take (j - i) (drop i b))"
  unfolding assms by (simp_all add: byte_at_def nth_append)

lemma reason_step:
  assumes "data = H @ t # b @ post" "p = length H"
  shows "reasonSubpacket data p (Suc (length b)) acc =
    (if t AND 0x7F = 29 \<and> b \<noteq> [] then Some (Some (hd b, tl b), True) else Some (acc, False))"
  using subpacket_at(1) [OF assms] subpacket_at(2) [OF assms, of 0] subpacket_at(3) [OF assms, of 1 "length b"]
  by (cases b) (auto simp: reasonSubpacket_def Let_def)

lemma issuer_step:
  assumes "data = H @ t # b @ post" "p = length H" "t AND 0x7F = 16 \<Longrightarrow> length b = 8 \<Longrightarrow> \<not> ex" "t AND 0x7F \<noteq> 33"
  shows "issuerSubpacket data p (Suc (length b)) (found, ex) =
    (if t AND 0x7F = 16 \<and> length b = 8 then Some ((Some b, True), False) else Some ((found, ex), False))"
  using subpacket_at(1) [OF assms(1,2)] subpacket_at(3) [OF assms(1,2), of 0 8] assms(3,4)
  by (auto simp: issuerSubpacket_def Let_def)

lemma each_reason:
  assumes "length b < 4294967295" "data = pre @ appendSubpacket [] t b @ post" "pos = length pre"
    and "pos + length (appendSubpacket [] t b) \<le> stop"
  shows "eachSubpacket reasonSubpacket data pos stop acc =
    (if t AND 0x7F = 29 \<and> b \<noteq> [] then Some (Some (hd b, tl b))
     else eachSubpacket reasonSubpacket data (pos + length (appendSubpacket [] t b)) stop acc)"
proof -
  have "reasonSubpacket data p (Suc (length b)) acc =
      Some (if t AND 0x7F = 29 \<and> b \<noteq> [] then Some (hd b, tl b) else acc, t AND 0x7F = 29 \<and> b \<noteq> [])"
    if "data = H @ t # b @ post" "p = length H" for H p
    using reason_step [OF that, of acc] by simp
  from eachSubpacket_written [where step = reasonSubpacket and acc = acc, OF assms this] show ?thesis by simp
qed

lemma each_issuer:
  assumes "length b < 4294967295" "data = pre @ appendSubpacket [] t b @ post" "pos = length pre"
    and "pos + length (appendSubpacket [] t b) \<le> stop" and "t AND 0x7F \<noteq> 33"
  shows "eachSubpacket issuerSubpacket data pos stop (found, False) =
    eachSubpacket issuerSubpacket data (pos + length (appendSubpacket [] t b)) stop
      (if t AND 0x7F = 16 \<and> length b = 8 then (Some b, True) else (found, False))"
proof -
  have "issuerSubpacket data p (Suc (length b)) (found, False) =
      Some (if t AND 0x7F = 16 \<and> length b = 8 then (Some b, True) else (found, False), False)"
    if "data = H @ t # b @ post" "p = length H" for H p
    using issuer_step [OF that, of False found] assms(5) by simp
  from eachSubpacket_written [where step = issuerSubpacket and acc = "(found, False)", OF assms(1-4) this] show ?thesis by simp
qed

section \<open>Written signatures\<close>

text \<open>A subpacket area, and one that names no issuer.\<close>

definition subpackets :: "(byte \<times> bytes) list \<Rightarrow> bytes" where
  "subpackets ps = concat (map (\<lambda>(t, b). appendSubpacket [] t b) ps)"

definition anonymous :: "(byte \<times> bytes) list \<Rightarrow> bool" where
  "anonymous ps \<longleftrightarrow> (\<forall>(t, b) \<in> set ps. t AND 0x7F \<noteq> 16 \<and> t AND 0x7F \<noteq> 33 \<and> length b < 4294967295)"

lemma issuer_skip:
  assumes "anonymous ps" "data = pre @ subpackets ps @ post" "pos = length pre" "stop = pos + length (subpackets ps)"
  shows "eachSubpacket issuerSubpacket data pos stop (None, False) = Some (None, False)"
  using assms
proof (induction ps arbitrary: pre pos)
  case (Cons tb ps)
  obtain t b where tb: "tb = (t, b)" by (cases tb)
  let ?sub = "appendSubpacket [] t b"
  have t: "t AND 0x7F \<noteq> 16" "t AND 0x7F \<noteq> 33" "length b < 4294967295" "anonymous ps"
    using Cons.prems(1) by (simp_all add: anonymous_def tb)
  have split: "subpackets (tb # ps) = ?sub @ subpackets ps" by (simp add: subpackets_def tb)
  have "eachSubpacket issuerSubpacket data pos stop (None, False)
      = eachSubpacket issuerSubpacket data (pos + length ?sub) stop (None, False)"
    using each_issuer [OF t(3), of data pre t "subpackets ps @ post" pos stop None] Cons.prems split t by simp
  also have "\<dots> = Some (None, False)"
    using Cons.IH [of "pre @ ?sub" "pos + length ?sub"] Cons.prems split t(4) by simp
  finally show ?case .
qed (simp add: subpackets_def)

definition bodyHead :: "byte \<Rightarrow> byte \<Rightarrow> byte \<Rightarrow> bytes \<Rightarrow> bytes" where
  "bodyHead t p h s = [4, t, p, h] @ appendBigEndian16 [] (word_of_nat (length s))"

lemma bodyHead [simp]: "length (bodyHead t p h s) = 6"
  by (simp add: bodyHead_def)

lemma signatureBody_head:
  "signatureBody t p h s u l m = bodyHead t p h s @ s @ putCounted16 u @ [l ! 0, l ! 1] @ m"
  by (simp add: signatureBody_eq putCounted16_def bodyHead_def)

lemma hashedLength_written:
  assumes "length s < 65536" "data = pre @ signatureBody t p h s u l m @ post" "pos = length pre"
  shows "readBigEndian16 data (pos + 4) = Some (length s)" "byte_at data pos = Some 4"
    "byte_at data (pos + 1) = Some t" "byte_at data (pos + 3) = Some h"
proof -
  define H where "H = pre @ [4, t, p, h]"
  have H: "length H = pos + 4" by (simp add: H_def assms(3))
  have "data = H @ appendBigEndian16 [] (word_of_nat (length s)) @ s @ putCounted16 u @ [l ! 0, l ! 1] @ m @ post"
    by (simp add: assms(2) signatureBody_head bodyHead_def H_def)
  then show "readBigEndian16 data (pos + 4) = Some (length s)"
    using readBigEndian16_appendBigEndian16 [of H "word_of_nat (length s)" "s @ putCounted16 u @ [l ! 0, l ! 1] @ m @ post"]
      H assms(1) by (simp add: unat_of_nat)
  show "byte_at data pos = Some 4" "byte_at data (pos + 1) = Some t" "byte_at data (pos + 3) = Some h"
    by (simp_all add: assms signatureBody_head bodyHead_def byte_at_def nth_append)
qed

lemma reason_read:
  assumes fits: "reason_fits why"
    and small: "length (signatureBody t p h (signatureHashedSubpackets now (buildRevocationReasonSubpacket code why)) u l m) < 4294967296"
  shows "findRevocationReasonInSignaturePacket (writePacket PGP_TAG_SIGNATURE
      (signatureBody t p h (signatureHashedSubpackets now (buildRevocationReasonSubpacket code why)) u l m))
    = yes (code, case why of None \<Rightarrow> [] | Some w \<Rightarrow> w)"
proof -
  define reason where "reason = code # (case why of None \<Rightarrow> [] | Some w \<Rightarrow> w)"
  define hs where "hs = signatureHashedSubpackets now (buildRevocationReasonSubpacket code why)"
  define body where "body = signatureBody t p h hs u l m"
  let ?packet = "writePacket PGP_TAG_SIGNATURE body"
  let ?time = "appendSubpacket [] 2 (appendBigEndian32 [] now)" and ?reason = "appendSubpacket [] 29 reason"
  have hs: "hs = ?time @ ?reason"
    by (simp add: hs_def signatureHashedSubpackets_def appendAll_def buildRevocationReasonSubpacket_def reason_def)
  have lens: "length hs < 65536" "length ?time = 6" "length reason < 65522"
    using length_reasonSubpacket [OF fits, of code] fits
    by (auto simp: hs_def length_signatureHashedSubpackets length_appendSubpacket newFormatLengthOctets_def reason_def
        reason_fits_def split: option.split)
  have "length body < 4294967296" using small by (simp add: body_def hs_def)
  from readPacketHeader_at [OF _ this, of PGP_TAG_SIGNATURE ?packet "[]" "[]" 0]
  obtain n where header: "readPacketHeader ?packet 0 None False = yes (PGP_TAG_SIGNATURE, length body, 1 + n, False)"
    and n: "n = newFormatLengthOctets (length body)"
    by simp
  define H where "H = (0xC0 OR PGP_TAG_SIGNATURE) # appendNewFormatLength [] (length body)"
  have H: "?packet = H @ body" "length H = 1 + n"
    by (simp_all add: writePacket_eq H_def n length_newFormatLength)
  note fields = hashedLength_written [OF lens(1), of ?packet H t p h u l m "[]" "1 + n", folded body_def]
  define R where "R = putCounted16 u @ [l ! 0, l ! 1] @ m"
  have packet: "?packet = (H @ bodyHead t p h hs) @ ?time @ ?reason @ R"
    unfolding H(1) by (simp add: body_def signatureBody_head hs R_def)
  let ?start = "1 + n + 6" and ?stop = "1 + n + 6 + length hs"
  have "eachSubpacket reasonSubpacket ?packet ?start ?stop None = eachSubpacket reasonSubpacket ?packet (?start + 6) ?stop None"
    using each_reason [of "appendBigEndian32 [] now" ?packet "H @ bodyHead t p h hs" 2 "?reason @ R" ?start ?stop None]
      packet H(2) lens hs by simp
  also have "\<dots> = Some (Some (hd reason, tl reason))"
    using each_reason [of reason ?packet "H @ bodyHead t p h hs @ ?time" 29 R "?start + 6" ?stop None]
      packet H(2) lens hs by (simp add: reason_def)
  finally have search: "findRevocationReasonInSubpackets ?packet ?start ?stop = yes (hd reason, tl reason)"
    by (simp add: findRevocationReasonInSubpackets_def)
  have sizes: "length ?packet = 1 + n + length body" "6 + length hs \<le> length body"
    using H by (simp_all add: body_def signatureBody_head)
  show ?thesis
    unfolding hs_def [symmetric] body_def [symmetric] findRevocationReasonInSignaturePacket_def header on_true_simps prod.case
    using fields H(1,2) sizes search by (simp add: reason_def add.assoc)
qed

lemma putCounted16_parts: "putCounted16 s = appendBigEndian16 [] (word_of_nat (length s)) @ s"
  by (simp add: putCounted16_def)

lemma issuer_read:
  assumes ps: "anonymous ps" "length (subpackets ps) < 65536" and issuer: "length issuer = 8"
  shows "inspectSignaturePacketBody (signatureBody t p h (subpackets ps) (appendSubpacket [] 16 issuer) l m)
    = yes \<lparr> isHaveIssuerKeyId = True, isIssuerKeyId = issuer, isSignatureType = t, isHashAlgorithm = h \<rparr>"
proof -
  let ?hs = "subpackets ps" and ?us = "appendSubpacket [] 16 issuer"
  define body where "body = signatureBody t p h ?hs ?us l m"
  define R where "R = [l ! 0, l ! 1] @ m"
  let ?pos = "6 + length ?hs"
  have us: "length ?us = 10" by (rule length_issuerSubpacket [OF issuer])
  have body: "body = bodyHead t p h ?hs @ ?hs @ putCounted16 ?us @ R"
    by (simp add: body_def signatureBody_head R_def)
  define H where "H = bodyHead t p h ?hs @ ?hs"
  have H: "body = H @ appendBigEndian16 [] (word_of_nat (length ?us)) @ ?us @ R" "length H = ?pos"
    by (simp_all add: body H_def putCounted16_parts)
  note fields = hashedLength_written [OF ps(2), of body "[]" t p h "?us" l m "[]" 0, folded body_def, simplified]
  have len: "\<not> length body < 6" "\<not> ?pos + 2 + length ?us > length body" "body \<noteq> []"
    using H us by (auto simp del: H_def)
  then have first: "body ! 0 = 4" using fields(2) by (simp add: byte_at_def)
  have hashed: "findIssuerKeyIdInSubpackets body 6 ?pos = no"
    using issuer_skip [OF ps(1), of body "bodyHead t p h ?hs" "putCounted16 ?us @ R" 6 ?pos] body
    by (simp add: findIssuerKeyIdInSubpackets_def)
  have "readBigEndian16 body ?pos = Some (length ?us)"
    using readBigEndian16_appendBigEndian16 [of H "word_of_nat (length ?us)" "?us @ R"] H us by (simp add: unat_of_nat)
  moreover have "findIssuerKeyIdInSubpackets body (?pos + 2) (?pos + 2 + length ?us) = yes issuer"
    using each_issuer [of issuer body "H @ appendBigEndian16 [] (word_of_nat (length ?us))" 16 R "?pos + 2" "?pos + 2 + length ?us" None]
      H us issuer by (simp add: findIssuerKeyIdInSubpackets_def)
  ultimately have unhashed: "unhashedIssuer body ?pos = yes issuer"
    using len by (simp add: unhashedIssuer_def)
  have "inspectV4 body = yes \<lparr> isHaveIssuerKeyId = True, isIssuerKeyId = issuer, isSignatureType = t, isHashAlgorithm = h \<rparr>"
    using fields len hashed unhashed
    by (simp add: inspectV4_def withIssuer_def newInspectedSignature_def)
  then show ?thesis
    using len first by (simp add: inspectSignaturePacketBody_def flip: body_def)
qed

lemma hashedSubpackets_list:
  "signatureHashedSubpackets now (subpackets ps) = subpackets ((2, appendBigEndian32 [] now) # ps)"
  by (simp add: signatureHashedSubpackets_def appendAll_def subpackets_def)

lemma anonymous_time: "anonymous ps \<Longrightarrow> anonymous ((2, appendBigEndian32 [] now) # ps)"
  by (simp add: anonymous_def appendBigEndian32_def)

text \<open>The issuer of the packets that the engine builds.\<close>

lemma issuer_of_packet:
  assumes ps: "anonymous ps" "length (subpackets ps) < 65530" and issuer: "length issuer = 8"
    and body: "body = signatureBody t p h (signatureHashedSubpackets now (subpackets ps)) (appendSubpacket [] 16 issuer) l m"
    and small: "length body < 4294967296"
  shows "findIssuerKeyIdOfSignaturePacket (writePacket PGP_TAG_SIGNATURE body) = yes issuer"
proof -
  let ?packet = "writePacket PGP_TAG_SIGNATURE body"
  have "length (subpackets ((2, appendBigEndian32 [] now) # ps)) < 65536"
    using ps(2) by (simp add: length_signatureHashedSubpackets flip: hashedSubpackets_list)
  from issuer_read [OF anonymous_time [OF ps(1)] this issuer]
  have inspected: "inspectSignaturePacketBody body
      = yes \<lparr> isHaveIssuerKeyId = True, isIssuerKeyId = issuer, isSignatureType = t, isHashAlgorithm = h \<rparr>"
    by (simp add: body hashedSubpackets_list)
  from readPacketHeader_at [OF _ small, of PGP_TAG_SIGNATURE ?packet "[]" "[]" 0]
  obtain n where header: "readPacketHeader ?packet 0 None False = yes (PGP_TAG_SIGNATURE, length body, 1 + n, False)"
    and n: "n = newFormatLengthOctets (length body)"
    by simp
  have "?packet = ((0xC0 OR PGP_TAG_SIGNATURE) # appendNewFormatLength [] (length body)) @ body @ []"
    by (simp add: writePacket_eq)
  moreover have "length ((0xC0 OR PGP_TAG_SIGNATURE) # appendNewFormatLength [] (length body)) = 1 + n"
    by (simp add: n length_newFormatLength)
  ultimately have "slice ?packet (1 + n) (1 + n + length body) = Some body"
    by (metis slice_append)
  then show ?thesis
    using header inspected by (simp add: findIssuerKeyIdOfSignaturePacket_def slice_Some)
qed

section \<open>Inspecting a sealed message\<close>

lemma inspectPacketSequence_end [simp]: "stop \<le> pos \<Longrightarrow> inspectPacketSequence L depth data pos stop out = Some out"
  by (subst inspectPacketSequence.simps) simp

lemma inspect_step:
  assumes packet: "unat tag < 64" "length body < 4294967296" "data = pre @ writePacket tag body @ post" "pos = length pre"
    and stop: "stop = length data"
    and this_packet: "\<And>H p. data = H @ body @ post \<Longrightarrow> p = length H \<Longrightarrow>
      inspectPacket tag data p (length body) (out\<lparr>imSawAnyPacket := True\<rparr>) = Some out'"
    and tag: "tag \<noteq> PGP_TAG_COMPRESSED_DATA"
  shows "inspectPacketSequence L depth data pos stop out
    = inspectPacketSequence L depth data (pos + length (writePacket tag body)) stop out'"
proof -
  define n where "n = newFormatLengthOctets (length body)"
  note h = readPacketHeader_at [OF packet, folded n_def]
  define H where "H = pre @ (0xC0 OR tag) # appendNewFormatLength [] (length body)"
  have H: "data = H @ body @ post" "length H = pos + 1 + n"
    by (simp_all add: packet(3,4) writePacket_eq H_def n_def length_newFormatLength)
  have len: "length (writePacket tag body) = 1 + n + length body" by (simp add: length_writePacket n_def)
  have bounds: "\<not> pos \<ge> stop" "pos + 1 + n + length body \<le> stop"
    using packet(3,4) stop len by simp_all
  have "inspectPacket tag data (pos + 1 + n) (length body) (out\<lparr>imSawAnyPacket := True\<rparr>) = Some out'"
    by (rule this_packet [OF H(1)]) (simp add: H(2))
  moreover have "nestedPackets L depth tag data (pos + 1 + n) (length body) = no"
    using tag by (simp add: nestedPackets_def)
  ultimately show ?thesis
    using h(1) [of "Some stop" False] bounds len by (subst inspectPacketSequence.simps) (simp add: add.assoc)
qed

lemma inspectPkesk_body:
  assumes "length k = 8" "data = H @ pkeskBody k a m @ post" "p = length H"
  shows "inspectPkesk data p (length (pkeskBody k a m)) out
    = Some (out\<lparr>imHasPkesk := True, imRecipientKeyIds := imRecipientKeyIds out @ [k]\<rparr>)"
proof -
  have "byte_at data p = Some 3" "slice data (p + 1) (p + 9) = Some k"
    using slice_append [of "H @ [3]" k "[a] @ m @ post"] assms by (simp_all add: pkeskBody_def)
  moreover have "\<not> length (pkeskBody k a m) < 10" using assms(1) by (simp add: pkeskBody_def)
  ultimately show ?thesis by (simp add: inspectPkesk_def Let_def)
qed

lemma inspect_pkesks:
  assumes "\<forall>(k, a, m) \<in> set ps. length k = 8 \<and> length m \<le> 8193"
    and "data = pre @ pkeskSequence ps @ post" "pos = length pre" "stop = length data"
  shows "inspectPacketSequence L depth data pos stop out
    = inspectPacketSequence L depth data (pos + length (pkeskSequence ps)) stop
        (if ps = [] then out else out\<lparr>imSawAnyPacket := True, imHasPkesk := True,
           imRecipientKeyIds := imRecipientKeyIds out @ map fst ps\<rparr>)"
  using assms
proof (induction ps arbitrary: pre pos out)
  case (Cons x ps)
  obtain k a m where x: "x = (k, a, m)" by (cases x) auto
  have k: "length k = 8" "length m \<le> 8193" and ps: "\<forall>(k, a, m) \<in> set ps. length k = 8 \<and> length m \<le> 8193"
    using Cons.prems(1) by (auto simp: x)
  let ?packet = "writePacket PGP_TAG_PKESK (pkeskBody k a m)"
  let ?out = "out\<lparr>imSawAnyPacket := True, imHasPkesk := True, imRecipientKeyIds := imRecipientKeyIds out @ [k]\<rparr>"
  have data: "data = pre @ ?packet @ pkeskSequence ps @ post" using Cons.prems(2) by (simp add: pkeskSequence_def x)
  have "length (pkeskBody k a m) < 4294967296" using k by (simp add: pkeskBody_def)
  then have "inspectPacketSequence L depth data pos stop out
      = inspectPacketSequence L depth data (pos + length ?packet) stop ?out"
    by (rule inspect_step [OF tags_small(1) _ data Cons.prems(3,4)])
      (simp_all add: inspectPacket_def inspectPkesk_body [OF k(1)] PGP_TAG_PKESK_def PGP_TAG_COMPRESSED_DATA_def)
  also have "\<dots> = inspectPacketSequence L depth data (pos + length ?packet + length (pkeskSequence ps)) stop
        (if ps = [] then ?out else ?out\<lparr>imSawAnyPacket := True, imHasPkesk := True,
           imRecipientKeyIds := imRecipientKeyIds ?out @ map fst ps\<rparr>)"
    by (rule Cons.IH [OF ps, of "pre @ ?packet"]) (use data Cons.prems(3,4) in simp_all)
  finally show ?case
    by (simp add: x pkeskSequence_def add.assoc split: if_splits)
qed (simp add: pkeskSequence_def)

lemma inspect_sealed:
  assumes lib: "messageLib_ok L" "messageDraws_ok M" and keys: "keysFor L M 0 Ks rcs" "rcs \<noteq> []"
    and packets: "length (deflate L packets) < 4294960000" and seal: "sealMessage L M rcs cipher packets = Some message"
  shows "inspectMessageBuffer L message = yes (newInspectedMessage\<lparr>imSawAnyPacket := True, imHasPkesk := True,
    imHasIntegrityProtectedData := True, imRecipientKeyIds := map okKeyId Ks\<rparr>)"
proof -
  obtain ps where ps: "message = pkeskSequence ps @ writePacket PGP_TAG_SEIP (seipBody L M cipher packets)"
    "list_all2 (\<lambda>p K. opensFor L K (sessionKeyPlain cipher (mdSessionKey M (pgpSymmetricSessionKeyLength cipher))) p) ps Ks"
    "\<forall>(k, a, m) \<in> set ps. length k = 8 \<and> length m \<le> 8193" "length (seipBody L M cipher packets) < 4294967296"
    "reassemblePartialBodyLengths message = no"
    using sealMessage_shape [OF lib keys(1) packets, of cipher] seal by auto
  have "Ks \<noteq> []" using keys by (cases Ks; cases rcs) simp_all
  then have some: "ps \<noteq> []" using ps(2) by auto
  have ids: "map fst ps = map okKeyId Ks"
    using ps(2) by (induction rule: list_all2_induct) (auto simp: opensFor_def)
  obtain k a m ps' where first: "ps = (k, a, m) # ps'" using some by (cases ps) auto
  then obtain rest where rest: "message = 0xC1 # rest"
    by (simp add: ps(1) pkeskSequence_def writePacket_eq PGP_TAG_PKESK_def)
  have dash: "of_text dashes = 0x2D # of_text ''----''" by (simp add: of_text_def dashes_def)
  have binary: "decodeInspectionInputToBinary message = yes message"
    by (simp add: decodeInspectionInputToBinary_def rest dash)
  let ?seip = "writePacket PGP_TAG_SEIP (seipBody L M cipher packets)"
  let ?out = "newInspectedMessage\<lparr>imSawAnyPacket := True, imHasPkesk := True, imRecipientKeyIds := map okKeyId Ks\<rparr>"
  have "inspectPacketSequence L 3 message 0 (length message) newInspectedMessage
      = inspectPacketSequence L 3 message (length (pkeskSequence ps)) (length message) ?out"
    using inspect_pkesks [OF ps(3), of message "[]" ?seip 0 "length message" L 3 newInspectedMessage] some ids
    by (simp add: ps(1) newInspectedMessage_def)
  also have "\<dots> = inspectPacketSequence L 3 message (length (pkeskSequence ps) + length ?seip) (length message)
      (?out\<lparr>imHasIntegrityProtectedData := True\<rparr>)"
    by (rule inspect_step [OF tags_small(2) ps(4), of _ "pkeskSequence ps" "[]"])
      (simp_all add: ps(1) inspectPacket_def PGP_TAG_SEIP_def PGP_TAG_PKESK_def PGP_TAG_SKESK_def PGP_TAG_COMPRESSED_DATA_def)
  also have "\<dots> = Some (?out\<lparr>imHasIntegrityProtectedData := True\<rparr>)" by (simp add: ps(1))
  finally have walk: "inspectPacketSequence L 3 message 0 (length message) newInspectedMessage
    = Some (?out\<lparr>imHasIntegrityProtectedData := True\<rparr>)" .
  show ?thesis
    unfolding inspectMessageBuffer_def binary on_true_simps using rest walk ps(5) by simp
qed


section \<open>Properties\<close>

text \<open>C29: No input makes the inspection functions read outside it, whatever it holds: armored or binary,
  truncated, with hostile lengths or nested compressed packets; and the walk always ends.\<close>

theorem inspection_in_bounds:
  "safe (inspectMessageBuffer L input) \<and> safe (findIssuerKeyIdOfSignaturePacket input)
   \<and> safe (findRevocationReasonInSignaturePacket input)
   \<and> safe (selectPeerVerificationKeyMaterial input master masterKeyId subkeys)"
  by (intro conjI inspectMessageBuffer_safe findIssuerKeyIdOfSignaturePacket_safe
      findRevocationReasonInSignaturePacket_safe selectPeerVerificationKeyMaterial_safe)

text \<open>C24: Inspecting an encrypted message without any key reports that it is public-key encrypted and
  integrity protected, and lists exactly the key IDs of its recipients, in order; nothing of the
  compressed or signed content shows.\<close>

theorem inspection_lists_the_recipients:
  assumes "messageLib_ok L" "messageDraws_ok M" "keysFor L M 0 Ks recipients" "recipients \<noteq> []"
    and "length (deflate L content) < 4294960000"
  shows "\<exists>message. sealMessage L M recipients cipher content = Some message
    \<and> inspectMessageBuffer L message = yes (newInspectedMessage\<lparr>imSawAnyPacket := True, imHasPkesk := True,
        imHasIntegrityProtectedData := True, imRecipientKeyIds := map okKeyId Ks\<rparr>)"
  using sealMessage_shape [OF assms(1-3,5), of cipher] inspect_sealed [OF assms] by blast

lemma inspection_lists_the_recipients_witness:
  "\<exists>message out. inspectMessageBuffer sample_lib message = yes out
     \<and> imRecipientKeyIds out = [replicate 8 1, replicate 8 2] \<and> imHasIntegrityProtectedData out"
proof -
  have "length (deflate sample_lib [1, 2, 3]) < 4294960000" by (simp add: sample_deflate)
  from inspection_lists_the_recipients [OF sample_message(1-3) _ this] obtain message where
    "inspectMessageBuffer sample_lib message = yes (newInspectedMessage\<lparr>imSawAnyPacket := True, imHasPkesk := True,
        imHasIntegrityProtectedData := True, imRecipientKeyIds := map okKeyId [sample_x_own, sample_rsa_own]\<rparr>)" by auto
  then show ?thesis
    by (intro exI [of _ message]) (simp add: sample_x_own_def sample_rsa_own_def)
qed

end
