(* ===== verification/KeyPairs.thy ===== *)
theory KeyPairs
  imports Lifecycle
begin

unbundle bit_operations_syntax

text \<open>
  A second invariant of the object's life: every own subkey is a key pair of the object's
  algorithm, and its flags say what the pair can do. It is what decryption and signing with a
  subkey rest on.
\<close>

section \<open>The invariant\<close>

definition pair_ok :: "crypto \<Rightarrow> key_algorithm \<Rightarrow> own_subkey \<Rightarrow> bool" where
  "pair_ok L alg k \<longleftrightarrow>
     (if alg = PGP_KEY_ALGORITHM_RSA
      then skRsaPublicKey k = rsaPublicOf (skRsaPrivateKey k) \<and> rsa_sign_ok L (skRsaPrivateKey k)
        \<and> minEncodedSize (rsaModulus (skRsaPrivateKey k)) \<le> 8191
      else if skIsEd25519Sign k
      then skKeyFlags k = 0x02 \<and> skEd25519PublicKey k = edPublic L (skEd25519PrivateKey k) \<and> ed_sign_ok L (skEd25519PrivateKey k)
      else skKeyFlags k = 0x0C \<and> skX25519PublicKey k = xPublic L (skX25519PrivateKey k))"

definition pairs_inv :: "crypto \<Rightarrow> engine \<Rightarrow> bool" where
  "pairs_inv L S \<longleftrightarrow> (ownKeyGenerated S \<longrightarrow> (\<forall>k \<in> set (ownSubkeys S). pair_ok L (keyAlgorithm S) k))"

text \<open>The part of a subkey that the invariant is about.\<close>

definition pairView :: "own_subkey \<Rightarrow> rsa_key \<times> rsa_public \<times> bytes \<times> bytes \<times> bytes \<times> bytes \<times> bool \<times> byte" where
  "pairView k = (skRsaPrivateKey k, skRsaPublicKey k, skX25519PrivateKey k, skX25519PublicKey k,
     skEd25519PrivateKey k, skEd25519PublicKey k, skIsEd25519Sign k, skKeyFlags k)"

lemma pair_ok_view: "pairView k = pairView k' \<Longrightarrow> pair_ok L alg k = pair_ok L alg k'"
  by (simp add: pairView_def pair_ok_def)

lemma pairView_frame [simp]:
  "pairView (k\<lparr>skBindingSigPacket := b\<rparr>) = pairView k" "pairView (k\<lparr>skExpirationSeconds := e\<rparr>) = pairView k"
  "pairView (k\<lparr>skRevocationSigPacket := b\<rparr>) = pairView k" "pairView (k\<lparr>skIsRevoked := r\<rparr>) = pairView k"
  "pairView (k\<lparr>skSecretPacketBody := b\<rparr>) = pairView k"
  by (simp_all add: pairView_def)

definition samePairs :: "engine \<Rightarrow> engine \<Rightarrow> bool" where
  "samePairs S S' \<longleftrightarrow> keyAlgorithm S' = keyAlgorithm S \<and> ownKeyGenerated S' = ownKeyGenerated S
     \<and> map pairView (ownSubkeys S') = map pairView (ownSubkeys S)"

lemma samePairs_refl [simp]: "samePairs S S"
  by (simp add: samePairs_def)

lemma samePairs_inv:
  assumes "samePairs S S'" "pairs_inv L S"
  shows "pairs_inv L S'"
proof -
  have "pair_ok L (keyAlgorithm S') k" if "ownKeyGenerated S'" "k \<in> set (ownSubkeys S')" for k
  proof -
    from that(2) have "pairView k \<in> set (map pairView (ownSubkeys S'))" by simp
    also have "map pairView (ownSubkeys S') = map pairView (ownSubkeys S)" using assms(1) by (simp add: samePairs_def)
    finally obtain k0 where "k0 \<in> set (ownSubkeys S)" "pairView k = pairView k0" by auto
    then show ?thesis using that(1) assms pair_ok_view [of k k0] by (simp add: samePairs_def pairs_inv_def)
  qed
  then show ?thesis by (simp add: pairs_inv_def)
qed

section \<open>Operations that keep the pairs\<close>

lemma map_update_same: "f x = f (xs ! i) \<Longrightarrow> map f (xs[i := x]) = map f xs"
  by (metis list_update_beyond list_update_id map_update not_less nth_map)

lemma samePairs_subkeys:
  "map pairView ks = map pairView (ownSubkeys S) \<Longrightarrow> samePairs S (S\<lparr>ownSubkeys := ks\<rparr>)"
  by (simp add: samePairs_def)

lemma uid_ops_pairs:
  "samePairs S (snd (SetPrimaryUserId L R S pw i))" "samePairs S (snd (RevokeUserId L R S pw i code why))"
  by (simp_all add: SetPrimaryUserId_def RevokeUserId_def Let_def samePairs_def del: signWithOwnMasterKey_eq)

lemma AddUserId_pairs: "samePairs S (snd (AddUserId L R S pw uid p))"
  using uid_ops_pairs(1)
  by (auto simp: AddUserId_eq withUserId_def samePairs_def)

lemma subkey_ops_pairs:
  "samePairs S (snd (RevokeSubkey L R S pw i code why))" "samePairs S (snd (SetKeyExpiration L R S pw i e))"
  by (auto simp: RevokeSubkey_def SetKeyExpiration_def SetMasterExpiration_def Let_def samePairs_def map_update_same
      split: option.split simp del: signWithOwnMasterKey_eq)

lemma ChangePassword_pairs: "samePairs S (snd (ChangePassword L R S pw new))"
proof -
  have "map pairView (map2 (\<lambda>k body. k\<lparr>skSecretPacketBody := body\<rparr>) ks bs) = map pairView ks" if "length bs = length ks" for ks bs
    using that by (induction ks bs rule: list_induct2') simp_all
  then show ?thesis by (simp add: ChangePassword_def Let_def samePairs_def)
qed

section \<open>Operations that make pairs\<close>

lemma AddSubkey_pairs:
  assumes "draws_ok L R" "pairs_inv L S"
  shows "pairs_inv L (snd (AddSubkey L R S pw flags e))"
  using assms
  by (cases "keyAlgorithm S") (auto simp: AddSubkey_def freshSubkey_def pairs_inv_def pair_ok_def newOwnSubkey_def draws_ok_def Let_def
      split: prod.split simp del: signWithOwnMasterKey_eq)

lemma newborn_subkey:
  "\<exists>k. ownSubkeys (newborn L R S uid pw e) = [k] \<and> skKeyFlags k = 0x0C \<and> \<not> skIsEd25519Sign k
     \<and> (if keyAlgorithm S = PGP_KEY_ALGORITHM_RSA
        then skRsaPrivateKey k = drawRsaKey R 1 \<and> skRsaPublicKey k = rsaPublicOf (drawRsaKey R 1)
        else skX25519PrivateKey k = drawSeed R 1 \<and> skX25519PublicKey k = xPublic L (drawSeed R 1))"
  by (simp add: install_defs newOwnSubkey_def)

lemma newborn_pairs:
  assumes "draws_ok L R"
  shows "pairs_inv L (newborn L R S uid pw e)"
proof -
  have alg: "keyAlgorithm (newborn L R S uid pw e) = keyAlgorithm S" by (simp add: install_defs)
  have d: "rsa_sign_ok L (drawRsaKey R 1)" "minEncodedSize (rsaModulus (drawRsaKey R 1)) \<le> 8191"
    using assms unfolding draws_ok_def by blast+
  obtain k where "ownSubkeys (newborn L R S uid pw e) = [k]" "pair_ok L (keyAlgorithm S) k"
    using newborn_subkey [of L R S uid pw e] d unfolding pair_ok_def by metis
  then show ?thesis by (simp add: pairs_inv_def alg)
qed

lemma samePairs_ownPart: "ownPart S' = ownPart S \<Longrightarrow> samePairs S S'"
  unfolding samePairs_def by (drule arg_cong [where f = "\<lambda>S. (keyAlgorithm S, ownKeyGenerated S, ownSubkeys S)"]) simp

lemma step_pairs:
  assumes "engine_step L S st S'" "lib_ok L" "pairs_inv L S"
  shows "pairs_inv L S'"
  using assms(1)
proof (cases rule: engine_step.cases)
  case (generate R uid pw e)
  with GenerateKeyPair_cases [OF assms(2) generate(1), of S uid pw e] assms(3) newborn_pairs show ?thesis
    by (auto split: if_splits)
next
  case (add_subkey R pw flags e)
  with AddSubkey_pairs [OF add_subkey(1) assms(3), of pw flags e] show ?thesis by simp
next
  case (set_primary R pw i)
  with uid_ops_pairs(1) [of S L R pw i] show ?thesis using samePairs_inv assms(3) by simp
next
  case (add_uid R pw uid p)
  with AddUserId_pairs [of S L R pw uid p] show ?thesis using samePairs_inv assms(3) by simp
next
  case (revoke_uid R why pw i code)
  with uid_ops_pairs(2) [of S L R pw i code why] show ?thesis using samePairs_inv assms(3) by simp
next
  case (revoke_subkey R why pw i code)
  with subkey_ops_pairs(1) [of S L R pw i code why] show ?thesis using samePairs_inv assms(3) by simp
next
  case (set_expiration R pw i e)
  with subkey_ops_pairs(2) [of S L R pw i e] show ?thesis using samePairs_inv assms(3) by simp
next
  case (change_password R pw new)
  with ChangePassword_pairs [of S L R pw new] show ?thesis using samePairs_inv assms(3) by simp
next
  case (import_peer now b)
  then show ?thesis using import_ownPart(1) samePairs_ownPart samePairs_inv assms(3) by metis
next
  case (import_recipient now b)
  then show ?thesis using import_ownPart(2) samePairs_ownPart samePairs_inv assms(3) by metis
next
  case (set_cipher a)
  then show ?thesis using import_ownPart(3) samePairs_ownPart samePairs_inv assms(3) by metis
qed

lemma reachable_pairs: "reachable L S \<Longrightarrow> lib_ok L \<Longrightarrow> pairs_inv L S"
proof (induction rule: reachable.induct)
  case (step S st S')
  then show ?case by (blast intro: step_pairs)
qed (simp_all add: newEngine_def newRsaEngine_def newEngineFor_def pairs_inv_def)

end
