(* ===== verification/EngineFacts.thy ===== *)
theory EngineFacts
  imports EngineMessages InspectionFacts KeyPairs
begin

unbundle bit_operations_syntax

text \<open>
  Two engines that exchange messages: one imports the public block that the other exports,
  encrypts to it and verifies its signatures. The lemmas follow a message from the sender's
  state through the packets to the receiver's state.
\<close>

section \<open>The state after importing an exported block\<close>

lemma decode_binary_block:
  assumes "b \<noteq> 0x2D"
  shows "decodeKeyBlockToBinary (b # bs) = yes (b # bs)"
proof -
  have "of_text dashes = 0x2D # of_text ''----''" by (simp add: of_text_def dashes_def)
  with assms show ?thesis by (simp add: decodeKeyBlockToBinary_def)
qed

lemma exported_block_binary:
  assumes "ownKeyGenerated S"
  obtains bs where "fst (renderOwnKeyBlocks S) = 0xC6 # bs"
  using assms by (simp add: renderOwnKeyBlocks_public writePacket_eq)

lemma import_exported:
  assumes "lib_ok L" "identity_inv L B" "ownKeyGenerated B" "\<forall>uid \<in> set (ownUserIds B). length (uidText uid) < 4294967296"
  shows "ImportPeerPublicKey L now A (Some (fst (renderOwnKeyBlocks B)))
    = Some (NO_ERROR, installPeer (fillLegacySubkey now (importedBlock B)) A)"
proof -
  obtain bs where b: "fst (renderOwnKeyBlocks B) = 0xC6 # bs" using exported_block_binary [OF assms(3)] .
  then have "decodeKeyBlockToBinary (fst (renderOwnKeyBlocks B)) = yes (fst (renderOwnKeyBlocks B))"
    using decode_binary_block by simp
  then show ?thesis
    using parse_exported [OF assms, of now] b by (simp add: ImportPeerPublicKey_def has_text_def)
qed

text \<open>How an own subkey looks to the peer.\<close>

lemma peerSubkeyOf_sel:
  "pskKeyId (peerSubkeyOf B k) = skKeyId k" "pskFingerprint (peerSubkeyOf B k) = skFingerprint k"
  "pskAlgorithm (peerSubkeyOf B k) = keyAlgorithm B" "pskCreationTime (peerSubkeyOf B k) = skCreationTime k"
  "pskKeyFlags (peerSubkeyOf B k) = skKeyFlags k" "pskHaveKeyFlags (peerSubkeyOf B k)"
  "keyAlgorithm B = PGP_KEY_ALGORITHM_RSA \<Longrightarrow> pskRsaKey (peerSubkeyOf B k) = skRsaPublicKey k"
  "keyAlgorithm B \<noteq> PGP_KEY_ALGORITHM_RSA \<Longrightarrow> \<not> skIsEd25519Sign k \<Longrightarrow> pskX25519Key (peerSubkeyOf B k) = skX25519PublicKey k"
  "keyAlgorithm B \<noteq> PGP_KEY_ALGORITHM_RSA \<Longrightarrow> skIsEd25519Sign k \<Longrightarrow> pskEd25519Key (peerSubkeyOf B k) = skEd25519PublicKey k"
  "pskIsEd25519 (peerSubkeyOf B k) = (keyAlgorithm B \<noteq> PGP_KEY_ALGORITHM_RSA \<and> skIsEd25519Sign k)"
  by (cases "keyAlgorithm B"; simp add: peerSubkeyOf_def peerSubkeyBase_def applyBinding_def bindingScan_def newPeerSubkey_def Let_def)+

text \<open>A subkey that a peer may encrypt to: not revoked, not expired, marked for encryption.\<close>

definition encryptable :: "32 word \<Rightarrow> engine \<Rightarrow> own_subkey \<Rightarrow> bool" where
  "encryptable now S k \<longleftrightarrow> usable now (peerSubkeyOf S k) \<and> skKeyFlags k AND 0x0C \<noteq> 0"

lemma marked_own: "marked_encrypt (peerSubkeyOf B k) \<longleftrightarrow> skKeyFlags k AND 0x0C \<noteq> 0"
  by (simp add: marked_encrypt_def peerSubkeyOf_sel)

text \<open>The subkey that a sender addresses: the first of the newest ones among those.\<close>

definition addressed :: "32 word \<Rightarrow> engine \<Rightarrow> own_subkey \<Rightarrow> bool" where
  "addressed now B c \<longleftrightarrow> encryptable now B c
     \<and> (\<forall>k \<in> set (ownSubkeys B). encryptable now B k \<longrightarrow> skCreationTime k \<le> skCreationTime c)
     \<and> (\<exists>before after. ownSubkeys B = before @ c # after
          \<and> (\<forall>k \<in> set before. encryptable now B k \<longrightarrow> skCreationTime k < skCreationTime c))"

lemma addressed_in: "addressed now B c \<Longrightarrow> c \<in> set (ownSubkeys B) \<and> encryptable now B c"
  by (auto simp: addressed_def)

lemma chosen_own:
  assumes "\<exists>k \<in> set (ownSubkeys B). encryptable now B k"
  shows "\<exists>c. addressed now B c
    \<and> chooseBestPeerEncryptionSubkey now (map (peerSubkeyOf B) (ownSubkeys B)) = Some (peerSubkeyOf B c)"
proof -
  let ?P = "\<lambda>k. usable now k \<and> marked_encrypt k"
  let ?good = "filter ?P (map (peerSubkeyOf B) (ownSubkeys B))"
  have P: "?P (peerSubkeyOf B k) = encryptable now B k" for k by (simp add: encryptable_def marked_own)
  have "?good \<noteq> []" using assms P by (auto simp: filter_empty_conv)
  then obtain k where k: "newest None ?good = Some k" using newest_None_iff by blast
  note first = newest_filter [OF k]
  obtain before after where split: "map (peerSubkeyOf B) (ownSubkeys B) = before @ k # after"
    "\<forall>x \<in> set before. ?P x \<longrightarrow> pskCreationTime x < pskCreationTime k" using first(3) by blast
  then obtain us c vs where c: "ownSubkeys B = us @ c # vs" "before = map (peerSubkeyOf B) us" "k = peerSubkeyOf B c"
    by (auto simp: map_eq_append_conv)
  have "addressed now B c"
    unfolding addressed_def
  proof (intro conjI exI)
    show "encryptable now B c" using first(1) P by (simp add: c(3))
    show "\<forall>k \<in> set (ownSubkeys B). encryptable now B k \<longrightarrow> skCreationTime k \<le> skCreationTime c"
      using first(2) P by (simp add: c(3) peerSubkeyOf_sel)
    show "ownSubkeys B = us @ c # vs" by (rule c(1))
    show "\<forall>k \<in> set us. encryptable now B k \<longrightarrow> skCreationTime k < skCreationTime c"
      using split(2) P by (simp add: c(2,3) peerSubkeyOf_sel)
  qed
  with k \<open>?good \<noteq> []\<close> c(3) show ?thesis by (auto simp: choose_eq)
qed

text \<open>The peer fields that the messaging methods read, when the block was exported by \<open>B\<close> and its
  chosen subkey is \<open>c\<close>.\<close>

definition knows :: "engine \<Rightarrow> engine \<Rightarrow> own_subkey \<Rightarrow> bool" where
  "knows A B c \<longleftrightarrow> peerKeyImported A \<and> peerMasterAlgorithm A = keyAlgorithm B \<and> peerMasterKeyId A = ownMasterKeyId B
     \<and> peerSubkeys A = map (peerSubkeyOf B) (ownSubkeys B)
     \<and> peerSubkeyAlgorithm A = keyAlgorithm B \<and> peerSubkeyKeyId A = skKeyId c
     \<and> (if keyAlgorithm B = PGP_KEY_ALGORITHM_RSA
        then peerMasterPublicKey A = ownMasterPublicKey B \<and> peerSubkeyPublicKey A = skRsaPublicKey c
        else peerEd25519PublicKey A = ownEd25519PublicKey B \<and> peerX25519PublicKey A = pskX25519Key (peerSubkeyOf B c)
          \<and> peerSubkeyFingerprint A = skFingerprint c)"

lemma importedBlock_master:
  "pbMasterAlgorithm (importedBlock B) = keyAlgorithm B" "pbMasterKeyId (importedBlock B) = ownMasterKeyId B"
  "keyAlgorithm B = PGP_KEY_ALGORITHM_RSA \<Longrightarrow> pbMasterRsaKey (importedBlock B) = ownMasterPublicKey B"
  "keyAlgorithm B \<noteq> PGP_KEY_ALGORITHM_RSA \<Longrightarrow> pbMasterEd25519Key (importedBlock B) = ownEd25519PublicKey B"
  "pbSubkeys (importedBlock B) = map (peerSubkeyOf B) (ownSubkeys B)"
  by (cases "keyAlgorithm B"; simp add: importedBlock_def importedMaster_def newParsedBlock_def Let_def)+

lemma import_knows:
  assumes "chooseBestPeerEncryptionSubkey now (map (peerSubkeyOf B) (ownSubkeys B)) = Some (peerSubkeyOf B c)"
  shows "knows (installPeer (fillLegacySubkey now (importedBlock B)) A) B c"
  using assms importedBlock_master [of B]
  by (cases "keyAlgorithm B = PGP_KEY_ALGORITHM_RSA")
    (simp_all add: knows_def installPeer_def fillLegacySubkey_def peerSubkeyOf_sel Let_def)

lemma installPeer_recipients:
  "additionalRecipients (installPeer p A) = additionalRecipients A"
  "symmetricCipherPreference (installPeer p A) = symmetricCipherPreference A"
  by (simp_all add: installPeer_def Let_def)

section \<open>Decrypting with one of the own keys\<close>

lemma decryptWithAny_finds:
  assumes "K \<in> set Ks" "parseAndDecryptMessage L K message want = yes (plaintext, sig)"
    and "\<forall>K' \<in> set Ks. parseAndDecryptMessage L K' message want = yes (plaintext, sig) \<or> messagePlain L K' message = no"
  shows "decryptWithAny L message want Ks None = yes (plaintext, sig)"
  using assms
proof (induction Ks)
  case (Cons K' Ks)
  show ?case
  proof (cases "messagePlain L K' message = no")
    case True
    then have no: "parseAndDecryptMessage L K' message want = no" "signatureLeft L K' message want = None"
      by (simp_all add: parseAndDecryptMessage_def signatureLeft_def)
    with Cons.prems have "K \<in> set Ks" by auto
    with Cons no show ?thesis by simp
  next
    case False
    with Cons.prems(3) show ?thesis by simp
  qed
qed simp

text \<open>The flat fields are those of the first subkey.\<close>

lemma firstKey_mirror:
  assumes "identity_inv L B" "ownKeyGenerated B"
  shows "ownSubkeys B \<noteq> []" "okKeyId (firstKey B) = okKeyId (subkeyKey B (hd (ownSubkeys B)))"
    "okAlgorithm (firstKey B) = keyAlgorithm B" "okFingerprint (firstKey B) = skFingerprint (hd (ownSubkeys B))"
    "if keyAlgorithm B = PGP_KEY_ALGORITHM_RSA then okRsaKey (firstKey B) = skRsaPrivateKey (hd (ownSubkeys B))
     else okX25519Key (firstKey B) = skX25519PrivateKey (hd (ownSubkeys B)) \<and> \<not> skIsEd25519Sign (hd (ownSubkeys B))"
  using assms by (auto simp: identity_inv_def mirrors_def firstKey_def subkeyKey_def hd_conv_nth)

text \<open>What makes an own subkey good for decryption, beyond being a pair: the library's laws for it.\<close>

definition decrypts_ok :: "crypto \<Rightarrow> message_draws \<Rightarrow> engine \<Rightarrow> own_subkey \<Rightarrow> bool" where
  "decrypts_ok L M B c \<longleftrightarrow>
     (if keyAlgorithm B = PGP_KEY_ALGORITHM_RSA
      then rsa_crypt_ok L (skRsaPrivateKey c) \<and> 46 \<le> minEncodedSize (rsaModulus (skRsaPrivateKey c))
      else x_agree_ok L (mdEphemeral M 0) (skX25519PrivateKey c) \<and> length (xPublic L (mdEphemeral M 0)) = 32)"

lemma keyFor_own:
  assumes "knows A B c" "pair_ok L (keyAlgorithm B) c" "decrypts_ok L M B c" "encryptable now B c" "length (skKeyId c) = 8"
    and K: "okAlgorithm K = keyAlgorithm B" "okKeyId K = skKeyId c" "okFingerprint K = skFingerprint c"
      "if keyAlgorithm B = PGP_KEY_ALGORITHM_RSA then okRsaKey K = skRsaPrivateKey c else okX25519Key K = skX25519PrivateKey c"
  shows "keyFor L K (primaryRecipient A) (mdEphemeral M 0)"
proof (cases "keyAlgorithm B = PGP_KEY_ALGORITHM_RSA")
  case True
  with assms show ?thesis
    by (simp add: keyFor_def primaryRecipient_def knows_def pair_ok_def decrypts_ok_def)
next
  case False
  have flags: "skKeyFlags c AND 0x0C \<noteq> 0" using assms(4) by (simp add: encryptable_def)
  have "\<not> skIsEd25519Sign c"
  proof
    assume "skIsEd25519Sign c"
    with assms(2) False have "skKeyFlags c = 2" by (simp add: pair_ok_def)
    with flags show False by simp
  qed
  with assms False show ?thesis
    by (simp add: keyFor_def primaryRecipient_def knows_def pair_ok_def decrypts_ok_def peerSubkeyOf_sel)
qed

lemma cipherOctet_known: "knownCipher (cipherOctet a)"
  by (cases a) (simp_all add: cipherOctet_def knownCipher_def)

text \<open>Every key in the list either opens the message or is not addressed.\<close>

lemma decryptWithAny_sealed:
  assumes lib: "sealLib_ok L" "messageDraws_ok M" and cipher: "knownCipher cipher"
    and keys: "keysFor L M 0 (K # Ks) rcs" "distinct (map okKeyId (K # Ks))"
    and small: "length inner < 4294967000" and seal: "sealed L M rcs cipher inner = Some message"
    and content: "openPlain L (seipPlain L (mdPrefix M) inner) want = yes (plaintext, sig)"
    and own: "K \<in> set own"
      "\<forall>K' \<in> set own. (keyFor L K' (hd rcs) (mdEphemeral M 0) \<and> okKeyId K' = okKeyId K) \<or> okKeyId K' \<notin> okKeyId ` set (K # Ks)"
  shows "decryptWithAny L message want own None = yes (plaintext, sig)"
proof (rule decryptWithAny_finds [OF own(1)])
  obtain rc rcs' where rcs: "rcs = rc # rcs'" using keys(1) by (cases rcs) simp_all
  have opens: "parseAndDecryptMessage L K' message want = yes (plaintext, sig)"
    if "keyFor L K' rc (mdEphemeral M 0)" "okKeyId K' = okKeyId K" for K'
  proof -
    have "keysFor L M 0 (K' # Ks) rcs" "distinct (map okKeyId (K' # Ks))" using that keys by (simp_all add: rcs)
    from sealed_opens [OF lib cipher this small] seal content show ?thesis by auto
  qed
  show "parseAndDecryptMessage L K message want = yes (plaintext, sig)"
    using opens keys(1) by (simp add: rcs)
  show "\<forall>K' \<in> set own. parseAndDecryptMessage L K' message want = yes (plaintext, sig) \<or> messagePlain L K' message = no"
  proof
    fix K' assume "K' \<in> set own"
    with own(2) consider "keyFor L K' rc (mdEphemeral M 0)" "okKeyId K' = okKeyId K" | "okKeyId K' \<notin> okKeyId ` set (K # Ks)"
      by (auto simp: rcs)
    then show "parseAndDecryptMessage L K' message want = yes (plaintext, sig) \<or> messagePlain L K' message = no"
      using opens sealed_others [OF lib keys(1) small seal] by cases blast+
  qed
qed

section \<open>From one engine to another\<close>

text \<open>What the sender and the receiver of a message must satisfy. The receiver is any reachable
  object with an identity; \<open>Ks\<close> are the keys of the sender's additional recipients. No two keys
  share a key ID.\<close>

definition correspondents :: "crypto \<Rightarrow> message_draws \<Rightarrow> 32 word \<Rightarrow> engine \<Rightarrow> engine \<Rightarrow> own_key list \<Rightarrow> bool" where
  "correspondents L M now A B Ks \<longleftrightarrow> lib_ok L \<and> messageLib_ok L \<and> messageDraws_ok M
     \<and> reachable L B \<and> ownKeyGenerated B \<and> (\<forall>uid \<in> set (ownUserIds B). length (uidText uid) < 4294967296)
     \<and> (\<exists>k \<in> set (ownSubkeys B). encryptable now B k) \<and> (\<forall>k \<in> set (ownSubkeys B). decrypts_ok L M B k)
     \<and> keysFor L M 1 Ks (additionalRecipients A)
     \<and> distinct (map skKeyId (ownSubkeys B) @ map okKeyId Ks)"

lemma subkey_id_length: "subkey_ok L S k \<Longrightarrow> digests_ok L \<Longrightarrow> length (skKeyId k) = 8"
  using length_keyId [of L "subkeyPubBody S k"] unfolding subkey_ok_def Let_def by (metis snd_conv)

text \<open>The sender addresses one subkey of the receiver; whatever secret key stands for it opens what is sealed.\<close>

definition standsFor :: "engine \<Rightarrow> own_subkey \<Rightarrow> own_key \<Rightarrow> bool" where
  "standsFor B s K \<longleftrightarrow> okAlgorithm K = keyAlgorithm B \<and> okKeyId K = skKeyId s \<and> okFingerprint K = skFingerprint s
     \<and> (if keyAlgorithm B = PGP_KEY_ALGORITHM_RSA then okRsaKey K = skRsaPrivateKey s else okX25519Key K = skX25519PrivateKey s)"

lemma standsFor_subkey: "standsFor B s (subkeyKey B s)"
  by (simp add: standsFor_def subkeyKey_def)

lemma standsFor_first:
  assumes "identity_inv L B" "ownKeyGenerated B"
  shows "standsFor B (hd (ownSubkeys B)) (firstKey B)"
  using firstKey_mirror [OF assms] by (auto simp: standsFor_def subkeyKey_def split: if_splits)

lemma exchange_keys:
  assumes c: "correspondents L M now A B Ks" and import: "A' = installPeer (fillLegacySubkey now (importedBlock B)) A"
  obtains s where "addressed now B s"
    "\<And>K. standsFor B s K \<Longrightarrow> keyFor L K (hd (recipientsOf A')) (mdEphemeral M 0) \<and> keysFor L M 0 (K # Ks) (recipientsOf A')
       \<and> distinct (map okKeyId (K # Ks))"
proof -
  have lib: "lib_ok L" "digests_ok L" and gen: "ownKeyGenerated B"
    and reach: "reachable L B" and keys: "keysFor L M 1 Ks (additionalRecipients A)"
    and dist: "distinct (map skKeyId (ownSubkeys B) @ map okKeyId Ks)"
    and ok: "\<forall>k \<in> set (ownSubkeys B). decrypts_ok L M B k"
    using c by (simp_all add: correspondents_def lib_ok_def)
  note inv = reachable_identity_inv [OF reach lib(1)]
  have pairs: "\<forall>k \<in> set (ownSubkeys B). pair_ok L (keyAlgorithm B) k"
    using reachable_pairs [OF reach lib(1)] gen by (simp add: pairs_inv_def)
  have ids: "\<forall>k \<in> set (ownSubkeys B). length (skKeyId k) = 8"
    using inv gen subkey_id_length [OF _ lib(2)] by (auto simp: identity_inv_def)
  obtain s where a: "addressed now B s"
    and choose: "chooseBestPeerEncryptionSubkey now (map (peerSubkeyOf B) (ownSubkeys B)) = Some (peerSubkeyOf B s)"
    using chosen_own [of B now] c by (auto simp: correspondents_def)
  have s: "s \<in> set (ownSubkeys B)" "encryptable now B s" using addressed_in [OF a] by blast+
  have knows: "knows A' B s" using import_knows [OF choose] by (simp add: import)
  have rcs: "recipientsOf A' = primaryRecipient A' # additionalRecipients A"
    by (simp add: recipientsOf_def import installPeer_recipients)
  have "keyFor L K (primaryRecipient A') (mdEphemeral M 0)" if "standsFor B s K" for K
    using keyFor_own [OF knows _ _ s(2)] pairs ok ids s(1) that unfolding standsFor_def by blast
  moreover have "distinct (map okKeyId (K # Ks))" if "standsFor B s K" for K
    using that dist s(1) by (auto simp: standsFor_def)
  ultimately show ?thesis using that [OF a] keys by (simp add: rcs)
qed

lemma exchange_opens_sealed:
  assumes c: "correspondents L M now A B Ks" and import: "A' = installPeer (fillLegacySubkey now (importedBlock B)) A"
    and small: "length inner < 4294967000" and content: "openPlain L (seipPlain L (mdPrefix M) inner) want = yes (plaintext, sig)"
  shows "\<exists>message. sealed L M (recipientsOf A') (cipherOctet (symmetricCipherPreference A')) inner = Some message
    \<and> parseAndDecryptMessageWithAnyOwnSubkey L B message want = yes (plaintext, sig)"
proof -
  have lib: "lib_ok L" "sealLib_ok L" "messageDraws_ok M" and gen: "ownKeyGenerated B"
    and reach: "reachable L B" and dist: "distinct (map skKeyId (ownSubkeys B) @ map okKeyId Ks)"
    using c messageLib_sealLib [of L] by (simp_all add: correspondents_def lib_ok_def)
  note inv = reachable_identity_inv [OF reach lib(1)]
  obtain s where a: "addressed now B s"
    and keys: "\<And>K. standsFor B s K \<Longrightarrow> keyFor L K (hd (recipientsOf A')) (mdEphemeral M 0)
       \<and> keysFor L M 0 (K # Ks) (recipientsOf A') \<and> distinct (map okKeyId (K # Ks))"
    by (rule exchange_keys [OF c import]) blast
  have s: "s \<in> set (ownSubkeys B)" "encryptable now B s" using addressed_in [OF a] by blast+
  let ?K = "subkeyKey B s" and ?own = "firstKey B # map (subkeyKey B) (ownSubkeys B)"
  have all: "keysFor L M 0 (?K # Ks) (recipientsOf A')" and distK: "distinct (map okKeyId (?K # Ks))"
    using keys [OF standsFor_subkey] by blast+
  have id: "okKeyId (subkeyKey B k) = skKeyId k" for k by (simp add: subkeyKey_def)
  have fresh: "skKeyId k \<notin> okKeyId ` set Ks" if "k \<in> set (ownSubkeys B)" for k using dist that by auto
  have same: "k = s" if "k \<in> set (ownSubkeys B)" "skKeyId k = skKeyId s" for k
    using dist that s(1) by (simp add: distinct_map inj_on_def)
  have others: "(keyFor L K' (hd (recipientsOf A')) (mdEphemeral M 0) \<and> okKeyId K' = okKeyId ?K)
      \<or> okKeyId K' \<notin> okKeyId ` set (?K # Ks)" if which: "K' \<in> set ?own" for K'
  proof -
    obtain k where k: "k \<in> set (ownSubkeys B)" "standsFor B k K'"
      using which firstKey_mirror(1) [OF inv gen] standsFor_first [OF inv gen] standsFor_subkey hd_in_set by fastforce
    have K': "okKeyId K' = skKeyId k" using k(2) by (simp add: standsFor_def)
    show ?thesis
    proof (cases "k = s")
      case True
      then show ?thesis using keys k(2) K' by (simp add: id)
    next
      case False
      then have "skKeyId k \<noteq> skKeyId s" using same [OF k(1)] by auto
      then show ?thesis using K' fresh [OF k(1)] by (simp add: id)
    qed
  qed
  obtain message where seal: "sealed L M (recipientsOf A') (cipherOctet (symmetricCipherPreference A')) inner = Some message"
    using sealed_opens [OF lib(2,3) cipherOctet_known all distK small] by blast
  have "decryptWithAny L message want ?own None = yes (plaintext, sig)"
    by (rule decryptWithAny_sealed [OF lib(2,3) cipherOctet_known all distK small seal content])
      (use s(1) others in auto)
  with seal show ?thesis by (auto simp: parseAndDecryptMessageWithAnyOwnSubkey_def)
qed

lemma exchange_opens:
  assumes c: "correspondents L M now A B Ks" and import: "A' = installPeer (fillLegacySubkey now (importedBlock B)) A"
    and packets: "length (deflate L packets) < 4294960000" "reassemblePartialBodyLengths packets = no"
    and content: "openContent packets want = yes (plaintext, sig)"
  shows "\<exists>message. sealMessage L M (recipientsOf A') (cipherOctet (symmetricCipherPreference A')) packets = Some message
    \<and> parseAndDecryptMessageWithAnyOwnSubkey L B message want = yes (plaintext, sig)"
proof -
  have "openPlain L (seipPlain L (mdPrefix M) (compressedPacketOf L packets)) want = yes (plaintext, sig)"
    using openPlain_compressed c packets content by (simp add: correspondents_def messageLib_ok_def messageDraws_ok_def)
  from exchange_opens_sealed [OF c import compressedPacket_small [OF packets(1)] this] show ?thesis
    by (simp add: sealMessage_sealed)
qed

section \<open>Signatures of one engine, verified by another\<close>

definition knowsMaster :: "engine \<Rightarrow> engine \<Rightarrow> bool" where
  "knowsMaster A B \<longleftrightarrow> peerKeyImported A \<and> peerMasterAlgorithm A = keyAlgorithm B \<and> peerMasterKeyId A = ownMasterKeyId B
     \<and> peerSubkeys A = map (peerSubkeyOf B) (ownSubkeys B)
     \<and> (if keyAlgorithm B = PGP_KEY_ALGORITHM_RSA then peerMasterPublicKey A = ownMasterPublicKey B
        else peerEd25519PublicKey A = ownEd25519PublicKey B)"

lemma fillLegacySubkey_rest:
  "pbMasterAlgorithm (fillLegacySubkey now p) = pbMasterAlgorithm p" "pbMasterKeyId (fillLegacySubkey now p) = pbMasterKeyId p"
  "pbMasterRsaKey (fillLegacySubkey now p) = pbMasterRsaKey p" "pbMasterEd25519Key (fillLegacySubkey now p) = pbMasterEd25519Key p"
  "pbSubkeys (fillLegacySubkey now p) = pbSubkeys p"
  by (simp_all add: fillLegacySubkey_def split: option.split)

lemma import_knowsMaster: "knowsMaster (installPeer (fillLegacySubkey now (importedBlock B)) A) B"
  using importedBlock_master [of B]
  by (cases "keyAlgorithm B = PGP_KEY_ALGORITHM_RSA")
    (simp_all add: knowsMaster_def installPeer_def fillLegacySubkey_rest Let_def)

text \<open>The signing key is the master key or a signing subkey that is not revoked.\<close>

lemma selectFromSubkeys_cases:
  "selectFromSubkeys ks master = master
   \<or> (\<exists>k \<in> set ks. \<not> skIsRevoked k \<and> skKeyFlags k AND 0x02 \<noteq> 0
        \<and> selectFromSubkeys ks master = (skRsaPrivateKey k, skEd25519PrivateKey k, skKeyId k))"
  by (induction ks) auto

lemma activeSigningKey_cases:
  "activeSigningKey S = (ownMasterPrivateKey S, ownEd25519PrivateKey S, ownMasterKeyId S)
   \<or> (\<exists>k \<in> set (ownSubkeys S). skKeyFlags k AND 0x02 \<noteq> 0
        \<and> activeSigningKey S = (skRsaPrivateKey k, skEd25519PrivateKey k, skKeyId k))"
  using selectFromSubkeys_cases [of "rev (ownSubkeys S)"]
  by (auto simp: activeSigningKey_def selectActiveSigningKeyMaterial_def)

text \<open>A pair that signs in the algorithm of its object.\<close>

definition signer_ok :: "crypto \<Rightarrow> key_algorithm \<Rightarrow> rsa_key \<Rightarrow> bytes \<Rightarrow> rsa_public \<Rightarrow> bytes \<Rightarrow> bool" where
  "signer_ok L alg rsaKey edKey rsaPublic edPub \<longleftrightarrow>
     (if alg = PGP_KEY_ALGORITHM_RSA
      then rsaPublic = rsaPublicOf rsaKey \<and> rsa_sign_ok L rsaKey \<and> minEncodedSize (rsaModulus rsaKey) \<le> 8191
      else edPub = edPublic L edKey \<and> ed_sign_ok L edKey)"

lemma master_signer: "master_ok L S \<Longrightarrow>
    signer_ok L (keyAlgorithm S) (ownMasterPrivateKey S) (ownEd25519PrivateKey S) (ownMasterPublicKey S) (ownEd25519PublicKey S)"
  by (simp add: signer_ok_def master_ok_def)

lemma subkey_signer:
  assumes "pair_ok L alg k" "skKeyFlags k AND 0x02 \<noteq> 0"
  shows "signer_ok L alg (skRsaPrivateKey k) (skEd25519PrivateKey k) (skRsaPublicKey k) (skEd25519PublicKey k)"
    and "alg \<noteq> PGP_KEY_ALGORITHM_RSA \<Longrightarrow> skIsEd25519Sign k"
proof -
  show sign: "skIsEd25519Sign k" if "alg \<noteq> PGP_KEY_ALGORITHM_RSA"
  proof (rule ccontr)
    assume "\<not> skIsEd25519Sign k"
    with assms(1) that have "skKeyFlags k = 0x0C" by (simp add: pair_ok_def)
    with assms(2) show False by simp
  qed
  with assms(1) show "signer_ok L alg (skRsaPrivateKey k) (skEd25519PrivateKey k) (skRsaPublicKey k) (skEd25519PublicKey k)"
    by (auto simp: signer_ok_def pair_ok_def)
qed

lemma signer_signingKey:
  "signer_ok L alg rsaKey edKey rsaPublic edPub \<Longrightarrow> length keyId = 8 \<Longrightarrow> signingKey_ok L alg (rsaKey, edKey, keyId)"
  by (simp add: signer_ok_def signingKey_ok_def split: if_splits)

lemma messageSignature_verifies:
  assumes "signer_ok L alg rsaKey edKey rsaPublic edPub" "length keyId = 8"
  shows "(if alg = PGP_KEY_ALGORITHM_RSA then verifySignaturePacket L rsaPublic doc (documentSignature L now alg (rsaKey, edKey, keyId) doc st)
      else verifyEd25519SignaturePacket L edPub doc (documentSignature L now alg (rsaKey, edKey, keyId) doc st)) = yes True"
  using assms
  by (auto simp: signer_ok_def documentSignature_def verify_built_rsa verify_built_ed25519 rsa_sign_ok_def ed_sign_ok_def)

lemma messageSignature_issuer:
  assumes "signingKey_ok L alg (rsaKey, edKey, keyId)"
  shows "findIssuerKeyIdOfSignaturePacket (documentSignature L now alg (rsaKey, edKey, keyId) doc st) = yes keyId"
proof -
  have id: "length keyId = 8" using assms by (simp add: signingKey_ok_def)
  have none: "subpackets [] = []" "anonymous []" by (simp_all add: subpackets_def anonymous_def)
  have "\<exists>t p h l m. documentSignature L now alg (rsaKey, edKey, keyId) doc st = writePacket PGP_TAG_SIGNATURE
      (signatureBody t p h (signatureHashedSubpackets now (subpackets [])) (appendSubpacket [] 16 keyId) l m)"
    by (cases "alg = PGP_KEY_ALGORITHM_RSA";
        simp add: documentSignature_def buildSignaturePacket_def buildEd25519SignaturePacket_def Let_def none; (rule exI)+; rule refl)
  then obtain t p h l m where packet: "documentSignature L now alg (rsaKey, edKey, keyId) doc st = writePacket PGP_TAG_SIGNATURE
      (signatureBody t p h (signatureHashedSubpackets now (subpackets [])) (appendSubpacket [] 16 keyId) l m)"
    by blast
  obtain body where body: "documentSignature L now alg (rsaKey, edKey, keyId) doc st = writePacket PGP_TAG_SIGNATURE body"
    "length body < 60000"
    using messageSignature_packet [OF assms, of now doc] by blast
  have "length (signatureBody t p h (signatureHashedSubpackets now (subpackets [])) (appendSubpacket [] 16 keyId) l m) < 4294967296"
    using arg_cong [OF trans [OF packet [symmetric] body(1)], of length] body(2) newFormatLengthOctets_le [of "length body"]
    unfolding length_writePacket by linarith
  from issuer_of_packet [OF none(2) _ id refl this] show ?thesis by (simp add: packet none)
qed

text \<open>The verifier finds the public half of the signing key.\<close>

lemma peerSubkeyFor_own:
  assumes "k \<in> set ks" "distinct (map skKeyId ks)" "keyAlgorithm B \<noteq> PGP_KEY_ALGORITHM_RSA \<Longrightarrow> skIsEd25519Sign k"
  shows "peerSubkeyFor (skKeyId k) (map (peerSubkeyOf B) ks) master =
    (if keyAlgorithm B = PGP_KEY_ALGORITHM_RSA then (PGP_KEY_ALGORITHM_RSA, skRsaPublicKey k, [])
     else (PGP_KEY_ALGORITHM_ED25519_X25519, blankRsaPublic, skEd25519PublicKey k))"
  using assms(1,2)
proof (induction ks)
  case (Cons x ks)
  show ?case
  proof (cases "skKeyId x = skKeyId k")
    case True
    with Cons.prems have "x = k" by (auto simp: image_iff)
    then show ?thesis using assms(3) by (simp add: peerSubkeyOf_sel)
  next
    case False
    with Cons show ?thesis by (auto simp: peerSubkeyOf_sel)
  qed
qed simp

lemma verifyAgainstPeer_own:
  assumes "lib_ok L" "reachable L B" "ownKeyGenerated B" "knowsMaster A B"
    and dist: "distinct (ownMasterKeyId B # map skKeyId (ownSubkeys B))"
  shows "verifyAgainstPeer L A doc (documentSignature L now (keyAlgorithm B) (activeSigningKey B) doc st) = yes True"
    and "signingKey_ok L (keyAlgorithm B) (activeSigningKey B)"
proof -
  let ?alg = "keyAlgorithm B"
  have d: "digests_ok L" using assms(1) by (simp add: lib_ok_def)
  note inv = reachable_identity_inv [OF assms(2,1)]
  have master: "master_ok L B" and sub: "\<forall>k \<in> set (ownSubkeys B). subkey_ok L B k"
    using inv assms(3) by (simp_all add: identity_inv_def)
  have pairs: "\<forall>k \<in> set (ownSubkeys B). pair_ok L ?alg k"
    using reachable_pairs [OF assms(2,1)] assms(3) by (simp add: pairs_inv_def)
  have mid: "length (ownMasterKeyId B) = 8"
    using master length_keyId [OF d, of "buildOwnMasterPubBody B"] by (metis master_ok_def snd_conv)
  have goal: "verifyAgainstPeer L A doc (documentSignature L now ?alg (r, e, i) doc st) = yes True \<and> signingKey_ok L ?alg (r, e, i)"
    if s: "signer_ok L ?alg r e rp ep" "length i = 8"
      and found: "(if i = peerMasterKeyId A then (peerMasterAlgorithm A, peerMasterPublicKey A, peerEd25519PublicKey A)
        else peerSubkeyFor i (peerSubkeys A) (peerMasterAlgorithm A, peerMasterPublicKey A, peerEd25519PublicKey A)) = (?alg, rp', ep')"
      and same: "if ?alg = PGP_KEY_ALGORITHM_RSA then rp' = rp else ep' = ep" for r e i rp ep rp' ep'
  proof -
    note key = signer_signingKey [OF s]
    show ?thesis
      using messageSignature_issuer [OF key, of now doc st] messageSignature_verifies [OF s, of doc now st] found same key
      by (auto simp: verifyAgainstPeer_def selectPeerVerificationKeyMaterial_def split: if_splits)
  qed
  consider "activeSigningKey B = (ownMasterPrivateKey B, ownEd25519PrivateKey B, ownMasterKeyId B)"
    | k where "k \<in> set (ownSubkeys B)" "skKeyFlags k AND 0x02 \<noteq> 0"
      "activeSigningKey B = (skRsaPrivateKey k, skEd25519PrivateKey k, skKeyId k)"
    using activeSigningKey_cases [of B] by blast
  then have "verifyAgainstPeer L A doc (documentSignature L now ?alg (activeSigningKey B) doc st) = yes True
    \<and> signingKey_ok L ?alg (activeSigningKey B)"
  proof cases
    case 1
    show ?thesis unfolding 1
      by (rule goal [OF master_signer [OF master] mid])
        (use assms(4) in \<open>auto simp: knowsMaster_def\<close>)
  next
    case (2 k)
    have pair: "pair_ok L ?alg k" and id: "length (skKeyId k) = 8"
      using pairs sub 2(1) subkey_id_length [OF _ d] by auto
    have "skKeyId k \<in> set (map skKeyId (ownSubkeys B))" using 2(1) by simp
    then have other: "skKeyId k \<noteq> ownMasterKeyId B" using dist by (metis distinct.simps(2))
    note signer = subkey_signer [OF pair 2(2)]
    have "keyAlgorithm B = PGP_KEY_ALGORITHM_RSA \<or> keyAlgorithm B = PGP_KEY_ALGORITHM_ED25519_X25519"
      by (cases "keyAlgorithm B") simp_all
    then show ?thesis unfolding 2(3)
      using goal [OF signer(1) id, where rp' = "if ?alg = PGP_KEY_ALGORITHM_RSA then skRsaPublicKey k else blankRsaPublic"
          and ep' = "if ?alg = PGP_KEY_ALGORITHM_RSA then [] else skEd25519PublicKey k"]
        peerSubkeyFor_own [OF 2(1) _ signer(2)] other assms(4) dist
      by (auto simp: knowsMaster_def)
  qed
  then show "verifyAgainstPeer L A doc (documentSignature L now ?alg (activeSigningKey B) doc st) = yes True"
    "signingKey_ok L ?alg (activeSigningKey B)" by blast+
qed

section \<open>What messaging reads of the own part\<close>

lemma samePart_messages:
  assumes "ownPart S' = ownPart S"
  shows "mayUseIdentity S' pw = mayUseIdentity S pw" "passwordMatches L S' pw = passwordMatches L S pw"
    "keyAlgorithm S' = keyAlgorithm S" "activeSigningKey S' = activeSigningKey S"
    "parseAndDecryptMessageWithAnyOwnSubkey L S' m w = parseAndDecryptMessageWithAnyOwnSubkey L S m w"
proof -
  have same: "f S' = f S" if "\<And>S. f (ownPart S) = f S" for f :: "engine \<Rightarrow> 'b"
    using that assms by metis
  have key: "subkeyKey (ownPart S) = subkeyKey S" for S by (simp add: subkeyKey_def fun_eq_iff)
  show "mayUseIdentity S' pw = mayUseIdentity S pw" by (rule same) (simp add: mayUseIdentity_def)
  show "passwordMatches L S' pw = passwordMatches L S pw" by (rule same) (simp add: passwordMatches_def)
  show "keyAlgorithm S' = keyAlgorithm S" by (rule same) simp
  show "activeSigningKey S' = activeSigningKey S" by (rule same) (simp add: activeSigningKey_def)
  show "parseAndDecryptMessageWithAnyOwnSubkey L S' m w = parseAndDecryptMessageWithAnyOwnSubkey L S m w"
    by (rule same) (simp add: parseAndDecryptMessageWithAnyOwnSubkey_def firstKey_def key)
qed

section \<open>Text\<close>

lemma to_text_of_text [simp]: "to_text (of_text s) = s"
  by (induction s) (simp_all add: to_text_def of_text_def)

lemma of_text_eq_Nil [simp]: "of_text s = [] \<longleftrightarrow> s = []"
  by (simp add: of_text_def)

lemma armorDecode_message: "armorDecode (armorEncode ''PGP MESSAGE'' m) = yes (''PGP MESSAGE'', m)"
  using armorDecode_armorWithChecksum [of "''PGP MESSAGE''" m m] by (simp add: armorEncode_armorWithChecksum)

lemma armorEncode_not_Nil [simp]: "armorEncode l m \<noteq> []"
  by (simp add: armorEncode_def beginMark_def)

lemma sealMessage_not_Nil: "sealMessage L M rcs cipher packets = Some message \<Longrightarrow> message \<noteq> []"
  by (auto simp: sealMessage_def Let_def appendAll_def seipPacketOf_eq writePacket_eq)

lemma inputOf_all [simp]: "inputOf (Some b) (int (length b)) = Some b"
  by (simp add: inputOf_def)

section \<open>A sample correspondence\<close>

text \<open>The sample identity writes to itself under the sample library.\<close>

lemma sample_keyIds: "ownMasterKeyId sample_engine ! 3 = 0xDA" "map (\<lambda>k. skKeyId k ! 3) (ownSubkeys sample_engine) = [0x97]"
proof -
  let ?g = "generatedBy sample_lib sample_draws (newEngineFor PGP_KEY_ALGORITHM_ED25519_X25519) [65] [112, 119] 3600"
  have body: "gMasterPubBody ?g = buildEd25519PublicKeyPacketBody 0 (replicate 32 0)"
    "gSubkeyPubBody ?g = buildX25519PublicKeyPacketBody 0 (replicate 32 1)"
    by (simp_all add: generatedBy_def generateEd25519_def newEngineFor_def Let_def sample_lib_def sample_draws_def)
  have id: "snd (computeFingerprintAndKeyId sample_lib (buildEd25519PublicKeyPacketBody 0 (replicate 32 0))) ! 3 = 0xDA"
    "snd (computeFingerprintAndKeyId sample_lib (buildX25519PublicKeyPacketBody 0 (replicate 32 1))) ! 3 = 0x97"
    by (simp_all add: computeFingerprintAndKeyId_def pub_body_shape
        appendBigEndian16_def appendBigEndian32_def appendAll_def PGP_ED25519_OID_def PGP_X25519_OID_def
        sample_lib_def pad_to_def Let_def nth_append)
  have "ownMasterKeyId sample_engine = snd (computeFingerprintAndKeyId sample_lib (gMasterPubBody ?g))"
    "map (\<lambda>k. skKeyId k ! 3) (ownSubkeys sample_engine) = [snd (computeFingerprintAndKeyId sample_lib (gSubkeyPubBody ?g)) ! 3]"
    by (simp_all add: sample_engine_def install_defs)
  then show "ownMasterKeyId sample_engine ! 3 = 0xDA" "map (\<lambda>k. skKeyId k ! 3) (ownSubkeys sample_engine) = [0x97]"
    by (simp_all only: body id)
qed

lemma sample_correspondents: "correspondents sample_lib sample_message_draws 0 sample_engine sample_engine []"
proof -
  obtain k where k: "ownSubkeys sample_engine = [k]" "skKeyFlags k = 0x0C" "skCreationTime k = 0" "skExpirationSeconds k = 3600"
    "\<not> skIsRevoked k"
    by (simp add: sample_engine_def install_defs newOwnSubkey_def sample_draws_def)
  have "encryptable 0 sample_engine k"
    by (simp add: encryptable_def usable_def peerSubkeyExpired_def k peerSubkeyOf_def peerSubkeyBase_def applyBinding_def
        bindingScan_def newPeerSubkey_def Let_def)
  moreover have "decrypts_ok sample_lib sample_message_draws sample_engine k"
    using sample_lib_ok(6) by (simp add: decrypts_ok_def sample_engine_parts sample_lib_def sample_message_draws_def)
  moreover have "additionalRecipients sample_engine = []" "length (uidText (hd (ownUserIds sample_engine))) = 1"
    "length (ownUserIds sample_engine) = 1"
    by (simp_all add: sample_engine_def install_defs newEngineFor_def newEngine_def)
  ultimately show ?thesis
    using sample_message(1,2) sample_engine_reachable sample_engine_inv(1) sample_lib_lib_ok
    by (cases "ownUserIds sample_engine") (simp_all add: correspondents_def k(1))
qed

lemma sample_distinct: "distinct (ownMasterKeyId sample_engine # map skKeyId (ownSubkeys sample_engine))"
proof -
  obtain k where "ownSubkeys sample_engine = [k]" using sample_engine_parts(3) by (cases "ownSubkeys sample_engine") auto
  then show ?thesis using sample_keyIds by auto
qed

lemma signedContent_length:
  assumes "signingKey_ok L alg (rsaKey, edKey, keyId)" "length text < 1000"
  shows "length (signedContentOf alg keyId text (messageSignature L t alg (rsaKey, edKey, keyId) text)) < 4294960000"
proof -
  obtain body where body: "messageSignature L t alg (rsaKey, edKey, keyId) text = writePacket PGP_TAG_SIGNATURE body" "length body < 60000"
    using messageSignature_packet [OF assms(1), of t "text"] by blast
  have "length keyId = 8" using assms(1) by (simp add: signingKey_ok_def)
  then show ?thesis
    using body assms(2) newFormatLengthOctets_le [of "length body"] newFormatLengthOctets_le [of "length text + 6"]
    by (simp add: signedContentOf_def appendAll_def messageOnePass_def buildOnePassSignaturePacket_def literalPacketOf_def
        length_writePacket appendBigEndian32_def newFormatLengthOctets_def)
qed

lemma sample_signed_short:
  "length (deflate sample_lib (signedContentOf (keyAlgorithm sample_engine) (snd (snd (activeSigningKey sample_engine))) [104, 105]
     (messageSignature sample_lib t (keyAlgorithm sample_engine) (activeSigningKey sample_engine) [104, 105]))) < 4294960000"
proof -
  obtain r e i where key: "activeSigningKey sample_engine = (r, e, i)" by (cases "activeSigningKey sample_engine")
  have "signingKey_ok sample_lib (keyAlgorithm sample_engine) (r, e, i)"
    using verifyAgainstPeer_own(2) [OF sample_lib_lib_ok sample_engine_reachable sample_engine_inv(1)
        import_knowsMaster sample_distinct] by (simp add: key)
  then show ?thesis using signedContent_length [of sample_lib _ r e i "[104, 105]"] by (simp add: key sample_deflate)
qed


section \<open>Properties\<close>

text \<open>C1: One engine exports its public key block, another imports it and encrypts: the owner
  decrypts the message with its password to the plaintext. The owner is any object that operations lead to which has an
  identity, user IDs of less than 2^32 octets each and, at the time of the import, at least one subkey that is not
  revoked, not expired (as the 32-bit sum of its times says) and marked for encryption, and each of whose subkeys the
  library can decrypt with; the additional recipients are keys known to the sender; no two of these key IDs are equal,
  and the plaintext and its compressed form fit the format. The binary and the armored methods hand out and take in the
  same message.\<close>

theorem encrypted_message_reaches_its_owner:
  assumes "correspondents L M now A B Ks" "authorised L B pw" "length text < 2147483648"
    and "length (deflate L (literalPacketOf text)) < 4294960000"
  shows "\<exists>A' message. ImportPeerPublicKey L now A (Some (fst (renderOwnKeyBlocks B))) = Some (NO_ERROR, A')
    \<and> (\<forall>buffer. EncryptBuffer L M A' (Some text) (int (length text)) True buffer
          = copyOut (length (recipientsOf A') * 2) buffer message)
    \<and> (\<forall>buffer. EncryptStringArmored L M A' (Some text) (int (length text)) True buffer
          = copyOut (length (recipientsOf A') * 4) buffer (of_text (armorEncode ''PGP MESSAGE'' message)))
    \<and> (\<forall>buffer. DecryptBuffer L B pw (Some message) True buffer = copyOut 0 buffer text)
    \<and> (\<forall>buffer. DecryptStringArmored L B pw (Some (of_text (armorEncode ''PGP MESSAGE'' message))) True buffer = copyOut 0 buffer text)"
proof -
  let ?A' = "installPeer (fillLegacySubkey now (importedBlock B)) A"
  have small: "length text < 4294967000" using assms(3) by simp
  obtain message where m: "sealMessage L M (recipientsOf ?A') (cipherOctet (symmetricCipherPreference ?A')) (literalPacketOf text) = Some message"
    "parseAndDecryptMessageWithAnyOwnSubkey L B message False = yes (text, None)"
    using exchange_opens [OF assms(1) refl assms(4) literal_plain [OF small] openContent_literal(1) [OF small]] by blast
  have c: "lib_ok L" "reachable L B" "ownKeyGenerated B" "\<forall>uid \<in> set (ownUserIds B). length (uidText uid) < 4294967296"
    using assms(1) by (simp_all add: correspondents_def)
  have import: "ImportPeerPublicKey L now A (Some (fst (renderOwnKeyBlocks B))) = Some (NO_ERROR, ?A')"
    by (rule import_exported [OF c(1) reachable_identity_inv [OF c(2,1)] c(3,4)])
  have "peerKeyImported ?A'" using import_knowsMaster [of now B A] by (simp add: knowsMaster_def)
  with m(1) have "\<forall>buffer. EncryptBuffer L M ?A' (Some text) (int (length text)) True buffer
      = copyOut (length (recipientsOf ?A') * 2) buffer message"
    "\<forall>buffer. EncryptStringArmored L M ?A' (Some text) (int (length text)) True buffer
      = copyOut (length (recipientsOf ?A') * 4) buffer (of_text (armorEncode ''PGP MESSAGE'' message))"
    by (simp_all add: EncryptBuffer_def EncryptStringArmored_def buildEncryptedMessageMultiRecipient_def recipientsOf_def)
  with import show ?thesis
    using m(2) assms(2) sealMessage_not_Nil [OF m(1)]
    by (intro exI [of _ ?A'] exI [of _ message])
      (simp add: DecryptBuffer_def DecryptStringArmored_def decryptForCaller_def authorised_def has_text_def armorDecode_message)
qed

lemma encrypted_message_reaches_its_owner_witness:
  "\<exists>message. DecryptBuffer sample_lib sample_engine (Some [112, 119]) (Some message) True (Some 10)
     = Some \<lparr> ansStatus = NO_ERROR, ansWritten = Some [104, 105], ansSize = Some 2 \<rparr>"
proof -
  have "length (deflate sample_lib (literalPacketOf [104, 105])) < 4294960000"
    by (simp add: sample_deflate literalPacketOf_def length_writePacket newFormatLengthOctets_def appendBigEndian32_def)
  from encrypted_message_reaches_its_owner [OF sample_correspondents sample_authorised _ this]
  obtain message where "\<forall>buffer. DecryptBuffer sample_lib sample_engine (Some [112, 119]) (Some message) True buffer
      = copyOut 0 buffer [104, 105]" by auto
  then show ?thesis by (intro exI [of _ message]) (simp add: copyOut_fits)
qed

text \<open>C3: A signature that an engine makes with its password, with the master key or a signing
  subkey, is found valid by every engine that has imported its exported public block, whatever the life of the
  signer before.\<close>

theorem signature_is_verified_by_peer:
  assumes "lib_ok L" "reachable L B" "authorised L B pw" "\<forall>uid \<in> set (ownUserIds B). length (uidText uid) < 4294967296"
    and "distinct (ownMasterKeyId B # map skKeyId (ownSubkeys B))"
  shows "\<exists>A' signature. ImportPeerPublicKey L now A (Some (fst (renderOwnKeyBlocks B))) = Some (NO_ERROR, A')
    \<and> (\<forall>buffer. SignBuffer L t B pw (Some text) (int (length text)) True buffer = copyOut 0 buffer signature)
    \<and> VerifyBuffer L A' (Some text) (int (length text)) (Some signature) True = Some (NO_ERROR, Some True)"
proof -
  let ?A' = "installPeer (fillLegacySubkey now (importedBlock B)) A"
  define signature where "signature = messageSignature L t (keyAlgorithm B) (activeSigningKey B) text"
  have gen: "ownKeyGenerated B" using assms(3) by (simp add: authorised_def mayUseIdentity_def)
  note import = import_exported [OF assms(1) reachable_identity_inv [OF assms(2,1)] gen assms(4), of now A]
  note knows = import_knowsMaster [of now B A]
  note verify = verifyAgainstPeer_own [OF assms(1,2) gen knows assms(5)]
  have "signature \<noteq> []"
    using messageSignature_packet [OF verify(2), of t "text" 0] by (auto simp: signature_def writePacket_eq)
  with import show ?thesis
    using assms(3) verify(1) [of "text" t 0] knows
    by (intro exI [of _ ?A'] exI [of _ signature])
      (simp add: SignBuffer_def VerifyBuffer_def authorised_def has_text_def knowsMaster_def Let_def flip: signature_def)
qed

lemma signature_is_verified_by_peer_witness:
  "\<exists>A' signature. VerifyBuffer sample_lib A' (Some [104, 105]) 2 (Some signature) True = Some (NO_ERROR, Some True)"
proof -
  have "\<forall>uid \<in> set (ownUserIds sample_engine). length (uidText uid) < 4294967296"
    using sample_correspondents by (simp add: correspondents_def)
  from signature_is_verified_by_peer [OF sample_lib_lib_ok sample_engine_reachable sample_authorised this sample_distinct,
      of 0 newEngine 0 "[104, 105]"]
  show ?thesis by auto
qed

text \<open>C2: Two engines that have imported each other's public blocks exchange a signed and encrypted
  message: the receiver gets the plaintext and the verdict that the signature is valid, in one call.\<close>

theorem signed_message_is_decrypted_and_verified:
  assumes "correspondents L M now A B Ks" "authorised L B pw" "authorised L A pw'" "reachable L A"
    and "\<forall>uid \<in> set (ownUserIds A). length (uidText uid) < 4294967296"
    and "distinct (ownMasterKeyId A # map skKeyId (ownSubkeys A))" "length text < 2147483648"
    and "length (deflate L (signedContentOf (keyAlgorithm A) (snd (snd (activeSigningKey A))) text
           (messageSignature L t (keyAlgorithm A) (activeSigningKey A) text))) < 4294960000"
  shows "\<exists>A' B' message. ImportPeerPublicKey L now A (Some (fst (renderOwnKeyBlocks B))) = Some (NO_ERROR, A')
    \<and> ImportPeerPublicKey L now B (Some (fst (renderOwnKeyBlocks A))) = Some (NO_ERROR, B')
    \<and> (\<forall>buffer. EncryptAndSignBuffer L M t A' pw' (Some text) (int (length text)) True buffer
          = copyOut (length (recipientsOf A') * 2) buffer message)
    \<and> (\<forall>room \<ge> int (length text). DecryptAndVerifyBuffer L B' pw (Some message) True True (Some room)
          = Some (\<lparr> ansStatus = NO_ERROR, ansWritten = Some text, ansSize = Some (int (length text)) \<rparr>, Some True))"
proof -
  let ?A' = "installPeer (fillLegacySubkey now (importedBlock B)) A"
    and ?B' = "installPeer (fillLegacySubkey now (importedBlock A)) B"
  obtain r e i where key: "activeSigningKey A = (r, e, i)" by (cases "activeSigningKey A")
  define signature where "signature = messageSignature L t (keyAlgorithm A) (r, e, i) text"
  have c: "lib_ok L" "reachable L B" "ownKeyGenerated B" "\<forall>uid \<in> set (ownUserIds B). length (uidText uid) < 4294967296"
    using assms(1) by (simp_all add: correspondents_def)
  have gen: "ownKeyGenerated A" using assms(3) by (simp add: authorised_def mayUseIdentity_def)
  note importA = import_exported [OF c(1) reachable_identity_inv [OF c(2,1)] c(3,4), of now A]
  note importB = import_exported [OF c(1) reachable_identity_inv [OF assms(4) c(1)] gen assms(5), of now B]
  note knowsA = import_knowsMaster [of now B A] and knowsB = import_knowsMaster [of now A B]
  note verify = verifyAgainstPeer_own [OF c(1) assms(4) gen knowsB assms(6), unfolded key]
  have small: "length text < 4294967000" using assms(7) by simp
  note content = openContent_signedContent [OF verify(2) small signature_def]
  have short: "length (deflate L (signedContentOf (keyAlgorithm A) i text signature)) < 4294960000"
    using assms(8) by (simp add: key signature_def)
  obtain message where m: "sealMessage L M (recipientsOf ?A') (cipherOctet (symmetricCipherPreference ?A'))
      (signedContentOf (keyAlgorithm A) i text signature) = Some message"
    "parseAndDecryptMessageWithAnyOwnSubkey L B message True = yes (text, Some signature)"
    using exchange_opens [OF assms(1) refl short content(2) content(1) [of True]] by auto
  have own: "ownPart ?A' = ownPart A" "ownPart ?B' = ownPart B"
    using import_ownPart(1) [OF importA] import_ownPart(1) [OF importB] by blast+
  have sender: "mayUseIdentity ?A' pw' = mayUseIdentity A pw'" "passwordMatches L ?A' pw' = passwordMatches L A pw'"
    "keyAlgorithm ?A' = keyAlgorithm A" "activeSigningKey ?A' = (r, e, i)"
    using samePart_messages [OF own(1)] by (simp_all add: key)
  have receiver: "mayUseIdentity ?B' pw = mayUseIdentity B pw" "passwordMatches L ?B' pw = passwordMatches L B pw"
    "parseAndDecryptMessageWithAnyOwnSubkey L ?B' message True = yes (text, Some signature)"
    using samePart_messages [OF own(2)] m(2) by simp_all
  have "messageOnePass (keyAlgorithm A) i \<noteq> []" by (simp add: messageOnePass_def buildOnePassSignaturePacket_def writePacket_eq)
  with sender m(1) assms(3) knowsA content(3)
  have "\<forall>buffer. EncryptAndSignBuffer L M t ?A' pw' (Some text) (int (length text)) True buffer
      = copyOut (length (recipientsOf ?A') * 2) buffer message"
    by (simp add: EncryptAndSignBuffer_def buildEncryptedSignedMessageMultiRecipient_def authorised_def knowsMaster_def
        recipientsOf_def Let_def flip: signature_def)
  moreover have "\<forall>room \<ge> int (length text). DecryptAndVerifyBuffer L ?B' pw (Some message) True True (Some room)
      = Some (\<lparr> ansStatus = NO_ERROR, ansWritten = Some text, ansSize = Some (int (length text)) \<rparr>, Some True)"
    using receiver assms(2,7) verify(1) [of "text" t 0] knowsB sealMessage_not_Nil [OF m(1)]
    by (simp add: DecryptAndVerifyBuffer_def decryptAndVerifyForCaller_def authorised_def has_text_def knowsMaster_def
        copyOut_fits flip: signature_def)
  ultimately show ?thesis using importA importB by blast
qed

lemma signed_message_is_decrypted_and_verified_witness:
  "\<exists>B' message. DecryptAndVerifyBuffer sample_lib B' (Some [112, 119]) (Some message) True True (Some 2)
     = Some (\<lparr> ansStatus = NO_ERROR, ansWritten = Some [104, 105], ansSize = Some 2 \<rparr>, Some True)"
proof -
  have uids: "\<forall>uid \<in> set (ownUserIds sample_engine). length (uidText uid) < 4294967296"
    using sample_correspondents by (simp add: correspondents_def)
  from signed_message_is_decrypted_and_verified [OF sample_correspondents sample_authorised sample_authorised
      sample_engine_reachable uids sample_distinct _ sample_signed_short]
  show ?thesis by fastforce
qed

end
