(* ===== verification/EngineQueries.thy ===== *)
theory EngineQueries
  imports EngineFacts
begin

unbundle bit_operations_syntax

text \<open>
  The methods of \<open>CPgpEngine\<close> that report and export (src/src/Pgp/PgpEngine.cpp): armored key
  blocks, key IDs and fingerprints, user IDs and subkeys of the own key and of the peer,
  revocation certificates and their reasons, and the inspection of messages. A pointer to a
  result is a flag that tells whether it is not null; what is stored through it is part of the
  result.
\<close>

section \<open>Settings\<close>

definition GetKeyAlgorithm :: "engine \<Rightarrow> key_algorithm" where
  "GetKeyAlgorithm S = keyAlgorithm S"

definition GetSymmetricCipherPreference :: "engine \<Rightarrow> symmetric_algorithm" where
  "GetSymmetricCipherPreference S = symmetricCipherPreference S"

section \<open>Exporting keys\<close>

definition GetPublicKeyArmoredSize :: "engine \<Rightarrow> int" where
  "GetPublicKeyArmoredSize S =
     (if \<not> ownKeyGenerated S then 0
      else asInt (length (armorEncode ''PGP PUBLIC KEY BLOCK'' (fst (renderOwnKeyBlocks S)))))"

definition GetSecretKeyArmoredSize :: "engine \<Rightarrow> int" where
  "GetSecretKeyArmoredSize S =
     (if \<not> ownKeyGenerated S then 0
      else asInt (length (armorEncode ''PGP PRIVATE KEY BLOCK'' (snd (renderOwnKeyBlocks S)))))"

definition ExportPublicKeyArmored :: "engine \<Rightarrow> bool \<Rightarrow> int option \<Rightarrow> answer option" where
  "ExportPublicKeyArmored S sizeGiven buffer =
     (if \<not> ownKeyGenerated S \<or> \<not> sizeGiven then Some (refused INVALID_ARGUMENT)
      else copyOut 0 buffer (of_text (armorEncode ''PGP PUBLIC KEY BLOCK'' (fst (renderOwnKeyBlocks S)))))"

definition ExportSecretKeyArmored :: "engine \<Rightarrow> bool \<Rightarrow> int option \<Rightarrow> answer option" where
  "ExportSecretKeyArmored S sizeGiven buffer =
     (if \<not> ownKeyGenerated S \<or> \<not> sizeGiven then Some (refused INVALID_ARGUMENT)
      else copyOut 0 buffer (of_text (armorEncode ''PGP PRIVATE KEY BLOCK'' (snd (renderOwnKeyBlocks S)))))"

section \<open>Key IDs and fingerprints as text\<close>

text \<open>The first \<open>n\<close> octets of an array in upper-case hexadecimal, with the NUL that ends them.\<close>

definition hexText :: "nat \<Rightarrow> bytes \<Rightarrow> bytes" where
  "hexText n octets = of_text (concat (map (\<lambda>i. [hexDigit (drop_bit 4 (octets ! i) AND 0xF), hexDigit (octets ! i AND 0xF)]) [0..<n])) @ [0]"

text \<open>A buffer that is null or holds less than \<open>n\<close> octets.\<close>

definition noRoom :: "int option \<Rightarrow> int \<Rightarrow> bool" where
  "noRoom buffer n = (case buffer of None \<Rightarrow> True | Some capacity \<Rightarrow> capacity < n)"

definition GetKeyId :: "engine \<Rightarrow> int option \<Rightarrow> status \<times> bytes option" where
  "GetKeyId S buffer =
     (if noRoom buffer 17 then (BUFFER_TOO_SMALL, None)
      else if \<not> ownKeyGenerated S then (NO_ERROR, Some [0])
      else (NO_ERROR, Some (hexText 8 (ownMasterKeyId S))))"

definition GetKeyFingerprint :: "engine \<Rightarrow> int option \<Rightarrow> status \<times> bytes option" where
  "GetKeyFingerprint S buffer =
     (if noRoom buffer 41 then (BUFFER_TOO_SMALL, None)
      else if \<not> ownKeyGenerated S then (NO_ERROR, Some [0])
      else (NO_ERROR, Some (hexText 20 (ownMasterFingerprint S))))"

definition GetKeyExpirationSeconds :: "engine \<Rightarrow> 32 word" where
  "GetKeyExpirationSeconds S = (if \<not> ownKeyGenerated S then 0 else keyExpirationSeconds S)"

definition GetSubkeyKeyId :: "engine \<Rightarrow> int \<Rightarrow> int option \<Rightarrow> status \<times> bytes option" where
  "GetSubkeyKeyId S subkeyIndex buffer =
     (if noRoom buffer 17 then (BUFFER_TOO_SMALL, None)
      else if \<not> indexOk subkeyIndex (ownSubkeys S) then (INVALID_ARGUMENT, None)
      else (NO_ERROR, Some (hexText 8 (skKeyId (ownSubkeys S ! nat subkeyIndex)))))"

definition GetSubkeyFingerprint :: "engine \<Rightarrow> int \<Rightarrow> int option \<Rightarrow> status \<times> bytes option" where
  "GetSubkeyFingerprint S subkeyIndex buffer =
     (if noRoom buffer 41 then (BUFFER_TOO_SMALL, None)
      else if \<not> indexOk subkeyIndex (ownSubkeys S) then (INVALID_ARGUMENT, None)
      else (NO_ERROR, Some (hexText 20 (skFingerprint (ownSubkeys S ! nat subkeyIndex)))))"

definition GetPeerSubkeyKeyId :: "engine \<Rightarrow> int \<Rightarrow> int option \<Rightarrow> status \<times> bytes option" where
  "GetPeerSubkeyKeyId S subkeyIndex buffer =
     (if noRoom buffer 17 then (BUFFER_TOO_SMALL, None)
      else if \<not> indexOk subkeyIndex (peerSubkeys S) then (INVALID_ARGUMENT, None)
      else (NO_ERROR, Some (hexText 8 (pskKeyId (peerSubkeys S ! nat subkeyIndex)))))"

definition GetPeerKeyId :: "engine \<Rightarrow> int option \<Rightarrow> status \<times> bytes option" where
  "GetPeerKeyId S buffer =
     (if noRoom buffer 17 then (BUFFER_TOO_SMALL, None)
      else if \<not> peerKeyImported S then (NO_ERROR, Some [0])
      else (NO_ERROR, Some (hexText 8 (peerMasterKeyId S))))"

section \<open>User IDs and subkeys\<close>

definition GetUserIdCount :: "engine \<Rightarrow> int" where
  "GetUserIdCount S = (if \<not> ownKeyGenerated S then 0 else asInt (length (ownUserIds S)))"

definition GetUserId :: "engine \<Rightarrow> int \<Rightarrow> bool \<Rightarrow> int option \<Rightarrow> answer option" where
  "GetUserId S userIdIndex sizeGiven buffer =
     (if \<not> sizeGiven \<or> \<not> indexOk userIdIndex (ownUserIds S) then Some (refused INVALID_ARGUMENT)
      else copyOut 0 buffer (uidText (ownUserIds S ! nat userIdIndex)))"

definition GetUserIdIsPrimary :: "engine \<Rightarrow> int \<Rightarrow> bool \<Rightarrow> status \<times> bool option" where
  "GetUserIdIsPrimary S userIdIndex flagGiven =
     (if \<not> flagGiven \<or> \<not> indexOk userIdIndex (ownUserIds S) then (INVALID_ARGUMENT, None)
      else (NO_ERROR, Some (uidIsPrimary (ownUserIds S ! nat userIdIndex))))"

definition GetUserIdIsRevoked :: "engine \<Rightarrow> int \<Rightarrow> bool \<Rightarrow> status \<times> bool option" where
  "GetUserIdIsRevoked S userIdIndex flagGiven =
     (if \<not> flagGiven \<or> \<not> indexOk userIdIndex (ownUserIds S) then (INVALID_ARGUMENT, None)
      else (NO_ERROR, Some (uidIsRevoked (ownUserIds S ! nat userIdIndex))))"

definition GetSubkeyCount :: "engine \<Rightarrow> int" where
  "GetSubkeyCount S = (if \<not> ownKeyGenerated S then 0 else asInt (length (ownSubkeys S)))"

definition GetSubkeyIsRevoked :: "engine \<Rightarrow> int \<Rightarrow> bool \<Rightarrow> status \<times> bool option" where
  "GetSubkeyIsRevoked S subkeyIndex flagGiven =
     (if \<not> flagGiven \<or> \<not> indexOk subkeyIndex (ownSubkeys S) then (INVALID_ARGUMENT, None)
      else (NO_ERROR, Some (skIsRevoked (ownSubkeys S ! nat subkeyIndex))))"

definition GetSubkeyExpirationSeconds :: "engine \<Rightarrow> int \<Rightarrow> bool \<Rightarrow> status \<times> 32 word option" where
  "GetSubkeyExpirationSeconds S subkeyIndex given =
     (if \<not> given \<or> \<not> indexOk subkeyIndex (ownSubkeys S) then (INVALID_ARGUMENT, None)
      else (NO_ERROR, Some (skExpirationSeconds (ownSubkeys S ! nat subkeyIndex))))"

definition GetPeerUserIdCount :: "engine \<Rightarrow> int" where
  "GetPeerUserIdCount S = (if \<not> peerKeyImported S then 0 else asInt (length (peerUserIds S)))"

definition GetPeerUserId :: "engine \<Rightarrow> int \<Rightarrow> bool \<Rightarrow> int option \<Rightarrow> answer option" where
  "GetPeerUserId S userIdIndex sizeGiven buffer =
     (if \<not> sizeGiven \<or> \<not> indexOk userIdIndex (peerUserIds S) then Some (refused INVALID_ARGUMENT)
      else copyOut 0 buffer (puText (peerUserIds S ! nat userIdIndex)))"

definition GetPeerSubkeyCount :: "engine \<Rightarrow> int" where
  "GetPeerSubkeyCount S = (if \<not> peerKeyImported S then 0 else asInt (length (peerSubkeys S)))"

section \<open>Revocation certificates\<close>

definition RevokeKeyArmored ::
  "crypto \<Rightarrow> 32 word \<Rightarrow> engine \<Rightarrow> bytes option \<Rightarrow> byte \<Rightarrow> bytes option \<Rightarrow> bool \<Rightarrow> int option \<Rightarrow> answer option" where
  "RevokeKeyArmored L now S password reasonCode reasonText sizeGiven buffer =
     (if \<not> mayUseIdentity S password \<or> \<not> sizeGiven then Some (refused INVALID_ARGUMENT)
      else if \<not> passwordMatches L S password then Some (refused INVALID_ARGUMENT)
      else
        let document = buildKeyHashPrefix (buildOwnMasterPubBody S);
            revocationSigPacket = ownSignature L S now 0x20 document (buildRevocationReasonSubpacket reasonCode reasonText)
        in if revocationSigPacket = [] then Some (refused UNEXPECTED_ERROR)
           else copyOut 0 buffer (of_text (armorEncode ''PGP PUBLIC KEY BLOCK'' revocationSigPacket)))"

text \<open>The reason code is stored before the size of the buffer is looked at.\<close>

definition GetRevocationReason :: "bytes option \<Rightarrow> bool \<Rightarrow> bool \<Rightarrow> int option \<Rightarrow> (answer \<times> byte option) option" where
  "GetRevocationReason revocationCertArmored codeGiven sizeGiven buffer =
     (if \<not> has_text revocationCertArmored \<or> \<not> codeGiven \<or> \<not> sizeGiven then Some (refused INVALID_ARGUMENT, None)
      else on_read (armorDecode (to_text (the revocationCertArmored))) (refused INVALID_DATA, None)
        (\<lambda>(blockType, signaturePacketBytes).
        on_read (readPacketHeader signaturePacketBytes 0 None False) (refused INVALID_DATA, None) (\<lambda>(checkTag, n, pos, part).
          if checkTag \<noteq> PGP_TAG_SIGNATURE then Some (refused INVALID_DATA, None)
          else do {
            found \<leftarrow> findRevocationReasonInSignaturePacket signaturePacketBytes;
            let (foundReasonCode, foundReasonText) = (case found of None \<Rightarrow> (0, []) | Some r \<Rightarrow> r);
            a \<leftarrow> copyOut 0 buffer (foundReasonText @ [0]);
            Some (a, Some foundReasonCode) })))"

section \<open>Inspecting messages\<close>

text \<open>A question about a message, answered from the report on it.\<close>

definition messageQuery :: "crypto \<Rightarrow> bytes option \<Rightarrow> bool \<Rightarrow> (inspected_message \<Rightarrow> 'a) \<Rightarrow> (status \<times> 'a option) option" where
  "messageQuery L input given answer =
     (if \<not> has_text input \<or> \<not> given then Some (INVALID_ARGUMENT, None)
      else on_read (inspectMessageBuffer L (the input)) (INVALID_DATA, None) (\<lambda>m. Some (NO_ERROR, Some (answer m))))"

definition IsPublicKeyEncrypted :: "crypto \<Rightarrow> bytes option \<Rightarrow> bool \<Rightarrow> (status \<times> bool option) option" where
  "IsPublicKeyEncrypted L input given = messageQuery L input given imHasPkesk"

definition IsPasswordEncrypted :: "crypto \<Rightarrow> bytes option \<Rightarrow> bool \<Rightarrow> (status \<times> bool option) option" where
  "IsPasswordEncrypted L input given = messageQuery L input given imHasSkesk"

definition IsIntegrityProtected :: "crypto \<Rightarrow> bytes option \<Rightarrow> bool \<Rightarrow> (status \<times> bool option) option" where
  "IsIntegrityProtected L input given = messageQuery L input given imHasIntegrityProtectedData"

text \<open>The algorithm, \<open>-1\<close> for data that is not compressed, \<open>-2\<close> when encryption hides the answer.\<close>

definition compressionOf :: "inspected_message \<Rightarrow> int" where
  "compressionOf m =
     (if imHasCompressedData m then int (unat (imCompressionAlgorithm m))
      else if imHasIntegrityProtectedData m \<or> imHasUnprotectedEncryptedData m then -2
      else -1)"

definition GetCompression :: "crypto \<Rightarrow> bytes option \<Rightarrow> bool \<Rightarrow> (status \<times> int option) option" where
  "GetCompression L input given = messageQuery L input given compressionOf"

text \<open>The lists: records with a fixed stride, and the number of them.\<close>

definition listRecords ::
  "crypto \<Rightarrow> bytes option \<Rightarrow> bool \<Rightarrow> bool \<Rightarrow> int option \<Rightarrow> (inspected_message \<Rightarrow> string list) \<Rightarrow> (answer \<times> int option) option" where
  "listRecords L input sizeGiven countGiven buffer records =
     (if \<not> has_text input \<or> \<not> sizeGiven \<or> \<not> countGiven then Some (refused INVALID_ARGUMENT, None)
      else on_read (inspectMessageBuffer L (the input)) (refused INVALID_DATA, None) (\<lambda>m. do {
        a \<leftarrow> writeInspectionRecords buffer (concat (map (\<lambda>r. r @ [CHR 0x00]) (records m)));
        Some (a, Some (asInt (length (records m)))) }))"

definition recipientRecords :: "inspected_message \<Rightarrow> string list" where
  "recipientRecords m = map (formatInspectionKeyIdHex True) (imRecipientKeyIds m)"

definition issuerRecord :: "inspected_signature \<Rightarrow> string" where
  "issuerRecord s = formatInspectionKeyIdHex (isHaveIssuerKeyId s) (isIssuerKeyId s)"

definition signatureRecord :: "inspected_signature \<Rightarrow> string" where
  "signatureRecord s = issuerRecord s @ '':'' @ formatInspectionOctetHex (isSignatureType s)
     @ '':'' @ formatInspectionOctetHex (isHashAlgorithm s)"

definition ListEncryptionKeyIds :: "crypto \<Rightarrow> bytes option \<Rightarrow> bool \<Rightarrow> bool \<Rightarrow> int option \<Rightarrow> (answer \<times> int option) option" where
  "ListEncryptionKeyIds L input sizeGiven countGiven buffer = listRecords L input sizeGiven countGiven buffer recipientRecords"

definition ListSigningKeyIds :: "crypto \<Rightarrow> bytes option \<Rightarrow> bool \<Rightarrow> bool \<Rightarrow> int option \<Rightarrow> (answer \<times> int option) option" where
  "ListSigningKeyIds L input sizeGiven countGiven buffer =
     listRecords L input sizeGiven countGiven buffer (\<lambda>m. map issuerRecord (imSignatures m))"

definition ListSignatures :: "crypto \<Rightarrow> bytes option \<Rightarrow> bool \<Rightarrow> bool \<Rightarrow> int option \<Rightarrow> (answer \<times> int option) option" where
  "ListSignatures L input sizeGiven countGiven buffer =
     listRecords L input sizeGiven countGiven buffer (\<lambda>m. map signatureRecord (imSignatures m))"

section \<open>The report on all packets\<close>

text \<open>\<open>std::to_string\<close> on the numbers that the report shows.\<close>

fun decimal :: "nat \<Rightarrow> string" where
  "decimal n = (if n < 10 then [''0123456789'' ! n] else decimal (n div 10) @ [''0123456789'' ! (n mod 10)])"

declare decimal.simps [simp del]

definition newLine :: string where "newLine = [CHR 0x0A]"

definition presence :: "bool \<Rightarrow> string" where
  "presence b = (if b then ''present'' else ''absent'') @ newLine"

definition compressionReport :: "inspected_message \<Rightarrow> string" where
  "compressionReport m =
     (if imHasCompressedData m then ''Compressed Data: algo='' @ decimal (unat (imCompressionAlgorithm m)) @ newLine
      else if imHasIntegrityProtectedData m \<or> imHasUnprotectedEncryptedData m then ''Compressed Data: unknown (needs decryption)'' @ newLine
      else ''Compressed Data: absent'' @ newLine)"

definition signatureReport :: "inspected_signature \<Rightarrow> string" where
  "signatureReport s = ''  sigType=0x'' @ formatInspectionOctetHex (isSignatureType s)
     @ '' hashAlgo='' @ decimal (unat (isHashAlgorithm s)) @ '' issuerKeyid='' @ issuerRecord s @ newLine"

definition hiddenNote :: "inspected_message \<Rightarrow> string" where
  "hiddenNote m =
     (if (imHasIntegrityProtectedData m \<or> imHasUnprotectedEncryptedData m) \<and> imSignatures m = [] then
        ''(note: any One-Pass-Signature/Signature packets embedded inside the encrypted ''
        @ ''container above are not visible without decrypting -- this method inspects the ''
        @ ''outer envelope only)'' @ newLine
      else [])"

definition packetReport :: "inspected_message \<Rightarrow> string" where
  "packetReport m =
     ''PKESK (public-key encrypted session key) packets: '' @ decimal (length (imRecipientKeyIds m)) @ newLine
     @ concat (map (\<lambda>k. ''  recipient keyid='' @ formatInspectionKeyIdHex True k @ newLine) (imRecipientKeyIds m))
     @ ''SKESK (symmetric-key encrypted session key): '' @ presence (imHasSkesk m)
     @ ''Integrity-protected encrypted data (SEIP/AEAD): '' @ presence (imHasIntegrityProtectedData m)
     @ ''Unprotected encrypted data (SED, obsolete): '' @ presence (imHasUnprotectedEncryptedData m)
     @ compressionReport m
     @ ''Signatures visible without decryption: '' @ decimal (length (imSignatures m)) @ newLine
     @ concat (map signatureReport (imSignatures m))
     @ hiddenNote m"

definition ListPackets :: "crypto \<Rightarrow> bytes option \<Rightarrow> bool \<Rightarrow> int option \<Rightarrow> answer option" where
  "ListPackets L input sizeGiven buffer =
     (if \<not> has_text input \<or> \<not> sizeGiven then Some (refused INVALID_ARGUMENT)
      else on_read (inspectMessageBuffer L (the input)) (refused INVALID_DATA)
        (\<lambda>m. copyOut 0 buffer (of_text (packetReport m))))"


section \<open>Facts shared by the properties\<close>

lemma armorDecode_keyBlock: "armorDecode (armorEncode ''PGP PUBLIC KEY BLOCK'' m) = yes (''PGP PUBLIC KEY BLOCK'', m)"
  using armorDecode_armorWithChecksum [of "''PGP PUBLIC KEY BLOCK''" m m] by (simp add: armorEncode_armorWithChecksum)

text \<open>A revocation certificate, as the reader of reasons sees it.\<close>

lemma reason_of_own_revocation:
  assumes "master_ok L S" "digests_ok L" "reason_fits why"
  shows "findRevocationReasonInSignaturePacket (ownSignature L S t st doc (buildRevocationReasonSubpacket code why))
      = yes (code, case why of None \<Rightarrow> [] | Some w \<Rightarrow> w)"
    and "\<exists>n pos. readPacketHeader (ownSignature L S t st doc (buildRevocationReasonSubpacket code why)) 0 None False
      = yes (PGP_TAG_SIGNATURE, n, pos, False)"
proof -
  obtain pk h u l m where sig: "ownSignature L S t st doc (buildRevocationReasonSubpacket code why)
      = writePacket PGP_TAG_SIGNATURE (signatureBody st pk h (signatureHashedSubpackets t (buildRevocationReasonSubpacket code why)) u l m)"
    "length (signatureBody st pk h (signatureHashedSubpackets t (buildRevocationReasonSubpacket code why)) u l m) < 4294967296"
    using sign_body [OF assms(1,2) length_reasonSubpacket [OF assms(3)]] .
  show "findRevocationReasonInSignaturePacket (ownSignature L S t st doc (buildRevocationReasonSubpacket code why))
      = yes (code, case why of None \<Rightarrow> [] | Some w \<Rightarrow> w)"
    unfolding sig(1) by (rule reason_read [OF assms(3) sig(2)])
  show "\<exists>n pos. readPacketHeader (ownSignature L S t st doc (buildRevocationReasonSubpacket code why)) 0 None False
      = yes (PGP_TAG_SIGNATURE, n, pos, False)"
    unfolding sig(1) using readPacketHeader_at(1) [OF _ sig(2), of PGP_TAG_SIGNATURE _ "[]" "[]" 0] by simp
qed

section \<open>Properties\<close>

text \<open>The revocation certificate that the engine issues for its key is a type 0x20 signature of its
  master key over that key, so it verifies, and \<open>GetRevocationReason\<close> on the armored certificate returns the
  reason code and the text it was issued with, the text with its terminating NUL.\<close>

theorem revocation_certificate_states_its_reason:
  assumes "lib_ok L" "reachable L S" "authorised L S pw" "reason_fits why"
  shows "\<exists>certificate.
      (\<forall>buffer. RevokeKeyArmored L t S pw code why True buffer
         = copyOut 0 buffer (of_text (armorEncode ''PGP PUBLIC KEY BLOCK'' certificate)))
    \<and> verifyOwn L S (buildKeyHashPrefix (buildOwnMasterPubBody S)) certificate = yes True
    \<and> (\<forall>room > int (length (case why of None \<Rightarrow> [] | Some w \<Rightarrow> w)).
         GetRevocationReason (Some (of_text (armorEncode ''PGP PUBLIC KEY BLOCK'' certificate))) True True (Some room)
           = Some (\<lparr> ansStatus = NO_ERROR, ansWritten = Some ((case why of None \<Rightarrow> [] | Some w \<Rightarrow> w) @ [0]),
                     ansSize = Some (int (length (case why of None \<Rightarrow> [] | Some w \<Rightarrow> w)) + 1) \<rparr>, Some code))"
proof -
  define certificate where "certificate = ownSignature L S t 0x20 (buildKeyHashPrefix (buildOwnMasterPubBody S))
    (buildRevocationReasonSubpacket code why)"
  have gen: "ownKeyGenerated S" using assms(3) by (simp add: authorised_def mayUseIdentity_def)
  have m: "master_ok L S" and d: "digests_ok L"
    using reachable_identity_inv [OF assms(2,1)] gen assms(1) by (simp_all add: identity_inv_def lib_ok_def)
  note reason = reason_of_own_revocation [OF m d assms(4), where t = t and st = "0x20" and code = code
      and doc = "buildKeyHashPrefix (buildOwnMasterPubBody S)", folded certificate_def]
  have short: "length (case why of None \<Rightarrow> [] | Some w \<Rightarrow> w) < 65520"
    using assms(4) by (auto simp: reason_fits_def split: option.splits)
  have "verifyOwn L S (buildKeyHashPrefix (buildOwnMasterPubBody S)) certificate = yes True"
    unfolding certificate_def by (rule verifyOwn_sign [OF m d length_reasonSubpacket [OF assms(4)]])
  moreover have "RevokeKeyArmored L t S pw code why True buffer
      = copyOut 0 buffer (of_text (armorEncode ''PGP PUBLIC KEY BLOCK'' certificate))" for buffer
    using assms(3) by (simp add: RevokeKeyArmored_def authorised_def Let_def flip: certificate_def)
  ultimately show ?thesis
    using reason short
    by (intro exI [of _ certificate]) (auto simp: GetRevocationReason_def has_text_def armorDecode_keyBlock copyOut_fits)
qed

lemma revocation_certificate_states_its_reason_witness:
  "\<exists>certificate. GetRevocationReason (Some certificate) True True (Some 10)
     = Some (\<lparr> ansStatus = NO_ERROR, ansWritten = Some [111, 108, 100, 0], ansSize = Some 4 \<rparr>, Some 3)"
proof -
  have "reason_fits (Some [111, 108, 100])" by (simp add: reason_fits_def)
  from revocation_certificate_states_its_reason [OF sample_lib_lib_ok sample_engine_reachable sample_authorised this, of 0 3]
  obtain c where "\<forall>room > int (length [111, 108, 100 :: byte]). GetRevocationReason (Some (of_text (armorEncode ''PGP PUBLIC KEY BLOCK'' c))) True True (Some room)
      = Some (\<lparr> ansStatus = NO_ERROR, ansWritten = Some ([111, 108, 100] @ [0]), ansSize = Some (int (length [111, 108, 100 :: byte]) + 1) \<rparr>, Some 3)"
    by (simp only: option.case) blast
  then show ?thesis by (intro exI [of _ "of_text (armorEncode ''PGP PUBLIC KEY BLOCK'' c)"]) simp
qed

text \<open>C38: The size of the plaintext is compared with the capacity as an \<open>int\<close>: a plaintext of at least
  \<open>2 ^ 31\<close> octets counts as negative, passes the check, and is copied past the end of the buffer, whatever
  capacity the caller states.\<close>

theorem oversized_plaintext_overruns:
  assumes "authorised L B pw" "has_text (Some message)"
    and "parseAndDecryptMessageWithAnyOwnSubkey L B message False = yes (text, sig)"
    and "2147483648 \<le> length text" "length text < 4294967296" "0 \<le> capacity" "capacity < 2147483648"
  shows "DecryptBuffer L B pw (Some message) True (Some capacity) = None"
proof -
  have "asInt (length text) < 0" "int (length text) > capacity" using asInt_big [OF assms(4,5)] assms(4,7) by simp_all
  then have "copyOut 0 (Some capacity) text = None" using assms(6) by (simp add: copyOut_def)
  with assms(1-3) show ?thesis by (simp add: DecryptBuffer_def decryptForCaller_def authorised_def)
qed

lemma oversized_plaintext_overruns_witness:
  "\<exists>message. DecryptBuffer sample_lib sample_engine (Some [112, 119]) (Some message) True (Some 4096) = None"
proof -
  define huge :: bytes where "huge = replicate 2147483648 0"
  have n: "length huge = 2147483648" by (simp only: huge_def length_replicate)
  then have small: "length huge < 4294967000" by simp
  have "length (deflate sample_lib (literalPacketOf huge)) < 4294960000"
    by (simp add: sample_deflate literalPacketOf_def length_writePacket newFormatLengthOctets_def appendBigEndian32_def n)
  from exchange_opens [OF sample_correspondents refl this literal_plain [OF small] openContent_literal(1) [OF small]]
  obtain message where m: "parseAndDecryptMessageWithAnyOwnSubkey sample_lib sample_engine message False = yes (huge, None)"
    "message \<noteq> []" using sealMessage_not_Nil by blast
  have "DecryptBuffer sample_lib sample_engine (Some [112, 119]) (Some message) True (Some 4096) = None"
    by (rule oversized_plaintext_overruns [OF sample_authorised _ m(1)]) (simp_all add: n m(2) has_text_def)
  then show ?thesis by blast
qed

end
