(* ===== verification/ClearSign.thy ===== *)
theory ClearSign
  imports EngineFacts
begin

unbundle bit_operations_syntax

text \<open>
  Clear-signed text (src/src/Pgp/PgpEngine.cpp, \<open>splitAndCanonicalizeLines\<close>,
  \<open>ClearSignString\<close>, \<open>parseClearSignedBody\<close>, \<open>VerifyClearSignedString\<close>,
  \<open>ExtractClearSignedText\<close>): the canonical lines of a text, the block that shows and signs them,
  and the reader of such a block. The lemmas say for which texts the reader finds the octets that
  the writer signed; the properties add texts for which it does not.
\<close>

section \<open>Canonical lines\<close>

definition blank :: "char \<Rightarrow> bool" where
  "blank c \<longleftrightarrow> c = CHR '' '' \<or> c = CHR 0x09"

text \<open>A text without the blanks at its end, and a line without its carriage return and those.\<close>

definition stripBlanks :: "string \<Rightarrow> string" where
  "stripBlanks l = rev (dropWhile blank (rev l))"

definition canonicalLine :: "string \<Rightarrow> string" where
  "canonicalLine current = stripBlanks (if current \<noteq> [] \<and> last current = CR then butlast current else current)"

fun splitLoop :: "string \<Rightarrow> string list \<Rightarrow> string \<Rightarrow> string list" where
  "splitLoop current lines [] = (if current \<noteq> [] \<or> lines \<noteq> [] then lines @ [canonicalLine current] else lines)"
| "splitLoop current lines (c # cs) =
     (if c = LF then splitLoop [] (lines @ [canonicalLine current]) cs
      else splitLoop (current @ [c]) lines cs)"

definition splitAndCanonicalizeLines :: "string \<Rightarrow> string list" where
  "splitAndCanonicalizeLines source = splitLoop [] [] source"

text \<open>The octets that are signed: the lines with CRLF between them and none after the last.\<close>

fun joinLines :: "string list \<Rightarrow> string" where
  "joinLines [] = []"
| "joinLines [l] = l"
| "joinLines (l # m # ls) = l @ [CR, LF] @ joinLines (m # ls)"

section \<open>Writing the block\<close>

definition dashEscape :: "string \<Rightarrow> string" where
  "dashEscape l = (if l \<noteq> [] \<and> hd l = CHR ''-'' then ''- '' @ l else l)"

definition clearSignHeader :: "key_algorithm \<Rightarrow> string" where
  "clearSignHeader alg = clearSignMark @ [CR, LF]
     @ (if alg = PGP_KEY_ALGORITHM_RSA then ''Hash: SHA256'' else ''Hash: SHA512'') @ [CR, LF, CR, LF]"

definition clearSignedBlock :: "key_algorithm \<Rightarrow> string list \<Rightarrow> bytes \<Rightarrow> string" where
  "clearSignedBlock alg lines sigPacket =
     clearSignHeader alg @ concat (map (\<lambda>l. dashEscape l @ [CR, LF]) lines) @ armorEncode ''PGP SIGNATURE'' sigPacket"

definition ClearSignString ::
  "crypto \<Rightarrow> 32 word \<Rightarrow> engine \<Rightarrow> bytes option \<Rightarrow> bytes option \<Rightarrow> int \<Rightarrow> bool \<Rightarrow> int option \<Rightarrow> answer option" where
  "ClearSignString L now S password inputString inputStringSize sizeGiven buffer =
     (if \<not> mayUseIdentity S password \<or> inputString = None \<or> inputStringSize < 0 \<or> \<not> sizeGiven
      then Some (refused INVALID_ARGUMENT)
      else if \<not> passwordMatches L S password then Some (refused INVALID_ARGUMENT)
      else
        let lines = splitAndCanonicalizeLines (to_text (take (nat inputStringSize) (the inputString)));
            documentData = of_text (joinLines lines);
            sigPacket = documentSignature L now (keyAlgorithm S) (activeSigningKey S) documentData 0x01
        in if sigPacket = [] then Some (refused UNEXPECTED_ERROR)
           else copyOut 0 buffer (of_text (clearSignedBlock (keyAlgorithm S) lines sigPacket)))"

section \<open>Reading the block\<close>

definition dashUnescape :: "string \<Rightarrow> string" where
  "dashUnescape l = stripBlanks (if take 2 l = ''- '' then drop 2 l else l)"

text \<open>An empty last line is dropped.\<close>

definition bodyLines :: "string \<Rightarrow> string list" where
  "bodyLines bodySection =
     (let rawLines = armorLines [] bodySection
      in if rawLines \<noteq> [] \<and> last rawLines = [] then butlast rawLines else rawLines)"

definition parseClearSignedBody :: "string \<Rightarrow> bool \<Rightarrow> (bytes \<times> bytes option) cpp" where
  "parseClearSignedBody source wantSignature =
     (case text_find source clearSignMark 0 of None \<Rightarrow> no | Some beginPos \<Rightarrow>
      case armorDataStart source beginPos of None \<Rightarrow> no | Some bodyStart \<Rightarrow>
      case text_find source signatureMark bodyStart of None \<Rightarrow> no | Some sigBeginPos \<Rightarrow>
      let documentData = of_text (joinLines (map dashUnescape (bodyLines (take (sigBeginPos - bodyStart) (drop bodyStart source)))))
      in if wantSignature
         then on_true (armorDecode (drop sigBeginPos source)) (\<lambda>(blockType, sigPacketBytes). yes (documentData, Some sigPacketBytes))
         else yes (documentData, None))"

definition VerifyClearSignedString ::
  "crypto \<Rightarrow> engine \<Rightarrow> bytes option \<Rightarrow> bool \<Rightarrow> (status \<times> bool option) option" where
  "VerifyClearSignedString L S clearSignedString flagGiven =
     (if \<not> peerKeyImported S \<or> \<not> has_text clearSignedString \<or> \<not> flagGiven then Some (INVALID_ARGUMENT, None)
      else on_read (parseClearSignedBody (to_text (the clearSignedString)) True) (INVALID_DATA, None)
        (\<lambda>(documentData, sigPacketBytes).
        on_read (verifyAgainstPeer L S documentData (case sigPacketBytes of None \<Rightarrow> [] | Some s \<Rightarrow> s)) (INVALID_DATA, None)
          (\<lambda>verified. Some (NO_ERROR, Some verified))))"

definition ExtractClearSignedText :: "bytes option \<Rightarrow> bool \<Rightarrow> int option \<Rightarrow> answer option" where
  "ExtractClearSignedText clearSignedString sizeGiven buffer =
     (if \<not> has_text clearSignedString \<or> \<not> sizeGiven then Some (refused INVALID_ARGUMENT)
      else on_read (parseClearSignedBody (to_text (the clearSignedString)) False) (refused INVALID_DATA)
        (\<lambda>(documentData, sig). copyOut 0 buffer documentData))"

section \<open>Canonical lines: shape\<close>

lemma stripBlanks_idem [simp]: "stripBlanks (stripBlanks l) = stripBlanks l"
proof -
  have "dropWhile blank (dropWhile blank xs) = dropWhile blank xs" for xs
    by (induction xs) auto
  then show ?thesis by (simp add: stripBlanks_def)
qed

lemma stripBlanks_set: "set (stripBlanks l) \<subseteq> set l"
  using set_dropWhileD [of _ blank "rev l"] by (auto simp: stripBlanks_def)

lemma canonicalLine_set: "set (canonicalLine l) \<subseteq> set l"
  using stripBlanks_set [of "butlast l"] stripBlanks_set [of l] in_set_butlastD [of _ l]
  by (auto simp: canonicalLine_def split: if_splits)

text \<open>A line as the writer leaves it: no line feed, no blank at the end.\<close>

definition canonical :: "string \<Rightarrow> bool" where
  "canonical l \<longleftrightarrow> LF \<notin> set l \<and> stripBlanks l = l"

lemma canonicalLine_canonical: "LF \<notin> set l \<Longrightarrow> canonical (canonicalLine l)"
  using canonicalLine_set [of l] by (auto simp: canonical_def canonicalLine_def)

lemma splitLoop_canonical:
  "LF \<notin> set current \<Longrightarrow> \<forall>l \<in> set lines. canonical l \<Longrightarrow> \<forall>l \<in> set (splitLoop current lines cs). canonical l"
  by (induction current lines cs rule: splitLoop.induct) (auto simp: canonicalLine_canonical)

lemma split_canonical: "l \<in> set (splitAndCanonicalizeLines source) \<Longrightarrow> canonical l"
  using splitLoop_canonical [of "[]" "[]" source] by (auto simp: splitAndCanonicalizeLines_def)

lemma dashUnescape_dashEscape: "canonical l \<Longrightarrow> dashUnescape (dashEscape l) = l"
  by (cases l) (auto simp: dashUnescape_def dashEscape_def canonical_def)

section \<open>Finding the marks\<close>

lemma find_at_line:
  assumes "CR \<notin> set pat" "find_at pat i xs = None"
  shows "find_at pat i (xs @ CR # ys) = find_at pat (i + length xs) (CR # ys)"
  using assms(2)
proof (induction xs arbitrary: i)
  case (Cons x xs)
  have "take (length pat) (x # xs @ CR # ys) \<noteq> pat"
  proof
    assume eq: "take (length pat) (x # xs @ CR # ys) = pat"
    show False
    proof (cases "length pat \<le> length (x # xs)")
      case True
      then have "take (length pat) (x # xs @ CR # ys) = take (length pat) (x # xs)" by (cases pat) simp_all
      with eq Cons.prems show False by simp
    next
      case False
      then obtain m where "length pat = length (x # xs) + Suc m" by (metis less_natE not_le add_Suc_right)
      then have "CR \<in> set (take (length pat) ((x # xs) @ CR # ys))" by simp
      with eq assms(1) show False by simp
    qed
  qed
  moreover have "find_at pat (i + 1) xs = None" using Cons.prems by (simp split: if_splits)
  ultimately show ?case using Cons.IH [of "i + 1"] by simp
qed simp

lemma signatureMark_chars: "CR \<notin> set signatureMark" "signatureMark \<noteq> []" "hd signatureMark = CHR ''-''"
  by (simp_all add: signatureMark_def)

lemma find_mark_blank:
  "c \<noteq> CHR ''-'' \<Longrightarrow> find_at signatureMark i (c # ys) = find_at signatureMark (i + 1) ys"
  by (simp add: signatureMark_def)

lemma find_at_None_shift: "find_at pat i xs = None \<Longrightarrow> find_at pat j xs = None"
  by (induction xs arbitrary: i j) (auto split: if_splits)

lemma find_mark_escaped: "find_at signatureMark i xs = None \<Longrightarrow> find_at signatureMark i (dashEscape xs) = None"
proof -
  assume none: "find_at signatureMark i xs = None"
  from find_at_None_shift [OF this, of "i + 1 + 1"]
  have "find_at signatureMark i (''- '' @ xs) = None"
    by (simp add: signatureMark_def)
  with none show ?thesis by (simp add: dashEscape_def)
qed

text \<open>The lines of a block are searched up to the signature when no line contains its mark.\<close>

definition markFree :: "string \<Rightarrow> bool" where
  "markFree l \<longleftrightarrow> find_at signatureMark 0 l = None"

abbreviation shownLines :: "string list \<Rightarrow> string" where
  "shownLines lines \<equiv> concat (map (\<lambda>l. dashEscape l @ [CR, LF]) lines)"

lemma find_mark_body:
  "\<forall>l \<in> set lines. markFree l \<Longrightarrow>
    find_at signatureMark i (shownLines lines @ ys) = find_at signatureMark (i + length (shownLines lines)) ys"
proof (induction lines arbitrary: i)
  case (Cons l lines)
  let ?rest = "shownLines lines @ ys"
  have "find_at signatureMark i l = None"
    using Cons.prems find_at_None_shift by (auto simp: markFree_def)
  from find_at_line [OF signatureMark_chars(1) find_mark_escaped [OF this], of "LF # ?rest"]
  have "find_at signatureMark i (dashEscape l @ CR # LF # ?rest)
      = find_at signatureMark (i + length (dashEscape l) + 1 + 1) ?rest"
    by (simp add: find_mark_blank del: find_at.simps)
  with Cons.IH [of "i + length (dashEscape l) + 2"] Cons.prems show ?case by (simp add: add.assoc)
qed simp

lemma armorLines_body:
  "\<forall>l \<in> set lines. LF \<notin> set l \<and> CR \<notin> set l \<Longrightarrow>
    armorLines [] (shownLines lines @ ys) = map dashEscape lines @ armorLines [] ys"
proof (induction lines)
  case (Cons l lines)
  then have "CR \<notin> set (dashEscape l)" "LF \<notin> set (dashEscape l)" by (auto simp: dashEscape_def)
  with Cons show ?case by (simp add: armorLines_line)
qed simp

section \<open>The block is read back\<close>

lemma armorDecode_signature: "armorDecode (armorEncode ''PGP SIGNATURE'' s) = yes (''PGP SIGNATURE'', s)"
  using armorDecode_armorWithChecksum [of "''PGP SIGNATURE''" s s] by (simp add: armorEncode_armorWithChecksum)

lemma armorEncode_mark: "\<exists>ys. armorEncode ''PGP SIGNATURE'' s = signatureMark @ ys"
  by (simp add: armorEncode_def beginMark_def dashes_def signatureMark_def)

lemma header_blank_line:
  "armorDataStart (clearSignHeader alg @ body) 0 = Some (length (clearSignHeader alg))"
proof -
  have crlf: "find_at [CR, LF, CR, LF] 0 (clearSignHeader alg @ body) = Some 48"
    by (simp add: clearSignHeader_def clearSignMark_def)
  have lf: "find_at [LF, LF] 0 (clearSignHeader alg @ body) = Some k \<Longrightarrow> 48 \<le> k" for k
    by (auto simp: clearSignHeader_def clearSignMark_def dest!: find_at_ge split: if_splits)
  have "length (clearSignHeader alg) = 52" by (simp add: clearSignHeader_def clearSignMark_def)
  with crlf lf show ?thesis
    by (auto simp: armorDataStart_def text_find_def split: option.split)
qed

text \<open>What the reader makes of a block whose body ends at the first mark in it.\<close>

lemma parse_block:
  assumes src: "source = clearSignHeader alg @ body @ signatureMark @ ys"
    and found: "\<And>i. find_at signatureMark i (body @ signatureMark @ ys) = Some (i + length body)"
  shows "parseClearSignedBody source want =
    (let documentData = of_text (joinLines (map dashUnescape (bodyLines body)))
     in if want then on_true (armorDecode (signatureMark @ ys)) (\<lambda>(blockType, sig). yes (documentData, Some sig))
        else yes (documentData, None))"
proof -
  let ?head = "clearSignHeader alg"
  have "clearSignMark \<noteq> []" by (simp add: clearSignMark_def)
  then have begin_pos: "text_find source clearSignMark 0 = Some 0"
    by (simp add: text_find_def src clearSignHeader_def)
  have start: "armorDataStart source 0 = Some (length ?head)"
    unfolding src by (rule header_blank_line)
  have mark: "text_find source signatureMark (length ?head) = Some (length ?head + length body)"
    unfolding src text_find_at by (rule found)
  have "take (length ?head + length body - length ?head) (drop (length ?head) source) = body"
    "drop (length ?head + length body) source = signatureMark @ ys"
    by (simp_all add: src)
  then show ?thesis
    unfolding parseClearSignedBody_def begin_pos start mark option.case Let_def by simp
qed

text \<open>The condition under which the reader sees every line.\<close>

definition readable :: "string list \<Rightarrow> bool" where
  "readable lines \<longleftrightarrow> (\<forall>l \<in> set lines. CR \<notin> set l \<and> markFree l)"

lemma unescape_lines: "\<forall>l \<in> set lines. canonical l \<Longrightarrow> map dashUnescape (map dashEscape lines) = lines"
  by (simp add: dashUnescape_dashEscape map_idI)

lemma parse_clearSigned:
  assumes "\<forall>l \<in> set lines. canonical l" "readable lines"
  shows "parseClearSignedBody (clearSignedBlock alg lines sig) want
    = yes (of_text (joinLines (if lines \<noteq> [] \<and> last lines = [] then butlast lines else lines)), if want then Some sig else None)"
proof -
  obtain ys where ys: "armorEncode ''PGP SIGNATURE'' sig = signatureMark @ ys" using armorEncode_mark by blast
  have src: "clearSignedBlock alg lines sig = clearSignHeader alg @ shownLines lines @ signatureMark @ ys"
    by (simp add: clearSignedBlock_def ys)
  have free: "\<forall>l \<in> set lines. markFree l" "\<forall>l \<in> set lines. LF \<notin> set l \<and> CR \<notin> set l"
    using assms by (auto simp: readable_def canonical_def)
  have found: "find_at signatureMark i (shownLines lines @ signatureMark @ ys) = Some (i + length (shownLines lines))" for i
    using find_at_here [OF signatureMark_chars(2)] by (simp add: find_mark_body [OF free(1)])
  have "armorLines [] (shownLines lines) = map dashEscape lines"
    using armorLines_body [OF free(2), of "[]"] by simp
  moreover have "last (map dashEscape lines) = [] \<longleftrightarrow> last lines = []" if "lines \<noteq> []"
    using that by (simp add: last_map dashEscape_def)
  ultimately have "map dashUnescape (bodyLines (shownLines lines))
      = (if lines \<noteq> [] \<and> last lines = [] then butlast lines else lines)"
    using unescape_lines [of lines] unescape_lines [of "butlast lines"] assms(1) in_set_butlastD [of _ lines]
    by (auto simp: bodyLines_def Let_def map_butlast [symmetric] simp del: map_map)
  then show ?thesis
    unfolding parse_block [OF src found] Let_def ys [symmetric] armorDecode_signature by simp
qed

text \<open>A line that starts with the mark ends the text for the reader.\<close>

lemma parse_cut:
  assumes "\<forall>l \<in> set lines. canonical l" "readable lines"
  shows "parseClearSignedBody (clearSignedBlock alg (lines @ (signatureMark @ l) # others) sig) False
    = yes (of_text (joinLines (lines @ [[]])), None)"
proof -
  let ?body = "shownLines lines @ ''- ''"
  obtain ys where src: "clearSignedBlock alg (lines @ (signatureMark @ l) # others) sig = clearSignHeader alg @ ?body @ signatureMark @ ys"
    using signatureMark_chars(2,3) by (simp add: clearSignedBlock_def dashEscape_def)
  have free: "\<forall>l \<in> set lines. markFree l" "\<forall>l \<in> set lines. LF \<notin> set l \<and> CR \<notin> set l"
    using assms by (auto simp: readable_def canonical_def)
  have "find_at signatureMark i (''- '' @ signatureMark @ ys) = Some (i + 2)" for i
    by (simp add: signatureMark_def)
  then have found: "find_at signatureMark i (?body @ signatureMark @ ys) = Some (i + length ?body)" for i
    using find_mark_body [OF free(1), of i "''- '' @ signatureMark @ ys"] by simp
  have "bodyLines ?body = map dashEscape lines @ [''- '']"
    using armorLines_body [OF free(2), of "''- ''"] by (simp add: bodyLines_def Let_def)
  moreover have "dashUnescape ''- '' = []" by (simp add: dashUnescape_def stripBlanks_def)
  ultimately have "map dashUnescape (bodyLines ?body) = lines @ [[]]"
    using unescape_lines [OF assms(1)] by simp
  then show ?thesis
    unfolding parse_block [OF src found] Let_def by simp
qed

lemma split_final_newline:
  "splitAndCanonicalizeLines source \<noteq> [] \<Longrightarrow> splitAndCanonicalizeLines (source @ [LF]) = splitAndCanonicalizeLines source @ [[]]"
proof -
  have "splitLoop current lines cs \<noteq> [] \<Longrightarrow> splitLoop current lines (cs @ [LF]) = splitLoop current lines cs @ [[]]" for current lines cs
    by (induction current lines cs rule: splitLoop.induct) (auto simp: canonicalLine_def stripBlanks_def split: if_splits)
  then show "splitAndCanonicalizeLines source \<noteq> [] \<Longrightarrow> ?thesis" by (simp add: splitAndCanonicalizeLines_def)
qed

lemma joinLines_end: "lines \<noteq> [] \<Longrightarrow> joinLines (lines @ [[]]) = joinLines lines @ [CR, LF]"
  by (induction lines rule: joinLines.induct) simp_all

lemma parseClearSignedBody_safe [ub_free]: "safe (parseClearSignedBody source want)"
  by (auto simp: parseClearSignedBody_def Let_def intro!: safe_on_true armorDecode_safe split: option.split)


section \<open>Properties\<close>

lemma documentSignature_not_Nil: "signingKey_ok L alg key \<Longrightarrow> documentSignature L t alg key doc st \<noteq> []"
  using messageSignature_packet [of L alg key t doc st] by (auto simp: writePacket_eq)

lemma ClearSignString_block:
  assumes "authorised L B pw" "documentSignature L t (keyAlgorithm B) (activeSigningKey B)
      (of_text (joinLines (splitAndCanonicalizeLines source))) 1 \<noteq> []"
  shows "ClearSignString L t B pw (Some (of_text source)) (int (length source)) True buffer
    = copyOut 0 buffer (of_text (clearSignedBlock (keyAlgorithm B) (splitAndCanonicalizeLines source)
        (documentSignature L t (keyAlgorithm B) (activeSigningKey B) (of_text (joinLines (splitAndCanonicalizeLines source))) 1)))"
proof -
  have "take (length source) (of_text source) = of_text source" by (simp add: of_text_def)
  then show ?thesis using assms by (simp add: ClearSignString_def authorised_def Let_def)
qed

lemma clearSignedBlock_not_Nil: "has_text (Some (of_text (clearSignedBlock alg lines sig)))"
  by (simp add: has_text_def clearSignedBlock_def clearSignHeader_def clearSignMark_def)

text \<open>C8: A text that an engine clear-signs is found valid by every engine that has imported its public block,
  and the text extracted from the block is the text that was signed, with canonical line ends. The text must not
  end in an empty line, hold a carriage return inside a line, or contain the line that opens a
  signature.\<close>

theorem clear_signed_text_verifies:
  assumes "lib_ok L" "reachable L B" "authorised L B pw" "\<forall>uid \<in> set (ownUserIds B). length (uidText uid) < 4294967296"
    and "distinct (ownMasterKeyId B # map skKeyId (ownSubkeys B))"
    and "readable (splitAndCanonicalizeLines source)"
    and "splitAndCanonicalizeLines source = [] \<or> last (splitAndCanonicalizeLines source) \<noteq> []"
  shows "\<exists>A' block. ImportPeerPublicKey L now A (Some (fst (renderOwnKeyBlocks B))) = Some (NO_ERROR, A')
    \<and> (\<forall>buffer. ClearSignString L t B pw (Some (of_text source)) (int (length source)) True buffer = copyOut 0 buffer block)
    \<and> VerifyClearSignedString L A' (Some block) True = Some (NO_ERROR, Some True)
    \<and> (\<forall>buffer. ExtractClearSignedText (Some block) True buffer
          = copyOut 0 buffer (of_text (joinLines (splitAndCanonicalizeLines source))))"
proof -
  let ?A' = "installPeer (fillLegacySubkey now (importedBlock B)) A" and ?lines = "splitAndCanonicalizeLines source"
  define signature where "signature = documentSignature L t (keyAlgorithm B) (activeSigningKey B) (of_text (joinLines ?lines)) 1"
  define block where "block = of_text (clearSignedBlock (keyAlgorithm B) ?lines signature)"
  have gen: "ownKeyGenerated B" using assms(3) by (simp add: authorised_def mayUseIdentity_def)
  note import = import_exported [OF assms(1) reachable_identity_inv [OF assms(2,1)] gen assms(4), of now A]
  note knows = import_knowsMaster [of now B A]
  note verify = verifyAgainstPeer_own [OF assms(1,2) gen knows assms(5)]
  have wrote: "ClearSignString L t B pw (Some (of_text source)) (int (length source)) True buffer = copyOut 0 buffer block" for buffer
    unfolding block_def signature_def
    by (rule ClearSignString_block [OF assms(3) documentSignature_not_Nil [OF verify(2)]])
  have canon: "\<forall>l \<in> set ?lines. canonical l" by (simp add: split_canonical)
  have read: "parseClearSignedBody (to_text block) want = yes (of_text (joinLines ?lines), if want then Some signature else None)" for want
    using parse_clearSigned [OF canon assms(6)] assms(7) by (auto simp: block_def)
  have "verifyAgainstPeer L ?A' (of_text (joinLines ?lines)) signature = yes True"
    unfolding signature_def by (rule verify(1))
  with import wrote read knows show ?thesis
    using clearSignedBlock_not_Nil [of "keyAlgorithm B" ?lines signature]
    by (intro exI [of _ ?A'] exI [of _ block])
      (simp add: VerifyClearSignedString_def ExtractClearSignedText_def knowsMaster_def flip: block_def)
qed

lemma sample_uids_short: "\<forall>uid \<in> set (ownUserIds sample_engine). length (uidText uid) < 4294967296"
  using sample_correspondents by (simp add: correspondents_def)

lemma clear_signed_text_verifies_witness:
  "\<exists>A' block. VerifyClearSignedString sample_lib A' (Some block) True = Some (NO_ERROR, Some True)
     \<and> ExtractClearSignedText (Some block) True (Some 10)
       = Some \<lparr> ansStatus = NO_ERROR, ansWritten = Some (of_text ([CHR ''-'', CR, LF] @ ''b'')), ansSize = Some 4 \<rparr>"
proof -
  have lines: "splitAndCanonicalizeLines ([CHR ''-'', LF] @ ''b '') = [''-'', ''b'']"
    by (simp add: splitAndCanonicalizeLines_def canonicalLine_def stripBlanks_def blank_def)
  have "readable [''-'', ''b'']" by (simp add: readable_def markFree_def signatureMark_def)
  with clear_signed_text_verifies [OF sample_lib_lib_ok sample_engine_reachable sample_authorised sample_uids_short sample_distinct,
      where source = "[CHR ''-'', LF] @ ''b ''" and t = 0 and now = 0 and A = newEngine, unfolded lines]
  obtain A' block where b: "VerifyClearSignedString sample_lib A' (Some block) True = Some (NO_ERROR, Some True)"
    "\<forall>buffer. ExtractClearSignedText (Some block) True buffer = copyOut 0 buffer (of_text (joinLines [''-'', ''b'']))"
    by auto
  from b(2) have "ExtractClearSignedText (Some block) True (Some 10)
      = Some \<lparr> ansStatus = NO_ERROR, ansWritten = Some (of_text ([CHR ''-'', CR, LF] @ ''b'')), ansSize = Some 4 \<rparr>"
    by (simp add: copyOut_fits of_text_def)
  with b(1) show ?thesis by blast
qed

text \<open>C39: A text that ends in a newline is signed with the CRLF of its last line, but the reader of the block
  drops the empty line after it: the octets that are checked against the signature are not the
  ones that were signed.\<close>

theorem final_newline_is_signed_but_not_read:
  assumes "authorised L B pw" "signingKey_ok L (keyAlgorithm B) (activeSigningKey B)"
    and "splitAndCanonicalizeLines source = lines" "lines \<noteq> []" "readable lines"
  shows "\<exists>block. (\<forall>buffer. ClearSignString L t B pw (Some (of_text (source @ [LF]))) (int (length (source @ [LF]))) True buffer
          = copyOut 0 buffer (of_text block))
    \<and> parseClearSignedBody block True = yes (of_text (joinLines lines),
        Some (documentSignature L t (keyAlgorithm B) (activeSigningKey B) (of_text (joinLines lines @ [CR, LF])) 1))"
proof -
  have lines: "splitAndCanonicalizeLines (source @ [LF]) = lines @ [[]]"
    using split_final_newline [of source] assms(3,4) by simp
  have canon: "\<forall>l \<in> set (lines @ [[]]). canonical l"
    using split_canonical [of _ "source @ [LF]"] unfolding lines by blast
  have free: "readable (lines @ [[]])" using assms(5) by (simp add: readable_def markFree_def)
  note sig = documentSignature_not_Nil [OF assms(2)]
  show ?thesis
    using ClearSignString_block [OF assms(1) sig, of t "source @ [LF]"] parse_clearSigned [OF canon free, where want = True]
    by (intro exI [of _ "clearSignedBlock (keyAlgorithm B) (lines @ [[]])
      (documentSignature L t (keyAlgorithm B) (activeSigningKey B) (of_text (joinLines (lines @ [[]]))) 1)"])
      (simp only: lines joinLines_end [OF assms(4)], simp)
qed

lemma final_newline_is_signed_but_not_read_witness:
  "\<exists>block. (\<forall>buffer. ClearSignString sample_lib 0 sample_engine (Some [112, 119]) (Some [104, 105, 10]) 3 True buffer
        = copyOut 0 buffer (of_text block))
     \<and> (\<exists>sig. parseClearSignedBody block True = yes ([104, 105], Some sig))"
proof -
  have lines: "splitAndCanonicalizeLines ''hi'' = [''hi'']"
    by (simp add: splitAndCanonicalizeLines_def canonicalLine_def stripBlanks_def blank_def)
  have "readable [''hi'']" by (simp add: readable_def markFree_def signatureMark_def)
  moreover have "signingKey_ok sample_lib (keyAlgorithm sample_engine) (activeSigningKey sample_engine)"
    by (rule verifyAgainstPeer_own(2) [OF sample_lib_lib_ok sample_engine_reachable sample_engine_inv(1)
        import_knowsMaster sample_distinct])
  ultimately show ?thesis
    using final_newline_is_signed_but_not_read [OF sample_authorised _ lines, where t = 0] by (auto simp: of_text_def)
qed

text \<open>Dash-escaping does not protect a line that opens a signature: the reader looks for the mark
  anywhere, so a text with such a line is read only up to that line.\<close>

theorem mark_in_text_cuts_it:
  assumes "\<forall>l \<in> set lines. canonical l" "readable lines"
  shows "parseClearSignedBody (clearSignedBlock alg (lines @ (signatureMark @ l) # others) sig) False
    = yes (of_text (joinLines (lines @ [[]])), None)"
  by (rule parse_cut [OF assms])

lemma mark_in_text_cuts_it_witness:
  "ExtractClearSignedText (Some (of_text (clearSignedBlock PGP_KEY_ALGORITHM_RSA [''a'', signatureMark, ''b''] [1, 2, 3]))) True (Some 100)
     = Some \<lparr> ansStatus = NO_ERROR, ansWritten = Some [0x61, 0x0D, 0x0A], ansSize = Some 3 \<rparr>"
proof -
  have "\<forall>l \<in> set [''a'']. canonical l" "readable [''a'']"
    by (simp_all add: canonical_def stripBlanks_def blank_def readable_def markFree_def signatureMark_def)
  note cut = mark_in_text_cuts_it [OF this, of PGP_KEY_ALGORITHM_RSA "[]" "[''b'']" "[1, 2, 3]"]
  have "of_text (joinLines ([''a''] @ [[]])) = [0x61, 0x0D, 0x0A]" by (simp add: of_text_def)
  with cut show ?thesis
    using clearSignedBlock_not_Nil [of PGP_KEY_ALGORITHM_RSA "[''a'', signatureMark, ''b'']" "[1, 2, 3]"]
    by (simp add: ExtractClearSignedText_def copyOut_fits)
qed

end
