(* ===== verification/FileStreams.thy ===== *)
theory FileStreams
  imports EngineFacts
begin

unbundle bit_operations_syntax

text \<open>
  The functions of src/src/Pgp/PgpEngine.cpp that encrypt, sign and verify a file in pieces
  (\<open>encryptFileStreaming\<close>, \<open>encryptFileStreamingCompressed\<close>, \<open>compressLiteralToTempFile\<close>,
  \<open>signFileStreaming\<close>, \<open>verifyFileStreaming\<close> and their Ed25519 forms). An open input file is the list
  of what successive calls of \<open>ReadFile\<close> deliver, in pieces of any size, where \<open>None\<close> is a call that
  fails; an output file is what has been written to it, with a predicate that tells whether
  a write that brings it to a length succeeds. The progress callback is its answer after a number
  of octets; a null callback always agrees. The state of an incremental hash or cipher is the data it has
  been given.
\<close>

section \<open>Reading and writing in pieces\<close>

type_synonym reads = "bytes option list"
type_synonym 's io = "status + 's"

definition on_success :: "'s io \<Rightarrow> ('s \<Rightarrow> 't io) \<Rightarrow> 't io" where
  "on_success r f = (case r of Inl st \<Rightarrow> Inl st | Inr s \<Rightarrow> f s)"

lemma on_success_simps [simp]: "on_success (Inl st) f = Inl st" "on_success (Inr s) f = f s"
  by (simp_all add: on_success_def)

definition writeFileExact :: "(nat \<Rightarrow> bool) \<Rightarrow> bytes \<Rightarrow> bytes \<Rightarrow> bytes option" where
  "writeFileExact writable out data =
     (if data = [] \<or> writable (length out + length data) then Some (out @ data) else None)"

text \<open>One step for each element; a step that fails is a failure of the file system.\<close>

fun each :: "('s \<Rightarrow> 'x \<Rightarrow> 's option) \<Rightarrow> 'x list \<Rightarrow> 's \<Rightarrow> 's io" where
  "each step [] s = Inr s"
| "each step (x # xs) s = (case step s x of None \<Rightarrow> Inl FILE_IO_ERROR | Some s \<Rightarrow> each step xs s)"

text \<open>The loop that all streaming functions run: read a piece, hand it on, report progress.\<close>

fun readLoop :: "(nat \<Rightarrow> bool) \<Rightarrow> ('s \<Rightarrow> bytes \<Rightarrow> 's option) \<Rightarrow> reads \<Rightarrow> nat \<Rightarrow> 's \<Rightarrow> 's io" where
  "readLoop progress step [] processed s = Inr s"
| "readLoop progress step (None # rs) processed s = Inl FILE_IO_ERROR"
| "readLoop progress step (Some chunk # rs) processed s =
     (if chunk = [] then Inr s
      else case step s chunk of
        None \<Rightarrow> Inl FILE_IO_ERROR
      | Some s \<Rightarrow>
          if progress (processed + length chunk) then readLoop progress step rs (processed + length chunk) s
          else Inl OPERATION_CANCELLED)"

section \<open>Signing\<close>

definition signedSuffix :: "byte \<Rightarrow> byte \<Rightarrow> byte \<Rightarrow> bytes \<Rightarrow> bytes" where
  "signedSuffix signatureType pkAlgorithm hashAlgorithm hashedSubpackets =
     (let suffix = appendBigEndian16 [4, signatureType, pkAlgorithm, hashAlgorithm] (word_of_nat (length hashedSubpackets));
          suffix = appendAll suffix hashedSubpackets
      in appendBigEndian32 (suffix @ [4, 0xFF]) (word_of_nat (6 + length hashedSubpackets)))"

definition hashFile :: "(nat \<Rightarrow> bool) \<Rightarrow> reads \<Rightarrow> bytes io" where
  "hashFile progress rs = readLoop progress (\<lambda>seen chunk. Some (seen @ chunk)) rs 0 []"

definition signFileStreaming :: "crypto \<Rightarrow> 32 word \<Rightarrow> (nat \<Rightarrow> bool) \<Rightarrow> rsa_key \<Rightarrow> bytes \<Rightarrow> reads \<Rightarrow> bytes io" where
  "signFileStreaming L now progress signingKey issuerKeyId rs =
     (let hashedSubpackets = appendSubpacket [] 2 (appendBigEndian32 [] now);
          unhashedSubpackets = appendSubpacket [] 16 issuerKeyId;
          trailerSuffix = signedSuffix 0 1 8 hashedSubpackets
      in on_success (hashFile progress rs) (\<lambda>seen.
           let toBeHashed = seen @ trailerSuffix;
               leftHash = sha256 L toBeHashed;
               rawSignature = rsaSign L signingKey toBeHashed
           in Inr (writePacket PGP_TAG_SIGNATURE (signatureBody 0 1 8 hashedSubpackets unhashedSubpackets leftHash
                (encodeMpi (integerDecode rawSignature))))))"

definition signEd25519FileStreaming :: "crypto \<Rightarrow> 32 word \<Rightarrow> (nat \<Rightarrow> bool) \<Rightarrow> bytes \<Rightarrow> bytes \<Rightarrow> reads \<Rightarrow> bytes io" where
  "signEd25519FileStreaming L now progress privateKey issuerKeyId rs =
     (let hashedSubpackets = appendSubpacket [] 2 (appendBigEndian32 [] now);
          unhashedSubpackets = appendSubpacket [] 16 issuerKeyId
      in on_success (hashFile progress rs) (\<lambda>seen.
           let hash = sha512 L (seen @ signedSuffix 0 PGP_ALGO_EDDSA 10 hashedSubpackets);
               signature = edSign L privateKey hash
           in Inr (writePacket PGP_TAG_SIGNATURE (signatureBody 0 PGP_ALGO_EDDSA 10 hashedSubpackets unhashedSubpackets hash
                (appendAll (encodeMpi (integerDecode (take 32 signature))) (encodeMpi (integerDecode (take 32 (drop 32 signature)))))))))"

section \<open>Verifying\<close>

text \<open>\<open>None\<close> is undefined behaviour.\<close>

definition verifyFileStreaming :: "crypto \<Rightarrow> (nat \<Rightarrow> bool) \<Rightarrow> rsa_public \<Rightarrow> reads \<Rightarrow> bytes \<Rightarrow> bool io option" where
  "verifyFileStreaming L progress verifyingKey rs signaturePacketBytes =
     on_read (readPacketHeader signaturePacketBytes 0 None False) (Inl INVALID_DATA) (\<lambda>(tag, bodyLength, pos, part).
       if tag \<noteq> PGP_TAG_SIGNATURE \<or> pos + bodyLength > length signaturePacketBytes then Some (Inl INVALID_DATA)
       else do {
         body \<leftarrow> slice signaturePacketBytes pos (pos + bodyLength);
         parsed \<leftarrow> parseSignaturePacketBody body;
         if \<not> psValid parsed then Some (Inl INVALID_DATA)
         else
           let trailerSuffix = signedSuffix (psSignatureType parsed) 1 8 (psHashedSubpackets parsed);
               fixedLength = rsaModulusByteLength (fst verifyingKey);
               fixedSignature = integerEncode fixedLength (integerDecode (psMpi parsed))
           in Some (on_success (hashFile progress rs) (\<lambda>seen. Inr (rsaVerify L verifyingKey (seen @ trailerSuffix) fixedSignature))) })"

definition verifyEd25519FileStreaming :: "crypto \<Rightarrow> (nat \<Rightarrow> bool) \<Rightarrow> bytes \<Rightarrow> reads \<Rightarrow> bytes \<Rightarrow> bool io option" where
  "verifyEd25519FileStreaming L progress publicKey rs signaturePacketBytes =
     on_read (readPacketHeader signaturePacketBytes 0 None False) (Inl INVALID_DATA) (\<lambda>(tag, bodyLength, pos, part).
       if tag \<noteq> PGP_TAG_SIGNATURE \<or> pos + bodyLength \<noteq> length signaturePacketBytes then Some (Inl INVALID_DATA)
       else do {
         body \<leftarrow> slice signaturePacketBytes pos (length signaturePacketBytes);
         parsed \<leftarrow> parseSignaturePacketBody body;
         if \<not> psValid parsed \<or> psPkAlgorithm parsed \<noteq> PGP_ALGO_EDDSA \<or> psHashAlgorithm parsed \<noteq> 10 \<or> psSignatureType parsed \<noteq> 0
         then Some (Inl INVALID_DATA)
         else
           let suffix = signedSuffix (psSignatureType parsed) PGP_ALGO_EDDSA 10 (psHashedSubpackets parsed);
               rawSignature = integerEncode 32 (integerDecode (psMpi parsed)) @ integerEncode 32 (integerDecode (psMpi2 parsed))
           in Some (on_success (hashFile progress rs) (\<lambda>seen. Inr (edVerify L publicKey (sha512 L (seen @ suffix)) rawSignature))) })"

section \<open>Encrypting\<close>

text \<open>The cipher continues behind the data it has seen.\<close>

definition cipherNext :: "crypto \<Rightarrow> bytes \<Rightarrow> bytes \<Rightarrow> bytes \<Rightarrow> bytes" where
  "cipherNext L key seen chunk = drop (length seen) (cfbEncrypt L key (zeros 16) (seen @ chunk))"

text \<open>The output file and the data that the cipher and the checksum have seen.\<close>

definition putPlain :: "crypto \<Rightarrow> (nat \<Rightarrow> bool) \<Rightarrow> bytes \<Rightarrow> bytes \<times> bytes \<Rightarrow> bytes \<Rightarrow> (bytes \<times> bytes) option" where
  "putPlain L writable key = (\<lambda>(out, seen) chunk.
     map_option (\<lambda>out. (out, seen @ chunk)) (writeFileExact writable out (cipherNext L key seen chunk)))"

fun writePkesks ::
  "crypto \<Rightarrow> message_draws \<Rightarrow> (nat \<Rightarrow> bool) \<Rightarrow> bytes \<Rightarrow> byte \<Rightarrow> nat \<Rightarrow> recipient list \<Rightarrow> bytes \<Rightarrow> bytes io" where
  "writePkesks L M writable sessionKey cipher i [] out = Inr out"
| "writePkesks L M writable sessionKey cipher i (rc # rcs) out =
     (let packet = buildPkeskPacketForRecipient L (mdPadding M i) (mdEphemeral M i) rc sessionKey cipher
      in if packet = [] then Inl UNEXPECTED_ERROR
         else case writeFileExact writable out packet of
           None \<Rightarrow> Inl FILE_IO_ERROR
         | Some out \<Rightarrow> writePkesks L M writable sessionKey cipher (i + 1) rcs out)"

text \<open>The container: its header, the random prefix, the first octets of its content, what is read,
  and the checksum.\<close>

definition streamContainer ::
  "crypto \<Rightarrow> message_draws \<Rightarrow> (nat \<Rightarrow> bool) \<Rightarrow> (nat \<Rightarrow> bool) \<Rightarrow> bytes \<Rightarrow> nat \<Rightarrow> bytes list \<Rightarrow> reads \<Rightarrow> bytes \<Rightarrow> bytes io" where
  "streamContainer L M writable progress sessionKey innerContentLength heads rs out =
     (let plainForCfbLength = 18 + innerContentLength + 2 + 20;
          seipBodyLength = 1 + plainForCfbLength;
          seipHeader = appendNewFormatLength [0xC0 OR PGP_TAG_SEIP] seipBodyLength;
          prefix = mdPrefix M @ [mdPrefix M ! 14, mdPrefix M ! 15]
      in on_success (each (writeFileExact writable) [seipHeader, [1]] out) (\<lambda>out.
         on_success (each (putPlain L writable sessionKey) (prefix # heads) (out, [])) (\<lambda>s.
         on_success (readLoop progress (putPlain L writable sessionKey) rs 0 s) (\<lambda>(out, seen).
           let trailerPlain = [0xD3, 0x14] @ sha1 L (seen @ [0xD3, 0x14])
           in on_success (each (putPlain L writable sessionKey) [trailerPlain] (out, seen)) (\<lambda>(out, seen). Inr out)))))"

definition literalHeaderOf :: "nat \<Rightarrow> bytes" where
  "literalHeaderOf fileSize = appendNewFormatLength [0xC0 OR PGP_TAG_LITERAL_DATA] (6 + fileSize)"

definition literalPrefixOf :: bytes where
  "literalPrefixOf = appendBigEndian32 [of_char CHR ''b'', 0] 0"

definition encryptFileStreaming ::
  "crypto \<Rightarrow> message_draws \<Rightarrow> (nat \<Rightarrow> bool) \<Rightarrow> (nat \<Rightarrow> bool) \<Rightarrow> recipient list \<Rightarrow> byte \<Rightarrow> nat \<Rightarrow> reads \<Rightarrow> bytes io" where
  "encryptFileStreaming L M writable progress recipients cipher fileSize rs =
     (if recipients = [] then Inl INVALID_ARGUMENT
      else
        let sessionKey = mdSessionKey M (pgpSymmetricSessionKeyLength cipher);
            innerContentLength = length (literalHeaderOf fileSize) + (6 + fileSize)
        in on_success (writePkesks L M writable sessionKey cipher 0 recipients []) (\<lambda>out.
             streamContainer L M writable progress sessionKey innerContentLength [literalHeaderOf fileSize, literalPrefixOf] rs out))"

text \<open>A compressor that is fed in pieces: what it has put out after some input, and in the end.\<close>

record compressor =
  cmSoFar :: "bytes \<Rightarrow> bytes"
  cmWhole :: "bytes \<Rightarrow> bytes"

definition putCompressed :: "(nat \<Rightarrow> bool) \<Rightarrow> compressor \<Rightarrow> bytes \<times> bytes \<Rightarrow> bytes \<Rightarrow> (bytes \<times> bytes) option" where
  "putCompressed writable Z = (\<lambda>(out, fed) chunk.
     map_option (\<lambda>out. (out, fed @ chunk)) (writeFileExact writable out (drop (length out) (cmSoFar Z (fed @ chunk)))))"

definition compressLiteralToTempFile ::
  "(nat \<Rightarrow> bool) \<Rightarrow> (nat \<Rightarrow> bool) \<Rightarrow> compressor \<Rightarrow> nat \<Rightarrow> reads \<Rightarrow> bytes io" where
  "compressLiteralToTempFile writable progress Z fileSize rs =
     on_success (each (putCompressed writable Z) [literalHeaderOf fileSize @ literalPrefixOf] ([], [])) (\<lambda>s.
     on_success (readLoop progress (putCompressed writable Z) rs 0 s) (\<lambda>(out, fed).
       case writeFileExact writable out (drop (length out) (cmWhole Z fed)) of
         None \<Rightarrow> Inl FILE_IO_ERROR
       | Some out \<Rightarrow> Inr out))"

definition encryptFileStreamingCompressed ::
  "crypto \<Rightarrow> message_draws \<Rightarrow> (nat \<Rightarrow> bool) \<Rightarrow> (nat \<Rightarrow> bool) \<Rightarrow> recipient list \<Rightarrow> byte \<Rightarrow> nat \<Rightarrow> byte \<Rightarrow> reads \<Rightarrow> bytes io" where
  "encryptFileStreamingCompressed L M writable progress recipients cipher compressedSize algorithm rs =
     (if recipients = [] then Inl INVALID_ARGUMENT
      else
        let sessionKey = mdSessionKey M (pgpSymmetricSessionKeyLength cipher);
            compressedHeader = appendNewFormatLength [0xC0 OR PGP_TAG_COMPRESSED_DATA] (1 + compressedSize);
            innerContentLength = length compressedHeader + (1 + compressedSize)
        in on_success (writePkesks L M writable sessionKey cipher 0 recipients []) (\<lambda>out.
             streamContainer L M writable progress sessionKey innerContentLength [compressedHeader, [algorithm]] rs out))"

section \<open>Pieces do not matter\<close>

text \<open>The input is delivered: no call fails, and the pieces make up the content.\<close>

definition delivers :: "reads \<Rightarrow> bytes \<Rightarrow> bool" where
  "delivers rs content \<longleftrightarrow> None \<notin> set rs \<and> Some [] \<notin> set rs \<and> concat (map the rs) = content"

lemma delivers_simps [simp]:
  "delivers [] content \<longleftrightarrow> content = []"
  "delivers (Some chunk # rs) content \<longleftrightarrow> chunk \<noteq> [] \<and> (\<exists>rest. content = chunk @ rest \<and> delivers rs rest)"
  "\<not> delivers (None # rs) content"
  by (auto simp: delivers_def)

lemma delivers_cases [case_names piece]:
  assumes "delivers (r # rs) content"
  obtains chunk rest where "r = Some chunk" "chunk \<noteq> []" "content = chunk @ rest" "delivers rs rest"
  using assms by (cases r) auto

text \<open>
  What the streaming functions need of the place their data goes to (a hash, a cipher in front of the
  output file, a compressor in front of a temporary file): while it is in a good state it takes any
  piece, and taking two pieces is taking their concatenation.
\<close>

locale sink =
  fixes step :: "'s \<Rightarrow> bytes \<Rightarrow> 's option"
    and put :: "'s \<Rightarrow> bytes \<Rightarrow> 's"
    and good :: "'s \<Rightarrow> bool"
  assumes accepts: "good s \<Longrightarrow> step s chunk = Some (put s chunk)"
    and kept: "good s \<Longrightarrow> good (put s chunk)"
    and put_Nil: "good s \<Longrightarrow> put s [] = s"
    and put_append: "good s \<Longrightarrow> put s (a @ b) = put (put s a) b"
begin

lemma each_put: "good s \<Longrightarrow> each step chunks s = Inr (put s (concat chunks))"
  by (induction chunks arbitrary: s) (simp_all add: accepts kept put_Nil put_append)

lemma readLoop_put:
  "good s \<Longrightarrow> delivers rs content \<Longrightarrow> \<forall>n. progress n \<Longrightarrow> readLoop progress step rs processed s = Inr (put s content)"
  by (induction rs arbitrary: content processed s)
    (auto simp: accepts kept put_Nil put_append elim!: delivers_cases)

end

text \<open>A hash.\<close>

interpretation hashing: sink "\<lambda>seen chunk. Some (seen @ chunk)" "(@)" "\<lambda>seen. True"
  by unfold_locales simp_all

lemma hashFile_delivers: "\<forall>n. progress n \<Longrightarrow> delivers rs content \<Longrightarrow> hashFile progress rs = Inr content"
  by (simp add: hashFile_def hashing.readLoop_put)

text \<open>An output file, a cipher that writes to one, and a compressor that writes to one.\<close>

lemma writeFileExact_all [simp]: "writeFileExact (\<lambda>n. True) out data = Some (out @ data)"
  by (simp add: writeFileExact_def)

interpretation stored: sink "writeFileExact (\<lambda>n. True)" "(@)" "\<lambda>out. True"
  by unfold_locales simp_all

lemma cipherNext_behind:
  "cfb_stream_ok L \<Longrightarrow> cfbEncrypt L key (zeros 16) seen @ cipherNext L key seen chunk = cfbEncrypt L key (zeros 16) (seen @ chunk)"
  unfolding cfb_stream_ok_def cipherNext_def by (metis append_take_drop_id)

lemma cipherNext_append:
  assumes "cfb_stream_ok L"
  shows "cipherNext L key seen (a @ b) = cipherNext L key seen a @ cipherNext L key (seen @ a) b"
proof -
  have "cfbEncrypt L key (zeros 16) seen @ cipherNext L key seen (a @ b)
      = cfbEncrypt L key (zeros 16) seen @ cipherNext L key seen a @ cipherNext L key (seen @ a) b"
    using cipherNext_behind [OF assms, of key seen a] cipherNext_behind [OF assms, of key "seen @ a" b]
      cipherNext_behind [OF assms, of key seen "a @ b"] by (metis append.assoc)
  then show ?thesis by simp
qed

definition afterPlain :: "crypto \<Rightarrow> bytes \<Rightarrow> bytes \<times> bytes \<Rightarrow> bytes \<Rightarrow> bytes \<times> bytes" where
  "afterPlain L key = (\<lambda>(out, seen) chunk. (out @ cipherNext L key seen chunk, seen @ chunk))"

interpretation encrypted: sink "putPlain L (\<lambda>n. True) key" "afterPlain L key" "\<lambda>s. cfb_stream_ok L" for L key
  by unfold_locales
    (auto simp: putPlain_def afterPlain_def cipherNext_append, simp_all add: cfb_stream_ok_def cipherNext_def)

definition compressor_ok :: "compressor \<Rightarrow> bool" where
  "compressor_ok Z \<longleftrightarrow> (\<forall>a b. take (length (cmSoFar Z a)) (cmSoFar Z (a @ b)) = cmSoFar Z a
     \<and> take (length (cmSoFar Z a)) (cmWhole Z a) = cmSoFar Z a)"

lemma compressor_drain:
  assumes "compressor_ok Z"
  shows "cmSoFar Z a @ drop (length (cmSoFar Z a)) (cmSoFar Z (a @ b)) = cmSoFar Z (a @ b)"
    and "cmSoFar Z a @ drop (length (cmSoFar Z a)) (cmWhole Z a) = cmWhole Z a"
  using assms unfolding compressor_ok_def by (metis append_take_drop_id)+

interpretation compressed: sink "putCompressed (\<lambda>n. True) Z" "\<lambda>(out, fed) chunk. (cmSoFar Z (fed @ chunk), fed @ chunk)"
    "\<lambda>(out, fed). compressor_ok Z \<and> out = cmSoFar Z fed" for Z
  by unfold_locales (auto simp: putCompressed_def compressor_drain)


section \<open>Signatures of files\<close>

text \<open>What is hashed behind the file is what is hashed behind a document in memory.\<close>

lemma signedSuffix_hashInput: "content @ signedSuffix t p h hs = signatureHashInput content t p h hs"
  by (simp add: signatureHashInput_eq signedSuffix_def Let_def appendAll_def appendBigEndian16_def appendBigEndian32_def)

lemma signFileStreaming_buffer:
  "\<forall>n. progress n \<Longrightarrow> delivers rs content \<Longrightarrow>
     signFileStreaming L now progress key keyId rs = Inr (buildSignaturePacket L now key 0 content [] keyId)"
  by (simp add: signFileStreaming_def buildSignaturePacket_def signatureHashedSubpackets_def appendAll_def Let_def
      hashFile_delivers signedSuffix_hashInput)

lemma signEd25519FileStreaming_buffer:
  "\<forall>n. progress n \<Longrightarrow> delivers rs content \<Longrightarrow>
     signEd25519FileStreaming L now progress key keyId rs = Inr (buildEd25519SignaturePacket L now key 0 content [] keyId)"
  by (simp add: signEd25519FileStreaming_def buildEd25519SignaturePacket_def signatureHashedSubpackets_def appendAll_def Let_def
      hashFile_delivers signedSuffix_hashInput)

text \<open>A verification in memory that comes to an answer comes to the same answer on the file.\<close>

lemma verifyFileStreaming_buffer:
  assumes "\<forall>n. progress n" "delivers rs content" "verifySignaturePacket L key content packet = yes b"
  shows "verifyFileStreaming L progress key rs packet = Some (Inr b)"
  using assms
  by (auto simp: verifyFileStreaming_def verifySignaturePacket_def signaturePacketBodyOf_def on_true_eq_yes Let_def
      hashFile_delivers signedSuffix_hashInput split: if_splits bind_splits)

lemma verifyEd25519FileStreaming_buffer:
  assumes "\<forall>n. progress n" "delivers rs content" "length body < 4294967296"
    and "parseSignaturePacketBody body = Some parsed" "psSignatureType parsed = 0"
    and "verifyEd25519SignaturePacket L key content (writePacket PGP_TAG_SIGNATURE body) = yes b"
  shows "verifyEd25519FileStreaming L progress key rs (writePacket PGP_TAG_SIGNATURE body) = Some (Inr b)"
proof -
  let ?packet = "writePacket PGP_TAG_SIGNATURE body" and ?p = "1 + newFormatLengthOctets (length body)"
  have h: "readPacketHeader ?packet 0 None False = yes (PGP_TAG_SIGNATURE, length body, ?p, False)"
    "slice ?packet ?p (?p + length body) = Some body"
    using readPacketHeader_at(1) [OF tags_small(5) assms(3), of ?packet "[]" "[]" 0 None False]
      readPacketHeader_at(2) [OF tags_small(5) assms(3), of ?packet "[]" "[]" 0] by simp_all
  have end_: "length ?packet = ?p + length body" by (simp add: length_writePacket)
  have body: "signaturePacketBodyOf ?packet = yes body"
    using h end_ unfolding signaturePacketBodyOf_def by simp
  show ?thesis
    using assms(1,2,4-6) h end_ unfolding verifyEd25519FileStreaming_def verifyEd25519SignaturePacket_def body
    by (auto simp: Let_def hashFile_delivers signedSuffix_hashInput simp del: plus_1_eq_Suc split: if_splits)
qed

section \<open>Encrypted files\<close>

lemma writePkesks_packets:
  "writePkesks L M (\<lambda>n. True) key cipher i rcs out = (case pkeskPackets L M key cipher i rcs of
     None \<Rightarrow> Inl UNEXPECTED_ERROR | Some packets \<Rightarrow> Inr (out @ packets))"
  by (induction rcs arbitrary: i out) (auto simp: Let_def split: option.splits)

lemma afterPlain_behind:
  assumes "cfb_stream_ok L"
  shows "afterPlain L key (out @ cfbEncrypt L key (zeros 16) seen, seen) chunk
      = (out @ cfbEncrypt L key (zeros 16) (seen @ chunk), seen @ chunk)"
    and "afterPlain L key (out, []) chunk = (out @ cfbEncrypt L key (zeros 16) chunk, chunk)"
proof -
  show "afterPlain L key (out @ cfbEncrypt L key (zeros 16) seen, seen) chunk
      = (out @ cfbEncrypt L key (zeros 16) (seen @ chunk), seen @ chunk)" for seen
    using cipherNext_behind [OF assms, of key seen chunk] by (simp add: afterPlain_def)
  moreover have "cfbEncrypt L key (zeros 16) [] = []" using assms by (metis cfb_stream_ok_def length_0_conv)
  ultimately show "afterPlain L key (out, []) chunk = (out @ cfbEncrypt L key (zeros 16) chunk, chunk)"
    by (metis append.right_neutral append_Nil)
qed

lemma streamContainer_packet:
  assumes lib: "digests_ok L" "cfb_stream_ok L" and progress: "\<forall>n. progress n" and prefix: "length (mdPrefix M) = 16"
    and rs: "delivers rs content" and len: "innerContentLength = length (concat heads) + length content"
  shows "streamContainer L M (\<lambda>n. True) progress key innerContentLength heads rs out
    = Inr (out @ seipPacketOf L key (mdPrefix M) (concat heads @ content))"
proof -
  define H where "H = (mdPrefix M @ [mdPrefix M ! 14, mdPrefix M ! 15]) @ concat heads"
  define T where "T = [0xD3, 0x14] @ sha1 L ((H @ content) @ [0xD3, 0x14])"
  define out' where "out' = out @ appendNewFormatLength [0xC0 OR PGP_TAG_SEIP] (1 + (18 + innerContentLength + 2 + 20)) @ [1]"
  have plain: "seipPlain L (mdPrefix M) (concat heads @ content) = (H @ content) @ T"
    by (simp add: seipPlain_def H_def T_def)
  have len: "1 + (18 + innerContentLength + 2 + 20) = length ([1 :: byte] @ cfbEncrypt L key (zeros 16) ((H @ content) @ T))"
    using length_seipPlain [OF lib(1) prefix, of "concat heads @ content"] lib(2) len unfolding plain by (simp add: cfb_stream_ok_def)
  have whole: "out' @ cfbEncrypt L key (zeros 16) ((H @ content) @ T) = out @ seipPacketOf L key (mdPrefix M) (concat heads @ content)"
    unfolding out'_def seipPacketOf_eq plain len by (simp add: writePacket_def appendAll_def)
  have head: "each (writeFileExact (\<lambda>n. True)) [appendNewFormatLength [0xC0 OR PGP_TAG_SEIP] (1 + (18 + innerContentLength + 2 + 20)), [1]] out
      = Inr out'"
    by (simp only: stored.each_put) (simp add: out'_def)
  have start: "each (putPlain L (\<lambda>n. True) key) ((mdPrefix M @ [mdPrefix M ! 14, mdPrefix M ! 15]) # heads) (out', [])
      = Inr (out' @ cfbEncrypt L key (zeros 16) H, H)"
    by (simp only: encrypted.each_put [OF lib(2)] concat.simps H_def [symmetric] afterPlain_behind(2) [OF lib(2)])
  note read = encrypted.readLoop_put [OF lib(2) rs progress]
  have stop: "each (putPlain L (\<lambda>n. True) key) [T] (out' @ cfbEncrypt L key (zeros 16) (H @ content), H @ content)
      = Inr (out' @ cfbEncrypt L key (zeros 16) ((H @ content) @ T), (H @ content) @ T)"
    by (simp only: encrypted.each_put [OF lib(2)] concat.simps append.right_neutral afterPlain_behind(1) [OF lib(2)])
  show ?thesis
    unfolding streamContainer_def Let_def head on_success_simps start read afterPlain_behind(1) [OF lib(2)] prod.case T_def [symmetric] stop whole by (rule refl)
qed

text \<open>What lies in the file: the same packets that a message in memory has, around the literal packet or
  around what the compressor made of it.\<close>

lemma literal_in_pieces: "length content = fileSize \<Longrightarrow> literalHeaderOf fileSize @ literalPrefixOf @ content = literalPacketOf content"
  by (simp add: literalHeaderOf_def literalPrefixOf_def literalPacketOf_def writePacket_def appendAll_def appendBigEndian32_def numeral_eq_Suc)

lemma encryptFileStreaming_sealed:
  assumes "digests_ok L" "cfb_stream_ok L" "\<forall>n. progress n" "length (mdPrefix M) = 16"
    and rs: "delivers rs content" and rcs: "recipients \<noteq> []"
  shows "encryptFileStreaming L M (\<lambda>n. True) progress recipients cipher (length content) rs
    = (case sealed L M recipients cipher (literalPacketOf content) of None \<Rightarrow> Inl UNEXPECTED_ERROR | Some out \<Rightarrow> Inr out)"
proof -
  have "length literalPrefixOf = 6" by (simp add: literalPrefixOf_def appendBigEndian32_def)
  then have "streamContainer L M (\<lambda>n. True) progress key (length (literalHeaderOf (length content)) + (6 + length content))
      [literalHeaderOf (length content), literalPrefixOf] rs out
    = Inr (out @ seipPacketOf L key (mdPrefix M) (literalPacketOf content))" for key out
    using streamContainer_packet [OF assms(1-4) rs, of _ "[literalHeaderOf (length content), literalPrefixOf]"]
      literal_in_pieces [of content, OF refl] by (simp add: add.assoc)
  then show ?thesis using rcs
    by (auto simp: encryptFileStreaming_def writePkesks_packets sealed_def sealedBody_def seipPacketOf_eq Let_def split: option.split)
qed

lemma compressLiteralToTempFile_whole:
  assumes "compressor_ok Z" "\<forall>n. progress n" "delivers rs content"
  shows "compressLiteralToTempFile (\<lambda>n. True) progress Z (length content) rs = Inr (cmWhole Z (literalPacketOf content))"
proof -
  let ?head = "literalHeaderOf (length content) @ literalPrefixOf"
  have head: "each (putCompressed (\<lambda>n. True) Z) [?head] ([], []) = Inr (cmSoFar Z ?head, ?head)"
    by (simp add: putCompressed_def)
  have read: "readLoop progress (putCompressed (\<lambda>n. True) Z) rs 0 (cmSoFar Z ?head, ?head)
      = Inr (cmSoFar Z (?head @ content), ?head @ content)"
    using compressed.readLoop_put [where Z = Z and s = "(cmSoFar Z ?head, ?head)", OF _ assms(3,2)] assms(1) by simp
  show ?thesis
    unfolding compressLiteralToTempFile_def head on_success_simps read prod.case
    by (simp add: compressor_drain [OF assms(1)] literal_in_pieces)
qed

lemma encryptFileStreamingCompressed_sealed:
  assumes "digests_ok L" "cfb_stream_ok L" "\<forall>n. progress n" "length (mdPrefix M) = 16"
    and rs: "delivers rs packed" and rcs: "recipients \<noteq> []"
  shows "encryptFileStreamingCompressed L M (\<lambda>n. True) progress recipients cipher (length packed) algorithm rs
    = (case sealed L M recipients cipher (writePacket PGP_TAG_COMPRESSED_DATA (algorithm # packed)) of
         None \<Rightarrow> Inl UNEXPECTED_ERROR | Some out \<Rightarrow> Inr out)"
proof -
  let ?header = "appendNewFormatLength [0xC0 OR PGP_TAG_COMPRESSED_DATA] (1 + length packed)"
  have "concat [?header, [algorithm]] @ packed = writePacket PGP_TAG_COMPRESSED_DATA (algorithm # packed)"
    by (simp add: writePacket_def appendAll_def)
  then have "streamContainer L M (\<lambda>n. True) progress key (length ?header + (1 + length packed)) [?header, [algorithm]] rs out
    = Inr (out @ seipPacketOf L key (mdPrefix M) (writePacket PGP_TAG_COMPRESSED_DATA (algorithm # packed)))" for key out
    using streamContainer_packet [OF assms(1-4) rs, of "length ?header + (1 + length packed)" "[?header, [algorithm]]" key out] by simp
  then show ?thesis using rcs
    by (auto simp: encryptFileStreamingCompressed_def writePkesks_packets sealed_def sealedBody_def seipPacketOf_eq Let_def split: option.split)
qed

text \<open>A file of 4 GiB or more: its length does not fit the four octets of the packet header.\<close>

lemma literalHeaderOf_wraps:
  assumes "8384 \<le> k"
  shows "literalHeaderOf (2 ^ 32 + k - 6) = literalHeaderOf (k - 6)"
proof -
  have five: "literalHeaderOf n = appendBigEndian32 [0xC0 OR PGP_TAG_LITERAL_DATA, 0xFF] (word_of_nat (6 + n))"
    if "8378 \<le> n" for n
    using that by (simp add: literalHeaderOf_def appendNewFormatLength_def)
  have "6 + (2 ^ 32 + k - 6) = 2 ^ 32 + k" "6 + (k - 6) = k" using assms by simp_all
  moreover have "(word_of_nat (2 ^ 32 + k) :: 32 word) = word_of_nat k"
    by (simp only: word_unat_eq_iff unat_of_nat len_bit0 len_num1) simp
  ultimately show ?thesis using assms by (simp only: five)
qed

end
