(* ===== verification/FileDecrypt.thy ===== *)
theory FileDecrypt
  imports FileStreams
begin

unbundle bit_operations_syntax

text \<open>
  Decrypting a file in pieces (src/src/Pgp/PgpEngine.cpp): \<open>parseEncryptedFileHeader\<close>, which looks for the
  session key in the first piece of the file, \<open>scanPartialBodyTotalLength\<close>, and
  \<open>decryptSeipBodyStreaming\<close>, which decrypts the container while it steps over chunk headers outside and inside
  the encryption, decompresses, and checks the checksum at the end. The variables that the lambdas of
  \<open>decryptSeipBodyStreaming\<close> share are the record \<open>seip_reader\<close>: its \<open>srPending\<close> is the part of
  \<open>pending\<close> from \<open>pendingPos\<close> on, so that the occasional erasure of the consumed part is not visible. \<open>None\<close> is
  undefined behaviour.
\<close>

section \<open>An open input file\<close>

text \<open>
  What the file holds, how many octets a call of \<open>ReadFile\<close> at a position for a number of octets delivers at most
  (\<open>None\<close>: it fails), and whether \<open>GetFileSizeEx\<close> and \<open>SetFilePointerEx\<close> succeed.
\<close>

record opened =
  opContent :: bytes
  opReads :: "nat \<Rightarrow> nat \<Rightarrow> nat option"
  opSizes :: bool
  opSeeks :: "nat \<Rightarrow> bool"

definition readFile :: "opened \<Rightarrow> nat \<Rightarrow> nat \<Rightarrow> bytes option" where
  "readFile I pos n = map_option (\<lambda>k. take (min n k) (drop pos (opContent I))) (opReads I pos n)"

lemma readFile_length: "readFile I pos n = Some bs \<Longrightarrow> length bs \<le> n"
  by (auto simp: readFile_def)

function readFileExact :: "opened \<Rightarrow> nat \<Rightarrow> nat \<Rightarrow> bytes option" where
  "readFileExact I pos n =
     (if n = 0 then Some []
      else case readFile I pos n of None \<Rightarrow> None | Some bs \<Rightarrow>
        if bs = [] then None else map_option (\<lambda>rest. bs @ rest) (readFileExact I (pos + length bs) (n - length bs)))"
  by pat_completeness auto

termination
  by (relation "measure (\<lambda>(I, pos, n). n)") auto

declare readFileExact.simps [simp del]

lemma readFileExact_length: "readFileExact I pos n = Some bs \<Longrightarrow> length bs = n"
proof (induction I pos n arbitrary: bs rule: readFileExact.induct)
  case (1 I pos n)
  show ?case
  proof (cases "n = 0")
    case False
    with "1.prems" obtain x z where x: "readFile I pos n = Some x" "x \<noteq> []"
      "readFileExact I (pos + length x) (n - length x) = Some z" "bs = x @ z"
      by (subst (asm) readFileExact.simps) (auto split: if_splits option.splits)
    from "1.IH" [OF False x(1-3)] readFile_length [OF x(1)] show ?thesis by (simp add: x(4))
  qed (use "1.prems" in \<open>simp add: readFileExact.simps\<close>)
qed

lemma readFileExact_octets: "readFileExact I pos n = Some bs \<Longrightarrow> bs = take n (drop pos (opContent I))"
proof (induction I pos n arbitrary: bs rule: readFileExact.induct)
  case (1 I pos n)
  show ?case
  proof (cases "n = 0")
    case False
    with "1.prems" obtain x z where x: "readFile I pos n = Some x" "x \<noteq> []"
      "readFileExact I (pos + length x) (n - length x) = Some z" "bs = x @ z"
      by (subst (asm) readFileExact.simps) (auto split: if_splits option.splits)
    have "x = take (length x) (drop pos (opContent I))" using x(1) by (auto simp: readFile_def min_def)
    moreover have "z = take (n - length x) (drop (length x) (drop pos (opContent I)))"
      using "1.IH" [OF False x(1-3)] by (simp add: add.commute)
    ultimately show ?thesis using readFile_length [OF x(1)] x(4) by (metis le_add_diff_inverse take_add)
  qed (use "1.prems" in \<open>simp add: readFileExact.simps\<close>)
qed

text \<open>
  A call names the place its octets go to, and how many of them: asking for more than there is room for is undefined
  behaviour, whatever the file holds.
\<close>

definition readInto :: "nat \<Rightarrow> opened \<Rightarrow> nat \<Rightarrow> nat \<Rightarrow> bytes cpp" where
  "readInto room I pos n = (if n > room then None else Some (readFile I pos n))"

definition readExactInto :: "nat \<Rightarrow> opened \<Rightarrow> nat \<Rightarrow> nat \<Rightarrow> bytes cpp" where
  "readExactInto room I pos n = (if n > room then None else Some (readFileExact I pos n))"

lemma readInto_room [simp]:
  "n \<le> room \<Longrightarrow> readInto room I pos n = Some (readFile I pos n)"
  "n \<le> room \<Longrightarrow> readExactInto room I pos n = Some (readFileExact I pos n)"
  by (simp_all add: readInto_def readExactInto_def)

lemma readInto_yes:
  "readInto room I pos n = yes bs \<longleftrightarrow> n \<le> room \<and> readFile I pos n = Some bs"
  "readExactInto room I pos n = yes bs \<longleftrightarrow> n \<le> room \<and> readFileExact I pos n = Some bs"
  by (auto simp: readInto_def readExactInto_def)

lemma safe_readInto [simp]: "safe (readInto room I pos n) \<longleftrightarrow> n \<le> room" "safe (readExactInto room I pos n) \<longleftrightarrow> n \<le> room"
  by (simp_all add: readInto_def readExactInto_def)

abbreviation PGP_FILE_CHUNK_SIZE :: nat where
  "PGP_FILE_CHUNK_SIZE \<equiv> 1048576"

section \<open>The session key\<close>

text \<open>The total length of a body in chunks, from the position behind its first chunk on.\<close>

function scanChunks :: "opened \<Rightarrow> nat \<Rightarrow> nat \<Rightarrow> nat cpp" where
  "scanChunks I offset payload =
     (if offset \<ge> length (opContent I) then no
      else if \<not> opSeeks I offset then no
      else on_true (readInto 5 I offset 5) (\<lambda>bs.
        if bs = [] then no
        else on_true (decodeNewFormatBodyLength (Some (bs @ zeros (5 - length bs))) (length bs))
          (\<lambda>(headerSize, chunkLength, isPartial).
            if isPartial then scanChunks I (offset + (headerSize + chunkLength)) (payload + chunkLength)
            else if offset + (headerSize + chunkLength) > length (opContent I) then no
            else yes (payload + chunkLength))))"
  by pat_completeness auto

termination
  by (relation "measure (\<lambda>(I, offset, payload). length (opContent I) - offset)")
    (auto dest: decodeNewFormatBodyLength_size)

declare scanChunks.simps [simp del]

definition scanPartialBodyTotalLength :: "opened \<Rightarrow> nat \<Rightarrow> nat \<Rightarrow> nat cpp" where
  "scanPartialBodyTotalLength I bodyStartOffset firstChunkLength =
     (if \<not> opSizes I then no else scanChunks I (bodyStartOffset + firstChunkLength) firstChunkLength)"

text \<open>One session-key packet whose body is \<open>[p, pkeskEnd)\<close>. Unlike in a message in memory, a packet that
  is not understood is passed over.\<close>

definition filePkeskStep :: "crypto \<Rightarrow> own_key \<Rightarrow> bytes \<Rightarrow> nat \<Rightarrow> nat \<Rightarrow> bytes option \<Rightarrow> bytes option cpp" where
  "filePkeskStep L K buf p pkeskEnd session =
     (if p \<ge> pkeskEnd then yes session
      else do {
        version \<leftarrow> byte_at buf p;
        if version \<noteq> 3 then yes session
        else if p + 1 + 9 > pkeskEnd then yes session
        else do {
          thisKeyId \<leftarrow> slice buf (p + 1) (p + 9);
          pkAlgo \<leftarrow> byte_at buf (p + 9);
          if \<not> algorithmMatches K pkAlgo \<or> thisKeyId \<noteq> okKeyId K then yes session
          else if pkAlgo = PGP_ALGO_ECDH then
            on_true (ecdhSessionKey L K buf (p + 10) pkeskEnd)
              (\<lambda>result. yes (case result of None \<Rightarrow> session | Some sessionPlain \<Rightarrow> Some sessionPlain))
          else if session = None then rsaSessionKey L K buf (p + 10) pkeskEnd
          else if p + 10 + 2 > pkeskEnd then no
          else do {
            bitLength \<leftarrow> readBigEndian16 buf (p + 10);
            if p + 12 + (bitLength + 7) div 8 > pkeskEnd then no else yes session } } })"

function filePkeskLoop :: "crypto \<Rightarrow> own_key \<Rightarrow> bytes \<Rightarrow> nat \<Rightarrow> bytes option \<Rightarrow> (nat \<times> bytes option) cpp" where
  "filePkeskLoop L K buf pos session =
     (case readPacketHeader buf pos None False of None \<Rightarrow> None | Some None \<Rightarrow> yes (pos, session)
      | Some (Some (tag, bodyLength, peekPos, part)) \<Rightarrow>
          if tag \<noteq> PGP_TAG_PKESK \<or> peekPos + bodyLength > length buf then yes (pos, session)
          else on_true (filePkeskStep L K buf peekPos (peekPos + bodyLength) session)
            (\<lambda>session. filePkeskLoop L K buf (peekPos + bodyLength) session))"
  by pat_completeness auto

termination
  by (relation "measure (\<lambda>(L, K, buf, pos, s). length buf - pos)")
    (auto dest!: readPacketHeader_pos)

declare filePkeskLoop.simps [simp del]

record file_header =
  fhSessionKey :: bytes
  fhEncLength :: nat
  fhLeftoverCipher :: bytes
  fhSeipPartial :: bool
  fhSeipChunkRemaining :: nat
  fhSeipFinalChunk :: bool
  fhPosition :: nat

text \<open>The container header at \<open>pos\<close> of the first piece; the file position is left behind what was read.\<close>

definition seipHeaderOf :: "opened \<Rightarrow> bytes \<Rightarrow> nat \<Rightarrow> bytes \<Rightarrow> file_header cpp" where
  "seipHeaderOf I buf pos sessionKey =
     on_true (readPacketHeader buf pos None True) (\<lambda>(seipTag, seipBodyLength, pos, seipPartial).
       if seipTag \<noteq> PGP_TAG_SEIP then no
       else if pos \<ge> length buf then no
       else do {
         version \<leftarrow> byte_at buf pos;
         if version \<noteq> 1 then no
         else if seipPartial then
           if seipBodyLength < 1 then no
           else on_true (scanPartialBodyTotalLength I pos seipBodyLength) (\<lambda>totalPayload.
             if totalPayload < 1 then no
             else if \<not> opSeeks I (pos + 1) then no
             else yes \<lparr> fhSessionKey = sessionKey, fhEncLength = totalPayload - 1, fhLeftoverCipher = [],
               fhSeipPartial = True, fhSeipChunkRemaining = seipBodyLength - 1, fhSeipFinalChunk = False,
               fhPosition = pos + 1 \<rparr>)
         else yes \<lparr> fhSessionKey = sessionKey, fhEncLength = size_sub seipBodyLength 1,
           fhLeftoverCipher = take (size_sub seipBodyLength 1) (drop (pos + 1) buf),
           fhSeipPartial = False, fhSeipChunkRemaining = 0, fhSeipFinalChunk = False, fhPosition = length buf \<rparr> })"

definition parseEncryptedFileHeader :: "crypto \<Rightarrow> own_key \<Rightarrow> opened \<Rightarrow> file_header cpp" where
  "parseEncryptedFileHeader L K I =
     on_true (readInto 65536 I 0 65536) (\<lambda>buf.
        on_true (filePkeskLoop L K buf 0 None) (\<lambda>(pos, session).
          case session of None \<Rightarrow> no
          | Some sessionPlain \<Rightarrow>
              if sessionPlain = [] then no
              else on_true (openSessionKey sessionPlain) (\<lambda>sessionKey. seipHeaderOf I buf pos sessionKey)))"

lemma parseEncryptedFileHeader_read:
  "readFile I 0 65536 = Some buf \<Longrightarrow> parseEncryptedFileHeader L K I =
     on_true (filePkeskLoop L K buf 0 None) (\<lambda>(pos, session).
          case session of None \<Rightarrow> no
          | Some sessionPlain \<Rightarrow>
              if sessionPlain = [] then no
              else on_true (openSessionKey sessionPlain) (\<lambda>sessionKey. seipHeaderOf I buf pos sessionKey))"
  by (simp add: parseEncryptedFileHeader_def)

section \<open>The decrypted stream\<close>

text \<open>What the lambdas read: the library, the file, the session key, whether the container is in chunks, and
  \<open>encLength\<close>.\<close>

record seip_source =
  ssLib :: crypto
  ssFile :: opened
  ssKey :: bytes
  ssPartial :: bool
  ssLength :: nat

text \<open>What they change. \<open>srCipher\<close> is what the cipher has processed, \<open>srHashed\<close> what the checksum has.\<close>

record seip_reader =
  srPos :: nat
  srChunkRemaining :: nat
  srFinalChunk :: bool
  srCipherRemaining :: nat
  srCipher :: bytes
  srPending :: bytes
  srStreamPos :: nat
  srHashed :: bytes
  srInnerPartial :: bool
  srInnerRemaining :: nat
  srInnerFinal :: bool

text \<open>The cipher turns as many octets as it is given.\<close>

definition decryptNext :: "crypto \<Rightarrow> bytes \<Rightarrow> bytes \<Rightarrow> bytes \<Rightarrow> bytes" where
  "decryptNext L key seen chunk = take (length chunk) (drop (length seen) (cfbDecrypt L key (zeros 16) (seen @ chunk)))"

lemma header_size_le: "newFormatBodyLengthHeaderSize octet \<le> 5"
  by (simp add: newFormatBodyLengthHeaderSize_def)

text \<open>Steps over the chunk headers of the container that the position has reached. The header is read into an array of
  five octets, its first octet and then the others.\<close>

definition cipherChunkHeader :: "opened \<Rightarrow> nat \<Rightarrow> (nat \<times> nat \<times> bool) cpp" where
  "cipherChunkHeader I pos =
     on_true (readExactInto 5 I pos 1) (\<lambda>first. do {
       octet \<leftarrow> byte_at first 0;
       let chunkHeaderSize = newFormatBodyLengthHeaderSize octet;
       on_true (if chunkHeaderSize > 1 then readExactInto (5 - 1) I (pos + 1) (chunkHeaderSize - 1) else yes []) (\<lambda>rest.
       on_true (decodeNewFormatBodyLength (Some (first @ rest @ zeros (5 - chunkHeaderSize))) chunkHeaderSize)
         (\<lambda>(headerSize, chunkLength, isPartial). yes (chunkHeaderSize, chunkLength, isPartial))) })"

lemma cipherChunkHeader_partial: "cipherChunkHeader I pos = yes (k, n, part) \<Longrightarrow> part \<Longrightarrow> 0 < n"
  by (auto simp: cipherChunkHeader_def on_true_eq_yes Let_def bind_eq_Some_conv dest: decodeNewFormatBodyLength_size)

function nextCipherChunk :: "opened \<Rightarrow> seip_reader \<Rightarrow> seip_reader cpp" where
  "nextCipherChunk I s =
     (if srChunkRemaining s \<noteq> 0 then yes s
      else if srFinalChunk s then no
      else on_true (cipherChunkHeader I (srPos s)) (\<lambda>(chunkHeaderSize, chunkLength, isPartial).
        nextCipherChunk I (s\<lparr>srPos := srPos s + chunkHeaderSize, srChunkRemaining := chunkLength,
          srFinalChunk := \<not> isPartial\<rparr>)))"
  by pat_completeness auto

termination
  by (relation "measure (\<lambda>(I, s). if srChunkRemaining s \<noteq> 0 \<or> srFinalChunk s then 0 else 1)")
    (auto dest: cipherChunkHeader_partial)

declare nextCipherChunk.simps [simp del]

text \<open>One header is enough: only the last chunk can be empty.\<close>

lemma nextCipherChunk_once:
  "nextCipherChunk I s =
     (if srChunkRemaining s \<noteq> 0 then yes s
      else if srFinalChunk s then no
      else on_true (cipherChunkHeader I (srPos s)) (\<lambda>(k, n, part).
        if n = 0 then no else yes (s\<lparr>srPos := srPos s + k, srChunkRemaining := n, srFinalChunk := \<not> part\<rparr>)))"
  by (subst nextCipherChunk.simps, subst nextCipherChunk.simps)
    (auto simp: on_true_def dest: cipherChunkHeader_partial split: option.split)

definition innerState :: "seip_reader \<Rightarrow> bool \<times> nat \<times> bool" where
  "innerState s = (srInnerPartial s, srInnerRemaining s, srInnerFinal s)"

lemma nextCipherChunk_keeps:
  "nextCipherChunk I s = yes s' \<Longrightarrow> srCipherRemaining s' = srCipherRemaining s \<and> srPending s' = srPending s
     \<and> innerState s' = innerState s \<and> srChunkRemaining s' \<noteq> 0"
  by (auto simp: nextCipherChunk_once on_true_eq_yes innerState_def split: if_splits)

text \<open>Reads and decrypts one piece, never across the end of a chunk, by way of a vector of \<open>PGP_FILE_CHUNK_SIZE\<close> octets.\<close>

definition readCeiling :: "seip_source \<Rightarrow> seip_reader \<Rightarrow> nat" where
  "readCeiling D s = (if ssPartial D then min (srCipherRemaining s) (srChunkRemaining s) else srCipherRemaining s)"

definition fillPending :: "seip_source \<Rightarrow> seip_reader \<Rightarrow> seip_reader cpp" where
  "fillPending D s =
     on_true (if ssPartial D then nextCipherChunk (ssFile D) s else yes s) (\<lambda>s.
       on_true (readInto PGP_FILE_CHUNK_SIZE (ssFile D) (srPos s) (min (readCeiling D s) PGP_FILE_CHUNK_SIZE)) (\<lambda>bs.
         if bs = [] then no
         else yes (s\<lparr>
           srPos := srPos s + length bs,
           srCipherRemaining := srCipherRemaining s - length bs,
           srChunkRemaining := (if ssPartial D then srChunkRemaining s - length bs else srChunkRemaining s),
           srPending := srPending s @ decryptNext (ssLib D) (ssKey D) (srCipher s) bs,
           srCipher := srCipher s @ bs\<rparr>)))"

text \<open>What is left of the container: waiting octets and those not read yet.\<close>

definition octetsLeft :: "seip_reader \<Rightarrow> nat" where
  "octetsLeft s = length (srPending s) + srCipherRemaining s"

lemma readFile_ceiling:
  "readFile I pos (min (readCeiling D s) k) = Some bs \<Longrightarrow> length bs \<le> srCipherRemaining s"
  using readFile_length [of I pos "min (readCeiling D s) k" bs] by (auto simp: readCeiling_def split: if_splits)

lemma fillPending_left:
  assumes "fillPending D s = yes s'"
  shows "srCipherRemaining s' < srCipherRemaining s" "octetsLeft s' \<le> octetsLeft s" "innerState s' = innerState s"
proof -
  obtain t bs where t: "(if ssPartial D then nextCipherChunk (ssFile D) s else yes s) = yes t" "bs \<noteq> []"
    "readFile (ssFile D) (srPos t) (min (readCeiling D t) 1048576) = Some bs"
    "srCipherRemaining s' = srCipherRemaining t - length bs" "innerState s' = innerState t"
    "srPending s' = srPending t @ decryptNext (ssLib D) (ssKey D) (srCipher t) bs"
    using assms by (auto simp: fillPending_def on_true_eq_yes readInto_yes innerState_def split: option.splits if_splits)
  have same: "srCipherRemaining t = srCipherRemaining s" "srPending t = srPending s" "innerState t = innerState s"
    using t(1) nextCipherChunk_keeps by (auto split: if_splits)
  have "length (decryptNext (ssLib D) (ssKey D) (srCipher t) bs) \<le> length bs" by (simp add: decryptNext_def)
  moreover have "length bs \<le> srCipherRemaining t" by (rule readFile_ceiling [OF t(3)])
  ultimately show "srCipherRemaining s' < srCipherRemaining s" "octetsLeft s' \<le> octetsLeft s" "innerState s' = innerState s"
    using t(2,4-6) same by (auto simp: octetsLeft_def length_greater_0_conv [symmetric] simp del: length_greater_0_conv)
qed

text \<open>Decrypts more until \<open>minBytes\<close> octets are waiting; false when the container ends before.\<close>

function ensurePending :: "seip_source \<Rightarrow> nat \<Rightarrow> seip_reader \<Rightarrow> seip_reader cpp" where
  "ensurePending D minBytes s =
     (if length (srPending s) \<ge> minBytes then yes s
      else if srCipherRemaining s = 0 then no
      else on_true (fillPending D s) (\<lambda>s. ensurePending D minBytes s))"
  by pat_completeness auto

termination
  by (relation "measure (\<lambda>(D, n, s). srCipherRemaining s)") (auto dest: fillPending_left)

declare ensurePending.simps [simp del]

lemma ensurePending_left:
  "ensurePending D n s = yes s' \<Longrightarrow> octetsLeft s' \<le> octetsLeft s \<and> n \<le> length (srPending s')
     \<and> innerState s' = innerState s"
proof (induction D n s rule: ensurePending.induct)
  case (1 D n s)
  show ?case
  proof (cases "n \<le> length (srPending s)")
    case False
    from "1.prems" False have "srCipherRemaining s \<noteq> 0 \<and> (\<exists>t. fillPending D s = yes t \<and> ensurePending D n t = yes s')"
      by (subst (asm) ensurePending.simps) (auto simp: on_true_eq_yes split: if_splits)
    then obtain t where t: "srCipherRemaining s \<noteq> 0" "fillPending D s = yes t" "ensurePending D n t = yes s'" by blast
    from "1.IH" [OF False t] fillPending_left [OF t(2)] show ?thesis by simp
  qed (use "1.prems" in \<open>simp add: ensurePending.simps\<close>)
qed

text \<open>Hands \<open>n\<close> waiting octets to the checksum, except those behind the place where it stands.\<close>

definition consumeForHash :: "seip_source \<Rightarrow> nat \<Rightarrow> seip_reader \<Rightarrow> seip_reader option" where
  "consumeForHash D n s =
     (if n > length (srPending s) then None
      else
        let mdcHashOffset = ssLength D - 20;
            hashEnd = (if srStreamPos s + n < mdcHashOffset then srStreamPos s + n else mdcHashOffset);
            hashed = (if srStreamPos s < mdcHashOffset then take (hashEnd - srStreamPos s) (srPending s) else [])
        in Some (s\<lparr>srHashed := srHashed s @ hashed, srStreamPos := srStreamPos s + n,
             srPending := drop n (srPending s)\<rparr>))"

text \<open>Steps over the chunk headers of the inner packet that the stream has reached.\<close>

definition innerChunkHeader :: "seip_source \<Rightarrow> seip_reader \<Rightarrow> (seip_reader \<times> nat \<times> bool) cpp" where
  "innerChunkHeader D s =
     on_true (ensurePending D 1 s) (\<lambda>s. do {
       octet \<leftarrow> byte_at (srPending s) 0;
       let chunkHeaderSize = newFormatBodyLengthHeaderSize octet;
       on_true (ensurePending D chunkHeaderSize s) (\<lambda>s.
       on_true (decodeNewFormatBodyLength (Some (srPending s)) chunkHeaderSize) (\<lambda>(headerSize, chunkLength, isPartial). do {
         s \<leftarrow> consumeForHash D headerSize s;
         yes (s, chunkLength, isPartial) })) })"

lemma innerChunkHeader_partial: "innerChunkHeader D s = yes (s', n, part) \<Longrightarrow> part \<Longrightarrow> 0 < n"
  by (auto simp: innerChunkHeader_def on_true_eq_yes Let_def bind_eq_Some_conv dest: decodeNewFormatBodyLength_size)

function ensureInnerChunk :: "seip_source \<Rightarrow> seip_reader \<Rightarrow> seip_reader cpp" where
  "ensureInnerChunk D s =
     (if \<not> srInnerPartial s \<or> srInnerRemaining s \<noteq> 0 then yes s
      else if srInnerFinal s then no
      else on_true (innerChunkHeader D s) (\<lambda>(s, chunkLength, isPartial).
        ensureInnerChunk D (s\<lparr>srInnerRemaining := chunkLength, srInnerFinal := \<not> isPartial\<rparr>)))"
  by pat_completeness auto

termination
  by (relation "measure (\<lambda>(D, s). if \<not> srInnerPartial s \<or> srInnerRemaining s \<noteq> 0 \<or> srInnerFinal s then 0 else 1)")
    (auto dest: innerChunkHeader_partial)

declare ensureInnerChunk.simps [simp del]

lemma ensureInnerChunk_once:
  "ensureInnerChunk D s =
     (if \<not> srInnerPartial s \<or> srInnerRemaining s \<noteq> 0 then yes s
      else if srInnerFinal s then no
      else on_true (innerChunkHeader D s) (\<lambda>(s, n, part).
        if srInnerPartial s \<and> n = 0 then no else yes (s\<lparr>srInnerRemaining := n, srInnerFinal := \<not> part\<rparr>)))"
  by (subst ensureInnerChunk.simps, subst ensureInnerChunk.simps)
    (auto simp: on_true_def dest: innerChunkHeader_partial split: option.split)

lemma consumeForHash_left:
  "consumeForHash D n s = Some s' \<Longrightarrow> octetsLeft s' + n = octetsLeft s \<and> innerState s' = innerState s"
  by (auto simp: consumeForHash_def octetsLeft_def innerState_def Let_def split: if_splits)

lemma innerChunkHeader_left:
  "innerChunkHeader D s = yes (s', n, part) \<Longrightarrow> octetsLeft s' \<le> octetsLeft s \<and> innerState s' = innerState s"
  by (fastforce simp: innerChunkHeader_def on_true_eq_yes Let_def bind_eq_Some_conv
      dest: ensurePending_left consumeForHash_left)

lemma ensureInnerChunk_left:
  assumes "ensureInnerChunk D s = yes s'"
  shows "octetsLeft s' \<le> octetsLeft s" "srInnerPartial s' = srInnerPartial s" "srInnerPartial s \<Longrightarrow> 0 < srInnerRemaining s'"
  using assms
  by (auto simp: ensureInnerChunk_once on_true_eq_yes octetsLeft_def innerState_def split: if_splits
      dest!: innerChunkHeader_left [unfolded octetsLeft_def innerState_def])

section \<open>The content\<close>

lemma on_read_cong [fundef_cong]:
  "r = r' \<Longrightarrow> (\<And>v. r' = yes v \<Longrightarrow> f v = g v) \<Longrightarrow> b = b' \<Longrightarrow> on_read r b f = on_read r' b' g"
  by (auto simp: on_read_def split: option.splits)

text \<open>
  One round of the loop that hands the body of the inner packet on: the next piece of it, at most 4096 octets
  for a decompressor (\<open>compressed\<close>) and 1048576 for the output file. \<open>bodyRemaining\<close> is what is left of a body
  of definite length.
\<close>

definition bodyDone :: "seip_reader \<Rightarrow> nat \<Rightarrow> bool" where
  "bodyDone s bodyRemaining = (if srInnerPartial s then srInnerFinal s \<and> srInnerRemaining s = 0 else bodyRemaining = 0)"

definition takeNow :: "bool \<Rightarrow> nat \<Rightarrow> seip_reader \<Rightarrow> nat" where
  "takeNow compressed bodyRemaining s =
     (let available = length (srPending s);
          remainingNow = (if srInnerPartial s then srInnerRemaining s else bodyRemaining)
      in min (min available remainingNow) (if compressed then 4096 else 1048576))"

definition bodyStep :: "seip_source \<Rightarrow> bool \<Rightarrow> nat \<Rightarrow> seip_reader \<Rightarrow> (seip_reader \<times> nat \<times> bytes) cpp" where
  "bodyStep D compressed bodyRemaining s =
     on_true (ensureInnerChunk D s) (\<lambda>s.
     on_true (ensurePending D 1 s) (\<lambda>s.
       let n = takeNow compressed bodyRemaining s
       in do {
         piece \<leftarrow> slice (srPending s) 0 n;
         s \<leftarrow> consumeForHash D n s;
         if srInnerPartial s then yes (s\<lparr>srInnerRemaining := srInnerRemaining s - n\<rparr>, bodyRemaining, piece)
         else yes (s, bodyRemaining - n, piece) }))"

lemma bodyStep_left:
  assumes "bodyStep D compressed bodyRemaining s = yes (s', n, piece)" "\<not> bodyDone s bodyRemaining"
  shows "octetsLeft s' < octetsLeft s"
proof -
  obtain t u v where t: "ensureInnerChunk D s = yes t" and u: "ensurePending D 1 t = yes u"
    and v: "consumeForHash D (takeNow compressed bodyRemaining u) u = Some v" "octetsLeft s' = octetsLeft v"
    using assms(1) by (auto simp: bodyStep_def on_true_eq_yes Let_def bind_eq_Some_conv octetsLeft_def split: if_splits)
  have kept: "innerState u = innerState t" "1 \<le> length (srPending u)" "octetsLeft u \<le> octetsLeft t"
    using ensurePending_left [OF u] by auto
  have "0 < (if srInnerPartial u then srInnerRemaining u else bodyRemaining)"
    using ensureInnerChunk_left [OF t] kept(1) assms(2) by (auto simp: innerState_def bodyDone_def)
  then have "0 < takeNow compressed bodyRemaining u" using kept(2) by (cases "srPending u") (simp_all add: takeNow_def Let_def)
  then show ?thesis using consumeForHash_left [OF v(1)] v(2) kept(3) ensureInnerChunk_left(1) [OF t] by linarith
qed

function bodyLoop :: "seip_source \<Rightarrow> bool \<Rightarrow> ('x \<Rightarrow> bytes \<Rightarrow> 'x io option) \<Rightarrow> nat \<Rightarrow> seip_reader \<Rightarrow> 'x
    \<Rightarrow> (seip_reader \<times> 'x) io option" where
  "bodyLoop D compressed act bodyRemaining s x =
     (if bodyDone s bodyRemaining then Some (Inr (s, x))
      else on_read (bodyStep D compressed bodyRemaining s) (Inl INVALID_DATA) (\<lambda>(s, bodyRemaining, piece).
        case act x piece of None \<Rightarrow> None | Some (Inl st) \<Rightarrow> Some (Inl st)
        | Some (Inr x) \<Rightarrow> bodyLoop D compressed act bodyRemaining s x))"
  by pat_completeness auto

termination
  by (relation "measure (\<lambda>(D, c, act, n, s, x). octetsLeft s)") (auto dest: bodyStep_left)

declare bodyLoop.simps [simp del]

text \<open>A literal packet that is not compressed: format, file name and date are passed over, the rest is
  written. The state of the loop is the output file and the number of octets written.\<close>

definition writeContent :: "(nat \<Rightarrow> bool) \<Rightarrow> (nat \<Rightarrow> bool) \<Rightarrow> bytes \<times> nat \<Rightarrow> bytes \<Rightarrow> (bytes \<times> nat) io option" where
  "writeContent writable progress = (\<lambda>(out, processed) piece. Some (
     case writeFileExact writable out piece of None \<Rightarrow> Inl FILE_IO_ERROR
     | Some out \<Rightarrow>
         if progress (processed + length piece) then Inr (out, processed + length piece) else Inl OPERATION_CANCELLED))"

definition skipOctets :: "seip_source \<Rightarrow> nat \<Rightarrow> seip_reader \<Rightarrow> seip_reader cpp" where
  "skipOctets D n s = on_true (ensurePending D n s) (\<lambda>s. map_option Some (consumeForHash D n s))"

definition decryptLiteral ::
  "seip_source \<Rightarrow> (nat \<Rightarrow> bool) \<Rightarrow> (nat \<Rightarrow> bool) \<Rightarrow> nat \<Rightarrow> seip_reader \<Rightarrow> (seip_reader \<times> bytes) io option" where
  "decryptLiteral D writable progress innerBodyLength s =
     on_read (ensurePending D 2 s) (Inl INVALID_DATA) (\<lambda>s. do {
       filenameLength \<leftarrow> byte_at (srPending s) 1;
       let literalHeaderTotal = 2 + unat filenameLength + 4;
       if srInnerPartial s \<and> srInnerRemaining s < literalHeaderTotal then Some (Inl INVALID_DATA)
       else on_read (skipOctets D 2 s) (Inl INVALID_DATA) (\<lambda>s.
         on_read (if filenameLength > 0 then skipOctets D (unat filenameLength) s else yes s) (Inl INVALID_DATA) (\<lambda>s.
         on_read (skipOctets D 4 s) (Inl INVALID_DATA) (\<lambda>s.
           if innerBodyLength < literalHeaderTotal then Some (Inl INVALID_DATA)
           else
             let contentRemaining = (if srInnerPartial s then 0 else innerBodyLength - literalHeaderTotal);
                 s = (if srInnerPartial s then s\<lparr>srInnerRemaining := srInnerRemaining s - literalHeaderTotal\<rparr> else s)
             in do {
               result \<leftarrow> bodyLoop D False (writeContent writable progress) contentRemaining s ([], 0);
               Some (on_success result (\<lambda>(s, out, processed). Inr (s, out))) }))) })"

section \<open>Compressed content\<close>

text \<open>A decompressor that is fed in pieces: what has come out after some input, and in the end; \<open>None\<close> is
  an exception. \<open>storedDecoder\<close> is the queue that stands in for one when nothing is compressed.\<close>

record decoder =
  dcSoFar :: "bytes \<Rightarrow> bytes option"
  dcWhole :: "bytes \<Rightarrow> bytes option"

definition storedDecoder :: decoder where
  "storedDecoder = \<lparr> dcSoFar = Some, dcWhole = Some \<rparr>"

text \<open>The variables of \<open>drainDecoded\<close>, and the output file.\<close>

record drain =
  drOut :: bytes
  drDecoded :: bytes
  drRaw :: bytes
  drHeaderParsed :: bool
  drPrefixParsed :: bool
  drIndeterminate :: bool
  drHeaderEnd :: nat
  drBodyLength :: nat
  drContentRemaining :: nat
  drProcessed :: nat
  drPartial :: bool
  drFinalChunk :: bool
  drChunkRemaining :: nat

definition emptyDrain :: drain where
  "emptyDrain = \<lparr> drOut = [], drDecoded = [], drRaw = [], drHeaderParsed = False, drPrefixParsed = False,
     drIndeterminate = False, drHeaderEnd = 0, drBodyLength = 0, drContentRemaining = 0, drProcessed = 0,
     drPartial = False, drFinalChunk = False, drChunkRemaining = 0 \<rparr>"

text \<open>Takes over what has been decoded, and strips chunk headers from it once the literal packet is known to have them.\<close>

definition drainFramed :: "drain \<Rightarrow> drain cpp" where
  "drainFramed d =
     on_true (dechunkPartialBody (drRaw d) (drChunkRemaining d) (drFinalChunk d) (drDecoded d)) (\<lambda>(raw, n, final, content).
       yes (d\<lparr>drRaw := raw, drChunkRemaining := n, drFinalChunk := final, drDecoded := content\<rparr>))"

definition drainTake :: "bytes \<Rightarrow> drain \<Rightarrow> drain cpp" where
  "drainTake available d =
     (if drPartial d then drainFramed (d\<lparr>drRaw := drRaw d @ available\<rparr>)
      else yes (d\<lparr>drDecoded := drDecoded d @ available\<rparr>))"

text \<open>The header of the literal packet, then its format, file name and date. Each either fails, or needs
  more octets (\<open>False\<close>), or is done.\<close>

definition drainHeader :: "drain \<Rightarrow> (bool \<times> drain) io option" where
  "drainHeader d =
     (if drHeaderParsed d then Some (Inr (True, d))
      else if drDecoded d = [] then Some (Inr (False, d))
      else on_read (readPacketHeader (drDecoded d) 0 None True)
        (if length (drDecoded d) > 512 then Inl INVALID_DATA else Inr (False, d))
        (\<lambda>(tag, bodyLength, pos, isPartial).
          if tag \<noteq> PGP_TAG_LITERAL_DATA then Some (Inl INVALID_DATA)
          else do {
            first \<leftarrow> byte_at (drDecoded d) 0;
            let d = d\<lparr>drBodyLength := bodyLength, drIndeterminate := (first AND 0xC0 = 0x80 \<and> first AND 0x03 = 3)\<rparr>;
            if isPartial then
              on_read (drainFramed (d\<lparr>drPartial := True, drIndeterminate := True, drChunkRemaining := bodyLength,
                  drFinalChunk := False, drRaw := drop pos (drDecoded d), drDecoded := take pos (drDecoded d)\<rparr>))
                (Inl INVALID_DATA)
                (\<lambda>d. Some (Inr (True, d\<lparr>drHeaderParsed := True, drHeaderEnd := pos\<rparr>)))
            else Some (Inr (True, d\<lparr>drHeaderParsed := True, drHeaderEnd := pos\<rparr>)) }))"

definition drainPrefix :: "drain \<Rightarrow> (bool \<times> drain) io option" where
  "drainPrefix d =
     (if drPrefixParsed d then Some (Inr (True, d))
      else if length (drDecoded d) < drHeaderEnd d + 2 then Some (Inr (False, d))
      else do {
        filenameLength \<leftarrow> byte_at (drDecoded d) (drHeaderEnd d + 1);
        let prefixLength = 2 + unat filenameLength + 4;
        if \<not> drIndeterminate d \<and> drBodyLength d < prefixLength then Some (Inl INVALID_DATA)
        else if length (drDecoded d) < drHeaderEnd d + prefixLength then Some (Inr (False, d))
        else Some (Inr (True, d\<lparr>
          drContentRemaining := (if drIndeterminate d then 0 else drBodyLength d - prefixLength),
          drDecoded := drop (drHeaderEnd d + prefixLength) (drDecoded d), drPrefixParsed := True\<rparr>)) })"

definition drainWrite :: "(nat \<Rightarrow> bool) \<Rightarrow> (nat \<Rightarrow> bool) \<Rightarrow> drain \<Rightarrow> drain io" where
  "drainWrite writable progress d =
     (if \<not> drIndeterminate d \<and> length (drDecoded d) > drContentRemaining d then Inl INVALID_DATA
      else if drDecoded d = [] then Inr d
      else case writeFileExact writable (drOut d) (drDecoded d) of None \<Rightarrow> Inl FILE_IO_ERROR
      | Some out \<Rightarrow>
          let processed = drProcessed d + length (drDecoded d);
              remaining = (if drIndeterminate d then drContentRemaining d else drContentRemaining d - length (drDecoded d));
              d = d\<lparr>drOut := out, drProcessed := processed, drContentRemaining := remaining, drDecoded := []\<rparr>
          in if progress processed then Inr d else Inl OPERATION_CANCELLED)"

definition drainDecoded :: "(nat \<Rightarrow> bool) \<Rightarrow> (nat \<Rightarrow> bool) \<Rightarrow> bytes \<Rightarrow> drain \<Rightarrow> drain io option" where
  "drainDecoded writable progress available d =
     on_read (drainTake available d) (Inl INVALID_DATA) (\<lambda>d.
       case drainHeader d of None \<Rightarrow> None | Some (Inl st) \<Rightarrow> Some (Inl st) | Some (Inr (False, d)) \<Rightarrow> Some (Inr d)
       | Some (Inr (True, d)) \<Rightarrow>
           (case drainPrefix d of None \<Rightarrow> None | Some (Inl st) \<Rightarrow> Some (Inl st) | Some (Inr (False, d)) \<Rightarrow> Some (Inr d)
            | Some (Inr (True, d)) \<Rightarrow> Some (drainWrite writable progress d)))"

text \<open>One piece of the compressed body. The state is what has been fed, how much of what was decoded has been taken
  over, and the drain; bzip2 data is only collected.\<close>

definition feedDecoder ::
  "byte \<Rightarrow> decoder \<Rightarrow> (nat \<Rightarrow> bool) \<Rightarrow> (nat \<Rightarrow> bool) \<Rightarrow> bytes \<times> nat \<times> drain \<Rightarrow> bytes \<Rightarrow> (bytes \<times> nat \<times> drain) io option" where
  "feedDecoder algorithm Z writable progress = (\<lambda>(fed, taken, d) piece.
     if algorithm = 3 then Some (Inr (fed @ piece, taken, d))
     else case dcSoFar Z (fed @ piece) of None \<Rightarrow> Some (Inl INVALID_DATA)
     | Some decoded \<Rightarrow> do {
         result \<leftarrow> drainDecoded writable progress (drop taken decoded) d;
         Some (on_success result (\<lambda>d. Inr (fed @ piece, length decoded, d))) })"

function bzip2Drain :: "(nat \<Rightarrow> bool) \<Rightarrow> (nat \<Rightarrow> bool) \<Rightarrow> bytes \<Rightarrow> drain \<Rightarrow> drain io option" where
  "bzip2Drain writable progress decoded d =
     (case drainDecoded writable progress (take 65536 decoded) d of None \<Rightarrow> None | Some (Inl st) \<Rightarrow> Some (Inl st)
      | Some (Inr d) \<Rightarrow> if length decoded \<le> 65536 then Some (Inr d) else bzip2Drain writable progress (drop 65536 decoded) d)"
  by pat_completeness auto

termination
  by (relation "measure (\<lambda>(w, p, decoded, d). length decoded)") auto

declare bzip2Drain.simps [simp del]

text \<open>What remains to be done when the compressed body has ended.\<close>

definition drainComplete :: "drain \<Rightarrow> bool" where
  "drainComplete d \<longleftrightarrow> drPrefixParsed d \<and> (drIndeterminate d \<or> drContentRemaining d = 0)
     \<and> \<not> (drPartial d \<and> (\<not> drFinalChunk d \<or> drChunkRemaining d \<noteq> 0 \<or> drRaw d \<noteq> []))"

definition finishDecoder ::
  "byte \<Rightarrow> decoder \<Rightarrow> (nat \<Rightarrow> bool) \<Rightarrow> (nat \<Rightarrow> bool) \<Rightarrow> bytes \<times> nat \<times> drain \<Rightarrow> bytes io option" where
  "finishDecoder algorithm Z writable progress = (\<lambda>(fed, taken, d). do {
     result \<leftarrow> (if algorithm = 3
       then on_read (bzip2DecompressBuffer fed) (Inl INVALID_DATA) (\<lambda>decoded. bzip2Drain writable progress decoded d)
       else case dcWhole Z fed of None \<Rightarrow> Some (Inl INVALID_DATA)
         | Some decoded \<Rightarrow> drainDecoded writable progress (drop taken decoded) d);
     Some (on_success result (\<lambda>d. if drainComplete d then Inr (drOut d) else Inl INVALID_DATA)) })"

text \<open>\<open>Z\<close> gives the decompressors of the library for ZIP (1) and ZLIB (2).\<close>

definition decoderFor :: "(byte \<Rightarrow> decoder) \<Rightarrow> byte \<Rightarrow> decoder" where
  "decoderFor Z algorithm = (if algorithm = 1 \<or> algorithm = 2 then Z algorithm else storedDecoder)"

definition decryptCompressed ::
  "seip_source \<Rightarrow> (byte \<Rightarrow> decoder) \<Rightarrow> (nat \<Rightarrow> bool) \<Rightarrow> (nat \<Rightarrow> bool) \<Rightarrow> nat \<Rightarrow> seip_reader \<Rightarrow> (seip_reader \<times> bytes) io option" where
  "decryptCompressed D Z writable progress innerBodyLength s =
     (if innerBodyLength < 1 \<or>
         (\<not> srInnerPartial s \<and> innerBodyLength > size_sub (size_sub (ssLength D - 20) (srStreamPos s)) 2)
      then Some (Inl INVALID_DATA)
      else on_read (ensurePending D 1 s) (Inl INVALID_DATA) (\<lambda>s.
        if srInnerPartial s \<and> srInnerRemaining s < 1 then Some (Inl INVALID_DATA)
        else do {
          algorithm \<leftarrow> byte_at (srPending s) 0;
          s \<leftarrow> consumeForHash D 1 s;
          let s = (if srInnerPartial s then s\<lparr>srInnerRemaining := srInnerRemaining s - 1\<rparr> else s);
          if algorithm > 3 then Some (Inl NOT_IMPLEMENTED)
          else
            let Z = decoderFor Z algorithm
            in case bodyLoop D True (feedDecoder algorithm Z writable progress) (innerBodyLength - 1) s ([], 0, emptyDrain) of
              None \<Rightarrow> None | Some (Inl st) \<Rightarrow> Some (Inl st)
            | Some (Inr (s, fed)) \<Rightarrow> do {
                result \<leftarrow> finishDecoder algorithm Z writable progress fed;
                Some (on_success result (\<lambda>out. Inr (s, out))) } }))"

section \<open>The whole container\<close>

text \<open>The header of the inner packet: 8 waiting octets are tried first, then 16, up to 512.\<close>

fun probeHeader :: "seip_source \<Rightarrow> nat list \<Rightarrow> seip_reader \<Rightarrow> ((byte \<times> nat \<times> nat \<times> bool) \<times> seip_reader) cpp" where
  "probeHeader D [] s = no"
| "probeHeader D (probeSize # sizes) s =
     on_true (ensurePending D probeSize s) (\<lambda>s.
       case readPacketHeader (take probeSize (srPending s)) 0 None True of None \<Rightarrow> None
       | Some None \<Rightarrow> probeHeader D sizes s
       | Some (Some header) \<Rightarrow> yes (header, s))"

definition checkTrailer :: "seip_source \<Rightarrow> seip_reader \<times> bytes \<Rightarrow> bytes io option" where
  "checkTrailer D = (\<lambda>(s, out).
     on_read (ensurePending D 22 s) (Inl INVALID_DATA) (\<lambda>s. do {
       marker0 \<leftarrow> byte_at (srPending s) 0;
       marker1 \<leftarrow> byte_at (srPending s) 1;
       storedMdc \<leftarrow> slice (srPending s) 2 22;
       s \<leftarrow> consumeForHash D 22 s;
       Some (if marker0 \<noteq> 0xD3 \<or> marker1 \<noteq> 0x14 then Inl INVALID_DATA
             else if sha1 (ssLib D) (srHashed s) \<noteq> storedMdc then Inl INVALID_DATA
             else Inr out) }))"

definition decryptInner ::
  "seip_source \<Rightarrow> (byte \<Rightarrow> decoder) \<Rightarrow> (nat \<Rightarrow> bool) \<Rightarrow> (nat \<Rightarrow> bool) \<Rightarrow> (byte \<times> nat \<times> nat \<times> bool) \<times> seip_reader \<Rightarrow> bytes io option" where
  "decryptInner D Z writable progress = (\<lambda>((innerTag, bodyLength, headerLength, innerPartial), s). do {
     innerFirst \<leftarrow> byte_at (srPending s) 0;
     let innerIndeterminate = (innerFirst AND 0xC0 = 0x80 \<and> innerFirst AND 0x03 = 3);
     s \<leftarrow> consumeForHash D headerLength s;
     if innerIndeterminate \<and> srStreamPos s > ssLength D - 22 then Some (Inl INVALID_DATA)
     else
       let innerBodyLength = (if innerIndeterminate then ssLength D - 22 - srStreamPos s else bodyLength);
           s = s\<lparr>srInnerPartial := innerPartial, srInnerRemaining := (if innerPartial then innerBodyLength else 0),
                 srInnerFinal := False\<rparr>
       in case (if innerTag = PGP_TAG_COMPRESSED_DATA then decryptCompressed D Z writable progress innerBodyLength s
                else if innerTag = PGP_TAG_LITERAL_DATA then decryptLiteral D writable progress innerBodyLength s
                else Some (Inl NOT_IMPLEMENTED)) of
            None \<Rightarrow> None | Some (Inl st) \<Rightarrow> Some (Inl st) | Some (Inr result) \<Rightarrow> checkTrailer D result })"

definition probeSizes :: "nat list" where
  "probeSizes = map (\<lambda>i. 8 * i) [1..<65]"

definition decryptSeipBodyStreaming ::
  "crypto \<Rightarrow> opened \<Rightarrow> (byte \<Rightarrow> decoder) \<Rightarrow> (nat \<Rightarrow> bool) \<Rightarrow> (nat \<Rightarrow> bool) \<Rightarrow> file_header \<Rightarrow> bytes io option" where
  "decryptSeipBodyStreaming L I Z writable progress H =
     (if fhEncLength H < 18 + 6 + 22 \<or> length (fhLeftoverCipher H) > fhEncLength H then Some (Inl INVALID_DATA)
      else
        let D = \<lparr> ssLib = L, ssFile = I, ssKey = fhSessionKey H, ssPartial = fhSeipPartial H, ssLength = fhEncLength H \<rparr>;
            s = \<lparr> srPos = fhPosition H, srChunkRemaining = fhSeipChunkRemaining H, srFinalChunk = fhSeipFinalChunk H,
                  srCipherRemaining = fhEncLength H - length (fhLeftoverCipher H), srCipher = fhLeftoverCipher H,
                  srPending = decryptNext L (fhSessionKey H) [] (fhLeftoverCipher H), srStreamPos = 0, srHashed = [],
                  srInnerPartial = False, srInnerRemaining = 0, srInnerFinal = False \<rparr>
        in on_read (skipOctets D 18 s) (Inl INVALID_DATA) (\<lambda>s.
           on_read (probeHeader D probeSizes s) (Inl INVALID_DATA) (decryptInner D Z writable progress)))"

end
