(* ===== verification/FileMethods.thy ===== *)
theory FileMethods
  imports FileDecrypt
begin

unbundle bit_operations_syntax

text \<open>
  The methods of \<open>CPgpEngine\<close> on files (src/src/Pgp/PgpEngine.cpp): \<open>EncryptFile\<close>, \<open>EncryptFileCompressed\<close>,
  \<open>DecryptFile\<close>, \<open>SignFile\<close> and \<open>VerifyFile\<close>. The disk is a map from wide paths to contents, where two paths are
  two files. What the operating system answers is the record \<open>file_system\<close>: whether calls succeed, how much each read
  delivers, and what is left of a file whose writing was given up, in case it cannot be deleted. A file that is open
  for reading is shared with readers only: it cannot be created anew, deleted or replaced meanwhile.
\<close>

section \<open>The file system\<close>

type_synonym disk = "string \<rightharpoonup> bytes"

record file_system =
  fsWiden :: "string \<Rightarrow> string option"
  fsOpens :: "string \<Rightarrow> bool"
  fsSizes :: "string \<Rightarrow> bool"
  fsSeeks :: "string \<Rightarrow> nat \<Rightarrow> bool"
  fsReads :: "string \<Rightarrow> nat \<Rightarrow> nat \<Rightarrow> nat option"
  fsCreates :: "string \<Rightarrow> bool"
  fsWritable :: "string \<Rightarrow> nat \<Rightarrow> bool"
  fsDeletes :: "string \<Rightarrow> bool"
  fsMoves :: "string \<Rightarrow> string \<Rightarrow> bool"
  fsUnfinished :: "string \<Rightarrow> bytes"
  fsProgress :: "nat \<Rightarrow> bool"

definition convertUtf8PathToWide :: "file_system \<Rightarrow> string option \<Rightarrow> string option" where
  "convertUtf8PathToWide E path = (case path of None \<Rightarrow> None | Some p \<Rightarrow> fsWiden E p)"

definition openFile :: "file_system \<Rightarrow> disk \<Rightarrow> string \<Rightarrow> opened option" where
  "openFile E disk path =
     (if fsOpens E path
      then map_option (\<lambda>content. \<lparr> opContent = content, opReads = fsReads E path, opSizes = fsSizes E path,
             opSeeks = fsSeeks E path \<rparr>) (disk path)
      else None)"

text \<open>\<open>held\<close> are the paths that are open for reading.\<close>

definition createFile :: "file_system \<Rightarrow> string set \<Rightarrow> string \<Rightarrow> disk \<Rightarrow> disk option" where
  "createFile E held path disk = (if path \<in> held \<or> \<not> fsCreates E path then None else Some (disk(path \<mapsto> [])))"

definition deleteFile :: "file_system \<Rightarrow> string set \<Rightarrow> string \<Rightarrow> disk \<Rightarrow> disk" where
  "deleteFile E held path disk = (if path \<in> held \<or> \<not> fsDeletes E path then disk else disk(path := None))"

definition moveFile :: "file_system \<Rightarrow> string set \<Rightarrow> string \<Rightarrow> string \<Rightarrow> disk \<Rightarrow> disk option" where
  "moveFile E held source target disk =
     (if target \<in> held \<or> \<not> fsMoves E source target then None else Some (disk(target := disk source, source := None)))"

text \<open>A written file is closed: what was written stays when it is complete, otherwise it is deleted.\<close>

definition closeWritten :: "file_system \<Rightarrow> string set \<Rightarrow> string \<Rightarrow> bytes io \<Rightarrow> disk \<Rightarrow> status \<times> disk" where
  "closeWritten E held path result disk =
     (case result of Inl st \<Rightarrow> (st, deleteFile E held path (disk(path \<mapsto> fsUnfinished E path)))
      | Inr content \<Rightarrow> (NO_ERROR, disk(path \<mapsto> content)))"

text \<open>The pieces that a loop of calls of \<open>ReadFile\<close> gets, each of which asks for as many octets as its vector holds.\<close>

function readPieces :: "opened \<Rightarrow> nat \<Rightarrow> reads" where
  "readPieces I pos =
     (case readFile I pos PGP_FILE_CHUNK_SIZE of None \<Rightarrow> [None]
      | Some chunk \<Rightarrow> if chunk = [] then [] else Some chunk # readPieces I (pos + length chunk))"
  by pat_completeness auto

termination
  by (relation "measure (\<lambda>(I, pos). length (opContent I) - pos)") (auto simp: readFile_def)

declare readPieces.simps [simp del]

text \<open>The same loop with a vector that has room for \<open>room\<close> octets.\<close>

definition readPiecesInto :: "nat \<Rightarrow> opened \<Rightarrow> reads option" where
  "readPiecesInto room I = (if PGP_FILE_CHUNK_SIZE > room then None else Some (readPieces I 0))"

lemma readPiecesInto_chunk [simp]: "readPiecesInto PGP_FILE_CHUNK_SIZE I = Some (readPieces I 0)"
  by (simp add: readPiecesInto_def)

section \<open>Encrypting\<close>

definition EncryptFile ::
  "crypto \<Rightarrow> message_draws \<Rightarrow> file_system \<Rightarrow> engine \<Rightarrow> string option \<Rightarrow> string option \<Rightarrow> disk \<Rightarrow> status \<times> disk" where
  "EncryptFile L M E S inputFilePath outputFilePath disk =
     (if \<not> peerKeyImported S \<or> inputFilePath = None \<or> outputFilePath = None then (INVALID_ARGUMENT, disk)
      else case (convertUtf8PathToWide E inputFilePath, convertUtf8PathToWide E outputFilePath) of
        (Some input, Some target) \<Rightarrow>
          (case openFile E disk input of None \<Rightarrow> (FILE_IO_ERROR, disk)
           | Some I \<Rightarrow>
               if \<not> opSizes I then (FILE_IO_ERROR, disk)
               else case createFile E {input} target disk of None \<Rightarrow> (FILE_IO_ERROR, disk)
               | Some disk \<Rightarrow>
                   closeWritten E {input} target
                     (encryptFileStreaming L M (fsWritable E target) (fsProgress E) (recipientsOf S)
                        (cipherOctet (symmetricCipherPreference S)) (length (opContent I)) (readPieces I 0)) disk)
      | _ \<Rightarrow> (INVALID_ARGUMENT, disk))"

text \<open>\<open>Z\<close> gives the compressors of the library for ZIP (1) and ZLIB (2). The first pass leaves the temporary file and its
  size; a temporary file that cannot be opened for the second pass is one whose first read fails.\<close>

definition compressPass ::
  "file_system \<Rightarrow> compressor \<Rightarrow> opened \<Rightarrow> string set \<Rightarrow> string \<Rightarrow> disk \<Rightarrow> nat io \<times> disk" where
  "compressPass E Z I held temp disk =
     (case createFile E held temp disk of None \<Rightarrow> (Inl FILE_IO_ERROR, disk)
      | Some disk \<Rightarrow>
          (case compressLiteralToTempFile (fsWritable E temp) (fsProgress E) Z (length (opContent I)) (readPieces I 0) of
             Inl st \<Rightarrow> (Inl st, disk(temp \<mapsto> fsUnfinished E temp))
           | Inr packed \<Rightarrow>
               let disk = disk(temp \<mapsto> packed)
               in case openFile E disk temp of None \<Rightarrow> (Inl FILE_IO_ERROR, disk)
                  | Some T \<Rightarrow> if \<not> opSizes T then (Inl FILE_IO_ERROR, disk) else (Inr (length packed), disk)))"

definition EncryptFileCompressed ::
  "crypto \<Rightarrow> message_draws \<Rightarrow> (byte \<Rightarrow> compressor) \<Rightarrow> file_system \<Rightarrow> engine \<Rightarrow> string option \<Rightarrow> string option \<Rightarrow> byte
   \<Rightarrow> disk \<Rightarrow> status \<times> disk" where
  "EncryptFileCompressed L M Z E S inputFilePath outputFilePath compressionAlgorithm disk =
     (if \<not> peerKeyImported S \<or> inputFilePath = None \<or> outputFilePath = None then (INVALID_ARGUMENT, disk)
      else if compressionAlgorithm \<noteq> 1 \<and> compressionAlgorithm \<noteq> 2 then (INVALID_ARGUMENT, disk)
      else case (convertUtf8PathToWide E inputFilePath, convertUtf8PathToWide E outputFilePath) of
        (Some input, Some target) \<Rightarrow>
          let temp = target @ ''.pgpztmp''
          in (case openFile E disk input of None \<Rightarrow> (FILE_IO_ERROR, disk)
           | Some I \<Rightarrow>
               if \<not> opSizes I then (FILE_IO_ERROR, disk)
               else case compressPass E (Z compressionAlgorithm) I {input} temp disk of
                 (Inl st, disk) \<Rightarrow> (st, deleteFile E {input} temp disk)
               | (Inr compressedSize, disk) \<Rightarrow>
                   (case createFile E {input} target disk of None \<Rightarrow> (FILE_IO_ERROR, deleteFile E {input} temp disk)
                    | Some disk \<Rightarrow>
                        let rs = (case openFile E disk temp of None \<Rightarrow> [None] | Some T \<Rightarrow> readPieces T 0);
                            result = encryptFileStreamingCompressed L M (fsWritable E target) (fsProgress E) (recipientsOf S)
                              (cipherOctet (symmetricCipherPreference S)) compressedSize compressionAlgorithm rs
                        in closeWritten E {input} target result (deleteFile E {input} temp disk)))
      | _ \<Rightarrow> (INVALID_ARGUMENT, disk))"

section \<open>Decrypting\<close>

definition DecryptFile ::
  "crypto \<Rightarrow> (byte \<Rightarrow> decoder) \<Rightarrow> file_system \<Rightarrow> engine \<Rightarrow> bytes option \<Rightarrow> string option \<Rightarrow> string option \<Rightarrow> disk
   \<Rightarrow> (status \<times> disk) option" where
  "DecryptFile L Z E S password inputFilePath outputFilePath disk =
     (if \<not> mayUseIdentity S password \<or> inputFilePath = None \<or> outputFilePath = None then Some (INVALID_ARGUMENT, disk)
      else if \<not> passwordMatches L S password then Some (INVALID_ARGUMENT, disk)
      else case (convertUtf8PathToWide E inputFilePath, convertUtf8PathToWide E outputFilePath) of
        (Some input, Some target) \<Rightarrow>
          let temp = target @ ''.pgptmp''
          in (case openFile E disk input of None \<Rightarrow> Some (FILE_IO_ERROR, disk)
           | Some I \<Rightarrow>
               on_read (parseEncryptedFileHeader L (firstKey S) I) (INVALID_DATA, disk) (\<lambda>header.
                 case createFile E {input} temp disk of None \<Rightarrow> Some (FILE_IO_ERROR, disk)
                 | Some disk \<Rightarrow> do {
                     result \<leftarrow> decryptSeipBodyStreaming L I Z (fsWritable E temp) (fsProgress E) header;
                     Some (case closeWritten E {input} temp result disk of (st, disk) \<Rightarrow>
                       if st \<noteq> NO_ERROR then (st, disk)
                       else
                         let disk = deleteFile E {input} target disk
                         in case moveFile E {input} temp target disk of
                              None \<Rightarrow> (FILE_IO_ERROR, deleteFile E {input} temp disk)
                            | Some disk \<Rightarrow> (NO_ERROR, disk)) }))
      | _ \<Rightarrow> Some (INVALID_ARGUMENT, disk))"

section \<open>Signing and verifying\<close>

definition SignFile ::
  "crypto \<Rightarrow> 32 word \<Rightarrow> file_system \<Rightarrow> engine \<Rightarrow> bytes option \<Rightarrow> string option \<Rightarrow> string option \<Rightarrow> disk \<Rightarrow> status \<times> disk" where
  "SignFile L now E S password inputFilePath signatureFilePath disk =
     (if \<not> mayUseIdentity S password \<or> inputFilePath = None \<or> signatureFilePath = None then (INVALID_ARGUMENT, disk)
      else if \<not> passwordMatches L S password then (INVALID_ARGUMENT, disk)
      else case (convertUtf8PathToWide E inputFilePath, convertUtf8PathToWide E signatureFilePath) of
        (Some input, Some target) \<Rightarrow>
          (case openFile E disk input of None \<Rightarrow> (FILE_IO_ERROR, disk)
           | Some I \<Rightarrow>
               if \<not> opSizes I then (FILE_IO_ERROR, disk)
               else case (if keyAlgorithm S = PGP_KEY_ALGORITHM_RSA
                   then signFileStreaming L now (fsProgress E) (ownMasterPrivateKey S) (ownMasterKeyId S) (readPieces I 0)
                   else signEd25519FileStreaming L now (fsProgress E) (ownEd25519PrivateKey S) (ownMasterKeyId S) (readPieces I 0)) of
                 Inl st \<Rightarrow> (st, disk)
               | Inr signaturePacket \<Rightarrow>
                   (case createFile E {input} target disk of None \<Rightarrow> (FILE_IO_ERROR, disk)
                    | Some disk \<Rightarrow> closeWritten E {input} target
                        (case writeFileExact (fsWritable E target) [] signaturePacket of None \<Rightarrow> Inl FILE_IO_ERROR | Some out \<Rightarrow> Inr out)
                        disk))
      | _ \<Rightarrow> (INVALID_ARGUMENT, disk))"

text \<open>The signature is read into a vector of the size of its file.\<close>

definition readSignatureFile :: "opened \<Rightarrow> bytes cpp" where
  "readSignatureFile I =
     (let sigSize = length (opContent I)
      in if \<not> opSizes I \<or> sigSize > 65536 then no else readExactInto sigSize I 0 sigSize)"

text \<open>The verdict is \<open>None\<close> when the flag of the caller is not set.\<close>

definition VerifyFile ::
  "crypto \<Rightarrow> file_system \<Rightarrow> engine \<Rightarrow> string option \<Rightarrow> string option \<Rightarrow> bool \<Rightarrow> disk \<Rightarrow> (status \<times> bool option) option" where
  "VerifyFile L E S inputFilePath signatureFilePath flagGiven disk =
     (if \<not> peerKeyImported S \<or> inputFilePath = None \<or> signatureFilePath = None \<or> \<not> flagGiven then Some (INVALID_ARGUMENT, None)
      else case (convertUtf8PathToWide E inputFilePath, convertUtf8PathToWide E signatureFilePath) of
        (Some input, Some signature) \<Rightarrow>
          on_read (case openFile E disk signature of None \<Rightarrow> no | Some I \<Rightarrow> readSignatureFile I) (FILE_IO_ERROR, None)
            (\<lambda>signaturePacketBytes.
               (case openFile E disk input of None \<Rightarrow> Some (FILE_IO_ERROR, None)
                | Some I \<Rightarrow>
                    if \<not> opSizes I then Some (FILE_IO_ERROR, None)
                    else do {
                      rs \<leftarrow> readPiecesInto PGP_FILE_CHUNK_SIZE I;
                      map_option (\<lambda>result. case result of Inl st \<Rightarrow> (st, None) | Inr isValid \<Rightarrow> (NO_ERROR, Some isValid))
                        (if peerMasterAlgorithm S = PGP_KEY_ALGORITHM_RSA
                         then verifyFileStreaming L (fsProgress E) (peerMasterPublicKey S) rs signaturePacketBytes
                         else verifyEd25519FileStreaming L (fsProgress E) (peerEd25519PublicKey S) rs signaturePacketBytes) }))
      | _ \<Rightarrow> Some (INVALID_ARGUMENT, None))"

end
