(* ===== verification/FileFacts.thy ===== *)
theory FileFacts
  imports FileMethods
begin

unbundle bit_operations_syntax

text \<open>
  What \<open>decryptSeipBodyStreaming\<close> makes of the containers that the engine writes. The reader is abstracted to a
  position in the plaintext: \<open>tracks\<close> relates its variables to it, and every operation of the reader
  moves the position. How the octets of the container lie in the file, in one piece or in chunks, is hidden behind
  \<open>feeds\<close>.
\<close>

section \<open>The octets of the container\<close>

text \<open>No read fails, and none delivers nothing before the end of the file.\<close>

definition reads_ok :: "opened \<Rightarrow> bool" where
  "reads_ok I \<longleftrightarrow> (\<forall>pos n. \<exists>k > 0. opReads I pos n = Some k)"

lemma readFile_some:
  assumes "reads_ok I" "0 < n" "drop pos (opContent I) = a @ b" "a \<noteq> []" "n \<le> length a"
  obtains k where "0 < k" "k \<le> n" "readFile I pos n = Some (take k a)"
proof -
  obtain k where "opReads I pos n = Some k" "0 < k" using assms(1) by (auto simp: reads_ok_def)
  then show ?thesis using assms that [of "min n k"] by (simp add: readFile_def)
qed

text \<open>The ciphertext that is still to be read, when the container is one piece and when it is in chunks.\<close>

definition feedsChunks :: "opened \<Rightarrow> seip_reader \<Rightarrow> bytes \<Rightarrow> bool" where
  "feedsChunks I s cipher \<longleftrightarrow>
     (if srFinalChunk s then \<exists>post. drop (srPos s) (opContent I) = cipher @ post \<and> length cipher = srChunkRemaining s
      else \<exists>now chunks final post. drop (srPos s) (opContent I) = now @ partialFrame chunks final @ post
        \<and> length now = srChunkRemaining s \<and> wf_chunks chunks \<and> length final < 4294967296
        \<and> cipher = now @ concat (map snd chunks) @ final)"

definition feeds :: "seip_source \<Rightarrow> seip_reader \<Rightarrow> bytes \<Rightarrow> bool" where
  "feeds D s cipher \<longleftrightarrow> srCipherRemaining s = length cipher \<and>
     (if ssPartial D then feedsChunks (ssFile D) s cipher
      else \<exists>post. drop (srPos s) (opContent (ssFile D)) = cipher @ post)"

text \<open>The part of the state that reading does not touch.\<close>

definition consumed :: "seip_reader \<Rightarrow> nat \<times> bytes \<times> bool \<times> nat \<times> bool" where
  "consumed s = (srStreamPos s, srHashed s, innerState s)"

lemma readFileExact_some:
  "reads_ok I \<Longrightarrow> drop pos (opContent I) = a @ b \<Longrightarrow> readFileExact I pos (length a) = Some a"
proof (induction "length a" arbitrary: pos a rule: less_induct)
  case less
  show ?case
  proof (cases "a = []")
    case False
    then obtain k where k: "0 < k" "k \<le> length a" "readFile I pos (length a) = Some (take k a)"
      using readFile_some [OF less.prems(1) _ less.prems(2), of "length a"] by auto
    have "drop (pos + k) (opContent I) = drop k a @ b"
      using arg_cong [OF less.prems(2), of "drop k"] k(2) by (simp add: add.commute)
    from less.hyps [OF _ less.prems(1) this] have "readFileExact I (pos + k) (length a - k) = Some (drop k a)"
      using k False by simp
    moreover have "take k a \<noteq> []" using k False by simp
    ultimately show ?thesis using k False by (subst readFileExact.simps) (simp add: min_absorb2)
  qed (simp add: readFileExact.simps)
qed

lemma cipherChunkHeader_at:
  assumes "reads_ok I" "drop pos (opContent I) = header @ post" "header \<noteq> []"
    and "newFormatBodyLengthHeaderSize (header ! 0) = length header"
    and "decodeNewFormatBodyLength (Some (header @ zeros (5 - length header))) (length header) = yes (length header, n, part)"
  shows "cipherChunkHeader I pos = yes (length header, n, part)"
proof -
  obtain octet rest where h: "header = octet # rest" using assms(3) by (cases header) auto
  have "readFileExact I pos 1 = Some [octet]"
    using readFileExact_some [of I pos "[octet]" "rest @ post"] assms(1,2) by (simp add: h)
  moreover have "drop (pos + 1) (opContent I) = rest @ post"
    using arg_cong [OF assms(2), of "drop 1"] by (simp add: h add.commute)
  then have "readFileExact I (pos + 1) (length rest) = Some rest" by (rule readFileExact_some [OF assms(1)])
  moreover have "length rest \<le> 4" using header_size_le [of octet] assms(4) by (simp add: h)
  ultimately show ?thesis using assms(4,5) by (cases rest) (simp_all add: cipherChunkHeader_def h Let_def)
qed

lemma newFormatLength_size:
  "n < 4294967296 \<Longrightarrow> newFormatBodyLengthHeaderSize (appendNewFormatLength [] n ! 0) = newFormatLengthOctets n"
  using decodeNewFormatBodyLength_size [OF decode_newFormatLength [of n "[]" 0]] by simp

lemma feedsChunks_cases [consumes 1, case_names ended more]:
  assumes "feedsChunks I s cipher"
  obtains (ended) post where "srFinalChunk s" "drop (srPos s) (opContent I) = cipher @ post" "length cipher = srChunkRemaining s"
    | (more) now chunks final post where "\<not> srFinalChunk s" "length now = srChunkRemaining s"
      "drop (srPos s) (opContent I) = now @ partialFrame chunks final @ post" "wf_chunks chunks" "length final < 4294967296"
      "cipher = now @ concat (map snd chunks) @ final"
  using assms unfolding feedsChunks_def by (auto split: if_splits)

lemma feedsChunks_end:
  "srFinalChunk s \<Longrightarrow> drop (srPos s) (opContent I) = cipher @ post \<Longrightarrow> length cipher = srChunkRemaining s \<Longrightarrow> feedsChunks I s cipher"
  by (auto simp: feedsChunks_def)

lemma feedsChunks_more:
  "\<not> srFinalChunk s \<Longrightarrow> length now = srChunkRemaining s \<Longrightarrow>
    drop (srPos s) (opContent I) = now @ partialFrame chunks final @ post \<Longrightarrow> wf_chunks chunks \<Longrightarrow> length final < 4294967296 \<Longrightarrow>
    feedsChunks I s (now @ concat (map snd chunks) @ final)"
  unfolding feedsChunks_def by auto

text \<open>Stepping over chunk headers leads to a chunk that is not empty.\<close>

definition atChunk :: "seip_reader \<Rightarrow> nat \<Rightarrow> nat \<Rightarrow> bool \<Rightarrow> seip_reader" where
  "atChunk s k n part = s\<lparr>srPos := srPos s + k, srChunkRemaining := n, srFinalChunk := \<not> part\<rparr>"

lemma nextCipherChunk_header:
  assumes "srChunkRemaining s = 0" "\<not> srFinalChunk s" "reads_ok I" "drop (srPos s) (opContent I) = header @ post" "header \<noteq> []"
    and "newFormatBodyLengthHeaderSize (header ! 0) = length header" "0 < n"
    and "decodeNewFormatBodyLength (Some (header @ zeros (5 - length header))) (length header) = yes (length header, n, part)"
  shows "nextCipherChunk I s = yes (atChunk s (length header) n part)"
  using cipherChunkHeader_at [OF assms(3-6,8)] assms(1,2,7) by (simp add: nextCipherChunk_once atChunk_def)

lemma nextCipherChunk_feeds:
  assumes "reads_ok I" "feedsChunks I s cipher" "cipher \<noteq> []"
  shows "\<exists>k n part. nextCipherChunk I s = yes (if srChunkRemaining s = 0 then atChunk s k n part else s)
    \<and> (srChunkRemaining s = 0 \<longrightarrow> 0 < n \<and> feedsChunks I (atChunk s k n part) cipher)"
proof (cases "srChunkRemaining s = 0")
  case True
  from assms(2) show ?thesis
  proof (cases rule: feedsChunks_cases)
    case (more now chunks final post)
    have now: "now = []" using more(2) True by simp
    show ?thesis
    proof (cases chunks)
      case Nil
      let ?h = "appendNewFormatLength [] (length final)"
      have at: "drop (srPos s) (opContent I) = ?h @ final @ post" "final \<noteq> []" using more now Nil assms(3) by auto
      have h: "length ?h = newFormatLengthOctets (length final)" "0 < newFormatLengthOctets (length final)"
        using length_newFormatLength [of "length final"] by (simp_all add: newFormatLengthOctets_def)
      then have nonempty: "?h \<noteq> []" by (metis length_greater_0_conv)
      have "nextCipherChunk I s = yes (atChunk s (length ?h) (length final) False)"
        by (rule nextCipherChunk_header [OF True more(1) assms(1) at(1) nonempty])
          (use at(2) more(5) decode_newFormatLength [of "length final" _ 0] in \<open>simp_all add: newFormatLength_size h(1)\<close>)
      moreover have "drop (srPos s + length ?h) (opContent I) = final @ post"
        using arg_cong [OF at(1), of "drop (length ?h)"] by (simp add: add.commute)
      then have "feedsChunks I (atChunk s (length ?h) (length final) False) cipher"
        using more(6) now Nil by (intro feedsChunks_end) (auto simp: atChunk_def)
      ultimately show ?thesis using True at(2) by auto
    next
      case (Cons kc cs)
      obtain k c where kc: "kc = (k, c)" by (cases kc)
      let ?h = "[word_of_nat (224 + k) :: byte]"
      have k: "k < 31" "length c = 2 ^ k" "wf_chunks cs" using more(4) Cons kc by auto
      have at: "drop (srPos s) (opContent I) = ?h @ c @ partialFrame cs final @ post" using more now Cons kc by simp
      have size: "newFormatBodyLengthHeaderSize (?h ! 0) = length ?h"
        using decodeNewFormatBodyLength_size [OF decode_partial_octet [OF k(1), of 1 "[]"]] by simp
      have "nextCipherChunk I s = yes (atChunk s (length ?h) (2 ^ k) True)"
        by (rule nextCipherChunk_header [OF True more(1) assms(1) at _ size])
          (use decode_partial_octet [OF k(1), of 1] in simp_all)
      moreover have "drop (srPos s + 1) (opContent I) = c @ partialFrame cs final @ post"
        using arg_cong [OF at, of "drop 1"] by (simp add: add.commute)
      then have "feedsChunks I (atChunk s (length ?h) (2 ^ k) True) (c @ concat (map snd cs) @ final)"
        using k more(5) by (intro feedsChunks_more) (auto simp: atChunk_def)
      ultimately show ?thesis using True more(6) now Cons kc
        by (intro exI [of _ "length ?h"] exI [of _ "2 ^ k"] exI [of _ True]) simp
    qed
  qed (use True assms(3) in auto)
qed (simp add: nextCipherChunk_once)

text \<open>What is ready to be read without stepping over a header: \<open>now\<close>; the rest of the container follows.\<close>

definition readyAt :: "seip_source \<Rightarrow> seip_reader \<Rightarrow> bytes \<Rightarrow> bytes \<Rightarrow> bool" where
  "readyAt D s now later \<longleftrightarrow> now \<noteq> [] \<and> srCipherRemaining s = length (now @ later) \<and> readCeiling D s = length now
     \<and> (\<exists>more. drop (srPos s) (opContent (ssFile D)) = now @ more)
     \<and> (\<forall>k s'. srPos s' = srPos s + k \<longrightarrow> k \<le> length now \<longrightarrow> srFinalChunk s' = srFinalChunk s \<longrightarrow>
          srChunkRemaining s' = (if ssPartial D then srChunkRemaining s - k else srChunkRemaining s) \<longrightarrow>
          srCipherRemaining s' = srCipherRemaining s - k \<longrightarrow> feeds D s' (drop k now @ later))"

lemma drop_more: "drop p xs = a @ b \<Longrightarrow> k \<le> length a \<Longrightarrow> drop (p + k) xs = drop k a @ b"
  by (metis add.commute append_eq_conv_conj drop_append drop_drop drop0 diff_is_0_eq)

lemma readyAt_whole:
  assumes "\<not> ssPartial D" "feeds D s cipher" "cipher \<noteq> []"
  shows "readyAt D s cipher []"
  using assms by (auto simp: readyAt_def feeds_def readCeiling_def drop_more)

lemma readyAt_chunk:
  assumes "ssPartial D" "feeds D s cipher" "srChunkRemaining s \<noteq> 0"
  shows "\<exists>now later. cipher = now @ later \<and> readyAt D s now later"
proof -
  have rem: "srCipherRemaining s = length cipher" using assms(2) by (simp add: feeds_def)
  have "feedsChunks (ssFile D) s cipher" using assms(1,2) by (simp add: feeds_def)
  then show ?thesis
  proof (cases rule: feedsChunks_cases)
    case (ended post)
    have "readyAt D s cipher []"
      unfolding readyAt_def using ended assms(1,3) rem
      by (auto simp: readCeiling_def feeds_def drop_more intro!: feedsChunks_end)
    then show ?thesis by auto
  next
    case (more now chunks final post)
    have "readyAt D s now (concat (map snd chunks) @ final)"
      unfolding readyAt_def using more assms(1,3) rem
      by (auto simp: readCeiling_def feeds_def drop_more intro!: feedsChunks_more)
    then show ?thesis using more(6) by auto
  qed
qed

lemma fillPending_ready:
  assumes "reads_ok (ssFile D)" "readyAt D t now later" "(if ssPartial D then nextCipherChunk (ssFile D) s else yes s) = yes t"
    and same: "srPending t = srPending s" "srCipher t = srCipher s" "consumed t = consumed s"
  shows "\<exists>s' bs rest. fillPending D s = yes s' \<and> bs \<noteq> [] \<and> now @ later = bs @ rest \<and> feeds D s' rest
    \<and> srPending s' = srPending s @ decryptNext (ssLib D) (ssKey D) (srCipher s) bs \<and> srCipher s' = srCipher s @ bs
    \<and> consumed s' = consumed s"
proof -
  let ?n = "min (readCeiling D t) 1048576"
  obtain more where more: "drop (srPos t) (opContent (ssFile D)) = now @ more" using assms(2) by (auto simp: readyAt_def)
  have n: "0 < ?n" "?n \<le> length now" "now \<noteq> []" using assms(2) by (auto simp: readyAt_def)
  obtain k where k: "0 < k" "k \<le> ?n" "readFile (ssFile D) (srPos t) ?n = Some (take k now)"
    using readFile_some [OF assms(1) n(1) more n(3,2)] by blast
  let ?bs = "take k now"
  let ?s = "t\<lparr>srPos := srPos t + length ?bs, srCipherRemaining := srCipherRemaining t - length ?bs,
    srChunkRemaining := (if ssPartial D then srChunkRemaining t - length ?bs else srChunkRemaining t),
    srPending := srPending t @ decryptNext (ssLib D) (ssKey D) (srCipher t) ?bs, srCipher := srCipher t @ ?bs\<rparr>"
  have bs: "?bs \<noteq> []" "length ?bs = k" using k n by auto
  have "feeds D ?s (drop k now @ later)"
    using assms(2) k(2) n(2) bs(2) unfolding readyAt_def by simp
  moreover have "fillPending D s = yes ?s" using assms(3) k(3) bs(1) by (simp add: fillPending_def)
  moreover have "now @ later = ?bs @ drop k now @ later" by (simp flip: append.assoc)
  ultimately show ?thesis using bs(1) same
    by (intro exI [of _ ?s] exI [of _ ?bs] exI [of _ "drop k now @ later"]) (simp add: consumed_def innerState_def)
qed

lemma fillPending_feeds:
  assumes "reads_ok (ssFile D)" "feeds D s cipher" "cipher \<noteq> []"
  obtains s' bs rest where "fillPending D s = yes s'" "bs \<noteq> []" "cipher = bs @ rest" "feeds D s' rest"
    "srPending s' = srPending s @ decryptNext (ssLib D) (ssKey D) (srCipher s) bs" "srCipher s' = srCipher s @ bs"
    "consumed s' = consumed s"
proof (cases "ssPartial D")
  case True
  then have chunks: "feedsChunks (ssFile D) s cipher" using assms(2) by (simp add: feeds_def)
  obtain k n part where at: "nextCipherChunk (ssFile D) s = yes (if srChunkRemaining s = 0 then atChunk s k n part else s)"
    "srChunkRemaining s = 0 \<longrightarrow> 0 < n \<and> feedsChunks (ssFile D) (atChunk s k n part) cipher"
    using nextCipherChunk_feeds [OF assms(1) chunks assms(3)] by (elim exE conjE)
  define t where "t = (if srChunkRemaining s = 0 then atChunk s k n part else s)"
  have t: "srPending t = srPending s" "srCipher t = srCipher s" "consumed t = consumed s" "srChunkRemaining t \<noteq> 0" "feeds D t cipher"
    using at(2) assms(2) True by (auto simp: t_def atChunk_def consumed_def innerState_def feeds_def)
  obtain now later where ready: "cipher = now @ later" "readyAt D t now later" using readyAt_chunk [OF True t(5,4)] by blast
  show ?thesis
    using fillPending_ready [OF assms(1) ready(2) _ t(1-3)] at(1) True ready(1) that by (auto simp flip: t_def)
next
  case False
  show ?thesis
    using fillPending_ready [OF assms(1) readyAt_whole [OF False assms(2,3)], of s] False that by auto
qed

section \<open>The position in the plaintext\<close>

text \<open>The container whose ciphertext is \<open>C\<close> and whose plaintext is \<open>P\<close>, and the state of its reader: what has been
  decrypted is a prefix of \<open>P\<close>, what is waiting starts at the position, and what has been consumed has been hashed.\<close>

definition container :: "seip_source \<Rightarrow> bytes \<Rightarrow> bytes \<Rightarrow> bool" where
  "container D C P \<longleftrightarrow> reads_ok (ssFile D) \<and> length C = length P \<and> length P = ssLength D
     \<and> (\<forall>c. cfbDecrypt (ssLib D) (ssKey D) (zeros 16) (take c C) = take c P)"

definition tracks :: "seip_source \<Rightarrow> bytes \<Rightarrow> bytes \<Rightarrow> seip_reader \<Rightarrow> bool" where
  "tracks D C P s \<longleftrightarrow> (\<exists>c. srStreamPos s \<le> c \<and> c \<le> length P \<and> srCipher s = take c C \<and> feeds D s (drop c C)
     \<and> srPending s = take (c - srStreamPos s) (drop (srStreamPos s) P)
     \<and> srHashed s = take (min (srStreamPos s) (ssLength D - 20)) P)"

lemma decryptNext_container:
  assumes "container D C P" "drop c C = bs @ rest" "c \<le> length P"
  shows "decryptNext (ssLib D) (ssKey D) (take c C) bs = take (length bs) (drop c P)" "take c C @ bs = take (c + length bs) C"
    "c + length bs \<le> length P" "rest = drop (c + length bs) C"
proof -
  show next_: "take c C @ bs = take (c + length bs) C"
    using assms(2) by (metis append_eq_conv_conj take_add)
  have "length (drop c C) = length (bs @ rest)" by (simp only: assms(2))
  then show "c + length bs \<le> length P" using assms(1,3) by (simp add: container_def)
  show "rest = drop (c + length bs) C" using assms(2) by (metis add.commute append_eq_conv_conj drop_drop)
  have "cfbDecrypt (ssLib D) (ssKey D) (zeros 16) (take c C @ bs) = take (c + length bs) P"
    unfolding next_ using assms(1) by (simp add: container_def)
  moreover have "length (take c C) = c" using assms(1,3) by (simp add: container_def)
  moreover have "drop c (take (c + length bs) P) = take (length bs) (drop c P)" by (simp add: drop_take)
  ultimately show "decryptNext (ssLib D) (ssKey D) (take c C) bs = take (length bs) (drop c P)"
    by (simp only: decryptNext_def) simp
qed

text \<open>As long as the plaintext lasts, any number of octets can be made to wait.\<close>

lemma ensurePending_tracks:
  assumes "container D C P"
  shows "tracks D C P s \<Longrightarrow> srStreamPos s + n \<le> length P \<Longrightarrow>
    \<exists>s'. ensurePending D n s = yes s' \<and> tracks D C P s' \<and> n \<le> length (srPending s') \<and> consumed s' = consumed s"
proof (induction "srCipherRemaining s" arbitrary: s rule: less_induct)
  case less
  obtain c where c: "srStreamPos s \<le> c" "c \<le> length P" "srCipher s = take c C" "feeds D s (drop c C)"
    "srPending s = take (c - srStreamPos s) (drop (srStreamPos s) P)"
    "srHashed s = take (min (srStreamPos s) (ssLength D - 20)) P"
    using less.prems(1) by (auto simp: tracks_def)
  have len: "length C = length P" "reads_ok (ssFile D)" using assms by (simp_all add: container_def)
  show ?case
  proof (cases "n \<le> length (srPending s)")
    case False
    then have "c < length P" using less.prems(2) c by auto
    then have more: "drop c C \<noteq> []" using len by simp
    obtain s' bs rest where s': "fillPending D s = yes s'" "bs \<noteq> []" "drop c C = bs @ rest" "feeds D s' rest"
      "srPending s' = srPending s @ decryptNext (ssLib D) (ssKey D) (srCipher s) bs" "srCipher s' = srCipher s @ bs"
      "consumed s' = consumed s"
      by (rule fillPending_feeds [OF len(2) c(4) more])
    note next_ = decryptNext_container [OF assms s'(3) c(2)]
    have pos: "srStreamPos s' = srStreamPos s" "srHashed s' = srHashed s" using s'(7) by (simp_all add: consumed_def)
    have "c - srStreamPos s + length bs = c + length bs - srStreamPos s"
      "drop (c - srStreamPos s) (drop (srStreamPos s) P) = drop c P" using c(1) by simp_all
    then have "srPending s' = take (c + length bs - srStreamPos s) (drop (srStreamPos s) P)"
      unfolding s'(5) c(3,5) next_(1) by (metis take_add)
    then have "tracks D C P s'"
      unfolding tracks_def using c next_ s'(4,6) pos by (intro exI [of _ "c + length bs"]) simp
    moreover have "srCipherRemaining s' < srCipherRemaining s"
      using c(4) s'(2-4) by (auto simp: feeds_def)
    ultimately obtain t where "ensurePending D n s' = yes t" "tracks D C P t" "n \<le> length (srPending t)" "consumed t = consumed s'"
      using less.hyps [of s'] less.prems(2) pos(1) by auto
    moreover have "srCipherRemaining s \<noteq> 0" using c(4) more by (auto simp: feeds_def)
    ultimately show ?thesis using s'(1,7) False by (subst ensurePending.simps) auto
  qed (use less.prems in \<open>auto simp: ensurePending.simps\<close>)
qed

lemma tracksE:
  assumes "tracks D C P s"
  obtains c where "srStreamPos s \<le> c" "c \<le> length P" "srCipher s = take c C" "feeds D s (drop c C)"
    "srPending s = take (c - srStreamPos s) (drop (srStreamPos s) P)" "length (srPending s) = c - srStreamPos s"
    "srHashed s = take (min (srStreamPos s) (ssLength D - 20)) P"
  using assms by (auto simp: tracks_def)

lemma tracks_pending:
  assumes "tracks D C P s" "n \<le> length (srPending s)"
  shows "take n (srPending s) = take n (drop (srStreamPos s) P)" "srStreamPos s + n \<le> length P"
  using assms by (auto elim!: tracksE simp: min_absorb1 min_absorb2)

lemma tracks_byte:
  "tracks D C P s \<Longrightarrow> i < length (srPending s) \<Longrightarrow> srPending s ! i = P ! (srStreamPos s + i)"
  by (elim tracksE) simp

lemma feeds_same:
  "srPos s' = srPos s \<Longrightarrow> srChunkRemaining s' = srChunkRemaining s \<Longrightarrow> srFinalChunk s' = srFinalChunk s \<Longrightarrow>
    srCipherRemaining s' = srCipherRemaining s \<Longrightarrow> feeds D s' C = feeds D s C"
  by (simp add: feeds_def feedsChunks_def)

lemma hashed_further:
  "take (min pos m) P @ (if pos < m then take ((if pos + n < m then pos + n else m) - pos) (take k (drop pos P)) else [])
    = take (min (pos + n) m) P" if "n \<le> k"
proof (cases "pos < m")
  case True
  define j where "j = (if pos + n < m then pos + n else m) - pos"
  have j: "pos + j = min (pos + n) m" "j \<le> k" using True that by (auto simp: j_def)
  have "take pos P @ take j (drop pos P) = take (min (pos + n) m) P" unfolding j(1) [symmetric] by (rule take_add [symmetric])
  then show ?thesis using True j(2) by (simp add: j_def [symmetric] min_absorb1 min_absorb2)
qed simp

lemma consumeForHash_tracks:
  assumes "tracks D C P s" "n \<le> length (srPending s)"
  obtains s' where "consumeForHash D n s = Some s'" "tracks D C P s'" "srStreamPos s' = srStreamPos s + n"
    "innerState s' = innerState s"
proof -
  obtain c where c: "srStreamPos s \<le> c" "c \<le> length P" "srCipher s = take c C" "feeds D s (drop c C)"
    "srPending s = take (c - srStreamPos s) (drop (srStreamPos s) P)" "length (srPending s) = c - srStreamPos s"
    "srHashed s = take (min (srStreamPos s) (ssLength D - 20)) P"
    using assms(1) by (rule tracksE)
  have "n \<le> c - srStreamPos s" using assms(2) c(6) by simp
  note hashed = hashed_further [OF this, of "srStreamPos s" "ssLength D - 20" P, folded c(5)]
  let ?s = "s\<lparr>srHashed := take (min (srStreamPos s + n) (ssLength D - 20)) P, srStreamPos := srStreamPos s + n,
    srPending := drop n (srPending s)\<rparr>"
  have "drop n (srPending s) = take (c - (srStreamPos s + n)) (drop (srStreamPos s + n) P)"
    unfolding c(5) by (simp add: drop_take add.commute)
  then have "tracks D C P ?s"
    unfolding tracks_def using assms(2) c(1-4,6) feeds_same [of ?s s D] by (intro exI [of _ c]) simp
  moreover have "consumeForHash D n s = Some ?s"
    using assms(2) hashed by (simp add: consumeForHash_def Let_def c(7))
  ultimately show ?thesis by (intro that [of ?s]) (simp_all add: innerState_def)
qed

lemma skipOctets_tracks:
  assumes "container D C P" "tracks D C P s" "srStreamPos s + n \<le> length P"
  obtains s' where "skipOctets D n s = yes s'" "tracks D C P s'" "srStreamPos s' = srStreamPos s + n" "innerState s' = innerState s"
proof -
  obtain t where t: "ensurePending D n s = yes t" "tracks D C P t" "n \<le> length (srPending t)" "consumed t = consumed s"
    using ensurePending_tracks [OF assms] by blast
  obtain s' where "consumeForHash D n t = Some s'" "tracks D C P s'" "srStreamPos s' = srStreamPos t + n" "innerState s' = innerState t"
    by (rule consumeForHash_tracks [OF t(2,3)])
  then show ?thesis using t that by (simp add: skipOctets_def consumed_def)
qed

text \<open>The loop over a body of definite length hands on the octets of the body in order, whatever the pieces.\<close>

lemma bodyLoop_tracks:
  assumes "container D C P"
    and act: "\<And>k m x. Inv k x \<Longrightarrow> 0 < m \<Longrightarrow> k + m \<le> n \<Longrightarrow> \<exists>x'. act x (take m (drop (start + k) P)) = Some (Inr x') \<and> Inv (k + m) x'"
  shows "tracks D C P s \<Longrightarrow> \<not> srInnerPartial s \<Longrightarrow> start + n \<le> length P \<Longrightarrow> srStreamPos s = start + k \<Longrightarrow> k \<le> n \<Longrightarrow> Inv k x \<Longrightarrow>
    \<exists>s' x'. bodyLoop D compressed act (n - k) s x = Some (Inr (s', x')) \<and> tracks D C P s' \<and> srStreamPos s' = start + n \<and> Inv n x'"
proof (induction "n - k" arbitrary: k s x rule: less_induct)
  case less
  show ?case
  proof (cases "k = n")
    case False
    have k: "k < n" using False less.prems(5) by simp
    have inner: "ensureInnerChunk D s = yes s" using less.prems(2) by (simp add: ensureInnerChunk_once)
    obtain t where t: "ensurePending D 1 s = yes t" "tracks D C P t" "1 \<le> length (srPending t)" "consumed t = consumed s"
      using ensurePending_tracks [OF assms(1) less.prems(1), of 1] less.prems(3,4) k by auto
    have pos: "srStreamPos t = start + k" "\<not> srInnerPartial t"
      using t(4) less.prems(2,4) by (auto simp: consumed_def innerState_def)
    define m where "m = takeNow compressed (n - k) t"
    have m: "0 < m" "m \<le> length (srPending t)" "m \<le> n - k"
      using t(3) k pos(2) by (auto simp: m_def takeNow_def Let_def)
    obtain s' where s': "consumeForHash D m t = Some s'" "tracks D C P s'" "srStreamPos s' = srStreamPos t + m"
      "innerState s' = innerState t"
      by (rule consumeForHash_tracks [OF t(2) m(2)])
    have partial: "\<not> srInnerPartial s'" using s'(4) pos(2) by (simp add: innerState_def)
    have piece: "slice (srPending t) 0 m = Some (take m (drop (start + k) P))"
      using tracks_pending(1) [OF t(2) m(2)] m(2) pos(1) by simp
    have step: "bodyStep D compressed (n - k) s = yes (s', n - (k + m), take m (drop (start + k) P))"
      using inner t(1) piece s'(1) partial by (simp add: bodyStep_def m_def [symmetric] Let_def)
    have le: "k + m \<le> n" and lt: "n - (k + m) < n - k" using m k by linarith+
    from act [OF less.prems(6) m(1) le] obtain x' where
      x': "act x (take m (drop (start + k) P)) = Some (Inr x')" "Inv (k + m) x'"
      by (elim exE conjE)
    have at: "srStreamPos s' = start + (k + m)" using s'(3) pos(1) by simp
    from less.hyps [OF lt s'(2) partial less.prems(3) at le x'(2)] obtain s'' x'' where
      "bodyLoop D compressed act (n - (k + m)) s' x' = Some (Inr (s'', x''))" "tracks D C P s''"
      "srStreamPos s'' = start + n" "Inv n x''" by (elim exE conjE)
    moreover have "\<not> bodyDone s (n - k)" using less.prems(2) k by (simp add: bodyDone_def)
    ultimately show ?thesis using step x'(1) by (subst bodyLoop.simps) simp
  qed (use less.prems in \<open>auto simp: bodyLoop.simps bodyDone_def\<close>)
qed

section \<open>The container of the engine\<close>

text \<open>A container around one packet of definite length, long enough for the reader.\<close>

definition sealedAround :: "seip_source \<Rightarrow> bytes \<Rightarrow> bytes \<Rightarrow> byte \<Rightarrow> bytes \<Rightarrow> bool" where
  "sealedAround D C P tag body \<longleftrightarrow> container D C P \<and> unat tag < 64 \<and> length body < 4294967296 \<and> 46 \<le> length P
     \<and> (\<exists>r. length r = 16 \<and> digests_ok (ssLib D) \<and> P = seipPlain (ssLib D) r (writePacket tag body))"

lemma sealedAround_parts:
  assumes "sealedAround D C P tag body"
  obtains H T where "length H = 18" "P = H @ writePacket tag body @ [0xD3, 0x14] @ T" "length T = 20"
    "T = sha1 (ssLib D) (H @ writePacket tag body @ [0xD3, 0x14])" "length P = 40 + length (writePacket tag body)"
    "ssLength D = length P"
proof -
  obtain r where r: "length r = 16" "digests_ok (ssLib D)" "P = seipPlain (ssLib D) r (writePacket tag body)"
    using assms by (auto simp: sealedAround_def)
  define H where "H = r @ [r ! 14, r ! 15]"
  have "P = H @ writePacket tag body @ [0xD3, 0x14] @ sha1 (ssLib D) (H @ writePacket tag body @ [0xD3, 0x14])"
    using r(3) by (simp add: seipPlain_def H_def)
  moreover have "ssLength D = length P" using assms by (simp add: sealedAround_def container_def)
  ultimately show ?thesis using r(1,2) by (intro that [of H]) (simp_all add: H_def digests_ok_def)
qed

lemma tracks_bytes:
  assumes "tracks D C P s" "P = a @ bs @ b" "srStreamPos s = length a" "length bs \<le> length (srPending s)"
  shows "take (length bs) (srPending s) = bs" "i < length bs \<Longrightarrow> srPending s ! i = bs ! i"
proof -
  show bs: "take (length bs) (srPending s) = bs" using tracks_pending(1) [OF assms(1,4)] assms(2,3) by simp
  show "srPending s ! i = bs ! i" if "i < length bs" using that bs assms(4) by (metis nth_take)
qed

lemma checkTrailer_tracks:
  assumes "sealedAround D C P tag body" "tracks D C P s" "srStreamPos s = 18 + length (writePacket tag body)"
  shows "checkTrailer D (s, out) = Some (Inr out)"
proof -
  obtain H T where P: "length H = 18" "P = H @ writePacket tag body @ [0xD3, 0x14] @ T" "length T = 20"
    "T = sha1 (ssLib D) (H @ writePacket tag body @ [0xD3, 0x14])" "length P = 40 + length (writePacket tag body)"
    "ssLength D = length P"
    by (rule sealedAround_parts [OF assms(1)])
  have cont: "container D C P" using assms(1) by (simp add: sealedAround_def)
  let ?M = "[0xD3, 0x14] @ T"
  have len: "length ?M = 22" using P(3) by simp
  obtain t where t: "ensurePending D 22 s = yes t" "tracks D C P t" "22 \<le> length (srPending t)" "consumed t = consumed s"
    using ensurePending_tracks [OF cont assms(2), of 22] assms(3) P(5) by auto
  have pos: "srStreamPos t = length (H @ writePacket tag body)" using t(4) assms(3) P(1) by (simp add: consumed_def)
  have shape: "P = (H @ writePacket tag body) @ ?M @ []" using P(2) by simp
  note bytes = tracks_bytes [OF t(2) shape pos]
  have m: "take 22 (srPending t) = ?M" "srPending t ! 0 = 0xD3" "srPending t ! 1 = 0x14"
    using bytes(1) bytes(2) [of 0] bytes(2) [of 1] t(3) len by simp_all
  have "slice (srPending t) 2 22 = Some T"
    using t(3) arg_cong [OF m(1), of "drop 2"] by (simp add: drop_take)
  moreover obtain u where u: "consumeForHash D 22 t = Some u" "tracks D C P u" "srStreamPos u = srStreamPos t + 22"
    by (rule consumeForHash_tracks [OF t(2,3)])
  moreover have "srHashed u = H @ writePacket tag body @ [0xD3, 0x14]"
  proof -
    have "srHashed u = take (length P - 20) P" using u(2,3) pos P(1,5,6) by (auto elim!: tracksE)
    also have "\<dots> = H @ writePacket tag body @ [0xD3, 0x14]" using P(1,2,3,5) by simp
    finally show ?thesis .
  qed
  moreover have "byte_at (srPending t) 0 = Some 0xD3" "byte_at (srPending t) 1 = Some 0x14"
    using m(2,3) t(3) by (simp_all add: byte_at_def del: length_greater_0_conv)
  ultimately show ?thesis using t(1) P(4) by (simp add: checkTrailer_def)
qed

text \<open>The header of the inner packet is found at the first attempt.\<close>

lemma probeHeader_tracks:
  assumes "sealedAround D C P tag body" "tracks D C P s" "srStreamPos s = 18"
  obtains t where "probeHeader D probeSizes s = yes ((tag, length body, 1 + newFormatLengthOctets (length body), False), t)"
    "tracks D C P t" "srStreamPos t = 18" "1 + newFormatLengthOctets (length body) \<le> length (srPending t)"
    "srPending t ! 0 = 0xC0 OR tag"
proof -
  obtain H T where P: "length H = 18" "P = H @ writePacket tag body @ [0xD3, 0x14] @ T" "length P = 40 + length (writePacket tag body)"
    by (rule sealedAround_parts [OF assms(1)])
  have s: "container D C P" "unat tag < 64" "length body < 4294967296" "46 \<le> length P"
    using assms(1) by (simp_all add: sealedAround_def)
  obtain t where t: "ensurePending D 8 s = yes t" "tracks D C P t" "8 \<le> length (srPending t)" "consumed t = consumed s"
    using ensurePending_tracks [OF s(1) assms(2), of 8] assms(3) s(4) by auto
  let ?h = "(0xC0 OR tag) # appendNewFormatLength [] (length body)"
  let ?o = "newFormatLengthOctets (length body)"
  have o: "?o \<le> 5" by (rule newFormatLengthOctets_le)
  have lh: "length ?h = 1 + ?o" by (simp add: length_newFormatLength)
  have pos: "srStreamPos t = length H" using t(4) assms(3) P(1) by (simp add: consumed_def)
  define rest where "rest = body @ [0xD3, 0x14] @ T"
  have shape: "P = H @ ?h @ rest" using P(2) by (simp add: writePacket_eq rest_def)
  have "take 8 (srPending t) = take 8 (?h @ rest)"
    using tracks_pending(1) [OF t(2,3)] shape pos by simp
  then have probe: "take 8 (srPending t) = [] @ ?h @ take (8 - length ?h) rest"
    using o lh by (simp add: take_append)
  have header: "readPacketHeader (take 8 (srPending t)) 0 None True = yes (tag, length body, 1 + ?o, False)"
    using readPacketHeader_head [OF s(2,3), of "[]" "take (8 - length ?h) rest" None True] probe by simp
  obtain sizes where sizes: "probeSizes = 8 # sizes" by (simp add: probeSizes_def upt_conv_Cons)
  have "probeHeader D probeSizes s = yes ((tag, length body, 1 + ?o, False), t)"
    unfolding sizes probeHeader.simps t(1) on_true_simps header by simp
  moreover have "srPending t ! 0 = 0xC0 OR tag"
    using tracks_bytes(2) [OF t(2) shape pos, of 0] lh o t(3) by simp
  ultimately show ?thesis using that t(2,3) pos P(1) o by simp
qed

lemma definite_first: "(0xC0 OR tag) AND 0xC0 \<noteq> (0x80 :: byte)"
proof -
  have "(0xC0 OR tag) AND 0xC0 = (0xC0 :: byte)" by simp
  then show ?thesis by simp
qed

section \<open>A literal packet in the container\<close>

abbreviation always :: "nat \<Rightarrow> bool" where
  "always \<equiv> \<lambda>n. True"

definition literalBody :: "bytes \<Rightarrow> bytes" where
  "literalBody content = literalPrefixOf @ content"

lemma literalBody_facts: "length literalPrefixOf = 6" "literalPrefixOf ! Suc 0 = 0" "length (literalBody content) = 6 + length content"
  "literalPacketOf content = writePacket PGP_TAG_LITERAL_DATA (literalBody content)"
  by (simp_all add: literalBody_def literalPrefixOf_def literalPacketOf_def appendBigEndian32_def)

lemma decryptLiteral_tracks:
  assumes sealed: "sealedAround D C P PGP_TAG_LITERAL_DATA (literalBody content)"
    and s: "tracks D C P s" "srStreamPos s = 18 + (1 + newFormatLengthOctets (length (literalBody content)))" "\<not> srInnerPartial s"
  shows "\<exists>s'. decryptLiteral D always always (length (literalBody content)) s = Some (Inr (s', content)) \<and> tracks D C P s'
    \<and> srStreamPos s' = 18 + length (writePacket PGP_TAG_LITERAL_DATA (literalBody content))"
proof -
  let ?body = "literalBody content" and ?o = "newFormatLengthOctets (length (literalBody content))"
  obtain H T where P: "length H = 18" "P = H @ writePacket PGP_TAG_LITERAL_DATA ?body @ [0xD3, 0x14] @ T"
    "length P = 40 + length (writePacket PGP_TAG_LITERAL_DATA ?body)"
    by (rule sealedAround_parts [OF sealed])
  define pre where "pre = H @ (0xC0 OR PGP_TAG_LITERAL_DATA) # appendNewFormatLength [] (length ?body)"
  have pre: "length pre = srStreamPos s" using P(1) s(2) by (simp add: pre_def length_newFormatLength)
  have shape: "P = pre @ literalPrefixOf @ content @ [0xD3, 0x14] @ T"
    using P(2) by (simp add: writePacket_eq pre_def literalBody_def)
  have lenP: "length P = srStreamPos s + (6 + length content) + 22"
    using P(3) s(2) by (simp add: length_writePacket literalBody_facts)
  have cont: "container D C P" using sealed by (simp add: sealedAround_def)
  obtain t where t: "ensurePending D 2 s = yes t" "tracks D C P t" "2 \<le> length (srPending t)" "consumed t = consumed s"
    using ensurePending_tracks [OF cont s(1), of 2] lenP by auto
  have t': "srStreamPos t = srStreamPos s" "\<not> srInnerPartial t"
    using t(4) s(3) by (auto simp: consumed_def innerState_def)
  have shape2: "P = pre @ take 2 literalPrefixOf @ drop 2 literalPrefixOf @ content @ [0xD3, 0x14] @ T"
    unfolding append.assoc [symmetric, of "take 2 literalPrefixOf"] append_take_drop_id by (rule shape)
  have two: "length (take 2 literalPrefixOf) = 2" "take 2 literalPrefixOf ! 1 = 0" using literalBody_facts(1,2) by (simp_all add: nth_take)
  have "srPending t ! 1 = 0"
    using tracks_bytes(2) [OF t(2) shape2, of 1] pre t' t(3) two by simp
  then have fl: "byte_at (srPending t) 1 = Some 0" using t(3) by (simp add: byte_at_def)
  obtain u where u: "skipOctets D 2 t = yes u" "tracks D C P u" "srStreamPos u = srStreamPos t + 2" "innerState u = innerState t"
    by (rule skipOctets_tracks [OF cont t(2), of 2]) (use lenP t' in simp_all)
  obtain v where v: "skipOctets D 4 u = yes v" "tracks D C P v" "srStreamPos v = srStreamPos u + 4" "innerState v = innerState u"
    by (rule skipOctets_tracks [OF cont u(2), of 4]) (use lenP t' u(3) in simp_all)
  have part: "\<not> srInnerPartial v" using v(4) u(4) t'(2) by (simp add: innerState_def)
  have start: "srStreamPos v = srStreamPos s + 6" using v(3) u(3) t'(1) by simp
  have content: "drop (srStreamPos s + 6) P = content @ [0xD3, 0x14] @ T"
    by (simp add: shape literalBody_facts(1) flip: pre)
  let ?Inv = "\<lambda>k x. x = (take k content, k)"
  have act: "\<exists>x'. writeContent always always x (take m (drop (srStreamPos s + 6 + k) P)) = Some (Inr x') \<and> ?Inv (k + m) x'"
    if "?Inv k x" "0 < m" "k + m \<le> length content" for k m x
  proof -
    have "drop (srStreamPos s + 6 + k) P = drop k content @ [0xD3, 0x14] @ T"
      using arg_cong [OF content, of "drop k"] that(3) by (simp add: add.commute)
    then have "take m (drop (srStreamPos s + 6 + k) P) = take m (drop k content)" using that(3) by simp
    then show ?thesis using that by (simp add: writeContent_def take_add)
  qed
  have n: "srStreamPos s + 6 + length content \<le> length P" using lenP by simp
  have "\<exists>w x. bodyLoop D False (writeContent always always) (length content - 0) v ([], 0) = Some (Inr (w, x))
      \<and> tracks D C P w \<and> srStreamPos w = srStreamPos s + 6 + length content \<and> ?Inv (length content) x"
    by (rule bodyLoop_tracks [where Inv = ?Inv and k = 0, OF cont act v(2) part n]) (simp_all add: start)
  then obtain w where
    w: "bodyLoop D False (writeContent always always) (length content) v ([], 0) = Some (Inr (w, content, length content))"
      "tracks D C P w" "srStreamPos w = srStreamPos s + 6 + length content"
    by auto
  have "decryptLiteral D always always (length ?body) s = Some (Inr (w, content))"
    unfolding decryptLiteral_def t(1) on_read_simps fl bind.bind_lunit
    using u(1) v(1) w(1) t'(2) part by (simp add: literalBody_facts(3))
  moreover have "srStreamPos w = 18 + length (writePacket PGP_TAG_LITERAL_DATA ?body)"
    using w(3) s(2) by (simp add: length_writePacket literalBody_facts(3))
  ultimately show ?thesis using w(2) by blast
qed

section \<open>A compressed packet in the container\<close>

text \<open>A header that is not complete is not read.\<close>

lemma readPacketHeader_short:
  assumes "unat tag < 64" "k < 1 + newFormatLengthOctets n" "n < 4294967296"
  shows "readPacketHeader (take k ((0xC0 OR tag) # appendNewFormatLength [] n)) 0 e w = no"
proof -
  have bits: "(0xC0 OR tag) AND 0x80 \<noteq> 0" "(0xC0 OR tag) AND 0x40 \<noteq> 0"
    using packet_octet_bits [OF assms(1)] by simp_all
  note defs = readPacketHeader_def readNewFormatHeader_def appendNewFormatLength_def newFormatLengthOctets_def
    word_less_nat_alt nth_append
  consider "n < 192" | "192 \<le> n" "n < 8384" | "8384 \<le> n" by linarith
  then show ?thesis
  proof cases
    case 1
    with assms(2) have "k = 0 \<or> k = 1" by (simp add: newFormatLengthOctets_def) linarith
    then show ?thesis using bits 1 by (auto simp: defs)
  next
    case 2
    with assms(2) have "k = 0 \<or> k = 1 \<or> k = 2" by (simp add: newFormatLengthOctets_def) linarith
    then show ?thesis using bits 2 two_octet_first [OF 2] by (elim disjE) (simp_all add: defs Let_def)
  next
    case 3
    with assms(2) have "k = 0 \<or> k = 1 \<or> k = 2 \<or> k = 3 \<or> k = 4 \<or> k = 5" by (simp add: newFormatLengthOctets_def) linarith
    then show ?thesis using bits 3 by (elim disjE) (simp_all add: defs appendBigEndian32_def)
  qed
qed

text \<open>The state of the drain after the first \<open>t\<close> octets of a literal packet, whatever the pieces in which they came.\<close>

definition headLength :: "bytes \<Rightarrow> nat" where
  "headLength content = 1 + newFormatLengthOctets (6 + length content)"

definition drainAfter :: "bytes \<Rightarrow> nat \<Rightarrow> drain" where
  "drainAfter content t =
     (if t < headLength content then emptyDrain\<lparr>drDecoded := take t (literalPacketOf content)\<rparr>
      else
        let d = emptyDrain\<lparr>drHeaderParsed := True, drHeaderEnd := headLength content, drBodyLength := 6 + length content\<rparr>
        in if t < headLength content + 6 then d\<lparr>drDecoded := take t (literalPacketOf content)\<rparr>
           else let n = t - headLength content - 6
             in d\<lparr>drOut := take n content, drPrefixParsed := True, drContentRemaining := length content - n, drProcessed := n\<rparr>)"

lemma literal_octets:
  "literalPacketOf content = ((0xC0 OR PGP_TAG_LITERAL_DATA) # appendNewFormatLength [] (6 + length content)) @ literalPrefixOf @ content"
  "length ((0xC0 OR PGP_TAG_LITERAL_DATA) # appendNewFormatLength [] (6 + length content)) = headLength content"
  "length (literalPacketOf content) = headLength content + 6 + length content"
  by (simp_all add: literalBody_facts writePacket_eq literalBody_def headLength_def length_newFormatLength)

lemma literal_drop: "drop (headLength content + 6 + n) (literalPacketOf content) = drop n content"
proof -
  define A where "A = ((0xC0 OR PGP_TAG_LITERAL_DATA) # appendNewFormatLength [] (6 + length content)) @ literalPrefixOf"
  have "length A = headLength content + 6" unfolding A_def length_append literal_octets(2) literalBody_facts(1) ..
  moreover have "literalPacketOf content = A @ content" unfolding A_def literal_octets(1) by simp
  ultimately show ?thesis by (simp flip: \<open>length A = headLength content + 6\<close>)
qed

lemma literal_header:
  assumes "length content < 4294967000"
  shows "t < headLength content \<Longrightarrow> readPacketHeader (take t (literalPacketOf content)) 0 None True = no"
    and "headLength content \<le> t \<Longrightarrow> readPacketHeader (take t (literalPacketOf content)) 0 None True
      = yes (PGP_TAG_LITERAL_DATA, 6 + length content, headLength content, False)"
proof -
  let ?h = "(0xC0 OR PGP_TAG_LITERAL_DATA) # appendNewFormatLength [] (6 + length content)"
  have small: "6 + length content < 4294967296" using assms by simp
  show "readPacketHeader (take t (literalPacketOf content)) 0 None True = no" if "t < headLength content"
  proof -
    have "take t (literalPacketOf content) = take t ?h"
      unfolding literal_octets(1) using that literal_octets(2) [of content] by (simp only: take_append) simp
    then show ?thesis
      using readPacketHeader_short [OF tags_small(4) _ small, of t None True] that by (simp add: headLength_def)
  qed
  show "readPacketHeader (take t (literalPacketOf content)) 0 None True
      = yes (PGP_TAG_LITERAL_DATA, 6 + length content, headLength content, False)" if "headLength content \<le> t"
  proof -
    have "take t (literalPacketOf content) = [] @ ?h @ take (t - headLength content) (literalPrefixOf @ content)"
      unfolding literal_octets(1) using that literal_octets(2) [of content] by (simp only: take_append) simp
    then show ?thesis
      using readPacketHeader_head [OF tags_small(4) small, of "[]" "take (t - headLength content) (literalPrefixOf @ content)" None True]
      by (simp add: headLength_def)
  qed
qed

definition headerDrain :: "bytes \<Rightarrow> drain" where
  "headerDrain content =
     emptyDrain\<lparr>drHeaderParsed := True, drHeaderEnd := headLength content, drBodyLength := 6 + length content\<rparr>"

lemma headerDrain_fields [simp]: "drOut (headerDrain content) = []" "drRaw (headerDrain content) = []"
  "drHeaderParsed (headerDrain content)" "\<not> drPrefixParsed (headerDrain content)" "\<not> drIndeterminate (headerDrain content)"
  "drHeaderEnd (headerDrain content) = headLength content" "drBodyLength (headerDrain content) = 6 + length content"
  "drProcessed (headerDrain content) = 0" "\<not> drPartial (headerDrain content)"
  by (simp_all add: headerDrain_def emptyDrain_def)

lemma drainAfter_header: "drainAfter content t =
    (if t < headLength content then emptyDrain\<lparr>drDecoded := take t (literalPacketOf content)\<rparr>
     else if t < headLength content + 6 then (headerDrain content)\<lparr>drDecoded := take t (literalPacketOf content)\<rparr>
     else (headerDrain content)\<lparr>drOut := take (t - headLength content - 6) content, drPrefixParsed := True,
       drContentRemaining := length content - (t - headLength content - 6), drProcessed := t - headLength content - 6\<rparr>)"
  by (simp add: drainAfter_def headerDrain_def Let_def)

lemma headerDrain_empty [simp]: "drDecoded (headerDrain content) = []" "drContentRemaining (headerDrain content) = 0"
  by (simp_all add: headerDrain_def emptyDrain_def)

definition drainRest :: "drain \<Rightarrow> drain io option" where
  "drainRest d = (case drainPrefix d of None \<Rightarrow> None | Some (Inl st) \<Rightarrow> Some (Inl st) | Some (Inr (False, d)) \<Rightarrow> Some (Inr d)
     | Some (Inr (True, d)) \<Rightarrow> Some (drainWrite always always d))"

lemma drainRest_header:
  assumes "headLength content \<le> t" "t \<le> length (literalPacketOf content)"
  shows "drainRest ((headerDrain content)\<lparr>drDecoded := take t (literalPacketOf content)\<rparr>) = Some (Inr (drainAfter content t))"
proof -
  let ?W = "literalPacketOf content" and ?l = "headLength content"
  have len: "length ?W = ?l + 6 + length content" by (rule literal_octets(3))
  have name: "byte_at (take t ?W) (?l + 1) = Some 0" if "?l + 2 \<le> t"
  proof -
    have "?W ! (?l + 1) = (literalPrefixOf @ content) ! 1"
      unfolding literal_octets(1) using literal_octets(2) [of content] by (metis add_diff_cancel_left' le_add1 leD nth_append)
    then show ?thesis using that assms(2) literalBody_facts(1,2) by (simp add: byte_at_def nth_append)
  qed
  have rest: "drop (?l + 6) (take t ?W) = take (t - ?l - 6) content"
    using literal_drop [of content 0] by (simp add: drop_take)
  consider "t < ?l + 2" | "?l + 2 \<le> t" "t < ?l + 6" | "?l + 6 \<le> t" by linarith
  then show ?thesis
  proof cases
    case 1
    then show ?thesis using assms len by (simp add: drainRest_def drainPrefix_def drainAfter_header)
  next
    case 2
    then show ?thesis using assms len name by (simp add: drainRest_def drainPrefix_def drainAfter_header)
  next
    case 3
    define n where "n = t - ?l - 6"
    have n: "t = ?l + 6 + n" "n \<le> length content" using 3 assms(2) len by (simp_all add: n_def)
    have "byte_at (take t ?W) (?l + 1) = Some 0" by (rule name) (use 3 in simp)
    moreover have "drop (?l + 6) (take t ?W) = take n content" using rest by (simp add: n_def)
    ultimately show ?thesis using n(2) len unfolding n(1)
      by (auto simp: drainRest_def drainPrefix_def drainAfter_header drainWrite_def)
  qed
qed

lemma drainDecoded_after:
  assumes small: "length content < 4294967000" and t: "t \<le> t'" "t' \<le> length (literalPacketOf content)"
  shows "drainDecoded always always (take (t' - t) (drop t (literalPacketOf content))) (drainAfter content t)
    = Some (Inr (drainAfter content t'))"
proof -
  let ?W = "literalPacketOf content" and ?l = "headLength content"
  have len: "length ?W = ?l + 6 + length content" by (rule literal_octets(3))
  have more: "take t ?W @ take (t' - t) (drop t ?W) = take t' ?W" using t(1) by (metis le_add_diff_inverse take_add)
  have l: "1 < ?l" "?l \<le> 6" using newFormatLengthOctets_le [of "6 + length content"]
    by (auto simp: headLength_def newFormatLengthOctets_def)
  have parsed: "drainDecoded always always x d = drainRest (d\<lparr>drDecoded := drDecoded d @ x\<rparr>)"
    if "\<not> drPartial d" "drHeaderParsed d" for x d
    using that by (simp add: drainDecoded_def drainTake_def drainHeader_def drainRest_def)
  consider "t' < ?l" | "t < ?l" "?l \<le> t'" | "?l \<le> t" "t < ?l + 6" | "?l + 6 \<le> t" using t(1) by linarith
  then show ?thesis
  proof cases
    case 1
    with t(1) have a: "drainAfter content t = emptyDrain\<lparr>drDecoded := take t ?W\<rparr>"
      "drainAfter content t' = emptyDrain\<lparr>drDecoded := take t' ?W\<rparr>" by (simp_all add: drainAfter_def)
    show ?thesis
      using more literal_header(1) [OF small 1] 1 l len unfolding a
      by (simp add: drainDecoded_def drainTake_def drainHeader_def emptyDrain_def)
  next
    case 2
    then have a: "drainAfter content t = emptyDrain\<lparr>drDecoded := take t ?W\<rparr>" by (simp add: drainAfter_def)
    have first: "byte_at (take t' ?W) 0 = Some (0xC0 OR PGP_TAG_LITERAL_DATA)"
      using 2 l t(2) by (simp add: byte_at_def literal_octets(1))
    have "drainDecoded always always (take (t' - t) (drop t ?W)) (drainAfter content t)
        = drainRest ((headerDrain content)\<lparr>drDecoded := take t' ?W\<rparr>)"
      using more literal_header(2) [OF small 2(2)] first 2 l definite_first [of PGP_TAG_LITERAL_DATA] t(2) unfolding a
      by (auto simp: drainDecoded_def drainTake_def drainHeader_def emptyDrain_def drainRest_def headerDrain_def Let_def)
    then show ?thesis using drainRest_header [OF 2(2) t(2)] by simp
  next
    case 3
    then have a: "drainAfter content t = (headerDrain content)\<lparr>drDecoded := take t ?W\<rparr>" by (simp add: drainAfter_header)
    show ?thesis
      unfolding a using parsed [of "(headerDrain content)\<lparr>drDecoded := take t ?W\<rparr>"] more drainRest_header [OF _ t(2)] 3 t(1)
      by simp
  next
    case 4
    define n n' where "n = t - ?l - 6" and "n' = t' - ?l - 6"
    have n: "n \<le> n'" "n' \<le> length content" "t' - t = n' - n" "t = ?l + 6 + n" using 4 t len by (auto simp: n_def n'_def)
    have a: "drainAfter content t = (headerDrain content)\<lparr>drOut := take n content, drPrefixParsed := True,
        drContentRemaining := length content - n, drProcessed := n\<rparr>"
      "drainAfter content t' = (headerDrain content)\<lparr>drOut := take n' content, drPrefixParsed := True,
        drContentRemaining := length content - n', drProcessed := n'\<rparr>"
      using 4 t(1) by (simp_all add: drainAfter_header n_def n'_def)
    have "drop t ?W = drop n content" unfolding n(4) by (rule literal_drop)
    moreover have "take n content @ take (n' - n) (drop n content) = take n' content"
      using n(1) by (metis le_add_diff_inverse take_add)
    ultimately show ?thesis
      using n parsed [of "drainAfter content t"] unfolding a n(3)
      by (auto simp: drainRest_def drainPrefix_def drainWrite_def)
  qed
qed

end
