(* ===== verification/FileRoundTrip.thy ===== *)
theory FileRoundTrip
  imports FileFacts
begin

unbundle bit_operations_syntax

text \<open>
  Whole files: what \<open>DecryptFile\<close> makes of the files that \<open>EncryptFile\<close> and \<open>EncryptFileCompressed\<close> write.
\<close>

section \<open>Decompressing in pieces\<close>

text \<open>What a decompressor gives after a part of its input is a part of what it gives in the end, and more
  input never takes output back.\<close>

definition decodes :: "decoder \<Rightarrow> bytes \<Rightarrow> bytes \<Rightarrow> bool" where
  "decodes Z packed whole \<longleftrightarrow> dcWhole Z packed = Some whole \<and>
     (\<exists>f. mono f \<and> (\<forall>k. f k \<le> length whole \<and> dcSoFar Z (take k packed) = Some (take (f k) whole)))"

lemma storedDecoder_decodes: "decodes storedDecoder packed packed"
proof -
  have "mono (\<lambda>k. min k (length packed))" by (auto simp: mono_def)
  moreover have "take k packed = take (min k (length packed)) packed" for k by (simp add: min_def)
  ultimately show ?thesis unfolding decodes_def storedDecoder_def by (intro conjI exI [of _ "\<lambda>k. min k (length packed)"]) simp_all
qed

definition unpacks :: "(byte \<Rightarrow> decoder) \<Rightarrow> byte \<Rightarrow> bytes \<Rightarrow> bytes \<Rightarrow> bool" where
  "unpacks Z algorithm packed whole \<longleftrightarrow> algorithm \<le> 3 \<and>
     (if algorithm = 3 then bzip2DecompressBuffer packed = yes whole else decodes (decoderFor Z algorithm) packed whole)"

text \<open>The state of the loop over the compressed body after \<open>k\<close> octets of it, when at most \<open>f k\<close> octets have come out.\<close>

definition fedAfter :: "(nat \<Rightarrow> nat) \<Rightarrow> bytes \<Rightarrow> bytes \<Rightarrow> nat \<Rightarrow> bytes \<times> nat \<times> drain \<Rightarrow> bool" where
  "fedAfter f content packed k x \<longleftrightarrow> (\<exists>t \<le> f k. x = (take k packed, t, drainAfter content t))"

lemma drainAfter_start: "drainAfter content 0 = emptyDrain"
  by (simp add: drainAfter_def headLength_def emptyDrain_def)

lemma drainAfter_whole:
  "drainComplete (drainAfter content (length (literalPacketOf content)))"
  "drOut (drainAfter content (length (literalPacketOf content))) = content"
  by (simp_all add: drainAfter_header literal_octets(3) drainComplete_def)

lemma feedDecoder_after:
  assumes "length content < 4294967000" and Z: "\<And>k. f k \<le> length (literalPacketOf content)"
    "\<And>k. dcSoFar Z (take k packed) = Some (take (f k) (literalPacketOf content))" "mono f"
    and x: "fedAfter f content packed k x" and algorithm: "algorithm \<noteq> 3"
  shows "\<exists>x'. feedDecoder algorithm Z always always x (take m (drop k packed)) = Some (Inr x') \<and> fedAfter f content packed (k + m) x'"
proof -
  let ?W = "literalPacketOf content"
  obtain t where t: "x = (take k packed, t, drainAfter content t)" "t \<le> f k" using x by (auto simp: fedAfter_def)
  have le: "t \<le> f (k + m)" using t(2) monoD [OF Z(3), of k "k + m"] by simp
  have "drop t (take (f (k + m)) ?W) = take (f (k + m) - t) (drop t ?W)" by (simp add: drop_take)
  moreover have "take k packed @ take m (drop k packed) = take (k + m) packed" by (simp add: take_add)
  moreover have "length (take (f (k + m)) ?W) = f (k + m)" using Z(1) [of "k + m"] by simp
  ultimately have "feedDecoder algorithm Z always always x (take m (drop k packed))
      = Some (Inr (take (k + m) packed, f (k + m), drainAfter content (f (k + m))))"
    using drainDecoded_after [OF assms(1) le Z(1)] Z(2) algorithm by (simp add: feedDecoder_def t(1))
  then show ?thesis by (auto simp: fedAfter_def)
qed

lemma bzip2Drain_after:
  assumes "length content < 4294967000"
  shows "t \<le> length (literalPacketOf content) \<Longrightarrow> bzip2Drain always always (drop t (literalPacketOf content)) (drainAfter content t)
    = Some (Inr (drainAfter content (length (literalPacketOf content))))"
proof (induction "length (literalPacketOf content) - t" arbitrary: t rule: less_induct)
  case less
  let ?W = "literalPacketOf content"
  define t' where "t' = min (t + 65536) (length ?W)"
  have t': "t \<le> t'" "t' \<le> length ?W" using less.prems by (simp_all add: t'_def)
  have piece: "take 65536 (drop t ?W) = take (t' - t) (drop t ?W)"
    by (cases "t + 65536 \<le> length ?W") (simp_all add: t'_def)
  note step = drainDecoded_after [OF assms t', folded piece]
  show ?case
  proof (cases "t + 65536 < length ?W")
    case True
    then have "t' = t + 65536" by (simp add: t'_def)
    moreover from this have "bzip2Drain always always (drop t' ?W) (drainAfter content t') = Some (Inr (drainAfter content (length ?W)))"
      using less.hyps [of t'] True by simp
    ultimately show ?thesis using True by (subst bzip2Drain.simps) (simp add: step add.commute)
  next
    case False
    then have "t' = length ?W" by (simp add: t'_def)
    moreover have "length (drop t ?W) \<le> 65536" using False by simp
    ultimately show ?thesis using step by (subst bzip2Drain.simps) (simp only: option.case sum.case if_True)
  qed
qed

lemma finishDecoder_after:
  assumes small: "length content < 4294967000" and "unpacks Z algorithm packed (literalPacketOf content)"
    and t: "t \<le> length (literalPacketOf content)" "algorithm = 3 \<longrightarrow> t = 0"
  shows "finishDecoder algorithm (decoderFor Z algorithm) always always (packed, t, drainAfter content t) = Some (Inr content)"
proof (cases "algorithm = 3")
  case True
  then have "bzip2DecompressBuffer packed = yes (literalPacketOf content)" using assms(2) by (simp add: unpacks_def)
  then show ?thesis
    using bzip2Drain_after [OF small, of 0] t(2) True drainAfter_whole by (simp add: finishDecoder_def)
next
  case False
  then have "dcWhole (decoderFor Z algorithm) packed = Some (literalPacketOf content)"
    using assms(2) by (simp add: unpacks_def decodes_def)
  moreover have "drop t (literalPacketOf content) = take (length (literalPacketOf content) - t) (drop t (literalPacketOf content))" by simp
  ultimately show ?thesis
    using drainDecoded_after [OF small t(1) order_refl] False drainAfter_whole by (simp add: finishDecoder_def)
qed

section \<open>A compressed packet\<close>

lemma decryptCompressed_tracks:
  assumes sealed: "sealedAround D C P PGP_TAG_COMPRESSED_DATA (algorithm # packed)"
    and small: "length content < 4294967000" and Z: "unpacks Z algorithm packed (literalPacketOf content)"
    and s: "tracks D C P s" "srStreamPos s = 18 + (1 + newFormatLengthOctets (length (algorithm # packed)))" "\<not> srInnerPartial s"
  shows "\<exists>s'. decryptCompressed D Z always always (length (algorithm # packed)) s = Some (Inr (s', content)) \<and> tracks D C P s'
    \<and> srStreamPos s' = 18 + length (writePacket PGP_TAG_COMPRESSED_DATA (algorithm # packed))"
proof -
  let ?body = "algorithm # packed" and ?Z = "decoderFor Z algorithm"
  obtain H T where P: "length H = 18" "P = H @ writePacket PGP_TAG_COMPRESSED_DATA ?body @ [0xD3, 0x14] @ T"
    "length P = 40 + length (writePacket PGP_TAG_COMPRESSED_DATA ?body)" "ssLength D = length P"
    by (rule sealedAround_parts [OF sealed])
  define pre where "pre = H @ (0xC0 OR PGP_TAG_COMPRESSED_DATA) # appendNewFormatLength [] (length ?body)"
  have pre: "srStreamPos s = length pre" using P(1) s(2) by (simp add: pre_def length_newFormatLength)
  have shape: "P = pre @ [algorithm] @ packed @ [0xD3, 0x14] @ T" using P(2) by (simp add: writePacket_eq pre_def)
  have lenP: "length P = srStreamPos s + length ?body + 22"
    using P(3) s(2) by (simp add: length_writePacket)
  have cont: "container D C P" using sealed by (simp add: sealedAround_def)
  have small_D: "length P < 18446744073709551616"
    using sealed newFormatLengthOctets_le [of "length ?body"] P(3) by (simp add: sealedAround_def length_writePacket)
  have fits: "size_sub (size_sub (ssLength D - 20) (srStreamPos s)) 2 = length ?body"
    using lenP small_D by (simp add: P(4) size_sub_def)
  obtain t where t: "ensurePending D 1 s = yes t" "tracks D C P t" "1 \<le> length (srPending t)" "consumed t = consumed s"
    using ensurePending_tracks [OF cont s(1), of 1] lenP by auto
  have t': "srStreamPos t = length pre" "\<not> srInnerPartial t" using t(4) s(3) pre by (auto simp: consumed_def innerState_def)
  have "srPending t ! 0 = algorithm"
    using tracks_bytes(2) [OF t(2) shape t'(1), of 0] t(3) by simp
  moreover have "0 < length (srPending t)" using t(3) by linarith
  ultimately have algorithm: "byte_at (srPending t) 0 = Some algorithm" unfolding byte_at_def by (simp only: if_True)
  obtain u where u: "consumeForHash D 1 t = Some u" "tracks D C P u" "srStreamPos u = srStreamPos t + 1" "innerState u = innerState t"
    by (rule consumeForHash_tracks [OF t(2,3)])
  have part: "\<not> srInnerPartial u" using u(4) t'(2) by (simp add: innerState_def)
  define start where "start = length pre + 1"
  have start: "srStreamPos u = start" "start + length packed \<le> length P" "drop start P = packed @ [0xD3, 0x14] @ T"
    using u(3) t'(1) lenP pre shape by (simp_all add: start_def)
  obtain f where f: "\<forall>k. f k \<le> length (literalPacketOf content)" "mono f"
    "algorithm \<noteq> 3 \<longrightarrow> (\<forall>k. dcSoFar ?Z (take k packed) = Some (take (f k) (literalPacketOf content)))" "algorithm = 3 \<longrightarrow> (\<forall>k. f k = 0)"
  proof (cases "algorithm = 3")
    case True
    then show ?thesis using that [of "\<lambda>k. 0"] by (simp add: mono_def)
  next
    case False
    then show ?thesis using Z that by (auto simp: unpacks_def decodes_def)
  qed
  have act: "\<exists>x'. feedDecoder algorithm ?Z always always x (take m (drop (start + k) P)) = Some (Inr x')
      \<and> fedAfter f content packed (k + m) x'"
    if "fedAfter f content packed k x" "0 < m" "k + m \<le> length packed" for k m x
  proof -
    have "drop (start + k) P = drop k packed @ [0xD3, 0x14] @ T"
      using arg_cong [OF start(3), of "drop k"] that(3) by (simp add: add.commute)
    then have piece: "take m (drop (start + k) P) = take m (drop k packed)" using that(3) by simp
    show ?thesis
    proof (cases "algorithm = 3")
      case True
      then have "x = (take k packed, 0, drainAfter content 0)" using that(1) f(4) by (auto simp: fedAfter_def)
      moreover have "take k packed @ take m (drop k packed) = take (k + m) packed" by (simp add: take_add)
      ultimately show ?thesis unfolding piece using True by (simp add: feedDecoder_def fedAfter_def)
    next
      case False
      then show ?thesis unfolding piece using feedDecoder_after [OF small _ _ f(2) that(1) False] f(1,3) by blast
    qed
  qed
  have "\<exists>v x. bodyLoop D True (feedDecoder algorithm ?Z always always) (length packed - 0) u ([], 0, emptyDrain) = Some (Inr (v, x))
      \<and> tracks D C P v \<and> srStreamPos v = start + length packed \<and> fedAfter f content packed (length packed) x"
    by (rule bodyLoop_tracks [where Inv = "fedAfter f content packed" and k = 0, OF cont act u(2) part start(2)])
      (simp_all add: start(1) fedAfter_def drainAfter_start)
  then obtain v n where v: "bodyLoop D True (feedDecoder algorithm ?Z always always) (length packed) u ([], 0, emptyDrain)
      = Some (Inr (v, (packed, n, drainAfter content n)))" "tracks D C P v" "srStreamPos v = start + length packed" "n \<le> f (length packed)"
    by (auto simp: fedAfter_def)
  have n: "n \<le> length (literalPacketOf content)" "algorithm = 3 \<longrightarrow> n = 0" using v(4) f(1,4) by (auto intro: order_trans)
  have known: "\<not> 3 < algorithm" using Z by (simp add: unpacks_def not_less)
  have "decryptCompressed D Z always always (length ?body) s = Some (Inr (v, content))"
    unfolding decryptCompressed_def fits t(1) on_read_simps algorithm bind.bind_lunit
    using u(1) v(1) part t'(2) s(3) known finishDecoder_after [OF small Z n] by (simp add: Let_def)
  moreover have "srStreamPos v = 18 + length (writePacket PGP_TAG_COMPRESSED_DATA ?body)"
    using v(3) s(2) pre by (simp add: start_def length_writePacket)
  ultimately show ?thesis using v(2) by blast
qed

section \<open>The whole container\<close>

text \<open>A packet that the reader unwraps to \<open>content\<close>: a literal packet, or what \<open>Z\<close> decompresses to one.\<close>

definition holds :: "(byte \<Rightarrow> decoder) \<Rightarrow> byte \<Rightarrow> bytes \<Rightarrow> bytes \<Rightarrow> bool" where
  "holds Z tag body content \<longleftrightarrow> length content < 4294967000 \<and>
     (tag = PGP_TAG_LITERAL_DATA \<and> body = literalBody content
      \<or> tag = PGP_TAG_COMPRESSED_DATA
        \<and> (\<exists>algorithm packed. body = algorithm # packed \<and> 3 \<le> length packed
          \<and> unpacks Z algorithm packed (literalPacketOf content)))"

lemma tracks_inner: "tracks D C P (s\<lparr>srInnerPartial := a, srInnerRemaining := b, srInnerFinal := c\<rparr>) = tracks D C P s"
  by (simp add: tracks_def feeds_def feedsChunks_def)

lemma decryptInner_tracks:
  assumes sealed: "sealedAround D C P tag body" and content: "holds Z tag body content"
    and s: "tracks D C P s" "srStreamPos s = 18" "1 + newFormatLengthOctets (length body) \<le> length (srPending s)"
      "srPending s ! 0 = 0xC0 OR tag"
  shows "decryptInner D Z always always ((tag, length body, 1 + newFormatLengthOctets (length body), False), s) = Some (Inr content)"
proof -
  let ?o = "1 + newFormatLengthOctets (length body)"
  have "0 < length (srPending s)" using s(3) by linarith
  then have first: "byte_at (srPending s) 0 = Some (0xC0 OR tag)" unfolding byte_at_def by (simp only: if_True s(4))
  obtain t where t: "consumeForHash D ?o s = Some t" "tracks D C P t" "srStreamPos t = srStreamPos s + ?o" "innerState t = innerState s"
    by (rule consumeForHash_tracks [OF s(1,3)])
  define u where "u = t\<lparr>srInnerPartial := False, srInnerRemaining := 0, srInnerFinal := False\<rparr>"
  have u: "tracks D C P u" "srStreamPos u = 18 + ?o" "\<not> srInnerPartial u" using t(2,3) s(2) by (simp_all add: u_def tracks_inner)
  obtain v where v: "(if tag = PGP_TAG_COMPRESSED_DATA then decryptCompressed D Z always always (length body) u
      else if tag = PGP_TAG_LITERAL_DATA then decryptLiteral D always always (length body) u
      else Some (Inl NOT_IMPLEMENTED)) = Some (Inr (v, content))" "tracks D C P v" "srStreamPos v = 18 + length (writePacket tag body)"
  proof (cases "tag = PGP_TAG_COMPRESSED_DATA")
    case True
    then have "tag \<noteq> PGP_TAG_LITERAL_DATA" by (simp add: PGP_TAG_COMPRESSED_DATA_def PGP_TAG_LITERAL_DATA_def)
    then obtain algorithm packed where
      body: "body = algorithm # packed" "unpacks Z algorithm packed (literalPacketOf content)" "length content < 4294967000"
      using content by (auto simp: holds_def)
    show ?thesis
      using decryptCompressed_tracks [OF sealed [unfolded True body(1)] body(3,2) u(1) u(2) [unfolded body(1)] u(3)] that True body(1)
      by auto
  next
    case False
    then have body: "tag = PGP_TAG_LITERAL_DATA" "body = literalBody content" using content by (simp_all add: holds_def)
    show ?thesis
      using decryptLiteral_tracks [OF sealed [unfolded body] u(1) u(2) [unfolded body(2)] u(3)] that False body by auto
  qed
  show ?thesis
    unfolding decryptInner_def prod.case first bind.bind_lunit t(1)
    using v(1) checkTrailer_tracks [OF sealed v(2,3), of content] definite_first [of tag] by (simp add: Let_def flip: u_def)
qed

definition sourceOf :: "crypto \<Rightarrow> opened \<Rightarrow> file_header \<Rightarrow> seip_source" where
  "sourceOf L I H = \<lparr> ssLib = L, ssFile = I, ssKey = fhSessionKey H, ssPartial = fhSeipPartial H, ssLength = fhEncLength H \<rparr>"

definition readerOf :: "crypto \<Rightarrow> file_header \<Rightarrow> seip_reader" where
  "readerOf L H = \<lparr> srPos = fhPosition H, srChunkRemaining = fhSeipChunkRemaining H, srFinalChunk = fhSeipFinalChunk H,
     srCipherRemaining = fhEncLength H - length (fhLeftoverCipher H), srCipher = fhLeftoverCipher H,
     srPending = decryptNext L (fhSessionKey H) [] (fhLeftoverCipher H), srStreamPos = 0, srHashed = [],
     srInnerPartial = False, srInnerRemaining = 0, srInnerFinal = False \<rparr>"

lemma decryptSeipBodyStreaming_holds:
  assumes sealed: "sealedAround (sourceOf L I H) C P tag body" and content: "holds Z tag body content"
    and left: "fhLeftoverCipher H = take c C" "c \<le> length P" "feeds (sourceOf L I H) (readerOf L H) (drop c C)"
  shows "decryptSeipBodyStreaming L I Z always always H = Some (Inr content)"
proof -
  let ?D = "sourceOf L I H"
  have cont: "container ?D C P" "46 \<le> length P" using sealed by (simp_all add: sealedAround_def)
  have D: "ssLib ?D = L" "ssKey ?D = fhSessionKey H" "ssLength ?D = fhEncLength H" by (simp_all add: sourceOf_def)
  have len: "length C = length P" "fhEncLength H = length P" using cont(1) D(3) by (simp_all add: container_def)
  have "cfbDecrypt L (fhSessionKey H) (zeros 16) (take c C) = take c P" using cont(1) D(1,2) by (simp add: container_def)
  then have "decryptNext L (fhSessionKey H) [] (take c C) = take c P" using len(1) left(2) by (simp add: decryptNext_def)
  then have start: "tracks ?D C P (readerOf L H)"
    unfolding tracks_def using left by (intro exI [of _ c]) (simp add: readerOf_def)
  obtain s where s: "skipOctets ?D 18 (readerOf L H) = yes s" "tracks ?D C P s" "srStreamPos s = srStreamPos (readerOf L H) + 18"
    by (rule skipOctets_tracks [OF cont(1) start, of 18]) (use cont(2) in \<open>simp_all add: readerOf_def\<close>)
  have pos: "srStreamPos s = 18" using s(3) by (simp add: readerOf_def)
  obtain t where t: "probeHeader ?D probeSizes s = yes ((tag, length body, 1 + newFormatLengthOctets (length body), False), t)"
    "tracks ?D C P t" "srStreamPos t = 18" "1 + newFormatLengthOctets (length body) \<le> length (srPending t)" "srPending t ! 0 = 0xC0 OR tag"
    by (rule probeHeader_tracks [OF sealed s(2) pos])
  note inner = decryptInner_tracks [OF sealed content t(2-5)]
  have "\<not> (fhEncLength H < 18 + 6 + 22 \<or> length (fhLeftoverCipher H) > fhEncLength H)"
    using len cont(2) left(1,2) by simp
  then show ?thesis
    unfolding decryptSeipBodyStreaming_def Let_def sourceOf_def [symmetric] readerOf_def [symmetric] s(1) on_read_simps t(1) inner
    by (simp only: if_False)
qed

section \<open>The header of the file\<close>

lemma algorithm_octets: "PGP_ALGO_ECDH \<noteq> PGP_ALGO_RSA"
  by (simp add: PGP_ALGO_ECDH_def PGP_ALGO_RSA_def)

lemma filePkeskStep_reads:
  assumes "byte_at buf p = Some 3" "slice buf (p + 1) (p + 9) = Some k" "byte_at buf (p + 9) = Some a" "p + 10 \<le> e"
  shows "k \<noteq> okKeyId K \<Longrightarrow> filePkeskStep L K buf p e session = yes session"
    and "pkeskStep L K buf p e None = yes (Some plain) \<Longrightarrow> k = okKeyId K \<Longrightarrow> filePkeskStep L K buf p e None = yes (Some plain)"
proof -
  have ends: "\<not> e \<le> p" "\<not> e < p + 1 + 9" using assms(4) by linarith+
  show "filePkeskStep L K buf p e session = yes session" if "k \<noteq> okKeyId K"
    using that ends unfolding filePkeskStep_def assms(1-3) bind.bind_lunit by (simp only: if_False if_True simp_thms)
  show "filePkeskStep L K buf p e None = yes (Some plain)"
    if "pkeskStep L K buf p e None = yes (Some plain)" "k = okKeyId K"
  proof -
    have own: "algorithmMatches K a" "(if a = PGP_ALGO_RSA then rsaSessionKey L K buf (p + 10) e
        else ecdhSessionKey L K buf (p + 10) e) = yes (Some plain)"
      using that unfolding pkeskStep_def assms(1-3) bind.bind_lunit by (simp_all split: if_splits)
    then have "a = PGP_ALGO_ECDH \<or> a = PGP_ALGO_RSA" by (auto simp: algorithmMatches_def split: if_splits)
    then show ?thesis using own ends that(2) algorithm_octets
      by (elim disjE) (simp_all only: filePkeskStep_def assms(1-3) bind.bind_lunit if_True if_False on_true_simps option.case, simp_all)
  qed
qed

lemma pkeskBody_reads:
  assumes "length k = 8" "buf = pre @ pkeskBody k a m @ post" "p = length pre"
  shows "byte_at buf p = Some 3" "slice buf (p + 1) (p + 9) = Some k" "byte_at buf (p + 9) = Some a"
    "p + 10 \<le> p + length (pkeskBody k a m)"
  using slice_append [of "pre @ [3]" k "[a] @ m @ post"] byte_at_append [of "pre @ [3] @ k" "[a] @ m @ post" 0] assms
  by (simp_all add: pkeskBody_def)

interpretation file_walk: pkesk_walk filePkeskLoop filePkeskStep
proof unfold_locales
  show "filePkeskLoop L K message pos session = on_true (filePkeskStep L K message p (p + n) session)
      (\<lambda>session. filePkeskLoop L K message (p + n) session)"
    if "readPacketHeader message pos None False = yes (PGP_TAG_PKESK, n, p, part)" "p + n \<le> length message"
    for message pos n p part L K session
    using that by (subst filePkeskLoop.simps) simp
  show "filePkeskLoop L K message pos session = yes (pos, session)" if "headStops message pos" for L K message pos session
    using that by (subst filePkeskLoop.simps) (auto simp: headStops_def split: option.splits)
  show "filePkeskStep L K (pre @ pkeskBody k a m @ post) (length pre) (length pre + length (pkeskBody k a m)) session = yes session"
    if "length k = 8" "k \<noteq> okKeyId K" for k K L pre a m post session
    by (rule filePkeskStep_reads(1) [OF pkeskBody_reads [OF that(1) refl refl] that(2)])
  show "filePkeskStep L K (pre @ pkeskBody k a m @ post) (length pre) (length pre + length (pkeskBody k a m)) None = yes (Some plain)"
    if "opensFor L K plain (k, a, m)" for L K plain k a m pre post
  proof -
    have k: "length k = 8" "k = okKeyId K"
      "pkeskStep L K (pre @ pkeskBody k a m @ post) (length pre) (length pre + length (pkeskBody k a m)) None = yes (Some plain)"
      using that unfolding opensFor_def prod.case by blast+
    show ?thesis by (rule filePkeskStep_reads(2) [OF pkeskBody_reads [OF k(1) refl refl] k(3,2)])
  qed
qed

text \<open>The first read must reach the version octet of the container, or the file is not understood.\<close>

definition reaches :: "opened \<Rightarrow> nat \<Rightarrow> bool" where
  "reaches I n \<longleftrightarrow> n \<le> 65536 \<and> (\<exists>k \<ge> n. opReads I 0 65536 = Some k)"

lemma reaches_read:
  assumes "reaches I n" "n \<le> length (opContent I)"
  obtains k where "n \<le> k" "k \<le> length (opContent I)" "readFile I 0 65536 = Some (take k (opContent I))"
proof -
  obtain k where k: "n \<le> k" "opReads I 0 65536 = Some k" "n \<le> 65536" using assms(1) by (auto simp: reaches_def)
  have cut: "take m xs = take (min m (length xs)) xs" for m and xs :: bytes by (simp add: min_def)
  show ?thesis
    using k assms(2) that [of "min (min 65536 k) (length (opContent I))"]
    by (simp add: readFile_def flip: cut)
qed

lemma seipHeaderOf_whole:
  assumes F: "F = pre @ writePacket PGP_TAG_SEIP (1 # C)" and small: "length C + 1 < 4294967296"
    and p: "p = length pre + 1 + newFormatLengthOctets (length C + 1)" and k: "p < k" "k \<le> length F"
  shows "seipHeaderOf I (take k F) (length pre) key = yes \<lparr> fhSessionKey = key, fhEncLength = length C,
      fhLeftoverCipher = take (k - p - 1) C, fhSeipPartial = False, fhSeipChunkRemaining = 0, fhSeipFinalChunk = False,
      fhPosition = k \<rparr>"
    and "drop k F = drop (k - p - 1) C" "k - p - 1 \<le> length C" "headStops (take k F) (length pre)"
    and "take k F = pre @ drop (length pre) (take k F)"
proof -
  let ?h = "(0xC0 OR PGP_TAG_SEIP) # appendNewFormatLength [] (length C + 1)"
  have F': "F = (pre @ ?h) @ 1 # C" "length (pre @ ?h) = p" using F p by (simp_all add: writePacket_eq length_newFormatLength)
  define m where "m = k - p - 1"
  have m: "k = Suc (p + m)" "m \<le> length C" using k F' by (simp_all add: m_def)
  have cut: "take k F = pre @ ?h @ (1 # take m C)" "drop k F = drop m C"
  proof -
    define A where "A = pre @ ?h"
    have "take (Suc (p + m)) (A @ 1 # C) = A @ 1 # take m C" "drop (Suc (p + m)) (A @ 1 # C) = drop m C"
      if "length A = p" for A :: bytes
      using that by simp_all
    from this [OF F'(2) [folded A_def]] show "take k F = pre @ ?h @ (1 # take m C)" "drop k F = drop m C" by (simp_all add: F'(1) m(1) A_def)
  qed
  have header: "readPacketHeader (take k F) (length pre) None True = yes (PGP_TAG_SEIP, length C + 1, p, False)"
    unfolding cut(1) using readPacketHeader_head [OF tags_small(2) small, of pre "1 # take m C" None True] p by simp
  have version: "byte_at (take k F) p = Some 1"
    unfolding cut(1) using byte_at_append [of "pre @ ?h" "1 # take m C" 0] F'(2) by simp
  have left: "drop (p + 1) (take k F) = take m C"
  proof -
    have "drop (length A + 1) (A @ 1 # take m C) = take m C" for A :: bytes by simp
    from this [of "pre @ ?h"] show ?thesis unfolding cut(1) F'(2) by simp
  qed
  have n: "size_sub (length C + 1) 1 = length C" using small by (simp add: size_sub_def)
  have "take (length C) (take m C) = take m C" using m(2) by simp
  moreover have "length (take k F) = k" "\<not> k \<le> p" using k by simp_all
  ultimately show "seipHeaderOf I (take k F) (length pre) key = yes \<lparr> fhSessionKey = key, fhEncLength = length C,
      fhLeftoverCipher = take (k - p - 1) C, fhSeipPartial = False, fhSeipChunkRemaining = 0, fhSeipFinalChunk = False,
      fhPosition = k \<rparr>"
    unfolding seipHeaderOf_def header on_true_simps prod.case version left n m_def [symmetric] bind.bind_lunit
    by (simp only: simp_thms if_False if_True)
  show "drop k F = drop (k - p - 1) C" "k - p - 1 \<le> length C" by (fact cut(2) [unfolded m_def] m(2) [unfolded m_def])+
  show "headStops (take k F) (length pre)"
    unfolding cut(1) using headStops_packet [OF tags_small(2) _ small, of pre "1 # take m C"]
    by (simp add: PGP_TAG_SEIP_def PGP_TAG_PKESK_def)
  show "take k F = pre @ drop (length pre) (take k F)" unfolding cut(1) by simp
qed

lemma parseEncryptedFileHeader_whole:
  assumes open_: "list_all2 (\<lambda>p K. opensFor L K plain p) ps Ks" "K \<in> set Ks" "distinct (map okKeyId Ks)"
    and key: "openSessionKey plain = yes key" "plain \<noteq> []"
    and F: "opContent I = pkeskSequence ps @ writePacket PGP_TAG_SEIP (1 # C)" and small: "length C + 1 < 4294967296"
    and reach: "reaches I (length (pkeskSequence ps) + newFormatLengthOctets (length C + 1) + 2)"
  obtains c H where "parseEncryptedFileHeader L K I = yes H" "fhSessionKey H = key" "fhEncLength H = length C"
    "\<not> fhSeipPartial H" "fhLeftoverCipher H = take c C" "c \<le> length C" "drop (fhPosition H) (opContent I) = drop c C"
proof -
  let ?pre = "pkeskSequence ps" and ?F = "opContent I"
  define p where "p = length ?pre + 1 + newFormatLengthOctets (length C + 1)"
  have len: "length ?F = p + 1 + length C" using F by (simp add: p_def length_writePacket)
  have reach': "reaches I (p + 1)" "p + 1 \<le> length ?F" using reach len by (simp_all add: p_def)
  obtain k where k0: "p + 1 \<le> k" "k \<le> length ?F" "readFile I 0 65536 = Some (take k ?F)"
    by (rule reaches_read [OF reach'])
  have k: "p < k" "k \<le> length ?F" "readFile I 0 65536 = Some (take k ?F)" using k0 by simp_all
  note head = seipHeaderOf_whole [OF F small p_def k(1,2)]
  have "headStops (?pre @ drop (length ?pre) (take k ?F)) (length ?pre)" using head(4) unfolding head(5) [symmetric] .
  from file_walk.finds [OF open_ this] have walk: "filePkeskLoop L K (take k ?F) 0 None = yes (length ?pre, Some plain)"
    unfolding head(5) [symmetric] .
  have "parseEncryptedFileHeader L K I = yes \<lparr> fhSessionKey = key, fhEncLength = length C,
      fhLeftoverCipher = take (k - p - 1) C, fhSeipPartial = False, fhSeipChunkRemaining = 0, fhSeipFinalChunk = False,
      fhPosition = k \<rparr>"
    unfolding parseEncryptedFileHeader_read [OF k(3)] option.case walk on_true_simps prod.case key(1) head(1)
    using key(2) by (simp only: if_False)
  then show ?thesis by (rule that) (simp_all only: file_header.select_convs head(2,3) simp_thms)
qed

section \<open>What the library must satisfy\<close>

text \<open>A cipher that works octet by octet: what it makes of a prefix is a prefix of what it makes of the whole, and it
  can be undone.\<close>

lemma cfb_prefix:
  assumes "cfb_ok L" "cfb_stream_ok L"
  shows "cfbDecrypt L key (zeros 16) (take c (cfbEncrypt L key (zeros 16) P)) = take c P"
proof -
  have "take (length (take c P)) (cfbEncrypt L key (zeros 16) (take c P @ drop c P)) = cfbEncrypt L key (zeros 16) (take c P)"
    "length (cfbEncrypt L key (zeros 16) P) = length P"
    using assms(2) unfolding cfb_stream_ok_def by blast+
  then have "take c (cfbEncrypt L key (zeros 16) P) = cfbEncrypt L key (zeros 16) (take c P)"
    by (cases "c \<le> length P") simp_all
  then show ?thesis using assms(1) by (simp add: cfb_ok_def)
qed

text \<open>A file with the container that the engine writes decrypts to what the container holds.\<close>

definition fileLib_ok :: "crypto \<Rightarrow> bool" where
  "fileLib_ok L \<longleftrightarrow> digests_ok L \<and> cfb_ok L \<and> cfb_stream_ok L"

lemma container_sealed:
  assumes "fileLib_ok L" "length r = 16" "unat tag < 64" "length body < 4294967000" "reads_ok (ssFile D)" "ssLib D = L"
    and P: "P = seipPlain L r (writePacket tag body)" "ssLength D = length P" "6 \<le> length (writePacket tag body)"
  shows "sealedAround D (cfbEncrypt L (ssKey D) (zeros 16) P) P tag body"
proof -
  have lib: "digests_ok L" "cfb_ok L" "cfb_stream_ok L" using assms(1) by (simp_all add: fileLib_ok_def)
  have "container D (cfbEncrypt L (ssKey D) (zeros 16) P) P"
    unfolding container_def using assms(5,6) P(2) cfb_prefix [OF lib(2,3)] lib(2) by (simp add: cfb_ok_def)
  moreover have "46 \<le> length P" unfolding P(1) length_seipPlain [OF lib(1) assms(2)] using P(3) by simp
  ultimately show ?thesis unfolding sealedAround_def using assms(2-4,6) lib(1) P(1) by auto
qed

lemma holds_size:
  assumes "holds Z tag body content"
  shows "unat tag < 64" "6 \<le> length (writePacket tag body)"
  using assms tags_small by (auto simp: holds_def length_writePacket literalBody_facts newFormatLengthOctets_def)

lemma reaches_less: "reaches I n \<Longrightarrow> m \<le> n \<Longrightarrow> reaches I m"
  by (auto simp: reaches_def)

lemma packet_small: "length (writePacket tag body) < 4294967000 \<Longrightarrow> length body < 4294967000"
  by (simp add: length_writePacket)

lemma sealed_file_opens:
  assumes lib: "fileLib_ok L" and r: "length r = 16" and content: "holds Z tag body content"
    and open_: "list_all2 (\<lambda>p K. opensFor L K plain p) ps Ks" "K \<in> set Ks" "distinct (map okKeyId Ks)"
    and key: "openSessionKey plain = yes key" "plain \<noteq> []"
    and F: "opContent I = pkeskSequence ps @ seipPacketOf L key r (writePacket tag body)"
    and I: "reads_ok I" "length (writePacket tag body) < 4294967000" "reaches I (length (pkeskSequence ps) + 7)"
  shows "\<exists>H. parseEncryptedFileHeader L K I = yes H \<and> decryptSeipBodyStreaming L I Z always always H = Some (Inr content)"
proof -
  let ?P = "seipPlain L r (writePacket tag body)"
  define C where "C = cfbEncrypt L key (zeros 16) ?P"
  have L: "digests_ok L" "cfb_ok L" using lib by (simp_all add: fileLib_ok_def)
  have C: "length C = length ?P" "length ?P = 40 + length (writePacket tag body)"
    using L(2) length_seipPlain [OF L(1) r, of "writePacket tag body"] by (simp_all add: C_def cfb_ok_def)
  have F': "opContent I = pkeskSequence ps @ writePacket PGP_TAG_SEIP (1 # C)" using F by (simp add: seipPacketOf_eq C_def)
  have small: "length C + 1 < 4294967296" using C I(2) by simp
  have reach: "reaches I (length (pkeskSequence ps) + newFormatLengthOctets (length C + 1) + 2)"
    using newFormatLengthOctets_le [of "length C + 1"] by (intro reaches_less [OF I(3)]) simp
  obtain c H where H: "parseEncryptedFileHeader L K I = yes H" "fhSessionKey H = key" "fhEncLength H = length C"
    "\<not> fhSeipPartial H" "fhLeftoverCipher H = take c C" "c \<le> length C" "drop (fhPosition H) (opContent I) = drop c C"
    by (rule parseEncryptedFileHeader_whole [OF open_ key F' small reach])
  let ?D = "sourceOf L I H"
  have D: "ssFile ?D = I" "ssLib ?D = L" "ssKey ?D = key" "ssLength ?D = length ?P" "\<not> ssPartial ?D"
    using H(2-4) C(1) by (simp_all add: sourceOf_def)
  have body: "unat tag < 64" "6 \<le> length (writePacket tag body)" using holds_size [OF content] by blast+
  have sealed: "sealedAround ?D C ?P tag body"
    using container_sealed [OF lib r body(1) packet_small [OF I(2)] _ D(2) refl D(4) body(2)] I(1) by (simp add: D(1,3) C_def)
  have feed: "feeds ?D (readerOf L H) (drop c C)"
    using H(3,5-7) D(1,5) by (simp add: feeds_def readerOf_def)
  have c: "c \<le> length ?P" using H(6) C(1) by simp
  from decryptSeipBodyStreaming_holds [OF sealed content H(5) c feed] H(1) show ?thesis by blast
qed

section \<open>A container in chunks\<close>

text \<open>What looking ahead for the total length needs: the file can be repositioned, and a read delivers the five octets
  that a header can have.\<close>

definition scannable :: "opened \<Rightarrow> bool" where
  "scannable I \<longleftrightarrow> opSizes I \<and> (\<forall>pos. opSeeks I pos) \<and> (\<forall>pos. \<exists>k \<ge> 5. opReads I pos 5 = Some k)"

lemma scannable_read: "scannable I \<Longrightarrow> readFile I pos 5 = Some (take 5 (drop pos (opContent I)))"
  by (auto simp: scannable_def readFile_def) (metis min_def)

lemma scanChunks_step:
  assumes "scannable I" "drop offset (opContent I) = h @ body @ rest" "h \<noteq> []" "length h \<le> 5"
    and "\<And>t j. decodeNewFormatBodyLength (Some (h @ t)) (length h + j) = yes (length h, length body, part)"
  shows "scanChunks I offset payload = (if part then scanChunks I (offset + (length h + length body)) (payload + length body)
     else yes (payload + length body))"
proof -
  have off: "offset + (length h + length body) \<le> length (opContent I)" "offset < length (opContent I)"
    using arg_cong [OF assms(2), of length] assms(3) by (auto simp flip: length_greater_0_conv)
  define t where "t = take (5 - length h) (body @ rest)"
  have bs: "readInto 5 I offset 5 = yes (h @ t)" using scannable_read [OF assms(1), of offset] assms(2,4) by (simp add: t_def)
  have dec: "decodeNewFormatBodyLength (Some ((h @ t) @ zeros (5 - length (h @ t)))) (length (h @ t)) = yes (length h, length body, part)"
    using assms(5) [of "t @ zeros (5 - length (h @ t))" "length t"] by simp
  have "opSeeks I offset" using assms(1) by (simp add: scannable_def)
  then show ?thesis
    using off assms(3) by (subst scanChunks.simps) (simp only: bs dec option.case on_true_simps prod.case append_is_Nil_conv simp_thms if_False not_le, simp)
qed

lemma scanChunks_frame:
  "scannable I \<Longrightarrow> wf_chunks chunks \<Longrightarrow> length final < 4294967296 \<Longrightarrow> drop offset (opContent I) = partialFrame chunks final @ post \<Longrightarrow>
    scanChunks I offset payload = yes (payload + length (concat (map snd chunks) @ final))"
proof (induction chunks arbitrary: offset payload)
  case Nil
  let ?h = "appendNewFormatLength [] (length final)"
  have h: "length ?h = newFormatLengthOctets (length final)" "?h \<noteq> []"
    using length_newFormatLength [of "length final"] by (auto simp: newFormatLengthOctets_def split: if_splits)
  have "scanChunks I offset payload = (if False then scanChunks I (offset + (length ?h + length final)) (payload + length final)
      else yes (payload + length final))"
    by (rule scanChunks_step [where rest = post, OF Nil(1) _ h(2)])
      (use Nil h(1) newFormatLengthOctets_le [of "length final"] decode_newFormatLength [OF Nil(3)] in simp_all)
  then show ?case by simp
next
  case (Cons kc chunks)
  obtain k c where kc: "kc = (k, c)" by (cases kc)
  let ?h = "[word_of_nat (224 + k) :: byte]"
  have k: "k < 31" "length c = 2 ^ k" "wf_chunks chunks" using Cons.prems(2) by (simp_all add: kc)
  have at: "drop offset (opContent I) = ?h @ c @ partialFrame chunks final @ post" using Cons.prems(4) by (simp add: kc)
  have "scanChunks I offset payload = (if True then scanChunks I (offset + (length ?h + length c)) (payload + length c)
      else yes (payload + length c))"
    by (rule scanChunks_step [OF Cons.prems(1) at]) (use decode_partial_octet [OF k(1)] k(2) in simp_all)
  moreover have "drop (offset + (length ?h + length c)) (opContent I) = partialFrame chunks final @ post"
    using arg_cong [OF at, of "drop (1 + length c)"] by (simp add: add.commute)
  ultimately show ?case using Cons.IH [OF Cons.prems(1) k(3) Cons.prems(3)] by (simp add: kc)
qed

lemma readPacketHeader_chunked:
  assumes "unat tag < 64" "k < 31"
  shows "readPacketHeader (pre @ (0xC0 OR tag) # word_of_nat (224 + k) # post) (length pre) e w
    = (if w then yes (tag, 2 ^ k, length pre + 2, True) else no)"
  using packet_octet_bits [OF assms(1)] partial_octet [OF assms(2)] assms(2)
  by (simp add: readPacketHeader_def readNewFormatHeader_def nth_append word_less_nat_alt Let_def)

lemma seipHeaderOf_chunked:
  assumes F: "opContent I = pre @ partialPacket PGP_TAG_SEIP ((k, 1 # c) # chunks) final"
    and wf: "wf_chunks ((k, 1 # c) # chunks)" "length final < 4294967296" and scan: "scannable I"
    and n: "length pre + 3 \<le> n" "n \<le> length (opContent I)"
  shows "seipHeaderOf I (take n (opContent I)) (length pre) key = yes \<lparr> fhSessionKey = key,
      fhEncLength = length (c @ concat (map snd chunks) @ final), fhLeftoverCipher = [], fhSeipPartial = True,
      fhSeipChunkRemaining = length c, fhSeipFinalChunk = False, fhPosition = length pre + 3 \<rparr>"
    and "drop (length pre + 3) (opContent I) = c @ partialFrame chunks final"
    and "headStops (take n (opContent I)) (length pre)" "take n (opContent I) = pre @ drop (length pre) (take n (opContent I))"
proof -
  let ?o = "word_of_nat (224 + k) :: byte"
  have k: "k < 31" "Suc (length c) = 2 ^ k" "wf_chunks chunks" using wf(1) by simp_all
  have F': "opContent I = (pre @ [0xC0 OR PGP_TAG_SEIP, ?o, 1]) @ c @ partialFrame chunks final"
    using F by (simp add: partialPacket_def)
  define m where "m = n - (length pre + 3)"
  have m: "n = length pre + 3 + m" using n(1) by (simp add: m_def)
  have cut: "take n (opContent I) = pre @ (0xC0 OR PGP_TAG_SEIP) # ?o # 1 # take m (c @ partialFrame chunks final)"
    unfolding m F' by (simp add: numeral_eq_Suc)
  have header: "readPacketHeader (take n (opContent I)) (length pre) None w = (if w then yes (PGP_TAG_SEIP, 2 ^ k, length pre + 2, True) else no)" for w
    unfolding cut by (rule readPacketHeader_chunked [OF tags_small(2) k(1)])
  have version: "byte_at (take n (opContent I)) (length pre + 2) = Some 1"
    unfolding cut using byte_at_append [of "pre @ [0xC0 OR PGP_TAG_SEIP, ?o]" "1 # take m (c @ partialFrame chunks final)" 0] by simp
  show body: "drop (length pre + 3) (opContent I) = c @ partialFrame chunks final" unfolding F' by simp
  have "drop (length pre + 2 + 2 ^ k) (opContent I) = partialFrame chunks final @ []"
    using arg_cong [OF body, of "drop (length c)"] k(2) [symmetric] by (simp add: numeral_eq_Suc add.commute)
  from scanChunks_frame [OF scan k(3) wf(2) this, of "2 ^ k"]
  have total: "scanPartialBodyTotalLength I (length pre + 2) (2 ^ k) = yes (Suc (length (c @ concat (map snd chunks) @ final)))"
    using scan by (simp add: scanPartialBodyTotalLength_def scannable_def flip: k(2))
  have len: "\<not> length (take n (opContent I)) \<le> length pre + 2" using n by simp
  have chunk: "(2 ^ k < (1 :: nat)) = False" "(Suc (length (c @ concat (map snd chunks) @ final)) < 1) = False" by simp_all
  have "opSeeks I (length pre + 2 + 1)" "(2 :: nat) ^ k - 1 = length c" using scan by (simp_all add: scannable_def flip: k(2))
  then show "seipHeaderOf I (take n (opContent I)) (length pre) key = yes \<lparr> fhSessionKey = key,
      fhEncLength = length (c @ concat (map snd chunks) @ final), fhLeftoverCipher = [], fhSeipPartial = True,
      fhSeipChunkRemaining = length c, fhSeipFinalChunk = False, fhPosition = length pre + 3 \<rparr>"
    using len unfolding seipHeaderOf_def header
    by (simp only: if_True on_true_simps prod.case version total bind.bind_lunit simp_thms if_False chunk) simp
  show "headStops (take n (opContent I)) (length pre)" unfolding headStops_def header by simp
  show "take n (opContent I) = pre @ drop (length pre) (take n (opContent I))" unfolding cut by simp
qed

lemma parseEncryptedFileHeader_chunked:
  assumes open_: "list_all2 (\<lambda>p K. opensFor L K plain p) ps Ks" "K \<in> set Ks" "distinct (map okKeyId Ks)"
    and key: "openSessionKey plain = yes key" "plain \<noteq> []"
    and F: "opContent I = pkeskSequence ps @ partialPacket PGP_TAG_SEIP ((k, 1 # c) # chunks) final"
    and wf: "wf_chunks ((k, 1 # c) # chunks)" "length final < 4294967296" and scan: "scannable I"
    and reach: "reaches I (length (pkeskSequence ps) + 3)"
  shows "parseEncryptedFileHeader L K I = yes \<lparr> fhSessionKey = key, fhEncLength = length (c @ concat (map snd chunks) @ final),
      fhLeftoverCipher = [], fhSeipPartial = True, fhSeipChunkRemaining = length c, fhSeipFinalChunk = False,
      fhPosition = length (pkeskSequence ps) + 3 \<rparr>"
proof -
  let ?pre = "pkeskSequence ps" and ?F = "opContent I"
  have "length ?pre + 3 \<le> length ?F" using F by (simp add: partialPacket_def)
  then obtain n where n: "length ?pre + 3 \<le> n" "n \<le> length ?F" "readFile I 0 65536 = Some (take n ?F)"
    by (rule reaches_read [OF reach])
  note head = seipHeaderOf_chunked [OF F wf scan n(1,2)]
  have "headStops (?pre @ drop (length ?pre) (take n ?F)) (length ?pre)" using head(3) unfolding head(4) [symmetric] .
  from file_walk.finds [OF open_ this] have walk: "filePkeskLoop L K (take n ?F) 0 None = yes (length ?pre, Some plain)"
    unfolding head(4) [symmetric] .
  show ?thesis
    unfolding parseEncryptedFileHeader_read [OF n(3)] option.case walk on_true_simps prod.case key(1) head(1)
    using key(2) by (simp only: if_False)
qed

lemma chunked_file_opens:
  assumes lib: "fileLib_ok L" and r: "length r = 16" and content: "holds Z tag body content"
    and open_: "list_all2 (\<lambda>p K. opensFor L K plain p) ps Ks" "K \<in> set Ks" "distinct (map okKeyId Ks)"
    and key: "openSessionKey plain = yes key" "plain \<noteq> []"
    and F: "opContent I = pkeskSequence ps @ partialPacket PGP_TAG_SEIP ((k, 1 # c) # chunks) final"
      "c @ concat (map snd chunks) @ final = cfbEncrypt L key (zeros 16) (seipPlain L r (writePacket tag body))"
    and wf: "wf_chunks ((k, 1 # c) # chunks)" "length final < 4294967296"
    and I: "reads_ok I" "scannable I" "length (writePacket tag body) < 4294967000" "reaches I (length (pkeskSequence ps) + 3)"
  shows "\<exists>H. parseEncryptedFileHeader L K I = yes H \<and> decryptSeipBodyStreaming L I Z always always H = Some (Inr content)"
proof -
  let ?P = "seipPlain L r (writePacket tag body)"
  define C where "C = c @ concat (map snd chunks) @ final"
  define H where "H = \<lparr> fhSessionKey = key, fhEncLength = length C, fhLeftoverCipher = [], fhSeipPartial = True,
    fhSeipChunkRemaining = length c, fhSeipFinalChunk = False, fhPosition = length (pkeskSequence ps) + 3 \<rparr>"
  have L: "digests_ok L" "cfb_ok L" using lib by (simp_all add: fileLib_ok_def)
  have C: "length C = length ?P" using L(2) by (simp only: C_def F(2) cfb_ok_def)
  have parse: "parseEncryptedFileHeader L K I = yes H"
    unfolding H_def C_def by (rule parseEncryptedFileHeader_chunked [OF open_ key F(1) wf I(2,4)])
  let ?D = "sourceOf L I H"
  have D: "ssFile ?D = I" "ssLib ?D = L" "ssKey ?D = key" "ssLength ?D = length ?P" "ssPartial ?D"
    using C by (simp_all add: sourceOf_def H_def)
  have body: "unat tag < 64" "6 \<le> length (writePacket tag body)" using holds_size [OF content] by blast+
  have sealed: "sealedAround ?D C ?P tag body"
    using container_sealed [OF lib r body(1) packet_small [OF I(3)] _ D(2) refl D(4) body(2)] I(1)
    by (simp add: D(1,3) C_def F(2))
  have at: "drop (length (pkeskSequence ps) + 3) (opContent I) = c @ partialFrame chunks final"
    using F(1) by (simp add: partialPacket_def numeral_eq_Suc)
  have "feedsChunks I (readerOf L H) (c @ concat (map snd chunks) @ final)"
    using at wf by (intro feedsChunks_more [where post = "[]"]) (simp_all add: readerOf_def H_def)
  then have feed: "feeds ?D (readerOf L H) (drop 0 C)" using D(1,5) by (simp add: feeds_def readerOf_def H_def flip: C_def)
  have "fhLeftoverCipher H = take 0 C" "0 \<le> length ?P" by (simp_all add: H_def)
  from decryptSeipBodyStreaming_holds [OF sealed content this feed] parse show ?thesis by blast
qed

end
