(* ===== verification/FileEngine.thy ===== *)
theory FileEngine
  imports FileRoundTrip
begin

unbundle bit_operations_syntax

text \<open>
  The methods on files from one engine to another: the file that the sender writes, in whatever pieces the operating
  system delivers the input, is decrypted by the receiver, and signatures of files are verified.
\<close>

section \<open>A file system without failures\<close>

text \<open>No call fails. A read of at most 64 KB delivers what it was asked for, as long as there is so much; a larger one
  delivers any number of octets but none. Paths are their own wide form.\<close>

definition disk_ok :: "file_system \<Rightarrow> bool" where
  "disk_ok E \<longleftrightarrow> (\<forall>p. fsWiden E p = Some p \<and> fsOpens E p \<and> fsSizes E p \<and> fsCreates E p \<and> fsDeletes E p)
     \<and> (\<forall>p pos. fsSeeks E p pos) \<and> (\<forall>p. fsWritable E p = always) \<and> (\<forall>p q. fsMoves E p q) \<and> fsProgress E = always
     \<and> (\<forall>p pos n. \<exists>k > 0. fsReads E p pos n = Some k \<and> (n \<le> 65536 \<longrightarrow> n \<le> k))"

definition opened_ok :: "opened \<Rightarrow> bool" where
  "opened_ok I \<longleftrightarrow> reads_ok I \<and> scannable I \<and> (\<forall>n \<le> 65536. reaches I n)"

lemma openFile_ok:
  assumes "disk_ok E" "disk p = Some content"
  obtains I where "openFile E disk p = Some I" "opContent I = content" "opSizes I" "opened_ok I"
proof -
  let ?I = "\<lparr> opContent = content, opReads = fsReads E p, opSizes = fsSizes E p, opSeeks = fsSeeks E p \<rparr>"
  have reads: "\<exists>k > 0. fsReads E p pos n = Some k \<and> (n \<le> 65536 \<longrightarrow> n \<le> k)" for pos n
    using assms(1) by (simp add: disk_ok_def)
  have "reads_ok ?I" using reads by (auto simp: reads_ok_def)
  moreover have "scannable ?I"
  proof -
    have "\<exists>k \<ge> 5. fsReads E p pos 5 = Some k" for pos using reads [of pos 5] by auto
    then show ?thesis using assms(1) by (simp add: scannable_def disk_ok_def)
  qed
  moreover have "reaches ?I n" if "n \<le> 65536" for n
    using reads [of 0 65536] that by (auto simp: reaches_def)
  ultimately show ?thesis using assms that [of ?I] by (simp add: opened_ok_def openFile_def disk_ok_def)
qed

lemma openFile_content: "openFile E disk p = Some I \<Longrightarrow> disk p = Some (opContent I)"
  by (auto simp: openFile_def split: if_splits)

text \<open>The loops that read a file get its content.\<close>

lemma readPieces_delivers: "reads_ok I \<Longrightarrow> delivers (readPieces I pos) (drop pos (opContent I))"
proof (induction I pos rule: readPieces.induct)
  case (1 I pos)
  show ?case
  proof (cases "drop pos (opContent I) = []")
    case True
    obtain k where "opReads I pos 1048576 = Some k" using "1.prems" by (auto simp: reads_ok_def)
    then show ?thesis using True by (subst readPieces.simps) (simp add: readFile_def)
  next
    case False
    obtain k where k: "opReads I pos 1048576 = Some k" "0 < k" using "1.prems" by (auto simp: reads_ok_def)
    define chunk where "chunk = take (min 1048576 k) (drop pos (opContent I))"
    have read: "readFile I pos 1048576 = Some chunk" using k(1) by (simp add: readFile_def chunk_def)
    have chunk: "chunk \<noteq> []" using False k(2) by (simp add: chunk_def)
    have "delivers (readPieces I (pos + length chunk)) (drop (pos + length chunk) (opContent I))"
      using "1.IH" [OF read chunk "1.prems"] .
    moreover have "take m xs @ drop (length (take m xs)) xs = xs" for m and xs :: bytes by (cases "m \<le> length xs") simp_all
    from this [of "min 1048576 k" "drop pos (opContent I)"]
    have "drop pos (opContent I) = chunk @ drop (pos + length chunk) (opContent I)"
      unfolding chunk_def [symmetric] by (simp add: add.commute)
    ultimately have "delivers (Some chunk # readPieces I (pos + length chunk)) (drop pos (opContent I))"
      using chunk by auto
    then show ?thesis using chunk read by (subst readPieces.simps) simp
  qed
qed

lemma readPieces_all: "opened_ok I \<Longrightarrow> delivers (readPieces I 0) (opContent I)"
  using readPieces_delivers [of I 0] by (simp add: opened_ok_def)

section \<open>What the methods do on such a file system\<close>

lemma EncryptFile_writes:
  assumes "disk_ok E" "disk p = Some content" "p \<noteq> q" "peerKeyImported A"
    and lib: "digests_ok L" "cfb_stream_ok L" "length (mdPrefix M) = 16"
    and seal: "sealed L M (recipientsOf A) (cipherOctet (symmetricCipherPreference A)) (literalPacketOf content) = Some message"
  shows "EncryptFile L M E A (Some p) (Some q) disk = (NO_ERROR, disk(q \<mapsto> message))"
proof -
  obtain I where I: "openFile E disk p = Some I" "opContent I = content" "opSizes I" "opened_ok I"
    by (rule openFile_ok [where p = p and disk = disk, OF assms(1,2)])
  have "delivers (readPieces I 0) content" using readPieces_all [OF I(4)] I(2) by simp
  from encryptFileStreaming_sealed [OF lib(1,2) _ lib(3) this, of always "recipientsOf A"] seal
  have "encryptFileStreaming L M always always (recipientsOf A) (cipherOctet (symmetricCipherPreference A))
      (length content) (readPieces I 0) = Inr message"
    by (simp add: recipientsOf_def)
  then show ?thesis
    using assms(1,3,4) I(1-3) by (simp add: EncryptFile_def convertUtf8PathToWide_def createFile_def closeWritten_def disk_ok_def)
qed

definition opensAs :: "crypto \<Rightarrow> (byte \<Rightarrow> decoder) \<Rightarrow> own_key \<Rightarrow> bytes \<Rightarrow> bytes \<Rightarrow> bool" where
  "opensAs L Z K message content \<longleftrightarrow> (\<forall>I. opContent I = message \<longrightarrow> opened_ok I \<longrightarrow>
     (\<exists>H. parseEncryptedFileHeader L K I = yes H \<and> decryptSeipBodyStreaming L I Z always always H = Some (Inr content)))"

lemma DecryptFile_reads:
  assumes "disk_ok E" "disk p = Some message" "p \<noteq> q" "p \<noteq> q @ ''.pgptmp''" "authorised L B pw"
    and opens: "opensAs L Z (firstKey B) message content"
  shows "DecryptFile L Z E B pw (Some p) (Some q) disk = Some (NO_ERROR, disk(q \<mapsto> content, q @ ''.pgptmp'' := None))"
proof -
  obtain I where I: "openFile E disk p = Some I" "opContent I = message" "opened_ok I"
    by (rule openFile_ok [where p = p and disk = disk, OF assms(1,2)])
  obtain H where "parseEncryptedFileHeader L (firstKey B) I = yes H" "decryptSeipBodyStreaming L I Z always always H = Some (Inr content)"
    using opens I(2,3) by (auto simp: opensAs_def)
  moreover have "disk(q @ ''.pgptmp'' \<mapsto> content, q := None, q \<mapsto> content, q @ ''.pgptmp'' := None)
      = disk(q \<mapsto> content, q @ ''.pgptmp'' := None)" by (auto simp: fun_eq_iff)
  ultimately show ?thesis
    using assms(1,3-5) I(1)
    by (simp add: DecryptFile_def convertUtf8PathToWide_def createFile_def closeWritten_def deleteFile_def moveFile_def
        authorised_def disk_ok_def Let_def)
qed

text \<open>The temporary file of \<open>EncryptFileCompressed\<close> is gone in the end.\<close>

lemma compressPass_packs:
  assumes "disk_ok E" "opened_ok I" "temp \<notin> held" "compressor_ok Z"
  shows "compressPass E Z I held temp disk = (Inr (length (cmWhole Z (literalPacketOf (opContent I)))),
    disk(temp \<mapsto> cmWhole Z (literalPacketOf (opContent I))))"
  using assms compressLiteralToTempFile_whole [OF assms(4) _ readPieces_all [OF assms(2)], of always]
  by (simp add: compressPass_def createFile_def openFile_def disk_ok_def)

lemma EncryptFileCompressed_writes:
  assumes E: "disk_ok E" "disk p = Some content" "p \<noteq> q" "p \<noteq> q @ ''.pgpztmp''" "peerKeyImported A"
    and lib: "digests_ok L" "cfb_stream_ok L" "length (mdPrefix M) = 16"
    and Z: "compressor_ok (Z a)" "a = 1 \<or> a = 2"
    and seal: "sealed L M (recipientsOf A) (cipherOctet (symmetricCipherPreference A))
      (writePacket PGP_TAG_COMPRESSED_DATA (a # cmWhole (Z a) (literalPacketOf content))) = Some message"
  shows "EncryptFileCompressed L M Z E A (Some p) (Some q) a disk = (NO_ERROR, disk(q \<mapsto> message, q @ ''.pgpztmp'' := None))"
proof -
  let ?temp = "q @ ''.pgpztmp''" and ?packed = "cmWhole (Z a) (literalPacketOf content)"
  obtain I where I: "openFile E disk p = Some I" "opContent I = content" "opSizes I" "opened_ok I"
    by (rule openFile_ok [where p = p and disk = disk, OF E(1,2)])
  have pass: "compressPass E (Z a) I {p} ?temp disk = (Inr (length ?packed), disk(?temp \<mapsto> ?packed))"
    using compressPass_packs [OF E(1) I(4) _ Z(1), of ?temp "{p}" disk] E(4) I(2) by simp
  let ?disk = "disk(?temp \<mapsto> ?packed, q \<mapsto> [])"
  have temp: "?disk ?temp = Some ?packed" by simp
  obtain T where T: "openFile E ?disk ?temp = Some T" "opContent T = ?packed" "opSizes T" "opened_ok T"
    by (rule openFile_ok [where p = ?temp and disk = ?disk, OF E(1) temp])
  have "delivers (readPieces T 0) ?packed" using readPieces_all [OF T(4)] T(2) by simp
  from encryptFileStreamingCompressed_sealed [OF lib(1,2) _ lib(3) this, of always "recipientsOf A"] seal
  have write_: "encryptFileStreamingCompressed L M always always (recipientsOf A) (cipherOctet (symmetricCipherPreference A))
      (length ?packed) a (readPieces T 0) = Inr message"
    by (simp add: recipientsOf_def)
  have "disk(?temp \<mapsto> ?packed, q \<mapsto> [], ?temp := None, q \<mapsto> message) = disk(q \<mapsto> message, ?temp := None)" by (auto simp: fun_eq_iff)
  then show ?thesis
    using E(1,3-5) I(1,3) Z(2) pass T(1) write_
    by (auto simp: EncryptFileCompressed_def convertUtf8PathToWide_def createFile_def closeWritten_def deleteFile_def
        disk_ok_def Let_def)
qed

section \<open>From one engine to another\<close>

lemma pkeskSequence_length:
  "list_all2 (\<lambda>p K. opensFor L K plain p) ps Ks \<Longrightarrow> length (pkeskSequence ps) \<le> 8209 * length Ks"
proof (induction ps Ks rule: list_all2_induct)
  case (Cons x ps K Ks)
  obtain k a m where x: "x = (k, a, m)" by (cases x) auto
  have "length k = 8" "length m \<le> 8193" using Cons(1) unfolding opensFor_def x prod.case by blast+
  then have "length (writePacket PGP_TAG_PKESK (pkeskBody k a m)) \<le> 8209"
    using newFormatLengthOctets_le [of "length (pkeskBody k a m)"] by (simp add: length_writePacket pkeskBody_def)
  moreover have "pkeskSequence (x # ps) = writePacket PGP_TAG_PKESK (pkeskBody k a m) @ pkeskSequence ps"
    by (simp add: pkeskSequence_def x)
  ultimately show ?case using Cons.IH by simp
qed (simp add: pkeskSequence_def)

lemma keysFor_length: "keysFor L M i Ks rcs \<Longrightarrow> length Ks = length rcs"
  by (induction L M i Ks rcs rule: keysFor.induct) auto

text \<open>\<open>DecryptFile\<close> tries the first subkey only, and reads the session-key packets from the first 64 KB of the file: the
  sender must have addressed that subkey (no later one that may be encrypted to is newer), and not too many others.\<close>

definition firstAddressed :: "32 word \<Rightarrow> engine \<Rightarrow> bool" where
  "firstAddressed now B \<longleftrightarrow> encryptable now B (hd (ownSubkeys B))
     \<and> (\<forall>k \<in> set (tl (ownSubkeys B)). encryptable now B k \<longrightarrow> skCreationTime k \<le> skCreationTime (hd (ownSubkeys B)))"

lemma firstAddressed_only:
  assumes "firstAddressed now B" "addressed now B s"
  shows "s = hd (ownSubkeys B)"
proof -
  obtain before after where b: "ownSubkeys B = before @ s # after"
    "\<forall>k \<in> set before. encryptable now B k \<longrightarrow> skCreationTime k < skCreationTime s" "encryptable now B s"
    using assms(2) unfolding addressed_def by blast
  then show ?thesis using assms(1) by (cases before) (auto simp: firstAddressed_def)
qed

lemma firstAddressed_other:
  assumes "\<not> firstAddressed now B" "addressed now B s"
  shows "s \<noteq> hd (ownSubkeys B)"
  using assms list.set_sel(2) [of "ownSubkeys B"] unfolding firstAddressed_def addressed_def
  by (metis append_is_Nil_conv list.discI list.sel(2))

definition filePeers :: "crypto \<Rightarrow> message_draws \<Rightarrow> 32 word \<Rightarrow> engine \<Rightarrow> engine \<Rightarrow> own_key list \<Rightarrow> bool" where
  "filePeers L M now A B Ks \<longleftrightarrow> correspondents L M now A B Ks \<and> cfb_stream_ok L
     \<and> firstAddressed now B \<and> length (additionalRecipients A) \<le> 6"

lemma filePeers_facts:
  assumes "filePeers L M now A B Ks"
  shows "correspondents L M now A B Ks" "digests_ok L" "cfb_stream_ok L" "length (mdPrefix M) = 16"
    "ImportPeerPublicKey L now A (Some (fst (renderOwnKeyBlocks B)))
      = Some (NO_ERROR, installPeer (fillLegacySubkey now (importedBlock B)) A)"
proof -
  have c: "correspondents L M now A B Ks" "cfb_stream_ok L" using assms by (simp_all add: filePeers_def)
  then show "correspondents L M now A B Ks" "digests_ok L" "cfb_stream_ok L" "length (mdPrefix M) = 16"
    by (simp_all add: correspondents_def messageLib_ok_def messageDraws_ok_def)
  have "lib_ok L" "reachable L B" "ownKeyGenerated B" "\<forall>uid \<in> set (ownUserIds B). length (uidText uid) < 4294967296"
    using c(1) by (simp_all add: correspondents_def)
  then show "ImportPeerPublicKey L now A (Some (fst (renderOwnKeyBlocks B)))
      = Some (NO_ERROR, installPeer (fillLegacySubkey now (importedBlock B)) A)"
    using import_exported reachable_identity_inv by blast
qed

lemma sealed_not_Nil: "sealed L M rcs cipher inner = Some message \<Longrightarrow> message \<noteq> []"
  by (auto simp: sealed_def writePacket_eq)

lemma exchange_file:
  assumes peers: "filePeers L M now A B Ks" and import: "A' = installPeer (fillLegacySubkey now (importedBlock B)) A"
    and content: "holds Z tag body content" and small: "length (writePacket tag body) < 4294967000"
  obtains packets container where "0 < length container" "length container < 4294967296"
    "sealed L M (recipientsOf A') (cipherOctet (symmetricCipherPreference A')) (writePacket tag body)
      = Some (packets @ writePacket PGP_TAG_SEIP container)"
    "opensAs L Z (firstKey B) (packets @ writePacket PGP_TAG_SEIP container) content"
    "\<And>chunks final. chunks \<noteq> [] \<Longrightarrow> wf_chunks chunks \<Longrightarrow> length final < 4294967296 \<Longrightarrow> concat (map snd chunks) @ final = container
      \<Longrightarrow> opensAs L Z (firstKey B) (packets @ partialPacket PGP_TAG_SEIP chunks final) content"
proof -
  let ?cipher = "cipherOctet (symmetricCipherPreference A')" and ?inner = "writePacket tag body"
  let ?key = "mdSessionKey M (pgpSymmetricSessionKeyLength ?cipher)" and ?K = "firstKey B"
  let ?plain = "sessionKeyPlain ?cipher ?key" and ?container = "sealedBody L M ?cipher ?inner"
  have c: "correspondents L M now A B Ks" "cfb_stream_ok L" "firstAddressed now B"
    "length (additionalRecipients A) \<le> 6"
    using peers by (simp_all add: filePeers_def firstAddressed_def)
  have lib: "lib_ok L" "sealLib_ok L" "messageDraws_ok M" "fileLib_ok L" and gen: "ownKeyGenerated B" "reachable L B"
    and rest: "keysFor L M 1 Ks (additionalRecipients A)"
    using c(1,2) messageLib_sealLib [of L] by (simp_all add: correspondents_def fileLib_ok_def messageLib_ok_def)
  obtain s where s: "addressed now B s"
    and keys: "\<And>K. standsFor B s K \<Longrightarrow> keyFor L K (hd (recipientsOf A')) (mdEphemeral M 0)
       \<and> keysFor L M 0 (K # Ks) (recipientsOf A') \<and> distinct (map okKeyId (K # Ks))"
    by (rule exchange_keys [OF c(1) import]) blast
  have "s = hd (ownSubkeys B)" using firstAddressed_only [OF c(3) s] .
  then have "standsFor B s ?K" using standsFor_first [OF reachable_identity_inv [OF gen(2) lib(1)] gen(1)] by simp
  then have all: "keysFor L M 0 (?K # Ks) (recipientsOf A')" "distinct (map okKeyId (?K # Ks))" using keys by blast+
  obtain ps where ps: "sealed L M (recipientsOf A') ?cipher ?inner = Some (pkeskSequence ps @ writePacket PGP_TAG_SEIP ?container)"
    "list_all2 (\<lambda>p K. opensFor L K ?plain p) ps (?K # Ks)" "length ?container < 4294967296"
    using sealed_shape [OF lib(2,3) all(1) small, of ?cipher] by blast
  have "length (?K # Ks) \<le> 7" using keysFor_length [OF rest] c(4) by simp
  then have head: "length (pkeskSequence ps) + 7 \<le> 65536" using pkeskSequence_length [OF ps(2)] by linarith
  have key: "length ?key = pgpSymmetricSessionKeyLength ?cipher" "length (mdPrefix M) = 16" using lib(3) by (simp_all add: messageDraws_ok_def)
  have own: "?K \<in> set (?K # Ks)" by simp
  note open_ = openSessionKey_plain [OF cipherOctet_known key(1)]
  have plain: "?plain \<noteq> []" by (simp add: sessionKeyPlain_def Let_def)
  have "opensAs L Z ?K (pkeskSequence ps @ writePacket PGP_TAG_SEIP ?container) content"
    unfolding opensAs_def
  proof (intro allI impI)
    fix I assume I: "opContent I = pkeskSequence ps @ writePacket PGP_TAG_SEIP ?container" "opened_ok I"
    show "\<exists>H. parseEncryptedFileHeader L ?K I = yes H \<and> decryptSeipBodyStreaming L I Z always always H = Some (Inr content)"
      by (rule sealed_file_opens [OF lib(4) key(2) content ps(2) own all(2) open_ plain _ _ small])
        (use I head in \<open>simp_all add: seipPacketOf_eq sealedBody_def opened_ok_def\<close>)
  qed
  moreover have "opensAs L Z ?K (pkeskSequence ps @ partialPacket PGP_TAG_SEIP chunks final) content"
    if wf: "chunks \<noteq> []" "wf_chunks chunks" "length final < 4294967296" "concat (map snd chunks) @ final = ?container" for chunks final
    unfolding opensAs_def
  proof (intro allI impI)
    fix I assume I: "opContent I = pkeskSequence ps @ partialPacket PGP_TAG_SEIP chunks final" "opened_ok I"
    obtain k c0 rest where ch: "chunks = (k, c0) # rest" using wf(1) by (cases chunks) auto
    have "c0 \<noteq> []" using wf(2) by (auto simp: ch)
    moreover have "c0 @ concat (map snd rest) @ final = 1 # cfbEncrypt L ?key (zeros 16) (seipPlain L (mdPrefix M) ?inner)"
      using wf(4) by (simp add: ch sealedBody_def)
    ultimately obtain c where c0: "c0 = 1 # c"
      "c @ concat (map snd rest) @ final = cfbEncrypt L ?key (zeros 16) (seipPlain L (mdPrefix M) ?inner)"
      by (cases c0) auto
    show "\<exists>H. parseEncryptedFileHeader L ?K I = yes H \<and> decryptSeipBodyStreaming L I Z always always H = Some (Inr content)"
      by (rule chunked_file_opens [where k = k and chunks = rest, OF lib(4) key(2) content ps(2) own all(2) open_ plain _ c0(2) _ wf(3) _ _ small])
        (use I head wf(2) in \<open>simp_all add: ch c0(1) opened_ok_def\<close>)
  qed
  moreover have "0 < length ?container" by (simp add: sealedBody_def)
  ultimately show ?thesis using that ps(1,3) by blast
qed

section \<open>Signatures of files\<close>

text \<open>\<open>SignFile\<close> signs with the master key, whatever signing subkeys there are.\<close>

definition masterSignature :: "crypto \<Rightarrow> 32 word \<Rightarrow> engine \<Rightarrow> bytes \<Rightarrow> bytes" where
  "masterSignature L t S content =
     messageSignature L t (keyAlgorithm S) (ownMasterPrivateKey S, ownEd25519PrivateKey S, ownMasterKeyId S) content"

lemma SignFile_writes:
  assumes "disk_ok E" "disk p = Some content" "p \<noteq> q" "authorised L S pw"
  shows "SignFile L t E S pw (Some p) (Some q) disk = (NO_ERROR, disk(q \<mapsto> masterSignature L t S content))"
proof -
  obtain I where I: "openFile E disk p = Some I" "opContent I = content" "opSizes I" "opened_ok I"
    by (rule openFile_ok [where p = p and disk = disk, OF assms(1,2)])
  have rs: "delivers (readPieces I 0) content" using readPieces_all [OF I(4)] I(2) by simp
  show ?thesis
    using assms(1,3,4) I(1,3) signFileStreaming_buffer [OF _ rs, of always] signEd25519FileStreaming_buffer [OF _ rs, of always]
    by (auto simp: SignFile_def convertUtf8PathToWide_def createFile_def closeWritten_def authorised_def disk_ok_def
        masterSignature_def documentSignature_def)
qed

lemma readSignatureFile_all:
  assumes "opened_ok I" "opSizes I" "length (opContent I) \<le> 65536"
  shows "readSignatureFile I = yes (opContent I)"
  using readFileExact_some [of I 0 "opContent I" "[]"] assms by (simp add: readSignatureFile_def opened_ok_def)

lemma VerifyFile_reads:
  assumes E: "disk_ok E" "disk p = Some content" "disk q = Some signature" "length signature \<le> 65536" "peerKeyImported A"
    and verdict: "if peerMasterAlgorithm A = PGP_KEY_ALGORITHM_RSA
      then \<forall>rs. delivers rs content \<longrightarrow> verifyFileStreaming L always (peerMasterPublicKey A) rs signature = Some (Inr b)
      else \<forall>rs. delivers rs content \<longrightarrow> verifyEd25519FileStreaming L always (peerEd25519PublicKey A) rs signature = Some (Inr b)"
  shows "VerifyFile L E A (Some p) (Some q) True disk = Some (NO_ERROR, Some b)"
proof -
  obtain I where I: "openFile E disk p = Some I" "opContent I = content" "opSizes I" "opened_ok I"
    by (rule openFile_ok [where p = p and disk = disk, OF E(1,2)])
  obtain J where J: "openFile E disk q = Some J" "opContent J = signature" "opSizes J" "opened_ok J"
    by (rule openFile_ok [where p = q and disk = disk, OF E(1,3)])
  have rs: "delivers (readPieces I 0) content" using readPieces_all [OF I(4)] I(2) by simp
  have sig: "readSignatureFile J = yes signature" using readSignatureFile_all [OF J(4,3)] E(4) J(2) by simp
  show ?thesis
    using E(1,5) verdict rs I(1,3) J(1) sig
    by (simp add: VerifyFile_def convertUtf8PathToWide_def disk_ok_def)
qed

lemma masterSignature_facts:
  assumes "lib_ok L" "reachable L B" "ownKeyGenerated B"
  shows "signer_ok L (keyAlgorithm B) (ownMasterPrivateKey B) (ownEd25519PrivateKey B) (ownMasterPublicKey B) (ownEd25519PublicKey B)"
    and "length (ownMasterKeyId B) = 8" and "length (masterSignature L t B content) \<le> 65536"
proof -
  let ?key = "(ownMasterPrivateKey B, ownEd25519PrivateKey B, ownMasterKeyId B)"
  have d: "digests_ok L" using assms(1) by (simp add: lib_ok_def)
  have master: "master_ok L B"
    using reachable_identity_inv [OF assms(2,1)] assms(3) by (simp add: identity_inv_def)
  then show id: "length (ownMasterKeyId B) = 8"
    using length_keyId [OF d, of "buildOwnMasterPubBody B"] by (metis master_ok_def snd_conv)
  show signer: "signer_ok L (keyAlgorithm B) (ownMasterPrivateKey B) (ownEd25519PrivateKey B) (ownMasterPublicKey B) (ownEd25519PublicKey B)"
    by (rule master_signer [OF master])
  obtain body where "masterSignature L t B content = writePacket PGP_TAG_SIGNATURE body" "length body < 60000"
    using messageSignature_packet [OF signer_signingKey [OF signer id]] unfolding masterSignature_def by blast
  then show "length (masterSignature L t B content) \<le> 65536"
    using newFormatLengthOctets_le [of "length body"] by (simp add: length_writePacket)
qed

lemma masterSignature_verifies:
  assumes "lib_ok L" "reachable L B" "ownKeyGenerated B" "delivers rs content"
  shows "if keyAlgorithm B = PGP_KEY_ALGORITHM_RSA
      then verifyFileStreaming L always (ownMasterPublicKey B) rs (masterSignature L t B content) = Some (Inr True)
        \<and> verifySignaturePacket L (ownMasterPublicKey B) content (masterSignature L t B content) = yes True
      else verifyEd25519FileStreaming L always (ownEd25519PublicKey B) rs (masterSignature L t B content) = Some (Inr True)
        \<and> verifyEd25519SignaturePacket L (ownEd25519PublicKey B) content (masterSignature L t B content) = yes True"
proof -
  note signer = masterSignature_facts(1) [OF assms(1-3)] and id = masterSignature_facts(2) [OF assms(1-3)]
  note own = messageSignature_verifies [where doc = content and now = t and st = 0, OF signer id, folded masterSignature_def]
  show "if keyAlgorithm B = PGP_KEY_ALGORITHM_RSA
      then verifyFileStreaming L always (ownMasterPublicKey B) rs (masterSignature L t B content) = Some (Inr True)
        \<and> verifySignaturePacket L (ownMasterPublicKey B) content (masterSignature L t B content) = yes True
      else verifyEd25519FileStreaming L always (ownEd25519PublicKey B) rs (masterSignature L t B content) = Some (Inr True)
        \<and> verifyEd25519SignaturePacket L (ownEd25519PublicKey B) content (masterSignature L t B content) = yes True"
  proof (cases "keyAlgorithm B = PGP_KEY_ALGORITHM_RSA")
    case True
    with own verifyFileStreaming_buffer [OF _ assms(4)] show ?thesis by simp
  next
    case False
    then have ed: "ed_sign_ok L (ownEd25519PrivateKey B)" using signer by (simp add: signer_ok_def)
    have packet: "masterSignature L t B content = buildEd25519SignaturePacket L t (ownEd25519PrivateKey B) 0 content [] (ownMasterKeyId B)"
      using False by (simp add: masterSignature_def documentSignature_def)
    obtain body parsed where body: "masterSignature L t B content = writePacket PGP_TAG_SIGNATURE body" "length body < 4294967296"
      "parseSignaturePacketBody body = Some parsed" "psSignatureType parsed = 0"
      using built_ed25519(1) [where L = L and doc = content and t = 0 and now = t and extra = "[]", OF ed _ id refl refl refl] by (auto simp: packet own_signature_def)
    have "verifyEd25519SignaturePacket L (ownEd25519PublicKey B) content (writePacket PGP_TAG_SIGNATURE body) = yes True"
      using own False by (simp add: body(1))
    from verifyEd25519FileStreaming_buffer [OF _ assms(4) body(2-4) this, of always] show ?thesis
      using own False by (simp add: body(1))
  qed
qed

section \<open>How decryption ends\<close>

text \<open>The statuses with which \<open>decryptSeipBodyStreaming\<close> fails; each step of it passes them on.\<close>

definition failure :: "status \<Rightarrow> bool" where
  "failure st \<longleftrightarrow> st \<in> {INVALID_DATA, FILE_IO_ERROR, OPERATION_CANCELLED, NOT_IMPLEMENTED}"

definition fails_well :: "'a io option \<Rightarrow> bool" where
  "fails_well r \<longleftrightarrow> (\<forall>st. r = Some (Inl st) \<longrightarrow> failure st)"

named_theorems fail_intros

lemma fails_well_intros [fail_intros]:
  "fails_well None" "fails_well (Some (Inr s))" "failure st \<Longrightarrow> fails_well (Some (Inl st))"
  "failure INVALID_DATA" "failure FILE_IO_ERROR" "failure OPERATION_CANCELLED" "failure NOT_IMPLEMENTED"
  by (simp_all add: fails_well_def failure_def)

lemma fails_well_on_read [fail_intros]: "fails_well (Some st) \<Longrightarrow> (\<And>v. fails_well (f v)) \<Longrightarrow> fails_well (on_read r st f)"
  by (auto simp: on_read_def fails_well_intros split: option.split)

lemma fails_well_bind [fail_intros]: "(\<And>v. fails_well (f v)) \<Longrightarrow> fails_well (Option.bind r f)"
  by (cases r) (simp_all add: fails_well_intros)

lemma fails_well_if [fail_intros]: "(b \<Longrightarrow> fails_well r) \<Longrightarrow> (\<not> b \<Longrightarrow> fails_well r') \<Longrightarrow> fails_well (if b then r else r')"
  by simp

lemma fails_well_then [fail_intros]:
  "fails_well r \<Longrightarrow> (\<And>s. fails_well (f s)) \<Longrightarrow>
    fails_well (case r of None \<Rightarrow> None | Some (Inl st) \<Rightarrow> Some (Inl st) | Some (Inr s) \<Rightarrow> f s)"
  by (auto simp: fails_well_def split: option.splits sum.splits)

lemma drainHeader_fails [fail_intros]: "fails_well (drainHeader d)"
  unfolding drainHeader_def Let_def case_prod_unfold by (intro fail_intros) (simp add: fails_well_intros)

lemma drainPrefix_fails [fail_intros]: "fails_well (drainPrefix d)"
  unfolding drainPrefix_def Let_def by (intro fail_intros)

lemma drainWrite_fails [fail_intros]: "fails_well (Some (drainWrite writable progress d))"
  by (auto simp: drainWrite_def fails_well_def failure_def Let_def split: option.split)

lemma drainDecoded_fails [fail_intros]: "fails_well (drainDecoded writable progress available d)"
  using drainHeader_fails drainPrefix_fails drainWrite_fails unfolding drainDecoded_def
  by (intro fails_well_on_read fails_well_intros) (auto simp: fails_well_def split: option.split sum.split prod.split bool.split)

lemma fails_well_success [fail_intros]: "fails_well r \<Longrightarrow> (\<And>s. fails_well (Some (f s))) \<Longrightarrow>
    fails_well (Option.bind r (\<lambda>result. Some (on_success result f)))"
  by (cases r) (auto simp: fails_well_def on_success_def split: sum.splits)

lemma bzip2Drain_fails [fail_intros]: "fails_well (bzip2Drain writable progress decoded d)"
proof (induction writable progress decoded d rule: bzip2Drain.induct)
  case (1 writable progress decoded d)
  show ?case
    by (subst bzip2Drain.simps) (use 1 drainDecoded_fails in \<open>auto simp: fails_well_def split: option.split sum.split\<close>)
qed

lemma bodyLoop_fails [fail_intros]:
  assumes "\<And>x piece. fails_well (act x piece)"
  shows "fails_well (bodyLoop D compressed act n s x)"
proof -
  have "\<forall>x piece. fails_well (act x piece) \<Longrightarrow> fails_well (bodyLoop D compressed act n s x)"
  proof (induction D compressed act n s x rule: bodyLoop.induct)
    case (1 D compressed act n s x)
    show ?case
      by (subst bodyLoop.simps)
        (use 1 in \<open>auto simp: on_read_def fails_well_intros split: option.split sum.split dest: spec\<close>,
         simp add: fails_well_def)
  qed
  with assms show ?thesis by blast
qed

lemma writeContent_fails [fail_intros]: "fails_well (writeContent writable progress x piece)"
  by (auto simp: writeContent_def fails_well_def failure_def split: option.split prod.split)

lemma feedDecoder_fails [fail_intros]: "fails_well (feedDecoder algorithm Z writable progress x piece)"
  using drainDecoded_fails
  by (auto simp: feedDecoder_def fails_well_def failure_def on_success_def split: option.split prod.split sum.splits bind_splits)

lemma finishDecoder_fails [fail_intros]: "fails_well (finishDecoder algorithm Z writable progress x)"
proof -
  have "fails_well (case r of None \<Rightarrow> Some (Inl INVALID_DATA) | Some decoded \<Rightarrow> drainDecoded writable progress (f decoded) d)" for r :: "bytes option" and f d
    by (cases r) (simp_all add: fails_well_intros drainDecoded_fails)
  then show ?thesis
    unfolding finishDecoder_def case_prod_unfold
    by (intro fail_intros) (simp_all add: fails_well_intros)
qed

lemma decryptCompressed_fails [fail_intros]: "fails_well (decryptCompressed D Z writable progress n s)"
  unfolding decryptCompressed_def Let_def case_prod_unfold
  by (intro fail_intros)

lemma decryptLiteral_fails [fail_intros]: "fails_well (decryptLiteral D writable progress n s)"
  unfolding decryptLiteral_def Let_def case_prod_unfold
  by (intro fail_intros)

lemma checkTrailer_fails [fail_intros]: "fails_well (checkTrailer D x)"
  unfolding checkTrailer_def case_prod_unfold
  by (intro fail_intros) (simp add: fails_well_def failure_def)

lemma decryptSeipBodyStreaming_fails:
  "decryptSeipBodyStreaming L I Z writable progress H = Some (Inl st) \<Longrightarrow> failure st"
proof -
  have "fails_well (decryptInner D Z writable progress x)" for D x
    unfolding decryptInner_def Let_def case_prod_unfold by (intro fail_intros)
  then have "fails_well (decryptSeipBodyStreaming L I Z writable progress H)"
    unfolding decryptSeipBodyStreaming_def Let_def by (intro fail_intros)
  then show "decryptSeipBodyStreaming L I Z writable progress H = Some (Inl st) \<Longrightarrow> failure st" by (simp add: fails_well_def)
qed


section \<open>Properties\<close>

text \<open>A library whose compressor keeps everything back until the end, and a file system on which all goes well.\<close>

definition sample_compressor :: "byte \<Rightarrow> compressor" where
  "sample_compressor a = \<lparr> cmSoFar = \<lambda>x. [], cmWhole = deflate sample_lib \<rparr>"

definition sample_decoder :: "byte \<Rightarrow> decoder" where
  "sample_decoder a = \<lparr> dcSoFar = \<lambda>x. Some [], dcWhole = inflateRaw sample_lib \<rparr>"

definition sample_files :: file_system where
  "sample_files = \<lparr> fsWiden = Some, fsOpens = \<lambda>p. True, fsSizes = \<lambda>p. True, fsSeeks = \<lambda>p pos. True,
     fsReads = \<lambda>p pos n. Some (if n \<le> 65536 then n + 1 else 1), fsCreates = \<lambda>p. True, fsWritable = \<lambda>p. always,
     fsDeletes = \<lambda>p. True, fsMoves = \<lambda>p q. True, fsUnfinished = \<lambda>p. [], fsProgress = always \<rparr>"

lemma sample_files_ok: "disk_ok sample_files"
  by (simp add: disk_ok_def sample_files_def)

lemma sample_filePeers: "filePeers sample_lib sample_message_draws 0 sample_engine sample_engine []"
proof -
  have one: "length (ownSubkeys sample_engine) = 1" using arg_cong [OF sample_keyIds(2), of length] by simp
  then have "tl (ownSubkeys sample_engine) = []" by (cases "ownSubkeys sample_engine") auto
  moreover have "keysFor sample_lib sample_message_draws 1 [] (additionalRecipients sample_engine)"
    using sample_correspondents by (simp add: correspondents_def)
  then have "additionalRecipients sample_engine = []" by (cases "additionalRecipients sample_engine") simp_all
  moreover have "\<exists>k \<in> set (ownSubkeys sample_engine). encryptable 0 sample_engine k"
    using sample_correspondents by (simp add: correspondents_def)
  then have "encryptable 0 sample_engine (hd (ownSubkeys sample_engine))"
    using one by (cases "ownSubkeys sample_engine") auto
  ultimately show ?thesis using sample_correspondents sample_lib_stream by (simp add: filePeers_def firstAddressed_def)
qed

lemma sample_exchange:
  obtains message where "\<And>disk' r. disk' ''b'' = Some message \<Longrightarrow> ''b'' \<noteq> r \<Longrightarrow> ''b'' \<noteq> r @ ''.pgptmp'' \<Longrightarrow>
      DecryptFile sample_lib Z sample_files sample_engine (Some [112, 119]) (Some ''b'') (Some r) disk'
        = Some (NO_ERROR, disk'(r \<mapsto> [104, 105], r @ ''.pgptmp'' := None))"
proof -
  have "holds Z PGP_TAG_LITERAL_DATA (literalBody [104, 105]) [104, 105]" by (simp add: holds_def)
  moreover have "length (writePacket PGP_TAG_LITERAL_DATA (literalBody [104, 105])) < 4294967000"
    by (simp add: length_writePacket literalBody_facts newFormatLengthOctets_def)
  ultimately obtain message where "opensAs sample_lib Z (firstKey sample_engine) message [104, 105]"
    by (rule exchange_file [OF sample_filePeers refl]) blast
  then show ?thesis
    using that DecryptFile_reads [OF sample_files_ok _ _ _ sample_authorised] by blast
qed

text \<open>C4: One engine exports its public key block, another imports it and encrypts a file to it: the owner decrypts the file with
  its password to the same content, whatever the pieces in which the operating system delivers both files; the temporary file is gone and
  no other file has changed. The encrypted file is a message that the owner also decrypts in memory. The owner is as for a message in memory (a subkey of it may be encrypted to, and no two key IDs are
  equal); besides, the sender addresses the owner's first subkey, which is the only one that \<open>DecryptFile\<close> tries: it may be
  encrypted to, and no later one that may be is newer; and there are at most six additional recipients, as only the first
  64 KB of the file are searched for session keys. The content is
  shorter than 4294960000 octets.\<close>

theorem file_reaches_its_owner:
  assumes "filePeers L M now A B Ks" "authorised L B pw" "disk_ok E" "disk p = Some content" "p \<noteq> q"
    and small: "length content < 4294960000"
  shows "\<exists>A' message. ImportPeerPublicKey L now A (Some (fst (renderOwnKeyBlocks B))) = Some (NO_ERROR, A')
    \<and> EncryptFile L M E A' (Some p) (Some q) disk = (NO_ERROR, disk(q \<mapsto> message))
    \<and> (\<forall>Z disk' r. disk' q = Some message \<and> q \<noteq> r \<and> q \<noteq> r @ ''.pgptmp'' \<longrightarrow>
          DecryptFile L Z E B pw (Some q) (Some r) disk' = Some (NO_ERROR, disk'(r \<mapsto> content, r @ ''.pgptmp'' := None)))
    \<and> (\<forall>buffer. DecryptBuffer L B pw (Some message) True buffer = copyOut 0 buffer content)"
proof -
  let ?A' = "installPeer (fillLegacySubkey now (importedBlock B)) A" and ?inner = "writePacket PGP_TAG_LITERAL_DATA (literalBody content)"
  note c = filePeers_facts [OF assms(1)]
  have lit: "literalPacketOf content = ?inner" by (rule literalBody_facts(4))
  have "length ?inner = 1 + newFormatLengthOctets (6 + length content) + (6 + length content)"
    by (simp add: length_writePacket literalBody_facts)
  then have inner: "length ?inner < 4294967000" using small newFormatLengthOctets_le [of "6 + length content"] by linarith
  have content: "holds Z PGP_TAG_LITERAL_DATA (literalBody content) content" for Z using small by (simp add: holds_def)
  have "openPlain L (seipPlain L (mdPrefix M) ?inner) False = yes (content, None)"
    using openPlain_literal [of L "mdPrefix M" content False] c(2,4) small by (simp add: lit)
  from exchange_opens_sealed [OF c(1) refl inner this] obtain message where
    m: "sealed L M (recipientsOf ?A') (cipherOctet (symmetricCipherPreference ?A')) ?inner = Some message"
      "parseAndDecryptMessageWithAnyOwnSubkey L B message False = yes (content, None)" by blast
  have opens: "opensAs L Z (firstKey B) message content" for Z
    by (rule exchange_file [OF assms(1) refl content [of Z] inner]) (use m(1) in simp)
  have "peerKeyImported ?A'" using import_knowsMaster [of now B A] by (simp add: knowsMaster_def)
  then have "EncryptFile L M E ?A' (Some p) (Some q) disk = (NO_ERROR, disk(q \<mapsto> message))"
    using EncryptFile_writes [where p = p and disk = disk, OF assms(3-5) _ c(2,3,4)] m(1) by (simp add: lit)
  moreover have "DecryptBuffer L B pw (Some message) True buffer = copyOut 0 buffer content" for buffer
    using m(2) assms(2) sealed_not_Nil [OF m(1)] by (simp add: DecryptBuffer_def decryptForCaller_def authorised_def has_text_def)
  ultimately show ?thesis
    using c(5) DecryptFile_reads [OF assms(3) _ _ _ assms(2) opens]
    by (intro exI [of _ ?A'] exI [of _ message]) blast
qed

lemma file_reaches_its_owner_witness:
  "\<exists>message. snd (the (DecryptFile sample_lib sample_decoder sample_files sample_engine (Some [112, 119]) (Some ''b'') (Some ''c'')
     [''b'' \<mapsto> message])) ''c'' = Some [104, 105]"
proof -
  from file_reaches_its_owner [OF sample_filePeers sample_authorised sample_files_ok, of "[''a'' \<mapsto> [104, 105]]" "''a''" "[104, 105]" "''b''"]
  obtain message where "\<forall>Z disk' r. disk' ''b'' = Some message \<and> ''b'' \<noteq> r \<and> ''b'' \<noteq> r @ ''.pgptmp'' \<longrightarrow>
      DecryptFile sample_lib Z sample_files sample_engine (Some [112, 119]) (Some ''b'') (Some r) disk'
        = Some (NO_ERROR, disk'(r \<mapsto> [104, 105], r @ ''.pgptmp'' := None))" by auto
  from this [rule_format, of "[''b'' \<mapsto> message]" "''c''" sample_decoder] show ?thesis by (intro exI [of _ message]) simp
qed


text \<open>C5: The same for a file that is compressed on its way, with ZIP or ZLIB: the compressor may put out
  its data whenever it likes, and the decompressor too, as long as in the end the one undoes the other. Both temporary files are gone. As before, the sender must address the owner's
  first subkey (it may be encrypted to, and no later one that may be is newer), there are at most six additional recipients, no two
  key IDs are equal, and the sizes fit the format.\<close>

theorem compressed_file_reaches_its_owner:
  assumes "filePeers L M now A B Ks" "authorised L B pw" "disk_ok E" "disk p = Some content" "p \<noteq> q" "p \<noteq> q @ ''.pgpztmp''"
    and small: "length content < 4294967000" "length packed < 4294960000" and Z: "compressor_ok (Zc a)" "a = 1 \<or> a = 2"
    and packed: "cmWhole (Zc a) (literalPacketOf content) = packed" "3 \<le> length packed"
      "decodes (Zd a) packed (literalPacketOf content)"
  shows "\<exists>A' message. ImportPeerPublicKey L now A (Some (fst (renderOwnKeyBlocks B))) = Some (NO_ERROR, A')
    \<and> EncryptFileCompressed L M Zc E A' (Some p) (Some q) a disk = (NO_ERROR, disk(q \<mapsto> message, q @ ''.pgpztmp'' := None))
    \<and> (\<forall>disk' r. disk' q = Some message \<and> q \<noteq> r \<and> q \<noteq> r @ ''.pgptmp'' \<longrightarrow>
          DecryptFile L Zd E B pw (Some q) (Some r) disk' = Some (NO_ERROR, disk'(r \<mapsto> content, r @ ''.pgptmp'' := None)))"
proof -
  let ?A' = "installPeer (fillLegacySubkey now (importedBlock B)) A" and ?inner = "writePacket PGP_TAG_COMPRESSED_DATA (a # packed)"
  note c = filePeers_facts [OF assms(1)]
  have inner: "length ?inner < 4294967000"
    using small(2) newFormatLengthOctets_le [of "Suc (length packed)"] by (simp add: length_writePacket)
  have "unpacks Zd a packed (literalPacketOf content)" using Z(2) packed(3) by (auto simp: unpacks_def decoderFor_def)
  then have content: "holds Zd PGP_TAG_COMPRESSED_DATA (a # packed) content" using small(1) packed(2) by (simp add: holds_def)
  obtain message where m: "sealed L M (recipientsOf ?A') (cipherOctet (symmetricCipherPreference ?A')) ?inner = Some message"
    "opensAs L Zd (firstKey B) message content"
    by (rule exchange_file [OF assms(1) refl content inner]) blast
  have "peerKeyImported ?A'" using import_knowsMaster [of now B A] by (simp add: knowsMaster_def)
  then have "EncryptFileCompressed L M Zc E ?A' (Some p) (Some q) a disk = (NO_ERROR, disk(q \<mapsto> message, q @ ''.pgpztmp'' := None))"
    using EncryptFileCompressed_writes [where p = p and disk = disk and Z = Zc and a = a, OF assms(3-6) _ c(2,3,4) Z] m(1) packed(1) by simp
  then show ?thesis
    using c(5) DecryptFile_reads [OF assms(3) _ _ _ assms(2) m(2)]
    by (intro exI [of _ ?A'] exI [of _ message]) blast
qed

lemma compressed_file_reaches_its_owner_witness:
  "\<exists>message. snd (the (DecryptFile sample_lib sample_decoder sample_files sample_engine (Some [112, 119]) (Some ''b'') (Some ''c'')
     [''b'' \<mapsto> message])) ''c'' = Some [104, 105]"
proof -
  let ?packed = "literalPacketOf [104, 105]"
  have Z: "compressor_ok (sample_compressor 1)" "cmWhole (sample_compressor 1) ?packed = ?packed"
    by (simp_all add: sample_compressor_def compressor_ok_def sample_deflate)
  have "inflateRaw sample_lib ?packed = Some ?packed"
    using sample_lib_crypt_ok(2) sample_deflate by (simp add: deflate_ok_def)
  then have D: "decodes (sample_decoder 1) ?packed ?packed"
    by (auto simp: decodes_def sample_decoder_def mono_def intro!: exI [of _ "\<lambda>k. 0"])
  have len: "length ?packed < 4294960000" "3 \<le> length ?packed"
    by (simp_all add: literalPacketOf_def length_writePacket newFormatLengthOctets_def appendBigEndian32_def)
  from compressed_file_reaches_its_owner [where disk = "[''a'' \<mapsto> [104, 105]]" and p = "''a''" and q = "''b''" and content = "[104, 105]"
        and Zc = sample_compressor and Zd = sample_decoder and a = 1,
      OF sample_filePeers sample_authorised sample_files_ok _ _ _ _ len(1) Z(1) _ Z(2) len(2) D]
  obtain message where "\<forall>disk' r. disk' ''b'' = Some message \<and> ''b'' \<noteq> r \<and> ''b'' \<noteq> r @ ''.pgptmp'' \<longrightarrow>
      DecryptFile sample_lib sample_decoder sample_files sample_engine (Some [112, 119]) (Some ''b'') (Some r) disk'
        = Some (NO_ERROR, disk'(r \<mapsto> [104, 105], r @ ''.pgptmp'' := None))" by auto
  from this [rule_format, of "[''b'' \<mapsto> message]" "''c''"] show ?thesis by (intro exI [of _ message]) simp
qed

text \<open>C6: GnuPG writes a long container in chunks of partial body lengths. However the container of an encrypted
  file is cut into chunks, the owner decrypts it to the same content. As before, the sender must address the owner's first subkey
  (it may be encrypted to, and no later one that may be is newer), there are at most six additional recipients, no two key IDs
  are equal, and the content is shorter than 4294960000 octets.\<close>

theorem file_in_chunks_reaches_its_owner:
  assumes "filePeers L M now A B Ks" "authorised L B pw" "disk_ok E" "disk p = Some content" "p \<noteq> q"
    and small: "length content < 4294960000"
  shows "\<exists>A' packets container. ImportPeerPublicKey L now A (Some (fst (renderOwnKeyBlocks B))) = Some (NO_ERROR, A')
    \<and> EncryptFile L M E A' (Some p) (Some q) disk = (NO_ERROR, disk(q \<mapsto> packets @ writePacket PGP_TAG_SEIP container))
    \<and> 0 < length container \<and> length container < 4294967296
    \<and> (\<forall>chunks final disk' r. chunks \<noteq> [] \<and> wf_chunks chunks \<and> length final < 4294967296 \<and> concat (map snd chunks) @ final = container
        \<and> disk' q = Some (packets @ partialPacket PGP_TAG_SEIP chunks final) \<and> q \<noteq> r \<and> q \<noteq> r @ ''.pgptmp'' \<longrightarrow>
          DecryptFile L Z E B pw (Some q) (Some r) disk' = Some (NO_ERROR, disk'(r \<mapsto> content, r @ ''.pgptmp'' := None)))"
proof -
  let ?A' = "installPeer (fillLegacySubkey now (importedBlock B)) A" and ?inner = "writePacket PGP_TAG_LITERAL_DATA (literalBody content)"
  note c = filePeers_facts [OF assms(1)]
  have lit: "literalPacketOf content = ?inner" by (rule literalBody_facts(4))
  have "length ?inner = 1 + newFormatLengthOctets (6 + length content) + (6 + length content)"
    by (simp add: length_writePacket literalBody_facts)
  then have inner: "length ?inner < 4294967000" using small newFormatLengthOctets_le [of "6 + length content"] by linarith
  have content: "holds Z PGP_TAG_LITERAL_DATA (literalBody content) content" using small by (simp add: holds_def)
  obtain packets container where size: "0 < length container" "length container < 4294967296"
    and m: "sealed L M (recipientsOf ?A') (cipherOctet (symmetricCipherPreference ?A')) ?inner = Some (packets @ writePacket PGP_TAG_SEIP container)"
    and opens: "\<And>chunks final. chunks \<noteq> [] \<Longrightarrow> wf_chunks chunks \<Longrightarrow> length final < 4294967296 \<Longrightarrow> concat (map snd chunks) @ final = container
      \<Longrightarrow> opensAs L Z (firstKey B) (packets @ partialPacket PGP_TAG_SEIP chunks final) content"
    by (rule exchange_file [OF assms(1) refl content inner]) (rule that; assumption)
  have "peerKeyImported ?A'" using import_knowsMaster [of now B A] by (simp add: knowsMaster_def)
  then have written: "EncryptFile L M E ?A' (Some p) (Some q) disk = (NO_ERROR, disk(q \<mapsto> packets @ writePacket PGP_TAG_SEIP container))"
    using EncryptFile_writes [where p = p and disk = disk, OF assms(3-5) _ c(2,3,4)] m(1) by (simp add: lit)
  have step: "DecryptFile L Z E B pw (Some q) (Some r) disk' = Some (NO_ERROR, disk'(r \<mapsto> content, r @ ''.pgptmp'' := None))"
    if "chunks \<noteq> []" "wf_chunks chunks" "length final < 4294967296" "concat (map snd chunks) @ final = container"
      "disk' q = Some (packets @ partialPacket PGP_TAG_SEIP chunks final)" "q \<noteq> r" "q \<noteq> r @ ''.pgptmp''" for chunks final disk' r
    by (rule DecryptFile_reads [where p = q and disk = disk', OF assms(3) that(5-7) assms(2) opens [OF that(1-4)]])
  have "\<forall>chunks final disk' r. chunks \<noteq> [] \<and> wf_chunks chunks \<and> length final < 4294967296 \<and> concat (map snd chunks) @ final = container
        \<and> disk' q = Some (packets @ partialPacket PGP_TAG_SEIP chunks final) \<and> q \<noteq> r \<and> q \<noteq> r @ ''.pgptmp'' \<longrightarrow>
          DecryptFile L Z E B pw (Some q) (Some r) disk' = Some (NO_ERROR, disk'(r \<mapsto> content, r @ ''.pgptmp'' := None))"
    by (intro allI impI, elim conjE) (rule step)
  with c(5) written size show ?thesis by blast
qed

lemma file_in_chunks_reaches_its_owner_witness:
  "\<exists>A' packets container. EncryptFile sample_lib sample_message_draws sample_files A' (Some ''a'') (Some ''b'') [''a'' \<mapsto> [104, 105]]
      = (NO_ERROR, [''a'' \<mapsto> [104, 105], ''b'' \<mapsto> packets @ writePacket PGP_TAG_SEIP container])
    \<and> snd (the (DecryptFile sample_lib sample_decoder sample_files sample_engine (Some [112, 119]) (Some ''b'') (Some ''c'')
          [''b'' \<mapsto> packets @ partialPacket PGP_TAG_SEIP [(0, take 1 container)] (drop 1 container)])) ''c'' = Some [104, 105]"
proof -
  from file_in_chunks_reaches_its_owner [where Z = sample_decoder,
      OF sample_filePeers sample_authorised sample_files_ok, of "[''a'' \<mapsto> [104, 105]]" "''a''" "[104, 105]" "''b''"]
  obtain A' packets container where
    A': "EncryptFile sample_lib sample_message_draws sample_files A' (Some ''a'') (Some ''b'') [''a'' \<mapsto> [104, 105]]
      = (NO_ERROR, [''a'' \<mapsto> [104, 105], ''b'' \<mapsto> packets @ writePacket PGP_TAG_SEIP container])"
    and size: "0 < length container" "length container < 4294967296"
    and opens: "\<forall>chunks final disk' r. chunks \<noteq> [] \<and> wf_chunks chunks \<and> length final < 4294967296 \<and> concat (map snd chunks) @ final = container
        \<and> disk' ''b'' = Some (packets @ partialPacket PGP_TAG_SEIP chunks final) \<and> ''b'' \<noteq> r \<and> ''b'' \<noteq> r @ ''.pgptmp'' \<longrightarrow>
          DecryptFile sample_lib sample_decoder sample_files sample_engine (Some [112, 119]) (Some ''b'') (Some r) disk'
            = Some (NO_ERROR, disk'(r \<mapsto> [104, 105], r @ ''.pgptmp'' := None))" by auto
  have "length (take 1 container) = 1" using size(1) by (cases container) simp_all
  then have "snd (the (DecryptFile sample_lib sample_decoder sample_files sample_engine (Some [112, 119]) (Some ''b'') (Some ''c'')
      [''b'' \<mapsto> packets @ partialPacket PGP_TAG_SEIP [(0, take 1 container)] (drop 1 container)])) ''c'' = Some [104, 105]"
    using opens [rule_format, of "[(0, take 1 container)]" "drop 1 container"
        "[''b'' \<mapsto> packets @ partialPacket PGP_TAG_SEIP [(0, take 1 container)] (drop 1 container)]" "''c''"] size(2)
    by simp
  with A' show ?thesis by blast
qed

text \<open>C30: A file compressed with ZIP and encrypted is octet for octet the message that \<open>EncryptBuffer\<close>
  makes of the same content, when the compressor gives in pieces what it gives at once.\<close>

theorem compressed_file_is_the_message_of_a_buffer:
  assumes "disk_ok E" "disk p = Some content" "p \<noteq> q" "p \<noteq> q @ ''.pgpztmp''" "peerKeyImported A"
    and "digests_ok L" "cfb_stream_ok L" "length (mdPrefix M) = 16"
    and "compressor_ok (Z 1)" "\<And>x. cmWhole (Z 1) x = deflate L x" "length content < 2147483648"
  shows "case buildEncryptedMessageMultiRecipient L M (recipientsOf A) (cipherOctet (symmetricCipherPreference A)) content of
      None \<Rightarrow> EncryptBuffer L M A (Some content) (int (length content)) True buffer = Some (refused UNEXPECTED_ERROR)
    | Some message \<Rightarrow> EncryptBuffer L M A (Some content) (int (length content)) True buffer
          = copyOut (length (recipientsOf A) * 2) buffer message
        \<and> EncryptFileCompressed L M Z E A (Some p) (Some q) 1 disk = (NO_ERROR, disk(q \<mapsto> message, q @ ''.pgpztmp'' := None))"
proof (cases "buildEncryptedMessageMultiRecipient L M (recipientsOf A) (cipherOctet (symmetricCipherPreference A)) content")
  case None
  then show ?thesis using assms(5) by (simp add: EncryptBuffer_def)
next
  case (Some message)
  have "compressedPacketOf L (literalPacketOf content) = writePacket PGP_TAG_COMPRESSED_DATA (1 # cmWhole (Z 1) (literalPacketOf content))"
    by (simp add: compressedPacketOf_def appendAll_def assms(10))
  then have "sealed L M (recipientsOf A) (cipherOctet (symmetricCipherPreference A))
      (writePacket PGP_TAG_COMPRESSED_DATA (1 # cmWhole (Z 1) (literalPacketOf content))) = Some message"
    using Some by (simp add: buildEncryptedMessageMultiRecipient_def recipientsOf_def sealMessage_sealed)
  from EncryptFileCompressed_writes [where p = p and disk = disk and Z = Z and a = 1, OF assms(1-9) _ this] show ?thesis
    using Some assms(5) by (simp add: EncryptBuffer_def)
qed

lemma compressed_file_is_the_message_of_a_buffer_witness:
  "\<exists>A :: engine. peerKeyImported A \<and> (case buildEncryptedMessageMultiRecipient sample_lib sample_message_draws (recipientsOf A)
      (cipherOctet (symmetricCipherPreference A)) [104, 105] of
      None \<Rightarrow> EncryptBuffer sample_lib sample_message_draws A (Some [104, 105]) 2 True None = Some (refused UNEXPECTED_ERROR)
    | Some message \<Rightarrow> EncryptBuffer sample_lib sample_message_draws A (Some [104, 105]) 2 True None
          = copyOut (length (recipientsOf A) * 2) None message
        \<and> EncryptFileCompressed sample_lib sample_message_draws sample_compressor sample_files A (Some ''a'') (Some ''b'') 1 [''a'' \<mapsto> [104, 105]]
          = (NO_ERROR, ([''a'' \<mapsto> [104, 105], ''b'' \<mapsto> message])(''b'' @ ''.pgpztmp'' := None)))"
proof -
  obtain A :: engine where A: "peerKeyImported A" using import_knowsMaster [of 0 sample_engine newEngine] unfolding knowsMaster_def by blast
  have lib: "digests_ok sample_lib" "cfb_stream_ok sample_lib" "length (mdPrefix sample_message_draws) = 16"
    using filePeers_facts [OF sample_filePeers] by blast+
  have Z: "compressor_ok (sample_compressor 1)" "cmWhole (sample_compressor 1) x = deflate sample_lib x" for x
    by (simp_all add: sample_compressor_def compressor_ok_def)
  have size: "int (length [104 :: byte, 105]) = 2" by simp
  note same = compressed_file_is_the_message_of_a_buffer [where disk = "[''a'' \<mapsto> [104, 105]]" and p = "''a''" and q = "''b''"
      and content = "[104, 105]" and Z = sample_compressor and buffer = None, OF sample_files_ok _ _ _ A lib Z, unfolded size]
  have "''a'' \<noteq> ''b''" "''a'' \<noteq> ''b'' @ ''.pgpztmp''" "length [104 :: byte, 105] < 2147483648" by simp_all
  from A same [OF _ this] show ?thesis by (intro exI [of _ A] conjI) simp_all
qed

text \<open>C7: A file that an engine signs with its password is found valid by \<open>VerifyFile\<close> of every engine that has
  imported its exported public block, whatever the life of the signer before and whatever the pieces in which the file is read; and
  the signature file holds a detached signature of the content by the master key that is also valid in memory.\<close>

theorem file_signature_is_verified:
  assumes "lib_ok L" "reachable L B" "authorised L B pw" "\<forall>uid \<in> set (ownUserIds B). length (uidText uid) < 4294967296"
    and "disk_ok E" "disk p = Some content" "p \<noteq> q"
  shows "\<exists>A' signature. ImportPeerPublicKey L now A (Some (fst (renderOwnKeyBlocks B))) = Some (NO_ERROR, A')
    \<and> SignFile L t E B pw (Some p) (Some q) disk = (NO_ERROR, disk(q \<mapsto> signature))
    \<and> VerifyFile L E A' (Some p) (Some q) True (disk(q \<mapsto> signature)) = Some (NO_ERROR, Some True)
    \<and> (if keyAlgorithm B = PGP_KEY_ALGORITHM_RSA then verifySignaturePacket L (ownMasterPublicKey B) content signature
       else verifyEd25519SignaturePacket L (ownEd25519PublicKey B) content signature) = yes True"
proof -
  let ?A' = "installPeer (fillLegacySubkey now (importedBlock B)) A" and ?sig = "masterSignature L t B content"
  have gen: "ownKeyGenerated B" using assms(3) by (simp add: authorised_def mayUseIdentity_def)
  note import = import_exported [OF assms(1) reachable_identity_inv [OF assms(2,1)] gen assms(4), of now A]
  note knows = import_knowsMaster [of now B A]
  note verifies = masterSignature_verifies [OF assms(1,2) gen] and short = masterSignature_facts(3) [OF assms(1,2) gen]
  have files: "(disk(q \<mapsto> ?sig)) p = Some content" "(disk(q \<mapsto> ?sig)) q = Some ?sig" using assms(6,7) by simp_all
  have "VerifyFile L E ?A' (Some p) (Some q) True (disk(q \<mapsto> ?sig)) = Some (NO_ERROR, Some True)"
    by (rule VerifyFile_reads [OF assms(5) files short])
      (use knows verifies in \<open>auto simp: knowsMaster_def\<close>)
  moreover have "delivers (if content = [] then [] else [Some content]) content" by simp
  note verifies [OF this, of t]
  ultimately show ?thesis
    using import SignFile_writes [where p = p and disk = disk, OF assms(5-7,3), of t]
    by (intro exI [of _ ?A'] exI [of _ ?sig]) (auto split: if_splits)
qed

lemma file_signature_is_verified_witness:
  "\<exists>A' signature. SignFile sample_lib 0 sample_files sample_engine (Some [112, 119]) (Some ''a'') (Some ''s'') [''a'' \<mapsto> [104, 105]]
      = (NO_ERROR, [''a'' \<mapsto> [104, 105], ''s'' \<mapsto> signature])
    \<and> VerifyFile sample_lib sample_files A' (Some ''a'') (Some ''s'') True [''a'' \<mapsto> [104, 105], ''s'' \<mapsto> signature] = Some (NO_ERROR, Some True)"
proof -
  have "\<forall>uid \<in> set (ownUserIds sample_engine). length (uidText uid) < 4294967296"
    using sample_correspondents by (simp add: correspondents_def)
  from file_signature_is_verified [where disk = "[''a'' \<mapsto> [104, 105]]" and p = "''a''" and q = "''s''" and content = "[104, 105]"
      and now = 0 and t = 0 and A = newEngine, OF sample_lib_lib_ok sample_engine_reachable sample_authorised this sample_files_ok]
  show ?thesis by fastforce
qed

text \<open>\<open>DecryptFile\<close> deletes an existing output file before it moves the decrypted one to its place: when the
  move fails, the caller gets an error, and both the old file and the new content are gone. It could leave the deletion to the
  move, which it asks to replace an existing file.\<close>

theorem lost_output_of_a_failed_move:
  assumes "DecryptFile L Z (E\<lparr>fsMoves := \<lambda>a b. True\<rparr>) S pw (Some p) (Some q) disk = Some (NO_ERROR, disk')"
    and "fsWiden E p = Some p'" "fsWiden E q = Some q'" "p' \<noteq> q'" "p' \<noteq> q' @ ''.pgptmp''" "fsDeletes E q'" "fsDeletes E (q' @ ''.pgptmp'')"
  shows "DecryptFile L Z (E\<lparr>fsMoves := \<lambda>a b. False\<rparr>) S pw (Some p) (Some q) disk
    = Some (FILE_IO_ERROR, disk(q' := None, q' @ ''.pgptmp'' := None))"
proof -
  let ?E = "\<lambda>m. E\<lparr>fsMoves := m\<rparr>"
  have same: "openFile (?E m) disk p' = openFile E disk p'" for m by (simp add: openFile_def)
  have failed: "decryptSeipBodyStreaming L I Z w r H \<noteq> Some (Inl NO_ERROR)" for I w r H
    using decryptSeipBodyStreaming_fails [of L I Z w r H NO_ERROR] by (auto simp: failure_def)
  obtain I H out where I: "mayUseIdentity S pw" "passwordMatches L S pw" "openFile E disk p' = Some I"
    "parseEncryptedFileHeader L (firstKey S) I = yes H" "fsCreates E (q' @ ''.pgptmp'')"
    "decryptSeipBodyStreaming L I Z (fsWritable E (q' @ ''.pgptmp'')) (fsProgress E) H = Some (Inr out)"
    using assms(1-5) failed
    by (auto simp: DecryptFile_def convertUtf8PathToWide_def createFile_def closeWritten_def deleteFile_def moveFile_def Let_def
        same on_read_def split: if_splits option.splits sum.splits prod.splits bind_splits)
  then show ?thesis
    using assms(2-7)
    by (auto simp: DecryptFile_def convertUtf8PathToWide_def createFile_def closeWritten_def deleteFile_def moveFile_def Let_def same fun_eq_iff)
qed

lemma lost_output_of_a_failed_move_witness:
  "\<exists>message. DecryptFile sample_lib sample_decoder (sample_files\<lparr>fsMoves := \<lambda>a b. False\<rparr>) sample_engine (Some [112, 119])
      (Some ''b'') (Some ''c'') [''b'' \<mapsto> message, ''c'' \<mapsto> [1, 2, 3]] = Some (FILE_IO_ERROR, [''b'' \<mapsto> message])"
proof -
  have same: "sample_files\<lparr>fsMoves := \<lambda>a b. True\<rparr> = sample_files" by (simp add: sample_files_def)
  obtain message where "\<And>disk' r. disk' ''b'' = Some message \<Longrightarrow> ''b'' \<noteq> r \<Longrightarrow> ''b'' \<noteq> r @ ''.pgptmp'' \<Longrightarrow>
      DecryptFile sample_lib sample_decoder sample_files sample_engine (Some [112, 119]) (Some ''b'') (Some r) disk'
        = Some (NO_ERROR, disk'(r \<mapsto> [104, 105], r @ ''.pgptmp'' := None))"
    by (rule sample_exchange [of sample_decoder]) blast
  from this [of "[''b'' \<mapsto> message, ''c'' \<mapsto> [1, 2, 3]]" "''c''"]
  have "DecryptFile sample_lib sample_decoder (sample_files\<lparr>fsMoves := \<lambda>a b. True\<rparr>) sample_engine (Some [112, 119]) (Some ''b'') (Some ''c'')
      [''b'' \<mapsto> message, ''c'' \<mapsto> [1, 2, 3]]
      = Some (NO_ERROR, [''b'' \<mapsto> message, ''c'' \<mapsto> [1, 2, 3]](''c'' \<mapsto> [104, 105], ''c'' @ ''.pgptmp'' := None))"
    by (simp add: same)
  from lost_output_of_a_failed_move [OF this, of "''b''" "''c''"] show ?thesis
    by (intro exI [of _ message]) (simp add: sample_files_def fun_eq_iff)
qed

text \<open>When \<open>DecryptFile\<close> fails for anything but the operating system (a wrong password, a
  damaged message, a cancelled run), an existing output file is as it was, like every other file, and what was decrypted so far is
  deleted.\<close>

theorem failed_decryption_touches_no_other_file:
  assumes "DecryptFile L Z E S pw (Some p) (Some q) disk = Some (st, disk')" "st \<noteq> NO_ERROR" "st \<noteq> FILE_IO_ERROR"
  shows "disk' = disk \<or> (\<exists>temp. map_option (\<lambda>w. w @ ''.pgptmp'') (fsWiden E q) = Some temp
    \<and> disk' = disk(temp := (if fsDeletes E temp then None else Some (fsUnfinished E temp))))"
  using assms
  by (auto simp: DecryptFile_def convertUtf8PathToWide_def createFile_def closeWritten_def deleteFile_def moveFile_def Let_def
      on_read_def split: if_splits option.splits sum.splits prod.splits bind_splits)

lemma failed_decryption_touches_no_other_file_witness:
  "\<exists>st disk'. DecryptFile sample_lib sample_decoder sample_files sample_engine (Some [112, 119]) (Some ''b'') (Some ''c'')
      [''b'' \<mapsto> [], ''c'' \<mapsto> [1, 2, 3]] = Some (st, disk') \<and> disk' ''c'' = Some [1, 2, 3]"
proof -
  have "openFile sample_files [''b'' \<mapsto> [], ''c'' \<mapsto> [1, 2, 3]] ''b''
      = Some \<lparr> opContent = [], opReads = fsReads sample_files ''b'', opSizes = True, opSeeks = \<lambda>pos. True \<rparr>" (is "_ = Some ?I")
    by (simp add: openFile_def sample_files_def)
  moreover have "parseEncryptedFileHeader sample_lib (firstKey sample_engine) ?I = no"
    by (simp add: parseEncryptedFileHeader_def readFile_def sample_files_def filePkeskLoop.simps [of _ _ "[]"] readPacketHeader_def)
  ultimately have "DecryptFile sample_lib sample_decoder sample_files sample_engine (Some [112, 119]) (Some ''b'') (Some ''c'')
      [''b'' \<mapsto> [], ''c'' \<mapsto> [1, 2, 3]] = Some (INVALID_DATA, [''b'' \<mapsto> [], ''c'' \<mapsto> [1, 2, 3]])" (is "?run = _")
    using sample_authorised
    by (simp add: DecryptFile_def convertUtf8PathToWide_def authorised_def sample_files_def on_read_def)
  from this failed_decryption_touches_no_other_file [OF this]
  show ?thesis by (auto simp: sample_files_def)
qed

text \<open>The header of the literal packet that \<open>EncryptFile\<close> writes for a file of 4 GiB or more is the one of a
  shorter file: its length has 32 bits, and the excess is not refused.\<close>

theorem large_file_length_wraps:
  assumes "8384 \<le> k"
  shows "literalHeaderOf (4294967296 + k - 6) = literalHeaderOf (k - 6)"
  using literalHeaderOf_wraps [OF assms] by simp

lemma large_file_length_wraps_witness: "literalHeaderOf 4294977290 = literalHeaderOf 9994"
  using large_file_length_wraps [of 10000] by simp

end
