(* ===== verification/FileSafety.thy ===== *)
theory FileSafety
  imports FileEngine
begin

unbundle bit_operations_syntax

text \<open>
  What holds for every file, however damaged: the methods that read files stay inside their buffers (collection
  \<open>ub_free\<close>), and what \<open>DecryptFile\<close> puts in place has passed the checksum of its container.
\<close>

section \<open>Sequences that stay in bounds\<close>

lemma safe_then:
  "safe r \<Longrightarrow> (\<And>s. r = Some (Inr s) \<Longrightarrow> safe (f s)) \<Longrightarrow>
    safe (case r of None \<Rightarrow> None | Some (Inl st) \<Rightarrow> Some (Inl st) | Some (Inr s) \<Rightarrow> f s)"
  by (auto simp: safe_def split: option.splits sum.splits)

lemma safe_prod: "(\<And>a b. p = (a, b) \<Longrightarrow> safe (f a b)) \<Longrightarrow> safe (case p of (a, b) \<Rightarrow> f a b)"
  by (cases p) simp

lemmas safe_rules = safe_on_true safe_on_read safe_bind safe_then safe_if safe_prod safe_Some

section \<open>The session key\<close>

lemma scanChunks_safe [ub_free]: "safe (scanChunks I offset payload)"
proof (induction I offset payload rule: scanChunks.induct)
  case (1 I offset payload)
  have "safe (decodeNewFormatBodyLength (Some (bs @ zeros (5 - length bs))) (length bs))" for bs :: bytes
    by (rule decodeNewFormatBodyLength_safe) simp
  with 1 show ?case
    by (subst scanChunks.simps) (intro safe_rules; auto)
qed

lemma ecdhSessionKey_safe [ub_free]: "e \<le> length m \<Longrightarrow> safe (ecdhSessionKey L K m p e)"
  using readNativePointMpi_safe [of m p]
  by (auto simp: ecdhSessionKey_def aesKeyUnwrap_def Let_def safe_def split: option.splits prod.splits bind_splits)

lemma rsaSessionKey_safe [ub_free]: "e \<le> length m \<Longrightarrow> safe (rsaSessionKey L K m p e)"
  by (auto simp: rsaSessionKey_def readBigEndian16_def Let_def intro!: safe_bind split: option.split)

lemma filePkeskStep_safe [ub_free]: "e \<le> length buf \<Longrightarrow> safe (filePkeskStep L K buf p e session)"
  unfolding filePkeskStep_def
  by (intro safe_rules ecdhSessionKey_safe rsaSessionKey_safe) (auto simp: readBigEndian16_def intro!: safe_bind)

lemma filePkeskLoop_safe [ub_free]: "safe (filePkeskLoop L K buf pos session)"
proof (induction L K buf pos session rule: filePkeskLoop.induct)
  case (1 L K buf pos session)
  consider "readPacketHeader buf pos None False = no"
    | tag n p part where "readPacketHeader buf pos None False = yes (tag, n, p, part)"
    using readPacketHeader_safe [of buf pos None False] by (cases rule: safe_cases) (auto)
  then show ?case
  proof cases
    case 2
    then show ?thesis
      using 1 [OF 2 refl refl refl refl] by (subst filePkeskLoop.simps) (auto intro!: safe_on_true filePkeskStep_safe)
  qed (simp add: filePkeskLoop.simps)
qed

lemma openSessionKey_safe [ub_free]: "plain \<noteq> [] \<Longrightarrow> safe (openSessionKey plain)"
  unfolding openSessionKey_def Let_def by (intro safe_rules) auto

lemma seipHeaderOf_safe [ub_free]: "safe (seipHeaderOf I buf pos key)"
  unfolding seipHeaderOf_def scanPartialBodyTotalLength_def
  by (intro safe_rules readPacketHeader_safe scanChunks_safe) auto

lemma parseEncryptedFileHeader_safe [ub_free]: "safe (parseEncryptedFileHeader L K I)"
  unfolding parseEncryptedFileHeader_def
  by (intro safe_on_true) (auto split: option.split intro!: safe_on_true filePkeskLoop_safe openSessionKey_safe seipHeaderOf_safe)

section \<open>The decrypted stream\<close>

lemma cipherChunkHeader_safe [ub_free]: "safe (cipherChunkHeader I pos)"
  unfolding cipherChunkHeader_def Let_def
  by (intro safe_rules decodeNewFormatBodyLength_safe)
    (auto simp: newFormatBodyLengthHeaderSize_def readInto_yes dest!: readFileExact_length split: if_splits)

lemma nextCipherChunk_safe [ub_free]: "safe (nextCipherChunk I s)"
  unfolding nextCipherChunk_once by (intro safe_rules cipherChunkHeader_safe)

lemma fillPending_safe [ub_free]: "safe (fillPending D s)"
  unfolding fillPending_def
  by (intro safe_rules nextCipherChunk_safe) auto

lemma ensurePending_safe [ub_free]: "safe (ensurePending D n s)"
proof (induction D n s rule: ensurePending.induct)
  case (1 D n s)
  then show ?case by (subst ensurePending.simps) (auto intro!: safe_on_true fillPending_safe)
qed

lemma ensurePending_enough: "ensurePending D n s = yes s' \<Longrightarrow> n \<le> length (srPending s')"
  using ensurePending_left by blast

lemma consumeForHash_safe [ub_free]: "n \<le> length (srPending s) \<Longrightarrow> safe (consumeForHash D n s)"
  by (simp add: consumeForHash_def Let_def)

lemma skipOctets_safe [ub_free]: "safe (skipOctets D n s)"
  unfolding skipOctets_def
  by (intro safe_on_true ensurePending_safe) (auto simp: consumeForHash_def Let_def dest: ensurePending_enough)

lemma innerChunkHeader_safe [ub_free]: "safe (innerChunkHeader D s)"
  unfolding innerChunkHeader_def Let_def
  by (intro safe_rules ensurePending_safe decodeNewFormatBodyLength_safe consumeForHash_safe)
    (auto dest!: ensurePending_enough decodeNewFormatBodyLength_size)

lemma ensureInnerChunk_safe [ub_free]: "safe (ensureInnerChunk D s)"
  unfolding ensureInnerChunk_once by (intro safe_rules innerChunkHeader_safe)

lemma bodyStep_safe [ub_free]: "safe (bodyStep D compressed n s)"
  unfolding bodyStep_def Let_def
  by (intro safe_rules ensureInnerChunk_safe ensurePending_safe consumeForHash_safe) (auto simp: takeNow_def Let_def)

lemma bodyLoop_safe:
  assumes "\<And>x piece. safe (act x piece)"
  shows "safe (bodyLoop D compressed act n s x)"
proof -
  have "\<forall>x piece. safe (act x piece) \<Longrightarrow> safe (bodyLoop D compressed act n s x)"
  proof (induction D compressed act n s x rule: bodyLoop.induct)
    case (1 D compressed act n s x)
    show ?case
      by (subst bodyLoop.simps) (intro safe_rules bodyStep_safe; use 1 in auto)
  qed
  with assms show ?thesis by blast
qed

lemma writeContent_safe [ub_free]: "safe (writeContent writable progress x piece)"
  by (simp add: writeContent_def split: prod.split)

lemma decryptLiteral_safe [ub_free]: "safe (decryptLiteral D writable progress n s)"
  unfolding decryptLiteral_def Let_def
  by (intro safe_rules ensurePending_safe skipOctets_safe bodyLoop_safe writeContent_safe)
    (auto dest: ensurePending_enough)

section \<open>Decompression\<close>

lemma drainFramed_safe [ub_free]: "safe (drainFramed d)"
  using dechunkPartialBody_total [of "drRaw d" "drChunkRemaining d" "drFinalChunk d" "drDecoded d"]
  by (auto simp: drainFramed_def)

lemma drainTake_safe [ub_free]: "safe (drainTake available d)"
  by (simp add: drainTake_def drainFramed_safe)

lemma drainHeader_safe [ub_free]: "safe (drainHeader d)"
  unfolding drainHeader_def Let_def
  by (intro safe_rules readPacketHeader_safe drainFramed_safe) (auto)

lemma drainPrefix_safe [ub_free]: "safe (drainPrefix d)"
  unfolding drainPrefix_def Let_def by (intro safe_rules) auto

lemma safe_more:
  assumes "safe r" "\<And>d. safe (f d)"
  shows "safe (case r of None \<Rightarrow> None | Some (Inl st) \<Rightarrow> Some (Inl st) | Some (Inr (False, d)) \<Rightarrow> Some (Inr d)
    | Some (Inr (True, d)) \<Rightarrow> f d)"
  using assms by (auto simp: safe_def split: option.split sum.split prod.split bool.split)

lemma safe_map_option [simp]: "safe (map_option f r) \<longleftrightarrow> safe r"
  by (simp add: safe_def)

lemma drainDecoded_safe [ub_free]: "safe (drainDecoded writable progress available d)"
  unfolding drainDecoded_def
  by (intro safe_on_read drainTake_safe safe_more drainHeader_safe drainPrefix_safe safe_Some)

lemma feedDecoder_safe [ub_free]: "safe (feedDecoder algorithm Z writable progress x piece)"
  unfolding feedDecoder_def
  by (auto split: option.split prod.split intro!: safe_bind drainDecoded_safe)

lemma bzip2Drain_safe [ub_free]: "safe (bzip2Drain writable progress decoded d)"
proof (induction writable progress decoded d rule: bzip2Drain.induct)
  case (1 writable progress decoded d)
  then show ?case by (subst bzip2Drain.simps) (intro safe_rules drainDecoded_safe; auto)
qed

lemma finishDecoder_safe [ub_free]: "safe (finishDecoder algorithm Z writable progress x)"
  unfolding finishDecoder_def
  by (intro safe_rules bzip2DecompressBuffer_safe bzip2Drain_safe)
    (auto split: option.split intro: drainDecoded_safe)

lemma decryptCompressed_safe [ub_free]: "safe (decryptCompressed D Z writable progress n s)"
  unfolding decryptCompressed_def Let_def
  by (intro safe_rules ensurePending_safe consumeForHash_safe bodyLoop_safe feedDecoder_safe finishDecoder_safe)
    (auto dest: ensurePending_enough)

section \<open>The whole container\<close>

lemma probeHeader_safe [ub_free]: "safe (probeHeader D sizes s)"
proof (induction sizes arbitrary: s)
  case (Cons k sizes)
  have "safe (case readPacketHeader (take k (srPending s)) 0 None True of None \<Rightarrow> None
      | Some None \<Rightarrow> probeHeader D sizes s | Some (Some header) \<Rightarrow> yes (header, s))" for s
    using readPacketHeader_safe [of "take k (srPending s)" 0 None True] Cons by (auto simp: safe_def split: option.split)
  then show ?case by (simp add: safe_on_true ensurePending_safe)
qed simp

lemma probeHeader_header:
  "probeHeader D sizes s = yes ((tag, n, k, part), s') \<Longrightarrow> 0 < k \<and> k \<le> length (srPending s')"
proof (induction sizes arbitrary: s)
  case (Cons m sizes)
  then show ?case by (fastforce simp: on_true_eq_yes dest: readPacketHeader_pos split: option.splits)
qed simp

lemma checkTrailer_safe [ub_free]: "safe (checkTrailer D x)"
  unfolding checkTrailer_def
  by (intro safe_rules ensurePending_safe consumeForHash_safe) (auto dest: ensurePending_enough)

lemma decryptInner_safe:
  "0 < k \<Longrightarrow> k \<le> length (srPending s) \<Longrightarrow> safe (decryptInner D Z writable progress ((tag, n, k, part), s))"
  unfolding decryptInner_def Let_def prod.case
  by (intro safe_rules consumeForHash_safe decryptCompressed_safe decryptLiteral_safe checkTrailer_safe) auto

lemma decryptSeipBodyStreaming_safe [ub_free]: "safe (decryptSeipBodyStreaming L I Z writable progress H)"
proof -
  have "safe (decryptInner D Z writable progress v)" if "probeHeader D sizes s = yes v" for D sizes s v
    using probeHeader_header [of D sizes s] decryptInner_safe that by (cases v) auto
  then show ?thesis
    unfolding decryptSeipBodyStreaming_def Let_def by (intro safe_rules skipOctets_safe probeHeader_safe)
qed

section \<open>Signatures\<close>

lemma verifyFile_safe [ub_free]:
  "safe (verifyFileStreaming L progress key rs packet)" "safe (verifyEd25519FileStreaming L progress point rs packet)"
  unfolding verifyFileStreaming_def verifyEd25519FileStreaming_def Let_def
  by (intro safe_rules readPacketHeader_safe parseSignaturePacketBody_safe; auto dest: readPacketHeader_pos)+

lemma readSignatureFile_safe [ub_free]: "safe (readSignatureFile I)"
  by (simp add: readSignatureFile_def Let_def)

section \<open>Only what the checksum covers\<close>

text \<open>CFB decryption works octet by octet, and forward.\<close>

definition cfb_open_ok :: "crypto \<Rightarrow> bool" where
  "cfb_open_ok L \<longleftrightarrow> (\<forall>k iv c d. take (length c) (cfbDecrypt L k iv (c @ d)) = cfbDecrypt L k iv c
     \<and> length (cfbDecrypt L k iv c) = length c)"

lemma decryptNext_opens:
  "cfb_open_ok L \<Longrightarrow> cfbDecrypt L key (zeros 16) (c @ d) = cfbDecrypt L key (zeros 16) c @ decryptNext L key c d"
  unfolding cfb_open_ok_def decryptNext_def
  by (metis append_take_drop_id length_append length_drop add_diff_cancel_left' take_all order_refl)

text \<open>
  Where the octets of a container stand in its file. In a body in chunks, \<open>chunkOctets content start n c p m f\<close>: behind
  \<open>start\<close>, in a first chunk of \<open>n\<close> octets and those that follow it, the octets \<open>c\<close> of the body lead to the position \<open>p\<close>, where
  \<open>m\<close> octets are left of a chunk, the last one if \<open>f\<close>.
\<close>

inductive chunkOctets :: "bytes \<Rightarrow> nat \<Rightarrow> nat \<Rightarrow> bytes \<Rightarrow> nat \<Rightarrow> nat \<Rightarrow> bool \<Rightarrow> bool" for content start n where
  chunk_start: "chunkOctets content start n [] start n False"
| chunk_octets: "chunkOctets content start n c p m f \<Longrightarrow> k \<le> m \<Longrightarrow> p + k \<le> length content
    \<Longrightarrow> chunkOctets content start n (c @ take k (drop p content)) (p + k) (m - k) f"
| chunk_header: "chunkOctets content start n c p 0 False
    \<Longrightarrow> decodeNewFormatBodyLength (Some (drop p content)) (length content - p) = yes (k, m, part)
    \<Longrightarrow> chunkOctets content start n c (p + k) m (\<not> part)"

text \<open>The first octets of a container of \<open>n\<close> octets from \<open>start\<close> on, or of one in chunks (\<open>part\<close>), the first of \<open>n\<close> octets.\<close>

definition containerOctets :: "bytes \<Rightarrow> nat \<Rightarrow> nat \<Rightarrow> bool \<Rightarrow> bytes \<Rightarrow> bool" where
  "containerOctets content start n part c \<longleftrightarrow>
     (if part then \<exists>p m f. chunkOctets content start n c p m f else length c \<le> n \<and> c = take (length c) (drop start content))"

lemma chunkOctets_take: "chunkOctets content start n c p m f \<Longrightarrow> \<exists>p m f. chunkOctets content start n (take j c) p m f"
proof (induction rule: chunkOctets.induct)
  case chunk_start
  have "chunkOctets content start n (take j []) start n False" by (simp add: chunkOctets.chunk_start)
  then show ?case by blast
next
  case (chunk_octets c p m f k)
  show ?case
  proof (cases "j \<le> length c")
    case False
    have "chunkOctets content start n (c @ take (min k (j - length c)) (drop p content)) (p + min k (j - length c))
      (m - min k (j - length c)) f"
      by (rule chunkOctets.chunk_octets) (use chunk_octets.hyps in auto)
    moreover have "take j (c @ take k (drop p content)) = c @ take (min k (j - length c)) (drop p content)"
      using False by (simp add: min.commute)
    ultimately show ?thesis by metis
  qed (use chunk_octets.IH in simp)
qed

lemma containerOctets_take: "containerOctets content start n part c \<Longrightarrow> containerOctets content start n part (take j c)"
  by (auto simp: containerOctets_def chunkOctets_take min_def intro: order_trans) (metis min.commute min_def take_take)

text \<open>What the reader has read stands there, and its position is behind it.\<close>

definition placed :: "nat \<times> nat \<Rightarrow> seip_source \<Rightarrow> seip_reader \<Rightarrow> bool" where
  "placed B D s \<longleftrightarrow>
     (if ssPartial D
      then chunkOctets (opContent (ssFile D)) (fst B) (snd B) (srCipher s) (srPos s) (srChunkRemaining s) (srFinalChunk s)
      else srCipher s = take (length (srCipher s)) (drop (fst B) (opContent (ssFile D)))
        \<and> (srCipherRemaining s \<noteq> 0 \<longrightarrow> srPos s = fst B + length (srCipher s)))"

text \<open>What the reader has handed on is \<open>seen\<close>: it and the waiting octets are the decryption of what has been read, and
  the checksum has taken \<open>seen\<close> up to its own place.\<close>

definition follows :: "nat \<times> nat \<Rightarrow> seip_source \<Rightarrow> seip_reader \<Rightarrow> bytes \<Rightarrow> bool" where
  "follows B D s seen \<longleftrightarrow> cfbDecrypt (ssLib D) (ssKey D) (zeros 16) (srCipher s) = seen @ srPending s
     \<and> srStreamPos s = length seen \<and> srHashed s = take (ssLength D - 20) seen
     \<and> length (srCipher s) + srCipherRemaining s = ssLength D \<and> placed B D s"

definition goesOn :: "seip_source \<Rightarrow> seip_reader \<Rightarrow> seip_reader \<Rightarrow> bool" where
  "goesOn D s s' \<longleftrightarrow> (\<forall>B seen. follows B D s seen \<longrightarrow> (\<exists>t. follows B D s' (seen @ t)))"

named_theorems going \<open>operations of the reader that keep its variables consistent\<close>

lemma goesOn_refl [simp]: "goesOn D s s"
  unfolding goesOn_def by (metis append_Nil2)

lemma goesOn_trans: "goesOn D s t \<Longrightarrow> goesOn D t u \<Longrightarrow> goesOn D s u"
  unfolding goesOn_def by (metis append_assoc)

lemma follows_inner [simp]:
  "follows B D (s\<lparr>srInnerRemaining := n\<rparr>) seen = follows B D s seen" "follows B D (s\<lparr>srInnerFinal := b\<rparr>) seen = follows B D s seen"
  "follows B D (s\<lparr>srInnerPartial := b\<rparr>) seen = follows B D s seen"
  by (simp_all add: follows_def placed_def)

lemma goesOn_inner [simp]:
  "goesOn D s (s'\<lparr>srInnerRemaining := n\<rparr>) = goesOn D s s'" "goesOn D s (s'\<lparr>srInnerFinal := b\<rparr>) = goesOn D s s'"
  "goesOn D (s\<lparr>srInnerRemaining := n\<rparr>) s' = goesOn D s s'" "goesOn D (s\<lparr>srInnerFinal := b\<rparr>) s' = goesOn D s s'"
  "goesOn D (s\<lparr>srInnerPartial := b\<rparr>) s' = goesOn D s s'"
  by (simp_all add: goesOn_def)

lemma decode_in_front:
  assumes "decodeNewFormatBodyLength (Some (h @ zs)) (length h) = yes (k, n, part)" "length h \<le> j"
  shows "decodeNewFormatBodyLength (Some (h @ xs)) j = yes (k, n, part)"
proof -
  obtain x y where h: "h = x # y" using assms(1) by (cases h) (auto simp: decodeNewFormatBodyLength_def)
  show ?thesis using assms
    by (cases y) (auto simp: h decodeNewFormatBodyLength_def byte_at_Some bind_eq_Some_conv nth_append split: if_splits)
qed

lemma cipherChunkHeader_octets:
  assumes "cipherChunkHeader I pos = yes (k, n, part)"
  shows "decodeNewFormatBodyLength (Some (drop pos (opContent I))) (length (opContent I) - pos) = yes (k, n, part)"
proof -
  obtain x rest size where r: "readFileExact I pos 1 = Some [x]" "k = newFormatBodyLengthHeaderSize x"
    "(if k > 1 then readFileExact I (pos + 1) (k - 1) else Some []) = Some rest"
    "decodeNewFormatBodyLength (Some ([x] @ rest @ zeros (5 - k))) k = yes (size, n, part)"
    using assms readFileExact_length [of I pos 1]
    by (fastforce simp: cipherChunkHeader_def on_true_eq_yes readInto_yes bind_eq_Some_conv Let_def byte_at_Some
        length_Suc_conv split: if_splits)
  let ?file = "drop pos (opContent I)"
  have size: "size = k" using decodeNewFormatBodyLength_size [OF r(4)] r(2) by simp
  have x: "take 1 ?file = [x]" using readFileExact_octets [OF r(1)] by simp
  have rest: "rest = take (k - 1) (drop 1 ?file)" "length rest = k - 1" "0 < k"
    using r(2,3) readFileExact_octets [of I "pos + 1" "k - 1" rest] readFileExact_length [of I "pos + 1" "k - 1" rest]
    by (auto simp: add.commute newFormatBodyLengthHeaderSize_def split: if_splits)
  obtain y where y: "?file = x # y" using x by (cases ?file) auto
  have whole: "?file = ([x] @ rest) @ drop (k - 1) y" "length ([x] @ rest) = k" using rest y by auto
  have "length ([x] @ rest) \<le> length (opContent I) - pos" using arg_cong [OF whole(1), of length] by simp
  from decode_in_front [OF r(4) [folded append_assoc whole(2)] this, of "drop (k - 1) y"] whole size show ?thesis by simp
qed

lemma nextCipherChunk_follows:
  assumes "nextCipherChunk (ssFile D) s = yes s'" "ssPartial D" "follows B D s seen"
  shows "follows B D s' seen"
proof (cases "srChunkRemaining s = 0")
  case True
  with assms(1) obtain k n part where step: "cipherChunkHeader (ssFile D) (srPos s) = yes (k, n, part)" "\<not> srFinalChunk s"
    "s' = s\<lparr>srPos := srPos s + k, srChunkRemaining := n, srFinalChunk := \<not> part\<rparr>"
    by (auto simp: nextCipherChunk_once on_true_eq_yes split: if_splits)
  have "chunkOctets (opContent (ssFile D)) (fst B) (snd B) (srCipher s) (srPos s) 0 False"
    using assms(2,3) True step(2) by (simp add: follows_def placed_def)
  from chunkOctets.chunk_header [OF this cipherChunkHeader_octets [OF step(1)]] assms(2,3) show ?thesis
    by (simp add: follows_def placed_def step(3))
qed (use assms in \<open>simp add: nextCipherChunk.simps\<close>)

lemma readFile_octets:
  assumes "readFile I pos n = Some bs" "bs \<noteq> []"
  shows "bs = take (length bs) (drop pos (opContent I))" "length bs \<le> n" "pos + length bs \<le> length (opContent I)"
proof -
  obtain k where k: "bs = take k (drop pos (opContent I))" using assms(1) by (auto simp: readFile_def)
  then show "bs = take (length bs) (drop pos (opContent I))" by (metis length_take min.commute take_all_iff take_take nat_le_linear min_def)
  show "length bs \<le> n" by (rule readFile_length [OF assms(1)])
  have "length bs \<le> length (opContent I) - pos" "0 < length bs" using assms(2) by (simp_all add: k)
  then show "pos + length bs \<le> length (opContent I)" by linarith
qed

lemma placed_read:
  assumes "placed B D t" "readFile (ssFile D) (srPos t) (min (readCeiling D t) k) = Some bs" "bs \<noteq> []"
  shows "placed B D (t\<lparr>srPos := srPos t + length bs, srCipherRemaining := srCipherRemaining t - length bs,
      srChunkRemaining := (if ssPartial D then srChunkRemaining t - length bs else srChunkRemaining t),
      srPending := pending, srCipher := srCipher t @ bs\<rparr>)"
proof -
  note bs = readFile_octets [OF assms(2,3)]
  then have le: "length bs \<le> readCeiling D t" by simp
  show ?thesis
  proof (cases "ssPartial D")
    case True
    have "chunkOctets (opContent (ssFile D)) (fst B) (snd B) (srCipher t @ take (length bs) (drop (srPos t) (opContent (ssFile D))))
      (srPos t + length bs) (srChunkRemaining t - length bs) (srFinalChunk t)"
      by (rule chunkOctets.chunk_octets) (use assms(1) True le bs in \<open>simp_all add: placed_def readCeiling_def\<close>)
    with bs True show ?thesis by (simp add: placed_def)
  next
    case False
    have "srCipherRemaining t \<noteq> 0" using le False assms(3) by (cases bs) (auto simp: readCeiling_def)
    with assms(1) False have pos: "srPos t = fst B + length (srCipher t)"
      and c: "srCipher t = take (length (srCipher t)) (drop (fst B) (opContent (ssFile D)))" by (simp_all add: placed_def)
    have eq: "srCipher t @ bs = take (length (srCipher t) + length bs) (drop (fst B) (opContent (ssFile D)))"
      using bs c unfolding take_add pos by (metis add.commute drop_drop)
    define C where "C = srCipher t @ bs"
    have len: "length C = length (srCipher t) + length bs" by (simp add: C_def)
    have C: "C = take (length C) (drop (fst B) (opContent (ssFile D)))" unfolding len using eq by (simp only: C_def)
    show ?thesis using False pos len by (simp add: placed_def flip: C_def) (simp flip: len C)
  qed
qed

lemma fillPending_follows:
  assumes "cfb_open_ok (ssLib D)" "fillPending D s = yes s'" "follows B D s seen"
  shows "follows B D s' seen"
proof -
  obtain t bs where t: "(if ssPartial D then nextCipherChunk (ssFile D) s else yes s) = yes t" "bs \<noteq> []"
    "readFile (ssFile D) (srPos t) (min (readCeiling D t) PGP_FILE_CHUNK_SIZE) = Some bs"
    "s' = t\<lparr>srPos := srPos t + length bs, srCipherRemaining := srCipherRemaining t - length bs,
           srChunkRemaining := (if ssPartial D then srChunkRemaining t - length bs else srChunkRemaining t),
           srPending := srPending t @ decryptNext (ssLib D) (ssKey D) (srCipher t) bs, srCipher := srCipher t @ bs\<rparr>"
    using assms(2) by (auto simp: fillPending_def on_true_eq_yes readInto_yes split: option.splits if_splits)
  have "follows B D t seen" using t(1) assms(3) nextCipherChunk_follows by (auto split: if_splits)
  moreover from this have "placed B D t" by (simp add: follows_def)
  note placed_read [OF this t(3,2), of "srPending t @ decryptNext (ssLib D) (ssKey D) (srCipher t) bs"]
  ultimately show ?thesis using readFile_ceiling [OF t(3)]
    by (simp add: t(4) follows_def decryptNext_opens [OF assms(1)])
qed

lemma ensurePending_follows:
  "ensurePending D n s = yes s' \<Longrightarrow> cfb_open_ok (ssLib D) \<Longrightarrow> follows B D s seen \<Longrightarrow> follows B D s' seen"
proof (induction D n s rule: ensurePending.induct)
  case (1 D n s)
  show ?case
  proof (cases "n \<le> length (srPending s)")
    case False
    with "1.prems"(1) obtain t where "srCipherRemaining s \<noteq> 0" "fillPending D s = yes t" "ensurePending D n t = yes s'"
      by (subst (asm) ensurePending.simps) (auto simp: on_true_eq_yes split: if_splits)
    with "1.IH" [OF False this] fillPending_follows "1.prems" show ?thesis by blast
  qed (use "1.prems" in \<open>simp add: ensurePending.simps\<close>)
qed

lemma consumeForHash_follows:
  assumes "consumeForHash D n s = Some s'" "follows B D s seen"
  shows "follows B D s' (seen @ take n (srPending s))" "n \<le> length (srPending s)" "innerState s' = innerState s"
proof -
  let ?off = "ssLength D - 20"
  show n: "n \<le> length (srPending s)" "innerState s' = innerState s"
    using assms(1) by (auto simp: consumeForHash_def innerState_def Let_def split: if_splits)
  define hashEnd where "hashEnd = (if length seen + n < ?off then length seen + n else ?off)"
  have s': "s' = s\<lparr>srHashed := srHashed s @ (if length seen < ?off then take (hashEnd - length seen) (srPending s) else []),
      srStreamPos := length seen + n, srPending := drop n (srPending s)\<rparr>"
    using assms n(1) by (auto simp: consumeForHash_def follows_def Let_def hashEnd_def)
  have "take ?off (seen @ take n (srPending s))
      = take ?off seen @ (if length seen < ?off then take (hashEnd - length seen) (srPending s) else [])"
    using n(1) by (auto simp: hashEnd_def min_def)
  with assms(2) n(1) show "follows B D s' (seen @ take n (srPending s))" by (simp add: s' follows_def placed_def)
qed

lemma consumeForHash_going [going]: "consumeForHash D n s = Some s' \<Longrightarrow> goesOn D s s'"
  using consumeForHash_follows(1) unfolding goesOn_def by blast

lemma ensurePending_going [going]: "ensurePending D n s = yes s' \<Longrightarrow> cfb_open_ok (ssLib D) \<Longrightarrow> goesOn D s s'"
  using ensurePending_follows unfolding goesOn_def by (metis append_Nil2)

lemma innerChunkHeader_going [going]: "innerChunkHeader D s = yes (s', n, part) \<Longrightarrow> cfb_open_ok (ssLib D) \<Longrightarrow> goesOn D s s'"
  by (auto simp: innerChunkHeader_def on_true_eq_yes Let_def bind_eq_Some_conv dest!: going intro: goesOn_trans)

lemma ensureInnerChunk_going [going]: "ensureInnerChunk D s = yes s' \<Longrightarrow> cfb_open_ok (ssLib D) \<Longrightarrow> goesOn D s s'"
  by (auto simp: ensureInnerChunk_once on_true_eq_yes dest!: innerChunkHeader_going split: if_splits)

lemma skipOctets_going [going]: "skipOctets D n s = yes s' \<Longrightarrow> cfb_open_ok (ssLib D) \<Longrightarrow> goesOn D s s'"
  by (auto simp: skipOctets_def on_true_eq_yes dest!: going intro: goesOn_trans)

lemma bodyStep_going [going]: "bodyStep D compressed n s = yes (s', n', piece) \<Longrightarrow> cfb_open_ok (ssLib D) \<Longrightarrow> goesOn D s s'"
  by (fastforce simp: bodyStep_def on_true_eq_yes Let_def bind_eq_Some_conv dest!: going intro: goesOn_trans split: if_splits)

lemma then_eq_Inr:
  "(case r of None \<Rightarrow> None | Some (Inl st) \<Rightarrow> Some (Inl st) | Some (Inr x) \<Rightarrow> f x) = Some (Inr v)
    \<longleftrightarrow> (\<exists>x. r = Some (Inr x) \<and> f x = Some (Inr v))"
  by (auto split: option.splits sum.splits)

lemma bodyLoop_going [going]:
  "bodyLoop D compressed act n s x = Some (Inr (s', x')) \<Longrightarrow> cfb_open_ok (ssLib D) \<Longrightarrow> goesOn D s s'"
proof (induction D compressed act n s x rule: bodyLoop.induct)
  case (1 D compressed act n s x)
  show ?case
  proof (cases "bodyDone s n")
    case False
    with "1.prems"(1) obtain t m piece y where step: "bodyStep D compressed n s = yes (t, m, piece)" "act x piece = Some (Inr y)"
      "bodyLoop D compressed act m t y = Some (Inr (s', x'))"
      unfolding bodyLoop.simps [of D compressed act n s x] by (auto simp: on_read_eq_Some then_eq_Inr)
    from "1.IH" [OF False step(1) refl refl step(2) refl step(3) "1.prems"(2)] bodyStep_going [OF step(1) "1.prems"(2)]
    show ?thesis by (rule goesOn_trans [rotated])
  qed (use "1.prems" in \<open>simp add: bodyLoop.simps\<close>)
qed

lemma goesOn_if [simp]:
  "goesOn D s (if b then t\<lparr>srInnerRemaining := n\<rparr> else t) = goesOn D s t"
  "goesOn D (if b then t\<lparr>srInnerRemaining := n\<rparr> else t) s' = goesOn D t s'"
  by simp_all

text \<open>What holds of the result of an operation that may fail, when it succeeds.\<close>

definition endsIn :: "('a \<Rightarrow> bool) \<Rightarrow> 'a io option \<Rightarrow> bool" where
  "endsIn P r \<longleftrightarrow> (\<forall>v. r = Some (Inr v) \<longrightarrow> P v)"

named_theorems ends

lemma endsIn_rules [ends]:
  "endsIn P (Some (Inl st))" "endsIn P None" "P v \<Longrightarrow> endsIn P (Some (Inr v))"
  "(b \<Longrightarrow> endsIn P r) \<Longrightarrow> (\<not> b \<Longrightarrow> endsIn P r') \<Longrightarrow> endsIn P (if b then r else r')"
  by (simp_all add: endsIn_def)

lemma endsIn_bind [ends]: "(\<And>v. r = Some v \<Longrightarrow> endsIn P (g v)) \<Longrightarrow> endsIn P (Option.bind r g)"
  by (cases r) (simp_all add: endsIn_def)

lemma endsIn_prod [ends]:
  "(\<And>a b. p = (a, b) \<Longrightarrow> endsIn P (f a b)) \<Longrightarrow> endsIn P (case p of (a, b) \<Rightarrow> f a b)"
  "(\<And>a b. p = (a, b) \<Longrightarrow> endsIn P (Some (h a b))) \<Longrightarrow> endsIn P (Some (case p of (a, b) \<Rightarrow> h a b))"
  by (cases p; simp)+

lemma endsIn_read [ends]: "(\<And>v. r = yes v \<Longrightarrow> endsIn P (f v)) \<Longrightarrow> endsIn P (on_read r (Inl st) f)"
  by (auto simp: endsIn_def on_read_eq_Some)

lemma endsIn_then [ends]:
  "(\<And>v. r = Some (Inr v) \<Longrightarrow> endsIn P (f v)) \<Longrightarrow>
    endsIn P (case r of None \<Rightarrow> None | Some (Inl st) \<Rightarrow> Some (Inl st) | Some (Inr x) \<Rightarrow> f x)"
  by (auto simp: endsIn_def then_eq_Inr)

lemma endsIn_success [ends]:
  "(\<And>v. r = Inr v \<Longrightarrow> endsIn P (Some (f v))) \<Longrightarrow> endsIn P (Some (on_success r f))"
  by (cases r) (simp_all add: endsIn_def on_success_def)

lemma literal_steps_going:
  assumes "cfb_open_ok (ssLib D)" "ensurePending D 2 s = yes a" "skipOctets D 2 a = yes b"
    "(if 0 < k then skipOctets D (unat k) b else yes b) = yes c" "skipOctets D 4 c = yes d"
    "bodyLoop D z f m (if srInnerPartial d then d\<lparr>srInnerRemaining := i\<rparr> else d) x = Some (Inr (s', y))"
  shows "goesOn D s s'"
proof -
  have "goesOn D b c" using assms(1,4) by (auto dest: skipOctets_going split: if_splits)
  moreover have "goesOn D d s'" using bodyLoop_going [OF assms(6,1)] by simp
  ultimately show ?thesis
    using ensurePending_going [OF assms(2,1)] skipOctets_going [OF assms(3,1)] skipOctets_going [OF assms(5,1)] goesOn_trans
    by blast
qed

lemma decryptLiteral_going:
  "cfb_open_ok (ssLib D) \<Longrightarrow> endsIn (\<lambda>(s', out). goesOn D s s') (decryptLiteral D writable progress n s)"
  unfolding decryptLiteral_def Let_def
  by (intro ends, hypsubst, unfold prod.case) (rule literal_steps_going)

lemma compressed_steps_going:
  assumes "cfb_open_ok (ssLib D)" "ensurePending D 1 s = yes a" "consumeForHash D 1 a = Some b"
    "bodyLoop D z f m (if srInnerPartial b then b\<lparr>srInnerRemaining := i\<rparr> else b) x = Some (Inr (s', y))"
  shows "goesOn D s s'"
  by (rule goesOn_trans [OF ensurePending_going [OF assms(2,1)]
      goesOn_trans [OF consumeForHash_going [OF assms(3)] bodyLoop_going [OF assms(4,1), unfolded goesOn_if]]])

lemma decryptCompressed_going:
  "cfb_open_ok (ssLib D) \<Longrightarrow> endsIn (\<lambda>(s', out). goesOn D s s') (decryptCompressed D Z writable progress n s)"
  unfolding decryptCompressed_def Let_def
  by (intro ends, hypsubst, unfold prod.case) (rule compressed_steps_going)

lemma probeHeader_going [going]: "probeHeader D sizes s = yes (header, s') \<Longrightarrow> cfb_open_ok (ssLib D) \<Longrightarrow> goesOn D s s'"
proof (induction sizes arbitrary: s)
  case (Cons k sizes)
  from Cons.prems(1) obtain t where t: "ensurePending D k s = yes t" "t = s' \<or> probeHeader D sizes t = yes (header, s')"
    by (auto simp: on_true_eq_yes split: option.splits)
  from ensurePending_going [OF t(1) Cons.prems(2)] t(2) Cons.IH [OF _ Cons.prems(2), of t] goesOn_trans show ?case by blast
qed simp

text \<open>Of a literal packet of definite length, what is written is what is handed on.\<close>

lemma bodyStep_follows:
  assumes "bodyStep D z n s = yes (s', n', piece)" "cfb_open_ok (ssLib D)" "\<not> srInnerPartial s" "follows B D s seen"
  shows "follows B D s' (seen @ piece)" "\<not> srInnerPartial s'"
proof -
  obtain t m v where t: "ensurePending D 1 s = yes t" "slice (srPending t) 0 m = Some piece" "consumeForHash D m t = Some v"
    "s' = (if srInnerPartial v then v\<lparr>srInnerRemaining := srInnerRemaining v - m\<rparr> else v)"
    using assms(1,3) unfolding bodyStep_def ensureInnerChunk_once by (fastforce simp: on_true_eq_yes Let_def bind_eq_Some_conv split: if_splits)
  have partial: "\<not> srInnerPartial v"
    using assms(3) ensurePending_left [OF t(1)] consumeForHash_left [OF t(3)] by (simp add: innerState_def)
  have "follows B D t seen" by (rule ensurePending_follows [OF t(1) assms(2,4)])
  from consumeForHash_follows(1) [OF t(3) this] show "follows B D s' (seen @ piece)" "\<not> srInnerPartial s'"
    using t(2,4) partial by (simp_all add: slice_Some)
qed

lemma bodyLoop_writes:
  "bodyLoop D z (writeContent writable progress) n s x = Some (Inr (s', out, k)) \<Longrightarrow> cfb_open_ok (ssLib D) \<Longrightarrow>
    \<not> srInnerPartial s \<Longrightarrow> follows B D s seen \<Longrightarrow> \<exists>t. out = fst x @ t \<and> follows B D s' (seen @ t)"
proof (induction D z "writeContent writable progress" n s x arbitrary: seen rule: bodyLoop.induct)
  case (1 D z n s x)
  show ?case
  proof (cases "bodyDone s n")
    case True
    with "1.prems" have "out = fst x @ []" "follows B D s' (seen @ [])" by (simp_all add: bodyLoop.simps)
    then show ?thesis by blast
  next
    case False
    with "1.prems"(1) obtain t m piece y where step: "bodyStep D z n s = yes (t, m, piece)" "writeContent writable progress x piece = Some (Inr y)"
      "bodyLoop D z (writeContent writable progress) m t y = Some (Inr (s', out, k))"
      unfolding bodyLoop.simps [of D z _ n s x] by (auto simp: on_read_eq_Some then_eq_Inr)
    have y: "fst y = fst x @ piece" using step(2) by (auto simp: writeContent_def writeFileExact_def split: option.splits if_splits prod.splits)
    note more = bodyStep_follows [OF step(1) "1.prems"(2-4)]
    from "1.hyps" [OF False step(1) refl refl step(2) refl step(3) "1.prems"(2) more(2) more(1)] y show ?thesis by auto
  qed
qed

lemma literal_steps_follow:
  assumes "cfb_open_ok (ssLib D)" "ensurePending D 2 s = yes a" "skipOctets D 2 a = yes b"
    "(if 0 < k then skipOctets D (unat k) b else yes b) = yes c" "skipOctets D 4 c = yes d"
    "bodyLoop D z (writeContent writable progress) m (if srInnerPartial d then d\<lparr>srInnerRemaining := i\<rparr> else d) ([], 0)
      = Some (Inr (s', out, n))" "\<not> srInnerPartial s" "follows B D s seen"
  shows "\<exists>head. follows B D s' (seen @ head @ out)"
proof -
  have "goesOn D s d"
    using ensurePending_going [OF assms(2,1)] skipOctets_going [OF assms(3,1)] skipOctets_going [OF assms(5,1)] assms(1,4)
    by (auto dest!: skipOctets_going intro: goesOn_trans split: if_splits)
  then obtain head where head: "follows B D d (seen @ head)" using assms(8) unfolding goesOn_def by blast
  have same: "skipOctets D j t = yes u \<Longrightarrow> srInnerPartial u = srInnerPartial t" for j t u
    by (auto simp: skipOctets_def on_true_eq_yes innerState_def dest!: ensurePending_left consumeForHash_left)
  have "\<not> srInnerPartial d"
    using assms(7) ensurePending_left [OF assms(2)] same [OF assms(3)] same [OF assms(5)] assms(4)
    by (auto simp: innerState_def dest: same split: if_splits)
  with bodyLoop_writes [OF _ assms(1) _ head, of z writable progress m "([], 0)" s' out n] assms(6) show ?thesis by auto
qed

lemma decryptLiteral_follows:
  "cfb_open_ok (ssLib D) \<Longrightarrow> \<not> srInnerPartial s \<Longrightarrow> follows B D s seen \<Longrightarrow>
    endsIn (\<lambda>(s', out). \<exists>head. follows B D s' (seen @ head @ out)) (decryptLiteral D writable progress n s)"
  unfolding decryptLiteral_def Let_def
  by (intro ends, hypsubst, unfold prod.case) (rule literal_steps_follow)

text \<open>The checksum ends what has been handed on.\<close>

definition encryptedPart :: "nat \<times> nat \<Rightarrow> seip_source \<Rightarrow> bytes \<Rightarrow> bool" where
  "encryptedPart B D c \<longleftrightarrow> length c \<le> ssLength D
     \<and> containerOctets (opContent (ssFile D)) (fst B) (if ssPartial D then snd B else ssLength D) (ssPartial D) c"

lemma follows_part: "follows B D s seen \<Longrightarrow> encryptedPart B D (take j (srCipher s))"
proof -
  assume s: "follows B D s seen"
  then have "length (srCipher s) \<le> ssLength D" by (simp add: follows_def)
  moreover from this s have "containerOctets (opContent (ssFile D)) (fst B) (if ssPartial D then snd B else ssLength D) (ssPartial D) (srCipher s)"
    by (cases "ssPartial D") (simp_all add: follows_def placed_def containerOctets_def, blast)
  ultimately show ?thesis by (simp add: encryptedPart_def containerOctets_take min.coboundedI1)
qed

lemma checkTrailer_follows:
  assumes "checkTrailer D (s, out) = Some (Inr content)" "cfb_open_ok (ssLib D)" "follows B D s seen"
  shows "content = out" "\<exists>mdc encrypted. length mdc = 20 \<and> encryptedPart B D encrypted
    \<and> cfbDecrypt (ssLib D) (ssKey D) (zeros 16) encrypted = seen @ [0xD3, 0x14] @ mdc
    \<and> sha1 (ssLib D) (take (ssLength D - 20) (seen @ [0xD3, 0x14] @ mdc)) = mdc"
proof -
  obtain t u where t: "ensurePending D 22 s = yes t" "consumeForHash D 22 t = Some u"
    "srPending t ! 0 = 0xD3" "srPending t ! 1 = 0x14" "sha1 (ssLib D) (srHashed u) = take 20 (drop 2 (srPending t))"
    and out: "content = out"
    using assms(1) by (auto simp: checkTrailer_def on_read_eq_Some bind_eq_Some_conv byte_at_Some slice_Some split: if_splits)
  show "content = out" by (rule out)
  have len: "22 \<le> length (srPending t)" using ensurePending_left [OF t(1)] by blast
  define mdc where "mdc = take 20 (drop 2 (srPending t))"
  have size: "length mdc = 20" using len by (simp add: mdc_def)
  have "take 22 (srPending t) = [0xD3, 0x14] @ mdc"
  proof -
    obtain x y zs where "srPending t = x # y # zs" using len by (cases "srPending t"; cases "tl (srPending t)") auto
    with t(3,4) show ?thesis by (simp add: mdc_def)
  qed
  with consumeForHash_follows(1) [OF t(2) ensurePending_follows [OF t(1) assms(2,3)]]
  have u: "follows B D u (seen @ [0xD3, 0x14] @ mdc)" by simp
  define plain where "plain = seen @ [0xD3, 0x14] @ mdc"
  let ?encrypted = "take (length plain) (srCipher u)"
  have part: "encryptedPart B D ?encrypted" by (rule follows_part [OF u])
  have all: "cfbDecrypt (ssLib D) (ssKey D) (zeros 16) (srCipher u) = plain @ srPending u"
    and hashed: "srHashed u = take (ssLength D - 20) plain"
    using u by (simp_all add: follows_def plain_def)
  have "length plain \<le> length (srCipher u)" using arg_cong [OF all, of length] assms(2) by (simp add: cfb_open_ok_def)
  moreover have "take (length ?encrypted) (cfbDecrypt (ssLib D) (ssKey D) (zeros 16) (?encrypted @ drop (length plain) (srCipher u)))
      = cfbDecrypt (ssLib D) (ssKey D) (zeros 16) ?encrypted"
    using assms(2) unfolding cfb_open_ok_def by blast
  ultimately have "cfbDecrypt (ssLib D) (ssKey D) (zeros 16) ?encrypted = plain" by (simp add: all min_absorb2)
  with part hashed t(5) size have "length mdc = 20 \<and> encryptedPart B D ?encrypted
      \<and> cfbDecrypt (ssLib D) (ssKey D) (zeros 16) ?encrypted = plain \<and> sha1 (ssLib D) (take (ssLength D - 20) plain) = mdc"
    by (simp add: mdc_def)
  then show "\<exists>mdc encrypted. length mdc = 20 \<and> encryptedPart B D encrypted
    \<and> cfbDecrypt (ssLib D) (ssKey D) (zeros 16) encrypted = seen @ [0xD3, 0x14] @ mdc
    \<and> sha1 (ssLib D) (take (ssLength D - 20) (seen @ [0xD3, 0x14] @ mdc)) = mdc"
    unfolding plain_def by blast
qed

text \<open>An inner packet in the new format, a literal packet of definite length.\<close>

definition startsLiteral :: "bytes \<Rightarrow> bool" where
  "startsLiteral plain \<longleftrightarrow> 2 \<le> length plain \<and> plain ! 0 = 0xCB \<and> (unat (plain ! 1) < 224 \<or> plain ! 1 = 0xFF)"

lemma startsLiteral_header:
  assumes "startsLiteral data" "readPacketHeader data 0 None True = yes (tag, n, k, part)"
  shows "tag = PGP_TAG_LITERAL_DATA" "\<not> part" "2 \<le> k"
proof -
  have d: "data ! 0 = 0xCB" "unat (data ! 1) < 224 \<or> data ! 1 = 0xFF" "2 \<le> length data"
    using assms(1) by (auto simp: startsLiteral_def)
  have "data ! 1 < 224 \<or> \<not> data ! 1 < 255" using d(2) by (auto simp: word_less_nat_alt)
  then show "tag = PGP_TAG_LITERAL_DATA" "\<not> part" "2 \<le> k"
    using assms(2) d by (auto simp: header_defs PGP_TAG_LITERAL_DATA_def split: if_splits bind_splits)
qed

lemma startsLiteral_back:
  assumes "readPacketHeader (take m xs) 0 None True = yes (tag, n, k, part)" "startsLiteral (take k xs @ ys)"
  shows "startsLiteral (take m xs)"
proof -
  note pos = readPacketHeader_pos [OF assms(1)]
  have first: "take m xs ! 0 = 0xCB" using assms(2) pos by (auto simp: startsLiteral_def nth_append split: if_splits)
  then have "2 \<le> k" using assms(1) by (auto simp: header_defs split: if_splits bind_splits)
  with assms(2) pos first show ?thesis by (auto simp: startsLiteral_def nth_append split: if_splits)
qed

lemma decryptInner_follows:
  assumes "decryptInner D Z writable progress ((tag, n, k, part), s) = Some (Inr out)" "cfb_open_ok (ssLib D)" "follows B D s seen"
    and "k \<le> length (srPending s)"
  shows "\<exists>body mdc encrypted. length mdc = 20 \<and> encryptedPart B D encrypted
    \<and> cfbDecrypt (ssLib D) (ssKey D) (zeros 16) encrypted = seen @ take k (srPending s) @ body @ [0xD3, 0x14] @ mdc
    \<and> sha1 (ssLib D) (take (ssLength D - 20) (seen @ take k (srPending s) @ body @ [0xD3, 0x14] @ mdc)) = mdc
    \<and> (tag = PGP_TAG_LITERAL_DATA \<and> \<not> part \<longrightarrow> (\<exists>head. body = head @ out))"
proof -
  obtain m t u out' where t: "consumeForHash D k s = Some t"
    "(if tag = PGP_TAG_COMPRESSED_DATA
      then decryptCompressed D Z writable progress m (t\<lparr>srInnerPartial := part, srInnerRemaining := (if part then m else 0), srInnerFinal := False\<rparr>)
      else if tag = PGP_TAG_LITERAL_DATA
      then decryptLiteral D writable progress m (t\<lparr>srInnerPartial := part, srInnerRemaining := (if part then m else 0), srInnerFinal := False\<rparr>)
      else Some (Inl NOT_IMPLEMENTED)) = Some (Inr (u, out'))"
    "checkTrailer D (u, out') = Some (Inr out)"
    using assms(1) unfolding decryptInner_def Let_def prod.case
    by (auto simp: bind_eq_Some_conv then_eq_Inr split: if_splits)
  let ?t = "t\<lparr>srInnerPartial := part, srInnerRemaining := (if part then m else 0), srInnerFinal := False\<rparr>"
  have follows: "follows B D ?t (seen @ take k (srPending s))" using consumeForHash_follows(1) [OF t(1) assms(3)] by simp
  have "goesOn D ?t u"
    using t(2) decryptCompressed_going [OF assms(2), where s = ?t and Z = Z and writable = writable and progress = progress and n = m]
      decryptLiteral_going [OF assms(2), where s = ?t and writable = writable and progress = progress and n = m]
    by (auto simp: endsIn_def split: if_splits)
  moreover have "\<exists>head. follows B D u ((seen @ take k (srPending s)) @ head @ out')" if "tag = PGP_TAG_LITERAL_DATA" "\<not> part"
    using t(2) decryptLiteral_follows [OF assms(2) _ follows, where writable = writable and progress = progress and n = m] that
    by (auto simp: endsIn_def PGP_TAG_COMPRESSED_DATA_def PGP_TAG_LITERAL_DATA_def split: if_splits)
  ultimately obtain body where body: "follows B D u ((seen @ take k (srPending s)) @ body)"
    "tag = PGP_TAG_LITERAL_DATA \<and> \<not> part \<longrightarrow> (\<exists>head. body = head @ out')"
    using follows unfolding goesOn_def by (cases "tag = PGP_TAG_LITERAL_DATA \<and> \<not> part") blast+
  from checkTrailer_follows [OF t(3) assms(2) body(1), unfolded append_assoc] body(2) show ?thesis by blast
qed

lemma probeHeader_follows:
  "probeHeader D sizes s = yes (header, t) \<Longrightarrow> cfb_open_ok (ssLib D) \<Longrightarrow> follows B D s seen \<Longrightarrow>
    follows B D t seen \<and> (\<exists>m. readPacketHeader (take m (srPending t)) 0 None True = yes header)"
proof (induction sizes arbitrary: s)
  case (Cons k sizes)
  from Cons.prems(1) obtain u where u: "ensurePending D k s = yes u"
    "(u = t \<and> readPacketHeader (take k (srPending u)) 0 None True = yes header) \<or> probeHeader D sizes u = yes (header, t)"
    by (auto simp: on_true_eq_yes split: option.splits)
  from ensurePending_follows [OF u(1) Cons.prems(2,3)] u(2) Cons.IH [OF _ Cons.prems(2), of u] show ?case by blast
qed simp

text \<open>What the header of a file says about the place of its container.\<close>

definition headerPlaced :: "opened \<Rightarrow> file_header \<Rightarrow> nat \<times> nat \<Rightarrow> bool" where
  "headerPlaced I H B \<longleftrightarrow>
     (if fhSeipPartial H then chunkOctets (opContent I) (fst B) (snd B) (fhLeftoverCipher H) (fhPosition H)
        (fhSeipChunkRemaining H) (fhSeipFinalChunk H)
      else fhLeftoverCipher H = take (length (fhLeftoverCipher H)) (drop (fst B) (opContent I))
        \<and> (fhEncLength H \<noteq> length (fhLeftoverCipher H) \<longrightarrow> fhPosition H = fst B + length (fhLeftoverCipher H)))"

lemma decryptSeipBodyStreaming_follows:
  assumes "decryptSeipBodyStreaming L I Z writable progress H = Some (Inr out)" "cfb_open_ok L"
    and "headerPlaced I H B"
  shows "\<exists>body mdc encrypted. length mdc = 20 \<and> length encrypted \<le> fhEncLength H
    \<and> containerOctets (opContent I) (fst B) (if fhSeipPartial H then snd B else fhEncLength H) (fhSeipPartial H) encrypted
    \<and> cfbDecrypt L (fhSessionKey H) (zeros 16) encrypted = body @ [0xD3, 0x14] @ mdc
    \<and> sha1 L (take (fhEncLength H - 20) (body @ [0xD3, 0x14] @ mdc)) = mdc
    \<and> 18 \<le> length body \<and> (startsLiteral (drop 18 body) \<longrightarrow> (\<exists>head. body = head @ out))"
proof -
  let ?D = "\<lparr> ssLib = L, ssFile = I, ssKey = fhSessionKey H, ssPartial = fhSeipPartial H, ssLength = fhEncLength H \<rparr>"
  let ?s = "\<lparr> srPos = fhPosition H, srChunkRemaining = fhSeipChunkRemaining H, srFinalChunk = fhSeipFinalChunk H,
      srCipherRemaining = fhEncLength H - length (fhLeftoverCipher H), srCipher = fhLeftoverCipher H,
      srPending = decryptNext L (fhSessionKey H) [] (fhLeftoverCipher H), srStreamPos = 0, srHashed = [],
      srInnerPartial = False, srInnerRemaining = 0, srInnerFinal = False \<rparr>"
  obtain s tag n k part t where s: "\<not> length (fhLeftoverCipher H) > fhEncLength H" "skipOctets ?D 18 ?s = yes s"
    "probeHeader ?D probeSizes s = yes ((tag, n, k, part), t)"
    "decryptInner ?D Z writable progress ((tag, n, k, part), t) = Some (Inr out)"
    using assms(1) unfolding decryptSeipBodyStreaming_def Let_def by (auto simp: on_read_eq_Some split: if_splits)
  have "follows B ?D ?s []"
    using s(1) assms(2,3) by (simp add: follows_def decryptNext_def cfb_open_ok_def placed_def headerPlaced_def)
  then obtain r where r: "ensurePending ?D 18 ?s = yes r" "follows B ?D r []" "consumeForHash ?D 18 r = Some s"
    using s(2) ensurePending_follows [where D = ?D and n = 18 and s = ?s] assms(2) by (auto simp: skipOctets_def on_true_eq_yes)
  define seen where "seen = take 18 (srPending r)"
  have seen: "follows B ?D s seen" "length seen = 18"
    using consumeForHash_follows [OF r(3,2)] by (simp_all add: seen_def)
  from probeHeader_follows [OF s(3) _ seen(1)] assms(2) obtain m
    where t: "follows B ?D t seen" "readPacketHeader (take m (srPending t)) 0 None True = yes (tag, n, k, part)" by auto
  have k: "k \<le> length (take m (srPending t))" using readPacketHeader_pos [OF t(2)] by simp
  then have k': "k \<le> length (srPending t)" by simp
  from decryptInner_follows [OF s(4) _ t(1) k'] assms(2) obtain body mdc encrypted
    where b: "length mdc = 20" "encryptedPart B ?D encrypted"
      "cfbDecrypt L (fhSessionKey H) (zeros 16) encrypted = seen @ take k (srPending t) @ body @ [0xD3, 0x14] @ mdc"
      "sha1 L (take (fhEncLength H - 20) (seen @ take k (srPending t) @ body @ [0xD3, 0x14] @ mdc)) = mdc"
      "tag = PGP_TAG_LITERAL_DATA \<and> \<not> part \<longrightarrow> (\<exists>head. body = head @ out)" by auto
  let ?body = "seen @ take k (srPending t) @ body"
  have lit: "\<exists>head. ?body = head @ out" if "startsLiteral (drop 18 ?body)"
  proof -
    have "startsLiteral (take m (srPending t))"
      by (rule startsLiteral_back [OF t(2)]) (use that seen(2) in simp)
    from startsLiteral_header [OF this t(2)] b(5) obtain head where "body = head @ out" by blast
    then have "?body = (seen @ take k (srPending t) @ head) @ out" by simp
    then show ?thesis by blast
  qed
  have "length encrypted \<le> fhEncLength H \<and> containerOctets (opContent I) (fst B) (if fhSeipPartial H then snd B else fhEncLength H)
      (fhSeipPartial H) encrypted" using b(2) by (cases "fhSeipPartial H") (simp_all add: encryptedPart_def)
  moreover have "18 \<le> length ?body" using seen(2) by simp
  ultimately have "length mdc = 20 \<and> length encrypted \<le> fhEncLength H
    \<and> containerOctets (opContent I) (fst B) (if fhSeipPartial H then snd B else fhEncLength H) (fhSeipPartial H) encrypted
    \<and> cfbDecrypt L (fhSessionKey H) (zeros 16) encrypted = ?body @ [0xD3, 0x14] @ mdc
    \<and> sha1 L (take (fhEncLength H - 20) (?body @ [0xD3, 0x14] @ mdc)) = mdc
    \<and> 18 \<le> length ?body \<and> (startsLiteral (drop 18 ?body) \<longrightarrow> (\<exists>head. ?body = head @ out))"
    using b(1,3,4) lit by (intro conjI impI) (simp_all only: append_assoc)
  then show ?thesis by (intro exI)
qed

text \<open>The container follows the session-key packets that the header is read behind.\<close>

lemma seipHeaderOf_placed:
  assumes "seipHeaderOf I buf pos key = yes H" "buf = take k (opContent I)"
  obtains n start part where "readPacketHeader buf pos None True = yes (PGP_TAG_SEIP, n, start, part)"
    "start < length (opContent I)" "opContent I ! start = 1" "fhSessionKey H = key" "fhSeipPartial H = part"
    "if part then scanPartialBodyTotalLength I start n = yes (fhEncLength H + 1) else fhEncLength H = size_sub n 1"
    "headerPlaced I H (start + 1, n - 1)"
proof -
  from assms(1) obtain h where h: "readPacketHeader buf pos None True = yes h"
    unfolding seipHeaderOf_def on_true_eq_yes by blast
  obtain tag n start part where "h = (tag, n, start, part)" by (cases h)
  note h = h [unfolded this]
  have tag: "tag = PGP_TAG_SEIP" and start: "start < length buf" "buf ! start = 1"
    using assms(1) unfolding seipHeaderOf_def h on_true_simps prod.case by (auto simp: not_le split: if_splits)
  have start': "start < length (opContent I)" "opContent I ! start = 1" using start by (simp_all add: assms(2))
  note run = assms(1) [unfolded seipHeaderOf_def h on_true_simps prod.case byte_at_in [OF start(1)] bind.bind_lunit start(2)]
  show ?thesis
  proof (cases part)
    case True
    have n: "1 \<le> n" and scan: "on_true (scanPartialBodyTotalLength I start n) (\<lambda>totalPayload.
             if totalPayload < 1 then no
             else if \<not> opSeeks I (start + 1) then no
             else yes \<lparr> fhSessionKey = key, fhEncLength = totalPayload - 1, fhLeftoverCipher = [],
               fhSeipPartial = True, fhSeipChunkRemaining = n - 1, fhSeipFinalChunk = False,
               fhPosition = start + 1 \<rparr>) = yes H"
      using run start(1) tag True by (simp_all split: if_splits)
    from scan obtain total where "scanPartialBodyTotalLength I start n = yes total" "1 \<le> total"
      "H = \<lparr> fhSessionKey = key, fhEncLength = total - 1, fhLeftoverCipher = [], fhSeipPartial = True,
         fhSeipChunkRemaining = n - 1, fhSeipFinalChunk = False, fhPosition = start + 1 \<rparr>"
      unfolding on_true_eq_yes by (auto simp: not_less split: if_splits)
    with True tag show ?thesis
      by (intro that [OF h [unfolded tag] start']) (simp_all add: headerPlaced_def chunkOctets.chunk_start n)
  next
    case False
    define left where "left = take (size_sub n 1) (drop (start + 1) buf)"
    have H: "H = \<lparr> fhSessionKey = key, fhEncLength = size_sub n 1, fhLeftoverCipher = left, fhSeipPartial = False,
        fhSeipChunkRemaining = 0, fhSeipFinalChunk = False, fhPosition = length buf \<rparr>"
      using run start(1) tag False by (simp add: left_def)
    have "drop (start + 1) buf = take (k - (start + 1)) (drop (start + 1) (opContent I))" by (simp add: assms(2) drop_take)
    then have 1: "left = take (length left) (drop (start + 1) (opContent I))" by (simp add: left_def min_def)
    have 2: "size_sub n 1 \<noteq> length left \<longrightarrow> length buf = start + 1 + length left"
      using start(1) by (simp add: left_def min_def split: if_splits) linarith
    have "headerPlaced I H (start + 1, n - 1)"
      unfolding headerPlaced_def H file_header.simps fst_conv if_False by (rule conjI [OF 1 2])
    then show ?thesis using False
      by (intro that [OF h [unfolded tag] start']) (simp_all add: H)
  qed
qed

lemma parseEncryptedFileHeader_placed:
  assumes "parseEncryptedFileHeader L K I = yes H"
  obtains k pos sessionPlain n start part where
    "filePkeskLoop L K (take k (opContent I)) 0 None = yes (pos, Some sessionPlain)"
    "openSessionKey sessionPlain = yes (fhSessionKey H)"
    "readPacketHeader (take k (opContent I)) pos None True = yes (PGP_TAG_SEIP, n, start, part)"
    "start < length (opContent I)" "opContent I ! start = 1" "fhSeipPartial H = part"
    "if part then scanPartialBodyTotalLength I start n = yes (fhEncLength H + 1) else fhEncLength H = size_sub n 1"
    "headerPlaced I H (start + 1, n - 1)"
proof -
  obtain buf pos sessionPlain key where run: "readFile I 0 65536 = Some buf"
    "filePkeskLoop L K buf 0 None = yes (pos, Some sessionPlain)" "openSessionKey sessionPlain = yes key"
    "seipHeaderOf I buf pos key = yes H"
    using assms by (auto simp: parseEncryptedFileHeader_def on_true_eq_yes readInto_yes split: option.splits if_splits)
  obtain k where buf: "buf = take k (opContent I)" using run(1) by (auto simp: readFile_def)
  show ?thesis
    by (rule seipHeaderOf_placed [OF run(4) buf], rule that [of k pos sessionPlain]) (use run(2,3) buf in auto)
qed

section \<open>Files for another key\<close>

lemma foreign_packets:
  assumes "list_all2 (\<lambda>p K. opensFor L K plain p) ps Ks" "okKeyId K' \<notin> okKeyId ` set Ks"
  shows "\<forall>(k, a, m) \<in> set ps. length k = 8 \<and> length m \<le> 8193 \<and> k \<noteq> okKeyId K'"
  using assms by (induction ps Ks rule: list_all2_induct) (auto simp: opensFor_def)

lemma foreign_header:
  assumes open_: "list_all2 (\<lambda>p K. opensFor L K plain p) ps Ks" "okKeyId K' \<notin> okKeyId ` set Ks"
    and F: "opContent I = pkeskSequence ps @ writePacket PGP_TAG_SEIP (1 # C)" and small: "length C + 1 < 4294967296"
    and reach: "reaches I (length (pkeskSequence ps) + newFormatLengthOctets (length C + 1) + 2)"
  shows "parseEncryptedFileHeader L K' I = no"
proof -
  let ?pre = "pkeskSequence ps" and ?F = "opContent I"
  define p where "p = length ?pre + 1 + newFormatLengthOctets (length C + 1)"
  have len: "length ?F = p + 1 + length C" using F by (simp add: p_def length_writePacket)
  have reach': "reaches I (p + 1)" "p + 1 \<le> length ?F" using reach len by (simp_all add: p_def)
  obtain k where k0: "p + 1 \<le> k" "k \<le> length ?F" "readFile I 0 65536 = Some (take k ?F)"
    by (rule reaches_read [OF reach'])
  have k: "p < k" "k \<le> length ?F" using k0 by simp_all
  note head = seipHeaderOf_whole [OF F small p_def k]
  have "filePkeskLoop L K' (take k ?F) 0 None = filePkeskLoop L K' (take k ?F) (length ?pre) None"
    using file_walk.skip [OF foreign_packets [OF open_], of L "[]" "drop (length ?pre) (take k ?F)" None]
    unfolding append_Nil list.size(3) head(5) [symmetric] .
  also have "\<dots> = yes (length ?pre, None)" by (rule file_walk.loop_stop [OF head(4)])
  finally show ?thesis unfolding parseEncryptedFileHeader_read [OF k0(3)] by simp
qed

text \<open>\<open>opensAs\<close> for a key that opens nothing: \<open>DecryptFile\<close> says that the data is invalid.\<close>

lemma foreign_file:
  assumes lib: "sealLib_ok L" "messageDraws_ok M" and keys: "keysFor L M 0 Ks rcs" "length Ks \<le> 7" "okKeyId K' \<notin> okKeyId ` set Ks"
    and small: "length inner < 4294967000"
  obtains message where "sealed L M rcs cipher inner = Some message"
    "\<And>I. opContent I = message \<Longrightarrow> opened_ok I \<Longrightarrow> parseEncryptedFileHeader L K' I = no"
proof -
  let ?key = "mdSessionKey M (pgpSymmetricSessionKeyLength cipher)"
  define C where "C = cfbEncrypt L ?key (zeros 16) (seipPlain L (mdPrefix M) inner)"
  have body: "sealedBody L M cipher inner = 1 # C" by (simp add: sealedBody_def C_def)
  obtain ps where ps: "sealed L M rcs cipher inner = Some (pkeskSequence ps @ writePacket PGP_TAG_SEIP (1 # C))"
    "list_all2 (\<lambda>p K. opensFor L K (sessionKeyPlain cipher ?key) p) ps Ks" "length C + 1 < 4294967296"
    using sealed_shape [OF lib keys(1) small, of cipher] by (auto simp: body)
  have "length (pkeskSequence ps) + newFormatLengthOctets (length C + 1) + 2 \<le> 65536"
    using pkeskSequence_length [OF ps(2)] keys(2) newFormatLengthOctets_le [of "length C + 1"] by linarith
  then have "parseEncryptedFileHeader L K' I = no"
    if "opContent I = pkeskSequence ps @ writePacket PGP_TAG_SEIP (1 # C)" "opened_ok I" for I
    using foreign_header [OF ps(2) keys(3) that(1) ps(3)] that(2) by (simp add: opened_ok_def)
  with ps(1) that show ?thesis by blast
qed

lemma DecryptFile_foreign:
  assumes "disk_ok E" "disk p = Some message" "authorised L S pw"
    and "\<And>I. opContent I = message \<Longrightarrow> opened_ok I \<Longrightarrow> parseEncryptedFileHeader L (firstKey S) I = no"
  shows "DecryptFile L Z E S pw (Some p) (Some q) disk = Some (INVALID_DATA, disk)"
proof -
  obtain I where "openFile E disk p = Some I" "opContent I = message" "opSizes I" "opened_ok I"
    by (rule openFile_ok [where p = p and disk = disk, OF assms(1,2)])
  then show ?thesis using assms(1,3,4) by (simp add: DecryptFile_def convertUtf8PathToWide_def authorised_def disk_ok_def)
qed


section \<open>Properties\<close>

text \<open>C28: Whatever the files contain, however the operating system cuts and interrupts their reading, and whatever the
  decompressors deliver, \<open>DecryptFile\<close> and \<open>VerifyFile\<close> return a status: they never take an octet from outside a buffer, and never
  ask \<open>ReadFile\<close> for more octets than there is room for at the place they are to go to, which is the 64 KB of the first read, the
  five octets of a chunk header, the rest of them behind its first octet, the 1 MiB of \<open>cipherReadBuf\<close> and of \<open>chunk\<close>, and the
  vector for the signature.\<close>

theorem file_readers_in_bounds:
  "(\<exists>st disk'. DecryptFile L Z E S pw p q disk = Some (st, disk'))
    \<and> (\<exists>st verdict. VerifyFile L E S p s flag disk = Some (st, verdict))"
proof -
  have "safe (DecryptFile L Z E S pw p q disk)"
    unfolding DecryptFile_def Let_def
    by (auto split: option.split intro!: safe_on_read safe_bind parseEncryptedFileHeader_safe decryptSeipBodyStreaming_safe)
  moreover have "safe (VerifyFile L E S p s flag disk)"
    unfolding VerifyFile_def
    by (auto simp: verifyFile_safe readSignatureFile_safe split: option.split intro!: safe_on_read)
  ultimately show ?thesis by (auto simp: safe_def)
qed



text \<open>An identity with a first subkey that is still in force and a newer second one; in its library the key ID shows the
  creation time.\<close>

definition late_lib :: crypto where
  "late_lib = sample_lib\<lparr>sha1 := \<lambda>m. pad_to 20 (replicate 12 0 @ drop 3 m)\<rparr>"

definition late_draws :: draws where
  "late_draws = sample_draws\<lparr>drawTime := \<lambda>i. 5\<rparr>"

definition late_first :: engine where
  "late_first = newborn late_lib sample_draws (newEngineFor PGP_KEY_ALGORITHM_ED25519_X25519) [65] [112, 119] 3600"

definition late_engine :: engine where
  "late_engine = snd (AddSubkey late_lib late_draws late_first (Some [112, 119]) 0x0C 0)"

lemma late_ok: "lib_ok late_lib" "messageLib_ok late_lib" "cfb_stream_ok late_lib" "draws_ok late_lib sample_draws" "draws_ok late_lib late_draws"
proof -
  have same: "draws_ok late_lib R = draws_ok sample_lib R" for R
    by (simp add: draws_ok_def late_lib_def rsa_sign_ok_def ed_sign_ok_def)
  show "lib_ok late_lib" "messageLib_ok late_lib" "cfb_stream_ok late_lib"
    using sample_lib_ok sample_lib_stream sample_lib_crypt_ok(2)
    by (simp_all add: lib_ok_def messageLib_ok_def digests_ok_def aes_ok_def cfb_ok_def cfb_stream_ok_def deflate_ok_def late_lib_def)
  show "draws_ok late_lib sample_draws" using same sample_draws_ok by simp
  have "draws_ok sample_lib late_draws = draws_ok sample_lib sample_draws" by (simp add: draws_ok_def late_draws_def)
  then show "draws_ok late_lib late_draws" using same sample_draws_ok by simp
qed

lemma late_authorised: "authorised late_lib late_first (Some [112, 119])"
  using newborn_inv(2) [OF late_ok(1,4) sample_signed(1)]
  by (simp add: authorised_def mayUseIdentity_def has_text_def passwordMatches_def checkPasswordHash_def late_first_def)
    (simp add: install_defs)

lemma late_added:
  "AddSubkey late_lib late_draws late_first (Some [112, 119]) 0x0C 0 = (NO_ERROR, late_engine)"
  "late_engine = late_first\<lparr>ownSubkeys := ownSubkeys late_first @ [addedSubkey late_lib late_draws late_first [112, 119] 0x0C 0]\<rparr>"
proof -
  have "keyAlgorithm late_first = PGP_KEY_ALGORITHM_ED25519_X25519"
    by (simp add: late_first_def install_defs newEngineFor_def)
  moreover have "encryptSecretKeyMaterial late_lib (drawSalt late_draws 0) (drawIv late_draws 0) pub clear pw \<noteq> []" for pub clear pw
    using openSecretKeyMaterial_encrypt(2) draws_okD(1,2) [OF late_ok(5)] late_ok(1) by (simp add: lib_ok_def)
  ultimately have "AddSubkey late_lib late_draws late_first (Some [112, 119]) 0x0C 0
      = (NO_ERROR, late_first\<lparr>ownSubkeys := ownSubkeys late_first @ [addedSubkey late_lib late_draws late_first [112, 119] 0x0C 0]\<rparr>)"
    using late_authorised by (simp add: AddSubkey_def authorised_def Let_def addedSubkey_def case_prod_unfold late_draws_def sample_draws_def)
  then show "AddSubkey late_lib late_draws late_first (Some [112, 119]) 0x0C 0 = (NO_ERROR, late_engine)"
    "late_engine = late_first\<lparr>ownSubkeys := ownSubkeys late_first @ [addedSubkey late_lib late_draws late_first [112, 119] 0x0C 0]\<rparr>"
    by (simp_all add: late_engine_def)
qed

lemma late_reachable: "reachable late_lib late_engine"
proof -
  have "GenerateKeyPair late_lib sample_draws (newEngineFor PGP_KEY_ALGORITHM_ED25519_X25519) (Some [65]) (Some [112, 119]) 3600
      = (NO_ERROR, late_first)"
    using GenerateKeyPair_cases [OF late_ok(1,4)] sample_signed(1) by (simp add: late_first_def has_text_def newEngineFor_def)
  from reachable.step [OF fresh_for engine_step.generate [OF late_ok(4) this]]
  have "reachable late_lib late_first" .
  from reachable.step [OF this engine_step.add_subkey [OF late_ok(5) late_added(1)]] show ?thesis .
qed

lemma late_keyIds:
  "snd (computeFingerprintAndKeyId late_lib (buildX25519PublicKeyPacketBody 0 p)) ! 4 = 0"
  "snd (computeFingerprintAndKeyId late_lib (buildX25519PublicKeyPacketBody 5 p)) ! 4 = 5"
  by (simp_all add: computeFingerprintAndKeyId_def pub_body_shape appendBigEndian16_def appendBigEndian32_def appendAll_def
      PGP_X25519_OID_def late_lib_def pad_to_def Let_def nth_append)

lemma late_subkeys:
  obtains k k' where "ownSubkeys late_engine = [k, k']" "skKeyId k ! 4 = 0" "skKeyId k' ! 4 = 5"
    "encryptable 10 late_engine k" "encryptable 10 late_engine k'" "skCreationTime k = 0" "skCreationTime k' = 5"
    "decrypts_ok late_lib sample_message_draws late_engine k" "decrypts_ok late_lib sample_message_draws late_engine k'"
proof -
  have alg: "keyAlgorithm late_first = PGP_KEY_ALGORITHM_ED25519_X25519"
    by (simp add: late_first_def install_defs newEngineFor_def)
  let ?k' = "addedSubkey late_lib late_draws late_first [112, 119] 0x0C 0"
  obtain k where k: "ownSubkeys late_first = [k]" "skKeyFlags k = 0x0C" "skCreationTime k = 0" "skExpirationSeconds k = 3600"
    "\<not> skIsRevoked k" "skKeyId k ! 4 = 0"
    using late_keyIds(1)
    by (simp add: late_first_def install_defs newOwnSubkey_def sample_draws_def generatedBy_def generateEd25519_def newEngineFor_def)
  have k': "skKeyFlags ?k' = 0x0C" "skExpirationSeconds ?k' = 0" "\<not> skIsRevoked ?k'" "skKeyId ?k' ! 4 = 5" "skCreationTime ?k' = 5"
    using late_keyIds(2) alg
    by (simp_all add: addedSubkey_def Let_def freshSubkey_def newOwnSubkey_def subkeyPubBody_def late_draws_def)
  have "x_agree_ok late_lib a b" for a b using sample_lib_ok(6) by (simp add: x_agree_ok_def late_lib_def)
  then have "decrypts_ok late_lib sample_message_draws late_engine c" for c
    by (simp add: decrypts_ok_def late_added(2) alg) (simp add: late_lib_def sample_lib_def sample_message_draws_def)
  moreover have "encryptable 10 late_engine k" "encryptable 10 late_engine ?k'"
    by (simp_all add: encryptable_def usable_def peerSubkeyExpired_def k k' peerSubkeyOf_def peerSubkeyBase_def applyBinding_def
        bindingScan_def newPeerSubkey_def Let_def late_added(2) alg)
  moreover have "ownSubkeys late_engine = [k, ?k']" using k(1) by (simp add: late_added(2))
  ultimately show ?thesis using k(3,6) k'(4,5) by (intro that)
qed

lemma late_correspondents: "correspondents late_lib sample_message_draws 10 newEngine late_engine []"
proof -
  obtain k k' where k: "ownSubkeys late_engine = [k, k']" "skKeyId k ! 4 = 0" "skKeyId k' ! 4 = 5" "encryptable 10 late_engine k'"
    "decrypts_ok late_lib sample_message_draws late_engine k" "decrypts_ok late_lib sample_message_draws late_engine k'"
    by (rule late_subkeys) blast
  have "ownKeyGenerated late_engine" "map uidText (ownUserIds late_engine) = [[65]]"
    using newborn_inv(2) [OF late_ok(1,4) sample_signed(1)] by (simp_all add: late_added(2) late_first_def) (simp add: install_defs)
  then have "ownKeyGenerated late_engine" "\<forall>uid \<in> set (ownUserIds late_engine). length (uidText uid) < 4294967296"
    by (auto simp: map_eq_Cons_conv)
  moreover have "skKeyId k \<noteq> skKeyId k'" using k(2,3) by auto
  ultimately show ?thesis
    using late_ok(1,2) late_reachable sample_message(2) k by (simp add: correspondents_def newEngine_def)
qed

text \<open>C37: A sender who has imported the block of an engine addresses its newest subkey that is not revoked, not
  expired and marked for encryption. When the owner's first subkey is not that one, because it may not be encrypted to
  or because a later one that may be is newer, \<open>DecryptFile\<close> says that the file is invalid, although
  \<open>DecryptBuffer\<close> opens the same octets. The two are as for the round trip of a file: the owner has at least one such subkey,
  its key IDs and those of the at most six additional recipients differ, and the sizes fit the format.\<close>

theorem file_for_later_subkey_is_refused:
  assumes c: "correspondents L M now A B Ks" "cfb_stream_ok L" "length (additionalRecipients A) \<le> 6"
    and first: "\<not> (encryptable now B (hd (ownSubkeys B))
      \<and> (\<forall>k \<in> set (tl (ownSubkeys B)). encryptable now B k \<longrightarrow> skCreationTime k \<le> skCreationTime (hd (ownSubkeys B))))"
    and own: "authorised L B pw" "disk_ok E" "disk p = Some content" "p \<noteq> q" "length content < 4294960000"
  shows "\<exists>A' message. ImportPeerPublicKey L now A (Some (fst (renderOwnKeyBlocks B))) = Some (NO_ERROR, A')
    \<and> EncryptFile L M E A' (Some p) (Some q) disk = (NO_ERROR, disk(q \<mapsto> message))
    \<and> (\<forall>Z disk' r. disk' q = Some message \<longrightarrow> DecryptFile L Z E B pw (Some q) (Some r) disk' = Some (INVALID_DATA, disk'))
    \<and> (\<forall>buffer. DecryptBuffer L B pw (Some message) True buffer = copyOut 0 buffer content)"
proof -
  let ?A' = "installPeer (fillLegacySubkey now (importedBlock B)) A" and ?inner = "literalPacketOf content"
  have lib: "lib_ok L" "sealLib_ok L" "messageDraws_ok M" "digests_ok L" "length (mdPrefix M) = 16"
    and gen: "ownKeyGenerated B" "reachable L B" "\<forall>uid \<in> set (ownUserIds B). length (uidText uid) < 4294967296"
    and rest: "keysFor L M 1 Ks (additionalRecipients A)"
    and dist: "distinct (map skKeyId (ownSubkeys B) @ map okKeyId Ks)"
    using c(1) messageLib_sealLib [of L] by (simp_all add: correspondents_def lib_ok_def messageDraws_ok_def)
  note inv = reachable_identity_inv [OF gen(2) lib(1)]
  have "length ?inner = 1 + newFormatLengthOctets (6 + length content) + (6 + length content)"
    by (simp add: literalBody_facts(4) length_writePacket literalBody_facts)
  then have small: "length ?inner < 4294967000" using own(5) newFormatLengthOctets_le [of "6 + length content"] by linarith
  obtain s where a: "addressed now B s"
    and keys: "\<And>K. standsFor B s K \<Longrightarrow> keyFor L K (hd (recipientsOf ?A')) (mdEphemeral M 0)
       \<and> keysFor L M 0 (K # Ks) (recipientsOf ?A') \<and> distinct (map okKeyId (K # Ks))"
    by (rule exchange_keys [OF c(1) refl]) blast
  have s: "s \<in> set (ownSubkeys B)" and not_first: "s \<noteq> hd (ownSubkeys B)"
    using addressed_in [OF a] firstAddressed_other [OF first [folded firstAddressed_def] a] by blast+
  let ?K = "subkeyKey B s"
  have all: "keysFor L M 0 (?K # Ks) (recipientsOf ?A')" using keys [OF standsFor_subkey] by blast
  have few: "length (?K # Ks) \<le> 7" using keysFor_length [OF rest] c(3) by simp
  have hd: "hd (ownSubkeys B) \<in> set (ownSubkeys B)" using s by (cases "ownSubkeys B") auto
  have "okKeyId (firstKey B) = skKeyId (hd (ownSubkeys B))" using standsFor_first [OF inv gen(1)] by (simp add: standsFor_def)
  moreover have "skKeyId (hd (ownSubkeys B)) \<noteq> skKeyId s"
    using dist hd s not_first by (auto simp: distinct_map dest: inj_onD)
  moreover have "skKeyId (hd (ownSubkeys B)) \<notin> okKeyId ` set Ks" using dist hd by auto
  ultimately have other: "okKeyId (firstKey B) \<notin> okKeyId ` set (?K # Ks)" by (simp add: subkeyKey_def)
  obtain message where m: "sealed L M (recipientsOf ?A') (cipherOctet (symmetricCipherPreference ?A')) ?inner = Some message"
    "\<And>I. opContent I = message \<Longrightarrow> opened_ok I \<Longrightarrow> parseEncryptedFileHeader L (firstKey B) I = no"
    by (rule foreign_file [OF lib(2,3) all few other small]) blast
  have "openPlain L (seipPlain L (mdPrefix M) ?inner) False = yes (content, None)"
    using openPlain_literal [of L "mdPrefix M" content False] lib(4,5) own(5) by simp
  from exchange_opens_sealed [OF c(1) refl small this] m(1)
  have "parseAndDecryptMessageWithAnyOwnSubkey L B message False = yes (content, None)" by simp
  then have buffer: "DecryptBuffer L B pw (Some message) True buffer = copyOut 0 buffer content" for buffer
    using own(1) sealed_not_Nil [OF m(1)] by (simp add: DecryptBuffer_def decryptForCaller_def authorised_def has_text_def)
  have "peerKeyImported ?A'" using import_knowsMaster [of now B A] by (simp add: knowsMaster_def)
  then have "EncryptFile L M E ?A' (Some p) (Some q) disk = (NO_ERROR, disk(q \<mapsto> message))"
    using EncryptFile_writes [where p = p and disk = disk, OF own(2-4) _ lib(4) c(2) lib(5) m(1)] by simp
  with import_exported [OF lib(1) inv gen(1,3)] DecryptFile_foreign [OF own(2) _ own(1) m(2)] buffer show ?thesis by blast
qed

lemma file_for_later_subkey_is_refused_witness:
  "\<exists>A' message. EncryptFile late_lib sample_message_draws sample_files A' (Some ''a'') (Some ''b'') [''a'' \<mapsto> [104, 105]]
      = (NO_ERROR, [''a'' \<mapsto> [104, 105], ''b'' \<mapsto> message])
    \<and> DecryptFile late_lib sample_decoder sample_files late_engine (Some [112, 119]) (Some ''b'') (Some ''c'') [''b'' \<mapsto> message]
      = Some (INVALID_DATA, [''b'' \<mapsto> message])
    \<and> DecryptBuffer late_lib late_engine (Some [112, 119]) (Some message) True None = copyOut 0 None [104, 105]"
proof -
  have first: "\<not> (encryptable 10 late_engine (hd (ownSubkeys late_engine)) \<and> (\<forall>k \<in> set (tl (ownSubkeys late_engine)).
      encryptable 10 late_engine k \<longrightarrow> skCreationTime k \<le> skCreationTime (hd (ownSubkeys late_engine))))"
    by (rule late_subkeys) simp
  have pw: "authorised late_lib late_engine (Some [112, 119])"
    using late_authorised by (simp add: late_added(2) authorised_def mayUseIdentity_def passwordMatches_def)
  have few: "length (additionalRecipients newEngine) \<le> 6" by (simp add: newEngine_def)
  have files: "[''a'' \<mapsto> [104 :: byte, 105]] ''a'' = Some [104, 105]" "''a'' \<noteq> ''b''" "length [104 :: byte, 105] < 4294960000" by simp_all
  note refused = file_for_later_subkey_is_refused [where disk = "[''a'' \<mapsto> [104, 105]]" and p = "''a''" and q = "''b''" and content = "[104, 105]",
      OF late_correspondents late_ok(3) few first pw sample_files_ok files]
  then obtain A' message where
    "EncryptFile late_lib sample_message_draws sample_files A' (Some ''a'') (Some ''b'') [''a'' \<mapsto> [104, 105]]
      = (NO_ERROR, [''a'' \<mapsto> [104, 105], ''b'' \<mapsto> message])"
    "\<forall>Z disk' r. disk' ''b'' = Some message \<longrightarrow>
      DecryptFile late_lib Z sample_files late_engine (Some [112, 119]) (Some ''b'') (Some r) disk' = Some (INVALID_DATA, disk')"
    "\<forall>buffer. DecryptBuffer late_lib late_engine (Some [112, 119]) (Some message) True buffer = copyOut 0 buffer [104, 105]"
    by blast
  from this(1) this(2) [rule_format, of "[''b'' \<mapsto> message]" sample_decoder "''c''"] this(3) [rule_format, of None]
  show ?thesis by (intro exI [of _ A'] exI [of _ message] conjI) simp_all
qed

end
