(* ===== verification/CallerMemory.thy ===== *)
theory CallerMemory
  imports EngineState
begin

text \<open>
  The caller's memory as the functions of \<open>CUtils\<close> and \<open>CCryptoApi\<close> use it: an input pointer with a
  size, and an output pointer with a capacity and a place for the size of the answer. Every
  function of src/src/Utils/Utils.cpp and src/src/CryptoApi.cpp that fills a buffer follows one
  convention, which is the locale \<open>sized_output\<close>: a null pointer or a capacity that is too small is
  answered with \<open>BUFFER_TOO_SMALL\<close> and the size that is needed, and a call with that capacity then
  succeeds. \<open>codec\<close> joins two such calls that undo each other.

  Octets are read and written one at a time, as in the code: an access outside the memory that the
  pointer designates has no result (\<open>None\<close>), and neither has the overflow of a signed \<open>int\<close>.
\<close>

definition INT_MAX :: int where
  "INT_MAX = 2147483647"

definition u32 :: "nat \<Rightarrow> nat" where
  "u32 n = n mod 4294967296"

lemma u32_small [simp]: "n < 4294967296 \<Longrightarrow> u32 n = n"
  by (simp add: u32_def)

section \<open>Reading and writing\<close>

definition readAt :: "'a list option \<Rightarrow> nat \<Rightarrow> 'a option" where
  "readAt p i = (case p of None \<Rightarrow> None | Some b \<Rightarrow> byte_at b i)"

definition writeAt :: "'a list \<Rightarrow> nat \<Rightarrow> 'a \<Rightarrow> 'a list option" where
  "writeAt mem i b = (if i < length mem then Some (mem[i := b]) else None)"

text \<open>\<open>memcpy\<close> to an offset; nothing is touched when there is nothing to copy.\<close>

definition poke :: "'a list \<Rightarrow> nat \<Rightarrow> 'a list \<Rightarrow> 'a list option" where
  "poke mem off bs =
     (if off + length bs \<le> length mem then Some (take off mem @ bs @ drop (off + length bs) mem) else None)"

text \<open>The first \<open>n\<close> elements behind a pointer; a null pointer may be passed for none.\<close>

definition readBlock :: "'a list option \<Rightarrow> nat \<Rightarrow> 'a list option" where
  "readBlock p n = (case p of None \<Rightarrow> (if n = 0 then Some [] else None) | Some b \<Rightarrow> slice b 0 n)"

lemma readAt_Some [simp]: "readAt (Some b) i = byte_at b i"
  by (simp add: readAt_def)

lemma readBlock_Some [simp]: "n \<le> length b \<Longrightarrow> readBlock (Some b) n = Some (take n b)"
  by (simp add: readBlock_def)

lemma readBlock_0 [simp]: "readBlock p 0 = Some []"
  by (simp add: readBlock_def split: option.split)

lemma writeAt_in: "i < length mem \<Longrightarrow> writeAt mem i b = Some (mem[i := b])"
  by (simp add: writeAt_def)

lemma writeAt_append [simp]: "writeAt (pre @ x # post) (length pre) b = Some (pre @ b # post)"
  by (simp add: writeAt_def)

lemma writeAt_length: "writeAt mem i b = Some mem' \<Longrightarrow> length mem' = length mem"
  by (auto simp: writeAt_def split: if_splits)

lemma poke_in [simp]:
  "off + length bs \<le> length mem \<Longrightarrow> poke mem off bs = Some (take off mem @ bs @ drop (off + length bs) mem)"
  by (simp add: poke_def)

lemma poke_append:
  "length pre = off \<Longrightarrow> length gap = length bs \<Longrightarrow> poke (pre @ gap @ post) off bs = Some (pre @ bs @ post)"
  by (simp add: poke_def)

lemma poke_length: "poke mem off bs = Some mem' \<Longrightarrow> length mem' = length mem"
  by (auto simp: poke_def split: if_splits)

lemma poke_Some: "poke mem off bs = Some mem' \<longleftrightarrow>
    off + length bs \<le> length mem \<and> mem' = take off mem @ bs @ drop (off + length bs) mem"
  by (auto simp: poke_def)

lemma safe_poke [simp]: "safe (poke mem off bs) \<longleftrightarrow> off + length bs \<le> length mem"
  by (simp add: poke_def)

lemma safe_writeAt [simp]: "safe (writeAt mem i b) \<longleftrightarrow> i < length mem"
  by (simp add: writeAt_def)

lemma safe_readBlock: "(n > 0 \<Longrightarrow> p \<noteq> None) \<Longrightarrow> (\<And>b. p = Some b \<Longrightarrow> n \<le> length b) \<Longrightarrow> safe (readBlock p n)"
  by (auto simp: readBlock_def split: option.splits)

lemma readBlock_length: "readBlock p n = Some bs \<Longrightarrow> length bs = n"
  by (auto simp: readBlock_def slice_Some split: option.splits if_splits)

section \<open>What a call leaves behind\<close>

text \<open>The status, what is stored as the size (when the caller passed a place for it), and the output
  memory.\<close>

record 'a outcome =
  ocStatus :: status
  ocSize :: int
  ocMemory :: "'a list option"

definition failed :: "status \<Rightarrow> 'a list option \<Rightarrow> 'a outcome" where
  "failed st mem = \<lparr> ocStatus = st, ocSize = 0, ocMemory = mem \<rparr>"

definition too_small :: "int \<Rightarrow> 'a list option \<Rightarrow> 'a outcome" where
  "too_small n mem = \<lparr> ocStatus = BUFFER_TOO_SMALL, ocSize = n, ocMemory = mem \<rparr>"

definition done_with :: "int \<Rightarrow> 'a list \<Rightarrow> 'a outcome" where
  "done_with n mem = \<lparr> ocStatus = NO_ERROR, ocSize = n, ocMemory = Some mem \<rparr>"

lemma outcome_simps [simp]:
  "ocStatus (failed st m) = st" "ocSize (failed st m) = 0" "ocMemory (failed st m) = m"
  "ocStatus (too_small n m) = BUFFER_TOO_SMALL" "ocSize (too_small n m) = n" "ocMemory (too_small n m) = m"
  "ocStatus (done_with n mem) = NO_ERROR" "ocSize (done_with n mem) = n" "ocMemory (done_with n mem) = Some mem"
  by (simp_all add: failed_def too_small_def done_with_def)

lemma done_with_inject [simp]: "done_with n m = done_with n' m' \<longleftrightarrow> n = n' \<and> m = m'"
  by (simp add: done_with_def)

text \<open>The octets that the caller takes out of the buffer.\<close>

definition delivered :: "'a outcome \<Rightarrow> 'a list" where
  "delivered r = (case ocMemory r of None \<Rightarrow> [] | Some mem \<Rightarrow> take (nat (ocSize r)) mem)"

lemma delivered_done [simp]: "delivered (done_with (int (length bs)) (bs @ rest)) = bs"
  by (simp add: delivered_def)

text \<open>The buffer that a caller may pass: at least as long as the capacity stated.\<close>

definition roomy :: "int \<Rightarrow> 'a list option \<Rightarrow> bool" where
  "roomy capacity mem \<longleftrightarrow> (\<forall>m. mem = Some m \<longrightarrow> capacity \<le> int (length m))"

definition bufferHolds :: "'a list option \<Rightarrow> int \<Rightarrow> bool" where
  "bufferHolds buffer n \<longleftrightarrow> (\<forall>b. buffer = Some b \<longrightarrow> n \<le> int (length b))"

lemma roomy_Some [simp]: "roomy capacity (Some m) \<longleftrightarrow> capacity \<le> int (length m)"
  by (simp add: roomy_def)

lemma roomy_None [simp]: "roomy capacity None"
  by (simp add: roomy_def)

lemma bufferHolds_Some [simp]: "bufferHolds (Some b) n \<longleftrightarrow> n \<le> int (length b)"
  by (simp add: bufferHolds_def)

lemma bufferHolds_None [simp]: "bufferHolds None n"
  by (simp add: bufferHolds_def)

section \<open>The calling convention\<close>

locale sized_output =
  fixes call :: "'x \<Rightarrow> int \<Rightarrow> 'a list option \<Rightarrow> 'a outcome option"
    and yields :: "'x \<Rightarrow> 'a list option"
  assumes query: "yields x = Some out \<Longrightarrow> mem = None \<or> capacity < int (length out) \<Longrightarrow>
      call x capacity mem = Some (too_small (int (length out)) mem)"
    and deliver: "yields x = Some out \<Longrightarrow> int (length out) \<le> capacity \<Longrightarrow> capacity \<le> int (length m) \<Longrightarrow>
      call x capacity (Some m) = Some (done_with (int (length out)) (out @ drop (length out) m))"
begin

lemma exact: "yields x = Some out \<Longrightarrow> length m = length out \<Longrightarrow>
    call x (int (length out)) (Some m) = Some (done_with (int (length out)) out)"
  using deliver [of x out "int (length out)" m] by simp

text \<open>Asking for the size and calling again with a buffer of that size.\<close>

lemma ask_then_call:
  assumes "yields x = Some out"
  obtains n where "call x 0 None = Some (too_small n None)"
    and "\<And>m. int (length m) = n \<Longrightarrow> call x n (Some m) = Some (done_with n out)"
  using query [OF assms, of None 0] exact [OF assms] by fastforce

lemma never_overruns:
  assumes "yields x = Some out" "roomy capacity mem"
  shows "safe (call x capacity mem)"
proof (cases "mem = None \<or> capacity < int (length out)")
  case True
  then show ?thesis using query [OF assms(1)] by simp
next
  case False
  then obtain m where "mem = Some m" by auto
  with False assms deliver [OF assms(1), of capacity m] show ?thesis by simp
qed

text \<open>What lies behind the answer stays as it was.\<close>

lemma rest_untouched:
  assumes "yields x = Some out" "call x capacity (Some m) = Some r" "capacity \<le> int (length m)"
  shows "\<exists>m'. ocMemory r = Some m' \<and> length m' = length m \<and> drop (length out) m' = drop (length out) m"
proof (cases "capacity < int (length out)")
  case True
  then show ?thesis using query [OF assms(1), of "Some m" capacity] assms(2) by auto
next
  case False
  then show ?thesis using deliver [OF assms(1), of capacity m] assms(2,3) by auto
qed

end

locale codec = enc: sized_output encode encoded + dec: sized_output decode decoded
  for encode :: "'x \<Rightarrow> int \<Rightarrow> 'b list option \<Rightarrow> 'b outcome option"
    and encoded :: "'x \<Rightarrow> 'b list option"
    and decode :: "'y \<Rightarrow> int \<Rightarrow> 'a list option \<Rightarrow> 'a outcome option"
    and decoded :: "'y \<Rightarrow> 'a list option" +
  fixes argument :: "'x \<Rightarrow> 'b list \<Rightarrow> 'y"
    and payload :: "'x \<Rightarrow> 'a list"
  assumes inverse: "encoded x = Some t \<Longrightarrow> decoded (argument x t) = Some (payload x)"
begin

lemma round_trip:
  assumes "encoded x = Some t" "length t \<le> length m" "length (payload x) \<le> length m'"
  shows "\<exists>r. encode x (int (length m)) (Some m) = Some r \<and> ocStatus r = NO_ERROR \<and>
    decode (argument x (delivered r)) (int (length m')) (Some m')
      = Some (done_with (int (length (payload x))) (payload x @ drop (length (payload x)) m'))"
  using enc.deliver [OF assms(1), of "int (length m)" m] assms(2,3)
    dec.deliver [OF inverse [OF assms(1)], of "int (length m')" m'] by simp

text \<open>Two arguments with the same code carry the same payload.\<close>

lemma payload_determined:
  "encoded x = Some t \<Longrightarrow> encoded y = Some t \<Longrightarrow> argument x t = argument y t \<Longrightarrow> payload x = payload y"
  using inverse by (metis option.inject)

end

end
