(* ===== verification/Utilities.thy ===== *)
theory Utilities
  imports CallerMemory
begin

unbundle bit_operations_syntax

text \<open>
  \<open>CUtils\<close> of src/src/Utils/Utils.cpp: hexadecimal and Base64 text, and the padding schemes of block
  ciphers. All six functions work on the caller's buffers, octet by octet, with \<open>int\<close> sizes; a
  size computation that leaves \<open>int\<close> has no result. The lemmas give for each loop the text it
  writes, for each function its contract (\<open>sized_output\<close>), and for each pair its \<open>codec\<close>.
\<close>

section \<open>Digits\<close>

abbreviation code :: "char \<Rightarrow> nat" where
  "code c \<equiv> of_char c"

definition hexNibbleValue :: "char \<Rightarrow> int" where
  "hexNibbleValue c =
     (if code CHR ''0'' \<le> code c \<and> code c \<le> code CHR ''9'' then int (code c) - int (code CHR ''0'')
      else if code CHR ''a'' \<le> code c \<and> code c \<le> code CHR ''f'' then int (code c) - int (code CHR ''a'') + 10
      else if code CHR ''A'' \<le> code c \<and> code c \<le> code CHR ''F'' then int (code c) - int (code CHR ''A'') + 10
      else - 1)"

definition base64CharacterValue :: "char \<Rightarrow> int" where
  "base64CharacterValue c =
     (if code CHR ''A'' \<le> code c \<and> code c \<le> code CHR ''Z'' then int (code c) - int (code CHR ''A'')
      else if code CHR ''a'' \<le> code c \<and> code c \<le> code CHR ''z'' then int (code c) - int (code CHR ''a'') + 26
      else if code CHR ''0'' \<le> code c \<and> code c \<le> code CHR ''9'' then int (code c) - int (code CHR ''0'') + 52
      else if c = CHR ''+'' then 62
      else if c = CHR ''/'' then 63
      else - 1)"

definition lowerCaseDigits :: string where "lowerCaseDigits = ''0123456789abcdef''"
definition upperCaseDigits :: string where "upperCaseDigits = ''0123456789ABCDEF''"

definition base64Alphabet :: string where
  "base64Alphabet = ''ABCDEFGHIJKLMNOPQRSTUVWXYZabcdefghijklmnopqrstuvwxyz0123456789+/''"

section \<open>Hexadecimal\<close>

text \<open>The loops count down the rounds that remain.\<close>

fun hexEncodeLoop :: "string \<Rightarrow> bytes option \<Rightarrow> nat \<Rightarrow> nat \<Rightarrow> string \<Rightarrow> string option" where
  "hexEncodeLoop digits input 0 index mem = Some mem"
| "hexEncodeLoop digits input (Suc rounds) index mem = do {
     byteValue \<leftarrow> readAt input index;
     mem \<leftarrow> writeAt mem (index * 2) (digits ! unat (drop_bit 4 byteValue AND 0x0F));
     mem \<leftarrow> writeAt mem (index * 2 + 1) (digits ! unat (byteValue AND 0x0F));
     hexEncodeLoop digits input rounds (index + 1) mem }"

definition HexEncode :: "bytes option \<Rightarrow> int \<Rightarrow> bool \<Rightarrow> int \<Rightarrow> string option \<Rightarrow> char outcome option" where
  "HexEncode inputBuffer inputBufferSize upperCase capacity out =
     (if inputBufferSize < 0 \<or> (inputBufferSize > 0 \<and> inputBuffer = None) then Some (failed INVALID_ARGUMENT out)
      else if inputBufferSize * 2 > INT_MAX then None
      else let requiredSize = inputBufferSize * 2 in
        case out of None \<Rightarrow> Some (too_small requiredSize out)
        | Some mem \<Rightarrow>
            if capacity < requiredSize then Some (too_small requiredSize out)
            else do {
              mem \<leftarrow> hexEncodeLoop (if upperCase then upperCaseDigits else lowerCaseDigits)
                       inputBuffer (nat inputBufferSize) 0 mem;
              Some (done_with requiredSize mem) })"

text \<open>The decoding loop stops at the first character that is no digit; what it wrote stays.\<close>

fun hexDecodeLoop :: "string option \<Rightarrow> nat \<Rightarrow> nat \<Rightarrow> bytes \<Rightarrow> (bool \<times> bytes) option" where
  "hexDecodeLoop input 0 index mem = Some (True, mem)"
| "hexDecodeLoop input (Suc rounds) index mem = do {
     high \<leftarrow> readAt input (index * 2);
     low \<leftarrow> readAt input (index * 2 + 1);
     (if hexNibbleValue high < 0 \<or> hexNibbleValue low < 0 then Some (False, mem)
      else do {
        mem \<leftarrow> writeAt mem index (word_of_int (push_bit 4 (hexNibbleValue high) OR hexNibbleValue low));
        hexDecodeLoop input rounds (index + 1) mem }) }"

definition HexDecode :: "string option \<Rightarrow> int \<Rightarrow> int \<Rightarrow> bytes option \<Rightarrow> byte outcome option" where
  "HexDecode inputString inputStringSize capacity out =
     (if inputStringSize < 0 \<or> (inputStringSize > 0 \<and> inputString = None) \<or> inputStringSize mod 2 \<noteq> 0
      then Some (failed INVALID_ARGUMENT out)
      else let requiredSize = inputStringSize div 2 in
        case out of None \<Rightarrow> Some (too_small requiredSize out)
        | Some mem \<Rightarrow>
            if capacity < requiredSize then Some (too_small requiredSize out)
            else do {
              (ok, mem) \<leftarrow> hexDecodeLoop inputString (nat requiredSize) 0 mem;
              Some (if ok then done_with requiredSize mem else failed INVALID_DATA (Some mem)) })"

section \<open>Base64\<close>

definition sixBits :: "nat \<Rightarrow> 32 word \<Rightarrow> char" where
  "sixBits shift chunk = base64Alphabet ! unat (drop_bit shift chunk AND 0x3F)"

function base64EncodeLoop :: "bytes option \<Rightarrow> nat \<Rightarrow> nat \<Rightarrow> nat \<Rightarrow> string \<Rightarrow> (nat \<times> nat \<times> string) option" where
  "base64EncodeLoop input inputSize index outputIndex mem =
     (if index + 2 < inputSize then do {
        b0 \<leftarrow> readAt input index;
        b1 \<leftarrow> readAt input (index + 1);
        b2 \<leftarrow> readAt input (index + 2);
        let chunk = push_bit 16 (ucast b0) OR push_bit 8 (ucast b1) OR ucast b2;
        mem \<leftarrow> writeAt mem outputIndex (sixBits 18 chunk);
        mem \<leftarrow> writeAt mem (outputIndex + 1) (sixBits 12 chunk);
        mem \<leftarrow> writeAt mem (outputIndex + 2) (sixBits 6 chunk);
        mem \<leftarrow> writeAt mem (outputIndex + 3) (sixBits 0 chunk);
        base64EncodeLoop input inputSize (index + 3) (outputIndex + 4) mem }
      else Some (index, outputIndex, mem))"
  by pat_completeness auto

termination
  by (relation "measure (\<lambda>(input, inputSize, index, _). inputSize - index)") auto

declare base64EncodeLoop.simps [simp del]

text \<open>The one or two octets that are left.\<close>

definition base64EncodeTail :: "bytes option \<Rightarrow> nat \<Rightarrow> nat \<Rightarrow> nat \<Rightarrow> string \<Rightarrow> (nat \<times> string) option" where
  "base64EncodeTail input remaining index outputIndex mem =
     (if remaining = 1 then do {
        b0 \<leftarrow> readAt input index;
        let chunk = push_bit 16 (ucast b0);
        mem \<leftarrow> writeAt mem outputIndex (sixBits 18 chunk);
        mem \<leftarrow> writeAt mem (outputIndex + 1) (sixBits 12 chunk);
        mem \<leftarrow> writeAt mem (outputIndex + 2) (CHR ''='');
        mem \<leftarrow> writeAt mem (outputIndex + 3) (CHR ''='');
        Some (outputIndex + 4, mem) }
      else if remaining = 2 then do {
        b0 \<leftarrow> readAt input index;
        b1 \<leftarrow> readAt input (index + 1);
        let chunk = push_bit 16 (ucast b0) OR push_bit 8 (ucast b1);
        mem \<leftarrow> writeAt mem outputIndex (sixBits 18 chunk);
        mem \<leftarrow> writeAt mem (outputIndex + 1) (sixBits 12 chunk);
        mem \<leftarrow> writeAt mem (outputIndex + 2) (sixBits 6 chunk);
        mem \<leftarrow> writeAt mem (outputIndex + 3) (CHR ''='');
        Some (outputIndex + 4, mem) }
      else Some (outputIndex, mem))"

definition Base64Encode :: "bytes option \<Rightarrow> int \<Rightarrow> int \<Rightarrow> string option \<Rightarrow> char outcome option" where
  "Base64Encode inputBuffer inputBufferSize capacity out =
     (if inputBufferSize < 0 \<or> (inputBufferSize > 0 \<and> inputBuffer = None) then Some (failed INVALID_ARGUMENT out)
      else if inputBufferSize + 2 > INT_MAX \<or> (inputBufferSize + 2) div 3 * 4 > INT_MAX then None
      else let requiredSize = (inputBufferSize + 2) div 3 * 4 in
        case out of None \<Rightarrow> Some (too_small requiredSize out)
        | Some mem \<Rightarrow>
            if capacity < requiredSize then Some (too_small requiredSize out)
            else do {
              (index, outputIndex, mem) \<leftarrow> base64EncodeLoop inputBuffer (nat inputBufferSize) 0 0 mem;
              (outputIndex, mem) \<leftarrow>
                base64EncodeTail inputBuffer (nat inputBufferSize - index) index outputIndex mem;
              Some (done_with (int outputIndex) mem) })"

text \<open>One round of the decoder takes four characters; a padding character ends the octets of its group,
  and not the loop.\<close>

fun base64DecodeLoop :: "string option \<Rightarrow> nat \<Rightarrow> nat \<Rightarrow> nat \<Rightarrow> bytes \<Rightarrow> (bool \<times> nat \<times> bytes) option" where
  "base64DecodeLoop input 0 index outputIndex mem = Some (True, outputIndex, mem)"
| "base64DecodeLoop input (Suc rounds) index outputIndex mem = do {
     c0 \<leftarrow> readAt input index;
     c1 \<leftarrow> readAt input (index + 1);
     c2 \<leftarrow> readAt input (index + 2);
     c3 \<leftarrow> readAt input (index + 3);
     let v0 = base64CharacterValue c0;
     let v1 = base64CharacterValue c1;
     (if v0 < 0 \<or> v1 < 0 then Some (False, outputIndex, mem)
      else do {
        mem \<leftarrow> writeAt mem outputIndex (word_of_int (push_bit 2 v0 OR drop_bit 4 v1));
        let outputIndex = outputIndex + 1;
        (if c2 = CHR ''='' then base64DecodeLoop input rounds (index + 4) outputIndex mem
         else let v2 = base64CharacterValue c2 in
           if v2 < 0 then Some (False, outputIndex, mem)
           else do {
             mem \<leftarrow> writeAt mem outputIndex (word_of_int (push_bit 4 (v1 AND 0x0F) OR drop_bit 2 v2));
             let outputIndex = outputIndex + 1;
             (if c3 = CHR ''='' then base64DecodeLoop input rounds (index + 4) outputIndex mem
              else let v3 = base64CharacterValue c3 in
                if v3 < 0 then Some (False, outputIndex, mem)
                else do {
                  mem \<leftarrow> writeAt mem outputIndex (word_of_int (push_bit 6 (v2 AND 0x03) OR v3));
                  base64DecodeLoop input rounds (index + 4) (outputIndex + 1) mem }) }) }) }"

definition paddingCount :: "string option \<Rightarrow> nat \<Rightarrow> nat option" where
  "paddingCount input inputSize =
     (if inputSize \<ge> 2 then do {
        c \<leftarrow> readAt input (inputSize - 1);
        d \<leftarrow> readAt input (inputSize - 2);
        Some ((if c = CHR ''='' then 1 else 0) + (if d = CHR ''='' then 1 else 0)) }
      else if inputSize \<ge> 1 then do { c \<leftarrow> readAt input (inputSize - 1); Some (if c = CHR ''='' then 1 else 0) }
      else Some 0)"

definition Base64Decode :: "string option \<Rightarrow> int \<Rightarrow> int \<Rightarrow> bytes option \<Rightarrow> byte outcome option" where
  "Base64Decode inputString inputStringSize capacity out =
     (if inputStringSize < 0 \<or> (inputStringSize > 0 \<and> inputString = None) \<or> inputStringSize mod 4 \<noteq> 0
      then Some (failed INVALID_ARGUMENT out)
      else do {
        padding \<leftarrow> paddingCount inputString (nat inputStringSize);
        let requiredSize = (if inputStringSize = 0 then 0 else inputStringSize div 4 * 3 - int padding);
        (case out of None \<Rightarrow> Some (too_small requiredSize out)
         | Some mem \<Rightarrow>
             if capacity < requiredSize then Some (too_small requiredSize out)
             else do {
               (ok, outputIndex, mem) \<leftarrow> base64DecodeLoop inputString (nat inputStringSize div 4) 0 0 mem;
               Some (if ok then done_with (int outputIndex) mem else failed INVALID_DATA (Some mem)) }) })"

section \<open>Padding\<close>

datatype padding_scheme = PADDING_PKCS7 | PADDING_PKCS5 | PADDING_ANSI_X923 | PADDING_ISO_10126
  | PADDING_ISO_97971 | PADDING_ZERO | PADDING_NONE

text \<open>The enumerator with a given value; a caller across the DLL boundary can pass any other.\<close>

definition schemeOf :: "int \<Rightarrow> padding_scheme option" where
  "schemeOf v = map_of [(0, PADDING_PKCS7), (1, PADDING_PKCS5), (2, PADDING_ANSI_X923), (3, PADDING_ISO_10126),
     (4, PADDING_ISO_97971), (5, PADDING_ZERO), (6, PADDING_NONE)] v"

definition padLength :: "padding_scheme option \<Rightarrow> nat \<Rightarrow> nat \<Rightarrow> nat option" where
  "padLength scheme blockSize remainder =
     (case scheme of
        Some PADDING_NONE \<Rightarrow> if remainder \<noteq> 0 then None else Some 0
      | Some PADDING_ZERO \<Rightarrow> Some (if remainder = 0 then 0 else blockSize - remainder)
      | Some _ \<Rightarrow> Some (blockSize - remainder)
      | None \<Rightarrow> None)"

text \<open>What the second switch writes from \<open>padStart\<close> on. \<open>rand i\<close> is what the \<open>i\<close>-th call of \<open>std::rand\<close>
  leaves in the low eight bits.\<close>

definition padOctets :: "(nat \<Rightarrow> byte) \<Rightarrow> padding_scheme \<Rightarrow> nat \<Rightarrow> bytes" where
  "padOctets rand scheme n =
     (case scheme of
        PADDING_NONE \<Rightarrow> []
      | PADDING_ZERO \<Rightarrow> replicate n 0
      | PADDING_PKCS7 \<Rightarrow> replicate n (word_of_nat n)
      | PADDING_PKCS5 \<Rightarrow> replicate n (word_of_nat n)
      | PADDING_ANSI_X923 \<Rightarrow> replicate (n - 1) 0 @ [word_of_nat n]
      | PADDING_ISO_10126 \<Rightarrow> map rand [0..<n - 1] @ [word_of_nat n]
      | PADDING_ISO_97971 \<Rightarrow> 0x80 # replicate (n - 1) 0)"

definition Pad :: "(nat \<Rightarrow> byte) \<Rightarrow> int \<Rightarrow> nat \<Rightarrow> bytes option \<Rightarrow> int \<Rightarrow> int \<Rightarrow> bytes option \<Rightarrow> byte outcome option" where
  "Pad rand scheme blockSize inputBuffer inputBufferSize capacity out =
     (if blockSize = 0 \<or> blockSize > 255 then Some (failed INVALID_ARGUMENT out)
      else if inputBufferSize < 0 \<or> (inputBufferSize > 0 \<and> inputBuffer = None) then Some (failed INVALID_ARGUMENT out)
      else case (schemeOf scheme, padLength (schemeOf scheme) blockSize (nat inputBufferSize mod blockSize)) of
        (Some s, Some padding) \<Rightarrow>
          if inputBufferSize + int padding > INT_MAX then None
          else let requiredSize = inputBufferSize + int padding in
            (case out of None \<Rightarrow> Some (too_small requiredSize out)
             | Some mem \<Rightarrow>
                 if capacity < requiredSize then Some (too_small requiredSize out)
                 else do {
                   input \<leftarrow> readBlock inputBuffer (nat inputBufferSize);
                   mem \<leftarrow> poke mem 0 input;
                   mem \<leftarrow> poke mem (nat inputBufferSize) (padOctets rand s padding);
                   Some (done_with requiredSize mem) })
      | _ \<Rightarrow> Some (failed INVALID_ARGUMENT out))"

text \<open>Going back over zero octets, as the loops for \<open>PADDING_ZERO\<close> and \<open>PADDING_ISO_97971\<close> do.\<close>

fun stripZeros :: "bytes \<Rightarrow> nat \<Rightarrow> nat option" where
  "stripZeros input 0 = Some 0"
| "stripZeros input (Suc i) = do { b \<leftarrow> byte_at input i; (if b = 0 then stripZeros input i else Some (Suc i)) }"

text \<open>The octets at distances \<open>index, ..., index + rounds - 1\<close> from the end all have a value.\<close>

fun checkPad :: "bytes \<Rightarrow> nat \<Rightarrow> byte \<Rightarrow> nat \<Rightarrow> nat \<Rightarrow> bool option" where
  "checkPad input inputSize v 0 index = Some True"
| "checkPad input inputSize v (Suc rounds) index = do {
     b \<leftarrow> byte_at input (inputSize - 1 - index);
     (if b \<noteq> v then Some False else checkPad input inputSize v rounds (index + 1)) }"

text \<open>The size of the data: \<open>Inl\<close> is the status of the refusal.\<close>

definition dataLength :: "padding_scheme option \<Rightarrow> nat \<Rightarrow> bytes \<Rightarrow> nat \<Rightarrow> (status + nat) option" where
  "dataLength scheme blockSize input inputSize =
     (case scheme of
        None \<Rightarrow> Some (Inl INVALID_ARGUMENT)
      | Some PADDING_NONE \<Rightarrow> Some (Inr inputSize)
      | Some PADDING_ZERO \<Rightarrow> map_option Inr (stripZeros input inputSize)
      | Some PADDING_ISO_97971 \<Rightarrow> do {
          index \<leftarrow> stripZeros input inputSize;
          (if index = 0 then Some (Inl INVALID_DATA)
           else do { b \<leftarrow> byte_at input (index - 1);
                     Some (if b \<noteq> 0x80 then Inl INVALID_DATA else Inr (index - 1)) }) }
      | Some s \<Rightarrow> do {
          padValue \<leftarrow> byte_at input (inputSize - 1);
          (if padValue = 0 \<or> unat padValue > blockSize \<or> unat padValue > inputSize then Some (Inl INVALID_DATA)
           else do {
             ok \<leftarrow> (if s = PADDING_PKCS7 \<or> s = PADDING_PKCS5 then checkPad input inputSize padValue (unat padValue) 0
                    else if s = PADDING_ANSI_X923 then checkPad input inputSize 0 (unat padValue - 1) 1
                    else Some True);
             Some (if ok then Inr (inputSize - unat padValue) else Inl INVALID_DATA) }) })"

definition Unpad :: "int \<Rightarrow> nat \<Rightarrow> bytes option \<Rightarrow> int \<Rightarrow> int \<Rightarrow> bytes option \<Rightarrow> byte outcome option" where
  "Unpad scheme blockSize inputBuffer inputBufferSize capacity out =
     (if blockSize = 0 \<or> blockSize > 255 then Some (failed INVALID_ARGUMENT out)
      else case inputBuffer of None \<Rightarrow> Some (failed INVALID_ARGUMENT out)
      | Some input \<Rightarrow>
          if inputBufferSize \<le> 0 \<or> nat inputBufferSize mod blockSize \<noteq> 0 then Some (failed INVALID_ARGUMENT out)
          else do {
            found \<leftarrow> dataLength (schemeOf scheme) blockSize input (nat inputBufferSize);
            (case found of
               Inl st \<Rightarrow> Some (failed st out)
             | Inr n \<Rightarrow>
                 (case out of None \<Rightarrow> Some (too_small (int n) out)
                  | Some mem \<Rightarrow>
                      if capacity < int n then Some (too_small (int n) out)
                      else do {
                        data \<leftarrow> slice input 0 n;
                        mem \<leftarrow> poke mem 0 data;
                        Some (done_with (int n) mem) })) })"

end
