(* ===== verification/UtilityFacts.thy ===== *)
theory UtilityFacts
  imports Utilities
begin

unbundle bit_operations_syntax

text \<open>
  Lemmas on \<open>CUtils\<close> (src/src/Utils/Utils.cpp): the value of every digit, the text and the octets that
  each loop of the encoders and decoders writes, for texts of either case and with padding anywhere,
  and what the loops of \<open>Unpad\<close> find at the end of a padded block.
\<close>

section \<open>Digits and words\<close>

lemma div_of_mod: "(x mod (p * q)) div p = x div p mod q" if "0 < p" for x p q :: nat
  using that by (simp add: mod_mult2_eq)

lemma octet_of_digits:
  fixes n :: nat
  shows "(n div 262144 mod 64) * 4 + (n div 4096 mod 64) div 16 = n div 65536 mod 256"
    "(n div 4096 mod 64) mod 16 * 16 + (n div 64 mod 64) div 4 = n div 256 mod 256"
    "(n div 64 mod 64) mod 4 * 64 + n mod 64 = n mod 256"
proof -
  show "(n div 262144 mod 64) * 4 + (n div 4096 mod 64) div 16 = n div 65536 mod 256"
    using div_of_mod [of 16 "n div 4096" 4] mod_mult2_eq [of "n div 65536" 4 64] by (simp add: div_mult2_eq [symmetric])
  show "(n div 4096 mod 64) mod 16 * 16 + (n div 64 mod 64) div 4 = n div 256 mod 256"
    using div_of_mod [of 4 "n div 64" 16] mod_mult2_eq [of "n div 256" 16 16] by (simp add: div_mult2_eq [symmetric] mod_mod_cancel)
  show "(n div 64 mod 64) mod 4 * 64 + n mod 64 = n mod 256"
    using mod_mult2_eq [of n 64 4] by (simp add: mod_mod_cancel)
qed

lemma unat_dropped: "unat (drop_bit k w) = unat w div 2 ^ k" for w :: "'a::len word"
proof -
  have "unat (drop_bit k w) = drop_bit k (unat w)"
    by (rule bit_eqI) (simp add: bit_simps)
  then show ?thesis by (simp only: drop_bit_eq_div)
qed

lemma and_low: "n AND 15 = n mod 16" "n AND 63 = n mod 64" for n :: nat
  using take_bit_eq_mask [of 4 n] take_bit_eq_mask [of 6 n] by (simp_all add: mask_eq_exp_minus_1 take_bit_eq_mod)

lemma unat_widened: "unat (ucast b :: 32 word) = unat b" for b :: byte
proof -
  have "unat b < 2 ^ 32" by (rule order_less_trans [OF unat_byte_lt]) simp
  then show ?thesis by (simp add: unsigned_ucast_eq take_bit_nat_eq_self)
qed

lemma unat_shifted: "k \<le> 16 \<Longrightarrow> unat (push_bit k (ucast b) :: 32 word) = push_bit k (unat b)" for b :: byte
proof -
  assume k: "k \<le> 16"
  have "push_bit k (unat b) < 2 ^ (k + 8)"
    using unat_byte_lt [of b] by (simp add: push_bit_eq_mult power_add del: unat_byte_lt)
  also have "(2 :: nat) ^ (k + 8) \<le> 2 ^ 32"
    by (rule power_increasing) (use k in auto)
  finally have "take_bit 32 (push_bit k (unat b)) = push_bit k (unat b)"
    by (rule take_bit_nat_eq_self)
  then show ?thesis
    by (simp add: unsigned_push_bit_eq unat_widened)
qed

lemma chunk_value: "unat (push_bit 16 (ucast b0) OR push_bit 8 (ucast b1) OR ucast b2 :: 32 word)
    = unat b0 * 65536 + unat b1 * 256 + unat b2" for b0 b1 b2 :: byte
proof -
  have "unat (push_bit 16 (ucast b0) OR push_bit 8 (ucast b1) OR ucast b2 :: 32 word)
     = push_bit 16 (unat b0) OR (push_bit 8 (unat b1) OR unat b2)"
    by (simp add: unsigned_or_eq unat_shifted unat_widened or.assoc)
  also have "\<dots> = unat b0 * 65536 + unat b1 * 256 + unat b2"
    using push_bit_or_lt [of "unat b2" 8 "unat b1"] push_bit_or_lt [of "unat b1 * 256 + unat b2" 16 "unat b0"]
      unat_byte_lt [of b1] unat_byte_lt [of b2] by simp
  finally show ?thesis .
qed

lemma sixBits_index: "sixBits k chunk = base64Alphabet ! (unat chunk div 2 ^ k mod 64)"
proof -
  have "unat (drop_bit k chunk AND 0x3F) = unat (drop_bit k chunk) AND 63"
    by (simp only: unsigned_and_eq) simp
  also have "\<dots> = unat chunk div 2 ^ k mod 64"
    by (simp only: and_low unat_dropped)
  finally show ?thesis by (simp add: sixBits_def)
qed

lemma base64_digit_values: "map base64CharacterValue base64Alphabet = map int [0..<64]"
  by (simp add: base64Alphabet_def base64CharacterValue_def upt_conv_Cons)

lemma base64_digit: "v < 64 \<Longrightarrow> base64CharacterValue (base64Alphabet ! v) = int v \<and> base64Alphabet ! v \<noteq> CHR ''=''"
proof -
  have len: "length base64Alphabet = 64" and pad: "CHR ''='' \<notin> set base64Alphabet"
    by (simp_all add: base64Alphabet_def)
  assume v: "v < 64"
  have "map base64CharacterValue base64Alphabet ! v = map int [0..<64] ! v"
    by (simp only: base64_digit_values)
  moreover have "base64Alphabet ! v \<in> set base64Alphabet"
    using v len by simp
  with pad have notpad: "base64Alphabet ! v \<noteq> CHR ''=''" by metis
  ultimately show ?thesis using v len notpad by (simp del: upt.simps)
qed

lemma hex_digit: "v < 16 \<Longrightarrow> hexNibbleValue ((if u then upperCaseDigits else lowerCaseDigits) ! v) = int v"
proof -
  have "\<forall>v \<in> set [0..<16]. hexNibbleValue (upperCaseDigits ! v) = int v \<and> hexNibbleValue (lowerCaseDigits ! v) = int v"
    by code_simp
  then show "v < 16 \<Longrightarrow> ?thesis" by simp
qed

lemma int_combine: "b < 2 ^ k \<Longrightarrow> push_bit k (int a) OR int b = int (a * 2 ^ k + b)"
  using push_bit_or_lt [of b k a] by (metis of_nat_or_eq of_nat_push_bit)

lemma hex_octet: "(word_of_int (push_bit 4 (int (unat (drop_bit 4 b AND 0x0F))) OR int (unat (b AND 0x0F))) :: byte) = b"
  (is "word_of_int (push_bit 4 (int ?h) OR int ?l) = b") for b :: byte
proof -
  have l: "?l = unat b mod 16"
    by (simp only: unsigned_and_eq) (simp add: and_low)
  have "?h = unat b div 16 mod 16"
    by (simp only: unsigned_and_eq unat_dropped) (simp add: and_low)
  then have h: "?h = unat b div 16"
    using unat_byte_lt [of b] by simp
  have "push_bit 4 (int ?h) OR int ?l = int (unat b)"
    using int_combine [of ?l 4 ?h] unfolding h l by simp
  then show ?thesis by simp
qed


section \<open>Writing one octet after the other\<close>

lemma four_cells:
  assumes "length gap = 4 + n"
  obtains w x y z gap' where "gap = w # x # y # z # gap'" "length gap' = n"
proof -
  from assms have "length gap = Suc (Suc (Suc (Suc n)))" by simp
  then obtain w x y z gap' where "gap = w # x # y # z # gap'" "length gap' = n"
    by (auto simp: length_Suc_conv)
  then show ?thesis by (rule that)
qed

lemma four_writes: "do { m \<leftarrow> writeAt (pre @ w # x # y # z # post) (length pre) a;
     m \<leftarrow> writeAt m (length pre + 1) b; m \<leftarrow> writeAt m (length pre + 2) c;
     m \<leftarrow> writeAt m (length pre + 3) d; k m } = k (pre @ a # b # c # d # post)"
  by (simp add: writeAt_def list_update_append numeral_2_eq_2 numeral_3_eq_3 Suc_diff_le)

section \<open>Base64: the text of some octets\<close>

definition digitOf :: "nat \<Rightarrow> nat \<Rightarrow> char" where
  "digitOf k n = base64Alphabet ! (n div 2 ^ k mod 64)"

definition chunkOf :: "byte \<Rightarrow> byte \<Rightarrow> byte \<Rightarrow> nat" where
  "chunkOf a b c = unat a * 65536 + unat b * 256 + unat c"

fun base64Text :: "bytes \<Rightarrow> string" where
  "base64Text (a # b # c # rest) =
     [digitOf 18 (chunkOf a b c), digitOf 12 (chunkOf a b c), digitOf 6 (chunkOf a b c), digitOf 0 (chunkOf a b c)] @ base64Text rest"
| "base64Text [a, b] = [digitOf 18 (chunkOf a b 0), digitOf 12 (chunkOf a b 0), digitOf 6 (chunkOf a b 0), CHR ''='']"
| "base64Text [a] = [digitOf 18 (chunkOf a 0 0), digitOf 12 (chunkOf a 0 0), CHR ''='', CHR ''='']"
| "base64Text [] = []"

lemma length_base64Text: "length (base64Text bs) = (length bs + 2) div 3 * 4"
proof (induction bs rule: base64Text.induct)
  case (1 a b c rest)
  have "(length (a # b # c # rest) + 2) div 3 = (length rest + 2) div 3 + 1"
    using div_add_self2 [of 3 "length rest + 2"] by simp
  with 1 show ?case by simp
qed auto

lemma sixBits_group:
  "sixBits k (push_bit 16 (ucast a) OR push_bit 8 (ucast b) OR ucast c) = digitOf k (chunkOf a b c)"
  "sixBits k (push_bit 16 (ucast a) OR push_bit 8 (ucast b)) = digitOf k (chunkOf a b 0)"
  "sixBits k (push_bit 16 (ucast a)) = digitOf k (chunkOf a 0 0)"
  using chunk_value [of a b c] chunk_value [of a b 0] chunk_value [of a 0 0]
  by (simp_all add: sixBits_index digitOf_def chunkOf_def)

lemma three_reads:
  "byte_at (before @ a # b # c # rest) (length before) = Some a"
  "byte_at (before @ a # b # c # rest) (length before + 1) = Some b"
  "byte_at (before @ a # b # c # rest) (length before + 2) = Some c"
  by (simp_all add: byte_at_def nth_append)

lemma base64EncodeLoop_round:
  "base64EncodeLoop (Some (before @ a # b # c # rest)) n (length before) (length pre) (pre @ w # x # y # z # post) =
     (if length before + 2 < n then base64EncodeLoop (Some (before @ a # b # c # rest)) n (length before + 3) (length pre + 4)
        (pre @ digitOf 18 (chunkOf a b c) # digitOf 12 (chunkOf a b c) # digitOf 6 (chunkOf a b c) # digitOf 0 (chunkOf a b c) # post)
      else Some (length before, length pre, pre @ w # x # y # z # post))"
  by (subst base64EncodeLoop.simps) (simp only: readAt_Some three_reads Let_def Option.bind.bind_lunit four_writes sixBits_group)

lemma base64EncodeLoop_stop:
  "n \<le> length before + 2 \<Longrightarrow> base64EncodeLoop input n (length before) out mem = Some (length before, out, mem)"
  by (subst base64EncodeLoop.simps) simp

lemma steps: "n + 3 = Suc (Suc (Suc n))" "n + 4 = Suc (Suc (Suc (Suc n)))"
  by simp_all

lemma two_reads:
  "byte_at (before @ a # b # rest) (length before) = Some a"
  "byte_at (before @ a # b # rest) (length before + 1) = Some b"
  by (simp_all add: byte_at_def nth_append)

lemma base64EncodeTail_cases:
  "base64EncodeTail (Some (before @ a # b # after)) 2 (length before) (length pre) (pre @ w # x # y # z # tail)
     = Some (length pre + 4, pre @ digitOf 18 (chunkOf a b 0) # digitOf 12 (chunkOf a b 0) # digitOf 6 (chunkOf a b 0) # CHR ''='' # tail)"
  "base64EncodeTail (Some (before @ a # after)) 1 (length before) (length pre) (pre @ w # x # y # z # tail)
     = Some (length pre + 4, pre @ digitOf 18 (chunkOf a 0 0) # digitOf 12 (chunkOf a 0 0) # CHR ''='' # CHR ''='' # tail)"
  "base64EncodeTail input 0 index outputIndex mem = Some (outputIndex, mem)"
proof -
  have n: "(2 :: nat) = 1 \<longleftrightarrow> False" "(2 :: nat) = 2 \<longleftrightarrow> True" "(1 :: nat) = 1 \<longleftrightarrow> True" by simp_all
  show "base64EncodeTail (Some (before @ a # b # after)) 2 (length before) (length pre) (pre @ w # x # y # z # tail)
     = Some (length pre + 4, pre @ digitOf 18 (chunkOf a b 0) # digitOf 12 (chunkOf a b 0) # digitOf 6 (chunkOf a b 0) # CHR ''='' # tail)"
    by (simp only: base64EncodeTail_def n if_True if_False readAt_Some two_reads Let_def Option.bind.bind_lunit four_writes sixBits_group)
  show "base64EncodeTail (Some (before @ a # after)) 1 (length before) (length pre) (pre @ w # x # y # z # tail)
     = Some (length pre + 4, pre @ digitOf 18 (chunkOf a 0 0) # digitOf 12 (chunkOf a 0 0) # CHR ''='' # CHR ''='' # tail)"
    by (simp only: base64EncodeTail_def n if_True if_False readAt_Some byte_at_append_start Let_def Option.bind.bind_lunit four_writes sixBits_group)
qed (simp add: base64EncodeTail_def)

lemma base64_written:
  assumes "length gap = length (base64Text xs)"
  shows "do { (index, outputIndex, mem) \<leftarrow>
           base64EncodeLoop (Some (before @ xs @ after)) (length before + length xs) (length before) (length pre) (pre @ gap @ tail);
         base64EncodeTail (Some (before @ xs @ after)) (length before + length xs - index) index outputIndex mem }
    = Some (length pre + length (base64Text xs), pre @ base64Text xs @ tail)"
  using assms
proof (induction xs arbitrary: before pre gap rule: base64Text.induct)
  case (1 a b c rest)
  let ?t = "[digitOf 18 (chunkOf a b c), digitOf 12 (chunkOf a b c), digitOf 6 (chunkOf a b c), digitOf 0 (chunkOf a b c)]"
  from "1.prems" have "length gap = 4 + length (base64Text rest)" by simp
  then obtain w x y z gap' where gap: "gap = w # x # y # z # gap'" "length gap' = length (base64Text rest)"
    by (rule four_cells)
  show ?case
    using "1.IH" [of gap' "before @ [a, b, c]" "pre @ ?t"] gap by (simp add: base64EncodeLoop_round steps)
next
  case (2 a b)
  then have "length gap = 4 + 0" by simp
  then obtain w x y z gap' where "gap = w # x # y # z # gap'" "length gap' = 0" by (rule four_cells)
  then have gap: "gap = [w, x, y, z]" by simp
  show ?case
    unfolding gap using base64EncodeTail_cases(1) [of before a b after pre w x y z tail] by (simp add: base64EncodeLoop_stop)
next
  case (3 a)
  then have "length gap = 4 + 0" by simp
  then obtain w x y z gap' where "gap = w # x # y # z # gap'" "length gap' = 0" by (rule four_cells)
  then have gap: "gap = [w, x, y, z]" by simp
  show ?case
    unfolding gap using base64EncodeTail_cases(2) [of before a after pre w x y z tail] by (simp add: base64EncodeLoop_stop)
next
  case 4
  then show ?case by (simp add: base64EncodeLoop_stop base64EncodeTail_cases)
qed


section \<open>Base64: back to octets\<close>

lemma readAt_plus [simp]: "readAt (Some (before @ xs)) (length before + i) = readAt (Some xs) i"
  by (simp add: byte_at_def)

lemma digitOf_value [simp]:
  "base64CharacterValue (digitOf k n) = int (n div 2 ^ k mod 64)" "digitOf k n \<noteq> CHR ''=''"
  using base64_digit [of "n div 2 ^ k mod 64"] by (simp_all add: digitOf_def)

lemma digits_as_nat:
  assumes "d1 < 64" "d2 < 64" "d3 < 64"
  shows "(word_of_int (push_bit 2 (int d0) OR drop_bit 4 (int d1)) :: byte) = word_of_nat (d0 * 4 + d1 div 16)"
    "(word_of_int (push_bit 4 (int d1 AND 0x0F) OR drop_bit 2 (int d2)) :: byte) = word_of_nat (d1 mod 16 * 16 + d2 div 4)"
    "(word_of_int (push_bit 6 (int d2 AND 0x03) OR int d3) :: byte) = word_of_nat (d2 mod 4 * 64 + d3)"
proof -
  have ands: "int d1 AND 0x0F = int (d1 mod 16)" "int d2 AND 0x03 = int (d2 mod 4)"
    using take_bit_eq_mask [of 4 "int d1"] take_bit_eq_mask [of 2 "int d2"]
    by (simp_all add: mask_eq_exp_minus_1 take_bit_eq_mod of_nat_mod)
  have drops: "drop_bit 4 (int d1) = int (d1 div 16)" "drop_bit 2 (int d2) = int (d2 div 4)"
    by (simp_all add: drop_bit_eq_div of_nat_div)
  have lt: "d1 div 16 < 2 ^ 2" "d2 div 4 < 2 ^ 4" "d3 < 2 ^ 6"
    using assms by (simp_all add: div_less_iff_less_mult)
  have pow: "(2 :: nat) ^ 2 = 4" "(2 :: nat) ^ 4 = 16" "(2 :: nat) ^ 6 = 64"
    by simp_all
  show "(word_of_int (push_bit 2 (int d0) OR drop_bit 4 (int d1)) :: byte) = word_of_nat (d0 * 4 + d1 div 16)"
    by (simp only: drops int_combine [OF lt(1)] pow of_int_of_nat_eq)
  show "(word_of_int (push_bit 4 (int d1 AND 0x0F) OR drop_bit 2 (int d2)) :: byte) = word_of_nat (d1 mod 16 * 16 + d2 div 4)"
    by (simp only: ands drops int_combine [OF lt(2)] pow of_int_of_nat_eq)
  show "(word_of_int (push_bit 6 (int d2 AND 0x03) OR int d3) :: byte) = word_of_nat (d2 mod 4 * 64 + d3)"
    by (simp only: ands int_combine [OF lt(3)] pow of_int_of_nat_eq)
qed

lemma three_octets:
  assumes "b < 256" "c < (256 :: nat)"
  shows "(a * 65536 + b * 256 + c) div 256 = a * 256 + b" "(a * 65536 + b * 256 + c) div 65536 = a"
    "(a * 65536 + b * 256 + c) mod 256 = c"
proof -
  have n: "a * 65536 + b * 256 + c = c + 256 * (a * 256 + b)" by simp
  show low: "(a * 65536 + b * 256 + c) div 256 = a * 256 + b"
    unfolding n using assms by (subst div_mult_self2) simp_all
  have "(a * 65536 + b * 256 + c) div 65536 = (a * 65536 + b * 256 + c) div 256 div 256"
    by (simp add: div_mult2_eq [symmetric])
  also have "\<dots> = (b + 256 * a) div 256"
    unfolding low by (simp add: algebra_simps)
  also have "\<dots> = a"
    using assms by (subst div_mult_self2) simp_all
  finally show "(a * 65536 + b * 256 + c) div 65536 = a" .
  show "(a * 65536 + b * 256 + c) mod 256 = c"
    unfolding n using assms by (subst mod_mult_self2) simp_all
qed

lemma chunkOf_octets:
  "chunkOf a b c div 65536 mod 256 = unat a" "chunkOf a b c div 256 mod 256 = unat b" "chunkOf a b c mod 256 = unat c"
  unfolding chunkOf_def three_octets [OF unat_byte_lt unat_byte_lt]
  by (simp_all add: mod_less)

lemma digits_octets [simp]:
  "(word_of_int (push_bit 2 (int (chunkOf a b c div 262144 mod 64)) OR drop_bit 4 (int (chunkOf a b c div 4096 mod 64))) :: byte) = a"
  "(word_of_int (push_bit 4 (int (chunkOf a b c div 4096 mod 64) AND 0x0F) OR drop_bit 2 (int (chunkOf a b c div 64 mod 64))) :: byte) = b"
  "(word_of_int (push_bit 6 (int (chunkOf a b c div 64 mod 64) AND 0x03) OR int (chunkOf a b c mod 64)) :: byte) = c"
proof -
  have lt: "n mod 64 < 64" for n :: nat by simp
  have again: "word_of_nat (unat x) = x" for x :: byte by simp
  show "(word_of_int (push_bit 2 (int (chunkOf a b c div 262144 mod 64)) OR drop_bit 4 (int (chunkOf a b c div 4096 mod 64))) :: byte) = a"
    "(word_of_int (push_bit 4 (int (chunkOf a b c div 4096 mod 64) AND 0x0F) OR drop_bit 2 (int (chunkOf a b c div 64 mod 64))) :: byte) = b"
    "(word_of_int (push_bit 6 (int (chunkOf a b c div 64 mod 64) AND 0x03) OR int (chunkOf a b c mod 64)) :: byte) = c"
    by (simp_all only: digits_as_nat [OF lt lt lt] octet_of_digits chunkOf_octets again)
qed

lemma four_chars:
  "byte_at (before @ a # b # c # d # rest) (length before) = Some a"
  "byte_at (before @ a # b # c # d # rest) (length before + 1) = Some b"
  "byte_at (before @ a # b # c # d # rest) (length before + 2) = Some c"
  "byte_at (before @ a # b # c # d # rest) (length before + 3) = Some d"
  by (simp_all add: byte_at_def nth_append)

lemma next_writes:
  "writeAt (pre @ x # post) (length pre) a = Some (pre @ a # post)"
  "writeAt (pre @ a # y # post) (length pre + 1) b = Some (pre @ a # b # post)"
  "writeAt (pre @ a # b # z # post) (length pre + 1 + 1) c = Some (pre @ a # b # c # post)"
  by (simp_all add: writeAt_def list_update_append Suc_diff_le)

text \<open>A round of the decoder, on a group with no, one and two padding characters.\<close>

lemma base64DecodeLoop_rounds:
  "base64DecodeLoop (Some (before @ digitOf 18 (chunkOf a b c) # digitOf 12 (chunkOf a b c) # digitOf 6 (chunkOf a b c)
       # digitOf 0 (chunkOf a b c) # rest)) (Suc rounds) (length before) (length pre) (pre @ x # y # z # post)
     = base64DecodeLoop (Some (before @ digitOf 18 (chunkOf a b c) # digitOf 12 (chunkOf a b c) # digitOf 6 (chunkOf a b c)
       # digitOf 0 (chunkOf a b c) # rest)) rounds (length before + 4) (length pre + 1 + 1 + 1) (pre @ a # b # c # post)"
  "base64DecodeLoop (Some (before @ digitOf 18 (chunkOf a b 0) # digitOf 12 (chunkOf a b 0) # digitOf 6 (chunkOf a b 0)
       # CHR ''='' # rest)) (Suc rounds) (length before) (length pre) (pre @ x # y # post)
     = base64DecodeLoop (Some (before @ digitOf 18 (chunkOf a b 0) # digitOf 12 (chunkOf a b 0) # digitOf 6 (chunkOf a b 0)
       # CHR ''='' # rest)) rounds (length before + 4) (length pre + 1 + 1) (pre @ a # b # post)"
  "base64DecodeLoop (Some (before @ digitOf 18 (chunkOf a 0 0) # digitOf 12 (chunkOf a 0 0) # CHR ''=''
       # CHR ''='' # rest)) (Suc rounds) (length before) (length pre) (pre @ x # post)
     = base64DecodeLoop (Some (before @ digitOf 18 (chunkOf a 0 0) # digitOf 12 (chunkOf a 0 0) # CHR ''=''
       # CHR ''='' # rest)) rounds (length before + 4) (length pre + 1) (pre @ a # post)"
proof -
  have pow: "(2 :: nat) ^ 18 = 262144" "(2 :: nat) ^ 12 = 4096" "(2 :: nat) ^ 6 = 64" "(2 :: nat) ^ 0 = 1" "n div 1 = n" for n :: nat
    by simp_all
  have pos: "int n < 0 \<longleftrightarrow> False" for n by simp
  note steps = base64DecodeLoop.simps(2) readAt_Some four_chars Let_def Option.bind.bind_lunit next_writes digitOf_value
    pow pos digits_octets if_False if_True simp_thms
  show "base64DecodeLoop (Some (before @ digitOf 18 (chunkOf a b c) # digitOf 12 (chunkOf a b c) # digitOf 6 (chunkOf a b c)
       # digitOf 0 (chunkOf a b c) # rest)) (Suc rounds) (length before) (length pre) (pre @ x # y # z # post)
     = base64DecodeLoop (Some (before @ digitOf 18 (chunkOf a b c) # digitOf 12 (chunkOf a b c) # digitOf 6 (chunkOf a b c)
       # digitOf 0 (chunkOf a b c) # rest)) rounds (length before + 4) (length pre + 1 + 1 + 1) (pre @ a # b # c # post)"
    by (simp only: steps)
  show "base64DecodeLoop (Some (before @ digitOf 18 (chunkOf a b 0) # digitOf 12 (chunkOf a b 0) # digitOf 6 (chunkOf a b 0)
       # CHR ''='' # rest)) (Suc rounds) (length before) (length pre) (pre @ x # y # post)
     = base64DecodeLoop (Some (before @ digitOf 18 (chunkOf a b 0) # digitOf 12 (chunkOf a b 0) # digitOf 6 (chunkOf a b 0)
       # CHR ''='' # rest)) rounds (length before + 4) (length pre + 1 + 1) (pre @ a # b # post)"
    by (simp only: steps)
  show "base64DecodeLoop (Some (before @ digitOf 18 (chunkOf a 0 0) # digitOf 12 (chunkOf a 0 0) # CHR ''=''
       # CHR ''='' # rest)) (Suc rounds) (length before) (length pre) (pre @ x # post)
     = base64DecodeLoop (Some (before @ digitOf 18 (chunkOf a 0 0) # digitOf 12 (chunkOf a 0 0) # CHR ''=''
       # CHR ''='' # rest)) rounds (length before + 4) (length pre + 1) (pre @ a # post)"
    by (simp only: steps)
qed

lemma length_base64Text_div: "length (base64Text bs) div 4 = (length bs + 2) div 3"
  by (simp add: length_base64Text)

text \<open>What a text of whole groups stands for, as the decoder reads it.\<close>

definition octet0 :: "char \<Rightarrow> char \<Rightarrow> byte" where
  "octet0 c0 c1 = word_of_int (push_bit 2 (base64CharacterValue c0) OR drop_bit 4 (base64CharacterValue c1))"

definition octet1 :: "char \<Rightarrow> char \<Rightarrow> byte" where
  "octet1 c1 c2 = word_of_int (push_bit 4 (base64CharacterValue c1 AND 0x0F) OR drop_bit 2 (base64CharacterValue c2))"

definition octet2 :: "char \<Rightarrow> char \<Rightarrow> byte" where
  "octet2 c2 c3 = word_of_int (push_bit 6 (base64CharacterValue c2 AND 0x03) OR base64CharacterValue c3)"

definition groupOctets :: "char \<Rightarrow> char \<Rightarrow> char \<Rightarrow> char \<Rightarrow> bytes option" where
  "groupOctets c0 c1 c2 c3 =
     (if base64CharacterValue c0 < 0 \<or> base64CharacterValue c1 < 0 then None
      else if c2 = CHR ''='' then Some [octet0 c0 c1]
      else if base64CharacterValue c2 < 0 then None
      else if c3 = CHR ''='' then Some [octet0 c0 c1, octet1 c1 c2]
      else if base64CharacterValue c3 < 0 then None
      else Some [octet0 c0 c1, octet1 c1 c2, octet2 c2 c3])"

fun base64Octets :: "string \<Rightarrow> bytes option" where
  "base64Octets (c0 # c1 # c2 # c3 # rest) =
     do { bs \<leftarrow> groupOctets c0 c1 c2 c3; cs \<leftarrow> base64Octets rest; Some (bs @ cs) }"
| "base64Octets _ = Some []"

lemma groupOctets_text:
  "groupOctets (digitOf 18 (chunkOf a b c)) (digitOf 12 (chunkOf a b c)) (digitOf 6 (chunkOf a b c)) (digitOf 0 (chunkOf a b c)) = Some [a, b, c]"
  "groupOctets (digitOf 18 (chunkOf a b 0)) (digitOf 12 (chunkOf a b 0)) (digitOf 6 (chunkOf a b 0)) (CHR ''='') = Some [a, b]"
  "groupOctets (digitOf 18 (chunkOf a 0 0)) (digitOf 12 (chunkOf a 0 0)) (CHR ''='') (CHR ''='') = Some [a]"
proof -
  have pow: "(2 :: nat) ^ 18 = 262144" "(2 :: nat) ^ 12 = 4096" "(2 :: nat) ^ 6 = 64" "(2 :: nat) ^ 0 = 1" "n div 1 = n"
    and pos: "int n < 0 \<longleftrightarrow> False" for n :: nat
    by simp_all
  note unfolded = groupOctets_def octet0_def octet1_def octet2_def digitOf_value pow pos digits_octets if_False if_True simp_thms
  show "groupOctets (digitOf 18 (chunkOf a b c)) (digitOf 12 (chunkOf a b c)) (digitOf 6 (chunkOf a b c)) (digitOf 0 (chunkOf a b c)) = Some [a, b, c]"
    by (simp only: unfolded)
  show "groupOctets (digitOf 18 (chunkOf a b 0)) (digitOf 12 (chunkOf a b 0)) (digitOf 6 (chunkOf a b 0)) (CHR ''='') = Some [a, b]"
    by (simp only: unfolded)
  show "groupOctets (digitOf 18 (chunkOf a 0 0)) (digitOf 12 (chunkOf a 0 0)) (CHR ''='') (CHR ''='') = Some [a]"
    by (simp only: unfolded)
qed

lemma base64Octets_text [simp]: "base64Octets (base64Text bs) = Some bs"
  by (induction bs rule: base64Text.induct) (simp_all add: groupOctets_text)

lemma groupOctets_length: "groupOctets c0 c1 c2 c3 = Some bs \<Longrightarrow>
    length bs + (if c3 = CHR ''='' then 1 else 0) + (if c2 = CHR ''='' then 1 else 0) \<le> 3 \<and> 1 \<le> length bs"
  by (auto simp: groupOctets_def split: if_splits)

text \<open>A round writes the octets of its group, or stops; either way inside the octets that the group may have.\<close>

lemma base64DecodeLoop_group:
  assumes "groupOctets c0 c1 c2 c3 = Some bs" "length gap = length bs"
  shows "base64DecodeLoop (Some (before @ c0 # c1 # c2 # c3 # rest)) (Suc rounds) (length before) (length pre) (pre @ gap @ post)
    = base64DecodeLoop (Some (before @ c0 # c1 # c2 # c3 # rest)) rounds (length before + 4) (length pre + length bs) (pre @ bs @ post)"
proof -
  have up: "length pre + 1 + 1 = length pre + 2" "length pre + 1 + 1 + 1 = length pre + 3" by simp_all
  consider "bs = [octet0 c0 c1]" "base64CharacterValue c0 \<ge> 0" "base64CharacterValue c1 \<ge> 0" "c2 = CHR ''=''"
    | "bs = [octet0 c0 c1, octet1 c1 c2]" "base64CharacterValue c0 \<ge> 0" "base64CharacterValue c1 \<ge> 0" "c2 \<noteq> CHR ''=''"
      "base64CharacterValue c2 \<ge> 0" "c3 = CHR ''=''"
    | "bs = [octet0 c0 c1, octet1 c1 c2, octet2 c2 c3]" "base64CharacterValue c0 \<ge> 0" "base64CharacterValue c1 \<ge> 0" "c2 \<noteq> CHR ''=''"
      "base64CharacterValue c2 \<ge> 0" "c3 \<noteq> CHR ''=''" "base64CharacterValue c3 \<ge> 0"
    using assms(1) by (auto simp: groupOctets_def not_less split: if_splits)
  then show ?thesis
  proof cases
    case 1
    then obtain x where gap: "gap = [x]" using assms(2) by (auto simp: length_Suc_conv)
    have v: "base64CharacterValue c0 < 0 \<longleftrightarrow> False" "base64CharacterValue c1 < 0 \<longleftrightarrow> False" using 1 by simp_all
    have n: "length [octet0 c0 c1] = 1" by simp
    show ?thesis
      unfolding 1(1) n gap append.simps 1(4)
      by (simp only: base64DecodeLoop.simps(2) readAt_Some four_chars Let_def Option.bind.bind_lunit next_writes octet0_def
          v simp_thms if_False if_True)
  next
    case 2
    then obtain x y where gap: "gap = [x, y]" using assms(2) by (auto simp: length_Suc_conv)
    have v: "base64CharacterValue c0 < 0 \<longleftrightarrow> False" "base64CharacterValue c1 < 0 \<longleftrightarrow> False"
      "base64CharacterValue c2 < 0 \<longleftrightarrow> False" "c2 = CHR ''='' \<longleftrightarrow> False" using 2 by simp_all
    have n: "length [octet0 c0 c1, octet1 c1 c2] = 2" by simp
    show ?thesis
      unfolding 2(1) n gap append.simps 2(6) up(1) [symmetric]
      by (simp only: base64DecodeLoop.simps(2) readAt_Some four_chars Let_def Option.bind.bind_lunit next_writes octet0_def octet1_def
          v simp_thms if_False if_True)
  next
    case 3
    then obtain x y z where gap: "gap = [x, y, z]" using assms(2) by (auto simp: length_Suc_conv)
    have v: "base64CharacterValue c0 < 0 \<longleftrightarrow> False" "base64CharacterValue c1 < 0 \<longleftrightarrow> False"
      "base64CharacterValue c2 < 0 \<longleftrightarrow> False" "base64CharacterValue c3 < 0 \<longleftrightarrow> False" "c2 = CHR ''='' \<longleftrightarrow> False" "c3 = CHR ''='' \<longleftrightarrow> False"
      using 3 by simp_all
    have n: "length [octet0 c0 c1, octet1 c1 c2, octet2 c2 c3] = 3" by simp
    show ?thesis
      unfolding 3(1) n gap append.simps up(2) [symmetric]
      by (simp only: base64DecodeLoop.simps(2) readAt_Some four_chars Let_def Option.bind.bind_lunit next_writes octet0_def octet1_def octet2_def
          v simp_thms if_False if_True)
  qed
qed

declare base64DecodeLoop.simps(2) [simp del]

lemma not_four: "Suc (Suc 0) = 4 * r \<longleftrightarrow> False" "Suc (Suc (Suc 0)) = 4 * r \<longleftrightarrow> False" "Suc 0 = 4 * r \<longleftrightarrow> False"
  by presburger+

lemma base64_decoded:
  "base64Octets xs = Some bs \<Longrightarrow> length xs = 4 * rounds \<Longrightarrow> length gap = length bs \<Longrightarrow>
   base64DecodeLoop (Some (before @ xs @ after)) rounds (length before) (length pre) (pre @ gap @ tail)
     = Some (True, length pre + length bs, pre @ bs @ tail)"
proof (induction xs arbitrary: before pre gap bs rounds rule: base64Octets.induct)
  case (1 c0 c1 c2 c3 rest)
  from 1(2) obtain os cs where os: "groupOctets c0 c1 c2 c3 = Some os" and cs: "base64Octets rest = Some cs" and bs: "bs = os @ cs"
    by (auto simp: bind_eq_Some_conv)
  from 1(3) obtain n where n: "rounds = Suc n" "length rest = 4 * n" by (cases rounds) auto
  define g1 g2 where "g1 = take (length os) gap" and "g2 = drop (length os) gap"
  then have gap: "gap = g1 @ g2" "length g1 = length os" "length g2 = length cs"
    using 1(4) bs by auto
  show ?case
    using 1(1) [OF os cs n(2) gap(3), where before = "before @ [c0, c1, c2, c3]" and pre = "pre @ os"]
      base64DecodeLoop_group [OF os gap(2), of before "rest @ after" n pre "g2 @ tail"]
    by (simp add: n bs gap(1) steps add.assoc)
qed (simp_all add: not_four)

lemma paddingCount_append:
  "2 \<le> length ys \<Longrightarrow> paddingCount (Some (pre @ ys)) (length pre + length ys) = paddingCount (Some ys) (length ys)"
proof -
  assume "2 \<le> length ys"
  then obtain zs d c where ys: "ys = zs @ [d, c]"
    by (cases ys rule: rev_cases; cases "butlast ys" rule: rev_cases) auto
  show ?thesis
    unfolding ys paddingCount_def by (simp add: byte_at_def nth_append)
qed

lemma paddingCount_text:
  "paddingCount (Some (base64Text xs)) (length (base64Text xs)) = Some ((length xs + 2) div 3 * 3 - length xs)"
proof (induction xs rule: base64Text.induct)
  case (1 a b c rest)
  let ?t = "[digitOf 18 (chunkOf a b c), digitOf 12 (chunkOf a b c), digitOf 6 (chunkOf a b c), digitOf 0 (chunkOf a b c)]"
  have len: "(length (a # b # c # rest) + 2) div 3 * 3 = (length rest + 2) div 3 * 3 + 3"
    using div_add_self2 [of 3 "length rest + 2"] by simp
  show ?case
  proof (cases rest)
    case Nil
    then show ?thesis by (simp add: paddingCount_def)
  next
    case (Cons r rs)
    then have "2 \<le> length (base64Text rest)" by (simp add: length_base64Text)
    from paddingCount_append [OF this, of ?t] 1 len show ?thesis by (simp add: steps)
  qed
qed (simp_all add: paddingCount_def)

section \<open>Hexadecimal: the text of some octets\<close>

definition hexPair :: "bool \<Rightarrow> byte \<Rightarrow> string" where
  "hexPair upperCase b = (let digits = if upperCase then upperCaseDigits else lowerCaseDigits in
     [digits ! unat (drop_bit 4 b AND 0x0F), digits ! unat (b AND 0x0F)])"

definition hexDigitsOf :: "bool \<Rightarrow> bytes \<Rightarrow> string" where
  "hexDigitsOf upperCase bs = concat (map (hexPair upperCase) bs)"

lemma hexDigitsOf_simps [simp]: "hexDigitsOf u [] = []" "hexDigitsOf u (b # bs) = hexPair u b @ hexDigitsOf u bs"
  by (simp_all add: hexDigitsOf_def)

lemma length_hexPair [simp]: "length (hexPair u b) = 2"
  by (simp add: hexPair_def Let_def)

lemma length_hexDigitsOf [simp]: "length (hexDigitsOf u bs) = length bs * 2"
  by (induction bs) simp_all

lemma two_writes: "do { m \<leftarrow> writeAt (pre @ w # x # post) (length pre) a;
     m \<leftarrow> writeAt m (length pre + 1) b; k m } = k (pre @ a # b # post)"
  by (simp only: next_writes Option.bind.bind_lunit)

lemma hex_written:
  "length gap = length xs * 2 \<Longrightarrow> length pre = length before * 2 \<Longrightarrow>
   hexEncodeLoop (if u then upperCaseDigits else lowerCaseDigits) (Some (before @ xs @ after)) (length xs) (length before) (pre @ gap @ tail)
     = Some (pre @ hexDigitsOf u xs @ tail)"
proof (induction xs arbitrary: before pre gap)
  case (Cons b bs)
  from Cons.prems obtain x y gap' where gap: "gap = x # y # gap'" "length gap' = length bs * 2"
    by (auto simp: length_Suc_conv)
  obtain h l where pair: "hexPair u b = [h, l]" by (auto simp: hexPair_def Let_def)
  then have hl: "(if u then upperCaseDigits else lowerCaseDigits) ! unat (drop_bit 4 b AND 0x0F) = h"
    "(if u then upperCaseDigits else lowerCaseDigits) ! unat (b AND 0x0F) = l" by (simp_all add: hexPair_def Let_def)
  have at: "length before * 2 = length pre" using Cons.prems(2) by simp
  have "hexEncodeLoop (if u then upperCaseDigits else lowerCaseDigits) (Some (before @ b # bs @ after)) (Suc (length bs)) (length before)
        (pre @ x # y # gap' @ tail)
      = hexEncodeLoop (if u then upperCaseDigits else lowerCaseDigits) (Some (before @ b # bs @ after)) (length bs) (length before + 1)
        (pre @ h # l # gap' @ tail)"
    by (simp only: hexEncodeLoop.simps readAt_Some byte_at_append_start Option.bind.bind_lunit hl at two_writes)
  then show ?case
    using Cons.IH [where gap = gap' and before = "before @ [b]" and pre = "pre @ [h, l]"] gap Cons.prems(2) by (simp add: pair)
qed simp

lemma hex_index: "unat (drop_bit 4 b AND 0x0F) < 16" "unat (b AND 0x0F) < 16" for b :: byte
  by (simp_all only: unsigned_and_eq) (simp_all add: and_low)

lemma hexPair_values:
  assumes "hexPair u b = [h, l]"
  shows "hexNibbleValue h = int (unat (drop_bit 4 b AND 0x0F))" "hexNibbleValue l = int (unat (b AND 0x0F))"
  using assms hex_digit [OF hex_index(1), of u b] hex_digit [OF hex_index(2), of u b] by (auto simp: hexPair_def Let_def)

text \<open>What a text stands for: every character a digit of either case.\<close>

fun hexOctets :: "string \<Rightarrow> bytes option" where
  "hexOctets (h # l # rest) =
     (if hexNibbleValue h < 0 \<or> hexNibbleValue l < 0 then None
      else map_option ((#) (word_of_int (push_bit 4 (hexNibbleValue h) OR hexNibbleValue l))) (hexOctets rest))"
| "hexOctets [] = Some []"
| "hexOctets [_] = None"

lemma hexOctets_text [simp]: "hexOctets (hexDigitsOf u bs) = Some bs"
proof (induction bs)
  case (Cons b bs)
  obtain h l where pair: "hexPair u b = [h, l]" by (auto simp: hexPair_def Let_def)
  show ?case
    by (simp only: hexDigitsOf_simps pair append.simps hexOctets.simps hexPair_values [OF pair] hex_octet Cons.IH option.map) simp
qed simp

lemma hexOctets_length: "hexOctets t = Some bs \<Longrightarrow> length t = length bs * 2"
  by (induction t arbitrary: bs rule: hexOctets.induct) (auto split: if_splits)

lemma hexDecodeLoop_round:
  assumes "length before = length pre * 2"
  shows "hexDecodeLoop (Some (before @ h # l # rest)) (Suc rounds) (length pre) (pre @ x # post) =
    (if hexNibbleValue h < 0 \<or> hexNibbleValue l < 0 then Some (False, pre @ x # post)
     else hexDecodeLoop (Some (before @ h # l # rest)) rounds (length pre + 1)
       (pre @ word_of_int (push_bit 4 (hexNibbleValue h) OR hexNibbleValue l) # post))"
proof -
  have reads: "byte_at (before @ h # l # rest) (length pre * 2) = Some h" "byte_at (before @ h # l # rest) (length pre * 2 + 1) = Some l"
    using two_reads [of before h l rest] assms by simp_all
  show ?thesis
    by (simp only: hexDecodeLoop.simps readAt_Some reads Option.bind.bind_lunit writeAt_append)
qed

lemma hex_decoded:
  "hexOctets xs = Some bs \<Longrightarrow> length gap = length bs \<Longrightarrow> length before = length pre * 2 \<Longrightarrow>
   hexDecodeLoop (Some (before @ xs @ after)) (length bs) (length pre) (pre @ gap @ tail) = Some (True, pre @ bs @ tail)"
proof (induction xs arbitrary: before pre gap bs rule: hexOctets.induct)
  case (1 h l rest)
  let ?b = "word_of_int (push_bit 4 (hexNibbleValue h) OR hexNibbleValue l) :: byte"
  from 1(2) obtain bs' where valid: "\<not> (hexNibbleValue h < 0 \<or> hexNibbleValue l < 0)" and bs: "bs = ?b # bs'"
    and rest: "hexOctets rest = Some bs'"
    by (auto split: if_splits)
  with 1(3) obtain x gap' where gap: "gap = x # gap'" "length gap' = length bs'"
    by (auto simp: length_Suc_conv)
  show ?case
    using 1(1) [OF valid rest gap(2), where before = "before @ [h, l]" and pre = "pre @ [?b]"]
      hexDecodeLoop_round [OF 1(4), of h l "rest @ after" "length bs'" x "gap' @ tail"] valid 1(4)
    by (simp add: bs gap)
qed simp_all

lemma hex_refused:
  "hexOctets xs = None \<Longrightarrow> length xs = rounds * 2 \<Longrightarrow> rounds \<le> length gap \<Longrightarrow> length before = length pre * 2 \<Longrightarrow>
   \<exists>mem. hexDecodeLoop (Some (before @ xs @ after)) rounds (length pre) (pre @ gap) = Some (False, mem) \<and> length mem = length (pre @ gap)"
proof (induction xs arbitrary: before pre gap rounds rule: hexOctets.induct)
  case (1 h l rest)
  let ?b = "word_of_int (push_bit 4 (hexNibbleValue h) OR hexNibbleValue l) :: byte"
  from 1(3) obtain n where n: "rounds = Suc n" "length rest = n * 2" by (cases rounds) auto
  with 1(4) obtain x gap' where gap: "gap = x # gap'" "n \<le> length gap'"
    by (cases gap) auto
  note round = hexDecodeLoop_round [OF 1(5), of h l "rest @ after" n x gap']
  show ?case
  proof (cases "hexNibbleValue h < 0 \<or> hexNibbleValue l < 0")
    case True
    then show ?thesis using round by (simp add: n gap)
  next
    case False
    with 1(2) have "hexOctets rest = None" by (simp split: if_splits)
    from 1(1) [OF False this n(2) gap(2), where before = "before @ [h, l]" and pre = "pre @ [?b]"] round False 1(5)
    show ?thesis by (simp add: n gap)
  qed
qed simp_all

section \<open>Base64: any text stays inside the buffer\<close>

definition padMarks :: "string \<Rightarrow> nat \<Rightarrow> nat" where
  "padMarks t n = (if t ! (n - 1) = CHR ''='' then 1 else 0) + (if t ! (n - 2) = CHR ''='' then 1 else 0)"

lemma base64DecodeLoop_stop:
  assumes "groupOctets c0 c1 c2 c3 = None"
    and "outputIndex + (if c3 = CHR ''='' then 1 else 2) \<le> length mem"
  shows "\<exists>o' mem'. base64DecodeLoop (Some (before @ c0 # c1 # c2 # c3 # rest)) (Suc rounds) (length before) outputIndex mem = Some (False, o', mem')
    \<and> length mem' = length mem"
proof -
  note step = base64DecodeLoop.simps(2) readAt_Some four_chars Let_def Option.bind.bind_lunit
  consider "base64CharacterValue c0 < 0 \<or> base64CharacterValue c1 < 0"
    | "\<not> (base64CharacterValue c0 < 0 \<or> base64CharacterValue c1 < 0)" "c2 \<noteq> CHR ''=''" "base64CharacterValue c2 < 0"
    | "\<not> (base64CharacterValue c0 < 0 \<or> base64CharacterValue c1 < 0)" "c2 \<noteq> CHR ''=''" "\<not> base64CharacterValue c2 < 0"
      "c3 \<noteq> CHR ''=''" "base64CharacterValue c3 < 0"
    using assms(1) by (auto simp: groupOctets_def split: if_splits)
  then show ?thesis
  proof cases
    case 1
    then show ?thesis by (simp only: step) simp
  next
    case 2
    have w: "outputIndex < length mem" using assms(2) by (simp split: if_splits)
    show ?thesis by (simp only: step writeAt_in [OF w] 2 if_False if_True) simp
  next
    case 3
    have w: "outputIndex < length mem" "outputIndex + 1 < length (mem[outputIndex := b])" for b
      using assms(2) 3(4) by simp_all
    show ?thesis by (simp only: step writeAt_in [OF w(1)] writeAt_in [OF w(2)] 3 if_False if_True) simp
  qed
qed

lemma list_at: "i + 4 \<le> length b \<Longrightarrow> \<exists>before c0 c1 c2 c3 rest. b = before @ c0 # c1 # c2 # c3 # rest \<and> length before = i"
proof -
  assume i: "i + 4 \<le> length b"
  then have "length (drop i b) = 4 + (length b - i - 4)" by simp
  then obtain c0 c1 c2 c3 rest where "drop i b = c0 # c1 # c2 # c3 # rest" by (rule four_cells)
  then have "b = take i b @ c0 # c1 # c2 # c3 # rest \<and> length (take i b) = i"
    using i append_take_drop_id [of i b] by simp
  then show ?thesis by blast
qed

lemma base64DecodeLoop_inside:
  "index + 4 * rounds \<le> length t \<Longrightarrow>
   outputIndex + (if rounds = 0 then 0 else 3 * rounds - padMarks t (index + 4 * rounds)) \<le> length mem \<Longrightarrow>
   \<exists>ok o' mem'. base64DecodeLoop (Some t) rounds index outputIndex mem = Some (ok, o', mem') \<and> length mem' = length mem
     \<and> (ok \<longrightarrow> o' \<le> outputIndex + (if rounds = 0 then 0 else 3 * rounds - padMarks t (index + 4 * rounds)))"
proof (induction rounds arbitrary: index outputIndex mem)
  case (Suc n)
  let ?room = "3 * Suc n - padMarks t (index + 4 * Suc n)"
  obtain before c0 c1 c2 c3 rest where t: "t = before @ c0 # c1 # c2 # c3 # rest" and i: "length before = index"
    using list_at [of index t] Suc.prems(1) by auto
  have marks: "padMarks t (index + 4 * Suc n) \<le> 2" by (simp add: padMarks_def)
  have only: "padMarks t (index + 4 * Suc n) = (if c3 = CHR ''='' then 1 else 0) + (if c2 = CHR ''='' then 1 else 0)" if "n = 0"
    using that by (simp add: padMarks_def t nth_append numeral_3_eq_3 flip: i)
  show ?case
  proof (cases "groupOctets c0 c1 c2 c3")
    case None
    have "outputIndex + (if c3 = CHR ''='' then 1 else 2) \<le> length mem"
    proof (cases n)
      case 0
      then show ?thesis using Suc.prems(2) only None by (auto simp: groupOctets_def split: if_splits)
    next
      case (Suc m)
      then show ?thesis using Suc.prems(2) marks by (auto split: if_splits)
    qed
    from base64DecodeLoop_stop [OF None this, of before rest n] show ?thesis by (auto simp: t i)
  next
    case (Some bs)
    have len: "length bs + (if n = 0 then 0 else 3 * n - padMarks t (index + 4 * Suc n)) \<le> ?room"
      using groupOctets_length [OF Some] only marks by (cases n) (auto split: if_splits)
    define g post where "g = take (length bs) (drop outputIndex mem)" and "post = drop (length bs) (drop outputIndex mem)"
    have mem: "mem = take outputIndex mem @ g @ post"
      unfolding g_def post_def by (simp only: append_take_drop_id)
    have g: "length g = length bs" and pre: "length (take outputIndex mem) = outputIndex"
      using Suc.prems(2) len by (auto simp: g_def)
    define mem2 where "mem2 = take outputIndex mem @ bs @ post"
    have len2: "length mem2 = length mem"
      using arg_cong [OF mem, of length] g pre by (simp add: mem2_def)
    define rest_room where "rest_room = (if n = 0 then 0 else 3 * n - padMarks t (index + 4 + 4 * n))"
    have at: "index + 4 + 4 * n = index + 4 * Suc n" by simp
    have fits: "outputIndex + length bs + rest_room \<le> outputIndex + ?room"
      using len unfolding rest_room_def at by simp
    have "\<exists>ok o' mem'. base64DecodeLoop (Some t) n (index + 4) (outputIndex + length bs) mem2 = Some (ok, o', mem') \<and> length mem' = length mem2
     \<and> (ok \<longrightarrow> o' \<le> outputIndex + length bs + (if n = 0 then 0 else 3 * n - padMarks t (index + 4 + 4 * n)))"
    proof (rule Suc.IH)
      show "index + 4 + 4 * n \<le> length t" using Suc.prems(1) by simp
      show "outputIndex + length bs + (if n = 0 then 0 else 3 * n - padMarks t (index + 4 + 4 * n)) \<le> length mem2"
        using fits Suc.prems(2) len2 unfolding rest_room_def by simp
    qed
    then obtain ok o' mem' where call: "base64DecodeLoop (Some t) n (index + 4) (outputIndex + length bs) mem2 = Some (ok, o', mem')"
      and l: "length mem' = length mem2" and u: "ok \<longrightarrow> o' \<le> outputIndex + length bs + rest_room"
      unfolding rest_room_def by blast
    have step: "base64DecodeLoop (Some t) (Suc n) index outputIndex mem = Some (ok, o', mem')"
      using base64DecodeLoop_group [OF Some g, of before rest n "take outputIndex mem" post] call
      unfolding pre i mem [symmetric] t mem2_def by (rule trans)
    have u': "ok \<longrightarrow> o' \<le> outputIndex + ?room" using u fits by (blast intro: order_trans)
    show ?thesis
      by (intro exI conjI) (rule step, simp only: l len2, use u' in \<open>simp only: nat.distinct if_False\<close>)
  qed
qed auto

lemma paddingCount_marks:
  "2 \<le> n \<Longrightarrow> n \<le> length t \<Longrightarrow> paddingCount (Some t) n = Some (padMarks t n)"
  by (simp add: paddingCount_def padMarks_def)

section \<open>Padding\<close>

lemma stripZeros_spec:
  "n \<le> length input \<Longrightarrow> \<exists>k. stripZeros input n = Some k \<and> k \<le> n \<and> (\<forall>i. k \<le> i \<and> i < n \<longrightarrow> input ! i = 0) \<and> (0 < k \<longrightarrow> input ! (k - 1) \<noteq> 0)"
proof (induction n)
  case (Suc n)
  show ?case
  proof (cases "input ! n = 0")
    case True
    from Suc obtain k where "stripZeros input n = Some k" "k \<le> n" "\<forall>i. k \<le> i \<and> i < n \<longrightarrow> input ! i = 0" "0 < k \<longrightarrow> input ! (k - 1) \<noteq> 0"
      by auto
    with True Suc.prems show ?thesis by (auto simp: less_Suc_eq)
  qed (use Suc in auto)
qed simp

lemma stripZeros_padded:
  "(d = [] \<or> last d \<noteq> 0) \<Longrightarrow> stripZeros (d @ replicate n 0) (length d + n) = Some (length d)"
proof (induction n)
  case 0
  then show ?case by (cases d rule: rev_cases) auto
next
  case (Suc n)
  have "stripZeros (d @ replicate (Suc n) 0) (length d + Suc n) = stripZeros (d @ replicate (Suc n) 0) (length d + n)"
    by (simp add: byte_at_def nth_append del: replicate.simps)
  also have "\<dots> = stripZeros (d @ replicate n 0) (length d + n)"
  proof -
    have "stripZeros (xs @ ys) m = stripZeros xs m" if "m \<le> length xs" for xs ys :: bytes and m
      using that by (induction m) (auto simp: byte_at_def nth_append)
    from this [of "length d + n" "d @ replicate n 0" "[0]"] show ?thesis
      by (simp add: replicate_append_same)
  qed
  finally show ?case using Suc by simp
qed

lemma checkPad_spec:
  "index + rounds \<le> n \<Longrightarrow> n \<le> length input \<Longrightarrow>
   checkPad input n v rounds index = Some (\<forall>i<rounds. input ! (n - 1 - (index + i)) = v)"
proof (induction rounds arbitrary: index)
  case (Suc r)
  have "checkPad input n v r (index + 1) = Some (\<forall>i<r. input ! (n - 1 - (index + 1 + i)) = v)"
    by (rule Suc.IH) (use Suc.prems in auto)
  moreover have "(\<forall>i<Suc r. input ! (n - 1 - (index + i)) = v) \<longleftrightarrow>
      input ! (n - 1 - index) = v \<and> (\<forall>i<r. input ! (n - 1 - (index + 1 + i)) = v)"
    by (simp add: All_less_Suc2)
  ultimately show ?case using Suc.prems by (simp add: byte_at_def) auto
qed simp

lemma checkPad_suffix:
  assumes "k \<le> length t"
  shows "checkPad t (length t) v k 0 = Some (drop (length t - k) t = replicate k v)"
proof -
  have "(\<forall>i<k. t ! (length t - 1 - i) = v) \<longleftrightarrow> drop (length t - k) t = replicate k v"
  proof
    assume all: "\<forall>i<k. t ! (length t - 1 - i) = v"
    show "drop (length t - k) t = replicate k v"
    proof (rule nth_equalityI)
      fix i assume "i < length (drop (length t - k) t)"
      then have i: "i < k" using assms by simp
      then have "k - 1 - i < k" by simp
      from all [rule_format, OF this] have "t ! (length t - 1 - (k - 1 - i)) = v" .
      moreover have "length t - 1 - (k - 1 - i) = length t - k + i" using i assms by simp
      moreover have "drop (length t - k) t ! i = t ! (length t - k + i)" using i assms by (intro nth_drop) simp
      ultimately show "drop (length t - k) t ! i = replicate k v ! i" using i by (simp only: nth_replicate)
    qed (use assms in simp)
  next
    assume d: "drop (length t - k) t = replicate k v"
    show "\<forall>i<k. t ! (length t - 1 - i) = v"
    proof (intro allI impI)
      fix i assume i: "i < k"
      have "t ! (length t - 1 - i) = drop (length t - k) t ! (k - 1 - i)"
        using i assms by (simp add: algebra_simps)
      then show "t ! (length t - 1 - i) = v" using i by (simp add: d)
    qed
  qed
  then show ?thesis using checkPad_spec [of 0 k "length t" t v] assms by simp
qed

lemma unat_pad [simp]: "n \<le> 255 \<Longrightarrow> unat (word_of_nat n :: byte) = n"
  by simp

lemma pad_nonzero: "1 \<le> n \<Longrightarrow> n \<le> 255 \<Longrightarrow> (word_of_nat n :: byte) \<noteq> 0"
  by (metis unat_pad unat_0 not_one_le_zero)

lemma length_padOctets: "padLength (Some s) blockSize r = Some n \<Longrightarrow> r < blockSize \<Longrightarrow> length (padOctets rand s n) = n"
  by (cases s) (auto simp: padLength_def padOctets_def split: if_splits)

lemma padLength_bounds: "padLength s blockSize r = Some n \<Longrightarrow> r < blockSize \<Longrightarrow> n \<le> blockSize"
  by (auto simp: padLength_def split: option.splits padding_scheme.splits if_splits)

lemma padLength_aligns: "padLength s blockSize (m mod blockSize) = Some n \<Longrightarrow> 0 < blockSize \<Longrightarrow> (m + n) mod blockSize = 0"
proof -
  assume n: "padLength s blockSize (m mod blockSize) = Some n" and pos: "0 < blockSize"
  have "(m + (blockSize - m mod blockSize)) mod blockSize = 0"
  proof -
    have "m + (blockSize - m mod blockSize) = (m - m mod blockSize) + blockSize"
      using pos mod_less_divisor [OF pos, of m] mod_less_eq_dividend [of m blockSize] by linarith
    also have "\<dots> = blockSize * (m div blockSize) + blockSize"
      by (simp only: minus_mod_eq_mult_div)
    finally show ?thesis by simp
  qed
  then show ?thesis
    using n by (auto simp: padLength_def split: option.splits padding_scheme.splits if_splits)
qed

text \<open>Reading the size back, scheme by scheme.\<close>

lemma counted_pad:
  assumes "1 \<le> n" "n \<le> blockSize" "blockSize \<le> 255" "s \<in> {PADDING_PKCS7, PADDING_PKCS5, PADDING_ANSI_X923, PADDING_ISO_10126}"
  shows "dataLength (Some s) blockSize (d @ padOctets rand s n) (length d + n) = Some (Inr (length d))"
proof -
  obtain m where n: "n = Suc m" using assms(1) by (cases n) auto
  have w: "unat (word_of_nat n :: byte) = n" "(word_of_nat n :: byte) \<noteq> 0"
    using assms pad_nonzero by auto
  have len: "length (padOctets rand s n) = n" using assms(4) by (auto simp: padOctets_def n)
  have final: "byte_at (d @ padOctets rand s n) (length d + n - 1) = Some (word_of_nat n)"
    using assms(4) by (auto simp: padOctets_def byte_at_def nth_append n nth_Cons' nth_replicate)
  have all: "checkPad (d @ replicate n (word_of_nat n)) (length d + n) (word_of_nat n) n 0 = Some True"
    using checkPad_suffix [of n "d @ replicate n (word_of_nat n)" "word_of_nat n"] by simp
  have zeros: "checkPad (d @ replicate m 0 @ [word_of_nat n]) (length d + n) 0 m 1 = Some True"
  proof -
    have "(d @ replicate m 0 @ [word_of_nat n]) ! (length d + n - 1 - (1 + i)) = 0" if i: "i < m" for i
    proof -
      have "length d + n - 1 - (1 + i) = length d + (m - 1 - i)" using i by (simp add: n)
      then show ?thesis using i by (simp only: nth_append_length_plus) (simp add: nth_append)
    qed
    then show ?thesis
      using checkPad_spec [of 1 m "length d + n" "d @ replicate m 0 @ [word_of_nat n]" 0] by (simp add: n)
  qed
  show ?thesis
    using assms w len final all zeros by (auto simp: dataLength_def padOctets_def n)
qed

definition recoverable :: "padding_scheme \<Rightarrow> bytes \<Rightarrow> bool" where
  "recoverable s bs =
     (case s of PADDING_NONE \<Rightarrow> bs \<noteq> [] | PADDING_ZERO \<Rightarrow> bs \<noteq> [] \<and> last bs \<noteq> 0 | _ \<Rightarrow> True)"

lemma dataLength_padded:
  assumes "padLength (Some s) blockSize (length d mod blockSize) = Some n" "0 < blockSize" "blockSize \<le> 255" "recoverable s d"
  shows "dataLength (Some s) blockSize (d @ padOctets rand s n) (length d + n) = Some (Inr (length d))"
proof -
  have r: "length d mod blockSize < blockSize" using assms(2) by simp
  have n: "n \<le> blockSize" by (rule padLength_bounds [OF assms(1) r])
  show ?thesis
  proof (cases s)
    case PADDING_NONE
    then show ?thesis using assms(1) by (auto simp: dataLength_def padLength_def padOctets_def split: if_splits)
  next
    case PADDING_ZERO
    then show ?thesis using assms(4) stripZeros_padded [of d n] by (simp add: dataLength_def padOctets_def recoverable_def)
  next
    case PADDING_ISO_97971
    then obtain m where m: "n = Suc m" using assms(1) r by (cases n) (auto simp: padLength_def)
    have "stripZeros ((d @ [0x80]) @ replicate m 0) (length (d @ [0x80 :: byte]) + m) = Some (length (d @ [0x80 :: byte]))"
      by (rule stripZeros_padded) simp
    then show ?thesis using PADDING_ISO_97971 m by (simp add: dataLength_def padOctets_def byte_at_def nth_append)
  qed (use assms(1,3) n r in \<open>auto intro!: counted_pad simp: padLength_def\<close>)
qed

text \<open>PKCS #7 accepts its own padding only.\<close>

lemma pkcs7_accepts:
  assumes "dataLength (Some PADDING_PKCS7) blockSize t (length t) = Some (Inr n)"
  shows "\<exists>k. 1 \<le> k \<and> k \<le> blockSize \<and> n + k = length t \<and> drop n t = replicate k (word_of_nat k)"
proof -
  from assms obtain v where v: "byte_at t (length t - 1) = Some v" "v \<noteq> 0" "unat v \<le> blockSize" "unat v \<le> length t"
    and ok: "checkPad t (length t) v (unat v) 0 = Some True" and n: "n = length t - unat v"
    by (auto simp: dataLength_def bind_eq_Some_conv not_less split: if_splits)
  have "drop n t = replicate (unat v) (word_of_nat (unat v))"
    using ok checkPad_suffix [OF v(4), of v] n by simp
  moreover have "1 \<le> unat v" using v(2) by (metis One_nat_def Suc_leI unat_0 unat_eq_zero zero_less_iff_neq_zero)
  ultimately show ?thesis using v n by (intro exI [of _ "unat v"]) simp
qed


end
