(* ===== verification/UtilityContracts.thy ===== *)
theory UtilityContracts
  imports UtilityFacts
begin

text \<open>
  The contracts of the six functions of \<open>CUtils\<close>: what each delivers when its arguments are valid
  (\<open>sized_output\<close>), that encoding and decoding undo each other (\<open>codec\<close>, for hexadecimal text, Base64
  and the padding schemes), and that none of them leaves the memory it was given, whatever the input.
\<close>

section \<open>The contracts\<close>

definition hexEncoded :: "bytes \<times> bool \<Rightarrow> string option" where
  "hexEncoded x = (if int (length (fst x)) * 2 \<le> INT_MAX then Some (hexDigitsOf (snd x) (fst x)) else None)"

definition hexDecoded :: "string \<Rightarrow> bytes option" where
  "hexDecoded t = (if int (length t) \<le> INT_MAX then hexOctets t else None)"

definition base64Encoded :: "bytes \<Rightarrow> string option" where
  "base64Encoded bs =
     (if int (length bs) + 2 \<le> INT_MAX \<and> (int (length bs) + 2) div 3 * 4 \<le> INT_MAX then Some (base64Text bs) else None)"

text \<open>Whole groups of digits whose padding is at the end of the text and nowhere else: there the size
  that is asked for and the size that is written agree.\<close>

definition base64Decoded :: "string \<Rightarrow> bytes option" where
  "base64Decoded t =
     (if int (length t) \<le> INT_MAX \<and> length t mod 4 = 0
      then case (base64Octets t, paddingCount (Some t) (length t)) of
             (Some bs, Some p) \<Rightarrow> if int (length bs) = (if t = [] then 0 else int (length t) div 4 * 3 - int p) then Some bs else None
           | _ \<Rightarrow> None
      else None)"

definition padded :: "(nat \<Rightarrow> byte) \<Rightarrow> int \<times> nat \<times> bytes \<Rightarrow> bytes option" where
  "padded rand x = (case x of (scheme, blockSize, bs) \<Rightarrow>
     if blockSize = 0 \<or> blockSize > 255 then None
     else case (schemeOf scheme, padLength (schemeOf scheme) blockSize (length bs mod blockSize)) of
       (Some s, Some n) \<Rightarrow> if int (length bs) + int n \<le> INT_MAX then Some (bs @ padOctets rand s n) else None
     | _ \<Rightarrow> None)"

definition unpadded :: "int \<times> nat \<times> bytes \<Rightarrow> bytes option" where
  "unpadded x = (case x of (scheme, blockSize, t) \<Rightarrow>
     if blockSize = 0 \<or> blockSize > 255 \<or> t = [] \<or> length t mod blockSize \<noteq> 0 then None
     else case dataLength (schemeOf scheme) blockSize t (length t) of
       Some (Inr n) \<Rightarrow> if n \<le> length t then Some (take n t) else None
     | _ \<Rightarrow> None)"

lemma HexEncode_call:
  assumes "hexEncoded x = Some out"
  shows "mem = None \<or> capacity < int (length out) \<Longrightarrow>
      HexEncode (Some (fst x)) (int (length (fst x))) (snd x) capacity mem = Some (too_small (int (length out)) mem)"
    and "int (length out) \<le> capacity \<Longrightarrow> capacity \<le> int (length m) \<Longrightarrow>
      HexEncode (Some (fst x)) (int (length (fst x))) (snd x) capacity (Some m)
        = Some (done_with (int (length out)) (out @ drop (length out) m))"
proof -
  from assms have out: "out = hexDigitsOf (snd x) (fst x)" and small: "\<not> int (length (fst x)) * 2 > INT_MAX"
    by (auto simp: hexEncoded_def split: if_splits)
  show "mem = None \<or> capacity < int (length out) \<Longrightarrow>
      HexEncode (Some (fst x)) (int (length (fst x))) (snd x) capacity mem = Some (too_small (int (length out)) mem)"
    using small by (auto simp: HexEncode_def out Let_def split: option.split)
  assume cap: "int (length out) \<le> capacity" "capacity \<le> int (length m)"
  have "length (take (length out) m) = length (fst x) * 2" using cap out by simp
  from hex_written [OF this, of "[]" "[]" "snd x" "[]" "drop (length out) m"] small cap
  show "HexEncode (Some (fst x)) (int (length (fst x))) (snd x) capacity (Some m)
        = Some (done_with (int (length out)) (out @ drop (length out) m))"
    by (simp add: HexEncode_def out Let_def)
qed

lemma HexDecode_call:
  assumes "hexDecoded t = Some out"
  shows "mem = None \<or> capacity < int (length out) \<Longrightarrow>
      HexDecode (Some t) (int (length t)) capacity mem = Some (too_small (int (length out)) mem)"
    and "int (length out) \<le> capacity \<Longrightarrow> capacity \<le> int (length m) \<Longrightarrow>
      HexDecode (Some t) (int (length t)) capacity (Some m) = Some (done_with (int (length out)) (out @ drop (length out) m))"
proof -
  from assms have out: "hexOctets t = Some out" by (simp add: hexDecoded_def split: if_splits)
  then have len: "length t = length out * 2" by (rule hexOctets_length)
  show "mem = None \<or> capacity < int (length out) \<Longrightarrow>
      HexDecode (Some t) (int (length t)) capacity mem = Some (too_small (int (length out)) mem)"
    by (auto simp: HexDecode_def len Let_def split: option.split)
  assume cap: "int (length out) \<le> capacity" "capacity \<le> int (length m)"
  have "length (take (length out) m) = length out" using cap by simp
  from hex_decoded [OF out this, of "[]" "[]" "[]" "drop (length out) m"] cap
  show "HexDecode (Some t) (int (length t)) capacity (Some m) = Some (done_with (int (length out)) (out @ drop (length out) m))"
    by (simp add: HexDecode_def len Let_def)
qed

lemma Base64Encode_call:
  assumes "base64Encoded bs = Some out"
  shows "mem = None \<or> capacity < int (length out) \<Longrightarrow>
      Base64Encode (Some bs) (int (length bs)) capacity mem = Some (too_small (int (length out)) mem)"
    and "int (length out) \<le> capacity \<Longrightarrow> capacity \<le> int (length m) \<Longrightarrow>
      Base64Encode (Some bs) (int (length bs)) capacity (Some m) = Some (done_with (int (length out)) (out @ drop (length out) m))"
proof -
  from assms have out: "out = base64Text bs" and small: "\<not> (int (length bs) + 2 > INT_MAX \<or> (int (length bs) + 2) div 3 * 4 > INT_MAX)"
    by (auto simp: base64Encoded_def split: if_splits)
  have len: "(int (length bs) + 2) div 3 * 4 = int (length out)"
    by (simp add: out length_base64Text zdiv_int)
  show "mem = None \<or> capacity < int (length out) \<Longrightarrow>
      Base64Encode (Some bs) (int (length bs)) capacity mem = Some (too_small (int (length out)) mem)"
    using small unfolding Base64Encode_def len by (auto simp: Let_def split: option.split)
  assume cap: "int (length out) \<le> capacity" "capacity \<le> int (length m)"
  have "length (take (length out) m) = length (base64Text bs)" using cap out by simp
  from base64_written [OF this, of "[]" "[]" "[]" "drop (length out) m"] small cap
  show "Base64Encode (Some bs) (int (length bs)) capacity (Some m) = Some (done_with (int (length out)) (out @ drop (length out) m))"
    unfolding Base64Encode_def len
    by (auto simp: Let_def out bind_eq_Some_conv split_beta)
qed

lemma base64Octets_groups: "length t mod 4 = 0 \<Longrightarrow> length t = 4 * (length t div 4)"
  by presburger

lemma Base64Decode_call:
  assumes "base64Decoded t = Some out"
  shows "mem = None \<or> capacity < int (length out) \<Longrightarrow>
      Base64Decode (Some t) (int (length t)) capacity mem = Some (too_small (int (length out)) mem)"
    and "int (length out) \<le> capacity \<Longrightarrow> capacity \<le> int (length m) \<Longrightarrow>
      Base64Decode (Some t) (int (length t)) capacity (Some m) = Some (done_with (int (length out)) (out @ drop (length out) m))"
proof -
  from assms obtain p where out: "base64Octets t = Some out" and p: "paddingCount (Some t) (length t) = Some p"
    and four: "length t mod 4 = 0" and len: "(if t = [] then 0 else int (length t) div 4 * 3 - int p) = int (length out)"
    by (auto simp: base64Decoded_def split: if_splits option.splits)
  have size: "(if int (length t) = 0 then 0 else int (length t) div 4 * 3 - int p) = int (length out)"
    using len by simp
  have ok: "\<not> (int (length t) < 0 \<or> (int (length t) > 0 \<and> Some t = None) \<or> int (length t) mod 4 \<noteq> 0)"
  proof -
    have "int (length t) mod 4 = int (length t mod 4)" by (simp add: zmod_int)
    then show ?thesis using four by simp
  qed
  have start: "Base64Decode (Some t) (int (length t)) capacity mem =
      (case mem of None \<Rightarrow> Some (too_small (int (length out)) mem)
       | Some m \<Rightarrow> if capacity < int (length out) then Some (too_small (int (length out)) mem)
           else do {
             (ok, outputIndex, m) \<leftarrow> base64DecodeLoop (Some t) (length t div 4) 0 0 m;
             Some (if ok then done_with (int outputIndex) m else failed INVALID_DATA (Some m)) })" for mem capacity
    unfolding Base64Decode_def if_not_P [OF ok] nat_int p Option.bind.bind_lunit Let_def size ..
  show "mem = None \<or> capacity < int (length out) \<Longrightarrow>
      Base64Decode (Some t) (int (length t)) capacity mem = Some (too_small (int (length out)) mem)"
    unfolding start by (auto split: option.split)
  assume cap: "int (length out) \<le> capacity" "capacity \<le> int (length m)"
  have "length (take (length out) m) = length out" using cap by simp
  from base64_decoded [OF out base64Octets_groups [OF four] this, of "[]" "[]" "[]" "drop (length out) m"] cap
  show "Base64Decode (Some t) (int (length t)) capacity (Some m) = Some (done_with (int (length out)) (out @ drop (length out) m))"
    unfolding start by simp
qed

lemma base64_inverse:
  assumes "base64Encoded bs = Some t"
  shows "base64Decoded t = Some bs"
proof -
  from assms have t: "t = base64Text bs" and small: "(int (length bs) + 2) div 3 * 4 \<le> INT_MAX"
    by (auto simp: base64Encoded_def split: if_splits)
  have groups: "length t = (length bs + 2) div 3 * 4" by (simp only: t length_base64Text)
  have four: "length t mod 4 = 0" "length t div 4 = (length bs + 2) div 3" by (simp_all only: groups) simp_all
  have len: "int (length t) = (int (length bs) + 2) div 3 * 4"
    unfolding groups by (simp add: zdiv_int)
  have room: "length bs \<le> (length bs + 2) div 3 * 3" by linarith
  have empty: "t = [] \<longleftrightarrow> bs = []" by (cases bs rule: base64Text.cases) (simp_all add: t)
  have "int (length t) div 4 = int (length t div 4)" by (simp only: zdiv_int of_nat_numeral)
  then have third: "int (length t) div 4 = int ((length bs + 2) div 3)" by (simp only: four)
  have "(if t = [] then 0 else int (length t) div 4 * 3 - int ((length bs + 2) div 3 * 3 - length bs)) = int (length bs)"
    unfolding third empty of_nat_diff [OF room] by (simp only: of_nat_mult of_nat_numeral) simp
  moreover have "int (length t) \<le> INT_MAX" unfolding len by (rule small)
  ultimately show ?thesis
    using base64Octets_text [of bs] paddingCount_text [of bs] unfolding base64Decoded_def t [symmetric]
    by (simp only: four simp_thms if_True option.case prod.case)
qed

lemma Pad_call:
  assumes "padded rand (scheme, blockSize, bs) = Some out"
  shows "mem = None \<or> capacity < int (length out) \<Longrightarrow>
      Pad rand scheme blockSize (Some bs) (int (length bs)) capacity mem = Some (too_small (int (length out)) mem)"
    and "int (length out) \<le> capacity \<Longrightarrow> capacity \<le> int (length m) \<Longrightarrow>
      Pad rand scheme blockSize (Some bs) (int (length bs)) capacity (Some m) = Some (done_with (int (length out)) (out @ drop (length out) m))"
proof -
  from assms obtain s n where b: "\<not> (blockSize = 0 \<or> blockSize > 255)" and s: "schemeOf scheme = Some s"
    and n: "padLength (Some s) blockSize (length bs mod blockSize) = Some n" and small: "\<not> int (length bs) + int n > INT_MAX"
    and out: "out = bs @ padOctets rand s n"
    by (auto simp: padded_def split: if_splits option.splits)
  have pl: "length (padOctets rand s n) = n"
    using length_padOctets [OF n] b by simp
  have len: "int (length bs) + int n = int (length out)" by (simp add: out pl)
  have start: "Pad rand scheme blockSize (Some bs) (int (length bs)) capacity mem =
      (case mem of None \<Rightarrow> Some (too_small (int (length out)) mem)
       | Some m \<Rightarrow> if capacity < int (length out) then Some (too_small (int (length out)) mem)
           else do { m \<leftarrow> poke m 0 bs; m \<leftarrow> poke m (length bs) (padOctets rand s n); Some (done_with (int (length out)) m) })" for mem capacity
    unfolding Pad_def using b small by (cases mem) (simp_all add: s n len Let_def)
  show "mem = None \<or> capacity < int (length out) \<Longrightarrow>
      Pad rand scheme blockSize (Some bs) (int (length bs)) capacity mem = Some (too_small (int (length out)) mem)"
    unfolding start by (auto split: option.split)
  assume cap: "int (length out) \<le> capacity" "capacity \<le> int (length m)"
  then have fits: "length bs + n \<le> length m" by (simp add: out pl)
  then show "Pad rand scheme blockSize (Some bs) (int (length bs)) capacity (Some m) = Some (done_with (int (length out)) (out @ drop (length out) m))"
    unfolding start using cap by (simp add: out pl add.commute)
qed

lemma Unpad_call:
  assumes "unpadded (scheme, blockSize, t) = Some out"
  shows "mem = None \<or> capacity < int (length out) \<Longrightarrow>
      Unpad scheme blockSize (Some t) (int (length t)) capacity mem = Some (too_small (int (length out)) mem)"
    and "int (length out) \<le> capacity \<Longrightarrow> capacity \<le> int (length m) \<Longrightarrow>
      Unpad scheme blockSize (Some t) (int (length t)) capacity (Some m) = Some (done_with (int (length out)) (out @ drop (length out) m))"
proof -
  from assms obtain n where b: "\<not> (blockSize = 0 \<or> blockSize > 255)" and t: "t \<noteq> []" "length t mod blockSize = 0"
    and n: "dataLength (schemeOf scheme) blockSize t (length t) = Some (Inr n)" "n \<le> length t" and out: "out = take n t"
    by (auto simp: unpadded_def split: if_splits option.splits sum.splits)
  have start: "Unpad scheme blockSize (Some t) (int (length t)) capacity mem =
      (case mem of None \<Rightarrow> Some (too_small (int n) mem)
       | Some m \<Rightarrow> if capacity < int n then Some (too_small (int n) mem)
           else do { m \<leftarrow> poke m 0 (take n t); Some (done_with (int n) m) })" for mem capacity
    unfolding Unpad_def using b t n by (cases mem) simp_all
  show "mem = None \<or> capacity < int (length out) \<Longrightarrow>
      Unpad scheme blockSize (Some t) (int (length t)) capacity mem = Some (too_small (int (length out)) mem)"
    unfolding start using n out by (auto split: option.split)
  assume cap: "int (length out) \<le> capacity" "capacity \<le> int (length m)"
  then show "Unpad scheme blockSize (Some t) (int (length t)) capacity (Some m) = Some (done_with (int (length out)) (out @ drop (length out) m))"
    unfolding start using n out by simp
qed

lemma padding_inverse:
  assumes "padded rand (scheme, blockSize, bs) = Some t" "schemeOf scheme = Some s" "recoverable s bs"
  shows "unpadded (scheme, blockSize, t) = Some bs"
proof -
  from assms(1,2) obtain n where b: "0 < blockSize" "blockSize \<le> 255"
    and n: "padLength (Some s) blockSize (length bs mod blockSize) = Some n" and t: "t = bs @ padOctets rand s n"
    by (auto simp: padded_def split: if_splits option.splits)
  have pl: "length (padOctets rand s n) = n"
    using length_padOctets [OF n] b by simp
  have "(length bs + n) mod blockSize = 0" by (rule padLength_aligns [OF n b(1)])
  moreover have "t \<noteq> []"
    using assms(3) n b by (auto simp: t padOctets_def padLength_def recoverable_def split: padding_scheme.splits)
  ultimately show ?thesis
    using dataLength_padded [OF n b assms(3), of rand] b by (simp add: unpadded_def assms(2) t pl)
qed

section \<open>The interfaces\<close>

interpretation hex: codec "\<lambda>x. HexEncode (Some (fst x)) (int (length (fst x))) (snd x)" hexEncoded
    "\<lambda>t. HexDecode (Some t) (int (length t))" hexDecoded "\<lambda>x t. t" fst
  by unfold_locales (auto simp: HexEncode_call HexDecode_call hexEncoded_def hexDecoded_def mult.commute split: if_splits)

interpretation base64: codec "\<lambda>bs. Base64Encode (Some bs) (int (length bs))" base64Encoded
    "\<lambda>t. Base64Decode (Some t) (int (length t))" base64Decoded "\<lambda>bs t. t" id
  by unfold_locales (auto simp: Base64Encode_call Base64Decode_call base64_inverse)

text \<open>The padding functions, on the data that can be told from the padding.\<close>

definition paddedBack :: "(nat \<Rightarrow> byte) \<Rightarrow> int \<times> nat \<times> bytes \<Rightarrow> bytes option" where
  "paddedBack rand x = (case x of (scheme, blockSize, bs) \<Rightarrow>
     case schemeOf scheme of None \<Rightarrow> None
     | Some s \<Rightarrow> if recoverable s bs then padded rand x else None)"

interpretation padding: codec "\<lambda>(scheme, blockSize, bs). Pad rand scheme blockSize (Some bs) (int (length bs))" "paddedBack rand"
    "\<lambda>(scheme, blockSize, t). Unpad scheme blockSize (Some t) (int (length t))" unpadded
    "\<lambda>(scheme, blockSize, bs) t. (scheme, blockSize, t)" "\<lambda>(scheme, blockSize, bs). bs"
  for rand :: "nat \<Rightarrow> byte"
  by unfold_locales
    (auto simp: Pad_call Unpad_call padding_inverse paddedBack_def split: option.splits if_splits)


section \<open>No access outside the caller's memory\<close>

lemma hexEncodeLoop_inside:
  "2 * (index + rounds) \<le> length mem \<Longrightarrow> index + rounds \<le> length bs \<Longrightarrow>
   safe (hexEncodeLoop digits (Some bs) rounds index mem)"
  by (induction rounds arbitrary: index mem) (auto simp: writeAt_def)

lemma hexDecodeLoop_inside:
  "index + rounds \<le> length mem \<Longrightarrow> 2 * (index + rounds) \<le> length t \<Longrightarrow>
   safe (hexDecodeLoop (Some t) rounds index mem)"
  by (induction rounds arbitrary: index mem) (auto simp: writeAt_def)

lemma holds_input: "bufferHolds input n \<Longrightarrow> 0 \<le> n \<Longrightarrow> n = 0 \<or> input \<noteq> None \<Longrightarrow> input = Some b \<Longrightarrow> nat n \<le> length b"
  by auto

lemma HexEncode_inside:
  assumes "bufferHolds input n" "roomy capacity out" "n * 2 \<le> INT_MAX"
  shows "safe (HexEncode input n upperCase capacity out)"
proof -
  have "safe (hexEncodeLoop digits input (nat n) 0 m)" if "0 \<le> n" "n > 0 \<longrightarrow> input \<noteq> None" "n * 2 \<le> int (length m)" for digits m
  proof (cases input)
    case None
    then show ?thesis using that by simp
  next
    case (Some b)
    then show ?thesis using that assms(1) by (auto intro!: hexEncodeLoop_inside)
  qed
  then show ?thesis
    using assms(2,3) by (auto simp: HexEncode_def Let_def intro!: safe_bind split: option.split)
qed

lemma HexDecode_inside:
  assumes "bufferHolds input n" "roomy capacity out"
  shows "safe (HexDecode input n capacity out)"
proof -
  have "safe (hexDecodeLoop input (nat (n div 2)) 0 m)" if "0 \<le> n" "n > 0 \<longrightarrow> input \<noteq> None" "n div 2 \<le> int (length m)" for m
  proof (cases input)
    case None
    then show ?thesis using that by simp
  next
    case (Some b)
    then have "2 * nat (n div 2) \<le> length b" "nat (n div 2) \<le> length m" using that assms(1) by auto
    then show ?thesis using Some by (auto intro!: hexDecodeLoop_inside)
  qed
  then show ?thesis
    using assms(2) by (auto simp: HexDecode_def Let_def intro!: safe_bind split: option.split)
qed

lemma Base64Encode_inside:
  assumes "bufferHolds input n" "roomy capacity out" "n + 2 \<le> INT_MAX" "(n + 2) div 3 * 4 \<le> INT_MAX"
  shows "safe (Base64Encode input n capacity out)"
proof -
  have run: "\<exists>i p m1 p' m2. base64EncodeLoop input (nat n) 0 0 m = Some (i, p, m1)
      \<and> base64EncodeTail input (nat n - i) i p m1 = Some (p', m2)"
    if n: "0 \<le> n" "n > 0 \<longrightarrow> input \<noteq> None" "(n + 2) div 3 * 4 \<le> int (length m)" for m
  proof (cases "n = 0")
    case True
    then show ?thesis using base64EncodeLoop_stop [of 0 "[]" input 0 m] by (simp add: base64EncodeTail_cases)
  next
    case False
    then obtain b where b: "input = Some b" "nat n \<le> length b" using n assms(1) by auto
    let ?xs = "take (nat n) b"
    have len: "length ?xs = nat n" using b by simp
    have "int ((nat n + 2) div 3 * 4) = (n + 2) div 3 * 4" using n(1) by (simp add: zdiv_int)
    then have "length (base64Text ?xs) \<le> length m" using n(3) len by (simp add: length_base64Text)
    then have "length (take (length (base64Text ?xs)) m) = length (base64Text ?xs)" by simp
    from base64_written [OF this, of "[]" "drop (nat n) b" "[]" "drop (length (base64Text ?xs)) m"] show ?thesis
      using len by (fastforce simp: b bind_eq_Some_conv split: prod.splits)
  qed
  show ?thesis
  proof (cases "n < 0 \<or> (n > 0 \<and> input = None) \<or> out = None \<or> capacity < (n + 2) div 3 * 4")
    case True
    then show ?thesis using assms(3,4) by (auto simp: Base64Encode_def Let_def split: option.split)
  next
    case False
    then obtain m where m: "out = Some m" "(n + 2) div 3 * 4 \<le> int (length m)" using assms(2) by auto
    from False have "0 \<le> n" "n > 0 \<longrightarrow> input \<noteq> None" by auto
    from run [OF this m(2)] show ?thesis
      using False assms(3,4) m by (auto simp: Base64Encode_def Let_def)
  qed
qed

lemma Base64Decode_inside:
  assumes "bufferHolds input n" "roomy capacity out"
  shows "safe (Base64Decode input n capacity out)"
proof (cases "n < 0 \<or> (n > 0 \<and> input = None) \<or> n mod 4 \<noteq> 0")
  case True
  then show ?thesis by (simp add: Base64Decode_def)
next
  case False
  show ?thesis
  proof (cases "n = 0")
    case True
    then show ?thesis by (simp add: Base64Decode_def paddingCount_def Let_def split: option.split)
  next
    case nonzero: False
    from False have m: "n mod 4 = 0" "0 \<le> n" by auto
    then obtain k where k: "n = 4 * k" by (metis dvd_def mod_0_imp_dvd)
    then have four: "nat n = 4 * (nat n div 4)" by (simp add: nat_mult_distrib)
    have "2 \<le> n" using k nonzero m(2) by presburger
    then have "2 \<le> nat n" by simp
    moreover have "0 < n" using nonzero m(2) by simp
    moreover note four
    ultimately have n: "2 \<le> nat n" "nat n = 4 * (nat n div 4)" "0 < n" by blast+
    obtain t where t: "input = Some t" "nat n \<le> length t"
      using assms(1) False n(3) by auto
    let ?r = "nat n div 4"
    have size: "n div 4 * 3 - int (padMarks t (nat n)) = int (3 * ?r - padMarks t (nat n))"
    proof -
      have "padMarks t (nat n) \<le> 2" by (simp add: padMarks_def)
      moreover have "1 \<le> ?r" using n by linarith
      moreover have "n div 4 = int ?r" using n(3) by (simp add: zdiv_int)
      ultimately show ?thesis by (simp add: of_nat_diff)
    qed
    have "safe (base64DecodeLoop (Some t) ?r 0 0 m)" if "int (3 * ?r - padMarks t (nat n)) \<le> int (length m)" for m
      using base64DecodeLoop_inside [of 0 ?r t 0 m] that t n(1,2) by auto
    then show ?thesis
      unfolding Base64Decode_def using False nonzero assms(2) n
      by (auto simp: t paddingCount_marks [OF n(1) t(2)] size Let_def intro!: safe_bind split: option.split)
  qed
qed


lemma stripZeros_inside: "n \<le> length input \<Longrightarrow> \<exists>k. stripZeros input n = Some k \<and> k \<le> n"
  using stripZeros_spec by blast

lemma dataLength_inside:
  assumes "n \<le> length input" "0 < n"
  shows "\<exists>r. dataLength s blockSize input n = Some r \<and> (\<forall>m. r = Inr m \<longrightarrow> m \<le> n)"
proof -
  obtain k where k: "stripZeros input n = Some k" "k \<le> n" using stripZeros_inside [OF assms(1)] by blast
  have all: "\<exists>ok. checkPad input n v (unat w) 0 = Some ok" if "unat w \<le> n" for v and w :: byte
    using checkPad_spec [of 0 "unat w" n input v] that assms by simp
  have rest: "\<exists>ok. checkPad input n v (unat w - 1) 1 = Some ok" if "unat w \<le> n" "w \<noteq> 0" for v and w :: byte
  proof -
    have "1 + (unat w - 1) \<le> n" using that by (simp add: unat_gt_0 Suc_leI)
    then show ?thesis using checkPad_spec [of 1 "unat w - 1" n input v] assms by blast
  qed
  have final: "byte_at input (n - 1) = Some (input ! (n - 1))" using assms by simp
  have kth: "0 < k \<Longrightarrow> byte_at input (k - 1) = Some (input ! (k - 1))" using k assms by simp
  show ?thesis
  proof (cases s)
    case (Some t)
    show ?thesis
      using all [of "input ! (n - 1)" "input ! (n - 1)"] rest [of "input ! (n - 1)" 0]
      by (cases t) (use k final kth Some in \<open>auto simp: dataLength_def not_less\<close>)
  qed (simp add: dataLength_def)
qed

lemma Unpad_inside:
  assumes "bufferHolds input n" "roomy capacity out"
  shows "safe (Unpad scheme blockSize input n capacity out)"
proof (cases "blockSize = 0 \<or> blockSize > 255 \<or> input = None \<or> n \<le> 0 \<or> nat n mod blockSize \<noteq> 0")
  case True
  then show ?thesis by (auto simp: Unpad_def split: option.split)
next
  case False
  then obtain b where b: "input = Some b" "nat n \<le> length b" "0 < nat n" using assms(1) by auto
  then obtain r where r: "dataLength (schemeOf scheme) blockSize b (nat n) = Some r" "\<And>m. r = Inr m \<Longrightarrow> m \<le> nat n"
    using dataLength_inside by blast
  show ?thesis
    using False b r assms(2) by (auto simp: Unpad_def split: option.split sum.split)
qed

lemma Pad_inside:
  assumes "bufferHolds input n" "roomy capacity out" "n + 255 \<le> INT_MAX"
  shows "safe (Pad rand scheme blockSize input n capacity out)"
proof (cases "blockSize = 0 \<or> blockSize > 255 \<or> n < 0 \<or> (n > 0 \<and> input = None)")
  case True
  then show ?thesis by (auto simp: Pad_def)
next
  case False
  then have pos: "0 < blockSize" "nat n mod blockSize < blockSize" by auto
  show ?thesis
  proof (cases "(schemeOf scheme, padLength (schemeOf scheme) blockSize (nat n mod blockSize))")
    case (Pair ms mp)
    show ?thesis
    proof (cases "ms = None \<or> mp = None")
      case True
      then show ?thesis using False Pair by (auto simp: Pad_def split: option.split)
    next
      case both: False
      then obtain s p where s: "schemeOf scheme = Some s" and p: "padLength (Some s) blockSize (nat n mod blockSize) = Some p"
        using Pair by auto
      have len: "length (padOctets rand s p) = p" by (rule length_padOctets [OF p pos(2)])
      have "p \<le> blockSize" by (rule padLength_bounds [OF p pos(2)])
      then have small: "\<not> n + int p > INT_MAX" using False assms(3) by auto
      have read: "\<exists>bs. readBlock input (nat n) = Some bs \<and> length bs = nat n"
        using False assms(1) by (cases input) (auto simp: min_def)
      show ?thesis
        using False small read assms(2) len
        by (auto simp: Pad_def s p Let_def split: option.split)
    qed
  qed
qed


section \<open>Properties\<close>

text \<open>C33: What \<open>Pad\<close> appends, \<open>Unpad\<close> removes, through the buffers of the caller: for every scheme but
  \<open>PADDING_ZERO\<close> and \<open>PADDING_NONE\<close> whatever the data, for those two when the data is not empty and, with
  \<open>PADDING_ZERO\<close>, does not end in a zero octet. The random filler of ISO 10126 does not matter, and the memory behind
  the answer is left alone.\<close>

theorem padding_is_removed:
  assumes "schemeOf scheme = Some s" "recoverable s bs" "s = PADDING_NONE \<longrightarrow> length bs mod blockSize = 0"
    and "0 < blockSize" "blockSize \<le> 255" "int (length bs) + 255 \<le> INT_MAX"
    and "length bs + blockSize \<le> length m" "length bs \<le> length m'"
  shows "\<exists>r. Pad rand scheme blockSize (Some bs) (int (length bs)) (int (length m)) (Some m) = Some r \<and> ocStatus r = NO_ERROR
    \<and> length (delivered r) mod blockSize = 0
    \<and> Unpad scheme blockSize (Some (delivered r)) (int (length (delivered r))) (int (length m')) (Some m')
        = Some (done_with (int (length bs)) (bs @ drop (length bs) m'))"
proof -
  obtain n where n: "padLength (Some s) blockSize (length bs mod blockSize) = Some n"
    using assms(3) by (cases s) (auto simp: padLength_def)
  have r: "length bs mod blockSize < blockSize" using assms(4) by simp
  note le = padLength_bounds [OF n r] and len = length_padOctets [OF n r, of rand]
  have t: "paddedBack rand (scheme, blockSize, bs) = Some (bs @ padOctets rand s n)"
    using assms le n by (simp add: paddedBack_def padded_def)
  have "length (bs @ padOctets rand s n) \<le> length m" using assms(7) le len by simp
  from padding.round_trip [OF t this, of m'] assms(8) obtain r where
    pad: "Pad rand scheme blockSize (Some bs) (int (length bs)) (int (length m)) (Some m) = Some r" "ocStatus r = NO_ERROR"
    and undone: "Unpad scheme blockSize (Some (delivered r)) (int (length (delivered r))) (int (length m')) (Some m')
        = Some (done_with (int (length bs)) (bs @ drop (length bs) m'))"
    by auto
  moreover have "delivered r = bs @ padOctets rand s n"
    using padding.enc.deliver [OF t, of "int (length m)" m] pad assms(7) le len by (simp add: delivered_def)
  ultimately show ?thesis using padLength_aligns [OF n assms(4)] len by simp
qed

lemma padding_is_removed_witness:
  "\<exists>r. Pad (\<lambda>i. 7) 3 8 (Some [1, 2, 3]) (int (length [1 :: byte, 2, 3])) (int (length (replicate 16 (0 :: byte)))) (Some (replicate 16 0)) = Some r
    \<and> ocStatus r = NO_ERROR \<and> length (delivered r) mod 8 = 0
    \<and> Unpad 3 8 (Some (delivered r)) (int (length (delivered r))) (int (length [0 :: byte, 0, 0, 9])) (Some [0, 0, 0, 9])
        = Some (done_with (int (length [1 :: byte, 2, 3])) ([1, 2, 3] @ drop (length [1 :: byte, 2, 3]) [0, 0, 0, 9]))"
  by (rule padding_is_removed [where s = PADDING_ISO_10126]) (simp_all add: schemeOf_def recoverable_def INT_MAX_def)

text \<open>C34: Octets encoded as hexadecimal text of either case, or as Base64, are decoded to the same octets,
  through the buffers of the caller: asking with a null pointer tells how large a buffer must be, and the encoder fills
  a buffer of that size.\<close>

theorem encoded_text_reads_back:
  assumes "length bs < 1000000000" "length bs \<le> length m"
  shows "(\<exists>n t. HexEncode (Some bs) (int (length bs)) u 0 None = Some (too_small n None)
      \<and> (\<forall>b. int (length b) = n \<longrightarrow> HexEncode (Some bs) (int (length bs)) u n (Some b) = Some (done_with n t))
      \<and> HexDecode (Some t) (int (length t)) (int (length m)) (Some m) = Some (done_with (int (length bs)) (bs @ drop (length bs) m)))
    \<and> (\<exists>n t. Base64Encode (Some bs) (int (length bs)) 0 None = Some (too_small n None)
      \<and> (\<forall>b. int (length b) = n \<longrightarrow> Base64Encode (Some bs) (int (length bs)) n (Some b) = Some (done_with n t))
      \<and> Base64Decode (Some t) (int (length t)) (int (length m)) (Some m) = Some (done_with (int (length bs)) (bs @ drop (length bs) m)))"
proof (rule conjI)
  have h: "hexEncoded (bs, u) = Some (hexDigitsOf u bs)" using assms(1) by (simp add: hexEncoded_def INT_MAX_def)
  from hex.enc.ask_then_call [OF h] obtain n where "HexEncode (Some bs) (int (length bs)) u 0 None = Some (too_small n None)"
    "\<And>b. int (length b) = n \<Longrightarrow> HexEncode (Some bs) (int (length bs)) u n (Some b) = Some (done_with n (hexDigitsOf u bs))"
    by auto
  moreover have "HexDecode (Some (hexDigitsOf u bs)) (int (length (hexDigitsOf u bs))) (int (length m)) (Some m)
      = Some (done_with (int (length bs)) (bs @ drop (length bs) m))"
    using hex.dec.deliver [OF hex.inverse [OF h], of "int (length m)" m] assms(2) by simp
  ultimately show "\<exists>n t. HexEncode (Some bs) (int (length bs)) u 0 None = Some (too_small n None)
      \<and> (\<forall>b. int (length b) = n \<longrightarrow> HexEncode (Some bs) (int (length bs)) u n (Some b) = Some (done_with n t))
      \<and> HexDecode (Some t) (int (length t)) (int (length m)) (Some m) = Some (done_with (int (length bs)) (bs @ drop (length bs) m))"
    by blast
next
  have "(int (length bs) + 2) div 3 * 4 \<le> INT_MAX" using assms(1) by (simp add: INT_MAX_def)
  with assms(1) have b: "base64Encoded bs = Some (base64Text bs)" by (simp add: base64Encoded_def INT_MAX_def)
  from base64.enc.ask_then_call [OF b] obtain n where "Base64Encode (Some bs) (int (length bs)) 0 None = Some (too_small n None)"
    "\<And>c. int (length c) = n \<Longrightarrow> Base64Encode (Some bs) (int (length bs)) n (Some c) = Some (done_with n (base64Text bs))"
    by auto
  moreover have "Base64Decode (Some (base64Text bs)) (int (length (base64Text bs))) (int (length m)) (Some m)
      = Some (done_with (int (length bs)) (bs @ drop (length bs) m))"
    using base64.dec.deliver [OF base64.inverse [OF b], of "int (length m)" m] assms(2) by simp
  ultimately show "\<exists>n t. Base64Encode (Some bs) (int (length bs)) 0 None = Some (too_small n None)
      \<and> (\<forall>b. int (length b) = n \<longrightarrow> Base64Encode (Some bs) (int (length bs)) n (Some b) = Some (done_with n t))
      \<and> Base64Decode (Some t) (int (length t)) (int (length m)) (Some m) = Some (done_with (int (length bs)) (bs @ drop (length bs) m))"
    by blast
qed

lemma encoded_text_reads_back_witness:
  "(\<exists>n t. HexEncode (Some [1, 2]) (int (length [1 :: byte, 2])) True 0 None = Some (too_small n None)
      \<and> (\<forall>b. int (length b) = n \<longrightarrow> HexEncode (Some [1, 2]) (int (length [1 :: byte, 2])) True n (Some b) = Some (done_with n t))
      \<and> HexDecode (Some t) (int (length t)) (int (length [0 :: byte, 0])) (Some [0, 0])
        = Some (done_with (int (length [1 :: byte, 2])) ([1, 2] @ drop (length [1 :: byte, 2]) [0, 0])))
    \<and> (\<exists>n t. Base64Encode (Some [1, 2]) (int (length [1 :: byte, 2])) 0 None = Some (too_small n None)
      \<and> (\<forall>b. int (length b) = n \<longrightarrow> Base64Encode (Some [1, 2]) (int (length [1 :: byte, 2])) n (Some b) = Some (done_with n t))
      \<and> Base64Decode (Some t) (int (length t)) (int (length [0 :: byte, 0])) (Some [0, 0])
        = Some (done_with (int (length [1 :: byte, 2])) ([1, 2] @ drop (length [1 :: byte, 2]) [0, 0])))"
  by (rule encoded_text_reads_back) simp_all

text \<open>C27: None of the functions of \<open>CUtils\<close> reads or writes outside the memory that the caller describes,
  whatever the text, the padded block, the scheme and the capacity are, as long as the size of the encoded or padded
  result fits an \<open>int\<close>. Padding characters in the middle of a Base64 text do not lead the decoder past the size it has checked.\<close>

theorem utilities_stay_inside:
  assumes "bufferHolds octets n" "bufferHolds digits n" "roomy capacity out" "roomy capacity chars" "n < 1000000000"
  shows "(\<exists>r. HexEncode octets n u capacity chars = Some r) \<and> (\<exists>r. HexDecode digits n capacity out = Some r)
    \<and> (\<exists>r. Base64Encode octets n capacity chars = Some r) \<and> (\<exists>r. Base64Decode digits n capacity out = Some r)
    \<and> (\<exists>r. Pad rand scheme blockSize octets n capacity out = Some r)
    \<and> (\<exists>r. Unpad scheme blockSize octets n capacity out = Some r)"
proof -
  have "n * 2 \<le> INT_MAX" "n + 2 \<le> INT_MAX" "(n + 2) div 3 * 4 \<le> INT_MAX" "n + 255 \<le> INT_MAX"
    using assms(5) by (simp_all add: INT_MAX_def)
  then have "safe (HexEncode octets n u capacity chars) \<and> safe (HexDecode digits n capacity out)
      \<and> safe (Base64Encode octets n capacity chars) \<and> safe (Base64Decode digits n capacity out)
      \<and> safe (Pad rand scheme blockSize octets n capacity out) \<and> safe (Unpad scheme blockSize octets n capacity out)"
    using assms(1-4)
    by (intro conjI HexEncode_inside HexDecode_inside Base64Encode_inside Base64Decode_inside Pad_inside Unpad_inside) simp_all
  then show ?thesis by (simp add: safe_def)
qed

lemma utilities_stay_inside_witness:
  "(\<exists>r. HexEncode (Some [1, 2, 3, 4, 5, 6, 7, 8]) 8 True 4 (Some ''....'') = Some r)
    \<and> (\<exists>r. HexDecode (Some ''AA==AAAA'') 8 4 (Some [0, 0, 0, 0]) = Some r)
    \<and> (\<exists>r. Base64Encode (Some [1, 2, 3, 4, 5, 6, 7, 8]) 8 4 (Some ''....'') = Some r)
    \<and> (\<exists>r. Base64Decode (Some ''AA==AAAA'') 8 4 (Some [0, 0, 0, 0]) = Some r)
    \<and> (\<exists>r. Pad (\<lambda>i. 1) 0 16 (Some [1, 2, 3, 4, 5, 6, 7, 8]) 8 4 (Some [0, 0, 0, 0]) = Some r)
    \<and> (\<exists>r. Unpad 0 16 (Some [1, 2, 3, 4, 5, 6, 7, 8]) 8 4 (Some [0, 0, 0, 0]) = Some r)"
  by (rule utilities_stay_inside) simp_all

text \<open>The size of the hexadecimal text of \<open>2 ^ 30\<close> octets overflows \<open>int\<close>.\<close>

lemma hex_size_overflows: "HexEncode (Some bs) 1073741824 upperCase capacity out = None"
  by (simp add: HexEncode_def INT_MAX_def)

text \<open>The Base64 decoder accepts padding inside the text, and any character behind one padding character.\<close>

lemma base64_accepts_loose_padding:
  "Base64Decode (Some ''AA==AAAA'') 8 6 (Some [1, 2, 3, 4, 5, 6]) = Some (done_with 4 [0, 0, 0, 0, 5, 6])"
  "Base64Decode (Some ''AA=*'') 4 2 (Some [1, 2]) = Some (done_with 1 [0, 2])"
  by code_simp+

text \<open>PKCS #7: exactly the padding that \<open>Pad\<close> would write is accepted.\<close>

lemma dataLength_status: "dataLength s blockSize t n = Some (Inl st) \<Longrightarrow> st \<noteq> NO_ERROR"
  by (auto simp: dataLength_def bind_eq_Some_conv split: option.splits padding_scheme.splits if_splits)

lemma pkcs7_is_canonical:
  assumes "Unpad 0 blockSize (Some t) (int (length t)) capacity (Some m) = Some r" "ocStatus r = NO_ERROR" "capacity \<le> int (length m)"
  shows "\<exists>k. 1 \<le> k \<and> k \<le> blockSize \<and> t = delivered r @ replicate k (word_of_nat k)"
proof -
  from assms(1,2) obtain found where d: "dataLength (Some PADDING_PKCS7) blockSize t (length t) = Some found"
    and r: "(case found of Inl st \<Rightarrow> Some (failed st (Some m))
       | Inr n \<Rightarrow> if capacity < int n then Some (too_small (int n) (Some m))
           else do { data \<leftarrow> slice t 0 n; mem \<leftarrow> poke m 0 data; Some (done_with (int n) mem) }) = Some r"
    by (auto simp: Unpad_def schemeOf_def bind_eq_Some_conv split: if_splits)
  from d r assms(2) obtain n where n: "dataLength (Some PADDING_PKCS7) blockSize t (length t) = Some (Inr n)"
    and r: "do { data \<leftarrow> slice t 0 n; mem \<leftarrow> poke m 0 data; Some (done_with (int n) mem) } = Some r"
    by (cases found) (auto dest: dataLength_status split: if_splits)
  from pkcs7_accepts [OF n] obtain k where k: "1 \<le> k" "k \<le> blockSize" "n + k = length t" "drop n t = replicate k (word_of_nat k)"
    by blast
  from r k(3) have "delivered r = take n t" by (auto simp: bind_eq_Some_conv slice_Some poke_Some delivered_def)
  with k append_take_drop_id [of n t] show ?thesis by metis
qed

end
