(* ===== verification/SealedRecords.thy ===== *)
theory SealedRecords
  imports CallerMemory CallerBuffer
begin

unbundle bit_operations_syntax

text \<open>
  The cryptographic providers as the rest of the program sees them (src/src/Providers/*.h), and the
  record format that the buffer, file and chunked-cipher code all write:
  \<open>[4 octets size, little endian][nonce][ciphertext][tag]\<close>, one record after the other.

  The providers are wrappers around CNG, Crypto++, Botan, OpenSSL and libgcrypt: they are records of
  functions here, an argument of the model. \<open>aead_ok\<close>, \<open>random_ok\<close>, \<open>kdf_ok\<close> state what the
  interfaces promise. \<open>sealRecords\<close> and \<open>openRecords\<close> are the abstract specification of the format:
  functions on octets, without buffers, positions and capacities. The theories that follow show
  that the code refines them.
\<close>

section \<open>Providers\<close>

datatype provider_kind = PROVIDER_MICROSOFT | PROVIDER_CRYPTOPP | PROVIDER_BOTAN | PROVIDER_OPENSSL | PROVIDER_LIBGCRYPT

datatype aead_algorithm = AEAD_AES_128_GCM | AEAD_AES_192_GCM | AEAD_AES_256_GCM
  | AEAD_AES_128_CCM | AEAD_AES_192_CCM | AEAD_AES_256_CCM
  | AEAD_AES_128_EAX | AEAD_AES_192_EAX | AEAD_AES_256_EAX
  | AEAD_AES_128_SIV | AEAD_AES_256_SIV | AEAD_AES_128_GCM_SIV | AEAD_AES_256_GCM_SIV
  | AEAD_CHACHA20_POLY1305 | AEAD_TWOFISH_GCM | AEAD_SERPENT_GCM | AEAD_CAMELLIA_GCM

text \<open>\<open>aeadEncrypt key nonce plain\<close> is the ciphertext with the tag, \<open>aeadDecrypt key nonce ciphertext tag\<close>
  the plaintext; \<open>None\<close> is \<open>false\<close>. A random source is a function of the number of the call and the
  size, a key derivation one of password, salt, iterations and size.\<close>

record aead =
  aeadKeySize :: nat
  aeadNonceSize :: nat
  aeadTagSize :: nat
  aeadSetKey :: "bytes \<Rightarrow> bool"
  aeadEncrypt :: "bytes \<Rightarrow> bytes \<Rightarrow> bytes \<Rightarrow> (bytes \<times> bytes) option"
  aeadDecrypt :: "bytes \<Rightarrow> bytes \<Rightarrow> bytes \<Rightarrow> bytes \<Rightarrow> bytes option"

type_synonym random_source = "nat \<Rightarrow> nat \<Rightarrow> bytes option"
type_synonym key_derivation = "bytes \<Rightarrow> bytes \<Rightarrow> nat \<Rightarrow> nat \<Rightarrow> bytes option"

text \<open>Key, nonce and tag are short, a ciphertext is as long as its plaintext, in both directions.\<close>

definition aead_sizes :: "aead \<Rightarrow> bool" where
  "aead_sizes A \<longleftrightarrow> 0 < aeadKeySize A \<and> aeadKeySize A \<le> 65535 \<and> aeadNonceSize A + aeadTagSize A \<le> 4096
     \<and> (\<forall>k n c t p. aeadDecrypt A k n c t = Some p \<longrightarrow> length p = length c)
     \<and> (\<forall>k n p c t. aeadEncrypt A k n p = Some (c, t) \<longrightarrow> length c = length p \<and> length t = aeadTagSize A)"

text \<open>A key of the size asked for is accepted, and what was encrypted is decrypted.\<close>

definition aead_ok :: "aead \<Rightarrow> bool" where
  "aead_ok A \<longleftrightarrow> aead_sizes A \<and> (\<forall>k. length k = aeadKeySize A \<longrightarrow> aeadSetKey A k)
     \<and> (\<forall>k n p c t. aeadEncrypt A k n p = Some (c, t) \<longrightarrow> aeadDecrypt A k n c t = Some p)"

definition random_ok :: "random_source \<Rightarrow> bool" where
  "random_ok R \<longleftrightarrow> (\<forall>i n bs. R i n = Some bs \<longrightarrow> length bs = n)"

definition kdf_ok :: "key_derivation \<Rightarrow> bool" where
  "kdf_ok K \<longleftrightarrow> (\<forall>pw salt i n k. K pw salt i n = Some k \<longrightarrow> length k = n)"

section \<open>Sizes in four octets\<close>

definition writeUInt32 :: "nat \<Rightarrow> bytes" where
  "writeUInt32 v = [word_of_nat v, word_of_nat (drop_bit 8 v), word_of_nat (drop_bit 16 v), word_of_nat (drop_bit 24 v)]"

definition readUInt32 :: "bytes \<Rightarrow> nat" where
  "readUInt32 b = unat (b ! 0) OR push_bit 8 (unat (b ! 1)) OR push_bit 16 (unat (b ! 2)) OR push_bit 24 (unat (b ! 3))"

lemma length_writeUInt32 [simp]: "length (writeUInt32 v) = 4"
  by (simp add: writeUInt32_def)

lemma writeUInt32_not_Nil [simp]: "writeUInt32 v \<noteq> []"
  by (simp add: writeUInt32_def)

lemma readUInt32_value:
  "readUInt32 [a, b, c, d] = unat a + 256 * unat b + 65536 * unat c + 16777216 * unat d"
proof -
  have "readUInt32 [a, b, c, d] = push_bit 24 (unat d) OR (push_bit 16 (unat c) OR (push_bit 8 (unat b) OR unat a))"
    by (simp add: readUInt32_def numeral_2_eq_2 numeral_3_eq_3 ac_simps)
  also have "push_bit 8 (unat b) OR unat a = unat b * 256 + unat a"
    using push_bit_or_lt [of "unat a" 8 "unat b"] by simp
  also have "push_bit 16 (unat c) OR (unat b * 256 + unat a) = unat c * 65536 + (unat b * 256 + unat a)"
    using push_bit_or_lt [of "unat b * 256 + unat a" 16 "unat c"] unat_byte_lt [of a] unat_byte_lt [of b] by simp
  also have "push_bit 24 (unat d) OR (unat c * 65536 + (unat b * 256 + unat a))
      = unat d * 16777216 + (unat c * 65536 + (unat b * 256 + unat a))"
    using push_bit_or_lt [of "unat c * 65536 + (unat b * 256 + unat a)" 24 "unat d"]
      unat_byte_lt [of a] unat_byte_lt [of b] unat_byte_lt [of c] by simp
  finally show ?thesis by simp
qed

lemma readUInt32_lt: "length b = 4 \<Longrightarrow> readUInt32 b < 4294967296"
proof -
  assume "length b = 4"
  then obtain w x y z where b: "b = [w, x, y, z]" by (auto simp: length_Suc_conv eval_nat_numeral)
  show ?thesis
    using unat_byte_lt [of w] unat_byte_lt [of x] unat_byte_lt [of y] unat_byte_lt [of z]
    unfolding b readUInt32_value by linarith
qed

lemma read_writeUInt32 [simp]: "v < 4294967296 \<Longrightarrow> readUInt32 (writeUInt32 v) = v"
proof -
  assume v: "v < 4294967296"
  define d where "d = v div 16777216"
  have parts: "v mod 256 + 256 * (v div 256 mod 256) = v mod 65536" "v mod 65536 + 65536 * (v div 65536 mod 256) = v mod 16777216"
    using mod_mult2_eq [of v 256 256] mod_mult2_eq [of v 65536 256] by simp_all
  have whole: "v mod 16777216 + 16777216 * (v div 16777216) = v" by (rule mod_mult_div_eq)
  have top: "v div 16777216 mod 256 = v div 16777216" using v by simp
  have "readUInt32 (writeUInt32 v) = v mod 256 + 256 * (v div 256 mod 256) + 65536 * (v div 65536 mod 256) + 16777216 * (v div 16777216 mod 256)"
    unfolding writeUInt32_def readUInt32_value by (simp add: drop_bit_eq_div)
  then show ?thesis by (simp only: parts top whole)
qed

section \<open>The format as functions on octets\<close>

definition sealRecord :: "aead \<Rightarrow> bytes \<Rightarrow> bytes \<Rightarrow> bytes \<Rightarrow> bytes option" where
  "sealRecord A key nonce plain =
     (case aeadEncrypt A key nonce plain of None \<Rightarrow> None
      | Some (ciphertext, tag) \<Rightarrow> Some (writeUInt32 (length plain) @ nonce @ ciphertext @ tag))"

text \<open>One record per chunk, each with a nonce of its own.\<close>

fun sealRecords :: "aead \<Rightarrow> random_source \<Rightarrow> bytes \<Rightarrow> nat \<Rightarrow> bytes list \<Rightarrow> bytes option" where
  "sealRecords A R key draw [] = Some []"
| "sealRecords A R key draw (c # cs) = do {
     nonce \<leftarrow> R draw (aeadNonceSize A);
     record1 \<leftarrow> sealRecord A key nonce c;
     rest \<leftarrow> sealRecords A R key (draw + 1) cs;
     Some (record1 @ rest) }"

text \<open>Reading records back; \<open>limit\<close> bounds the plaintext of one.\<close>

function openRecords :: "nat \<Rightarrow> aead \<Rightarrow> bytes \<Rightarrow> bytes \<Rightarrow> bytes option" where
  "openRecords limit A key bs =
     (if bs = [] then Some []
      else if length bs < 4 then None
      else let n = readUInt32 (take 4 bs); body = drop 4 bs in
        if n > limit \<or> n + aeadNonceSize A + aeadTagSize A > length body then None
        else do {
          p \<leftarrow> aeadDecrypt A key (take (aeadNonceSize A) body) (take n (drop (aeadNonceSize A) body))
                 (take (aeadTagSize A) (drop (aeadNonceSize A + n) body));
          ps \<leftarrow> openRecords limit A key (drop (n + aeadNonceSize A + aeadTagSize A) body);
          Some (p @ ps) })"
  by pat_completeness auto

termination
  by (relation "measure (\<lambda>(_, _, _, bs). length bs)") auto

declare openRecords.simps [simp del]

function chunksOf :: "nat \<Rightarrow> bytes \<Rightarrow> bytes list" where
  "chunksOf n xs = (if xs = [] \<or> n = 0 then [] else take n xs # chunksOf n (drop n xs))"
  by pat_completeness auto

termination
  by (relation "measure (\<lambda>(n, xs). length xs)") auto

declare chunksOf.simps [simp del]

lemma chunksOf_Nil [simp]: "chunksOf n [] = []"
  by (subst chunksOf.simps) simp

lemma concat_chunksOf [simp]: "0 < n \<Longrightarrow> concat (chunksOf n xs) = xs"
proof (induction n xs rule: chunksOf.induct)
  case (1 n xs)
  then show ?case by (subst chunksOf.simps) auto
qed

lemma chunksOf_bound: "c \<in> set (chunksOf n xs) \<Longrightarrow> length c \<le> n \<and> c \<noteq> []"
proof (induction n xs rule: chunksOf.induct)
  case (1 n xs)
  show ?case
  proof (cases "xs = [] \<or> n = 0")
    case True
    then show ?thesis using 1(2) by (auto simp: chunksOf.simps [of n xs])
  next
    case False
    with 1(2) have "c = take n xs \<or> c \<in> set (chunksOf n (drop n xs))" by (auto simp: chunksOf.simps [of n xs])
    then show ?thesis using 1(1) False by auto
  qed
qed

lemma length_chunksOf: "0 < n \<Longrightarrow> length (chunksOf n xs) = (length xs + n - 1) div n"
proof (induction n xs rule: chunksOf.induct)
  case (1 n xs)
  show ?case
  proof (cases "xs = []")
    case True
    then show ?thesis using 1(2) by simp
  next
    case False
    then have len: "length (chunksOf n xs) = Suc ((length xs - n + n - 1) div n)"
      using 1 by (subst chunksOf.simps) simp
    show ?thesis
    proof (cases "n \<le> length xs")
      case True
      then have "(length xs + n - 1) div n = (length xs - 1) div n + 1"
        using 1(2) False div_add_self2 [of n "length xs - 1"] by (cases xs) simp_all
      then show ?thesis using len True by simp
    next
      case small: False
      then have "(length xs + n - 1) div n = 1"
        using False 1(2) by (intro div_nat_eqI) (cases xs; simp)+
      then show ?thesis using len small 1(2) by simp
    qed
  qed
qed

section \<open>What was sealed is opened\<close>

lemma sealRecord_length:
  "aead_sizes A \<Longrightarrow> sealRecord A key nonce plain = Some r \<Longrightarrow> length r = 4 + length nonce + length plain + aeadTagSize A"
  by (auto simp: sealRecord_def aead_sizes_def split: option.splits)

lemma openRecords_Nil [simp]: "openRecords limit A key [] = Some []"
  by (subst openRecords.simps) simp

text \<open>A record in front of the others, and every octet string that is long enough starts with one.\<close>

definition recordParts :: "aead \<Rightarrow> bytes \<Rightarrow> bytes \<Rightarrow> bytes \<Rightarrow> bytes \<Rightarrow> bool" where
  "recordParts A w nonce c tag \<longleftrightarrow>
     length w = 4 \<and> readUInt32 w = length c \<and> length nonce = aeadNonceSize A \<and> length tag = aeadTagSize A"

lemma split_record:
  assumes "4 \<le> length bs" "readUInt32 (take 4 bs) + aeadNonceSize A + aeadTagSize A \<le> length bs - 4"
  obtains w nonce c tag rest where "bs = w @ nonce @ c @ tag @ rest" "recordParts A w nonce c tag"
proof
  let ?n = "readUInt32 (take 4 bs)" and ?b = "drop 4 bs"
  let ?r = "drop (aeadNonceSize A) ?b"
  show "bs = take 4 bs @ take (aeadNonceSize A) ?b @ take ?n ?r @ take (aeadTagSize A) (drop ?n ?r) @ drop (aeadTagSize A) (drop ?n ?r)"
    by (simp only: append_take_drop_id)
  show "recordParts A (take 4 bs) (take (aeadNonceSize A) ?b) (take ?n ?r) (take (aeadTagSize A) (drop ?n ?r))"
    using assms by (simp add: recordParts_def)
qed

lemma openRecords_Cons:
  assumes "recordParts A w nonce c tag" "length c \<le> limit"
  shows "openRecords limit A key (w @ nonce @ c @ tag @ rest) = do {
    p \<leftarrow> aeadDecrypt A key nonce c tag; ps \<leftarrow> openRecords limit A key rest; Some (p @ ps) }"
proof -
  have ne: "w \<noteq> []" using assms(1) by (auto simp: recordParts_def)
  have n: "aeadNonceSize A = length nonce" "aeadTagSize A = length tag" "length w = 4" "readUInt32 w = length c"
    using assms(1) by (simp_all add: recordParts_def)
  show ?thesis
    using assms(2) by (subst openRecords.simps) (simp add: ne n Let_def add.commute)
qed

lemma openRecords_refuses:
  "bs \<noteq> [] \<Longrightarrow> length bs < 4 \<Longrightarrow> openRecords limit A key bs = None"
  "bs \<noteq> [] \<Longrightarrow> limit < readUInt32 (take 4 bs) \<Longrightarrow> openRecords limit A key bs = None"
  "bs \<noteq> [] \<Longrightarrow> length bs - 4 < readUInt32 (take 4 bs) + aeadNonceSize A + aeadTagSize A \<Longrightarrow> openRecords limit A key bs = None"
  by (subst openRecords.simps; simp add: Let_def)+

lemma openRecords_Some_cases:
  assumes "openRecords limit A key bs = Some p" "bs \<noteq> []"
  obtains w nonce c tag rest q qs where "bs = w @ nonce @ c @ tag @ rest" "recordParts A w nonce c tag" "length c \<le> limit"
    "aeadDecrypt A key nonce c tag = Some q" "openRecords limit A key rest = Some qs" "p = q @ qs"
proof -
  have long: "4 \<le> length bs" "\<not> limit < readUInt32 (take 4 bs)"
    "readUInt32 (take 4 bs) + aeadNonceSize A + aeadTagSize A \<le> length bs - 4"
    using assms openRecords_refuses [where bs = bs and limit = limit and A = A and key = key]
    by (metis not_less option.distinct(1))+
  obtain w nonce c tag rest where bs: "bs = w @ nonce @ c @ tag @ rest" and parts: "recordParts A w nonce c tag"
    by (rule split_record [OF long(1,3)])
  have "readUInt32 (take 4 bs) = length c" using parts by (simp add: bs recordParts_def)
  with long have limit: "length c \<le> limit" by simp
  show ?thesis
    using assms(1) that [OF bs parts limit] unfolding bs openRecords_Cons [OF parts limit]
    by (auto simp: bind_eq_Some_conv)
qed

lemma openRecords_sealRecords:
  assumes "aead_ok A" "random_ok R" "sealRecords A R key draw cs = Some bs" "\<forall>c \<in> set cs. length c \<le> limit" "limit < 4294967296"
  shows "openRecords limit A key (bs @ rest) = map_option ((@) (concat cs)) (openRecords limit A key rest)"
  using assms(3,4)
proof (induction cs arbitrary: draw bs)
  case Nil
  then show ?case by (simp add: option.map_id0 [unfolded id_def])
next
  case (Cons c cs)
  from Cons.prems(1) obtain nonce ct tag more where n: "R draw (aeadNonceSize A) = Some nonce"
    and e: "aeadEncrypt A key nonce c = Some (ct, tag)" and m: "sealRecords A R key (draw + 1) cs = Some more"
    and bs: "bs = writeUInt32 (length c) @ nonce @ ct @ tag @ more"
    by (auto simp: sealRecord_def bind_eq_Some_conv split: option.splits)
  have len: "length nonce = aeadNonceSize A" "length ct = length c" "length tag = aeadTagSize A" "aeadDecrypt A key nonce ct tag = Some c"
    using assms(1,2) n e by (auto simp: aead_ok_def aead_sizes_def random_ok_def)
  from Cons.prems(2) assms(5) len have "length ct \<le> limit" "length ct < 4294967296" by auto
  then have "recordParts A (writeUInt32 (length c)) nonce ct tag" "length ct \<le> limit"
    using len by (simp_all add: recordParts_def)
  from openRecords_Cons [OF this, of key "more @ rest"] Cons.IH [OF m] Cons.prems(2)
  show ?case by (cases "openRecords limit A key rest") (simp_all add: bs len)
qed


lemma openRecords_append:
  "openRecords limit A key xs = Some p \<Longrightarrow>
   openRecords limit A key (xs @ ys) = map_option ((@) p) (openRecords limit A key ys)"
proof (induction xs arbitrary: p rule: length_induct)
  case (1 xs)
  show ?case
  proof (cases "xs = []")
    case True
    with 1(2) show ?thesis by (simp add: option.map_id0 [unfolded id_def])
  next
    case False
    from 1(2) False obtain w nonce c tag rest q qs where xs: "xs = w @ nonce @ c @ tag @ rest"
      and r: "recordParts A w nonce c tag" "length c \<le> limit" "aeadDecrypt A key nonce c tag = Some q"
      and rest: "openRecords limit A key rest = Some qs" and p: "p = q @ qs"
      by (rule openRecords_Some_cases)
    have "length rest < length xs" using r(1) by (simp add: xs recordParts_def)
    with 1(1) rest have "openRecords limit A key (rest @ ys) = map_option ((@) qs) (openRecords limit A key ys)" by blast
    then show ?thesis
      using openRecords_Cons [OF r(1,2), of key "rest @ ys"] r(3)
      by (cases "openRecords limit A key ys") (simp_all add: xs p)
  qed
qed

end
