(* ===== verification/CryptoApi.thy ===== *)
theory CryptoApi
  imports SealedRecords
begin

unbundle bit_operations_syntax

text \<open>
  \<open>CCryptoApi\<close> of src/src/CryptoApi.cpp: the instance and what it creates from its provider, and the
  password container in the caller's memory. \<open>encryptChunk\<close> and \<open>decryptChunk\<close> are the two overloads of
  \<open>encryptBuffer\<close> and \<open>decryptBuffer\<close> that take a key, \<open>encryptBuffer\<close> and \<open>decryptBuffer\<close> the two that take a
  password: \<open>[16 octets salt]\<close> followed by one sealed record per 1024 octets of plaintext.

  Random octets are drawn from a source by the number of the call, which every function returns
  increased. \<open>progress\<close> is the callback, a function of the octets processed and their total (the
  percentage is computed from these two); \<open>None\<close> is a null pointer. \<open>unsigned int\<close> sums are \<open>u32\<close>.
\<close>

section \<open>The instance and its provider\<close>

datatype asymmetric_algorithm = ASYMMETRIC_RSA_1024 | ASYMMETRIC_RSA_2048 | ASYMMETRIC_RSA_3072 | ASYMMETRIC_RSA_4096

datatype legacy_algorithm = LEGACY_AES_128_CBC | LEGACY_AES_192_CBC | LEGACY_AES_256_CBC
  | LEGACY_AES_128_CTR | LEGACY_AES_192_CTR | LEGACY_AES_256_CTR
  | LEGACY_AES_128_CFB | LEGACY_AES_192_CFB | LEGACY_AES_256_CFB
  | LEGACY_AES_128_OFB | LEGACY_AES_192_OFB | LEGACY_AES_256_OFB
  | LEGACY_AES_128_ECB | LEGACY_AES_192_ECB | LEGACY_AES_256_ECB
  | LEGACY_RC2_CBC | LEGACY_RC2_ECB | LEGACY_DES_CBC | LEGACY_DES_ECB | LEGACY_3DES_CBC | LEGACY_3DES_ECB | LEGACY_RC4

datatype hash_algorithm = HASH_MD5 | HASH_SHA1 | HASH_SHA224 | HASH_SHA256 | HASH_SHA384 | HASH_SHA512 | HASH_SHA512_256
  | HASH_SHA3_224 | HASH_SHA3_256 | HASH_SHA3_384 | HASH_SHA3_512 | HASH_BLAKE2B | HASH_BLAKE2S | HASH_RIPEMD160

text \<open>\<open>ILegacyCipher\<close>: the size that a query answers, and encryption and decryption under key and initialisation
  vector. \<open>IMacService\<close>. \<open>IHashService\<close> with a state of some type.\<close>

record legacy_cipher =
  lcKeySize :: nat
  lcIvSize :: nat
  lcSetKey :: "bytes \<Rightarrow> bool"
  lcEncryptedSize :: "nat \<Rightarrow> nat"
  lcEncrypt :: "bytes \<Rightarrow> bytes \<Rightarrow> bytes \<Rightarrow> bytes option"
  lcDecryptedSize :: "bytes \<Rightarrow> bytes \<Rightarrow> bytes \<Rightarrow> nat"
  lcDecrypt :: "bytes \<Rightarrow> bytes \<Rightarrow> bytes \<Rightarrow> bytes option"

record mac_service =
  macSize :: nat
  macCompute :: "bytes \<Rightarrow> bytes \<Rightarrow> bytes option"

record 'h hash_service =
  hsSize :: nat
  hsInit :: "'h option"
  hsUpdate :: "'h \<Rightarrow> bytes \<Rightarrow> 'h option"
  hsFinal :: "'h \<Rightarrow> bytes option"

text \<open>\<open>ICryptoProviderFactory\<close>; a null pointer for what the provider does not support.\<close>

record 'h provider =
  createAead :: "aead_algorithm \<Rightarrow> aead option"
  createRandom :: "random_source option"
  createKeyDerivation :: "key_derivation option"
  createLegacy :: "legacy_algorithm \<Rightarrow> legacy_cipher option"
  createMac :: "mac_service option"
  createHash :: "hash_algorithm \<Rightarrow> 'h hash_service option"

type_synonym 'h world = "provider_kind \<Rightarrow> 'h provider option"

datatype signature_algorithm = SIGNATURE_RSA_PSS_SHA256_2048 | SIGNATURE_RSA_PSS_SHA256_3072 | SIGNATURE_RSA_PSS_SHA256_4096
  | SIGNATURE_ECDSA_P256_SHA256 | SIGNATURE_ED25519 | SIGNATURE_ECDSA_P384_SHA384 | SIGNATURE_ECDSA_P521_SHA512
  | SIGNATURE_DSA_SHA256_2048 | SIGNATURE_DSA_SHA256_3072

datatype key_agreement_algorithm = KEYAGREEMENT_ECDH_P256 | KEYAGREEMENT_X25519

record crypto_api =
  providerKind :: provider_kind
  aeadAlgorithm :: aead_algorithm
  asymmetricAlgorithm :: asymmetric_algorithm
  legacyAlgorithm :: legacy_algorithm
  hashAlgorithm :: hash_algorithm
  signatureAlgorithm :: signature_algorithm
  keyAgreementAlgorithm :: key_agreement_algorithm

definition defaultApi :: crypto_api where
  "defaultApi = \<lparr> providerKind = PROVIDER_MICROSOFT, aeadAlgorithm = AEAD_AES_256_GCM, asymmetricAlgorithm = ASYMMETRIC_RSA_2048,
     legacyAlgorithm = LEGACY_AES_256_CBC, hashAlgorithm = HASH_SHA256, signatureAlgorithm = SIGNATURE_ECDSA_P256_SHA256,
     keyAgreementAlgorithm = KEYAGREEMENT_ECDH_P256 \<rparr>"

definition aeadOf :: "'h world \<Rightarrow> crypto_api \<Rightarrow> aead option" where
  "aeadOf W api = do { F \<leftarrow> W (providerKind api); createAead F (aeadAlgorithm api) }"

definition randomOf :: "'h world \<Rightarrow> crypto_api \<Rightarrow> random_source option" where
  "randomOf W api = do { F \<leftarrow> W (providerKind api); createRandom F }"

definition kdfOf :: "'h world \<Rightarrow> crypto_api \<Rightarrow> key_derivation option" where
  "kdfOf W api = do { F \<leftarrow> W (providerKind api); createKeyDerivation F }"

abbreviation PASSWORD_SALT_SIZE :: nat where "PASSWORD_SALT_SIZE \<equiv> 16"
abbreviation PASSWORD_KDF_ITERATIONS :: nat where "PASSWORD_KDF_ITERATIONS \<equiv> 600000"
abbreviation FILE_CHUNK_SIZE :: nat where "FILE_CHUNK_SIZE \<equiv> 1024"
abbreviation BUFFER_CHUNK_SIZE :: nat where "BUFFER_CHUNK_SIZE \<equiv> 1024"
abbreviation LEGACY_MAC_KEY_SIZE :: nat where "LEGACY_MAC_KEY_SIZE \<equiv> 32"

section \<open>One chunk under a key\<close>

definition encryptChunk :: "'h world \<Rightarrow> crypto_api \<Rightarrow> nat \<Rightarrow> bytes option \<Rightarrow> int \<Rightarrow> bytes option \<Rightarrow> int \<Rightarrow> int
    \<Rightarrow> bytes option \<Rightarrow> nat \<Rightarrow> (byte outcome \<times> nat) option" where
  "encryptChunk W api draw key keySize input inputSize capacity out at =
     (if key = None \<or> keySize \<le> 0 \<or> inputSize < 0 \<or> (inputSize > 0 \<and> input = None)
      then Some (failed INVALID_ARGUMENT out, draw)
      else case (aeadOf W api, randomOf W api) of
        (Some A, Some R) \<Rightarrow>
          let requiredSize = inputSize + int (aeadNonceSize A) + int (aeadTagSize A) in
          if requiredSize > INT_MAX then Some (failed INVALID_ARGUMENT out, draw)
          else (case out of
            None \<Rightarrow> Some (too_small requiredSize out, draw)
          | Some mem \<Rightarrow>
              if capacity < requiredSize then Some (too_small requiredSize out, draw)
              else do {
                k \<leftarrow> readBlock key (nat keySize);
                (if \<not> aeadSetKey A k then Some (failed INVALID_ARGUMENT out, draw)
                 else case R draw (aeadNonceSize A) of
                   None \<Rightarrow> Some (failed UNEXPECTED_ERROR out, draw + 1)
                 | Some nonce \<Rightarrow> do {
                     mem \<leftarrow> poke mem at nonce;
                     plain \<leftarrow> readBlock input (nat inputSize);
                     (case aeadEncrypt A k nonce plain of
                        None \<Rightarrow> Some (failed UNEXPECTED_ERROR (Some mem), draw + 1)
                      | Some (ciphertext, tag) \<Rightarrow> do {
                          mem \<leftarrow> poke mem (at + aeadNonceSize A) ciphertext;
                          mem \<leftarrow> poke mem (at + aeadNonceSize A + nat inputSize) tag;
                          Some (done_with requiredSize mem, draw + 1) }) }) })
      | _ \<Rightarrow> Some (failed UNEXPECTED_ERROR out, draw))"

text \<open>The plaintext may be empty and its buffer null.\<close>

definition decryptChunk :: "'h world \<Rightarrow> crypto_api \<Rightarrow> bytes option \<Rightarrow> int \<Rightarrow> bytes option \<Rightarrow> int \<Rightarrow> int
    \<Rightarrow> bytes option \<Rightarrow> nat \<Rightarrow> byte outcome option" where
  "decryptChunk W api key keySize input inputSize capacity out at =
     (if key = None \<or> keySize \<le> 0 \<or> input = None \<or> inputSize < 0 then Some (failed INVALID_ARGUMENT out)
      else case aeadOf W api of
        None \<Rightarrow> Some (failed UNEXPECTED_ERROR out)
      | Some A \<Rightarrow>
          let overhead = u32 (aeadNonceSize A + aeadTagSize A) in
          if nat inputSize < overhead then Some (failed INVALID_DATA out)
          else let requiredSize = inputSize - asInt overhead in
            if capacity < requiredSize \<or> (requiredSize > 0 \<and> out = None) then Some (too_small requiredSize out)
            else do {
              k \<leftarrow> readBlock key (nat keySize);
              (if \<not> aeadSetKey A k then Some (failed INVALID_ARGUMENT out)
               else do {
                 block \<leftarrow> readBlock input (nat inputSize);
                 let n = aeadNonceSize A;
                 let m = nat requiredSize;
                 nonce \<leftarrow> slice block 0 n;
                 ciphertext \<leftarrow> slice block n (n + m);
                 tag \<leftarrow> slice block (n + m) (n + m + aeadTagSize A);
                 (case aeadDecrypt A k nonce ciphertext tag of
                    None \<Rightarrow> Some (failed INVALID_DATA out)
                  | Some plain \<Rightarrow>
                      (case out of
                         None \<Rightarrow> if plain = [] then Some \<lparr> ocStatus = NO_ERROR, ocSize = requiredSize, ocMemory = None \<rparr> else None
                       | Some mem \<Rightarrow> do { mem \<leftarrow> poke mem at plain; Some (done_with requiredSize mem) })) }) })"

section \<open>Encryption under a password\<close>

definition continues :: "(nat \<Rightarrow> nat \<Rightarrow> bool) option \<Rightarrow> nat \<Rightarrow> nat \<Rightarrow> bool" where
  "continues progress processed whole = (case progress of None \<Rightarrow> True | Some f \<Rightarrow> f processed whole)"

text \<open>The chunk loop: rounds that remain, number of the chunk, octets processed, where the record goes.\<close>

fun encryptChunks :: "'h world \<Rightarrow> crypto_api \<Rightarrow> aead \<Rightarrow> (nat \<Rightarrow> nat \<Rightarrow> bool) option \<Rightarrow> bytes \<Rightarrow> bytes option \<Rightarrow> nat
    \<Rightarrow> nat \<Rightarrow> nat \<Rightarrow> nat \<Rightarrow> nat \<Rightarrow> bytes \<Rightarrow> nat \<Rightarrow> (status \<times> bytes \<times> nat) option" where
  "encryptChunks W api A progress key input inputSize 0 chunkIndex processed draw mem pos = Some (NO_ERROR, mem, draw)"
| "encryptChunks W api A progress key input inputSize (Suc rounds) chunkIndex processed draw mem pos =
     (let offset = chunkIndex * BUFFER_CHUNK_SIZE;
          remainingInput = inputSize - offset;
          chunkSize = (if remainingInput < BUFFER_CHUNK_SIZE then remainingInput else BUFFER_CHUNK_SIZE)
      in do {
        (r, draw) \<leftarrow> encryptChunk W api draw (Some key) (int (length key)) (map_option (drop offset) input) (int chunkSize)
           (asInt (u32 (chunkSize + aeadNonceSize A + aeadTagSize A))) (Some mem) (pos + 4);
        mem \<leftarrow> ocMemory r;
        (if ocStatus r \<noteq> NO_ERROR then Some (ocStatus r, mem, draw)
         else do {
           mem \<leftarrow> poke mem pos (writeUInt32 chunkSize);
           let processed = processed + chunkSize;
           (if \<not> continues progress processed inputSize then Some (OPERATION_CANCELLED, mem, draw)
            else encryptChunks W api A progress key input inputSize rounds (chunkIndex + 1) processed draw mem
                   (pos + 4 + nat (ocSize r))) }) })"

definition chunkCount :: "int \<Rightarrow> nat" where
  "chunkCount inputSize = (if inputSize > 0 then nat ((inputSize + int BUFFER_CHUNK_SIZE - 1) div int BUFFER_CHUNK_SIZE) else 0)"

definition containerSize :: "aead \<Rightarrow> int \<Rightarrow> int" where
  "containerSize A inputSize = int PASSWORD_SALT_SIZE + inputSize
     + int (chunkCount inputSize) * int (u32 (4 + aeadNonceSize A + aeadTagSize A))"

definition encryptBuffer :: "'h world \<Rightarrow> crypto_api \<Rightarrow> nat \<Rightarrow> (nat \<Rightarrow> nat \<Rightarrow> bool) option \<Rightarrow> bytes option \<Rightarrow> int \<Rightarrow> bytes option \<Rightarrow> int
    \<Rightarrow> int \<Rightarrow> bytes option \<Rightarrow> (byte outcome \<times> nat) option" where
  "encryptBuffer W api draw progress password passwordSize input inputSize capacity out =
     (if password = None \<or> passwordSize \<le> 0 \<or> inputSize < 0 \<or> (inputSize > 0 \<and> input = None)
      then Some (failed INVALID_ARGUMENT out, draw)
      else case (aeadOf W api, randomOf W api, kdfOf W api) of
        (Some A, Some R, Some K) \<Rightarrow>
          let requiredSize = containerSize A inputSize in
          if requiredSize > INT_MAX then Some (failed INVALID_ARGUMENT out, draw)
          else (case out of
            None \<Rightarrow> Some (too_small requiredSize out, draw)
          | Some mem \<Rightarrow>
              if capacity < requiredSize then Some (too_small requiredSize out, draw)
              else case R draw PASSWORD_SALT_SIZE of
                None \<Rightarrow> Some (failed UNEXPECTED_ERROR out, draw + 1)
              | Some salt \<Rightarrow> do {
                  mem \<leftarrow> poke mem 0 salt;
                  pw \<leftarrow> readBlock password (nat passwordSize);
                  (if aeadKeySize A = 0 then None
                   else case K pw salt PASSWORD_KDF_ITERATIONS (aeadKeySize A) of
                     None \<Rightarrow> Some (failed UNEXPECTED_ERROR (Some mem), draw + 1)
                   | Some key \<Rightarrow> do {
                       (st, mem, draw) \<leftarrow> encryptChunks W api A progress key input (nat inputSize) (chunkCount inputSize) 0 0
                          (draw + 1) mem PASSWORD_SALT_SIZE;
                       Some (if st = NO_ERROR then done_with requiredSize mem else failed st (Some mem), draw) }) })
      | _ \<Rightarrow> Some (failed UNEXPECTED_ERROR out, draw))"

section \<open>Decryption under a password\<close>

text \<open>The first pass checks the framing and adds up the sizes; \<open>Inl\<close> is the refusal.\<close>

function scanRecords :: "aead \<Rightarrow> bytes \<Rightarrow> nat \<Rightarrow> nat \<Rightarrow> nat \<Rightarrow> (status + nat) option" where
  "scanRecords A input whole scanPos required =
     (if scanPos < whole then
        if whole - scanPos < 4 then Some (Inl INVALID_DATA)
        else do {
          prefix4 \<leftarrow> slice input scanPos (scanPos + 4);
          let chunkPlainSize = readUInt32 prefix4;
          let recordSize = chunkPlainSize + aeadNonceSize A + aeadTagSize A;
          (if chunkPlainSize > BUFFER_CHUNK_SIZE then Some (Inl INVALID_DATA)
           else if recordSize > whole - (scanPos + 4) then Some (Inl INVALID_DATA)
           else if int (required + chunkPlainSize) > INT_MAX then Some (Inl INVALID_ARGUMENT)
           else scanRecords A input whole (scanPos + 4 + recordSize) (required + chunkPlainSize)) }
      else Some (Inr required))"
  by pat_completeness auto

termination
  by (relation "measure (\<lambda>(_, _, whole, scanPos, _). whole - scanPos)") auto

declare scanRecords.simps [simp del]

text \<open>The second pass decrypts record by record to ascending positions of the output.\<close>

function decryptRecords :: "'h world \<Rightarrow> crypto_api \<Rightarrow> aead \<Rightarrow> (nat \<Rightarrow> nat \<Rightarrow> bool) option \<Rightarrow> bytes \<Rightarrow> bytes \<Rightarrow> nat
    \<Rightarrow> nat \<Rightarrow> nat \<Rightarrow> bytes option \<Rightarrow> nat \<Rightarrow> (status \<times> bytes option) option" where
  "decryptRecords W api A progress key input whole readPos processed out writePos =
     (if readPos < whole then do {
        prefix4 \<leftarrow> slice input readPos (readPos + 4);
        let chunkPlainSize = readUInt32 prefix4;
        let recordSize = u32 (chunkPlainSize + aeadNonceSize A + aeadTagSize A);
        r \<leftarrow> decryptChunk W api (Some key) (int (length key)) (Some (drop (readPos + 4) input)) (asInt recordSize)
               (asInt chunkPlainSize) out writePos;
        (if ocStatus r \<noteq> NO_ERROR then Some (ocStatus r, ocMemory r)
         else if ocSize r \<noteq> int chunkPlainSize then Some (INVALID_DATA, ocMemory r)
         else let processed = processed + 4 + recordSize in
           if \<not> continues progress processed whole then Some (OPERATION_CANCELLED, ocMemory r)
           else decryptRecords W api A progress key input whole (readPos + 4 + recordSize) processed (ocMemory r)
                  (writePos + nat (ocSize r))) }
      else Some (NO_ERROR, out))"
  by pat_completeness auto

termination
  by (relation "measure (\<lambda>(_, _, _, _, _, _, whole, readPos, _). whole - readPos)") auto

declare decryptRecords.simps [simp del]

definition decryptBuffer :: "'h world \<Rightarrow> crypto_api \<Rightarrow> (nat \<Rightarrow> nat \<Rightarrow> bool) option \<Rightarrow> bytes option \<Rightarrow> int \<Rightarrow> bytes option \<Rightarrow> int
    \<Rightarrow> int \<Rightarrow> bytes option \<Rightarrow> byte outcome option" where
  "decryptBuffer W api progress password passwordSize input inputSize capacity out =
     (case input of None \<Rightarrow> Some (failed INVALID_ARGUMENT out)
      | Some b \<Rightarrow>
        if password = None \<or> passwordSize \<le> 0 \<or> inputSize < 0 then Some (failed INVALID_ARGUMENT out)
        else case (aeadOf W api, kdfOf W api) of
          (Some A, Some K) \<Rightarrow>
            if nat inputSize < PASSWORD_SALT_SIZE then Some (failed INVALID_DATA out)
            else do {
              scanned \<leftarrow> scanRecords A b (nat inputSize) PASSWORD_SALT_SIZE 0;
              (case scanned of
                 Inl st \<Rightarrow> Some (failed st out)
               | Inr required \<Rightarrow>
                   if capacity < int required \<or> (required > 0 \<and> out = None) then Some (too_small (int required) out)
                   else do {
                     salt \<leftarrow> slice b 0 PASSWORD_SALT_SIZE;
                     pw \<leftarrow> readBlock password (nat passwordSize);
                     (if aeadKeySize A = 0 then None
                      else case K pw salt PASSWORD_KDF_ITERATIONS (aeadKeySize A) of
                        None \<Rightarrow> Some (failed UNEXPECTED_ERROR out)
                      | Some key \<Rightarrow> do {
                          (st, mem) \<leftarrow> decryptRecords W api A progress key b (nat inputSize) PASSWORD_SALT_SIZE 0 out 0;
                          Some (if st = NO_ERROR then \<lparr> ocStatus = NO_ERROR, ocSize = int required, ocMemory = mem \<rparr>
                                else failed st mem) }) }) }
        | _ \<Rightarrow> Some (failed UNEXPECTED_ERROR out))"

text \<open>The public methods: \<open>EncryptBytes\<close> and \<open>EncryptString\<close> are the same call.\<close>

definition api_EncryptBuffer where "api_EncryptBuffer = encryptBuffer"
definition api_DecryptBuffer where "api_DecryptBuffer = decryptBuffer"
definition api_EncryptBytes where "api_EncryptBytes = encryptBuffer"
definition api_DecryptBytes where "api_DecryptBytes = decryptBuffer"
definition api_EncryptString where "api_EncryptString = encryptBuffer"
definition api_DecryptString where "api_DecryptString = decryptBuffer"

end
