(* ===== verification/CryptoApiFacts.thy ===== *)
theory CryptoApiFacts
  imports CryptoApi
begin

text \<open>
  The password container of \<open>CCryptoApi\<close> refines the record format: \<open>encryptBuffer\<close> leaves the salt and
  \<open>sealRecords\<close> of the 1024-octet chunks in the caller's buffer, \<open>decryptBuffer\<close> delivers what
  \<open>openRecords\<close> makes of the octets behind the salt, and refuses what it refuses.
\<close>

definition unhindered :: "(nat \<Rightarrow> nat \<Rightarrow> bool) option \<Rightarrow> bool" where
  "unhindered progress \<longleftrightarrow> (\<forall>p t. continues progress p t)"

lemma unhindered_continues [simp]: "unhindered progress \<Longrightarrow> continues progress p t"
  by (simp add: unhindered_def)

lemma unhindered_None [simp]: "unhindered None"
  by (simp add: unhindered_def continues_def)

text \<open>What the provider of an instance supplies.\<close>

definition provides :: "'h world \<Rightarrow> crypto_api \<Rightarrow> aead \<Rightarrow> random_source \<Rightarrow> key_derivation \<Rightarrow> bool" where
  "provides W api A R K \<longleftrightarrow> aeadOf W api = Some A \<and> randomOf W api = Some R \<and> kdfOf W api = Some K"

section \<open>One chunk\<close>

lemma small_INT_MAX: "n \<le> 1000000 \<Longrightarrow> \<not> INT_MAX < int n"
  by (simp add: INT_MAX_def)

lemma encryptChunk_run:
  assumes "provides W api A R K" "aead_ok A" "random_ok R" "length key = aeadKeySize A" "length c \<le> 1024"
    "length gap = length c + aeadNonceSize A + aeadTagSize A" "0 < length c \<Longrightarrow> input = Some (c @ behind)"
    "int (length c + aeadNonceSize A + aeadTagSize A) \<le> capacity"
  shows "\<exists>mem d. encryptChunk W api draw (Some key) (int (length key)) input (int (length c))
      capacity (Some (pre @ gap @ post)) (length pre) =
    Some (case do { nonce \<leftarrow> R draw (aeadNonceSize A); sealRecord A key nonce c } of
       None \<Rightarrow> (failed UNEXPECTED_ERROR (Some mem), d)
     | Some r \<Rightarrow> (done_with (int (length r - 4)) (pre @ drop 4 r @ post), draw + 1)) \<and> length mem = length (pre @ gap @ post)"
proof -
  from assms(1,2) have A: "aeadOf W api = Some A" "randomOf W api = Some R" "aead_sizes A" "aeadSetKey A key" "0 < length key"
    using assms(4) by (auto simp: provides_def aead_ok_def aead_sizes_def)
  have small: "\<not> INT_MAX < int (length c) + int (aeadNonceSize A) + int (aeadTagSize A)"
    using A(3) assms(5) by (auto simp: aead_sizes_def INT_MAX_def)
  have rc: "readBlock input (length c) = Some c"
    using assms(7) by (cases "c = []") auto
  show ?thesis
  proof (cases "R draw (aeadNonceSize A)")
    case None
    show ?thesis
      using A small None assms(6-8) by (intro exI [of _ "pre @ gap @ post"] exI [of _ "draw + 1"])
        (auto simp: encryptChunk_def Let_def)
  next
    case (Some nonce)
    then have n: "length nonce = aeadNonceSize A" using assms(3) by (auto simp: random_ok_def)
    define gap' where "gap' = drop (length nonce) gap"
    have gap: "poke (pre @ gap @ post) (length pre) nonce = Some (pre @ nonce @ gap' @ post)" "length gap' = length c + aeadTagSize A"
      using assms(6) n by (simp_all add: gap'_def)
    show ?thesis
    proof (cases "aeadEncrypt A key nonce c")
      case None
      show ?thesis
        using A small Some None assms(6-8) gap rc n by (intro exI [of _ "pre @ nonce @ gap' @ post"] exI [of _ "draw + 1"])
          (auto simp: encryptChunk_def Let_def sealRecord_def)
    next
      case e: (Some ct)
      obtain ciphertext tag where ct: "ct = (ciphertext, tag)" by (cases ct)
      have len: "length ciphertext = length c" "length tag = aeadTagSize A"
        using A(3) e ct by (auto simp: aead_sizes_def)
      have p1: "poke (pre @ nonce @ gap' @ post) (length pre + aeadNonceSize A) ciphertext
          = Some (pre @ nonce @ ciphertext @ drop (length c) gap' @ post)"
        using gap(2) n len by (simp add: drop_append)
      have p2: "poke (pre @ nonce @ ciphertext @ drop (length c) gap' @ post) (length pre + aeadNonceSize A + length c) tag
          = Some (pre @ nonce @ ciphertext @ tag @ post)"
        using poke_append [of "pre @ nonce @ ciphertext" "length pre + aeadNonceSize A + length c" "drop (length c) gap'" tag post] gap(2) n len
        by simp
      show ?thesis
        using A small Some e ct assms(6-8) gap rc n p1 p2 len
        by (intro exI [of _ "pre @ gap @ post"] exI [of _ 0]) (auto simp: encryptChunk_def Let_def sealRecord_def)
    qed
  qed
qed

lemma decryptChunk_run:
  assumes "aeadOf W api = Some A" "aead_ok A" "length key = aeadKeySize A" "length c \<le> 1024"
    "length nonce = aeadNonceSize A" "length tag = aeadTagSize A" "length c \<le> length gap"
    "int (length c) \<le> capacity"
  shows "decryptChunk W api (Some key) (int (length key)) (Some (nonce @ c @ tag @ rest))
      (int (length c + aeadNonceSize A + aeadTagSize A)) capacity (Some (pre @ gap)) (length pre) =
    Some (case aeadDecrypt A key nonce c tag of
       None \<Rightarrow> failed INVALID_DATA (Some (pre @ gap))
     | Some p \<Rightarrow> done_with (int (length c)) (pre @ p @ drop (length c) gap))"
proof -
  have A: "aead_sizes A" "aeadSetKey A key" "0 < length key" "aeadNonceSize A + aeadTagSize A \<le> 65535"
    using assms(2,3) by (auto simp: aead_ok_def aead_sizes_def)
  have u: "u32 (length nonce + length tag) = length nonce + length tag"
    "asInt (length nonce + length tag) = int (length nonce) + int (length tag)"
    using A(4) assms(5,6) by simp_all
  have s: "slice (nonce @ c @ tag) 0 (length nonce) = Some nonce"
    "slice (nonce @ c @ tag) (length nonce) (length nonce + length c) = Some c"
    "slice (nonce @ c @ tag) (length nonce + length c) (length nonce + length c + length tag) = Some tag"
    by (simp_all add: slice_def)
  have r: "readBlock (Some (nonce @ c @ tag @ rest)) (length c + aeadNonceSize A + aeadTagSize A) = Some (nonce @ c @ tag)"
    using assms(5,6) by simp
  show ?thesis
  proof (cases "aeadDecrypt A key nonce c tag")
    case None
    show ?thesis
      unfolding decryptChunk_def Let_def assms(1) using A(2,3) None s r assms(8)
      by (simp add: assms(5,6) [symmetric] u)
  next
    case (Some p)
    then have lp: "length p = length c" using A(1) by (auto simp: aead_sizes_def)
    show ?thesis
      unfolding decryptChunk_def Let_def assms(1) using A(2,3) Some s r lp assms(7,8)
      by (simp add: assms(5,6) [symmetric] u)
  qed
qed

section \<open>The loop that encrypts\<close>

lemma sealRecord_tail: "sealRecord A key nonce c = Some r \<Longrightarrow> r = writeUInt32 (length c) @ drop 4 r"
  by (auto simp: sealRecord_def split: option.splits)

lemma chunksOf_drop:
  assumes "off < length xs" "0 < n"
  shows "chunksOf n (drop off xs) = take n (drop off xs) # chunksOf n (drop (off + n) xs)"
  using assms by (subst chunksOf.simps) (simp add: add.commute)

definition overhead :: "aead \<Rightarrow> nat" where
  "overhead A = 4 + aeadNonceSize A + aeadTagSize A"

lemma sealRecords_length:
  assumes "aead_sizes A" "random_ok R"
  shows "sealRecords A R key draw cs = Some bs \<Longrightarrow> length bs = length (concat cs) + length cs * overhead A"
proof (induction cs arbitrary: draw bs)
  case (Cons c cs)
  then obtain nonce r bs' where "R draw (aeadNonceSize A) = Some nonce" "sealRecord A key nonce c = Some r"
    "sealRecords A R key (draw + 1) cs = Some bs'" "bs = r @ bs'"
    by (auto simp: bind_eq_Some_conv)
  with Cons.IH [of "draw + 1" bs'] sealRecord_length [OF assms(1), of key nonce c r] assms(2)
  show ?case by (auto simp: random_ok_def overhead_def)
qed simp

lemma encryptChunks_refines:
  assumes "provides W api A R K" "aead_ok A" "random_ok R" "length key = aeadKeySize A" "unhindered progress"
    "plain \<noteq> [] \<Longrightarrow> input = Some plain"
  shows "cs = chunksOf 1024 (drop (idx * 1024) plain) \<Longrightarrow> rounds = length cs \<Longrightarrow> idx * 1024 \<le> length plain \<or> rounds = 0 \<Longrightarrow>
    length gap = length (concat cs) + length cs * overhead A \<Longrightarrow>
    \<exists>mem d. encryptChunks W api A progress key input (length plain) rounds idx processed draw (pre @ gap @ post) (length pre)
      = Some (case sealRecords A R key draw cs of None \<Rightarrow> (UNEXPECTED_ERROR, mem, d)
              | Some bs \<Rightarrow> (NO_ERROR, pre @ bs @ post, draw + rounds)) \<and> length mem = length (pre @ gap @ post)"
proof (induction rounds arbitrary: cs idx processed draw pre gap)
  case 0
  then show ?case by (intro exI [of _ "pre @ gap @ post"]) auto
next
  case (Suc rounds)
  define off where "off = idx * 1024"
  have sz: "aead_sizes A" using assms(2) by (simp add: aead_ok_def)
  have lt: "off < length plain"
  proof (rule ccontr)
    assume "\<not> off < length plain"
    then have "cs = []" using Suc.prems(1) by (simp add: off_def)
    with Suc.prems(2) show False by simp
  qed
  define c cs' where "c = take 1024 (drop off plain)" and "cs' = chunksOf 1024 (drop ((idx + 1) * 1024) plain)"
  have cs: "cs = c # cs'" using Suc.prems(1) chunksOf_drop [OF lt, of 1024] by (simp add: c_def cs'_def off_def add.commute)
  have lc: "length c = (if length plain - off < 1024 then length plain - off else 1024)" "length c \<le> 1024"
    by (auto simp: c_def)
  have inp: "map_option (drop off) input = Some (c @ drop 1024 (drop off plain))"
    using assms(6) lt by (cases "plain = []") (simp_all add: c_def del: drop_drop)
  have u: "asInt (u32 (length c + aeadNonceSize A + aeadTagSize A)) = int (length c + aeadNonceSize A + aeadTagSize A)"
    using sz lc(2) by (auto simp: aead_sizes_def)
  define g0 g1 g2 where "g0 = take 4 gap" and "g1 = take (length c + aeadNonceSize A + aeadTagSize A) (drop 4 gap)"
    and "g2 = drop (length c + aeadNonceSize A + aeadTagSize A) (drop 4 gap)"
  have gap: "gap = g0 @ g1 @ g2" by (simp only: g0_def g1_def g2_def append_take_drop_id)
  have lg: "length g0 = 4" "length g1 = length c + aeadNonceSize A + aeadTagSize A"
    "length g2 = length (concat cs') + length cs' * overhead A"
    using Suc.prems(4) by (simp_all add: g0_def g1_def g2_def cs overhead_def)
  obtain mem d where step: "encryptChunk W api draw (Some key) (int (length key)) (map_option (drop off) input) (int (length c))
      (int (length c + aeadNonceSize A + aeadTagSize A)) (Some ((pre @ g0) @ g1 @ (g2 @ post))) (length (pre @ g0)) =
    Some (case do { nonce \<leftarrow> R draw (aeadNonceSize A); sealRecord A key nonce c } of
       None \<Rightarrow> (failed UNEXPECTED_ERROR (Some mem), d)
     | Some r \<Rightarrow> (done_with (int (length r - 4)) ((pre @ g0) @ drop 4 r @ (g2 @ post)), draw + 1))"
    and lm: "length mem = length ((pre @ g0) @ g1 @ (g2 @ post))"
    using encryptChunk_run [OF assms(1-4) lc(2) lg(2) inp order_refl, of draw "pre @ g0" "g2 @ post"] by blast
  have unfold1: "encryptChunks W api A progress key input (length plain) (Suc rounds) idx processed draw (pre @ gap @ post) (length pre)
    = do { (r, draw) \<leftarrow> encryptChunk W api draw (Some key) (int (length key)) (map_option (drop off) input) (int (length c))
            (int (length c + aeadNonceSize A + aeadTagSize A)) (Some ((pre @ g0) @ g1 @ (g2 @ post))) (length (pre @ g0));
           mem \<leftarrow> ocMemory r;
           (if ocStatus r \<noteq> NO_ERROR then Some (ocStatus r, mem, draw)
            else do { mem \<leftarrow> poke mem (length pre) (writeUInt32 (length c));
                      encryptChunks W api A progress key input (length plain) rounds (idx + 1) (processed + length c) draw mem
                        (length pre + 4 + nat (ocSize r)) }) }"
    using assms(5) lc(1) u lg(1) by (simp add: gap Let_def off_def cong: if_cong)
  show ?case
  proof (cases "do { nonce \<leftarrow> R draw (aeadNonceSize A); sealRecord A key nonce c }")
    case None
    then have "sealRecords A R key draw cs = None" by (cases "R draw (aeadNonceSize A)") (auto simp: cs)
    then show ?thesis
      using None lm unfolding unfold1 step by (intro exI [of _ mem] exI [of _ d]) (simp add: gap)
  next
    case (Some r)
    then obtain nonce where n: "R draw (aeadNonceSize A) = Some nonce" "sealRecord A key nonce c = Some r"
      by (auto simp: bind_eq_Some_conv)
    have lr: "length r = 4 + length g1" using sealRecord_length [OF sz n(2)] n(1) assms(3) lg(2) by (auto simp: random_ok_def)
    have pk: "poke (pre @ g0 @ drop 4 r @ g2 @ post) (length pre) (writeUInt32 (length c)) = Some ((pre @ r) @ g2 @ post)"
      using poke_append [of pre "length pre" g0 "writeUInt32 (length c)" "drop 4 r @ g2 @ post"] sealRecord_tail [OF n(2)] lg(1)
      by (metis append.assoc length_writeUInt32)
    have rounds: "rounds = length cs'" using Suc.prems(2) by (simp add: cs)
    have ord: "(idx + 1) * 1024 \<le> length plain \<or> rounds = 0"
      using rounds by (cases "(idx + 1) * 1024 \<le> length plain") (simp_all add: cs'_def)
    obtain mem2 d2 where rec: "encryptChunks W api A progress key input (length plain) rounds (idx + 1) (processed + length c) (draw + 1)
        ((pre @ r) @ g2 @ post) (length (pre @ r))
      = Some (case sealRecords A R key (draw + 1) cs' of None \<Rightarrow> (UNEXPECTED_ERROR, mem2, d2)
              | Some bs \<Rightarrow> (NO_ERROR, (pre @ r) @ bs @ post, draw + 1 + rounds)) \<and> length mem2 = length ((pre @ r) @ g2 @ post)"
      using Suc.IH [OF cs'_def rounds ord lg(3), of "processed + length c" "draw + 1" "pre @ r"] by blast
    have go: "encryptChunks W api A progress key input (length plain) (Suc rounds) idx processed draw (pre @ gap @ post) (length pre)
      = encryptChunks W api A progress key input (length plain) rounds (idx + 1) (processed + length c) (draw + 1)
        ((pre @ r) @ g2 @ post) (length (pre @ r))"
      unfolding unfold1 step Some using pk lr by (simp add: add.assoc)
    show ?thesis
      unfolding go using rec n lr lg
      by (intro exI [of _ mem2] exI [of _ d2]) (auto simp: cs gap bind_eq_Some_conv split: option.splits)
  qed
qed

section \<open>The two passes that decrypt\<close>

lemma scan_end: "scanRecords A input (length input) (length input) required = Some (Inr required)"
  by (subst scanRecords.simps) simp

lemma slice_middle [simp]: "length w = n \<Longrightarrow> slice (pre @ w @ post) (length pre) (length pre + n) = Some w"
  by (auto simp: slice_def)

lemma scan_step:
  assumes "recordParts A w nonce c tag"
  shows "scanRecords A (pre @ w @ nonce @ c @ tag @ rest) (length (pre @ w @ nonce @ c @ tag @ rest)) (length pre) required =
    (if length c > 1024 then Some (Inl INVALID_DATA)
     else if int (required + length c) > INT_MAX then Some (Inl INVALID_ARGUMENT)
     else scanRecords A ((pre @ w @ nonce @ c @ tag) @ rest) (length ((pre @ w @ nonce @ c @ tag) @ rest))
       (length (pre @ w @ nonce @ c @ tag)) (required + length c))"
proof -
  have w: "length w = 4" "readUInt32 w = length c" "aeadNonceSize A = length nonce" "aeadTagSize A = length tag"
    using assms by (simp_all add: recordParts_def)
  have p: "pre @ w @ nonce @ c @ tag @ rest = (pre @ w @ nonce @ c @ tag) @ rest" by simp
  have e: "length pre + 4 + (length c + length nonce + length tag) = length (pre @ w @ nonce @ c @ tag)"
    using w(1) by simp
  show ?thesis
    by (subst scanRecords.simps) (simp add: w Let_def ac_simps)
qed

lemma scan_refuses:
  assumes "bs \<noteq> []" "length bs < 4 \<or> length bs - 4 < readUInt32 (take 4 bs) + aeadNonceSize A + aeadTagSize A"
  shows "scanRecords A (pre @ bs) (length (pre @ bs)) (length pre) required = Some (Inl INVALID_DATA)"
proof (cases "length bs < 4")
  case True
  then show ?thesis using assms(1) by (subst scanRecords.simps) simp
next
  case False
  then have "slice (pre @ bs) (length pre) (length pre + 4) = Some (take 4 bs)" by (simp add: slice_def)
  then show ?thesis
    using False assms by (subst scanRecords.simps) (auto simp: Let_def)
qed

text \<open>A record in front, or a refusal by the first pass and by the specification alike.\<close>

lemma record_or_refusal:
  assumes "bs \<noteq> []"
  obtains (framed) w nonce c tag rest where "bs = w @ nonce @ c @ tag @ rest" "recordParts A w nonce c tag" "length rest < length bs"
  | (refused) "\<And>pre required. scanRecords A (pre @ bs) (length (pre @ bs)) (length pre) required = Some (Inl INVALID_DATA)"
      "\<And>key limit. openRecords limit A key bs = None"
proof (cases "length bs < 4 \<or> length bs - 4 < readUInt32 (take 4 bs) + aeadNonceSize A + aeadTagSize A")
  case True
  then show ?thesis using refused scan_refuses [OF assms True] openRecords_refuses [OF assms] by blast
next
  case False
  then obtain w nonce c tag rest where bs: "bs = w @ nonce @ c @ tag @ rest" and parts: "recordParts A w nonce c tag"
    using split_record [of bs A] by (metis not_less)
  moreover have "length rest < length bs" using bs parts by (simp add: recordParts_def)
  ultimately show ?thesis using framed by blast
qed

lemma scanRecords_total: "\<exists>r. scanRecords A (pre @ bs) (length (pre @ bs)) (length pre) required = Some r"
proof (induction bs arbitrary: pre required rule: length_induct)
  case (1 bs)
  show ?case
  proof (cases "bs = []")
    case True
    then show ?thesis by (simp add: scan_end)
  next
    case False
    then show ?thesis
    proof (cases rule: record_or_refusal [of bs A])
      case (framed w nonce c tag rest)
      have "\<exists>r. scanRecords A ((pre @ w @ nonce @ c @ tag) @ rest) (length ((pre @ w @ nonce @ c @ tag) @ rest))
          (length (pre @ w @ nonce @ c @ tag)) (required + length c) = Some r"
        using 1 framed(3) by blast
      then show ?thesis unfolding framed(1) scan_step [OF framed(2)] by (simp only: split: if_split) blast
    next
      case refused
      then show ?thesis by blast
    qed
  qed
qed

lemma openRecords_shorter: "aead_sizes A \<Longrightarrow> openRecords limit A key bs = Some p \<Longrightarrow> length p \<le> length bs"
proof (induction bs arbitrary: p rule: length_induct)
  case (1 bs)
  show ?case
  proof (cases "bs = []")
    case True
    then show ?thesis using 1(3) by simp
  next
    case False
    from 1(3) False obtain w nonce c tag rest q qs where bs: "bs = w @ nonce @ c @ tag @ rest" "recordParts A w nonce c tag"
      "aeadDecrypt A key nonce c tag = Some q" "openRecords limit A key rest = Some qs" "p = q @ qs"
      by (rule openRecords_Some_cases)
    moreover have "length rest < length bs" "length q = length c"
      using bs 1(2) by (auto simp: recordParts_def aead_sizes_def)
    ultimately show ?thesis using 1(1,2) by fastforce
  qed
qed

lemma scanRecords_refusal:
  "scanRecords A (pre @ bs) (length (pre @ bs)) (length pre) required = Some (Inl st) \<Longrightarrow>
   st = INVALID_DATA \<and> openRecords 1024 A key bs = None \<or>
   st = INVALID_ARGUMENT \<and> INT_MAX < int (required + length bs)"
proof (induction bs arbitrary: pre required rule: length_induct)
  case (1 bs)
  show ?case
  proof (cases "bs = []")
    case True
    then show ?thesis using 1(2) by (simp add: scan_end)
  next
    case False
    then show ?thesis
    proof (cases rule: record_or_refusal [of bs A])
      case (framed w nonce c tag rest)
      have long: "1024 < length c \<Longrightarrow> openRecords 1024 A key bs = None"
        using framed(2) False by (intro openRecords_refuses(2)) (simp_all add: framed(1) recordParts_def)
      show ?thesis
      proof (cases "length c > 1024 \<or> int (required + length c) > INT_MAX")
        case True
        then show ?thesis using 1(2) long unfolding framed(1) scan_step [OF framed(2)] by (auto split: if_splits)
      next
        case False
        then have "scanRecords A ((pre @ w @ nonce @ c @ tag) @ rest) (length ((pre @ w @ nonce @ c @ tag) @ rest))
            (length (pre @ w @ nonce @ c @ tag)) (required + length c) = Some (Inl st)"
          using 1(2) unfolding framed(1) scan_step [OF framed(2)] by simp
        with 1(1) framed(3) have "st = INVALID_DATA \<and> openRecords 1024 A key rest = None \<or>
            st = INVALID_ARGUMENT \<and> INT_MAX < int (required + length c + length rest)" by blast
        moreover have "openRecords 1024 A key rest = None \<Longrightarrow> openRecords 1024 A key bs = None"
          using openRecords_Cons [OF framed(2), of 1024 key rest] False by (simp add: framed(1) not_less bind_eq_None_conv)
        ultimately show ?thesis by (auto simp: framed(1))
      qed
    next
      case refused
      then show ?thesis using 1(2) by simp
    qed
  qed
qed

lemma scanRecords_measure:
  "scanRecords A (pre @ bs) (length (pre @ bs)) (length pre) required = Some (Inr r) \<Longrightarrow>
   openRecords 1024 A key bs = Some p \<Longrightarrow> aead_sizes A \<Longrightarrow> r = required + length p"
proof (induction bs arbitrary: pre required p rule: length_induct)
  case (1 bs)
  show ?case
  proof (cases "bs = []")
    case True
    then show ?thesis using 1(2,3) by (simp add: scan_end)
  next
    case False
    from 1(3) False obtain w nonce c tag rest q qs where bs: "bs = w @ nonce @ c @ tag @ rest"
      and parts: "recordParts A w nonce c tag" and q: "aeadDecrypt A key nonce c tag = Some q"
      and rest: "openRecords 1024 A key rest = Some qs" and p: "p = q @ qs"
      by (rule openRecords_Some_cases)
    from 1(2) have "scanRecords A ((pre @ w @ nonce @ c @ tag) @ rest) (length ((pre @ w @ nonce @ c @ tag) @ rest))
          (length (pre @ w @ nonce @ c @ tag)) (required + length c) = Some (Inr r)"
      unfolding bs scan_step [OF parts] by (simp split: if_splits)
    moreover have "length rest < length bs" using parts by (simp add: bs recordParts_def)
    ultimately have "r = required + length c + length qs" using 1(1) rest 1(4) by blast
    moreover have "length q = length c" using q 1(4) by (auto simp: aead_sizes_def)
    ultimately show ?thesis by (simp add: p)
  qed
qed

lemma scanRecords_grows: "scanRecords A input whole pos required = Some (Inr r) \<Longrightarrow> required \<le> r"
proof (induction A input whole pos required rule: scanRecords.induct)
  case (1 A input whole pos required)
  have next1: "required + readUInt32 w \<le> r"
    if "pos < whole" "\<not> whole - pos < 4" "slice input pos (pos + 4) = Some w" "\<not> 1024 < readUInt32 w"
      "\<not> whole - (pos + 4) < readUInt32 w + aeadNonceSize A + aeadTagSize A" "\<not> INT_MAX < int required + int (readUInt32 w)"
      "scanRecords A input whole (pos + 4 + (readUInt32 w + aeadNonceSize A + aeadTagSize A)) (required + readUInt32 w) = Some (Inr r)" for w
    using 1(1) [OF that(1-3) refl refl that(4,5) _ that(7)] that(6) by simp
  show ?case
    using 1(2) by (subst (asm) scanRecords.simps) (auto simp: Let_def bind_eq_Some_conv split: if_splits dest: next1 intro: order_trans [OF le_add1 next1])
qed

lemma scanRecords_bound:
  "scanRecords A (pre @ bs) (length (pre @ bs)) (length pre) required = Some (Inr r) \<Longrightarrow> r \<le> required + length bs"
proof (induction bs arbitrary: pre required rule: length_induct)
  case (1 bs)
  show ?case
  proof (cases "bs = []")
    case True
    then show ?thesis using 1(2) by (simp add: scan_end)
  next
    case False
    then show ?thesis
    proof (cases rule: record_or_refusal [of bs A])
      case (framed w nonce c tag rest)
      then have "scanRecords A ((pre @ w @ nonce @ c @ tag) @ rest) (length ((pre @ w @ nonce @ c @ tag) @ rest))
          (length (pre @ w @ nonce @ c @ tag)) (required + length c) = Some (Inr r)"
        using 1(2) unfolding framed(1) scan_step [OF framed(2)] by (simp split: if_splits)
      then have "r \<le> required + length c + length rest" using 1(1) framed(3) by blast
      then show ?thesis by (simp add: framed(1))
    next
      case refused
      then show ?thesis using 1(2) by simp
    qed
  qed
qed

lemma decryptRecords_refines:
  assumes "aeadOf W api = Some A" "aead_ok A" "length key = aeadKeySize A" "unhindered progress"
  shows "scanRecords A (pre @ bs) (length (pre @ bs)) (length pre) required = Some (Inr (required + length gap)) \<Longrightarrow>
    \<exists>mem. decryptRecords W api A progress key (pre @ bs) (length (pre @ bs)) (length pre) processed (Some (opre @ gap @ opost)) (length opre)
      = Some (case openRecords 1024 A key bs of None \<Rightarrow> (INVALID_DATA, Some mem) | Some p \<Rightarrow> (NO_ERROR, Some (opre @ p @ opost)))
      \<and> length mem = length (opre @ gap @ opost)"
proof (induction bs arbitrary: pre required processed opre gap rule: length_induct)
  case (1 bs)
  have sz: "aead_sizes A" using assms(2) by (simp add: aead_ok_def)
  show ?case
  proof (cases "bs = []")
    case True
    then have "gap = []" using 1(2) by (simp add: scan_end)
    with True show ?thesis by (subst decryptRecords.simps) (auto intro: exI [of _ "opre @ opost"])
  next
    case False
    then show ?thesis
    proof (cases rule: record_or_refusal [of bs A])
      case (framed w nonce c tag rest)
      from 1(2) have ok: "length c \<le> 1024" and scan: "scanRecords A ((pre @ w @ nonce @ c @ tag) @ rest)
          (length ((pre @ w @ nonce @ c @ tag) @ rest)) (length (pre @ w @ nonce @ c @ tag)) (required + length c)
          = Some (Inr (required + length gap))"
        unfolding framed(1) scan_step [OF framed(2)] by (simp_all split: if_splits)
      have ge: "length c \<le> length gap" using scanRecords_grows [OF scan] by simp
      define gap' where "gap' = drop (length c) gap"
      have scan': "scanRecords A ((pre @ w @ nonce @ c @ tag) @ rest) (length ((pre @ w @ nonce @ c @ tag) @ rest))
          (length (pre @ w @ nonce @ c @ tag)) (required + length c) = Some (Inr (required + length c + length gap'))"
        using scan ge by (simp add: gap'_def)
      have parts: "length w = 4" "readUInt32 w = length c" "length nonce = aeadNonceSize A" "length tag = aeadTagSize A"
        using framed(2) by (simp_all add: recordParts_def)
      have small: "length c + aeadNonceSize A + aeadTagSize A < 2147483648" using sz ok by (auto simp: aead_sizes_def)
      have u: "u32 (length c + aeadNonceSize A + aeadTagSize A) = length c + aeadNonceSize A + aeadTagSize A"
        "asInt (length c + aeadNonceSize A + aeadTagSize A) = int (length c + aeadNonceSize A + aeadTagSize A)"
        "asInt (length c) = int (length c)"
        using small by simp_all
      have pos: "length pre + 4 + (length c + aeadNonceSize A + aeadTagSize A) = length (pre @ w @ nonce @ c @ tag)"
        "length pre < length (pre @ w @ nonce @ c @ tag @ rest)"
        "drop (length pre + 4) (pre @ w @ nonce @ c @ tag @ rest) = nonce @ c @ tag @ rest"
        "slice (pre @ w @ nonce @ c @ tag @ rest) (length pre) (length pre + 4) = Some w"
        using parts by simp_all
      have ge': "length c \<le> length (gap @ opost)" using ge by simp
      note unfold1 = decryptRecords.simps [of W api A progress key "pre @ w @ nonce @ c @ tag @ rest"
        "length (pre @ w @ nonce @ c @ tag @ rest)" "length pre" processed "Some (opre @ gap @ opost)" "length opre"]
      show ?thesis
      proof (cases "aeadDecrypt A key nonce c tag")
        case None
        have "decryptRecords W api A progress key (pre @ bs) (length (pre @ bs)) (length pre) processed (Some (opre @ gap @ opost)) (length opre)
          = Some (INVALID_DATA, Some (opre @ gap @ opost))"
          unfolding framed(1) unfold1 using decryptChunk_run [OF assms(1-3) ok parts(3,4) ge' order_refl, of rest opre] None pos(2-4)
          by (simp only: Let_def parts(2) u if_True Option.bind.bind_lunit) simp
        moreover have "openRecords 1024 A key bs = None"
          using openRecords_Cons [OF framed(2) ok, of key rest] None by (simp add: framed(1))
        ultimately show ?thesis by simp
      next
        case (Some q)
        obtain mem where rec: "decryptRecords W api A progress key ((pre @ w @ nonce @ c @ tag) @ rest)
            (length ((pre @ w @ nonce @ c @ tag) @ rest)) (length (pre @ w @ nonce @ c @ tag))
            (processed + 4 + (length c + aeadNonceSize A + aeadTagSize A)) (Some ((opre @ q) @ gap' @ opost)) (length (opre @ q))
          = Some (case openRecords 1024 A key rest of None \<Rightarrow> (INVALID_DATA, Some mem) | Some p \<Rightarrow> (NO_ERROR, Some ((opre @ q) @ p @ opost)))
          \<and> length mem = length ((opre @ q) @ gap' @ opost)"
          using 1(1) framed(3) scan' by blast
        have lq: "length q = length c" using Some sz by (auto simp: aead_sizes_def)
        have "decryptRecords W api A progress key (pre @ bs) (length (pre @ bs)) (length pre) processed (Some (opre @ gap @ opost)) (length opre)
          = decryptRecords W api A progress key ((pre @ w @ nonce @ c @ tag) @ rest)
            (length ((pre @ w @ nonce @ c @ tag) @ rest)) (length (pre @ w @ nonce @ c @ tag))
            (processed + 4 + (length c + aeadNonceSize A + aeadTagSize A)) (Some ((opre @ q) @ gap' @ opost)) (length (opre @ q))"
          unfolding framed(1) unfold1 using decryptChunk_run [OF assms(1-3) ok parts(3,4) ge' order_refl, of rest opre] Some pos assms(4) ge lq
          by (simp only: Let_def parts(2) u if_True Option.bind.bind_lunit) (simp add: gap'_def)
        then show ?thesis
          using rec openRecords_Cons [OF framed(2) ok, of key rest] Some ge lq
          by (intro exI [of _ mem]) (auto simp: framed(1) gap'_def split: option.splits)
      qed
    next
      case refused
      then show ?thesis using 1(2) by simp
    qed
  qed
qed

section \<open>The container\<close>

text \<open>The abstract container: \<open>[16 octets salt][records]\<close>, and how it opens.\<close>

definition sealContainer :: "aead \<Rightarrow> random_source \<Rightarrow> key_derivation \<Rightarrow> nat \<Rightarrow> bytes \<Rightarrow> bytes \<Rightarrow> bytes option" where
  "sealContainer A R K draw pw plain = do {
     salt \<leftarrow> R draw PASSWORD_SALT_SIZE;
     key \<leftarrow> K pw salt PASSWORD_KDF_ITERATIONS (aeadKeySize A);
     bs \<leftarrow> sealRecords A R key (draw + 1) (chunksOf 1024 plain);
     Some (salt @ bs) }"

definition openContainer :: "aead \<Rightarrow> key_derivation \<Rightarrow> bytes \<Rightarrow> bytes \<Rightarrow> bytes option" where
  "openContainer A K pw bs =
     (if length bs < PASSWORD_SALT_SIZE then None
      else do {
        key \<leftarrow> K pw (take PASSWORD_SALT_SIZE bs) PASSWORD_KDF_ITERATIONS (aeadKeySize A);
        openRecords 1024 A key (drop PASSWORD_SALT_SIZE bs) })"

lemma nat_salted [simp]: "nat (16 + int n) = 16 + n"
  by (simp add: nat_add_distrib)

lemma chunkCount_length: "chunkCount (int (length plain)) = length (chunksOf 1024 plain)"
proof -
  have "(int (length plain) + 1024 - 1) div 1024 = int ((length plain + 1024 - 1) div 1024)" by (simp add: zdiv_int)
  then show ?thesis
    by (cases "plain = []") (simp_all add: chunkCount_def length_chunksOf)
qed

lemma containerSize_length:
  "aead_sizes A \<Longrightarrow> containerSize A (int (length plain)) = 16 + int (length plain) + int (length (chunksOf 1024 plain) * overhead A)"
  unfolding containerSize_def chunkCount_length overhead_def by (simp add: aead_sizes_def)

lemma sealContainer_length:
  "aead_sizes A \<Longrightarrow> random_ok R \<Longrightarrow> sealContainer A R K draw pw plain = Some bs \<Longrightarrow> int (length bs) = containerSize A (int (length plain))"
  unfolding containerSize_length
  by (auto simp: sealContainer_def random_ok_def bind_eq_Some_conv dest!: sealRecords_length [rotated 2])

text \<open>Under the right password the container opens to what was sealed.\<close>

lemma openContainer_sealContainer:
  assumes "aead_ok A" "random_ok R" "sealContainer A R K draw pw plain = Some bs"
  shows "openContainer A K pw bs = Some plain"
proof -
  from assms(3) obtain salt key r where s: "R draw 16 = Some salt" "K pw salt PASSWORD_KDF_ITERATIONS (aeadKeySize A) = Some key"
    "sealRecords A R key (draw + 1) (chunksOf 1024 plain) = Some r" "bs = salt @ r"
    by (auto simp: sealContainer_def bind_eq_Some_conv)
  have "length salt = 16" using s(1) assms(2) by (auto simp: random_ok_def)
  moreover have "openRecords 1024 A key (r @ []) = map_option ((@) (concat (chunksOf 1024 plain))) (openRecords 1024 A key [])"
    using chunksOf_bound by (intro openRecords_sealRecords [OF assms(1,2) s(3)]) auto
  ultimately show ?thesis using s by (simp add: openContainer_def)
qed

lemma encryptBuffer_runs:
  assumes "provides W api A R K" "aead_ok A" "random_ok R" "kdf_ok K" "unhindered progress" "pw \<noteq> []"
    "plain \<noteq> [] \<Longrightarrow> input = Some plain" "containerSize A (int (length plain)) \<le> INT_MAX"
    "containerSize A (int (length plain)) \<le> capacity" "capacity \<le> int (length m)"
  shows "\<exists>mem d d'. encryptBuffer W api draw progress (Some pw) (int (length pw)) input (int (length plain)) capacity (Some m)
    = Some (case sealContainer A R K draw pw plain of None \<Rightarrow> (failed UNEXPECTED_ERROR (Some mem), d)
            | Some bs \<Rightarrow> (done_with (int (length bs)) (bs @ drop (length bs) m), d')) \<and> length mem = length m"
proof -
  have A: "aeadOf W api = Some A" "randomOf W api = Some R" "kdfOf W api = Some K" "0 < aeadKeySize A" "aead_sizes A"
    using assms(1,2) by (auto simp: provides_def aead_ok_def aead_sizes_def)
  have ok: "\<not> (0 < int (length plain) \<and> input = None)" using assms(7) by auto
  show ?thesis
  proof (cases "R draw PASSWORD_SALT_SIZE")
    case None
    then show ?thesis
      using A assms(6,8-10) ok by (intro exI [of _ m] exI [of _ "draw + 1"]) (auto simp: encryptBuffer_def sealContainer_def)
  next
    case (Some salt)
    then have ls: "length salt = 16" using assms(3) by (auto simp: random_ok_def)
    define n where "n = length (concat (chunksOf 1024 plain)) + length (chunksOf 1024 plain) * overhead A"
    have size1: "containerSize A (int (length plain)) = int (16 + n)" using containerSize_length [OF A(5)] by (simp add: n_def)
    define gap where "gap = take n (drop 16 m)"
    have lm: "16 + n \<le> length m" using assms(9,10) size1 by linarith
    have lg: "length gap = n" using lm by (simp add: gap_def)
    have m1: "poke m 0 salt = Some (salt @ gap @ drop (16 + n) m)"
    proof -
      have "drop 16 m = gap @ drop (16 + n) m" unfolding gap_def by (metis add.commute append_take_drop_id drop_drop)
      then show ?thesis using ls lm by simp
    qed
    show ?thesis
    proof (cases "K pw salt PASSWORD_KDF_ITERATIONS (aeadKeySize A)")
      case None
      then show ?thesis
        using A assms(6,8-10) ok Some m1 ls lg lm
        by (intro exI [of _ "salt @ gap @ drop (16 + n) m"] exI [of _ "draw + 1"]) (auto simp: encryptBuffer_def sealContainer_def)
    next
      case key: (Some key)
      then have lk: "length key = aeadKeySize A" using assms(4) by (auto simp: kdf_ok_def)
      obtain mem d where run: "encryptChunks W api A progress key input (length plain) (length (chunksOf 1024 plain)) 0 0 (draw + 1)
          (salt @ gap @ drop (16 + n) m) (length salt)
        = Some (case sealRecords A R key (draw + 1) (chunksOf 1024 plain) of None \<Rightarrow> (UNEXPECTED_ERROR, mem, d)
              | Some bs \<Rightarrow> (NO_ERROR, salt @ bs @ drop (16 + n) m, draw + 1 + length (chunksOf 1024 plain)))"
        "length mem = length (salt @ gap @ drop (16 + n) m)"
        using encryptChunks_refines [OF assms(1-3) lk assms(5,7), of "chunksOf 1024 plain" 0 "length (chunksOf 1024 plain)" gap 0 "draw + 1" salt "drop (16 + n) m"]
          lg n_def by auto
      have call: "encryptBuffer W api draw progress (Some pw) (int (length pw)) input (int (length plain)) capacity (Some m)
        = do { (st, mem, draw) \<leftarrow> encryptChunks W api A progress key input (length plain) (length (chunksOf 1024 plain)) 0 0 (draw + 1)
                 (salt @ gap @ drop (16 + n) m) (length salt);
               Some (if st = NO_ERROR then done_with (16 + int n) mem else failed st (Some mem), draw) }"
        unfolding encryptBuffer_def using A assms(6,8-10) ok Some m1 key ls
        by (auto simp: chunkCount_length size1)
      show ?thesis
      proof (cases "sealRecords A R key (draw + 1) (chunksOf 1024 plain)")
        case None
        then show ?thesis unfolding call run(1) using Some key run(2) ls lg lm
          by (intro exI [of _ mem] exI [of _ d]) (simp add: sealContainer_def)
      next
        case bs: (Some bs)
        have "length bs = n" using sealRecords_length [OF A(5) assms(3) bs] by (simp add: n_def)
        then show ?thesis unfolding call run(1) using bs Some key ls
          by (intro exI [of _ m] exI) (simp add: sealContainer_def)
      qed
    qed
  qed
qed

lemma scan_of_open:
  assumes "aead_sizes A" "openContainer A K pw bs = Some plain" "int (length bs) \<le> INT_MAX"
  shows "scanRecords A bs (length bs) 16 0 = Some (Inr (length plain))"
proof -
  from assms(2) obtain key where long: "16 \<le> length bs" and op: "openRecords 1024 A key (drop 16 bs) = Some plain"
    by (auto simp: openContainer_def bind_eq_Some_conv split: if_splits)
  define salt records where "salt = take 16 bs" and "records = drop 16 bs"
  have parts: "bs = salt @ records" "length salt = 16" using long by (simp_all add: salt_def records_def)
  obtain r where scan: "scanRecords A (salt @ records) (length (salt @ records)) (length salt) 0 = Some r"
    using scanRecords_total by blast
  have "r = Inr (length plain)"
  proof (cases r)
    case (Inl st)
    have "int (0 + length records) \<le> INT_MAX" using assms(3) parts by simp
    then show ?thesis using scanRecords_refusal [OF scan [unfolded Inl], of key] op by (simp add: records_def)
  next
    case (Inr n)
    then show ?thesis using scanRecords_measure [OF scan [unfolded Inr] op [folded records_def] assms(1)] by simp
  qed
  with scan parts show ?thesis by simp
qed

text \<open>Decryption delivers what the specification opens, and refuses the rest.\<close>

lemma decryptBuffer_opens:
  assumes "aeadOf W api = Some A \<and> kdfOf W api = Some K" "aead_ok A" "kdf_ok K" "unhindered progress" "pw \<noteq> []" "openContainer A K pw bs = Some plain"
    "int (length bs) \<le> INT_MAX" "int (length plain) \<le> capacity" "capacity \<le> int (length m)"
  shows "decryptBuffer W api progress (Some pw) (int (length pw)) (Some bs) (int (length bs)) capacity (Some m)
    = Some (done_with (int (length plain)) (plain @ drop (length plain) m))"
proof -
  have A: "aeadOf W api = Some A" "kdfOf W api = Some K" "0 < aeadKeySize A" "aead_sizes A"
    using assms(1,2) by (auto simp: aead_ok_def aead_sizes_def)
  from assms(6) obtain key where long: "16 \<le> length bs" and key: "K pw (take 16 bs) PASSWORD_KDF_ITERATIONS (aeadKeySize A) = Some key"
    and op: "openRecords 1024 A key (drop 16 bs) = Some plain"
    by (auto simp: openContainer_def bind_eq_Some_conv split: if_splits)
  have lk: "length key = aeadKeySize A" using key assms(3) by (auto simp: kdf_ok_def)
  define salt records where "salt = take 16 bs" and "records = drop 16 bs"
  have parts: "bs = salt @ records" "length salt = 16" using long by (simp_all add: salt_def records_def)
  have scan: "scanRecords A (salt @ records) (length (salt @ records)) (length salt) 0 = Some (Inr (length plain))"
    using scan_of_open [OF A(4) assms(6,7)] parts by simp
  define gap post where "gap = take (length plain) m" and "post = drop (length plain) m"
  have m: "m = [] @ gap @ post" "length gap = length plain" using assms(8,9) by (simp_all add: gap_def post_def)
  obtain mem where run: "decryptRecords W api A progress key (salt @ records) (length (salt @ records)) (length salt) 0 (Some m) 0
      = Some (NO_ERROR, Some (plain @ post))"
    using decryptRecords_refines [OF A(1) assms(2) lk assms(4), of salt records 0 gap 0 "[]" post] scan m op
    by (auto simp: records_def)
  show ?thesis
    unfolding decryptBuffer_def using A assms(5,8,9) scan run key parts
    by (simp add: salt_def [symmetric] post_def done_with_def)
qed

lemma decryptBuffer_refuses:
  assumes "aeadOf W api = Some A \<and> kdfOf W api = Some K" "aead_ok A" "kdf_ok K" "unhindered progress" "pw \<noteq> []" "openContainer A K pw bs = None"
    "int (length bs) \<le> capacity" "capacity \<le> int (length m)"
  shows "\<exists>r. decryptBuffer W api progress (Some pw) (int (length pw)) (Some bs) (int (length bs)) capacity (Some m) = Some r
    \<and> ocStatus r \<noteq> NO_ERROR \<and> ocSize r = 0"
proof (cases "length bs < 16")
  case True
  have A: "aeadOf W api = Some A" "kdfOf W api = Some K" using assms(1) by auto
  show ?thesis using True A assms(5) by (simp add: decryptBuffer_def)
next
  case False
  have A: "aeadOf W api = Some A" "kdfOf W api = Some K" "0 < aeadKeySize A" "aead_sizes A"
    using assms(1,2) by (auto simp: aead_ok_def aead_sizes_def)
  define salt records where "salt = take 16 bs" and "records = drop 16 bs"
  have parts: "bs = salt @ records" "length salt = 16" using False by (simp_all add: salt_def records_def)
  obtain r where scan: "scanRecords A (salt @ records) (length (salt @ records)) (length salt) 0 = Some r"
    using scanRecords_total by blast
  show ?thesis
  proof (cases r)
    case (Inl st)
    have "st \<noteq> NO_ERROR" using scanRecords_refusal [OF scan [unfolded Inl]] by auto
    then show ?thesis unfolding decryptBuffer_def using Inl A assms(5) scan parts by simp
  next
    case (Inr n)
    have n: "n \<le> length records" using scanRecords_bound [OF scan [unfolded Inr]] by simp
    show ?thesis
    proof (cases "K pw salt PASSWORD_KDF_ITERATIONS (aeadKeySize A)")
      case None
      then show ?thesis unfolding decryptBuffer_def using Inr A assms(5,7,8) scan parts n by simp
    next
      case (Some key)
      then have lk: "length key = aeadKeySize A" using assms(3) by (auto simp: kdf_ok_def)
      define gap post where "gap = take n m" and "post = drop n m"
      have m: "m = [] @ gap @ post" "length gap = n" using assms(7,8) n parts by (simp_all add: gap_def post_def)
      have op: "openRecords 1024 A key records = None"
        using assms(6) False Some by (simp add: openContainer_def salt_def records_def)
      obtain mem where run: "decryptRecords W api A progress key (salt @ records) (length (salt @ records)) (length salt) 0 (Some m) 0
          = Some (INVALID_DATA, Some mem)"
        using decryptRecords_refines [OF A(1) assms(2) lk assms(4), of salt records 0 gap 0 "[]" post] scan m op Inr
        by auto
      show ?thesis unfolding decryptBuffer_def using Inr A assms(5,7,8) scan parts n Some run by simp
    qed
  qed
qed

end
