(* ===== verification/CryptoApiSafety.thy ===== *)
theory CryptoApiSafety
  imports CryptoApiFacts
begin

text \<open>
  The password container stays inside the caller's buffers, whatever the arguments: every size that
  the caller states is true of the buffer it belongs to (\<open>bufferHolds\<close>, \<open>roomy\<close>), and the provider keeps to
  the sizes that it announces.
\<close>

definition sameRoom :: "'a list option \<Rightarrow> 'a list option \<Rightarrow> bool" where
  "sameRoom p q \<longleftrightarrow> map_option length p = map_option length q"

lemma sameRoom_refl [simp]: "sameRoom p p"
  by (simp add: sameRoom_def)

section \<open>One chunk\<close>

lemma encryptChunk_room:
  assumes "\<And>A. aeadOf W api = Some A \<Longrightarrow> aead_sizes A" "\<And>R. randomOf W api = Some R \<Longrightarrow> random_ok R"
    "bufferHolds key keySize" "bufferHolds input inputSize" "\<And>mem. out = Some mem \<Longrightarrow> int at + capacity \<le> int (length mem)"
  shows "\<exists>r d. encryptChunk W api draw key keySize input inputSize capacity out at = Some (r, d) \<and> sameRoom (ocMemory r) out
    \<and> (\<forall>A. aeadOf W api = Some A \<longrightarrow> ocStatus r = NO_ERROR \<longrightarrow> ocSize r = inputSize + int (aeadNonceSize A) + int (aeadTagSize A))"
proof (cases "key = None \<or> keySize \<le> 0 \<or> inputSize < 0 \<or> (inputSize > 0 \<and> input = None)")
  case True
  then show ?thesis unfolding encryptChunk_def by simp
next
  case args: False
  show ?thesis
  proof (cases "\<exists>A R mem. aeadOf W api = Some A \<and> randomOf W api = Some R \<and> out = Some mem
      \<and> inputSize + int (aeadNonceSize A) + int (aeadTagSize A) \<le> INT_MAX \<and> inputSize + int (aeadNonceSize A) + int (aeadTagSize A) \<le> capacity")
    case False
    then show ?thesis
      using args unfolding encryptChunk_def by (auto simp: Let_def split: option.split)
  next
    case True
    then obtain A R mem where A: "aeadOf W api = Some A" "randomOf W api = Some R" "out = Some mem"
      and fits: "inputSize + int (aeadNonceSize A) + int (aeadTagSize A) \<le> INT_MAX" "inputSize + int (aeadNonceSize A) + int (aeadTagSize A) \<le> capacity"
      by blast
    have ok: "aead_sizes A" "random_ok R" using assms(1,2) A by auto
    obtain kb where k: "readBlock key (nat keySize) = Some kb" using args assms(3) by (cases key) auto
    obtain plain where p: "readBlock input (nat inputSize) = Some plain" "length plain = nat inputSize"
      using args assms(4) readBlock_length by (cases input) (auto simp: readBlock_length)
    have room: "at + aeadNonceSize A + nat inputSize + aeadTagSize A \<le> length mem"
      using assms(5) [OF A(3)] fits(2) args by linarith
    show ?thesis
    proof (cases "aeadSetKey A kb")
      case False
      then show ?thesis using args A fits k unfolding encryptChunk_def by (simp add: Let_def)
    next
      case set: True
      show ?thesis
      proof (cases "R draw (aeadNonceSize A)")
        case None
        then show ?thesis using args A fits k set unfolding encryptChunk_def by (simp add: Let_def)
      next
        case (Some nonce)
        then have ln: "length nonce = aeadNonceSize A" using ok(2) by (auto simp: random_ok_def)
        obtain m1 where m1: "poke mem at nonce = Some m1" "length m1 = length mem" using room ln by (simp add: poke_def)
        show ?thesis
        proof (cases "aeadEncrypt A kb nonce plain")
          case None
          then show ?thesis using args A fits k set Some m1 p unfolding encryptChunk_def by (simp add: Let_def sameRoom_def)
        next
          case e: (Some ct)
          obtain ciphertext tag where ct: "ct = (ciphertext, tag)" by (cases ct)
          have len: "length ciphertext = nat inputSize" "length tag = aeadTagSize A"
            using ok(1) e ct p(2) by (auto simp: aead_sizes_def)
          obtain m2 where m2: "poke m1 (at + aeadNonceSize A) ciphertext = Some m2" "length m2 = length mem"
            using room len m1(2) by (simp add: poke_def)
          obtain m3 where m3: "poke m2 (at + aeadNonceSize A + nat inputSize) tag = Some m3" "length m3 = length mem"
            using room len m2(2) by (simp add: poke_def)
          show ?thesis using args A fits k set Some m1 m2 m3 p e ct unfolding encryptChunk_def by (simp add: Let_def sameRoom_def)
        qed
      qed
    qed
  qed
qed

lemma decryptChunk_room:
  assumes "\<And>A. aeadOf W api = Some A \<Longrightarrow> aead_sizes A" "bufferHolds key keySize" "bufferHolds input inputSize"
    "\<And>mem. out = Some mem \<Longrightarrow> int at + capacity \<le> int (length mem)"
  shows "\<exists>r. decryptChunk W api key keySize input inputSize capacity out at = Some r \<and> sameRoom (ocMemory r) out
    \<and> (ocStatus r = NO_ERROR \<longrightarrow> 0 \<le> ocSize r \<and> ocSize r \<le> capacity)"
proof (cases "key = None \<or> keySize \<le> 0 \<or> input = None \<or> inputSize < 0")
  case True
  then show ?thesis unfolding decryptChunk_def by (auto simp: sameRoom_def)
next
  case args: False
  show ?thesis
  proof (cases "aeadOf W api")
    case None
    then show ?thesis using args unfolding decryptChunk_def by simp
  next
    case A: (Some A)
    then have sz: "aead_sizes A" "aeadNonceSize A + aeadTagSize A \<le> 65535" using assms(1) by (auto simp: aead_sizes_def)
    let ?over = "aeadNonceSize A + aeadTagSize A"
    have over: "u32 ?over = ?over" "asInt ?over = int ?over" using sz(2) by simp_all
    define m where "m = nat inputSize - ?over"
    show ?thesis
    proof (cases "nat inputSize < ?over")
      case True
      then show ?thesis using args A over unfolding decryptChunk_def by (simp add: Let_def)
    next
      case long: False
      then have sub: "inputSize - (int (aeadNonceSize A) + int (aeadTagSize A)) = int m" using args by (simp add: m_def of_nat_diff)
      show ?thesis
      proof (cases "capacity < int m \<or> (int m > 0 \<and> out = None)")
        case True
        then show ?thesis using args A over long sub unfolding decryptChunk_def by (simp add: Let_def)
      next
        case fits: False
        obtain kb where k: "readBlock key (nat keySize) = Some kb" using args assms(2) by (cases key) auto
        obtain b where b: "input = Some b" using args by auto
        define block where "block = take (nat inputSize) b"
        have blk: "readBlock input (nat inputSize) = Some block" "length block = ?over + m"
          using assms(3) args b long by (auto simp: block_def m_def)
        obtain nonce ciphertext tag where parts: "slice block 0 (aeadNonceSize A) = Some nonce"
          "slice block (aeadNonceSize A) (aeadNonceSize A + m) = Some ciphertext"
          "slice block (aeadNonceSize A + m) (aeadNonceSize A + m + aeadTagSize A) = Some tag" "length ciphertext = m" "length tag = aeadTagSize A"
          using blk(2) by (auto simp: slice_def)
        note simps = args A over long sub k blk parts fits
        show ?thesis
        proof (cases "aeadSetKey A kb")
          case False
          then show ?thesis using simps unfolding decryptChunk_def by (simp add: Let_def)
        next
          case set: True
          show ?thesis
          proof (cases "aeadDecrypt A kb nonce ciphertext tag")
            case None
            then show ?thesis using simps set unfolding decryptChunk_def by (simp add: Let_def)
          next
            case (Some plain)
            then have lp: "length plain = m" using sz(1) parts(4) by (auto simp: aead_sizes_def)
            show ?thesis
            proof (cases out)
              case None
              then have "plain = []" "m = 0" using fits lp by simp_all
              then show ?thesis using simps set Some None unfolding decryptChunk_def by (simp add: Let_def sameRoom_def)
            next
              case mem: (Some mem)
              have "at + m \<le> length mem" using assms(4) [OF mem] fits by linarith
              then show ?thesis using simps set Some mem lp unfolding decryptChunk_def by (simp add: Let_def sameRoom_def)
            qed
          qed
        qed
      qed
    qed
  qed
qed

section \<open>The loops\<close>

definition u32Overhead :: "aead \<Rightarrow> nat" where
  "u32Overhead A = u32 (4 + aeadNonceSize A + aeadTagSize A)"

lemma u32Overhead_small: "aead_sizes A \<Longrightarrow> u32Overhead A = overhead A"
  by (simp add: u32Overhead_def overhead_def aead_sizes_def)

lemma bufferHolds_drop: "bufferHolds input n \<Longrightarrow> int off + m \<le> n \<Longrightarrow> bufferHolds (map_option (drop off) input) m"
  by (cases input) auto

lemma encryptChunks_room:
  assumes "aeadOf W api = Some A" "aead_sizes A" "\<And>R. randomOf W api = Some R \<Longrightarrow> random_ok R" "bufferHolds input (int inputSize)"
  shows "rounds = 0 \<or> idx * 1024 + (rounds - 1) * 1024 < inputSize \<Longrightarrow>
    pos + (inputSize - idx * 1024) + rounds * overhead A \<le> length mem \<Longrightarrow>
    \<exists>st mem' d. encryptChunks W api A progress key input inputSize rounds idx processed draw mem pos = Some (st, mem', d)
      \<and> length mem' = length mem"
proof (induction rounds arbitrary: idx processed draw mem pos)
  case (Suc rounds)
  define off where "off = idx * 1024"
  define c where "c = (if inputSize - off < 1024 then inputSize - off else 1024)"
  have lt: "off < inputSize" using Suc.prems(1) by (auto simp: off_def)
  have c: "c \<le> 1024" "off + c \<le> inputSize" "0 < c" using lt by (auto simp: c_def)
  define want where "want = c + aeadNonceSize A + aeadTagSize A"
  have u: "asInt (u32 want) = int want" using assms(2) c(1) by (auto simp: want_def aead_sizes_def)
  have fits: "pos + 4 + want \<le> length mem"
    using Suc.prems(2) c(2) by (simp add: want_def overhead_def off_def)
  obtain r d where step: "encryptChunk W api draw (Some key) (int (length key)) (map_option (drop off) input) (int c) (int want) (Some mem) (pos + 4) = Some (r, d)"
    and room: "sameRoom (ocMemory r) (Some mem)" and sz: "ocStatus r = NO_ERROR \<Longrightarrow> ocSize r = int want"
    using encryptChunk_room [of W api "Some key" "int (length key)" "map_option (drop off) input" "int c" "Some mem" "pos + 4" "int want" draw]
      assms(1-3) bufferHolds_drop [OF assms(4), of off "int c"] c(2) fits by (auto simp: want_def)
  from room obtain m1 where m1: "ocMemory r = Some m1" "length m1 = length mem" by (auto simp: sameRoom_def)
  obtain m2 where m2: "poke m1 pos (writeUInt32 c) = Some m2" "length m2 = length mem"
    using fits m1(2) by (simp add: poke_def)
  have go: "encryptChunks W api A progress key input inputSize (Suc rounds) idx processed draw mem pos =
    (if ocStatus r \<noteq> NO_ERROR then Some (ocStatus r, m1, d)
     else if \<not> continues progress (processed + c) inputSize then Some (OPERATION_CANCELLED, m2, d)
     else encryptChunks W api A progress key input inputSize rounds (idx + 1) (processed + c) d m2 (pos + 4 + nat (ocSize r)))"
    using step m1(1) m2(1) u by (simp add: Let_def off_def [symmetric] c_def [symmetric] want_def [symmetric])
  show ?case
  proof (cases "ocStatus r \<noteq> NO_ERROR \<or> \<not> continues progress (processed + c) inputSize")
    case True
    then show ?thesis unfolding go using m1 m2 by auto
  next
    case False
    then have n: "nat (ocSize r) = want" using sz by simp
    have again: "rounds = 0 \<or> (idx + 1) * 1024 + (rounds - 1) * 1024 < inputSize"
      using Suc.prems(1) by (cases rounds) auto
    have "pos + 4 + want + (inputSize - (idx + 1) * 1024) + rounds * overhead A \<le> length m2"
    proof (cases "rounds = 0")
      case True
      then show ?thesis using fits m2(2) Suc.prems(2) c lt by (auto simp: off_def c_def want_def overhead_def)
    next
      case False
      with again have "off + 1024 < inputSize" by (auto simp: off_def)
      then have "c = 1024" by (simp add: c_def)
      then show ?thesis using Suc.prems(2) m2(2) \<open>off + 1024 < inputSize\<close> by (simp add: off_def want_def overhead_def)
    qed
    from Suc.IH [OF again this, of "processed + c" d] show ?thesis
      unfolding go using False n m2(2) by simp
  qed
qed simp

lemma scanRecords_in: "whole \<le> length input \<Longrightarrow> safe (scanRecords A input whole pos required)"
proof (induction A input whole pos required rule: scanRecords.induct)
  case (1 A input whole pos required)
  show ?case
    by (subst scanRecords.simps) (use 1 in \<open>auto simp: Let_def intro!: safe_bind\<close>)
qed

lemma decryptRecords_room:
  assumes "aeadOf W api = Some A" "aead_sizes A"
  shows "whole \<le> length input \<Longrightarrow> scanRecords A input whole pos required = Some (Inr r) \<Longrightarrow>
    (out = None \<Longrightarrow> r = required) \<Longrightarrow> (\<And>mem. out = Some mem \<Longrightarrow> at + (r - required) \<le> length mem) \<Longrightarrow>
    \<exists>st out'. decryptRecords W api A progress key input whole pos processed out at = Some (st, out') \<and> sameRoom out' out"
proof (induction "whole - pos" arbitrary: pos required out at processed rule: less_induct)
  case less
  show ?case
  proof (cases "pos < whole")
    case False
    then show ?thesis by (subst decryptRecords.simps) simp
  next
    case True
    obtain w where w: "slice input pos (pos + 4) = Some w" "\<not> whole - pos < 4" "readUInt32 w \<le> 1024"
      "pos + 4 + (readUInt32 w + aeadNonceSize A + aeadTagSize A) \<le> whole"
      and scan: "scanRecords A input whole (pos + 4 + (readUInt32 w + aeadNonceSize A + aeadTagSize A)) (required + readUInt32 w) = Some (Inr r)"
      using less(3) True by (subst (asm) scanRecords.simps) (auto simp: Let_def bind_eq_Some_conv split: if_splits)
    define n where "n = readUInt32 w"
    have ge: "required + n \<le> r" using scanRecords_grows [OF scan] by (simp add: n_def)
    have small: "n + aeadNonceSize A + aeadTagSize A < 2147483648" using assms(2) w(3) by (auto simp: aead_sizes_def n_def)
    then have u: "u32 (n + aeadNonceSize A + aeadTagSize A) = n + aeadNonceSize A + aeadTagSize A"
      "asInt (n + aeadNonceSize A + aeadTagSize A) = int (n + aeadNonceSize A + aeadTagSize A)" "asInt n = int n"
      by simp_all
    have room: "int at + int n \<le> int (length mem)" if "out = Some mem" for mem
      using less(5) [OF that] ge by linarith
    have h: "bufferHolds (Some (drop (pos + 4) input)) (int (n + aeadNonceSize A + aeadTagSize A))"
      using less(2) w(4) by (simp add: n_def)
    obtain c where c: "decryptChunk W api (Some key) (int (length key)) (Some (drop (pos + 4) input))
        (int (n + aeadNonceSize A + aeadTagSize A)) (int n) out at = Some c" "sameRoom (ocMemory c) out"
      using decryptChunk_room [of W api "Some key" "int (length key)", OF _ _ h room] assms by auto
    have go: "decryptRecords W api A progress key input whole pos processed out at =
      (if ocStatus c \<noteq> NO_ERROR then Some (ocStatus c, ocMemory c)
       else if ocSize c \<noteq> int n then Some (INVALID_DATA, ocMemory c)
       else if \<not> continues progress (processed + 4 + (n + aeadNonceSize A + aeadTagSize A)) whole then Some (OPERATION_CANCELLED, ocMemory c)
       else decryptRecords W api A progress key input whole (pos + 4 + (n + aeadNonceSize A + aeadTagSize A))
              (processed + 4 + (n + aeadNonceSize A + aeadTagSize A)) (ocMemory c) (at + nat (ocSize c)))"
      using True w(1) c(1) by (subst decryptRecords.simps) (simp only: if_True Let_def n_def [symmetric] u Option.bind.bind_lunit)
    show ?thesis
    proof (cases "ocStatus c \<noteq> NO_ERROR \<or> ocSize c \<noteq> int n \<or> \<not> continues progress (processed + 4 + (n + aeadNonceSize A + aeadTagSize A)) whole")
      case True
      then show ?thesis unfolding go using c(2) by auto
    next
      case False
      have shorter: "whole - (pos + 4 + (n + aeadNonceSize A + aeadTagSize A)) < whole - pos" using True by simp
      have none: "r = required + n" if "ocMemory c = None"
        using that less(4) c(2) ge by (cases out) (auto simp: sameRoom_def)
      have some: "at + n + (r - (required + n)) \<le> length mem" if "ocMemory c = Some mem" for mem
        using that less(5) c(2) ge by (cases out) (auto simp: sameRoom_def)
      obtain st out' where "decryptRecords W api A progress key input whole (pos + 4 + (n + aeadNonceSize A + aeadTagSize A))
              (processed + 4 + (n + aeadNonceSize A + aeadTagSize A)) (ocMemory c) (at + n) = Some (st, out')" "sameRoom out' (ocMemory c)"
        using less(1) [OF shorter less(2) scan [folded n_def], of "ocMemory c" "at + n", OF none some] by blast
      then show ?thesis unfolding go using False c(2) by (simp add: sameRoom_def)
    qed
  qed
qed

section \<open>The two calls\<close>

lemma chunkCount_bound:
  "0 \<le> n \<Longrightarrow> chunkCount n = 0 \<or> (chunkCount n - 1) * 1024 < nat n"
  by (auto simp: chunkCount_def nat_div_distrib)

lemma encryptBuffer_room:
  assumes "\<And>A. aeadOf W api = Some A \<Longrightarrow> aead_sizes A" "\<And>R. randomOf W api = Some R \<Longrightarrow> random_ok R"
    "bufferHolds password passwordSize" "bufferHolds input inputSize" "roomy capacity out"
  shows "\<exists>r d. encryptBuffer W api draw progress password passwordSize input inputSize capacity out = Some (r, d) \<and> sameRoom (ocMemory r) out"
proof (cases "password = None \<or> passwordSize \<le> 0 \<or> inputSize < 0 \<or> (inputSize > 0 \<and> input = None)")
  case True
  then show ?thesis unfolding encryptBuffer_def by simp
next
  case args: False
  show ?thesis
  proof (cases "\<exists>A R K mem. aeadOf W api = Some A \<and> randomOf W api = Some R \<and> kdfOf W api = Some K \<and> out = Some mem
      \<and> containerSize A inputSize \<le> INT_MAX \<and> containerSize A inputSize \<le> capacity")
    case False
    then show ?thesis
      using args unfolding encryptBuffer_def by (auto simp: Let_def split: option.split)
  next
    case True
    then obtain A R K mem where A: "aeadOf W api = Some A" "randomOf W api = Some R" "kdfOf W api = Some K" "out = Some mem"
      and fits: "containerSize A inputSize \<le> INT_MAX" "containerSize A inputSize \<le> capacity"
      by blast
    have ok: "aead_sizes A" "random_ok R" "0 < aeadKeySize A" using assms(1,2) A by (auto simp: aead_sizes_def)
    have size1: "containerSize A inputSize = 16 + inputSize + int (chunkCount inputSize * overhead A)"
      using u32Overhead_small [OF ok(1)] by (simp add: containerSize_def u32Overhead_def)
    obtain pw where k: "readBlock password (nat passwordSize) = Some pw" using args assms(3) by (cases password) auto
    show ?thesis
    proof (cases "R draw PASSWORD_SALT_SIZE")
      case None
      then show ?thesis using args A fits unfolding encryptBuffer_def by (simp add: Let_def)
    next
      case (Some salt)
      then have ls: "length salt = 16" using ok(2) by (auto simp: random_ok_def)
      have lm: "16 + nat inputSize + chunkCount inputSize * overhead A \<le> length mem"
      proof -
        have "int (length mem) \<ge> 16 + inputSize + int (chunkCount inputSize * overhead A)" using fits(2) size1 assms(5) A(4) by simp
        moreover have "0 \<le> inputSize" using args by simp
        ultimately show ?thesis by linarith
      qed
      obtain m1 where m1: "poke mem 0 salt = Some m1" "length m1 = length mem" using ls lm by (simp add: poke_def)
      show ?thesis
      proof (cases "K pw salt PASSWORD_KDF_ITERATIONS (aeadKeySize A)")
        case None
        then show ?thesis using args A fits Some k m1 ok(3) unfolding encryptBuffer_def by (simp add: Let_def sameRoom_def)
      next
        case key: (Some key)
        have h: "bufferHolds input (int (nat inputSize))" using assms(4) args by simp
        obtain st m2 d where "encryptChunks W api A progress key input (nat inputSize) (chunkCount inputSize) 0 0 (draw + 1) m1 16 = Some (st, m2, d)"
          "length m2 = length m1"
          using encryptChunks_room [OF A(1) ok(1) assms(2) h, of "chunkCount inputSize" 0 16 m1 progress key 0 "draw + 1"]
            chunkCount_bound [of inputSize] lm m1(2) args by auto
        then show ?thesis using args A fits Some k m1 key ok(3) unfolding encryptBuffer_def by (simp add: Let_def sameRoom_def)
      qed
    qed
  qed
qed

lemma decryptBuffer_room:
  assumes "\<And>A. aeadOf W api = Some A \<Longrightarrow> aead_sizes A"
    "bufferHolds password passwordSize" "bufferHolds input inputSize" "roomy capacity out"
  shows "\<exists>r. decryptBuffer W api progress password passwordSize input inputSize capacity out = Some r \<and> sameRoom (ocMemory r) out"
proof (cases "input = None \<or> password = None \<or> passwordSize \<le> 0 \<or> inputSize < 0")
  case True
  then show ?thesis unfolding decryptBuffer_def by (auto split: option.split)
next
  case False
  then obtain b where args: "input = Some b" "password \<noteq> None" "\<not> passwordSize \<le> 0" "\<not> inputSize < 0" by auto
  show ?thesis
  proof (cases "\<exists>A K. aeadOf W api = Some A \<and> kdfOf W api = Some K \<and> \<not> nat inputSize < PASSWORD_SALT_SIZE")
    case False
    then show ?thesis
      using args unfolding decryptBuffer_def by (auto split: option.split)
  next
    case True
    then obtain A K where A: "aeadOf W api = Some A" "kdfOf W api = Some K" "\<not> nat inputSize < PASSWORD_SALT_SIZE" by blast
    have ok: "aead_sizes A" "0 < aeadKeySize A" using assms(1) A by (auto simp: aead_sizes_def)
    have whole: "nat inputSize \<le> length b" using assms(3) args by simp
    obtain pw where k: "readBlock password (nat passwordSize) = Some pw" using args assms(2) by (cases password) auto
    obtain s where scan: "scanRecords A b (nat inputSize) PASSWORD_SALT_SIZE 0 = Some s"
      using scanRecords_in [OF whole, of A 16 0] by (auto simp: safe_def)
    show ?thesis
    proof (cases s)
      case (Inl st)
      then show ?thesis using args A scan unfolding decryptBuffer_def by (simp add: Let_def)
    next
      case (Inr r)
      show ?thesis
      proof (cases "capacity < int r \<or> (r > 0 \<and> out = None)")
        case True
        then show ?thesis using args A scan Inr unfolding decryptBuffer_def by (simp add: Let_def)
      next
        case fits: False
        obtain salt where salt: "slice b 0 PASSWORD_SALT_SIZE = Some salt" using A(3) whole by (simp add: slice_def)
        show ?thesis
        proof (cases "K pw salt PASSWORD_KDF_ITERATIONS (aeadKeySize A)")
          case None
          then show ?thesis using args A scan Inr fits k salt ok(2) unfolding decryptBuffer_def by (simp add: Let_def)
        next
          case (Some key)
          have n: "r = 0" if "out = None" using that fits by simp
          have m: "0 + (r - 0) \<le> length mem" if "out = Some mem" for mem using that fits assms(4) by simp
          obtain st out' where "decryptRecords W api A progress key b (nat inputSize) PASSWORD_SALT_SIZE 0 out 0 = Some (st, out')"
            "sameRoom out' out"
            using decryptRecords_room [OF A(1) ok(1) whole scan [unfolded Inr] n m] by blast
          then show ?thesis using args A scan Inr fits k salt ok(2) Some unfolding decryptBuffer_def by simp
        qed
      qed
    qed
  qed
qed

section \<open>The calling convention\<close>

text \<open>What a call of \<open>EncryptBuffer\<close> yields under a provider that keeps its promises, as an instance of
  \<open>sized_output\<close>: asking for the size first and calling again always works.\<close>

type_synonym 'h seal_call = "'h world \<times> crypto_api \<times> nat \<times> bytes \<times> bytes"

definition sealCall :: "'h seal_call \<Rightarrow> int \<Rightarrow> bytes option \<Rightarrow> byte outcome option" where
  "sealCall x capacity out = (case x of (W, api, draw, pw, plain) \<Rightarrow>
     map_option fst (encryptBuffer W api draw None (Some pw) (int (length pw)) (Some plain) (int (length plain)) capacity out))"

definition sealedOctets :: "'h seal_call \<Rightarrow> bytes option" where
  "sealedOctets x = (case x of (W, api, draw, pw, plain) \<Rightarrow>
     (case (aeadOf W api, randomOf W api, kdfOf W api) of
        (Some A, Some R, Some K) \<Rightarrow>
          if aead_ok A \<and> random_ok R \<and> kdf_ok K \<and> pw \<noteq> [] \<and> containerSize A (int (length plain)) \<le> INT_MAX
          then sealContainer A R K draw pw plain else None
      | _ \<Rightarrow> None))"

text \<open>An empty plaintext needs no buffer, and \<open>DecryptBuffer\<close> then answers \<open>NO_ERROR\<close> to a null pointer: the
  convention holds for the others.\<close>

type_synonym 'h open_call = "'h world \<times> crypto_api \<times> bytes \<times> bytes"

definition openCall :: "'h open_call \<Rightarrow> int \<Rightarrow> bytes option \<Rightarrow> byte outcome option" where
  "openCall x capacity out = (case x of (W, api, pw, bs) \<Rightarrow>
     decryptBuffer W api None (Some pw) (int (length pw)) (Some bs) (int (length bs)) capacity out)"

definition openedOctets :: "'h open_call \<Rightarrow> bytes option" where
  "openedOctets x = (case x of (W, api, pw, bs) \<Rightarrow>
     (case (aeadOf W api, kdfOf W api) of
        (Some A, Some K) \<Rightarrow>
          if aead_ok A \<and> kdf_ok K \<and> pw \<noteq> [] \<and> int (length bs) \<le> INT_MAX \<and> openContainer A K pw bs \<noteq> Some []
          then openContainer A K pw bs else None
      | _ \<Rightarrow> None))"

lemma sealed_cases:
  assumes "sealedOctets x = Some bs"
  obtains W api draw pw plain A R K where "x = (W, api, draw, pw, plain)" "provides W api A R K" "aead_ok A" "random_ok R" "kdf_ok K"
    "pw \<noteq> []" "containerSize A (int (length plain)) \<le> INT_MAX" "sealContainer A R K draw pw plain = Some bs"
    "int (length bs) = containerSize A (int (length plain))"
proof -
  obtain W api draw pw plain where x: "x = (W, api, draw, pw, plain)" by (cases x)
  with assms obtain A R K where y: "provides W api A R K" "aead_ok A" "random_ok R" "kdf_ok K"
    "pw \<noteq> []" "containerSize A (int (length plain)) \<le> INT_MAX" "sealContainer A R K draw pw plain = Some bs"
    by (auto simp: sealedOctets_def provides_def split: option.splits if_splits)
  moreover have "int (length bs) = containerSize A (int (length plain))"
    using sealContainer_length y by (auto simp: aead_ok_def)
  ultimately show ?thesis using that x by blast
qed

lemma opened_cases:
  assumes "openedOctets x = Some plain"
  obtains W api pw bs A K where "x = (W, api, pw, bs)" "aeadOf W api = Some A" "kdfOf W api = Some K" "aead_ok A" "kdf_ok K"
    "pw \<noteq> []" "int (length bs) \<le> INT_MAX" "openContainer A K pw bs = Some plain" "plain \<noteq> []" "16 \<le> length bs"
    "scanRecords A bs (length bs) 16 0 = Some (Inr (length plain))"
proof -
  obtain W api pw bs where x: "x = (W, api, pw, bs)" by (cases x)
  with assms obtain A K where y: "aeadOf W api = Some A" "kdfOf W api = Some K" "aead_ok A" "kdf_ok K"
    "pw \<noteq> []" "int (length bs) \<le> INT_MAX" "openContainer A K pw bs = Some plain" "plain \<noteq> []"
    by (auto simp: openedOctets_def split: option.splits if_splits)
  moreover have "scanRecords A bs (length bs) 16 0 = Some (Inr (length plain))"
    using scan_of_open y by (auto simp: aead_ok_def)
  moreover have "16 \<le> length bs" using y(7) by (auto simp: openContainer_def split: if_splits)
  ultimately show ?thesis using that x by blast
qed

interpretation container_seal: sized_output sealCall sealedOctets
proof
  fix x :: "'h seal_call" and out :: bytes and mem :: "bytes option" and capacity
  assume "sealedOctets x = Some out" and short: "mem = None \<or> capacity < int (length out)"
  then show "sealCall x capacity mem = Some (too_small (int (length out)) mem)"
  proof (cases rule: sealed_cases)
    case (1 W api draw pw plain A R K)
    then show ?thesis using short
      by (cases mem) (auto simp: sealCall_def encryptBuffer_def provides_def)
  qed
next
  fix x :: "'h seal_call" and out m :: bytes and capacity
  assume "sealedOctets x = Some out" and room: "int (length out) \<le> capacity" "capacity \<le> int (length m)"
  then show "sealCall x capacity (Some m) = Some (done_with (int (length out)) (out @ drop (length out) m))"
  proof (cases rule: sealed_cases)
    case (1 W api draw pw plain A R K)
    then show ?thesis using room encryptBuffer_runs [of W api A R K None pw plain "Some plain" capacity m draw]
      by (auto simp: sealCall_def)
  qed
qed

interpretation container_open: sized_output openCall openedOctets
proof
  fix x :: "'h open_call" and out :: bytes and mem :: "bytes option" and capacity
  assume "openedOctets x = Some out" and short: "mem = None \<or> capacity < int (length out)"
  then show "openCall x capacity mem = Some (too_small (int (length out)) mem)"
  proof (cases rule: opened_cases)
    case (1 W api pw bs A K)
    then show ?thesis using short by (auto simp: openCall_def decryptBuffer_def)
  qed
next
  fix x :: "'h open_call" and out m :: bytes and capacity
  assume "openedOctets x = Some out" and room: "int (length out) \<le> capacity" "capacity \<le> int (length m)"
  then show "openCall x capacity (Some m) = Some (done_with (int (length out)) (out @ drop (length out) m))"
  proof (cases rule: opened_cases)
    case (1 W api pw bs A K)
    then show ?thesis using room decryptBuffer_opens [of W api A K None pw bs out capacity m]
      by (auto simp: openCall_def)
  qed
qed

section \<open>A provider for the witnesses\<close>

text \<open>An authenticated cipher that leaves the octets as they are and puts the key in the tag.\<close>

definition openAead :: aead where
  "openAead = \<lparr> aeadKeySize = 1, aeadNonceSize = 1, aeadTagSize = 1, aeadSetKey = (\<lambda>k. length k = 1),
     aeadEncrypt = (\<lambda>k n p. if length k = 1 then Some (p, k) else None),
     aeadDecrypt = (\<lambda>k n c t. if t = k then Some c else None) \<rparr>"

definition openRandom :: random_source where
  "openRandom i n = Some (replicate n (word_of_nat i))"

definition openKdf :: key_derivation where
  "openKdf pw salt i n = Some (replicate n (case pw of [] \<Rightarrow> 0 | b # _ \<Rightarrow> b))"

definition openWorld :: "unit world" where
  "openWorld kind = Some \<lparr> createAead = (\<lambda>_. Some openAead), createRandom = Some openRandom, createKeyDerivation = Some openKdf,
     createLegacy = (\<lambda>_. None), createMac = None, createHash = (\<lambda>_. None) \<rparr>"

lemma open_provider:
  "provides openWorld api openAead openRandom openKdf" "aead_ok openAead" "random_ok openRandom" "kdf_ok openKdf"
  by (auto simp: provides_def aeadOf_def randomOf_def kdfOf_def openWorld_def aead_ok_def aead_sizes_def openAead_def
      random_ok_def openRandom_def kdf_ok_def openKdf_def split: if_splits)

lemma open_seals: "c \<noteq> [] \<Longrightarrow> length c \<le> 1024 \<Longrightarrow> chunksOf 1024 c = [c]"
  by (subst chunksOf.simps) simp

lemma chunksOf_append:
  "length xs mod n = 0 \<Longrightarrow> 0 < n \<Longrightarrow> chunksOf n (xs @ ys) = chunksOf n xs @ chunksOf n ys"
proof (induction n xs rule: chunksOf.induct)
  case (1 n xs)
  show ?case
  proof (cases "xs = []")
    case False
    then have le: "n \<le> length xs" using 1(2,3) by (metis le_less_linear length_0_conv mod_less)
    then have "length (drop n xs) mod n = 0" using 1(2) by (simp add: mod_if)
    then have "chunksOf n (drop n xs @ ys) = chunksOf n (drop n xs) @ chunksOf n ys" using 1 False by simp
    then show ?thesis using False le 1(3) by (subst (1 2) chunksOf.simps) simp
  qed simp
qed

lemma sealRecords_append:
  "sealRecords A R key draw (cs @ ds) = do {
     xs \<leftarrow> sealRecords A R key draw cs; ys \<leftarrow> sealRecords A R key (draw + length cs) ds; Some (xs @ ys) }"
  by (induction cs arbitrary: draw) (auto simp: bind_assoc)

text \<open>Sealing more only adds octets behind a plaintext that ends with a chunk.\<close>

lemma sealContainer_prefix:
  assumes "aead_ok A" "random_ok R" "sealContainer A R K draw pw (front @ behind) = Some bs" "length front mod 1024 = 0"
  shows "sealContainer A R K draw pw front = Some (take (nat (containerSize A (int (length front)))) bs)"
proof -
  from assms(3) obtain salt key xs ys where s: "R draw PASSWORD_SALT_SIZE = Some salt"
    "K pw salt PASSWORD_KDF_ITERATIONS (aeadKeySize A) = Some key"
    "sealRecords A R key (draw + 1) (chunksOf 1024 front) = Some xs" "bs = salt @ xs @ ys"
    using chunksOf_append [OF assms(4), of behind]
    by (auto simp: sealContainer_def sealRecords_append bind_eq_Some_conv)
  have "sealContainer A R K draw pw front = Some (salt @ xs)" using s by (simp add: sealContainer_def)
  moreover have "int (length (salt @ xs)) = containerSize A (int (length front))"
    using sealContainer_length [OF _ assms(2) calculation] assms(1) by (simp add: aead_ok_def)
  then have "nat (containerSize A (int (length front))) = length (salt @ xs)" by simp
  ultimately show ?thesis using s(4) by simp
qed


section \<open>Properties\<close>

text \<open>C9: What \<open>EncryptBuffer\<close> seals under a password, \<open>DecryptBuffer\<close> opens
  under the same password to the same octets, in a buffer that is at least as long as the plaintext and
  whose rest stays as it was, for every provider that keeps the promises of its interfaces and whose calls succeed.\<close>

theorem password_container_round_trip:
  assumes "provides W api A R K" "aead_ok A" "random_ok R" "kdf_ok K" "unhindered progress" "pw \<noteq> []"
    "sealContainer A R K draw pw plain \<noteq> None" "containerSize A (int (length plain)) \<le> int (length m)" "int (length m) \<le> INT_MAX"
    "length plain \<le> length m'"
  shows "\<exists>r d. api_EncryptBuffer W api draw progress (Some pw) (int (length pw)) (Some plain) (int (length plain)) (int (length m)) (Some m)
      = Some (r, d) \<and> ocStatus r = NO_ERROR \<and> ocSize r = containerSize A (int (length plain)) \<and>
    api_DecryptBuffer W api progress (Some pw) (int (length pw)) (Some (delivered r)) (ocSize r) (int (length m')) (Some m')
      = Some (done_with (int (length plain)) (plain @ drop (length plain) m'))"
proof -
  obtain bs where bs: "sealContainer A R K draw pw plain = Some bs" using assms(7) by blast
  have len: "int (length bs) = containerSize A (int (length plain))"
    using sealContainer_length [OF _ assms(3) bs] assms(2) by (simp add: aead_ok_def)
  obtain d where e: "encryptBuffer W api draw progress (Some pw) (int (length pw)) (Some plain) (int (length plain)) (int (length m)) (Some m)
      = Some (done_with (int (length bs)) (bs @ drop (length bs) m), d)"
    using encryptBuffer_runs [OF assms(1-6), of plain "Some plain" "int (length m)" m draw] bs assms(8,9) by auto
  have "decryptBuffer W api progress (Some pw) (int (length pw)) (Some bs) (int (length bs)) (int (length m')) (Some m')
      = Some (done_with (int (length plain)) (plain @ drop (length plain) m'))"
    using decryptBuffer_opens [OF _ assms(2,4-6) openContainer_sealContainer [OF assms(2,3) bs], of W api "int (length m')" m'] assms(1,8-10) len
    by (simp add: provides_def)
  then show ?thesis using e by (simp add: api_EncryptBuffer_def api_DecryptBuffer_def len [symmetric])
qed

theorem password_container_round_trip_witness:
  "\<exists>r d. api_EncryptBuffer openWorld defaultApi 0 None (Some [7]) 1 (Some [1, 2, 3]) 3 40 (Some (replicate 40 0)) = Some (r, d)
     \<and> ocStatus r = NO_ERROR \<and> ocSize r = 25 \<and>
   api_DecryptBuffer openWorld defaultApi None (Some [7]) 1 (Some (delivered r)) (ocSize r) 3 (Some [9, 9, 9]) = Some (done_with 3 [1, 2, 3])"
proof -
  have s: "sealContainer openAead openRandom openKdf 0 [7] [1, 2, 3] \<noteq> None"
    by (simp add: sealContainer_def open_seals openAead_def openRandom_def openKdf_def sealRecord_def)
  have n: "containerSize openAead (int (length [1, 2, 3 :: byte])) = 25"
    by (simp add: containerSize_def chunkCount_def openAead_def)
  show ?thesis
    using password_container_round_trip [OF open_provider, of None "[7]" 0 "[1, 2, 3]" "replicate 40 0" "[9, 9, 9]" defaultApi] s n
    by (simp add: INT_MAX_def)
qed

text \<open>C10: \<open>DecryptBuffer\<close> implements the container format: it answers
  \<open>NO_ERROR\<close> exactly for the octets that the specification \<open>openContainer\<close> opens under the password, and then delivers
  that plaintext and its size; every other octet string is refused with an error and the size 0.\<close>

theorem decryption_implements_the_container:
  assumes "aeadOf W api = Some A" "kdfOf W api = Some K" "aead_ok A" "kdf_ok K" "unhindered progress" "pw \<noteq> []"
    "int (length bs) \<le> INT_MAX" "length bs \<le> length m"
  shows "\<exists>r. api_DecryptBuffer W api progress (Some pw) (int (length pw)) (Some bs) (int (length bs)) (int (length m)) (Some m) = Some r \<and>
    (case openContainer A K pw bs of
       None \<Rightarrow> ocStatus r \<noteq> NO_ERROR \<and> ocSize r = 0
     | Some plain \<Rightarrow> r = done_with (int (length plain)) (plain @ drop (length plain) m))"
proof (cases "openContainer A K pw bs")
  case None
  then show ?thesis
    using decryptBuffer_refuses [OF conjI [OF assms(1,2)] assms(3-6) None, of "int (length m)" m] assms(8)
    by (simp add: api_DecryptBuffer_def)
next
  case (Some plain)
  have "length plain \<le> length bs"
    using Some openRecords_shorter [of A 1024] assms(3)
    by (fastforce simp: openContainer_def aead_ok_def bind_eq_Some_conv split: if_splits)
  then show ?thesis
    using decryptBuffer_opens [OF conjI [OF assms(1,2)] assms(3-6) Some assms(7), of "int (length m)" m] assms(8) Some
    by (simp add: api_DecryptBuffer_def)
qed

theorem decryption_implements_the_container_witness:
  "\<exists>r. api_DecryptBuffer openWorld defaultApi None (Some [7]) 1 (Some (replicate 16 0 @ [1, 0, 0, 0, 5, 65, 7])) 23 23 (Some (replicate 23 0)) = Some r
     \<and> r = done_with 1 (65 # replicate 22 0)"
proof -
  have "openRecords 1024 openAead [7] [1, 0, 0, 0, 5, 65, 7] = Some [65]"
    using openRecords_Cons [of openAead "[1, 0, 0, 0]" "[5]" "[65]" "[7]" 1024 "[7]" "[]"]
    by (simp add: recordParts_def readUInt32_value openAead_def)
  then have "openContainer openAead openKdf [7] (replicate 16 0 @ [1, 0, 0, 0, 5, 65, 7]) = Some [65]"
    by (simp add: openContainer_def openKdf_def openAead_def)
  then show ?thesis
    using decryption_implements_the_container [where W = openWorld and api = defaultApi and A = openAead and K = openKdf and progress = None
        and pw = "[7]" and bs = "replicate 16 0 @ [1, 0, 0, 0, 5, 65, 7]" and m = "replicate 23 0"]
      open_provider(1) [of defaultApi] open_provider(2-4) by (simp add: provides_def INT_MAX_def)
qed

text \<open>C25: Neither \<open>EncryptBuffer\<close> nor \<open>DecryptBuffer\<close> reads or writes outside
  the caller's buffers, whatever the arguments, the octets in them and the progress callback: both return, and
  the output buffer keeps its length, for sizes that are true of the buffers and a provider that keeps to its sizes.\<close>

theorem password_container_stays_inside:
  assumes "\<And>A. aeadOf W api = Some A \<Longrightarrow> aead_sizes A" "\<And>R. randomOf W api = Some R \<Longrightarrow> random_ok R"
    "bufferHolds password passwordSize" "bufferHolds input inputSize" "roomy capacity out"
  shows "(\<exists>r d. api_EncryptBuffer W api draw progress password passwordSize input inputSize capacity out = Some (r, d) \<and> sameRoom (ocMemory r) out)
    \<and> (\<exists>r. api_DecryptBuffer W api progress password passwordSize input inputSize capacity out = Some r \<and> sameRoom (ocMemory r) out)"
  unfolding api_EncryptBuffer_def api_DecryptBuffer_def
  using encryptBuffer_room [OF assms] decryptBuffer_room [OF assms(1,3-5)] by (rule conjI)

theorem password_container_stays_inside_witness:
  "(\<exists>r d. api_EncryptBuffer openWorld defaultApi 0 (Some (\<lambda>p t. p < t)) (Some [7]) 1 (Some [1, 2, 3]) 3 40 (Some (replicate 40 0)) = Some (r, d)
      \<and> sameRoom (ocMemory r) (Some (replicate 40 0)))
   \<and> (\<exists>r. api_DecryptBuffer openWorld defaultApi (Some (\<lambda>p t. p < t)) (Some [7]) 1 (Some [1, 2, 3]) 3 40 (Some (replicate 40 0)) = Some r
      \<and> sameRoom (ocMemory r) (Some (replicate 40 0)))"
  using open_provider(1) [of defaultApi] open_provider(2-4)
  by (intro password_container_stays_inside) (auto simp: provides_def aead_ok_def)

text \<open>C26: A container that was cut behind any of its full chunks is accepted: \<open>DecryptBuffer\<close>
  answers \<open>NO_ERROR\<close> and delivers the plaintext up to that chunk. No record says that it is the last, and the
  number of records is authenticated nowhere.\<close>

theorem shortened_container_is_accepted:
  assumes "provides W api A R K" "aead_ok A" "random_ok R" "kdf_ok K" "unhindered progress" "pw \<noteq> []"
    "sealContainer A R K draw pw (front @ behind) = Some bs" "length front mod 1024 = 0" "int (length bs) \<le> INT_MAX" "length bs \<le> length m"
  shows "api_DecryptBuffer W api progress (Some pw) (int (length pw)) (Some (take (nat (containerSize A (int (length front)))) bs))
      (containerSize A (int (length front))) (int (length m)) (Some m)
    = Some (done_with (int (length front)) (front @ drop (length front) m))"
proof -
  have s: "sealContainer A R K draw pw front = Some (take (nat (containerSize A (int (length front)))) bs)"
    by (rule sealContainer_prefix [OF assms(2,3,7,8)])
  have len: "int (length (take (nat (containerSize A (int (length front)))) bs)) = containerSize A (int (length front))"
    using sealContainer_length [OF _ assms(3) s] assms(2) by (simp add: aead_ok_def)
  have "length front \<le> length bs"
  proof -
    have "int (length front) \<le> containerSize A (int (length front))"
      using containerSize_length [of A front] assms(2) by (simp add: aead_ok_def)
    then show ?thesis using len by (simp only: length_take)
  qed
  then show ?thesis
    using decryptBuffer_opens [OF _ assms(2,4-6) openContainer_sealContainer [OF assms(2,3) s], of W api "int (length m)" m]
      assms(1,9,10) len by (simp add: api_DecryptBuffer_def provides_def)
qed

theorem shortened_container_is_accepted_witness:
  "\<exists>bs. sealContainer openAead openRandom openKdf 0 [7] (replicate 1024 1 @ [5]) = Some bs \<and>
    api_DecryptBuffer openWorld defaultApi None (Some [7]) 1 (Some (take 1046 bs)) 1046 3000 (Some (replicate 3000 0))
      = Some (done_with 1024 (replicate 1024 1 @ replicate 1976 0))"
proof -
  have "chunksOf 1024 (replicate 1024 1 @ [5]) = [replicate 1024 1, [5]]"
    using chunksOf_append [of "replicate 1024 1" 1024 "[5]"] by (simp add: open_seals)
  then obtain bs where s: "sealContainer openAead openRandom openKdf 0 [7] (replicate 1024 1 @ [5]) = Some bs" "length bs = 1053"
    by (simp add: sealContainer_def openAead_def openRandom_def openKdf_def sealRecord_def)
  have n: "containerSize openAead (int (length (replicate 1024 (1 :: byte)))) = 1046"
    by (simp add: containerSize_def chunkCount_def openAead_def)
  have "drop 1024 (replicate 3000 (0 :: byte)) = replicate 1976 0" by simp
  then show ?thesis
    using shortened_container_is_accepted [OF open_provider, of None "[7]" 0 "replicate 1024 1" "[5]" bs "replicate 3000 0" defaultApi] s n
    by (simp only: length_replicate list.size) (auto simp: INT_MAX_def)
qed

text \<open>The salt alone opens under every password.\<close>

lemma salt_alone_opens:
  assumes "aeadOf W api = Some A" "kdfOf W api = Some K" "aead_ok A" "kdf_ok K" "pw \<noteq> []" "length salt = 16"
    "K pw salt PASSWORD_KDF_ITERATIONS (aeadKeySize A) \<noteq> None"
  shows "api_DecryptBuffer W api None (Some pw) (int (length pw)) (Some salt) 16 0 (Some []) = Some (done_with 0 [])"
proof -
  from assms(6,7) have "openContainer A K pw salt = Some []" by (auto simp: openContainer_def)
  from decryptBuffer_opens [OF conjI [OF assms(1,2)] assms(3,4) unhindered_None assms(5) this, of 0 "[]"] assms(6) show ?thesis
    by (simp add: api_DecryptBuffer_def INT_MAX_def)
qed

end
