(* ===== verification/Spec2Isabelle.thy ===== *)
theory Spec2Isabelle
  imports EngineQueries ClearSign FileSafety UtilityContracts CryptoApiSafety
begin

text \<open>
  Verification of HashCryptoLib: the OpenPGP engine, src/src/Pgp/PgpEngine.cpp, the utilities of
  src/src/Utils/Utils.cpp, and the password containers of src/src/CryptoApi.cpp.

  \<^bold>\<open>The program.\<close> \<open>CPgpEngine\<close> reads and writes OpenPGP (RFC 4880) keys, messages and signatures. An
  object holds one own identity (a master key, user IDs, subkeys, all under a password), one
  imported peer and further recipients. Its methods change that state (generation, user IDs,
  subkeys, expiration, password, imports), use it (encrypt, decrypt, sign, verify, clear-sign) or
  report on it and on messages. Underneath are functions without state: packet headers and lengths,
  multiprecision integers, armor, key and signature packets, session keys, a bzip2 decoder.
  \<open>CUtils\<close> holds hexadecimal and Base64 text and the padding schemes of block ciphers. \<open>CCryptoApi\<close> encrypts
  buffers under a password, chunk by chunk, with the ciphers of a provider. The rest of the repository adapts cryptographic libraries (OpenSSL, Botan, Crypto++, libgcrypt) to
  common interfaces and binds them to scripts and a command line.

  \<^bold>\<open>How the code is modelled.\<close>
  \<^item> A vector of octets is a list of 8-bit words, \<open>std::size_t\<close> a natural number whose
    differences are written \<open>size_sub\<close> (they wrap), a 32-bit integer a 32-bit word, an \<open>int\<close>
    size the signed value of the low 32 bits (\<open>asInt\<close>), \<open>CryptoPP::Integer\<close> a natural number.
  \<^item> A function that returns \<open>bool\<close> with outputs yields \<open>yes v\<close>, \<open>no\<close>, or \<open>None\<close> for undefined
    behaviour: an index, iterator range or copy whose place or length depends on data is checked against the
    vector or array it uses (\<open>byte_at\<close>, \<open>slice\<close>, \<open>put_at\<close>), a read of a file against the buffer it fills
    (\<open>readInto\<close>, \<open>readExactInto\<close>), so that the absence of undefined behaviour is a theorem (collection
    \<open>ub_free\<close>). Not checked are accesses whose place and length are constants of the code: fields of fixed length that a
    writer fills, and the loops that hash or encrypt a file, which always ask for the size of their buffer. The address one past
    the end of a vector is not a read.
  \<^item> The state of an object is the record \<open>engine\<close> (the structure \<open>Impl\<close>); an operation takes it
    and returns a \<open>status\<close> with the new state. A pointer argument with its size is an optional list;
    a pointer to a result is a flag; an output buffer is its capacity, and what is copied is part of the
    answer (\<open>copyOut\<close>).
  \<^item> The functions of Crypto++ that the engine calls (hashes, AES, RSA, Ed25519, X25519, deflate) are the
    fields of a record \<open>crypto\<close>, an argument of all definitions that use them. Theorems name the
    documented behaviour they rely on: \<open>lib_ok\<close> and its parts in theory Crypto,
    \<open>messageLib_ok\<close> in MessageFacts, key by key \<open>rsa_sign_ok\<close> and \<open>ed_sign_ok\<close>. The concrete
    library \<open>sample_lib\<close> satisfies them and serves the witnesses. Random octets and the time are
    arguments (\<open>draws\<close>, \<open>message_draws\<close>, \<open>now\<close>). In the operations that change the identity a signature may also fail:
    \<open>drawSigns\<close> says which ones throw, and \<open>caught\<close> is the handler that turns the exception into an empty packet.
  \<^item> Loops are structural recursion or functions with a measure: the distance to the end of the buffer,
    and for packets inside compressed data first the depth, 3 at the outset as in the code. No fuel is
    used: every definition is total, also the bzip2 decoder.

  \<^bold>\<open>Theories and what they show.\<close>
  \<^item> Prelude: outcomes, bounds-checked access, lemma collections.
  \<^item> Codec (\<open>readPacketHeader\<close> ... \<open>writePacket\<close>), PartialBody (\<open>dechunkPartialBody\<close>,
    \<open>reassemblePartialBodyLengths\<close>), Mpi, Armor: writers and readers are inverse; re-framing
    partial lengths equals the definite-length packet; CRC-24 rejects a changed octet; readers stay in
    bounds, apart from the re-framing of a part of a buffer. Mpi holds the locale \<open>wire_field\<close>, the contract of a
    length-prefixed field, interpreted for MPIs, native points (Keys) and counted areas (Signatures).
  \<^item> Crypto, Keys, Signatures: key packets, AES key wrap, S2K, the secret-key envelope; signature
    packets verify under their own key and the hashed octets determine document and type.
  \<^item> EngineState, Identity, IdentityInv, IdentityOps, Lifecycle, KeyPairs: the operations on
    the own identity as state passing, and the step relation \<open>engine_step\<close> with \<open>reachable\<close>. The
    locale \<open>identity_operation\<close> is the contract of the password-protected operations (refusal without
    the password, the master key stays, preservation), \<open>atomic_operation\<close> extends it by atomicity; each operation interprets
    the second, except \<open>AddUserId\<close>, which may leave the new user ID behind when it fails. \<open>identity_inv\<close> and
    \<open>pairs_inv\<close> hold in every reachable state.
  \<^item> PeerKeys, PeerProps, ExportImport: the reader of key blocks, the choice of the encryption subkey
    against its specification, and the exported block read back.
  \<^item> Bzip2Symbols, BurrowsWheeler, Bzip2: the decoder never leaves its tables; the inverse
    Burrows-Wheeler transform inverts the transform defined by sorting rotations.
  \<^item> Message, MessageFacts: session keys, integrity-protected packets, compression, one-pass
    signatures. Every recipient opens the message; only plaintext of the message's container that passes the check, under
    the session key that the own key opens, is returned; a message that ends in too short a session-key packet is read past its end.
  \<^item> CallerBuffer, EngineMessages, EngineFacts: the methods that encrypt, decrypt, sign and verify.
    Export, import and messaging are composed: what one reachable engine exports, another imports
    and encrypts to, the first decrypts, as long as one of its subkeys may be encrypted to (\<open>correspondents\<close>); its signatures
    are valid for the other. \<open>addressed\<close> is the subkey that the sender picks.
  \<^item> Inspection, InspectionFacts, EngineQueries: issuers, reasons for revocation, reports on
    messages, getters, exports and revocation certificates.
  \<^item> ClearSign: canonical lines, dash-escaping, the round trip of clear-signed text, and two kinds of
    text for which it fails.

  \<^item> FileStreams, FileDecrypt, FileMethods: the methods on files. An input file is the list of what its reads
    deliver (\<open>reads\<close>) or, where the code seeks, its content with the answers of the operating system (\<open>opened\<close>); the disk
    is a map from paths to contents, and \<open>file_system\<close> says which calls succeed and how much each read delivers. Writing is
    in order, so an open output file is the list of octets written; the shared variables of
    \<open>decryptSeipBodyStreaming\<close> are the record \<open>seip_reader\<close>. A compressor or decompressor that works in pieces is a pair of
    functions: what it has put out after some input, and what in the end. The locale \<open>sink\<close> is the contract of
    a consumer to which the cut of its input does not matter; the hash, the file, the cipher and the compressor interpret it.
  \<^item> FileFacts, FileRoundTrip, FileEngine, FileSafety: the streaming reader is tracked by its position in the decrypted
    container (\<open>tracks\<close>), so that every file that \<open>EncryptFile\<close> or \<open>EncryptFileCompressed\<close> writes to the owner's first
    subkey is read back, also when its container is cut into chunks (\<open>filePeers\<close>: \<open>DecryptFile\<close> tries that subkey only, and a file for
    a newer one is refused). The locale \<open>pkesk_walk\<close> (MessageFacts) is the contract of the walk over session-key
    packets; the walk in memory and the one in a file interpret it. Failure leaves other files alone, except that a
    failed move loses the output. For every file whatever, the readers stay in bounds, and what \<open>DecryptFile\<close> puts in place stood in
    the container of the file and has passed the checksum: \<open>containerOctets\<close> are the octets of a container, in one piece or in chunks, and
    \<open>follows\<close> relates the reader to what it has read and handed on.

  \<^item> CallerMemory: the memory of the caller of \<open>CUtils\<close> and \<open>CCryptoApi\<close>, where every function reads and writes
    at offsets of a buffer that is there. The locale \<open>sized_output\<close> is their convention (ask for the size, then call), \<open>codec\<close>
    two such calls that undo each other.
  \<^item> Utilities, UtilityFacts, UtilityContracts: \<open>HexEncode\<close>, \<open>HexDecode\<close>, \<open>Base64Encode\<close>, \<open>Base64Decode\<close>, \<open>Pad\<close> and
    \<open>Unpad\<close> interpret the two locales: they are inverse, answer the size asked for, and stay inside the buffers.
  \<^item> SealedRecords, CryptoApi, CryptoApiFacts, CryptoApiSafety: the provider is a record of functions (\<open>aead\<close> with
    \<open>aead_ok\<close>, a random source, a key derivation). \<open>sealRecords\<close> and \<open>openRecords\<close> are the record format as functions on
    octets; the loops of \<open>CCryptoApi\<close> over the caller's buffers refine them, whatever the arguments they stay inside the
    buffers, and a container that was cut between records is accepted.

  \<^bold>\<open>Bounds.\<close> Lengths in theorems are below the limits of the formats: 32-bit packet bodies,
  16-bit subpacket areas (a reason for revocation below 65520 octets), 16-bit MPI lengths. A
  \<open>size_t\<close> sum does not wrap, since vectors are far shorter than half the address space.

  \<^bold>\<open>Not modelled.\<close> Exceptions for exhausted memory and a moved-from object (null \<open>impl_\<close>), and exceptions of the
  cryptographic library other than those of the signatures above: a method that encrypts, decrypts, signs or certifies for the caller
  then reports an error and writes nothing, and does not change the object in any case; key generation and the protection
  of secret keys come before any change to the object. In the file methods:
  another process that changes a file meanwhile, two paths for one file, and the percentages given to the progress callback,
  of which only the answer counts. \<open>PgpEngineWrapper\<close> runs another program. In \<open>CCryptoApi\<close>: what a provider leaves in an
  output buffer when it fails (the model leaves the buffer as it was), exceptions, and the services that only call the
  provider (hashes, asymmetric ciphers, signatures, key agreement).
  The certificate, SSH and provider classes call vendored libraries, whose code is outside this
  development; the loader, script bindings and tests are glue.
\<close>


section \<open>Properties\<close>

text \<open>C18: Without an identity, without a password, or with a password whose hash is not the stored
  one, no method of the engine that decrypts or signs, in memory or on files, and none that makes a revocation
  certificate does anything: each of them (\<open>DecryptBuffer\<close>, \<open>DecryptStringArmored\<close>, \<open>DecryptAndVerifyBuffer\<close>,
  \<open>DecryptAndVerifyStringArmored\<close>, \<open>EncryptAndSignBuffer\<close>, \<open>EncryptAndSignStringArmored\<close>, \<open>SignBuffer\<close>, \<open>ClearSignString\<close>,
  \<open>RevokeKeyArmored\<close>, \<open>DecryptFile\<close>, \<open>SignFile\<close>) reports an invalid argument, writes nothing to the caller or the disk and sets
  no flag, whatever the input is.\<close>

theorem messages_need_the_password:
  assumes "\<not> (ownKeyGenerated S \<and> has_text pw \<and> sha256 L (the pw) = passwordCheckHash S)"
  shows "DecryptBuffer L S pw input sizeGiven buffer = Some (refused INVALID_ARGUMENT)
    \<and> DecryptStringArmored L S pw input sizeGiven buffer = Some (refused INVALID_ARGUMENT)
    \<and> DecryptAndVerifyBuffer L S pw input sizeGiven flagGiven buffer = Some (refused INVALID_ARGUMENT, None)
    \<and> DecryptAndVerifyStringArmored L S pw input sizeGiven flagGiven buffer = Some (refused INVALID_ARGUMENT, None)
    \<and> EncryptAndSignBuffer L M t S pw input n sizeGiven buffer = Some (refused INVALID_ARGUMENT)
    \<and> EncryptAndSignStringArmored L M t S pw input n sizeGiven buffer = Some (refused INVALID_ARGUMENT)
    \<and> SignBuffer L t S pw input n sizeGiven buffer = Some (refused INVALID_ARGUMENT)
    \<and> ClearSignString L t S pw input n sizeGiven buffer = Some (refused INVALID_ARGUMENT)
    \<and> RevokeKeyArmored L t S pw reason why sizeGiven buffer = Some (refused INVALID_ARGUMENT)
    \<and> DecryptFile L Z E S pw p q disk = Some (INVALID_ARGUMENT, disk)
    \<and> SignFile L t E S pw p q disk = (INVALID_ARGUMENT, disk)"
proof -
  have closed: "\<not> mayUseIdentity S pw \<or> \<not> passwordMatches L S pw"
    using assms by (auto simp: mayUseIdentity_def passwordMatches_def checkPasswordHash_def)
  then have "DecryptFile L Z E S pw p q disk = Some (INVALID_ARGUMENT, disk)" "SignFile L t E S pw p q disk = (INVALID_ARGUMENT, disk)"
    unfolding DecryptFile_def SignFile_def by presburger+
  with closed show ?thesis
    by (auto simp: DecryptBuffer_def DecryptStringArmored_def DecryptAndVerifyBuffer_def DecryptAndVerifyStringArmored_def
        EncryptAndSignBuffer_def EncryptAndSignStringArmored_def SignBuffer_def ClearSignString_def RevokeKeyArmored_def split: option.split)
qed

lemma messages_need_the_password_witness:
  "SignBuffer sample_lib 0 newEngine (Some [112, 119]) (Some [104, 105]) 2 True (Some 4096) = Some (refused INVALID_ARGUMENT)
    \<and> SignFile sample_lib 0 sample_files newEngine (Some [112, 119]) (Some ''a'') (Some ''b'') [''a'' \<mapsto> [104, 105]]
      = (INVALID_ARGUMENT, [''a'' \<mapsto> [104, 105]])"
  using messages_need_the_password [of newEngine "Some [112, 119]" sample_lib] by (simp add: newEngine_def)

end
